(* ===== verification/Prelude.thy ===== *)
theory Prelude
  imports Main "HOL-Library.Word"
begin

text \<open>
  Shared vocabulary of the development: the names of the machine integers of the C code, the
  collections of simplification facts the component theories fill, and the generic lemmas on
  words, options and lists that their proofs share.
\<close>

unbundle bit_operations_syntax

section \<open>Machine integers\<close>

type_synonym u8 = "8 word"
type_synonym u16 = "16 word"
type_synonym u32 = "32 word"
type_synonym u64 = "64 word"

text \<open>
  A computation of the C code is a value of an option type. \<open>None\<close> means that the code has no
  defined result: it leaves the bounds of an array, or a loop does not end.
\<close>

named_theorems kernel_simps \<open>unfolding facts of the kernel model\<close>
named_theorems frame_simps \<open>fields an operation leaves alone\<close>

section \<open>Unsigned arithmetic without wrap-around\<close>

lemma unat_add_no_wrap:
  "unat a + unat b < 2 ^ LENGTH('a) \<Longrightarrow> unat (a + b) = unat a + unat b" for a b :: "'a::len word"
  by (simp add: unat_word_ariths)

lemma unat_inc: "i < n \<Longrightarrow> unat (i + 1) = Suc (unat i)" for i n :: "'a::len word"
proof -
  assume "i < n"
  then have "unat i < unat n" by (simp add: word_less_nat_alt)
  also have "unat n < 2 ^ LENGTH('a)" by (rule unsigned_less)
  finally show ?thesis
    using \<open>unat i < unat n\<close> unsigned_less [of n, where 'a = nat]
    by (subst unat_add_no_wrap) (auto simp del: unsigned_less)
qed

lemma unat_sub_no_wrap: "b \<le> a \<Longrightarrow> unat (a - b) = unat a - unat b" for a b :: "'a::len word"
  by (simp add: unat_sub)

lemma unat_dec: "i \<noteq> 0 \<Longrightarrow> unat (i - 1) = unat i - 1 \<and> 0 < unat i" for i :: "'a::len word"
  by (metis One_nat_def Suc_leI measure_unat unat_1 unat_gt_0 unat_minus_one)

lemma less_inc: "c < n \<Longrightarrow> k < c + 1 \<longleftrightarrow> k < c \<or> k = c" for c n k :: "'a::len word"
  by (auto simp: word_less_nat_alt unat_inc less_Suc_eq unsigned_word_eqI)

section \<open>Signed values\<close>

lemma sint_small: "- (2 ^ 31) \<le> k \<Longrightarrow> k < 2 ^ 31 \<Longrightarrow> sint (word_of_int k :: u32) = k"
  by (simp add: int_word_sint)

lemma sint_of_nat_small: "n < 2 ^ 31 \<Longrightarrow> sint (of_nat n :: u32) = int n"
  using sint_small [of "int n"] by simp

section \<open>Single bits\<close>

lemma and_exp: "w AND 2 ^ n = (if bit w n then 2 ^ n else 0)" for w :: "'a::len word"
  by (rule bit_eqI) (auto simp: bit_simps)

section \<open>Page offsets\<close>

lemma and_0xFFF: "w AND 0xFFF = take_bit 12 w" for w :: u64
  by (simp add: take_bit_eq_mask mask_eq_exp_minus_1)

lemma and_not_0xFFF: "w AND NOT 0xFFF = push_bit 12 (drop_bit 12 w)" for w :: u64
proof -
  have "w AND NOT (mask 12) = push_bit 12 (drop_bit 12 w)"
    by (rule bit_eqI) (auto simp: bit_simps)
  then show ?thesis by (simp add: mask_eq_exp_minus_1)
qed

lemma mult_4096: "k * 4096 = push_bit 12 k" for k :: u64
  by (simp add: push_bit_eq_mult)

lemma take_bit_12_page [simp]: "take_bit 12 (k * 4096) = 0" for k :: u64
  unfolding mult_4096 by (rule bit_eqI) (simp add: bit_simps)

section \<open>Options as failing computations\<close>

lemma bind_eq_SomeD: "Option.bind m f = Some y \<Longrightarrow> \<exists>x. m = Some x \<and> f x = Some y"
  by (cases m) auto

text \<open>A loop over a list of loop indices whose body may be undefined.\<close>

primrec foldM :: "('a \<Rightarrow> 's \<Rightarrow> 's option) \<Rightarrow> 'a list \<Rightarrow> 's \<Rightarrow> 's option" where
  "foldM f [] s = Some s"
| "foldM f (x # xs) s = Option.bind (f x s) (foldM f xs)"

lemma foldM_append: "foldM f (xs @ ys) s = Option.bind (foldM f xs s) (foldM f ys)"
  by (induction xs arbitrary: s) (auto split: bind_split)

lemma foldM_invariant:
  assumes "\<And>x s. x \<in> set xs \<Longrightarrow> P s \<Longrightarrow> \<exists>s'. f x s = Some s' \<and> P s'" "P s"
  shows "\<exists>s'. foldM f xs s = Some s' \<and> P s'"
  using assms
proof (induction xs arbitrary: s)
  case (Cons x xs)
  obtain s1 where s1: "f x s = Some s1" "P s1" using Cons.prems by fastforce
  have "\<exists>s'. foldM f xs s1 = Some s' \<and> P s'" using Cons.prems s1 by (intro Cons.IH) auto
  with s1 show ?case by simp
qed simp

lemma fold_invariant_set:
  assumes "\<And>x s. x \<in> set xs \<Longrightarrow> P s \<Longrightarrow> P (f x s)" "P s"
  shows "P (fold f xs s)"
  using assms by (induction xs arbitrary: s) auto

section \<open>Little-endian fields in lists of bytes\<close>

definition load16 :: "u8 list \<Rightarrow> nat \<Rightarrow> u16" where
  "load16 bs i = ucast (bs ! i) OR push_bit 8 (ucast (bs ! (i + 1)))"

definition load32 :: "u8 list \<Rightarrow> nat \<Rightarrow> u32" where
  "load32 bs i = ucast (bs ! i) OR push_bit 8 (ucast (bs ! (i + 1))) OR push_bit 16 (ucast (bs ! (i + 2))) OR
     push_bit 24 (ucast (bs ! (i + 3)))"

definition load64 :: "u8 list \<Rightarrow> nat \<Rightarrow> u64" where
  "load64 bs i = ucast (load32 bs i) OR push_bit 32 (ucast (load32 bs (i + 4)))"

definition bytes16 :: "u16 \<Rightarrow> u8 list" where
  "bytes16 x = [ucast x, ucast (drop_bit 8 x)]"

definition bytes32 :: "u32 \<Rightarrow> u8 list" where
  "bytes32 x = [ucast x, ucast (drop_bit 8 x), ucast (drop_bit 16 x), ucast (drop_bit 24 x)]"

definition bytes64 :: "u64 \<Rightarrow> u8 list" where
  "bytes64 x = bytes32 (ucast x) @ bytes32 (ucast (drop_bit 32 x))"

lemma load16_bytes16: "load16 (bytes16 x @ r) 0 = x"
  unfolding load16_def bytes16_def by (rule bit_eqI) (auto simp: bit_simps)

lemma load_skip: "load16 (xs @ ys) (length xs + i) = load16 ys i" "load32 (xs @ ys) (length xs + i) = load32 ys i"
  by (simp_all add: load16_def load32_def nth_append)

lemma load32_bytes32: "load32 (bytes32 x @ r) 0 = x"
proof (rule bit_eqI)
  fix n assume "possible_bit TYPE(u32) n"
  then have "n < 32" by (simp add: possible_bit_word)
  consider "n < 8" | "8 \<le> n" "n < 16" | "16 \<le> n" "n < 24" | "24 \<le> n" by linarith
  then show "bit (load32 (bytes32 x @ r) 0) n = bit x n"
    using \<open>n < 32\<close> by cases (auto simp: load32_def bytes32_def bit_simps)
qed

lemma length_bytes [simp]: "length (bytes16 x) = 2" "length (bytes32 y) = 4"
  by (simp_all add: bytes16_def bytes32_def)

lemma length_bytes64 [simp]: "length (bytes64 x) = 8"
  by (simp add: bytes64_def)

lemma load64_bytes64: "load64 (bytes64 x @ r) 0 = x"
proof -
  have "load32 (bytes64 x @ r) 0 = ucast x" using load32_bytes32 by (simp add: bytes64_def)
  moreover have "load32 (bytes64 x @ r) (0 + 4) = ucast (drop_bit 32 x)"
    using load_skip(2) [of "bytes32 (ucast x)" "bytes32 (ucast (drop_bit 32 x)) @ r" 0] load32_bytes32 by (simp add: bytes64_def)
  moreover have "ucast (ucast x :: u32) OR push_bit 32 (ucast (ucast (drop_bit 32 x) :: u32)) = x"
    by (rule bit_eqI) (auto simp: bit_simps)
  ultimately show ?thesis by (simp add: load64_def)
qed

lemma bytes16_0 [simp]: "bytes16 0 = [0, 0]"
  by (simp add: bytes16_def)

end
