(* ===== verification/Pmm.thy ===== *)
theory Pmm
  imports Prelude
begin

text \<open>
  The physical memory manager, \<^verbatim>\<open>kernel/pmm.c\<close>: a bitmap with one bit per 4 KB page (1 = in
  use), three counters, and first-fit allocation of single pages. Every access to the bitmap is
  checked against the array's bounds, so that an access outside it is \<open>None\<close>.
\<close>

section \<open>State and operations\<close>

abbreviation (input) PMM_PAGE_SIZE :: u64 where "PMM_PAGE_SIZE \<equiv> 4096"
abbreviation (input) BITMAP_SIZE :: u64 where "BITMAP_SIZE \<equiv> 16384"
abbreviation (input) LIMINE_MEMMAP_USABLE :: u64 where "LIMINE_MEMMAP_USABLE \<equiv> 0"

text \<open>The cells of \<open>pmm_bitmap\<close> below \<open>BITMAP_SIZE\<close> are the array of the source.\<close>

record pmm =
  pmm_bitmap :: "u64 \<Rightarrow> u8"
  total_memory :: u64
  free_memory :: u64
  total_pages :: u64

record limine_memmap_entry =
  mm_base :: u64
  mm_length :: u64
  mm_type :: u64

definition bitmap_set :: "u64 \<Rightarrow> 'a pmm_scheme \<Rightarrow> 'a pmm_scheme option" where
  "bitmap_set b s =
     (if b div 8 < BITMAP_SIZE
      then Some (s\<lparr>pmm_bitmap := (pmm_bitmap s)
             (b div 8 := pmm_bitmap s (b div 8) OR push_bit (unat (b mod 8)) 1)\<rparr>)
      else None)"

definition bitmap_clear :: "u64 \<Rightarrow> 'a pmm_scheme \<Rightarrow> 'a pmm_scheme option" where
  "bitmap_clear b s =
     (if b div 8 < BITMAP_SIZE
      then Some (s\<lparr>pmm_bitmap := (pmm_bitmap s)
             (b div 8 := pmm_bitmap s (b div 8) AND NOT (push_bit (unat (b mod 8)) 1))\<rparr>)
      else None)"

definition bitmap_test :: "u64 \<Rightarrow> 'a pmm_scheme \<Rightarrow> bool option" where
  "bitmap_test b s =
     (if b div 8 < BITMAP_SIZE
      then Some (pmm_bitmap s (b div 8) AND push_bit (unat (b mod 8)) 1 \<noteq> 0)
      else None)"

text \<open>The first loop of \<open>pmm_init\<close>: the highest usable address and the amount of usable memory.\<close>

fun memmap_extent :: "limine_memmap_entry list \<Rightarrow> u64 \<Rightarrow> u64 \<Rightarrow> u64 \<times> u64" where
  "memmap_extent [] highest usable = (highest, usable)"
| "memmap_extent (e # es) highest usable =
     (if mm_type e \<noteq> LIMINE_MEMMAP_USABLE then memmap_extent es highest usable
      else let top = mm_base e + mm_length e in
           memmap_extent es (if top > highest then top else highest) (usable + mm_length e))"

text \<open>
  The inner loop over one region, \<open>for (j = 0; j < length; j += PMM_PAGE_SIZE)\<close>. The counter
  wraps around for a length above \<open>2\<^sup>6\<^sup>4 - 4096\<close>, and the loop then never ends.
\<close>

partial_function (option) pmm_clear_range ::
  "u64 \<Rightarrow> u64 \<Rightarrow> u64 \<Rightarrow> 'a pmm_scheme \<Rightarrow> 'a pmm_scheme option" where
  "pmm_clear_range bs len j s =
     (if j < len then
        if (bs + j) div PMM_PAGE_SIZE < total_pages s then
          Option.bind (bitmap_clear ((bs + j) div PMM_PAGE_SIZE) s) (\<lambda>s'.
            pmm_clear_range bs len (j + PMM_PAGE_SIZE)
              (s'\<lparr>free_memory := free_memory s' + PMM_PAGE_SIZE\<rparr>))
        else pmm_clear_range bs len (j + PMM_PAGE_SIZE) s
      else Some s)"

fun pmm_clear_usable :: "limine_memmap_entry list \<Rightarrow> 'a pmm_scheme \<Rightarrow> 'a pmm_scheme option" where
  "pmm_clear_usable [] s = Some s"
| "pmm_clear_usable (e # es) s =
     (if mm_type e = LIMINE_MEMMAP_USABLE
      then Option.bind (pmm_clear_range (mm_base e) (mm_length e) 0 s) (pmm_clear_usable es)
      else pmm_clear_usable es s)"

text \<open>The last loop of \<open>pmm_init\<close>: the first megabyte is taken out of use again.\<close>

function pmm_reserve_low :: "u64 \<Rightarrow> 'a pmm_scheme \<Rightarrow> 'a pmm_scheme option" where
  "pmm_reserve_low page s =
     (if page < 0x100000 div PMM_PAGE_SIZE \<and> page < total_pages s then
        Option.bind (bitmap_test page s) (\<lambda>used.
          if used then pmm_reserve_low (page + 1) s
          else Option.bind (bitmap_set page s) (\<lambda>s'.
            pmm_reserve_low (page + 1) (s'\<lparr>free_memory := free_memory s' - PMM_PAGE_SIZE\<rparr>)))
      else Some s)"
  by pat_completeness auto
termination
  by (relation "measure (\<lambda>(page, s). 256 - unat page)")
    (auto simp: unat_inc word_less_nat_alt)

definition pmm_init :: "limine_memmap_entry list \<Rightarrow> 'a pmm_scheme \<Rightarrow> 'a pmm_scheme option" where
  "pmm_init mmap s =
     (let (highest_addr, usable_memory) = memmap_extent mmap 0 0;
          pages = highest_addr div PMM_PAGE_SIZE;
          pages = (if pages > BITMAP_SIZE * 8 then BITMAP_SIZE * 8 else pages);
          s = s\<lparr>total_memory := usable_memory, total_pages := pages,
                 pmm_bitmap := (\<lambda>_. 0xFF), free_memory := 0\<rparr>
      in Option.bind (pmm_clear_usable mmap s) (pmm_reserve_low 0))"

text \<open>\<open>pmm_alloc_page\<close>: first-fit search; address 0 is the C code's \<open>NULL\<close>.\<close>

function pmm_alloc_from :: "u64 \<Rightarrow> 'a pmm_scheme \<Rightarrow> (u64 \<times> 'a pmm_scheme) option" where
  "pmm_alloc_from i s =
     (if i < total_pages s then
        Option.bind (bitmap_test i s) (\<lambda>used.
          if used then pmm_alloc_from (i + 1) s
          else Option.bind (bitmap_set i s) (\<lambda>s'.
            Some (i * PMM_PAGE_SIZE, s'\<lparr>free_memory := free_memory s' - PMM_PAGE_SIZE\<rparr>)))
      else Some (0, s))"
  by pat_completeness auto
termination
  by (relation "measure (\<lambda>(i, s). unat (total_pages s) - unat i)")
    (auto simp: unat_inc word_less_nat_alt)

definition pmm_alloc_page :: "'a pmm_scheme \<Rightarrow> (u64 \<times> 'a pmm_scheme) option" where
  "pmm_alloc_page s = pmm_alloc_from 0 s"

definition pmm_free_page :: "u64 \<Rightarrow> 'a pmm_scheme \<Rightarrow> 'a pmm_scheme option" where
  "pmm_free_page addr s =
     (let page = addr div PMM_PAGE_SIZE in
      Option.bind (bitmap_test page s) (\<lambda>used.
        if used then Option.bind (bitmap_clear page s) (\<lambda>s'.
          Some (s'\<lparr>free_memory := free_memory s' + PMM_PAGE_SIZE\<rparr>))
        else Some s))"

definition pmm_get_free_memory :: "'a pmm_scheme \<Rightarrow> u64" where
  "pmm_get_free_memory s = free_memory s"

definition pmm_get_total_memory :: "'a pmm_scheme \<Rightarrow> u64" where
  "pmm_get_total_memory s = total_memory s"

declare pmm_reserve_low.simps [simp del] pmm_alloc_from.simps [simp del]

section \<open>Abstraction: the set of free pages\<close>

definition page_used :: "'a pmm_scheme \<Rightarrow> u64 \<Rightarrow> bool" where
  "page_used s i = bit (pmm_bitmap s (i div 8)) (unat (i mod 8))"

definition free_pages :: "'a pmm_scheme \<Rightarrow> u64 set" where
  "free_pages s = {i. i < total_pages s \<and> \<not> page_used s i}"

text \<open>The counter agrees with the bitmap; page numbers stay inside the bitmap.\<close>

definition pmm_count :: "'a pmm_scheme \<Rightarrow> bool" where
  "pmm_count s \<longleftrightarrow> total_pages s \<le> BITMAP_SIZE * 8 \<and>
     unat (free_memory s) = 4096 * card (free_pages s)"

definition pmm_inv :: "'a pmm_scheme \<Rightarrow> bool" where
  "pmm_inv s \<longleftrightarrow> pmm_count s \<and> (\<forall>i\<in>free_pages s. 256 \<le> i)"

definition take_page :: "u64 \<Rightarrow> 'a pmm_scheme \<Rightarrow> 'a pmm_scheme" where
  "take_page k s = s\<lparr>pmm_bitmap := (pmm_bitmap s)
       (k div 8 := pmm_bitmap s (k div 8) OR push_bit (unat (k mod 8)) 1),
     free_memory := free_memory s - PMM_PAGE_SIZE\<rparr>"

definition give_page :: "u64 \<Rightarrow> 'a pmm_scheme \<Rightarrow> 'a pmm_scheme" where
  "give_page k s = s\<lparr>pmm_bitmap := (pmm_bitmap s)
       (k div 8 := pmm_bitmap s (k div 8) AND NOT (push_bit (unat (k mod 8)) 1)),
     free_memory := free_memory s + PMM_PAGE_SIZE\<rparr>"

lemma unat_mod_8_lt: "unat (i mod 8) < 8" for i :: u64
  by (simp add: unat_mod)

lemma div_mod_8_eqD: "i div 8 = k div 8 \<Longrightarrow> unat (i mod 8) = unat (k mod 8) \<Longrightarrow> i = k" for i k :: u64
  by (metis div_mult_mod_eq unsigned_word_eqI)

lemma bit_div_8: "b < 131072 \<Longrightarrow> b div 8 < 16384" for b :: u64
  by (simp add: word_less_nat_alt unat_div) 

lemma bit_div_8': "\<not> b < 131072 \<Longrightarrow> \<not> b div 8 < 16384" for b :: u64
  by (simp add: word_less_nat_alt unat_div) 

lemma and_2p_eq_0: "k < 8 \<Longrightarrow> (w AND 2 ^ k = 0) = (\<not> bit w k)" for w :: u8
  by (simp add: and_exp_eq_0_iff_not_bit)

lemma bitmap_test_eq: "bitmap_test b s = (if b < 131072 then Some (page_used s b) else None)"
  using bit_div_8 [of b] bit_div_8' [of b]
  by (simp add: bitmap_test_def page_used_def and_2p_eq_0 [OF unat_mod_8_lt])

lemma page_used_take [simp]: "page_used (take_page k s) i = (i = k \<or> page_used s i)"
  using div_mod_8_eqD [of i k] unat_mod_8_lt [of i]
  by (auto simp: page_used_def take_page_def bit_simps)

lemma page_used_give [simp]: "page_used (give_page k s) i = (i \<noteq> k \<and> page_used s i)"
  using div_mod_8_eqD [of i k] unat_mod_8_lt [of i]
  by (auto simp: page_used_def give_page_def bit_simps)
lemma take_page_simps [simp]:
  "total_pages (take_page k s) = total_pages s"
  "free_memory (take_page k s) = free_memory s - PMM_PAGE_SIZE"
  "total_memory (take_page k s) = total_memory s"
  "pmm.more (take_page k s) = pmm.more s"
  by (simp_all add: take_page_def)

lemma give_page_simps [simp]:
  "total_pages (give_page k s) = total_pages s"
  "free_memory (give_page k s) = free_memory s + PMM_PAGE_SIZE"
  "total_memory (give_page k s) = total_memory s"
  "pmm.more (give_page k s) = pmm.more s"
  by (simp_all add: give_page_def)

lemma free_pages_take: "free_pages (take_page k s) = free_pages s - {k}"
  by (auto simp: free_pages_def)

lemma free_pages_give: "k < total_pages s \<Longrightarrow> free_pages (give_page k s) = insert k (free_pages s)"
  by (auto simp: free_pages_def)

lemma card_free_pages: "total_pages s \<le> 131072 \<Longrightarrow> card (free_pages s) \<le> 131072"
proof -
  assume tp: "total_pages s \<le> 131072"
  have "card (free_pages s) \<le> card ((of_nat :: nat \<Rightarrow> u64) ` {..<131072})"
  proof (rule card_mono)
    show "free_pages s \<subseteq> of_nat ` {..<131072}"
    proof
      fix i assume "i \<in> free_pages s"
      with tp have "unat i < 131072" by (simp add: free_pages_def word_less_nat_alt word_le_nat_alt)
      then show "i \<in> of_nat ` {..<131072}" by (intro image_eqI [of _ _ "unat i"]) auto
    qed
  qed simp
  also have "\<dots> \<le> 131072" by (rule order_trans [OF card_image_le]) auto
  finally show ?thesis .
qed

lemma pmm_count_take: "pmm_count s \<Longrightarrow> k \<in> free_pages s \<Longrightarrow> pmm_count (take_page k s)"
proof -
  assume inv: "pmm_count s" and k: "k \<in> free_pages s"
  from k have "1 \<le> card (free_pages s)" by (simp add: Suc_le_eq card_gt_0_iff) blast
  with inv have "4096 \<le> free_memory s" by (simp add: pmm_count_def word_le_nat_alt)
  with inv k show ?thesis
    by (auto simp: pmm_count_def free_pages_take unat_sub_no_wrap diff_mult_distrib2)
qed

lemma pmm_count_give:
  assumes "pmm_count s" "k < total_pages s" "k \<notin> free_pages s"
  shows "pmm_count (give_page k s)"
proof -
  have "card (free_pages s) \<le> 131072" using assms(1) by (simp add: pmm_count_def card_free_pages)
  then show ?thesis
    using assms by (auto simp: pmm_count_def free_pages_give unat_add_no_wrap)
qed

section \<open>The operations in terms of single pages\<close>

lemma bitmap_set_take:
  "b < 131072 \<Longrightarrow> Option.bind (bitmap_set b s) (\<lambda>s'.
     f (s'\<lparr>free_memory := free_memory s' - PMM_PAGE_SIZE\<rparr>)) = f (take_page b s)"
  by (simp add: bitmap_set_def take_page_def bit_div_8)

lemma bitmap_clear_give:
  "b < 131072 \<Longrightarrow> Option.bind (bitmap_clear b s) (\<lambda>s'.
     f (s'\<lparr>free_memory := free_memory s' + PMM_PAGE_SIZE\<rparr>)) = f (give_page b s)"
  by (simp add: bitmap_clear_def give_page_def bit_div_8)

lemma pmm_alloc_from_spec:
  assumes "total_pages s \<le> 131072"
  shows "(\<forall>j\<ge>i. j \<notin> free_pages s) \<and> pmm_alloc_from i s = Some (0, s) \<or>
    (\<exists>k\<ge>i. k \<in> free_pages s \<and> (\<forall>j. i \<le> j \<and> j < k \<longrightarrow> j \<notin> free_pages s) \<and>
       pmm_alloc_from i s = Some (k * PMM_PAGE_SIZE, take_page k s))"
  using assms
proof (induction i s rule: pmm_alloc_from.induct)
  case (1 i s)
  consider "\<not> i < total_pages s" | "i < total_pages s" "page_used s i" | "i \<in> free_pages s"
    by (auto simp: free_pages_def)
  then show ?case
  proof cases
    case 1
    then show ?thesis by (auto simp: pmm_alloc_from.simps [of i s] free_pages_def)
  next
    case 2
    then have i: "i < 131072" using "1.prems" by simp
    have le: "i \<le> j \<longleftrightarrow> j = i \<or> i + 1 \<le> j" for j
      using unat_inc [OF 2(1)] by (auto simp: word_le_nat_alt word_unat_eq_iff Suc_le_eq)
    have nf: "i \<notin> free_pages s" using 2 by (simp add: free_pages_def)
    have step: "pmm_alloc_from i s = pmm_alloc_from (i + 1) s"
      using 2 i by (simp add: pmm_alloc_from.simps [of i s] bitmap_test_eq)
    have "bitmap_test i s = Some True" using 2 i by (simp add: bitmap_test_eq)
    from "1.IH" [OF 2(1) this] "1.prems" show ?thesis
      unfolding step by (auto simp: le nf)
  next
    case 3
    then have "i < 131072" using "1.prems" by (auto simp: free_pages_def)
    with 3 show ?thesis
      by (auto simp: pmm_alloc_from.simps [of i s] bitmap_test_eq free_pages_def
        bitmap_set_take [where f = "\<lambda>s. Some (i * 4096, s)", simplified])
  qed
qed

lemma pmm_alloc_page_cases:
  assumes "pmm_inv s" "pmm_alloc_page s = Some (p, s')"
  obtains (full) "free_pages s = {}" "p = 0" "s' = s"
  | (found) k where "k \<in> free_pages s" "\<forall>j<k. j \<notin> free_pages s" "p = k * PMM_PAGE_SIZE"
      "s' = take_page k s"
  using pmm_alloc_from_spec [of s 0] assms
  by (auto simp: pmm_alloc_page_def pmm_inv_def pmm_count_def)

lemma pmm_alloc_page_defined: "pmm_inv s \<Longrightarrow> \<exists>p s'. pmm_alloc_page s = Some (p, s')"
  using pmm_alloc_from_spec [of s 0] by (auto simp: pmm_alloc_page_def pmm_inv_def pmm_count_def)

lemma pmm_inv_take: "pmm_inv s \<Longrightarrow> k \<in> free_pages s \<Longrightarrow> pmm_inv (take_page k s)"
  by (simp add: pmm_inv_def pmm_count_take free_pages_take)

lemma free_pages_bound: "pmm_inv s \<Longrightarrow> k \<in> free_pages s \<Longrightarrow> 256 \<le> k \<and> k < 131072"
  by (auto simp: pmm_inv_def pmm_count_def free_pages_def)

section \<open>The interface the clients of the allocator rely on\<close>

text \<open>
  \<open>avail\<close> is the set of numbers of the pages that may be handed out. A page is handed out at
  most once, page addresses are nonzero multiples of the page size, and address 0 reports that
  nothing is left. \<open>rest\<close> is the part of the state the allocator does not own.
\<close>

locale page_allocator =
  fixes alloc :: "'s \<Rightarrow> (u64 \<times> 's) option"
    and invar :: "'s \<Rightarrow> bool"
    and avail :: "'s \<Rightarrow> u64 set"
    and rest :: "'s \<Rightarrow> 'r"
  assumes alloc_none: "invar s \<Longrightarrow> avail s = {} \<Longrightarrow> alloc s = Some (0, s)"
    and alloc_some: "invar s \<Longrightarrow> avail s \<noteq> {} \<Longrightarrow> \<exists>k s'. alloc s = Some (k * 4096, s') \<and>
      k \<in> avail s \<and> avail s' = avail s - {k} \<and> invar s' \<and> rest s' = rest s"
    and avail_range: "invar s \<Longrightarrow> k \<in> avail s \<Longrightarrow> 0 < k \<and> k < 0x10000000000000"
begin

lemma page_address:
  assumes "invar s" "k \<in> avail s"
  shows "k * 4096 \<noteq> 0" and "k * 4096 div 4096 = k" and "k * 4096 AND 0xFFF = 0"
    and "unat (k * 4096) = unat k * 4096"
proof -
  from avail_range [OF assms] have k: "0 < unat k" "unat k < 0x10000000000000"
    by (simp_all add: word_less_nat_alt)
  then show u: "unat (k * 4096) = unat k * 4096" by (simp add: unat_word_ariths)
  with k show "k * 4096 \<noteq> 0" by (metis mult_eq_0_iff nat_less_le unat_eq_zero zero_neq_numeral)
  show "k * 4096 div 4096 = k" by (simp add: word_unat_eq_iff unat_div u)
  show "k * 4096 AND 0xFFF = 0" by (simp add: and_0xFFF)
qed

lemma alloc_defined: "invar s \<Longrightarrow> \<exists>p s'. alloc s = Some (p, s')"
  using alloc_none alloc_some by (cases "avail s = {}") blast+

lemma alloc_cases:
  assumes "invar s" "alloc s = Some (p, s')"
  obtains (full) "avail s = {}" "p = 0" "s' = s"
  | (found) "p \<noteq> 0" "p AND 0xFFF = 0" "p div 4096 \<in> avail s" "avail s' = avail s - {p div 4096}"
      "invar s'" "rest s' = rest s"
proof (cases "avail s = {}")
  case True
  with alloc_none [OF assms(1)] assms(2) show thesis by (intro full) auto
next
  case False
  with alloc_some [OF assms(1)] assms(2) page_address [OF assms(1)] show thesis
    by (intro found) fastforce+
qed

lemma alloc_invar: "invar s \<Longrightarrow> alloc s = Some (p, s') \<Longrightarrow> invar s'"
  using alloc_cases by metis

end

interpretation pmm: page_allocator pmm_alloc_page pmm_inv free_pages pmm.more
proof
  fix s :: "'a pmm_scheme" and k
  assume inv: "pmm_inv s"
  then obtain p s' where r: "pmm_alloc_page s = Some (p, s')" using pmm_alloc_page_defined by blast
  show "pmm_alloc_page s = Some (0, s)" if "free_pages s = {}"
    using inv r by (rule pmm_alloc_page_cases) (use that r in auto)
  show "\<exists>k s'. pmm_alloc_page s = Some (k * 4096, s') \<and> k \<in> free_pages s \<and>
      free_pages s' = free_pages s - {k} \<and> pmm_inv s' \<and> pmm.more s' = pmm.more s"
    if "free_pages s \<noteq> {}"
    using inv r by (rule pmm_alloc_page_cases)
      (use that r in \<open>auto simp: free_pages_take pmm_inv_take [OF inv]\<close>)
  show "0 < k \<and> k < 0x10000000000000" if "k \<in> free_pages s"
    using free_pages_bound [OF inv that] by (auto simp: word_less_nat_alt word_le_nat_alt)
qed

section \<open>Initialisation from the boot loader's memory map\<close>

text \<open>
  What the Limine protocol promises of usable entries: page-aligned base and length, no
  wrap-around at the end of the address space, and no overlap between two of them.
\<close>

definition usable :: "limine_memmap_entry \<Rightarrow> bool" where
  "usable e \<longleftrightarrow> mm_type e = LIMINE_MEMMAP_USABLE"

definition entry_pages :: "limine_memmap_entry \<Rightarrow> u64 set" where
  "entry_pages e = {p. unat (mm_base e) div 4096 \<le> unat p \<and>
     unat p < (unat (mm_base e) + unat (mm_length e)) div 4096}"

definition usable_pages :: "limine_memmap_entry list \<Rightarrow> u64 set" where
  "usable_pages es = (\<Union>e\<in>{e \<in> set es. usable e}. entry_pages e)"

definition entry_ok :: "limine_memmap_entry \<Rightarrow> bool" where
  "entry_ok e \<longleftrightarrow> unat (mm_base e) mod 4096 = 0 \<and> unat (mm_length e) mod 4096 = 0 \<and>
     unat (mm_base e) + unat (mm_length e) < 2 ^ 64"

fun memmap_ok :: "limine_memmap_entry list \<Rightarrow> bool" where
  "memmap_ok [] = True"
| "memmap_ok (e # es) = ((usable e \<longrightarrow> entry_ok e \<and>
     (\<forall>e'\<in>set es. usable e' \<longrightarrow> unat (mm_base e) + unat (mm_length e) \<le> unat (mm_base e') \<or>
        unat (mm_base e') + unat (mm_length e') \<le> unat (mm_base e))) \<and> memmap_ok es)"

lemma entry_pages_disjoint:
  "entry_ok e \<Longrightarrow> entry_ok e' \<Longrightarrow>
   unat (mm_base e) + unat (mm_length e) \<le> unat (mm_base e') \<or> unat (mm_base e') + unat (mm_length e') \<le> unat (mm_base e) \<Longrightarrow>
   entry_pages e \<inter> entry_pages e' = {}"
proof -
  have "{p. a \<le> f p \<and> f p < b} \<inter> {p. c \<le> f p \<and> f p < d} = {}" if "b \<le> c \<or> d \<le> a" for a b c d :: nat and f :: "u64 \<Rightarrow> nat"
    using that by auto
  moreover assume "unat (mm_base e) + unat (mm_length e) \<le> unat (mm_base e') \<or> unat (mm_base e') + unat (mm_length e') \<le> unat (mm_base e)"
  then have "(unat (mm_base e) + unat (mm_length e)) div 4096 \<le> unat (mm_base e') div 4096 \<or>
     (unat (mm_base e') + unat (mm_length e')) div 4096 \<le> unat (mm_base e) div 4096"
    using div_le_mono by blast
  ultimately show ?thesis unfolding entry_pages_def by blast
qed

lemma memmap_ok_entry: "memmap_ok es \<Longrightarrow> e \<in> set es \<Longrightarrow> usable e \<Longrightarrow> entry_ok e"
  by (induction es) auto

lemma memmap_ok_disjoint:
  "memmap_ok (e # es) \<Longrightarrow> usable e \<Longrightarrow> entry_pages e \<inter> usable_pages es = {}"
proof -
  assume ok: "memmap_ok (e # es)" and u: "usable e"
  have "entry_pages e \<inter> entry_pages e' = {}" if "e' \<in> set es" "usable e'" for e'
    using ok u that by (intro entry_pages_disjoint) (auto simp: memmap_ok_entry)
  then show ?thesis unfolding usable_pages_def by blast
qed

text \<open>One region: \<open>n\<close> pages from page \<open>f\<close> on, of which \<open>m\<close> are done.\<close>

lemma pmm_clear_range_spec:
  assumes "pmm_count s" "unat bs = 4096 * f" "unat len = 4096 * n" "unat j = 4096 * m" "m \<le> n"
    "4096 * (f + n) < 2 ^ 64" "\<forall>p\<in>free_pages s. \<not> (f + m \<le> unat p \<and> unat p < f + n)"
  shows "\<exists>s'. pmm_clear_range bs len j s = Some s' \<and> pmm_count s' \<and>
    total_pages s' = total_pages s \<and> total_memory s' = total_memory s \<and> pmm.more s' = pmm.more s \<and>
    free_pages s' = free_pages s \<union> {p. f + m \<le> unat p \<and> unat p < f + n \<and> p < total_pages s}"
  using assms
proof (induction "n - m" arbitrary: m j s)
  case 0
  then have "\<not> j < len" by (simp add: word_less_nat_alt)
  with 0 show ?case by (subst pmm_clear_range.simps) auto
next
  case (Suc d)
  let ?p = "(bs + j) div 4096"
  have lt: "j < len" using Suc.prems Suc.hyps(2) by (simp add: word_less_nat_alt)
  have "unat (bs + j) = 4096 * (f + m)" using Suc.prems by (simp add: unat_add_no_wrap)
  then have p: "unat ?p = f + m" by (simp add: unat_div)
  have j: "unat (j + 4096) = 4096 * Suc m"
    using Suc.prems Suc.hyps(2) by (subst unat_add_no_wrap) auto
  have split: "{q. f + m \<le> unat q \<and> unat q < f + n \<and> q < t} =
      ({q. f + Suc m \<le> unat q \<and> unat q < f + n \<and> q < t} \<union> (if ?p < t then {?p} else {}))" for t
    using Suc.hyps(2) p by (auto simp: word_unat_eq_iff word_less_nat_alt)
  show ?case
  proof (cases "?p < total_pages s")
    case True
    have np: "?p \<notin> free_pages s" using Suc.prems(7) Suc.hyps(2) p by auto
    have tp: "?p < 131072" using True Suc.prems(1) by (auto simp: pmm_count_def intro: less_le_trans)
    have c: "pmm_count (give_page ?p s)" using Suc.prems(1) True np by (rule pmm_count_give)
    have "\<exists>s'. pmm_clear_range bs len (j + 4096) (give_page ?p s) = Some s' \<and> pmm_count s' \<and>
      total_pages s' = total_pages s \<and> total_memory s' = total_memory s \<and> pmm.more s' = pmm.more s \<and>
      free_pages s' = insert ?p (free_pages s) \<union>
        {p. f + Suc m \<le> unat p \<and> unat p < f + n \<and> p < total_pages s}"
      using Suc.hyps(1) [of "Suc m" "give_page ?p s" "j + 4096"] Suc.prems Suc.hyps(2) c j p True
      by (auto simp: free_pages_give)
    then show ?thesis
      unfolding split using True tp lt
      by (subst pmm_clear_range.simps) (auto simp: bitmap_clear_give)
  next
    case False
    have "\<exists>s'. pmm_clear_range bs len (j + 4096) s = Some s' \<and> pmm_count s' \<and>
      total_pages s' = total_pages s \<and> total_memory s' = total_memory s \<and> pmm.more s' = pmm.more s \<and>
      free_pages s' = free_pages s \<union>
        {p. f + Suc m \<le> unat p \<and> unat p < f + n \<and> p < total_pages s}"
      using Suc.hyps(1) [of "Suc m" s "j + 4096"] Suc.prems Suc.hyps(2) j by auto
    then show ?thesis
      unfolding split using False lt by (subst pmm_clear_range.simps) auto
  qed
qed

lemma entry_pages_range:
  assumes "entry_ok e" "unat (mm_base e) = 4096 * f" "unat (mm_length e) = 4096 * n"
  shows "entry_pages e = {p. f \<le> unat p \<and> unat p < f + n}"
proof -
  have "(4096 * f + 4096 * n) div 4096 = f + n" by presburger
  then show ?thesis using assms by (simp add: entry_pages_def)
qed

lemma pmm_clear_usable_spec:
  assumes "pmm_count s" "memmap_ok es" "free_pages s \<inter> usable_pages es = {}"
  shows "\<exists>s'. pmm_clear_usable es s = Some s' \<and> pmm_count s' \<and> total_pages s' = total_pages s \<and>
    total_memory s' = total_memory s \<and> pmm.more s' = pmm.more s \<and>
    free_pages s' = free_pages s \<union> {p \<in> usable_pages es. p < total_pages s}"
  using assms
proof (induction es arbitrary: s)
  case Nil
  then show ?case by (simp add: usable_pages_def)
next
  case (Cons e es)
  show ?case
  proof (cases "usable e")
    case False
    then have "usable_pages (e # es) = usable_pages es" by (auto simp: usable_pages_def)
    with False Cons show ?thesis by (simp add: usable_def)
  next
    case True
    have up: "usable_pages (e # es) = entry_pages e \<union> usable_pages es"
      using True by (auto simp: usable_pages_def)
    have ok: "entry_ok e" using Cons.prems(2) True by simp
    then obtain f n where fn: "unat (mm_base e) = 4096 * f" "unat (mm_length e) = 4096 * n"
      by (auto simp: entry_ok_def mod_eq_0_iff_dvd dvd_def)
    have pages: "entry_pages e = {p. f \<le> unat p \<and> unat p < f + n}"
      using ok fn by (rule entry_pages_range)
    have "4096 * (f + n) < 2 ^ 64" using ok fn by (simp add: entry_ok_def)
    moreover have "\<forall>p\<in>free_pages s. \<not> (f \<le> unat p \<and> unat p < f + n)"
      using Cons.prems(3) unfolding up pages by blast
    ultimately obtain s1 where s1: "pmm_clear_range (mm_base e) (mm_length e) 0 s = Some s1"
        "pmm_count s1" "total_pages s1 = total_pages s" "total_memory s1 = total_memory s"
        "pmm.more s1 = pmm.more s"
        "free_pages s1 = free_pages s \<union> {p \<in> entry_pages e. p < total_pages s}"
      using pmm_clear_range_spec [OF Cons.prems(1) fn, of 0 0] unfolding pages by auto
    have "free_pages s1 \<inter> usable_pages es = {}"
      using s1(6) Cons.prems(3) memmap_ok_disjoint [OF Cons.prems(2) True] unfolding up by blast
    with Cons.IH [OF s1(2)] Cons.prems(2) obtain s2 where
      "pmm_clear_usable es s1 = Some s2" "pmm_count s2" "total_pages s2 = total_pages s1"
      "total_memory s2 = total_memory s1" "pmm.more s2 = pmm.more s1"
      "free_pages s2 = free_pages s1 \<union> {p \<in> usable_pages es. p < total_pages s1}"
      by auto
    with s1 True show ?thesis unfolding up by (auto simp: usable_def)
  qed
qed

lemma pmm_reserve_low_spec:
  "pmm_count s \<Longrightarrow> \<exists>s'. pmm_reserve_low page s = Some s' \<and> pmm_count s' \<and>
     total_pages s' = total_pages s \<and> total_memory s' = total_memory s \<and> pmm.more s' = pmm.more s \<and>
     free_pages s' = free_pages s - {p. page \<le> p \<and> p < 256}"
proof (induction page s rule: pmm_reserve_low.induct)
  case (1 page s)
  show ?case
  proof (cases "page < 256 \<and> page < total_pages s")
    case False
    then have "free_pages s - {p. page \<le> p \<and> p < 256} = free_pages s"
      by (auto simp: free_pages_def)
    with False "1.prems" show ?thesis by (auto simp: pmm_reserve_low.simps [of page s])
  next
    case True
    then have lt: "page < 131072" by (auto intro: less_trans)
    have rng: "{p. page \<le> p \<and> p < 256} = insert page {p. page + 1 \<le> p \<and> p < 256}"
      using unat_inc [of page 256] True
      by (auto simp: word_le_nat_alt word_less_nat_alt word_unat_eq_iff)
    show ?thesis
    proof (cases "page_used s page")
      case used: True
      then have np: "page \<notin> free_pages s" by (simp add: free_pages_def)
      have t: "bitmap_test page s = Some True" using used lt by (simp add: bitmap_test_eq)
      have "pmm_reserve_low page s = pmm_reserve_low (page + 1) s"
        using True t by (simp add: pmm_reserve_low.simps [of page s])
      with "1.IH"(1) [OF _ t] True "1.prems" np show ?thesis unfolding rng by auto
    next
      case unused: False
      then have np: "page \<in> free_pages s" using True by (simp add: free_pages_def)
      have t: "bitmap_test page s = Some False" using unused lt by (simp add: bitmap_test_eq)
      obtain s1 where s1: "bitmap_set page s = Some s1" using lt by (simp add: bitmap_set_def bit_div_8)
      then have tk: "s1\<lparr>free_memory := free_memory s1 - PMM_PAGE_SIZE\<rparr> = take_page page s"
        using bitmap_set_take [OF lt, of s Some] by simp
      have "pmm_reserve_low page s = pmm_reserve_low (page + 1) (take_page page s)"
        using True t s1 tk by (simp add: pmm_reserve_low.simps [of page s])
      with "1.IH"(2) [OF _ t _ s1] True pmm_count_take [OF "1.prems" np] show ?thesis
        unfolding rng tk by (auto simp: free_pages_take)
    qed
  qed
qed

lemma memmap_extent_bounds:
  assumes "memmap_ok es"
  shows "highest \<le> fst (memmap_extent es highest u) \<and>
    (\<forall>e\<in>set es. usable e \<longrightarrow> mm_base e + mm_length e \<le> fst (memmap_extent es highest u)) \<and>
    snd (memmap_extent es highest u) = u + (\<Sum>e\<leftarrow>filter usable es. mm_length e)"
  using assms
  by (induction es arbitrary: highest u)
    (auto simp: usable_def Let_def add.assoc, (meson order.trans order.strict_implies_order linorder_not_less)+)

lemma usable_page_below_top:
  assumes "memmap_ok es" "p \<in> usable_pages es"
  shows "p < fst (memmap_extent es 0 0) div 4096"
proof -
  from assms obtain e where e: "e \<in> set es" "usable e" "p \<in> entry_pages e"
    by (auto simp: usable_pages_def)
  with assms(1) have ok: "entry_ok e" by (auto intro: memmap_ok_entry)
  then have "unat (mm_base e + mm_length e) = unat (mm_base e) + unat (mm_length e)"
    by (simp add: entry_ok_def unat_add_no_wrap)
  with e(3) have "unat p < unat (mm_base e + mm_length e) div 4096" by (simp add: entry_pages_def)
  also have "mm_base e + mm_length e \<le> fst (memmap_extent es 0 0)"
    using memmap_extent_bounds [OF assms(1), of 0 0] e by blast
  then have "unat (mm_base e + mm_length e) div 4096 \<le> unat (fst (memmap_extent es 0 0)) div 4096"
    by (simp add: word_le_nat_alt div_le_mono)
  finally show ?thesis by (simp add: word_less_nat_alt unat_div)
qed


lemma pmm_free_page_eq:
  "pmm_free_page addr s = (let k = addr div PMM_PAGE_SIZE in
     if k < 131072 then Some (if page_used s k then give_page k s else s) else None)"
  by (simp add: pmm_free_page_def bitmap_test_eq Let_def bitmap_clear_give [where f = Some, simplified])

lemma pmm_free_page_spec:
  assumes "pmm_inv s" "256 \<le> addr div PMM_PAGE_SIZE" "addr div PMM_PAGE_SIZE < total_pages s"
  shows "\<exists>s'. pmm_free_page addr s = Some s' \<and> pmm_inv s' \<and>
    free_pages s' = insert (addr div PMM_PAGE_SIZE) (free_pages s) \<and>
    (addr div PMM_PAGE_SIZE \<in> free_pages s \<longrightarrow> s' = s)"
proof -
  let ?k = "addr div 4096"
  have k: "?k < 131072" using assms by (auto simp: pmm_inv_def pmm_count_def intro: less_le_trans)
  show ?thesis
  proof (cases "page_used s ?k")
    case True
    then have "?k \<notin> free_pages s" by (simp add: free_pages_def)
    with assms k True show ?thesis
      by (simp add: pmm_free_page_eq Let_def free_pages_give pmm_inv_def pmm_count_give)
  next
    case False
    with assms have "?k \<in> free_pages s" by (simp add: free_pages_def)
    with assms(1) k False show ?thesis by (simp add: pmm_free_page_eq Let_def insert_absorb)
  qed
qed

lemma bit_0xFF: "k < 8 \<Longrightarrow> bit (0xFF :: u8) k"
  by (auto simp: less_Suc_eq numeral_eq_Suc)

lemma witness_free_pages:
  "free_pages \<lparr>pmm_bitmap = (\<lambda>i. if i = 32 then 0xFB else 0xFF), total_memory = 0,
      free_memory = 4096, total_pages = 260\<rparr> = {258}" (is "free_pages ?s = _")
proof (rule set_eqI)
  fix i
  have fb: "bit (0xFB :: u8) k \<longleftrightarrow> k \<noteq> 2" if "k < 8" for k
    using that by (auto simp: less_Suc_eq numeral_eq_Suc)
  have used: "page_used ?s i \<longleftrightarrow> \<not> (i div 8 = 32 \<and> unat (i mod 8) = 2)"
    using fb [OF unat_mod_8_lt [of i]] bit_0xFF [OF unat_mod_8_lt [of i]]
    by (cases "i div 8 = 32") (simp_all add: page_used_def)
  have "i = 258" if "i div 8 = 32" "unat (i mod 8) = 2"
  proof -
    have "i mod 8 = 2" using that(2) by (simp add: word_unat_eq_iff)
    moreover have "i = i div 8 * 8 + i mod 8" by (simp only: div_mult_mod_eq)
    ultimately show ?thesis unfolding that(1) by simp
  qed
  moreover have "(258 :: u64) div 8 = 32" "unat ((258 :: u64) mod 8) = 2" by simp_all
  ultimately show "i \<in> free_pages ?s \<longleftrightarrow> i \<in> {258}"
    unfolding free_pages_def mem_Collect_eq used by auto
qed

section \<open>Correctness\<close>

text \<open>
  C1. From a memory map that keeps the boot loader's promises, \<open>pmm_init\<close> returns, and establishes
  the allocator's invariant: the free pages are exactly the usable pages above the first megabyte
  and below the bitmap's capacity of 512 MB, and \<open>free_memory\<close> counts them.
\<close>

theorem pmm_init_correct:
  assumes "memmap_ok mmap"
  shows "\<exists>s'. pmm_init mmap s = Some s' \<and> pmm_inv s' \<and>
    free_pages s' = {p \<in> usable_pages mmap. 256 \<le> p \<and> p < 131072} \<and>
    total_memory s' = (\<Sum>e\<leftarrow>filter usable mmap. mm_length e)"
proof -
  define top where "top = fst (memmap_extent mmap 0 0) div 4096"
  define pages :: u64 where "pages = (if top > 131072 then 131072 else top)"
  define s0 where "s0 = s\<lparr>total_memory := snd (memmap_extent mmap 0 0), total_pages := pages,
                 pmm_bitmap := (\<lambda>_. 0xFF), free_memory := 0\<rparr>"
  have init: "pmm_init mmap s = Option.bind (pmm_clear_usable mmap s0) (pmm_reserve_low 0)"
    by (simp add: pmm_init_def s0_def pages_def top_def case_prod_unfold Let_def)
  have f0: "free_pages s0 = {}"
    using unat_mod_8_lt bit_0xFF by (auto simp: free_pages_def page_used_def s0_def)
  then have c0: "pmm_count s0" by (auto simp: pmm_count_def s0_def pages_def)
  from pmm_clear_usable_spec [OF c0 assms] f0 obtain s1 where s1:
    "pmm_clear_usable mmap s0 = Some s1" "pmm_count s1" "total_pages s1 = pages"
    "total_memory s1 = total_memory s0" "free_pages s1 = {p \<in> usable_pages mmap. p < pages}"
    by (auto simp: s0_def)
  from pmm_reserve_low_spec [OF s1(2), of 0] obtain s2 where s2:
    "pmm_reserve_low 0 s1 = Some s2" "pmm_count s2" "total_memory s2 = total_memory s1"
    "free_pages s2 = free_pages s1 - {p. p < 256}" by auto
  have "p < pages \<longleftrightarrow> p < 131072" if "p \<in> usable_pages mmap" for p
    using usable_page_below_top [OF assms that] by (auto simp: pages_def top_def)
  then have "free_pages s2 = {p \<in> usable_pages mmap. 256 \<le> p \<and> p < 131072}"
    unfolding s2(4) s1(5) by auto
  moreover have "total_memory s2 = (\<Sum>e\<leftarrow>filter usable mmap. mm_length e)"
    using s2(3) s1(4) memmap_extent_bounds [OF assms, of 0 0] by (simp add: s0_def)
  ultimately show ?thesis using init s1(1) s2(1,2) by (auto simp: pmm_inv_def)
qed

theorem pmm_init_correct_witness:
  "\<exists>s'. pmm_init [\<lparr>mm_base = 0x1000, mm_length = 0x9E000, mm_type = 0\<rparr>,
       \<lparr>mm_base = 0xA0000, mm_length = 0x60000, mm_type = 1\<rparr>,
       \<lparr>mm_base = 0x100000, mm_length = 0x7F00000, mm_type = 0\<rparr>]
     \<lparr>pmm_bitmap = (\<lambda>_. 0), total_memory = 0, free_memory = 0, total_pages = 0\<rparr> = Some s' \<and>
     pmm_inv s' \<and> 256 \<in> free_pages s' \<and> 1 \<notin> free_pages s' \<and> total_memory s' = 0x7F9E000"
proof -
  let ?m = "[\<lparr>mm_base = 0x1000, mm_length = 0x9E000, mm_type = 0\<rparr>,
       \<lparr>mm_base = 0xA0000, mm_length = 0x60000, mm_type = 1\<rparr>,
       \<lparr>mm_base = 0x100000, mm_length = 0x7F00000, mm_type = 0\<rparr>] :: limine_memmap_entry list"
  let ?s = "\<lparr>pmm_bitmap = (\<lambda>_. 0), total_memory = 0, free_memory = 0, total_pages = 0\<rparr> :: pmm"
  have "memmap_ok ?m" by (simp add: usable_def entry_ok_def)
  from pmm_init_correct [OF this, of ?s] obtain s' where
    "pmm_init ?m ?s = Some s'" "pmm_inv s'" "total_memory s' = (\<Sum>e\<leftarrow>filter usable ?m. mm_length e)"
    "free_pages s' = {p \<in> usable_pages ?m. 256 \<le> p \<and> p < 131072}"
    by blast
  moreover have "(256 :: u64) \<in> usable_pages ?m"
    unfolding usable_pages_def by (rule UN_I [of "last ?m"]) (simp_all add: usable_def entry_pages_def)
  moreover have "(\<Sum>e\<leftarrow>filter usable ?m. mm_length e) = 0x7F9E000" by (simp add: usable_def)
  ultimately show ?thesis by (intro exI [of _ s']) (simp add: word_le_nat_alt)
qed

text \<open>
  C2. Under the invariant \<open>pmm_alloc_page\<close> never leaves the bitmap: it reports address 0 exactly
  when no page is free, and otherwise takes the lowest free page, whose address is not 0, out of
  the free set, and keeps the invariant.
\<close>

theorem pmm_alloc_page_correct:
  assumes "pmm_inv s"
  shows "if free_pages s = {} then pmm_alloc_page s = Some (0, s)
    else \<exists>s'. let k = Min (free_pages s) in pmm_alloc_page s = Some (k * PMM_PAGE_SIZE, s') \<and>
      k * PMM_PAGE_SIZE \<noteq> 0 \<and> free_pages s' = free_pages s - {k} \<and> pmm_inv s'"
proof (cases "free_pages s = {}")
  case True
  then show ?thesis using pmm.alloc_none [OF assms] by simp
next
  case False
  obtain p s' where r: "pmm_alloc_page s = Some (p, s')" using pmm.alloc_defined [OF assms] by blast
  from assms r show ?thesis
  proof (cases rule: pmm_alloc_page_cases)
    case (found k)
    then have "Min (free_pages s) = k" by (intro Min_eqI) (auto simp: linorder_not_less)
    with found r False show ?thesis
      by (simp add: free_pages_take pmm_inv_take [OF assms] pmm.page_address [OF assms])
  qed (use False in simp)
qed

theorem pmm_alloc_page_correct_witness:
  "pmm_alloc_page \<lparr>pmm_bitmap = (\<lambda>i. if i = 32 then 0xFB else 0xFF), total_memory = 0,
      free_memory = 4096, total_pages = 260\<rparr> \<noteq> None \<and>
   Min (free_pages \<lparr>pmm_bitmap = (\<lambda>i. if i = 32 then 0xFB else 0xFF), total_memory = 0,
      free_memory = 4096, total_pages = 260\<rparr>) = 258"
proof -
  let ?s = "\<lparr>pmm_bitmap = (\<lambda>i. if i = 32 then 0xFB else 0xFF), total_memory = 0,
      free_memory = 4096, total_pages = 260\<rparr> :: pmm"
  have f: "free_pages ?s = {258}" by (rule witness_free_pages)
  then have "pmm_inv ?s" by (simp add: pmm_inv_def pmm_count_def)
  from pmm_alloc_page_correct [OF this] f show ?thesis by (auto simp: Let_def)
qed

text \<open>
  C3. Returning the address of a page above the first megabyte puts exactly that page back into
  the free set and keeps the invariant; a page that is already free is left alone, so a double
  free does not disturb the counter.
\<close>

theorem pmm_free_page_correct:
  assumes "pmm_inv s" "256 \<le> addr div PMM_PAGE_SIZE" "addr div PMM_PAGE_SIZE < total_pages s"
  shows "\<exists>s'. pmm_free_page addr s = Some s' \<and> pmm_inv s' \<and>
    free_pages s' = insert (addr div PMM_PAGE_SIZE) (free_pages s) \<and>
    (addr div PMM_PAGE_SIZE \<in> free_pages s \<longrightarrow> s' = s)"
  using assms by (rule pmm_free_page_spec)

theorem pmm_free_page_correct_witness:
  "\<exists>s'. pmm_free_page 0x101234 \<lparr>pmm_bitmap = (\<lambda>i. if i = 32 then 0xFB else 0xFF), total_memory = 0,
      free_memory = 4096, total_pages = 260\<rparr> = Some s' \<and> pmm_inv s' \<and> free_pages s' = {257, 258}"
proof -
  let ?s = "\<lparr>pmm_bitmap = (\<lambda>i. if i = 32 then 0xFB else 0xFF), total_memory = 0,
      free_memory = 4096, total_pages = 260\<rparr> :: pmm"
  have f: "free_pages ?s = {258}" by (rule witness_free_pages)
  then have i: "pmm_inv ?s" by (simp add: pmm_inv_def pmm_count_def)
  have "256 \<le> (0x101234 :: u64) div PMM_PAGE_SIZE" "(0x101234 :: u64) div PMM_PAGE_SIZE < total_pages ?s"
    by simp_all
  from pmm_free_page_correct [OF i this] f show ?thesis by auto
qed

end
