(* ===== verification/Vmm.thy ===== *)
theory Vmm
  imports Pmm
begin

text \<open>
  The virtual memory manager, \<^verbatim>\<open>kernel/vmm.c\<close>: four levels of page tables, edited through the
  higher-half direct map. The kernel's view of the tables is a memory of 64-bit cells indexed by
  virtual address; the translation cache the code flushes with \<^verbatim>\<open>invlpg\<close> is a partial map from page
  numbers to cached leaf entries.
\<close>

section \<open>State and operations\<close>

abbreviation (input) PAGE_PRESENT :: u64 where "PAGE_PRESENT \<equiv> 0x01"
abbreviation (input) PAGE_WRITABLE :: u64 where "PAGE_WRITABLE \<equiv> 0x02"
abbreviation (input) PAGE_USER :: u64 where "PAGE_USER \<equiv> 0x04"
abbreviation (input) PAGE_NOCACHE :: u64 where "PAGE_NOCACHE \<equiv> 0x10"
abbreviation (input) PAGE_HUGE :: u64 where "PAGE_HUGE \<equiv> 0x80"

record vmm = pmm +
  current_pml4 :: u64
  hhdm_offset :: u64
  ptmem :: "u64 \<Rightarrow> u64"
  tlb :: "u64 \<rightharpoonup> u64"

definition vmm_init :: "u64 \<Rightarrow> 'a vmm_scheme \<Rightarrow> 'a vmm_scheme" where
  "vmm_init cr3 s = s\<lparr>current_pml4 := (cr3 AND NOT 0xFFF) + hhdm_offset s\<rparr>"

definition pml4_idx :: "u64 \<Rightarrow> u64" where "pml4_idx va = drop_bit 39 va AND 0x1FF"
definition pdpt_idx :: "u64 \<Rightarrow> u64" where "pdpt_idx va = drop_bit 30 va AND 0x1FF"
definition pd_idx :: "u64 \<Rightarrow> u64" where "pd_idx va = drop_bit 21 va AND 0x1FF"
definition pt_idx :: "u64 \<Rightarrow> u64" where "pt_idx va = drop_bit 12 va AND 0x1FF"

text \<open>\<open>table[idx]\<close> and \<open>table[idx] = e\<close> for a table of 8-byte entries.\<close>

definition entry :: "'a vmm_scheme \<Rightarrow> u64 \<Rightarrow> u64 \<Rightarrow> u64" where
  "entry s t i = ptmem s (t + 8 * i)"

definition set_entry :: "u64 \<Rightarrow> u64 \<Rightarrow> u64 \<Rightarrow> 'a vmm_scheme \<Rightarrow> 'a vmm_scheme" where
  "set_entry t i e s = s\<lparr>ptmem := (ptmem s)(t + 8 * i := e)\<rparr>"

definition present :: "u64 \<Rightarrow> bool" where "present e \<longleftrightarrow> e AND PAGE_PRESENT \<noteq> 0"
definition huge :: "u64 \<Rightarrow> bool" where "huge e \<longleftrightarrow> e AND PAGE_HUGE \<noteq> 0"

text \<open>\<open>(entry & ~0xFFF) + hhdm_offset\<close>: the kernel's pointer to the table an entry names.\<close>

definition table_of :: "'a vmm_scheme \<Rightarrow> u64 \<Rightarrow> u64" where
  "table_of s e = (e AND NOT 0xFFF) + hhdm_offset s"

text \<open>\<open>memset(page, 0, PMM_PAGE_SIZE)\<close> on the page at virtual address \<open>t\<close>.\<close>

definition zero_page :: "u64 \<Rightarrow> 'a vmm_scheme \<Rightarrow> 'a vmm_scheme" where
  "zero_page t s = s\<lparr>ptmem := (\<lambda>a. if a - t < PMM_PAGE_SIZE then 0 else ptmem s a)\<rparr>"

definition invlpg :: "u64 \<Rightarrow> 'a vmm_scheme \<Rightarrow> 'a vmm_scheme" where
  "invlpg va s = s\<lparr>tlb := (tlb s)(take_bit 36 (drop_bit 12 va) := None)\<rparr>"

text \<open>
  The block the code repeats on three levels: if \<open>t[i]\<close> is not present, allocate a page, clear it
  and link it in. The result is the next table, or \<open>None\<close> (out of memory, the caller returns).
\<close>

definition vmm_next_table ::
  "u64 \<Rightarrow> u64 \<Rightarrow> u64 \<Rightarrow> 'a vmm_scheme \<Rightarrow> (u64 option \<times> 'a vmm_scheme) option" where
  "vmm_next_table t i table_flags s =
     (if present (entry s t i) then Some (Some (table_of s (entry s t i)), s)
      else Option.bind (pmm_alloc_page s) (\<lambda>(page, s).
        if page = 0 then Some (None, s)
        else let s = set_entry t i (page OR table_flags) (zero_page (page + hhdm_offset s) s)
             in Some (Some (table_of s (entry s t i)), s)))"

definition vmm_map_page :: "u64 \<Rightarrow> u64 \<Rightarrow> u64 \<Rightarrow> 'a vmm_scheme \<Rightarrow> 'a vmm_scheme option" where
  "vmm_map_page phys va flags s =
     (let table_flags = PAGE_PRESENT OR PAGE_WRITABLE OR (flags AND PAGE_USER) in
      Option.bind (vmm_next_table (current_pml4 s) (pml4_idx va) table_flags s) (\<lambda>(pdpt, s).
      case pdpt of None \<Rightarrow> Some s | Some pdpt \<Rightarrow>
      Option.bind (vmm_next_table pdpt (pdpt_idx va) table_flags s) (\<lambda>(pd, s).
      case pd of None \<Rightarrow> Some s | Some pd \<Rightarrow>
      Option.bind (vmm_next_table pd (pd_idx va) table_flags s) (\<lambda>(pt, s).
      case pt of None \<Rightarrow> Some s | Some pt \<Rightarrow>
      Some (invlpg va (set_entry pt (pt_idx va) (phys OR flags OR PAGE_PRESENT) s))))))"

definition vmm_is_mapped :: "u64 \<Rightarrow> 'a vmm_scheme \<Rightarrow> bool" where
  "vmm_is_mapped va s =
     (let e4 = entry s (current_pml4 s) (pml4_idx va) in
      if \<not> present e4 then False else
      let e3 = entry s (table_of s e4) (pdpt_idx va) in
      if \<not> present e3 then False else
      let e2 = entry s (table_of s e3) (pd_idx va) in
      if \<not> present e2 then False else
      if huge e2 then True else
      present (entry s (table_of s e2) (pt_idx va)))"

definition vmm_unmap_page :: "u64 \<Rightarrow> 'a vmm_scheme \<Rightarrow> 'a vmm_scheme" where
  "vmm_unmap_page va s =
     (let e4 = entry s (current_pml4 s) (pml4_idx va) in
      if \<not> present e4 then s else
      let e3 = entry s (table_of s e4) (pdpt_idx va) in
      if \<not> present e3 then s else
      let e2 = entry s (table_of s e3) (pd_idx va) in
      if \<not> present e2 then s else
      invlpg va (set_entry (table_of s e2) (pt_idx va) 0 s))"

section \<open>Cells of page tables\<close>

definition page_aligned :: "u64 \<Rightarrow> bool" where "page_aligned t \<longleftrightarrow> take_bit 12 t = 0"

lemma page_aligned_iff: "page_aligned t \<longleftrightarrow> unat t mod 4096 = 0"
proof -
  have "unat (take_bit 12 t) = unat t mod 4096"
    by (simp add: take_bit_eq_mod unat_mod)
  then show ?thesis unfolding page_aligned_def by (metis unat_eq_zero unat_0)
qed

lemma page_aligned_add: "page_aligned a \<Longrightarrow> page_aligned b \<Longrightarrow> page_aligned (a + b)"
proof -
  assume ab: "page_aligned a" "page_aligned b"
  have "unat (a + b) mod 4096 = (unat a + unat b) mod 4096"
    by (simp add: unat_word_ariths mod_mod_cancel)
  also have "\<dots> = 0" using ab by (simp add: page_aligned_iff mod_0_imp_dvd)
  finally show ?thesis by (simp add: page_aligned_iff)
qed

lemma page_aligned_mult_4096: "page_aligned (k * 4096)"
  by (simp add: page_aligned_def)

lemma aligned_unat: "page_aligned t \<Longrightarrow> \<exists>a. unat t = 4096 * a \<and> a < 2 ^ 52"
proof -
  assume "page_aligned t"
  then obtain a where "unat t = 4096 * a" by (auto simp: page_aligned_iff mod_eq_0_iff_dvd)
  moreover have "unat t < 2 ^ 64" using unsigned_less [of t, where 'a = nat] by simp
  ultimately show ?thesis by auto
qed

lemma aligned_offset:
  assumes "page_aligned t" "x < 4096"
  shows "unat (t + x) = unat t + unat x" "unat (t + x) div 4096 = unat t div 4096"
    "unat (t + x) mod 4096 = unat x"
proof -
  obtain a where a: "unat t = 4096 * a" "a < 2 ^ 52" using aligned_unat [OF assms(1)] by blast
  have x: "unat x < 4096" using assms(2) by (simp add: word_less_nat_alt)
  show u: "unat (t + x) = unat t + unat x" using a x by (intro unat_add_no_wrap) simp
  show "unat (t + x) div 4096 = unat t div 4096" "unat (t + x) mod 4096 = unat x"
    unfolding u using a x by simp_all
qed

lemma aligned_offset_eq:
  assumes "page_aligned t" "page_aligned u" "x < 4096" "y < 4096"
  shows "t + x = u + y \<longleftrightarrow> t = u \<and> x = y"
proof
  assume eq: "t + x = u + y"
  have "unat x = unat y"
    using aligned_offset(3) [OF assms(1,3)] aligned_offset(3) [OF assms(2,4)] eq by simp
  then have "x = y" by (simp add: word_unat_eq_iff)
  with eq show "t = u \<and> x = y" by simp
qed simp

lemma index_offset: "i < 512 \<Longrightarrow> 8 * i < 4096 \<and> unat (8 * i) = 8 * unat i" for i :: u64
  by (simp add: word_less_nat_alt unat_word_ariths)

lemma cell_eq:
  assumes "page_aligned t" "page_aligned u" "i < 512" "j < 512"
  shows "t + 8 * i = u + 8 * j \<longleftrightarrow> t = u \<and> i = j"
proof -
  have "8 * i = 8 * j \<longleftrightarrow> i = j"
    using index_offset [OF assms(3)] index_offset [OF assms(4)] by (auto simp: word_unat_eq_iff)
  then show ?thesis using assms index_offset by (simp add: aligned_offset_eq)
qed

lemma cell_in_page:
  assumes "page_aligned t" "page_aligned u" "i < 512"
  shows "t + 8 * i - u < 4096 \<longleftrightarrow> t = u"
proof
  assume "t + 8 * i - u < 4096"
  moreover have "t + 8 * i = u + (t + 8 * i - u)" by simp
  ultimately show "t = u" using assms index_offset aligned_offset_eq by metis
qed (use assms index_offset in simp)

lemma page_aligned_table_of: "page_aligned (hhdm_offset s) \<Longrightarrow> page_aligned (table_of s e)"
  unfolding table_of_def and_not_0xFFF
  by (intro page_aligned_add) (simp_all add: page_aligned_def take_bit_push_bit)

lemma idx_less: "pml4_idx va < 512" "pdpt_idx va < 512" "pd_idx va < 512" "pt_idx va < 512"
proof -
  have "w AND 0x1FF < 512" for w :: u64
    by (rule le_less_trans [OF word_and_le1]) simp
  then show "pml4_idx va < 512" "pdpt_idx va < 512" "pd_idx va < 512" "pt_idx va < 512"
    by (simp_all add: pml4_idx_def pdpt_idx_def pd_idx_def pt_idx_def)
qed

lemma entry_set_entry:
  "page_aligned t \<Longrightarrow> page_aligned u \<Longrightarrow> i < 512 \<Longrightarrow> j < 512 \<Longrightarrow>
   entry (set_entry t i e s) u j = (if u = t \<and> j = i then e else entry s u j)"
  by (simp add: entry_def set_entry_def cell_eq)

lemma entry_zero_page:
  "page_aligned t \<Longrightarrow> page_aligned u \<Longrightarrow> j < 512 \<Longrightarrow>
   entry (zero_page t s) u j = (if u = t then 0 else entry s u j)"
  by (simp add: entry_def zero_page_def cell_in_page)


text \<open>The table edits leave the physical memory manager and the roots alone.\<close>

lemma set_entry_frame [frame_simps]:
  "current_pml4 (set_entry t i e s) = current_pml4 s" "hhdm_offset (set_entry t i e s) = hhdm_offset s"
  "vmm.more (set_entry t i e s) = vmm.more s"
  "tlb (set_entry t i e s) = tlb s" "free_pages (set_entry t i e s) = free_pages s"
  "pmm_inv (set_entry t i e s) = pmm_inv s"
  by (simp_all add: set_entry_def free_pages_def page_used_def pmm_inv_def pmm_count_def)

lemma zero_page_frame [frame_simps]:
  "current_pml4 (zero_page t s) = current_pml4 s" "hhdm_offset (zero_page t s) = hhdm_offset s"
  "vmm.more (zero_page t s) = vmm.more s"
  "tlb (zero_page t s) = tlb s" "free_pages (zero_page t s) = free_pages s"
  "pmm_inv (zero_page t s) = pmm_inv s"
  by (simp_all add: zero_page_def free_pages_def page_used_def pmm_inv_def pmm_count_def)

lemma invlpg_frame [frame_simps]:
  "current_pml4 (invlpg va s) = current_pml4 s" "hhdm_offset (invlpg va s) = hhdm_offset s"
  "vmm.more (invlpg va s) = vmm.more s"
  "ptmem (invlpg va s) = ptmem s" "free_pages (invlpg va s) = free_pages s"
  "pmm_inv (invlpg va s) = pmm_inv s"
  by (simp_all add: invlpg_def free_pages_def page_used_def pmm_inv_def pmm_count_def)

lemma take_page_frame [frame_simps]:
  "current_pml4 (take_page k s) = current_pml4 s" "hhdm_offset (take_page k s) = hhdm_offset s"
  "ptmem (take_page k s) = ptmem s" "tlb (take_page k s) = tlb s"
  "vmm.more (take_page k s) = vmm.more s"
  by (simp_all add: take_page_def)

section \<open>The tree of tables\<close>

text \<open>
  A path lists indices, the deepest first; \<open>tab s p\<close> is the table it leads to. A huge entry is a
  leaf: no table hangs off it. \<open>leaf s va\<close> is the entry that maps the 4 KB page of \<open>va\<close>.
\<close>

fun tab :: "'a vmm_scheme \<Rightarrow> u64 list \<Rightarrow> u64 option" where
  "tab s [] = Some (current_pml4 s)"
| "tab s (i # p) = Option.bind (tab s p) (\<lambda>t.
     if present (entry s t i) \<and> \<not> huge (entry s t i) then Some (table_of s (entry s t i)) else None)"

definition path :: "u64 list \<Rightarrow> bool" where
  "path p \<longleftrightarrow> length p \<le> 3 \<and> (\<forall>i\<in>set p. i < 512)"

definition leaf :: "'a vmm_scheme \<Rightarrow> u64 \<Rightarrow> u64 option" where
  "leaf s va = Option.bind (tab s [pd_idx va, pdpt_idx va, pml4_idx va]) (\<lambda>t.
     if present (entry s t (pt_idx va)) then Some (entry s t (pt_idx va)) else None)"

definition huge_at :: "'a vmm_scheme \<Rightarrow> u64 list \<Rightarrow> u64 \<Rightarrow> bool" where
  "huge_at s p i \<longleftrightarrow> (\<exists>t. tab s p = Some t \<and> present (entry s t i) \<and> huge (entry s t i))"

definition no_huge :: "'a vmm_scheme \<Rightarrow> u64 \<Rightarrow> bool" where
  "no_huge s va \<longleftrightarrow> \<not> huge_at s [] (pml4_idx va) \<and> \<not> huge_at s [pml4_idx va] (pdpt_idx va) \<and>
     \<not> huge_at s [pdpt_idx va, pml4_idx va] (pd_idx va)"

definition frame_no :: "'a vmm_scheme \<Rightarrow> u64 \<Rightarrow> u64" where
  "frame_no s t = (t - hhdm_offset s) div 4096"

text \<open>
  The invariant: no two paths lead to the same table, and no page in use as a table is free in
  the physical memory manager.
\<close>

definition pt_inv :: "'a vmm_scheme \<Rightarrow> bool" where
  "pt_inv s \<longleftrightarrow> pmm_inv s \<and> page_aligned (current_pml4 s) \<and> page_aligned (hhdm_offset s) \<and>
     (\<forall>p q t. path p \<longrightarrow> path q \<longrightarrow> tab s p = Some t \<longrightarrow> tab s q = Some t \<longrightarrow> p = q) \<and>
     (\<forall>p t. path p \<longrightarrow> tab s p = Some t \<longrightarrow> frame_no s t \<notin> free_pages s)"

lemma pt_invD:
  assumes "pt_inv s"
  shows "pmm_inv s" "page_aligned (current_pml4 s)" "page_aligned (hhdm_offset s)"
    "path p \<Longrightarrow> path q \<Longrightarrow> tab s p = Some t \<Longrightarrow> tab s q = Some t \<Longrightarrow> p = q"
    "path p \<Longrightarrow> tab s p = Some t \<Longrightarrow> frame_no s t \<notin> free_pages s"
  using assms unfolding pt_inv_def by blast+

lemma tab_aligned: "pt_inv s \<Longrightarrow> tab s p = Some t \<Longrightarrow> page_aligned t"
  by (cases p) (auto dest: pt_invD(2,3) simp: page_aligned_table_of split: Option.bind_splits if_splits)

text \<open>Linking a fresh, cleared page into slot \<open>i\<close> of the table at path \<open>p\<close>.\<close>

definition link_table :: "u64 \<Rightarrow> u64 \<Rightarrow> u64 \<Rightarrow> u64 \<Rightarrow> 'a vmm_scheme \<Rightarrow> 'a vmm_scheme" where
  "link_table t i k fl s =
     set_entry t i (k * 4096 OR fl) (zero_page (k * 4096 + hhdm_offset s) (take_page k s))"

lemma link_table_simps [simp]:
  "current_pml4 (link_table t i k fl s) = current_pml4 s"
  "hhdm_offset (link_table t i k fl s) = hhdm_offset s"
  "tlb (link_table t i k fl s) = tlb s"
  "free_pages (link_table t i k fl s) = free_pages s - {k}"
  "pmm_inv (link_table t i k fl s) = pmm_inv (take_page k s)"
  "vmm.more (link_table t i k fl s) = vmm.more s"
  by (simp_all add: link_table_def frame_simps free_pages_take)

lemma entry_link_table:
  assumes "page_aligned t" "page_aligned u" "page_aligned (hhdm_offset s)" "i < 512" "j < 512"
  shows "entry (link_table t i k fl s) u j = (if u = t \<and> j = i then k * 4096 OR fl
    else if u = k * 4096 + hhdm_offset s then 0 else entry s u j)"
proof -
  have "page_aligned (k * 4096 + hhdm_offset s)"
    using assms(3) by (simp add: page_aligned_add page_aligned_mult_4096)
  with assms show ?thesis
    by (simp add: link_table_def entry_set_entry entry_zero_page) (simp add: entry_def frame_simps)
qed

text \<open>Flags of the intermediate tables: present, writable, perhaps user.\<close>

definition table_flags :: "u64 \<Rightarrow> u64" where
  "table_flags flags = PAGE_PRESENT OR PAGE_WRITABLE OR (flags AND PAGE_USER)"

lemma table_flags_cases: "table_flags flags = 3 \<or> table_flags flags = 7"
proof -
  have "flags AND 4 = 0 \<or> flags AND 4 = 4"
    using and_exp [of flags 2] by (auto split: if_splits)
  then show ?thesis by (auto simp: table_flags_def)
qed

lemma new_entry:
  assumes "fl = 3 \<or> fl = 7"
  shows "present (k * 4096 OR fl)" "\<not> huge (k * 4096 OR fl)"
    "(k * 4096 OR fl) AND NOT 0xFFF = k * 4096"
proof -
  have kb: "\<not> bit (k * 4096) n" if "n < 12" for n
    using that by (simp add: mult_4096 bit_simps)
  have fb: "\<not> bit fl n" if "3 \<le> n" for n
  proof -
    have "fl = mask 2 \<or> fl = mask 3" using assms by (auto simp: mask_eq_exp_minus_1)
    then show ?thesis using that by (auto simp: bit_mask_iff)
  qed
  have "bit fl 0" using assms by auto
  then show "present (k * 4096 OR fl)"
    unfolding present_def using and_exp_eq_0_iff_not_bit [of "k * 4096 OR fl" 0] by (simp add: bit_simps)
  show "\<not> huge (k * 4096 OR fl)"
    unfolding huge_def using and_exp_eq_0_iff_not_bit [of "k * 4096 OR fl" 7] kb [of 7] fb [of 7]
    by (simp add: bit_simps)
  show "(k * 4096 OR fl) AND NOT 0xFFF = k * 4096"
    unfolding and_not_0xFFF
  proof (rule bit_word_eqI)
    fix n assume "n < LENGTH(64)"
    then show "bit (push_bit 12 (drop_bit 12 (k * 4096 OR fl))) n = bit (k * 4096) n"
      using kb [of n] fb [of n] by (cases "n < 12") (simp_all add: bit_simps)
  qed
qed

text \<open>The tree after linking: one new table, everything else as before.\<close>

definition link_pre :: "'a vmm_scheme \<Rightarrow> u64 list \<Rightarrow> u64 \<Rightarrow> u64 \<Rightarrow> u64 \<Rightarrow> u64 \<Rightarrow> bool" where
  "link_pre s p t i k fl \<longleftrightarrow> pt_inv s \<and> k \<in> free_pages s \<and> (fl = 3 \<or> fl = 7) \<and> path p \<and>
     length p < 3 \<and> i < 512 \<and> tab s p = Some t \<and> \<not> present (entry s t i)"

lemma link_fresh:
  assumes "link_pre s p t i k fl" "path q" "tab s q = Some u"
  shows "u \<noteq> k * 4096 + hhdm_offset s"
proof
  assume u: "u = k * 4096 + hhdm_offset s"
  have inv: "pt_inv s" and k: "k \<in> free_pages s" using assms(1) by (auto simp: link_pre_def)
  have "frame_no s u = k" using pmm.page_address(2) [OF pt_invD(1) [OF inv] k] u by (simp add: frame_no_def)
  with pt_invD(5) [OF inv assms(2,3)] k show False by simp
qed

lemma link_entry:
  assumes "link_pre s p t i k fl" "page_aligned u" "j < 512"
  shows "entry (link_table t i k fl s) u j = (if u = t \<and> j = i then k * 4096 OR fl
    else if u = k * 4096 + hhdm_offset s then 0 else entry s u j)"
  using assms by (intro entry_link_table) (auto simp: link_pre_def tab_aligned dest: pt_invD(3))

lemma link_table_of: "fl = 3 \<or> fl = 7 \<Longrightarrow> table_of (link_table t i k fl s) (k * 4096 OR fl) = k * 4096 + hhdm_offset s"
  unfolding table_of_def by (simp only: new_entry link_table_simps)

lemma table_of_link [simp]: "table_of (link_table t i k fl s) e = table_of s e"
  by (simp add: table_of_def)

lemma not_present_0 [simp]: "\<not> present 0"
  by (simp add: present_def)

lemma path_Cons: "path (j # q) \<longleftrightarrow> j < 512 \<and> path q \<and> length q < 3"
  by (auto simp: path_def)

lemma tab_link:
  assumes pre: "link_pre s p t i k fl" and q: "path q"
  shows "tab (link_table t i k fl s) q = (if q = i # p then Some (k * 4096 + hhdm_offset s) else tab s q)"
  using q
proof (induction q)
  case Nil
  then show ?case by simp
next
  case (Cons j r)
  let ?n = "k * 4096 + hhdm_offset s" and ?s = "link_table t i k fl s"
  have pre': "pt_inv s" "path p" "tab s p = Some t" "\<not> present (entry s t i)" "fl = 3 \<or> fl = 7"
    using pre by (auto simp: link_pre_def)
  have r: "path r" "j < 512" using Cons.prems by (auto simp: path_Cons)
  have al: "page_aligned ?n"
    by (simp add: page_aligned_add page_aligned_mult_4096 pt_invD(3) [OF pre'(1)])
  have IH: "tab ?s r = (if r = i # p then Some ?n else tab s r)" using Cons.IH r by simp
  have nt: "?n \<noteq> t" using link_fresh [OF pre pre'(2,3)] by simp
  show ?case
  proof (cases "r = i # p")
    case True
    have "tab s r = None" using True pre' by simp
    moreover have "entry ?s ?n j = 0" using link_entry [OF pre al r(2)] nt by simp
    ultimately show ?thesis using IH True by simp
  next
    case False
    show ?thesis
    proof (cases "tab s r")
      case None
      with IH False pre' show ?thesis by auto
    next
      case (Some u)
      have fresh: "u \<noteq> ?n" using link_fresh [OF pre r(1) Some] .
      have e: "entry ?s u j = (if u = t \<and> j = i then k * 4096 OR fl else entry s u j)"
        using link_entry [OF pre tab_aligned [OF pre'(1) Some] r(2)] fresh by simp
      have "u = t \<longleftrightarrow> r = p" using pt_invD(4) [OF pre'(1) r(1) pre'(2)] Some pre'(3) by auto
      with e IH False Some new_entry(1,2) [OF pre'(5)] link_table_of [OF pre'(5)] show ?thesis
        by auto
    qed
  qed
qed

lemma link_pre_path: "link_pre s p t i k fl \<Longrightarrow> path (i # p)"
  by (auto simp: link_pre_def path_Cons)

lemma pt_inv_link:
  assumes pre: "link_pre s p t i k fl"
  shows "pt_inv (link_table t i k fl s)"
proof -
  let ?n = "k * 4096 + hhdm_offset s" and ?s = "link_table t i k fl s"
  have inv: "pt_inv s" and k: "k \<in> free_pages s" using pre by (auto simp: link_pre_def)
  have fn: "frame_no ?s u = frame_no s u" for u by (simp add: frame_no_def)
  have "frame_no s ?n = k"
    using pmm.page_address(2) [OF pt_invD(1) [OF inv] k] by (simp add: frame_no_def)
  moreover have "q = r" if "path q" "path r" "tab ?s q = Some u" "tab ?s r = Some u" for q r u
    using that link_fresh [OF pre, of q u] link_fresh [OF pre, of r u] pt_invD(4) [OF inv, of q r u]
    by (auto simp: tab_link [OF pre] split: if_splits)
  moreover have "frame_no s u \<notin> free_pages s - {k}" if "path q" "tab s q = Some u" for q u
    using pt_invD(5) [OF inv that] by simp
  ultimately show ?thesis
    unfolding pt_inv_def fn
    using pt_invD(1-3) [OF inv] pmm_inv_take [OF pt_invD(1) [OF inv] k]
    by (auto simp: tab_link [OF pre] split: if_splits)
qed

lemma entry_link_other:
  assumes pre: "link_pre s p t i k fl" and q: "path q" "tab s q = Some u" "j < 512" "j # q \<noteq> i # p"
  shows "entry (link_table t i k fl s) u j = entry s u j"
proof -
  have inv: "pt_inv s" "path p" "tab s p = Some t" using pre by (auto simp: link_pre_def)
  have "u \<noteq> t \<or> j \<noteq> i" using pt_invD(4) [OF inv(1) q(1) inv(2) q(2)] inv(3) q(4) by auto
  then show ?thesis
    using link_entry [OF pre tab_aligned [OF inv(1) q(2)] q(3)] link_fresh [OF pre q(1,2)] by auto
qed

lemma entry_link_new:
  assumes pre: "link_pre s p t i k fl" and "j < 512"
  shows "entry (link_table t i k fl s) (k * 4096 + hhdm_offset s) j = 0"
proof -
  have inv: "pt_inv s" "path p" "tab s p = Some t" using pre by (auto simp: link_pre_def)
  have "page_aligned (k * 4096 + hhdm_offset s)"
    by (simp add: page_aligned_add page_aligned_mult_4096 pt_invD(3) [OF inv(1)])
  then show ?thesis using link_entry [OF pre _ assms(2)] link_fresh [OF pre inv(2,3)] by auto
qed

lemma leaf_link:
  assumes pre: "link_pre s p t i k fl"
  shows "leaf (link_table t i k fl s) va = leaf s va"
proof -
  let ?q = "[pd_idx va, pdpt_idx va, pml4_idx va]" and ?s = "link_table t i k fl s"
  have q: "path ?q" by (simp add: path_def idx_less)
  have len: "pt_idx va # ?q \<noteq> i # p" using pre by (auto simp: link_pre_def)
  show ?thesis
  proof (cases "?q = i # p")
    case True
    then have "tab s ?q = None" using pre by (simp add: link_pre_def)
    then show ?thesis
      using True tab_link [OF pre q] entry_link_new [OF pre idx_less(4)]
      by (simp add: leaf_def del: tab.simps)
  next
    case False
    then have tq: "tab ?s ?q = tab s ?q" using tab_link [OF pre q] by (simp only: if_False)
    show ?thesis
    proof (cases "tab s ?q")
      case None
      then show ?thesis using tq by (simp add: leaf_def del: tab.simps)
    next
      case (Some u)
      then show ?thesis
        using tq entry_link_other [OF pre q Some idx_less(4) len] by (simp add: leaf_def del: tab.simps)
    qed
  qed
qed

lemma huge_at_link:
  assumes pre: "link_pre s p t i k fl" and q: "path q" "j < 512"
  shows "huge_at (link_table t i k fl s) q j \<Longrightarrow> huge_at s q j"
proof -
  let ?s = "link_table t i k fl s"
  assume "huge_at ?s q j"
  then obtain u where u: "tab ?s q = Some u" "present (entry ?s u j)" "huge (entry ?s u j)"
    by (auto simp: huge_at_def)
  show ?thesis
  proof (cases "q = i # p")
    case True
    then show ?thesis using u tab_link [OF pre q(1)] entry_link_new [OF pre q(2)] by auto
  next
    case False
    then have su: "tab s q = Some u" using u tab_link [OF pre q(1)] by simp
    have "j # q \<noteq> i # p"
    proof
      assume eq: "j # q = i # p"
      have inv: "pt_inv s" "path p" "tab s p = Some t" "fl = 3 \<or> fl = 7"
        using pre by (auto simp: link_pre_def)
      have "entry ?s u j = k * 4096 OR fl"
        using eq su inv link_entry [OF pre tab_aligned [OF inv(1) su] q(2)] by auto
      then show False using u(3) new_entry(2) [OF inv(4)] by simp
    qed
    then show ?thesis using entry_link_other [OF pre q(1) su q(2)] u su by (auto simp: huge_at_def)
  qed
qed

section \<open>Descending one level\<close>

lemma vmm_next_table_spec:
  assumes inv: "pt_inv s" and p: "path (i # p)" "tab s p = Some t" "\<not> huge_at s p i"
    and fl: "fl = 3 \<or> fl = 7"
  obtains (full) "vmm_next_table t i fl s = Some (None, s)" "free_pages s = {}"
  | (step) n s' where "vmm_next_table t i fl s = Some (Some n, s')" "tab s' (i # p) = Some n"
      "pt_inv s'" "\<And>va. leaf s' va = leaf s va" "tlb s' = tlb s"
      "\<And>q j. path (j # q) \<Longrightarrow> huge_at s' q j \<Longrightarrow> huge_at s q j"
      "\<And>q. path q \<Longrightarrow> tab s q \<noteq> None \<Longrightarrow> tab s' q = tab s q"
      "free_pages s' \<subseteq> free_pages s" "vmm.more s' = vmm.more s"
proof (cases "present (entry s t i)")
  case True
  then have "tab s (i # p) = Some (table_of s (entry s t i))"
    using p by (auto simp: huge_at_def)
  with True inv show thesis by (intro step) (auto simp: vmm_next_table_def)
next
  case absent: False
  have pinv: "pmm_inv s" using inv by (rule pt_invD)
  then obtain a s1 where r: "pmm_alloc_page s = Some (a, s1)" using pmm.alloc_defined by blast
  from pinv r show thesis
  proof (cases rule: pmm_alloc_page_cases)
    case full
    then show thesis using absent r by (intro that(1)) (auto simp: vmm_next_table_def)
  next
    case (found k)
    have pre: "link_pre s p t i k fl"
      using inv found p fl absent by (auto simp: link_pre_def path_Cons)
    have "a \<noteq> 0" using pmm.page_address(1) [OF pinv found(1)] found(3) by simp
    moreover have "hhdm_offset s1 = hhdm_offset s" using found by (simp add: frame_simps)
    moreover have al: "page_aligned t" using tab_aligned [OF inv p(2)] .
    moreover have "entry (link_table t i k fl s) t i = k * 4096 OR fl"
      using link_entry [OF pre al] p(1) by (simp add: path_Cons)
    moreover have "link_table t i k fl s =
        set_entry t i (a OR fl) (zero_page (a + hhdm_offset s1) s1)"
      using found by (simp add: link_table_def frame_simps)
    ultimately have "vmm_next_table t i fl s =
        Some (Some (k * 4096 + hhdm_offset s), link_table t i k fl s)"
      using absent r link_table_of [OF fl, of t i k s] by (simp add: vmm_next_table_def Let_def)
    then show thesis
    proof (rule step)
      show "tab (link_table t i k fl s) (i # p) = Some (k * 4096 + hhdm_offset s)"
        using tab_link [OF pre p(1)] by simp
      show "tab (link_table t i k fl s) q = tab s q" if "path q" "tab s q \<noteq> None" for q
        using that tab_link [OF pre that(1)] p absent by auto
    qed (use pt_inv_link [OF pre] leaf_link [OF pre] huge_at_link [OF pre] in \<open>auto simp: path_Cons\<close>)
  qed
qed

section \<open>Writing a leaf entry\<close>

lemma tab_set_leaf:
  assumes inv: "pt_inv s" and q: "path q" "length q = 3" "tab s q = Some t" "i < 512" and r: "path r"
  shows "tab (set_entry t i e s) r = tab s r"
  using r
proof (induction r)
  case Nil
  then show ?case by (simp add: frame_simps)
next
  case (Cons j r)
  then have r: "path r" "j < 512" "length r < 3" by (auto simp: path_Cons)
  show ?case
  proof (cases "tab s r")
    case (Some u)
    have "u \<noteq> t" using pt_invD(4) [OF inv q(1) r(1) q(3)] Some q(2) r(3) by auto
    then have "entry (set_entry t i e s) u j = entry s u j"
      using entry_set_entry [OF tab_aligned [OF inv q(3)] tab_aligned [OF inv Some] q(4) r(2)] by simp
    then show ?thesis using Cons.IH r Some by (simp add: table_of_def frame_simps)
  qed (use Cons.IH r in simp)
qed

lemma pt_inv_set_leaf:
  assumes inv: "pt_inv s" and q: "path q" "length q = 3" "tab s q = Some t" "i < 512"
  shows "pt_inv (set_entry t i e s)"
proof -
  have "frame_no (set_entry t i e s) u = frame_no s u" for u by (simp add: frame_no_def frame_simps)
  then show ?thesis
    using inv tab_set_leaf [OF inv q] unfolding pt_inv_def by (simp add: frame_simps)
qed

text \<open>The page of an address: the four table indices, bits 12 to 47.\<close>

definition same_page :: "u64 \<Rightarrow> u64 \<Rightarrow> bool" where
  "same_page v w \<longleftrightarrow> pml4_idx v = pml4_idx w \<and> pdpt_idx v = pdpt_idx w \<and> pd_idx v = pd_idx w \<and>
     pt_idx v = pt_idx w"

lemma leaf_set_leaf:
  assumes inv: "pt_inv s" and t: "tab s [pd_idx va, pdpt_idx va, pml4_idx va] = Some t"
  shows "leaf (set_entry t (pt_idx va) e s) v =
    (if same_page v va then if present e then Some e else None else leaf s v)"
proof -
  let ?q = "[pd_idx va, pdpt_idx va, pml4_idx va]" and ?r = "[pd_idx v, pdpt_idx v, pml4_idx v]"
  let ?s = "set_entry t (pt_idx va) e s"
  have q: "path ?q" "path ?r" "length ?q = 3" by (simp_all add: path_def idx_less)
  have tr: "tab ?s ?r = tab s ?r" using tab_set_leaf [OF inv q(1,3) t idx_less(4) q(2)] .
  show ?thesis
  proof (cases "tab s ?r")
    case None
    then have "\<not> same_page v va" using t by (auto simp: same_page_def simp del: tab.simps)
    with None tr show ?thesis by (simp add: leaf_def del: tab.simps)
  next
    case (Some u)
    have "u = t \<longleftrightarrow> ?r = ?q" using pt_invD(4) [OF inv q(2,1) Some] t Some by (auto simp del: tab.simps)
    then have "entry ?s u (pt_idx v) = (if same_page v va then e else entry s u (pt_idx v))"
      using entry_set_entry [OF tab_aligned [OF inv t] tab_aligned [OF inv Some] idx_less(4) [of va]
        idx_less(4) [of v], of e s]
      by (auto simp: same_page_def)
    with Some tr show ?thesis by (simp add: leaf_def del: tab.simps)
  qed
qed

section \<open>Mapping, unmapping, querying\<close>

text \<open>The translation cache holds no entry the tables do not have.\<close>

definition tlb_coherent :: "'a vmm_scheme \<Rightarrow> bool" where
  "tlb_coherent s \<longleftrightarrow> (\<forall>v e. tlb s (take_bit 36 (drop_bit 12 v)) = Some e \<longrightarrow> leaf s v = Some e)"

lemma invlpg_simps [simp]:
  "leaf (invlpg va s) v = leaf s v" "tab (invlpg va s) p = tab s p"
  "pt_inv (invlpg va s) = pt_inv s"
proof -
  have e: "entry (invlpg va s) = entry s" "table_of (invlpg va s) = table_of s"
    by (simp_all add: entry_def table_of_def frame_simps fun_eq_iff)
  show t: "tab (invlpg va s) p = tab s p" for p by (induction p) (simp_all add: e frame_simps cong: if_cong)
  show "leaf (invlpg va s) v = leaf s v" unfolding leaf_def t e ..
  show "pt_inv (invlpg va s) = pt_inv s" by (simp add: pt_inv_def t frame_no_def frame_simps)
qed

lemma take_drop_bit_eq:
  "take_bit m (drop_bit a v) = take_bit m (drop_bit a w) \<longleftrightarrow> (\<forall>n<m. bit v (a + n) = bit w (a + n))"
  for v w :: "'a::len word"
proof -
  have "bit v (a + n) = bit w (a + n)" if "\<not> n < LENGTH('a)" for n
    using that bit_imp_le_length [of v "a + n"] bit_imp_le_length [of w "a + n"] by linarith
  then show ?thesis by (auto simp: bit_eq_iff bit_simps)
qed

lemma all_less_add: "(\<forall>n<a + b. P n) \<longleftrightarrow> (\<forall>n<a. P n) \<and> (\<forall>n<b. P (a + n))" for a b :: nat
proof (intro iffI conjI allI impI)
  fix n assume "(\<forall>n<a. P n) \<and> (\<forall>n<b. P (a + n))" "n < a + b"
  then show "P n" by (cases "n < a") (auto dest: spec [of _ "n - a"])
qed auto

lemma same_page_iff: "same_page v w \<longleftrightarrow> take_bit 36 (drop_bit 12 v) = take_bit 36 (drop_bit 12 w)"
proof -
  have m: "x AND 0x1FF = take_bit 9 x" for x :: u64
    by (simp add: take_bit_eq_mask mask_eq_exp_minus_1)
  have "(\<forall>n<9 + (9 + (9 + 9)). P (12 + n)) \<longleftrightarrow> (\<forall>n<9. P (39 + n)) \<and> (\<forall>n<9. P (30 + n)) \<and>
      (\<forall>n<9. P (21 + n)) \<and> (\<forall>n<9. P (12 + n))" for P :: "nat \<Rightarrow> bool"
    unfolding all_less_add by (auto simp: add.assoc [symmetric])
  then have split: "(\<forall>n<36. P (12 + n)) \<longleftrightarrow> (\<forall>n<9. P (39 + n)) \<and> (\<forall>n<9. P (30 + n)) \<and>
      (\<forall>n<9. P (21 + n)) \<and> (\<forall>n<9. P (12 + n))" for P :: "nat \<Rightarrow> bool"
    by simp
  show ?thesis
    unfolding same_page_def pml4_idx_def pdpt_idx_def pd_idx_def pt_idx_def m take_drop_bit_eq
    by (rule split [symmetric])
qed

text \<open>
  What adding tables keeps: no page becomes free, no huge page appears, and the state of the
  memory manager's clients is untouched.
\<close>

definition tree_grows :: "'a vmm_scheme \<Rightarrow> 'a vmm_scheme \<Rightarrow> bool" where
  "tree_grows s s' \<longleftrightarrow> free_pages s' \<subseteq> free_pages s \<and> vmm.more s' = vmm.more s \<and>
     (\<forall>q j. path (j # q) \<longrightarrow> huge_at s' q j \<longrightarrow> huge_at s q j)"

lemma tree_grows_refl [simp]: "tree_grows s s"
  by (simp add: tree_grows_def)

lemma tree_grows_trans [trans]: "tree_grows s t \<Longrightarrow> tree_grows t u \<Longrightarrow> tree_grows s u"
  unfolding tree_grows_def by (metis subset_trans)

lemma tree_grows_no_huge: "tree_grows s s' \<Longrightarrow> no_huge s v \<Longrightarrow> no_huge s' v"
  unfolding tree_grows_def no_huge_def
  using idx_less [of v] by (auto simp: path_def)

lemma tree_grows_invlpg [simp]: "tree_grows s (invlpg va s') = tree_grows s s'"
  by (simp add: tree_grows_def huge_at_def frame_simps entry_def)

lemma tree_grows_set_leaf:
  assumes inv: "pt_inv s" and q: "path q" "length q = 3" "tab s q = Some t" "i < 512"
  shows "tree_grows s (set_entry t i e s)"
proof -
  have "huge_at s r j" if jr: "path (j # r)" and hg: "huge_at (set_entry t i e s) r j" for r j
  proof -
    have r: "path r" "j < 512" "length r < 3" using jr by (auto simp: path_Cons)
    obtain u where u: "tab s r = Some u" "present (entry (set_entry t i e s) u j)"
        "huge (entry (set_entry t i e s) u j)"
      using hg tab_set_leaf [OF inv q r(1)] by (auto simp: huge_at_def)
    have "u \<noteq> t" using pt_invD(4) [OF inv q(1) r(1) q(3)] u(1) q(2) r(3) by auto
    then have "entry (set_entry t i e s) u j = entry s u j"
      using entry_set_entry [OF tab_aligned [OF inv q(3)] tab_aligned [OF inv u(1)] q(4) r(2)] by simp
    with u show ?thesis by (auto simp: huge_at_def)
  qed
  then show ?thesis by (auto simp: tree_grows_def frame_simps)
qed

text \<open>
  The three descents of \<open>vmm_map_page\<close>: either memory ran out on the way, and no translation has
  changed, or a table for the leaf entry is there.
\<close>

definition vmm_descend :: "u64 \<Rightarrow> u64 \<Rightarrow> 'a vmm_scheme \<Rightarrow> (u64 option \<times> 'a vmm_scheme) option" where
  "vmm_descend va fl s =
     Option.bind (vmm_next_table (current_pml4 s) (pml4_idx va) fl s) (\<lambda>(pdpt, s).
     case pdpt of None \<Rightarrow> Some (None, s) | Some pdpt \<Rightarrow>
     Option.bind (vmm_next_table pdpt (pdpt_idx va) fl s) (\<lambda>(pd, s).
     case pd of None \<Rightarrow> Some (None, s) | Some pd \<Rightarrow> vmm_next_table pd (pd_idx va) fl s))"

lemma vmm_map_page_descend:
  "vmm_map_page phys va flags s =
     Option.bind (vmm_descend va (table_flags flags) s) (\<lambda>(pt, s).
       case pt of None \<Rightarrow> Some s | Some pt \<Rightarrow>
       Some (invlpg va (set_entry pt (pt_idx va) (phys OR flags OR PAGE_PRESENT) s)))"
  by (auto simp: vmm_map_page_def vmm_descend_def table_flags_def Let_def
    split: Option.bind_splits option.splits)

lemma vmm_descend_spec:
  assumes inv: "pt_inv s" and nh: "no_huge s va" and fl: "fl = 3 \<or> fl = 7"
  obtains r s' where "vmm_descend va fl s = Some (r, s')" "pt_inv s'" "\<And>v. leaf s' v = leaf s v"
    "tlb s' = tlb s" "tree_grows s s'"
    "(case r of None \<Rightarrow> free_pages s' = {} | Some t \<Rightarrow> tab s' [pd_idx va, pdpt_idx va, pml4_idx va] = Some t)"
proof -
  have p1: "path [pml4_idx va]" and p2: "path [pdpt_idx va, pml4_idx va]"
    and p3: "path [pd_idx va, pdpt_idx va, pml4_idx va]" by (simp_all add: path_def idx_less)
  have h1: "\<not> huge_at s [] (pml4_idx va)" using nh by (simp add: no_huge_def)
  have t0: "tab s [] = Some (current_pml4 s)" by simp
  have g: "tree_grows a b" if "\<And>q j. path (j # q) \<Longrightarrow> huge_at b q j \<Longrightarrow> huge_at a q j"
    "free_pages b \<subseteq> free_pages a" "vmm.more b = vmm.more a" for a b :: "'a vmm_scheme"
    using that by (simp add: tree_grows_def)
  from inv p1 t0 h1 fl show thesis
  proof (cases rule: vmm_next_table_spec)
    case full
    then show thesis using inv by (intro that [of None s]) (auto simp: vmm_descend_def)
  next
    case one: (step n1 s1)
    have h2: "\<not> huge_at s1 [pml4_idx va] (pdpt_idx va)" using one(6) [OF p2] nh by (auto simp: no_huge_def)
    from one(3) p2 one(2) h2 fl show thesis
    proof (cases rule: vmm_next_table_spec)
      case full
      then show thesis using one g [OF one(6,8,9)] by (intro that [of None s1]) (auto simp: vmm_descend_def)
    next
      case two: (step n2 s2)
      have h3: "\<not> huge_at s2 [pdpt_idx va, pml4_idx va] (pd_idx va)"
        using two(6) [OF p3] one(6) [OF p3] nh by (auto simp: no_huge_def)
      from two(3) p3 two(2) h3 fl show thesis
      proof (cases rule: vmm_next_table_spec)
        case full
        then show thesis using one two tree_grows_trans [OF g [OF one(6,8,9)] g [OF two(6,8,9)]]
          by (intro that [of None s2]) (auto simp: vmm_descend_def)
      next
        case three: (step n3 s3)
        have "vmm_descend va fl s = Some (Some n3, s3)"
          using one(1) two(1) three(1) by (simp add: vmm_descend_def)
        moreover have "tree_grows s s3"
          using g [OF one(6,8,9)] g [OF two(6,8,9)] g [OF three(6,8,9)] by (blast intro: tree_grows_trans)
        ultimately show thesis using one two three by (intro that [of "Some n3" s3]) auto
      qed
    qed
  qed
qed

lemma present_or_1: "present (e OR 1)"
  using and_exp_eq_0_iff_not_bit [of "e OR 1" 0] by (simp add: present_def bit_simps)

lemma tlb_coherent_set:
  assumes "tlb_coherent s" "tlb s' = tlb s" "\<And>v. leaf s' v = leaf s v"
  shows "tlb_coherent s'"
  using assms by (simp add: tlb_coherent_def)

lemma tlb_coherent_leaf_change:
  assumes "tlb_coherent s" "tlb s' = tlb s" "\<And>v. \<not> same_page v va \<Longrightarrow> leaf s' v = leaf s v"
  shows "tlb_coherent (invlpg va s')"
  unfolding tlb_coherent_def
proof (intro allI impI)
  fix v e
  assume a: "tlb (invlpg va s') (take_bit 36 (drop_bit 12 v)) = Some e"
  then have np: "\<not> same_page v va" by (auto simp: invlpg_def same_page_iff)
  with a assms(2) have "tlb s (take_bit 36 (drop_bit 12 v)) = Some e"
    by (simp add: invlpg_def same_page_iff)
  with assms(1,3) np show "leaf (invlpg va s') v = Some e" by (simp add: tlb_coherent_def)
qed

lemma vmm_map_page_spec:
  assumes inv: "pt_inv s" and nh: "no_huge s va"
  shows "\<exists>s'. vmm_map_page phys va flags s = Some s' \<and> pt_inv s' \<and>
    (\<forall>v. \<not> same_page v va \<longrightarrow> leaf s' v = leaf s v) \<and>
    (leaf s' va = Some (phys OR flags OR PAGE_PRESENT) \<or> leaf s' va = leaf s va \<and> free_pages s' = {}) \<and>
    (tlb_coherent s \<longrightarrow> tlb_coherent s') \<and> tree_grows s s'"
proof -
  obtain r s1 where r: "vmm_descend va (table_flags flags) s = Some (r, s1)" "pt_inv s1"
    "\<And>v. leaf s1 v = leaf s v" "tlb s1 = tlb s" "tree_grows s s1"
    "case r of None \<Rightarrow> free_pages s1 = {} | Some t \<Rightarrow> tab s1 [pd_idx va, pdpt_idx va, pml4_idx va] = Some t"
    using vmm_descend_spec [OF inv nh table_flags_cases] by metis
  show ?thesis
  proof (cases r)
    case None
    then have "vmm_map_page phys va flags s = Some s1" using r(1) by (simp add: vmm_map_page_descend)
    with None r tlb_coherent_set [OF _ r(4,3)] show ?thesis by auto
  next
    case (Some t)
    let ?e = "phys OR flags OR 1" and ?s2 = "set_entry t (pt_idx va) (phys OR flags OR 1) s1"
    have t: "tab s1 [pd_idx va, pdpt_idx va, pml4_idx va] = Some t" using r(6) Some by (simp del: tab.simps)
    have e: "present ?e" using present_or_1 [of "phys OR flags"] by (simp add: or.assoc)
    have lf: "leaf ?s2 v = (if same_page v va then Some ?e else leaf s v)" for v
      using leaf_set_leaf [OF r(2) t, of ?e v] e r(3) by simp
    have "pt_inv ?s2"
      using pt_inv_set_leaf [OF r(2) _ _ t idx_less(4)] by (simp add: path_def idx_less)
    moreover have "tree_grows s (invlpg va ?s2)"
      using tree_grows_trans [OF r(5) tree_grows_set_leaf [OF r(2) _ _ t idx_less(4) [of va]]]
      by (simp add: path_def idx_less)
    moreover have "vmm_map_page phys va flags s = Some (invlpg va ?s2)"
      using r(1) Some by (simp add: vmm_map_page_descend)
    moreover have "same_page va va" by (simp add: same_page_def)
    ultimately show ?thesis
      using tlb_coherent_leaf_change [of s ?s2 va] lf r(4) by (simp add: frame_simps)
  qed
qed

lemma no_huge_walk:
  assumes "no_huge s va"
  shows "vmm_is_mapped va s \<longleftrightarrow> leaf s va \<noteq> None"
    and "tab s [pd_idx va, pdpt_idx va, pml4_idx va] = None \<Longrightarrow> vmm_unmap_page va s = s"
    and "tab s [pd_idx va, pdpt_idx va, pml4_idx va] = Some t \<Longrightarrow>
      vmm_unmap_page va s = invlpg va (set_entry t (pt_idx va) 0 s)"
  using assms
  by (auto simp: vmm_is_mapped_def vmm_unmap_page_def leaf_def no_huge_def huge_at_def Let_def
    split: Option.bind_splits if_splits)

lemma vmm_unmap_page_spec:
  assumes inv: "pt_inv s" and nh: "no_huge s va"
  shows "pt_inv (vmm_unmap_page va s) \<and> leaf (vmm_unmap_page va s) va = None \<and>
    (\<forall>v. \<not> same_page v va \<longrightarrow> leaf (vmm_unmap_page va s) v = leaf s v) \<and>
    (tlb_coherent s \<longrightarrow> tlb_coherent (vmm_unmap_page va s))"
proof (cases "tab s [pd_idx va, pdpt_idx va, pml4_idx va]")
  case None
  then show ?thesis using inv no_huge_walk(2) [OF nh] by (simp add: leaf_def)
next
  case (Some t)
  let ?s = "set_entry t (pt_idx va) 0 s"
  have lf: "leaf ?s v = (if same_page v va then None else leaf s v)" for v
    using leaf_set_leaf [OF inv Some, of 0 v] by simp
  have "pt_inv ?s" using pt_inv_set_leaf [OF inv _ _ Some idx_less(4)] by (simp add: path_def idx_less)
  moreover have "same_page va va" by (simp add: same_page_def)
  ultimately show ?thesis
    using no_huge_walk(3) [OF nh Some] tlb_coherent_leaf_change [of s ?s va] lf by (simp add: frame_simps)
qed

section \<open>What the tables depend on\<close>

text \<open>The tables depend on the memory they are in and on the two roots only.\<close>

lemma tables_cong:
  assumes "ptmem s' = ptmem s" "current_pml4 s' = current_pml4 s" "hhdm_offset s' = hhdm_offset s"
  shows "tab s' p = tab s p" "leaf s' v = leaf s v" "huge_at s' p i = huge_at s p i"
    "no_huge s' v = no_huge s v" "frame_no s' t = frame_no s t"
proof -
  have e: "entry s' = entry s" "table_of s' = table_of s"
    using assms by (simp_all add: entry_def table_of_def fun_eq_iff)
  show t: "tab s' p = tab s p" for p by (induction p) (simp_all add: e assms cong: if_cong)
  show "leaf s' v = leaf s v" unfolding leaf_def t e ..
  show h: "huge_at s' p i = huge_at s p i" for p i unfolding huge_at_def t e ..
  show "no_huge s' v = no_huge s v" unfolding no_huge_def h ..
  show "frame_no s' t = frame_no s t" by (simp add: frame_no_def assms)
qed

lemma vmm_cong:
  assumes "vmm.truncate s' = vmm.truncate s"
  shows "pt_inv s' = pt_inv s" "free_pages s' = free_pages s" "leaf s' v = leaf s v"
    "no_huge s' v = no_huge s v"
proof -
  have f: "pmm_bitmap s' = pmm_bitmap s" "free_memory s' = free_memory s" "total_pages s' = total_pages s"
    and t: "ptmem s' = ptmem s" "current_pml4 s' = current_pml4 s" "hhdm_offset s' = hhdm_offset s"
    using assms by (simp_all add: vmm.truncate_def)
  show "leaf s' v = leaf s v" "no_huge s' v = no_huge s v" by (simp_all add: tables_cong [OF t])
  show fp: "free_pages s' = free_pages s" by (simp add: free_pages_def page_used_def f)
  have "pmm_inv s' = pmm_inv s" by (simp add: pmm_inv_def pmm_count_def fp f)
  then show "pt_inv s' = pt_inv s" unfolding pt_inv_def by (simp add: tables_cong [OF t] fp t)
qed

lemma pt_inv_shrink:
  assumes "pt_inv s" "pmm_inv s'" "free_pages s' \<subseteq> free_pages s"
    and "ptmem s' = ptmem s" "current_pml4 s' = current_pml4 s" "hhdm_offset s' = hhdm_offset s"
  shows "pt_inv s'"
  using assms(1-3) assms(5,6) unfolding pt_inv_def by (auto simp: tables_cong [OF assms(4-6)])

lemma pt_inv_take:
  assumes "pt_inv s" "k \<in> free_pages s"
  shows "pt_inv (take_page k s)"
  using assms(1)
proof (rule pt_inv_shrink)
  show "pmm_inv (take_page k s)" using pmm_inv_take pt_invD(1) assms by blast
qed (simp_all add: free_pages_take frame_simps)

lemma same_page_leaf: "same_page v w \<Longrightarrow> leaf s v = leaf s w"
  by (simp add: same_page_def leaf_def)

lemma same_page_offset:
  assumes "page_aligned t" "x < 4096"
  shows "same_page (t + x) t"
proof -
  have "drop_bit 12 (t + x) = drop_bit 12 t"
    using aligned_offset(2) [OF assms] by (simp add: drop_bit_eq_div unat_div word_unat_eq_iff)
  then show ?thesis by (simp add: same_page_iff)
qed

section \<open>Correctness\<close>

text \<open>Empty tables satisfy the invariant.\<close>

lemma empty_tables:
  assumes "pmm_inv s" "page_aligned (current_pml4 s)" "page_aligned (hhdm_offset s)"
    "ptmem s = (\<lambda>_. 0)" "frame_no s (current_pml4 s) \<notin> free_pages s"
  shows "pt_inv s" "no_huge s va" "leaf s va = None"
proof -
  have e: "entry s t i = 0" for t i using assms(4) by (simp add: entry_def)
  have tab: "tab s p = Some t \<longleftrightarrow> p = [] \<and> t = current_pml4 s" for p t
    by (cases p) (auto simp: e split: Option.bind_splits)
  show "pt_inv s" using assms by (auto simp: pt_inv_def tab)
  show "no_huge s va" by (simp add: no_huge_def huge_at_def e)
  show "leaf s va = None" by (simp add: leaf_def e)
qed

text \<open>A small machine: sixteen free pages above the first megabyte, and an empty PML4.\<close>

definition small_machine :: vmm where
  "small_machine = \<lparr>pmm_bitmap = (\<lambda>i. if i < 32 then 0xFF else 0), total_memory = 0x10000,
     free_memory = 0x10000, total_pages = 272, current_pml4 = 0xFFFF800000200000,
     hhdm_offset = 0xFFFF800000000000, ptmem = (\<lambda>_. 0), tlb = Map.empty\<rparr>"

lemma small_machine_free: "free_pages small_machine = of_nat ` {256..<272}"
proof (rule set_eqI)
  fix i :: u64
  have "i div 8 < 32 \<longleftrightarrow> i < 256" by (simp add: word_less_nat_alt unat_div less_mult_imp_div_less) linarith
  then have "i \<in> free_pages small_machine \<longleftrightarrow> 256 \<le> i \<and> i < 272"
    using bit_0xFF [OF unat_mod_8_lt [of i]] by (simp add: free_pages_def page_used_def small_machine_def linorder_not_less)
      (auto simp: word_le_nat_alt word_less_nat_alt)
  also have "\<dots> \<longleftrightarrow> unat i \<in> {256..<272}" by (simp add: word_le_nat_alt word_less_nat_alt)
  also have "\<dots> \<longleftrightarrow> i \<in> of_nat ` {256..<272}"
    by (auto simp: unat_of_nat intro: image_eqI [of _ _ "unat i"])
  finally show "i \<in> free_pages small_machine \<longleftrightarrow> i \<in> of_nat ` {256..<272}" .
qed

lemma small_machine_inv: "pmm_inv small_machine"
proof -
  have "inj_on (of_nat :: nat \<Rightarrow> u64) {256..<272}"
    by (rule inj_on_inverseI [of _ unat]) (simp add: unat_of_nat)
  then have "card (free_pages small_machine) = 16"
    unfolding small_machine_free by (simp add: card_image)
  then show ?thesis
    unfolding pmm_inv_def pmm_count_def
    by (auto simp: small_machine_free word_le_nat_alt unat_of_nat) (simp_all add: small_machine_def)
qed

lemma small_machine_tables:
  "pt_inv small_machine" "no_huge small_machine va" "leaf small_machine va = None"
  "tlb_coherent small_machine"
proof -
  have "frame_no small_machine (current_pml4 small_machine) = of_nat 512"
    by (simp add: frame_no_def small_machine_def)
  then have "frame_no small_machine (current_pml4 small_machine) \<notin> free_pages small_machine"
    unfolding small_machine_free by (auto simp: word_unat_eq_iff unat_of_nat)
  moreover have "page_aligned (current_pml4 small_machine)" "page_aligned (hhdm_offset small_machine)"
    "ptmem small_machine = (\<lambda>_. 0)"
    by (simp_all add: small_machine_def page_aligned_iff)
  ultimately show "pt_inv small_machine" "no_huge small_machine va" "leaf small_machine va = None"
    by (auto intro!: empty_tables small_machine_inv)
  show "tlb_coherent small_machine" by (simp add: tlb_coherent_def small_machine_def)
qed

text \<open>
  C4. \<open>vmm_map_page\<close> always returns, keeps the invariant of the page-table tree and the coherence of
  the translation cache, and changes no other page's translation. It installs the requested entry,
  unless the physical memory manager is empty, when the page's translation is what it was.
\<close>

theorem vmm_map_page_correct:
  assumes "pt_inv s" "no_huge s va"
  shows "\<exists>s'. vmm_map_page phys va flags s = Some s' \<and> pt_inv s' \<and>
    (\<forall>v. \<not> same_page v va \<longrightarrow> leaf s' v = leaf s v) \<and>
    (leaf s' va = Some (phys OR flags OR PAGE_PRESENT) \<or> leaf s' va = leaf s va \<and> free_pages s' = {}) \<and>
    (tlb_coherent s \<longrightarrow> tlb_coherent s')"
  using vmm_map_page_spec [OF assms] by blast

theorem vmm_map_page_correct_witness:
  "\<exists>s'. vmm_map_page 0x108000 0x400000 7 small_machine = Some s' \<and> pt_inv s' \<and>
     leaf s' 0x401000 = None \<and> tlb_coherent s'"
proof -
  from vmm_map_page_correct [of small_machine "0x400000" "0x108000" 7, OF small_machine_tables(1,2)]
  obtain s' where "vmm_map_page 0x108000 0x400000 7 small_machine = Some s'" "pt_inv s'"
    "\<forall>v. \<not> same_page v 0x400000 \<longrightarrow> leaf s' v = leaf small_machine v" "tlb_coherent s'"
    using small_machine_tables(4) by blast
  moreover have "\<not> same_page 0x401000 0x400000" by (simp add: same_page_def pt_idx_def)
  ultimately show ?thesis using small_machine_tables(3) by auto
qed

text \<open>
  Where no huge page is in the way, \<open>vmm_is_mapped\<close> answers exactly whether the four-level walk
  reaches a present leaf entry.
\<close>

theorem vmm_is_mapped_correct:
  assumes "no_huge s va"
  shows "vmm_is_mapped va s \<longleftrightarrow> leaf s va \<noteq> None"
  using assms by (rule no_huge_walk)

theorem vmm_is_mapped_correct_witness: "\<not> vmm_is_mapped 0x400000 small_machine"
  using vmm_is_mapped_correct [of small_machine "0x400000", OF small_machine_tables(2)] small_machine_tables(3) by simp

text \<open>
  C5. \<open>vmm_unmap_page\<close> removes exactly the translation of the page it is given, keeps the invariant of
  the tree, and leaves no stale entry in the translation cache.
\<close>

theorem vmm_unmap_page_correct:
  assumes "pt_inv s" "no_huge s va"
  shows "pt_inv (vmm_unmap_page va s) \<and> leaf (vmm_unmap_page va s) va = None \<and>
    (\<forall>v. \<not> same_page v va \<longrightarrow> leaf (vmm_unmap_page va s) v = leaf s v) \<and>
    (tlb_coherent s \<longrightarrow> tlb_coherent (vmm_unmap_page va s))"
  using assms by (rule vmm_unmap_page_spec)

theorem vmm_unmap_page_correct_witness:
  "leaf (vmm_unmap_page 0x400000 small_machine) 0x400000 = None \<and>
   pt_inv (vmm_unmap_page 0x400000 small_machine)"
  using vmm_unmap_page_correct [of small_machine "0x400000", OF small_machine_tables(1,2)] by blast

text \<open>
  C6. A 2 MB page is where the query and the removal disagree: \<open>vmm_is_mapped\<close> reports such a page as
  mapped, but \<open>vmm_unmap_page\<close> takes the page's frame for a page table and writes a zero into the
  frame's memory, and the page stays mapped.
\<close>

theorem vmm_unmap_huge_corrupts:
  assumes "e4 = entry s (current_pml4 s) (pml4_idx va)" "present e4"
    and "e3 = entry s (table_of s e4) (pdpt_idx va)" "present e3"
    and "e2 = entry s (table_of s e3) (pd_idx va)" "present e2" "huge e2"
    and "table_of s e2 + 8 * pt_idx va \<notin>
      {current_pml4 s + 8 * pml4_idx va, table_of s e4 + 8 * pdpt_idx va, table_of s e3 + 8 * pd_idx va}"
  shows "vmm_is_mapped va s \<and> vmm_is_mapped va (vmm_unmap_page va s) \<and>
    ptmem (vmm_unmap_page va s) = (ptmem s)(table_of s e2 + 8 * pt_idx va := 0)"
proof -
  let ?s = "invlpg va (set_entry (table_of s e2) (pt_idx va) 0 s)"
  have u: "vmm_unmap_page va s = ?s"
    unfolding vmm_unmap_page_def Let_def using assms(1-7) by simp
  have t: "table_of ?s = table_of s" by (simp add: table_of_def frame_simps fun_eq_iff)
  have e: "entry ?s (current_pml4 s) (pml4_idx va) = e4" "entry ?s (table_of s e4) (pdpt_idx va) = e3"
    "entry ?s (table_of s e3) (pd_idx va) = e2"
    using assms by (auto simp: entry_def invlpg_def set_entry_def)
  have "current_pml4 ?s = current_pml4 s" by (simp add: frame_simps)
  then have "vmm_is_mapped va ?s" unfolding vmm_is_mapped_def Let_def using e t assms by simp
  moreover have "vmm_is_mapped va s" unfolding vmm_is_mapped_def Let_def using assms by simp
  ultimately show ?thesis unfolding u by (simp add: invlpg_def set_entry_def)
qed

theorem vmm_unmap_huge_corrupts_witness:
  "\<exists>s :: vmm. vmm_is_mapped 0x400000 s \<and> vmm_is_mapped 0x400000 (vmm_unmap_page 0x400000 s) \<and>
     ptmem s 0xFFFF800000400000 = 0xDEADBEEF \<and>
     ptmem (vmm_unmap_page 0x400000 s) 0xFFFF800000400000 = 0"
proof -
  let ?m = "(\<lambda>_. 0)(0xFFFF800000200000 := 0x201003, 0xFFFF800000201000 := 0x202003,
      0xFFFF800000202010 := 0x400083, 0xFFFF800000400000 := 0xDEADBEEF) :: u64 \<Rightarrow> u64"
  let ?s = "small_machine\<lparr>ptmem := ?m\<rparr>"
  have i: "pml4_idx 0x400000 = 0" "pdpt_idx 0x400000 = 0" "pd_idx 0x400000 = 2" "pt_idx 0x400000 = 0"
    by (simp_all add: pml4_idx_def pdpt_idx_def pd_idx_def pt_idx_def)
  have "vmm_is_mapped 0x400000 ?s \<and> vmm_is_mapped 0x400000 (vmm_unmap_page 0x400000 ?s) \<and>
    ptmem (vmm_unmap_page 0x400000 ?s) = (ptmem ?s)(table_of ?s 0x400083 + 8 * pt_idx 0x400000 := 0)"
    by (rule vmm_unmap_huge_corrupts [where ?e4.0 = "0x201003" and ?e3.0 = "0x202003"])
      (simp_all add: i entry_def table_of_def present_def huge_def small_machine_def)
  then show ?thesis
    by (intro exI [of _ ?s]) (simp add: i table_of_def small_machine_def)
qed

end
