(* ===== verification/Heap.thy ===== *)
theory Heap
  imports Vmm
begin

text \<open>
  The kernel heap, \<^verbatim>\<open>kernel/heap.c\<close>: a doubly linked list of blocks with headers in the heap's own
  memory, first-fit allocation with splitting, and coalescing on release. The list is kept as the
  code keeps it, with addresses in a store of headers; the lemmas relate it to the list of block
  addresses in ascending order.
\<close>

section \<open>State and operations\<close>

abbreviation (input) HEAP_START_VIRT :: u64 where "HEAP_START_VIRT \<equiv> 0xFFFFFFFF81000000"
abbreviation (input) HEAP_MAGIC :: u32 where "HEAP_MAGIC \<equiv> 0x48454150"
abbreviation (input) HEAP_ALIGN :: u64 where "HEAP_ALIGN \<equiv> 16"

text \<open>\<open>sizeof(heap_block_t)\<close>: two 32-bit and three 64-bit fields.\<close>

abbreviation (input) HDR :: u64 where "HDR \<equiv> 32"

record heap_block =
  hb_magic :: u32
  hb_is_free :: u32
  hb_size :: u64
  hb_next :: u64
  hb_prev :: u64

text \<open>\<open>hmem\<close> is the memory of the heap seen as headers: \<open>hmem s a\<close> is the header at address \<open>a\<close>.\<close>

record heap = vmm +
  heap_mapped_limit :: u64
  heap_head :: u64
  heap_tail :: u64
  hmem :: "u64 \<Rightarrow> heap_block"

definition upd_block :: "u64 \<Rightarrow> (heap_block \<Rightarrow> heap_block) \<Rightarrow> 'a heap_scheme \<Rightarrow> 'a heap_scheme" where
  "upd_block a f s = s\<lparr>hmem := (hmem s)(a := f (hmem s a))\<rparr>"

definition align_up :: "u64 \<Rightarrow> u64" where
  "align_up n = (if n mod HEAP_ALIGN \<noteq> 0 then n + (HEAP_ALIGN - n mod HEAP_ALIGN) else n)"

text \<open>The loop of \<open>heap_expand\<close>; the result is the number of bytes mapped, \<open>None\<close> out of memory.\<close>

partial_function (option) heap_map_pages ::
  "u64 \<Rightarrow> u64 \<Rightarrow> 'a heap_scheme \<Rightarrow> (u64 option \<times> 'a heap_scheme) option" where
  "heap_map_pages total_bytes mapped s =
     (if mapped < total_bytes then
        Option.bind (pmm_alloc_page s) (\<lambda>(phys, s).
        if phys = 0 then Some (None, s) else
        Option.bind (vmm_map_page phys (heap_mapped_limit s) (PAGE_PRESENT OR PAGE_WRITABLE) s) (\<lambda>s.
        heap_map_pages total_bytes (mapped + PMM_PAGE_SIZE)
          (s\<lparr>heap_mapped_limit := heap_mapped_limit s + PMM_PAGE_SIZE\<rparr>)))
      else Some (Some mapped, s))"

definition heap_add_block :: "u64 \<Rightarrow> u64 \<Rightarrow> 'a heap_scheme \<Rightarrow> 'a heap_scheme" where
  "heap_add_block start mapped s =
     (let s = upd_block start (\<lambda>_. \<lparr>hb_magic = HEAP_MAGIC, hb_is_free = 1, hb_size = mapped - HDR,
                                   hb_next = 0, hb_prev = heap_tail s\<rparr>) s in
      if heap_tail s \<noteq> 0 then
        let s = upd_block (heap_tail s) (\<lambda>b. b\<lparr>hb_next := start\<rparr>) s in
        if hb_is_free (hmem s (heap_tail s)) \<noteq> 0 then
          upd_block (heap_tail s)
            (\<lambda>b. b\<lparr>hb_size := hb_size b + (HDR + hb_size (hmem s start)), hb_next := 0\<rparr>) s
        else s\<lparr>heap_tail := start\<rparr>
      else s\<lparr>heap_head := start, heap_tail := start\<rparr>)"

definition heap_expand :: "u64 \<Rightarrow> 'a heap_scheme \<Rightarrow> (bool \<times> 'a heap_scheme) option" where
  "heap_expand needed s =
     (let total = align_up (needed + HDR); start = heap_mapped_limit s in
      Option.bind (heap_map_pages total 0 s) (\<lambda>(r, s).
      case r of None \<Rightarrow> Some (False, s)
      | Some mapped \<Rightarrow> Some (True, heap_add_block start mapped s)))"

definition heap_init :: "'a heap_scheme \<Rightarrow> (bool \<times> 'a heap_scheme) option" where
  "heap_init s = heap_expand PMM_PAGE_SIZE
     (s\<lparr>heap_head := 0, heap_tail := 0, heap_mapped_limit := HEAP_START_VIRT\<rparr>)"

definition split_block :: "u64 \<Rightarrow> u64 \<Rightarrow> 'a heap_scheme \<Rightarrow> 'a heap_scheme" where
  "split_block blk sz s =
     (if hb_size (hmem s blk) < sz + HDR + HEAP_ALIGN then s
      else
        let rest = blk + HDR + sz; b = hmem s blk;
            s = upd_block rest (\<lambda>_. \<lparr>hb_magic = HEAP_MAGIC, hb_is_free = 1,
                  hb_size = hb_size b - sz - HDR, hb_next = hb_next b, hb_prev = blk\<rparr>) s;
            s = (if hb_next b \<noteq> 0 then upd_block (hb_next b) (\<lambda>b. b\<lparr>hb_prev := rest\<rparr>) s
                 else s\<lparr>heap_tail := rest\<rparr>)
        in upd_block blk (\<lambda>b. b\<lparr>hb_next := rest, hb_size := sz\<rparr>) s)"

text \<open>The first-fit search along the list; 0 when it reaches the end.\<close>

partial_function (option) heap_search :: "(u64 \<Rightarrow> heap_block) \<Rightarrow> u64 \<Rightarrow> u64 \<Rightarrow> u64 option" where
  "heap_search h sz blk =
     (if blk = 0 then Some 0
      else if hb_is_free (h blk) \<noteq> 0 \<and> hb_size (h blk) \<ge> sz then Some blk
      else heap_search h sz (hb_next (h blk)))"

definition heap_take :: "u64 \<Rightarrow> u64 \<Rightarrow> 'a heap_scheme \<Rightarrow> u64 \<times> 'a heap_scheme" where
  "heap_take blk sz s =
     (blk + HDR, upd_block blk (\<lambda>b. b\<lparr>hb_is_free := 0\<rparr>) (split_block blk sz s))"

definition kmalloc :: "u64 \<Rightarrow> 'a heap_scheme \<Rightarrow> (u64 \<times> 'a heap_scheme) option" where
  "kmalloc sz s =
     (if sz = 0 then Some (0, s) else
      let sz = align_up sz in
      Option.bind (heap_search (hmem s) sz (heap_head s)) (\<lambda>blk.
      if blk \<noteq> 0 then Some (heap_take blk sz s) else
      Option.bind (heap_expand sz s) (\<lambda>(ok, s).
      if \<not> ok then Some (0, s) else
      Option.bind (heap_search (hmem s) sz (heap_head s)) (\<lambda>blk.
      if blk \<noteq> 0 then Some (heap_take blk sz s) else Some (0, s)))))"

definition kfree_merge_next :: "u64 \<Rightarrow> 'a heap_scheme \<Rightarrow> 'a heap_scheme" where
  "kfree_merge_next blk s =
     (let next = hb_next (hmem s blk) in
      if next \<noteq> 0 \<and> hb_is_free (hmem s next) \<noteq> 0 \<and> next = blk + HDR + hb_size (hmem s blk) then
        let n = hmem s next;
            s = upd_block blk (\<lambda>b. b\<lparr>hb_size := hb_size b + (HDR + hb_size n), hb_next := hb_next n\<rparr>) s
        in if hb_next n \<noteq> 0 then upd_block (hb_next n) (\<lambda>b. b\<lparr>hb_prev := blk\<rparr>) s
           else s\<lparr>heap_tail := blk\<rparr>
      else s)"

definition kfree_merge_prev :: "u64 \<Rightarrow> 'a heap_scheme \<Rightarrow> 'a heap_scheme" where
  "kfree_merge_prev blk s =
     (let prev = hb_prev (hmem s blk) in
      if prev \<noteq> 0 \<and> hb_is_free (hmem s prev) \<noteq> 0 \<and> blk = prev + HDR + hb_size (hmem s prev) then
        let b = hmem s blk;
            s = upd_block prev (\<lambda>p. p\<lparr>hb_size := hb_size p + (HDR + hb_size b), hb_next := hb_next b\<rparr>) s
        in if hb_next b \<noteq> 0 then upd_block (hb_next b) (\<lambda>b. b\<lparr>hb_prev := prev\<rparr>) s
           else s\<lparr>heap_tail := prev\<rparr>
      else s)"

definition kfree :: "u64 \<Rightarrow> 'a heap_scheme \<Rightarrow> 'a heap_scheme" where
  "kfree ptr s =
     (if ptr = 0 then s else
      let blk = ptr - HDR in
      if hb_magic (hmem s blk) \<noteq> HEAP_MAGIC then s
      else if hb_is_free (hmem s blk) \<noteq> 0 then s
      else kfree_merge_prev blk (kfree_merge_next blk (upd_block blk (\<lambda>b. b\<lparr>hb_is_free := 1\<rparr>) s)))"


section \<open>The block list\<close>

text \<open>
  The abstract heap is the list of its blocks in the order of the links: address of the header,
  size of the payload, and whether the block is free. \<open>hlist h p L n\<close> says that the headers in
  \<open>h\<close> are exactly those of \<open>L\<close>, linked both ways, between the neighbours \<open>p\<close> and \<open>n\<close>.
\<close>

type_synonym ablock = "u64 \<times> u64 \<times> bool"

definition first :: "ablock list \<Rightarrow> u64 \<Rightarrow> u64" where
  "first L n = (if L = [] then n else fst (hd L))"

definition lastp :: "u64 \<Rightarrow> ablock list \<Rightarrow> u64" where
  "lastp p L = (if L = [] then p else fst (last L))"

fun hlist :: "(u64 \<Rightarrow> heap_block) \<Rightarrow> u64 \<Rightarrow> ablock list \<Rightarrow> u64 \<Rightarrow> bool" where
  "hlist h p [] n \<longleftrightarrow> True"
| "hlist h p ((a, sz, f) # L) n \<longleftrightarrow>
     h a = \<lparr>hb_magic = HEAP_MAGIC, hb_is_free = (if f then 1 else 0), hb_size = sz,
            hb_next = first L n, hb_prev = p\<rparr> \<and> hlist h a L n"

text \<open>
  Well-formed blocks follow each other from \<open>lo\<close> to \<open>hi\<close> without overlap, aligned to 16 bytes, and
  no two free blocks touch. \<open>fr\<close> says whether the block that ends at \<open>lo\<close> is free.
\<close>

definition blk_end :: "ablock \<Rightarrow> nat" where
  "blk_end b = unat (fst b) + 32 + unat (fst (snd b))"

fun blocks_ok :: "nat \<Rightarrow> bool \<Rightarrow> ablock list \<Rightarrow> nat \<Rightarrow> bool" where
  "blocks_ok lo fr [] hi \<longleftrightarrow> lo \<le> hi"
| "blocks_ok lo fr (b # L) hi \<longleftrightarrow> lo \<le> unat (fst b) \<and> 16 dvd unat (fst b) \<and> 16 dvd unat (fst (snd b)) \<and>
     \<not> (fr \<and> snd (snd b) \<and> lo = unat (fst b)) \<and> blocks_ok (blk_end b) (snd (snd b)) L hi"

definition ends :: "nat \<Rightarrow> ablock list \<Rightarrow> nat" where
  "ends lo L = (if L = [] then lo else blk_end (last L))"

definition ends_free :: "bool \<Rightarrow> ablock list \<Rightarrow> bool" where
  "ends_free fr L = (if L = [] then fr else snd (snd (last L)))"

lemma first_simps [simp]: "first [] n = n" "first (b # L) n = fst b"
  by (simp_all add: first_def)

lemma first_append [simp]: "first (K @ L) n = first K (first L n)"
  by (cases K) simp_all

lemma lastp_simps [simp]: "lastp p [] = p" "lastp p (L @ [b]) = fst b" "lastp p (b # L) = lastp (fst b) L"
  by (simp_all add: lastp_def)

lemma lastp_append [simp]: "lastp p (K @ L) = lastp (lastp p K) L"
  by (induction K arbitrary: p) simp_all

lemma ends_simps [simp]: "ends lo [] = lo" "ends lo (b # L) = ends (blk_end b) L"
  "ends_free fr [] = fr" "ends_free fr (b # L) = ends_free (snd (snd b)) L"
  by (simp_all add: ends_def ends_free_def)

lemma hlist_append: "hlist h p (K @ L) n \<longleftrightarrow> hlist h p K (first L n) \<and> hlist h (lastp p K) L n"
  by (induction h p K n rule: hlist.induct) auto

lemma blocks_ok_append:
  "blocks_ok lo fr (K @ L) hi \<longleftrightarrow> blocks_ok lo fr K (ends lo K) \<and> blocks_ok (ends lo K) (ends_free fr K) L hi"
  by (induction K arbitrary: lo fr) auto

lemma hlist_cong: "(\<And>a. a \<in> fst ` set L \<Longrightarrow> h a = h' a) \<Longrightarrow> hlist h p L n = hlist h' p L n"
  by (induction h p L n rule: hlist.induct) auto

lemma blocks_ok_bounds:
  "blocks_ok lo fr L hi \<Longrightarrow> lo \<le> hi \<and> (\<forall>b\<in>set L. lo \<le> unat (fst b) \<and> blk_end b \<le> hi)"
  by (induction L arbitrary: lo fr) (fastforce simp: blk_end_def)+

lemma blocks_ok_mono: "blocks_ok lo fr L hi \<Longrightarrow> hi \<le> hi' \<Longrightarrow> blocks_ok lo fr L hi'"
  by (induction L arbitrary: lo fr) auto

lemma blocks_ok_ends: "blocks_ok lo fr L hi \<Longrightarrow> blocks_ok lo fr L (ends lo L) \<and> ends lo L \<le> hi"
  by (induction L arbitrary: lo fr) auto

lemma blocks_ok_before:
  assumes "blocks_ok lo fr (K @ b # L) hi" "c \<in> set K"
  shows "blk_end c \<le> unat (fst b)"
  using assms blocks_ok_bounds [of lo fr K "ends lo K"] by (fastforce simp: blocks_ok_append)

lemma blocks_ok_after:
  assumes "blocks_ok lo fr (K @ b # L) hi" "c \<in> set L"
  shows "blk_end b \<le> unat (fst c)"
  using assms blocks_ok_bounds [of "blk_end b" "snd (snd b)" L hi] by (fastforce simp: blocks_ok_append)

lemma blocks_ok_distinct: "blocks_ok lo fr L hi \<Longrightarrow> distinct (map fst L)"
proof (induction L arbitrary: lo fr)
  case (Cons b L)
  then have "blocks_ok (blk_end b) (snd (snd b)) L hi" by simp
  from blocks_ok_bounds [OF this] have "fst b \<notin> fst ` set L" by (force simp: blk_end_def)
  with Cons show ?case by auto
qed simp

text \<open>Two blocks of the list do not overlap, headers included.\<close>

lemma blocks_disjoint:
  assumes "blocks_ok lo fr L hi" "b \<in> set L" "c \<in> set L" "b \<noteq> c"
  shows "blk_end b \<le> unat (fst c) \<or> blk_end c \<le> unat (fst b)"
proof -
  obtain K M where L: "L = K @ b # M" using assms(2) by (auto dest: split_list)
  then show ?thesis
    using assms blocks_ok_before [of lo fr K b M hi c] blocks_ok_after [of lo fr K b M hi c] by auto
qed

section \<open>Taking a block\<close>

abbreviation (input) heap_start :: nat where "heap_start \<equiv> unat HEAP_START_VIRT"

definition heap_list :: "'a heap_scheme \<Rightarrow> ablock list \<Rightarrow> bool" where
  "heap_list s L \<longleftrightarrow> hlist (hmem s) 0 L 0 \<and> heap_head s = first L 0 \<and> heap_tail s = lastp 0 L \<and>
     blocks_ok heap_start False L (unat (heap_mapped_limit s))"

lemma hlist_upd [simp]: "a \<notin> fst ` set L \<Longrightarrow> hlist (h(a := x)) p L n = hlist h p L n"
  by (rule hlist_cong) auto

lemma hlist_set_prev:
  assumes "hlist h p L n" "distinct (map fst L)" "L \<noteq> []"
  shows "hlist (h(first L x := (h (first L x))\<lparr>hb_prev := q\<rparr>)) q L n"
  using assms by (cases L) auto

lemma hlist_head: "hlist h p (b # L) n \<Longrightarrow> h (fst b) = \<lparr>hb_magic = HEAP_MAGIC,
    hb_is_free = (if snd (snd b) then 1 else 0), hb_size = fst (snd b), hb_next = first L n, hb_prev = p\<rparr>"
  by (cases b) simp

text \<open>The way the code links the right neighbour, or the tail pointer, back to block \<open>x\<close>.\<close>

definition relink :: "u64 \<Rightarrow> u64 \<Rightarrow> 'a heap_scheme \<Rightarrow> 'a heap_scheme" where
  "relink nx x s = (if nx \<noteq> 0 then upd_block nx (\<lambda>b. b\<lparr>hb_prev := x\<rparr>) s else s\<lparr>heap_tail := x\<rparr>)"

lemma relink_spec:
  assumes "hlist (hmem s) p L 0" "distinct (map fst L)" "0 \<notin> fst ` set L"
  shows "hlist (hmem (relink (first L 0) x s)) x L 0"
    and "heap_tail (relink (first L 0) x s) = (if L = [] then x else heap_tail s)"
    and "a \<notin> fst ` set L \<Longrightarrow> hmem (relink (first L 0) x s) a = hmem s a"
  using assms hlist_set_prev [OF assms(1,2), of 0 x]
  by (cases L; auto simp: relink_def upd_block_def)+

definition only_blocks :: "'a heap_scheme \<Rightarrow> 'a heap_scheme \<Rightarrow> bool" where
  "only_blocks s s' \<longleftrightarrow> s'\<lparr>heap_tail := heap_tail s, hmem := hmem s\<rparr> = s"

lemma only_blocks_refl [simp]: "only_blocks s s"
  by (simp add: only_blocks_def)

lemma only_blocks_upd [simp]:
  "only_blocks s (upd_block a f t) = only_blocks s t"
  "only_blocks s (t\<lparr>heap_tail := x\<rparr>) = only_blocks s t"
  "only_blocks s (t\<lparr>hmem := m\<rparr>) = only_blocks s t"
  "only_blocks s (relink n y t) = only_blocks s t"
  by (simp_all add: only_blocks_def upd_block_def relink_def)

lemma only_blocks_fields:
  assumes "only_blocks s s'"
  shows "heap_head s' = heap_head s \<and> heap_mapped_limit s' = heap_mapped_limit s \<and> vmm.truncate s' = vmm.truncate s"
proof -
  have "heap_head s' = heap_head (s'\<lparr>heap_tail := heap_tail s, hmem := hmem s\<rparr>)"
    "heap_mapped_limit s' = heap_mapped_limit (s'\<lparr>heap_tail := heap_tail s, hmem := hmem s\<rparr>)"
    "vmm.truncate s' = vmm.truncate (s'\<lparr>heap_tail := heap_tail s, hmem := hmem s\<rparr>)"
    by (simp_all add: vmm.truncate_def)
  with assms show ?thesis by (simp add: only_blocks_def)
qed

text \<open>Replacing the blocks \<open>M\<close> in the middle of the list by \<open>M'\<close>.\<close>

lemma heap_list_replace:
  assumes L: "heap_list s (K @ M @ L)" and M: "M \<noteq> []" "M' \<noteq> []" "fst (hd M') = fst (hd M)"
    and mem: "\<And>a. a \<in> fst ` set K \<Longrightarrow> hmem s' a = hmem s a"
      "hlist (hmem s') (lastp 0 K) M' (first L 0)" "hlist (hmem s') (fst (last M')) L 0"
    and s': "only_blocks s s'" "heap_tail s' = lastp (fst (last M')) L"
    and ok: "blocks_ok (ends heap_start K) (ends_free False K) (M' @ L) (unat (heap_mapped_limit s))"
  shows "heap_list s' (K @ M' @ L)"
proof -
  have fM: "first M' x = first M y" for x y using M by (cases M; cases M') simp_all
  have K: "hlist (hmem s) 0 K (first M (first L 0))" using L by (simp add: heap_list_def hlist_append)
  then have "hlist (hmem s') 0 K (first M' (first L 0))"
    using hlist_cong [of K "hmem s'" "hmem s"] mem(1) fM by metis
  moreover have "lastp (lastp 0 K) M' = fst (last M')" using M(2) by (simp add: lastp_def)
  moreover have "heap_head s' = first K (first M' (first L 0))"
    using L only_blocks_fields [OF s'(1)] fM [of "first L 0" "first L 0"] by (simp add: heap_list_def)
  moreover have "blocks_ok heap_start False K (ends heap_start K)" using L by (simp add: heap_list_def blocks_ok_append)
  ultimately show ?thesis
    using mem(2,3) s'(2) ok only_blocks_fields [OF s'(1)] by (simp add: heap_list_def hlist_append blocks_ok_append)
qed

lemma heap_list_facts:
  assumes "heap_list s (K @ b # L)"
  shows "fst b \<noteq> 0" "0 \<notin> fst ` set L" "distinct (map fst L)" "fst b \<notin> fst ` set K" "fst b \<notin> fst ` set L"
    "fst ` set K \<inter> fst ` set L = {}" "blk_end b < 2 ^ 64"
    "hmem s (fst b) = \<lparr>hb_magic = HEAP_MAGIC, hb_is_free = (if snd (snd b) then 1 else 0),
       hb_size = fst (snd b), hb_next = first L 0, hb_prev = lastp 0 K\<rparr>"
    "hlist (hmem s) (fst b) L 0" "16 dvd unat (fst b)" "16 dvd unat (fst (snd b))"
    "unat (fst (snd b)) < 0x7F000000"
proof -
  have ok: "blocks_ok heap_start False (K @ b # L) (unat (heap_mapped_limit s))"
    using assms by (simp add: heap_list_def)
  have pos: "heap_start \<le> unat (fst c)" if "c \<in> set (K @ b # L)" for c
    using blocks_ok_bounds [OF ok] that by blast
  then show "fst b \<noteq> 0" "0 \<notin> fst ` set L" by fastforce+
  have "distinct (map fst (K @ b # L))" using blocks_ok_distinct [OF ok] .
  then show "distinct (map fst L)" "fst b \<notin> fst ` set K" "fst b \<notin> fst ` set L"
    "fst ` set K \<inter> fst ` set L = {}" by auto
  have "blk_end b \<le> unat (heap_mapped_limit s)" using blocks_ok_bounds [OF ok] by simp
  also have "\<dots> < 2 ^ 64" using unsigned_less [of "heap_mapped_limit s", where 'a = nat] by simp
  finally show "blk_end b < 2 ^ 64" .
  have "hlist (hmem s) 0 (K @ b # L) 0" using assms by (simp add: heap_list_def)
  then have h: "hlist (hmem s) (lastp 0 K) (b # L) 0" by (simp add: hlist_append)
  show "hmem s (fst b) = \<lparr>hb_magic = HEAP_MAGIC, hb_is_free = (if snd (snd b) then 1 else 0),
       hb_size = fst (snd b), hb_next = first L 0, hb_prev = lastp 0 K\<rparr>" using hlist_head [OF h] .
  show "hlist (hmem s) (fst b) L 0" using h by (cases b) simp
  show "16 dvd unat (fst b)" "16 dvd unat (fst (snd b))" using ok by (simp_all add: blocks_ok_append)
  show "unat (fst (snd b)) < 0x7F000000"
    using \<open>blk_end b < 2 ^ 64\<close> pos [of b] by (simp add: blk_end_def)
qed

definition taken :: "u64 \<Rightarrow> u64 \<Rightarrow> u64 \<Rightarrow> ablock list" where
  "taken a n sz = (if n < sz + 48 then [(a, n, False)]
     else [(a, sz, False), (a + 32 + sz, n - sz - 32, True)])"

lemma split_rest:
  assumes "blk_end (a, n, f) < 2 ^ 64" "sz \<le> n" "\<not> n < sz + 48" "unat sz + 48 < 2 ^ 64"
  shows "unat (a + 32 + sz) = unat a + 32 + unat sz" "unat (n - sz - 32) = unat n - unat sz - 32"
    "unat sz + 48 \<le> unat n"
proof -
  have n: "unat sz + 48 \<le> unat n"
    using assms(2-4) unat_add_no_wrap [of sz 48] by (simp add: word_less_nat_alt)
  then show "unat sz + 48 \<le> unat n" .
  have "unat (a + 32) = unat a + 32" using assms(1) by (intro unat_add_no_wrap [of a 32, simplified]) (simp add: blk_end_def)
  then show "unat (a + 32 + sz) = unat a + 32 + unat sz"
    using assms(1) n unat_add_no_wrap [of "a + 32" sz] by (simp add: blk_end_def)
  have "32 \<le> n - sz" using n assms(2) by (simp add: word_le_nat_alt unat_sub_no_wrap)
  then show "unat (n - sz - 32) = unat n - unat sz - 32" using assms(2) by (simp add: unat_sub_no_wrap)
qed


lemma blocks_ok_weaken: "blocks_ok lo True L hi \<Longrightarrow> blocks_ok lo fr L hi"
  by (cases L) auto

lemma lastp_nonempty: "L \<noteq> [] \<Longrightarrow> lastp p L = fst (last L)"
  by (simp add: lastp_def)

lemma taken_ok:
  assumes "blocks_ok lo fr ((a, n, True) # L) hi" "blk_end (a, n, True) < 2 ^ 64" "sz \<le> n" "16 dvd unat sz"
    "unat n < 0x7F000000"
  shows "blocks_ok lo fr (taken a n sz @ L) hi"
proof (cases "n < sz + 48")
  case True
  then show ?thesis using assms blocks_ok_weaken by (auto simp: taken_def blk_end_def)
next
  case False
  have r: "unat (a + 32 + sz) = unat a + 32 + unat sz" "unat (n - sz - 32) = unat n - unat sz - 32"
      "unat sz + 48 \<le> unat n"
    using split_rest [of a n True sz] assms False by (simp_all add: word_le_nat_alt)
  have "16 dvd unat n - (unat sz + 32)" using assms(1,4) by (intro dvd_diff_nat dvd_add) simp_all
  moreover have "16 dvd unat a + 32 + unat sz" using assms(1,4) by (intro dvd_add) simp_all
  ultimately show ?thesis using assms(1,4) r False by (simp add: taken_def blk_end_def add.assoc) 
qed

lemma heap_take_list:
  assumes L: "heap_list s (K @ (a, n, True) # L)" and sz: "sz \<le> n" "16 dvd unat sz"
  shows "fst (heap_take a sz s) = a + 32" "heap_list (snd (heap_take a sz s)) (K @ taken a n sz @ L)"
    "only_blocks s (snd (heap_take a sz s))"
proof -
  let ?s' = "snd (heap_take a sz s)"
  note F = heap_list_facts [OF L, simplified]
  have ok: "blocks_ok (ends heap_start K) (ends_free False K) ((a, n, True) # L) (unat (heap_mapped_limit s))"
    using L by (simp add: heap_list_def blocks_ok_append)
  have tk: "blocks_ok (ends heap_start K) (ends_free False K) (taken a n sz @ L) (unat (heap_mapped_limit s))"
    using taken_ok [OF ok] F sz by simp
  have LM: "heap_list s (K @ [(a, n, True)] @ L)" using L by simp
  have tl: "heap_tail s = lastp a L" using L by (simp add: heap_list_def)
  show "fst (heap_take a sz s) = a + 32" by (simp add: heap_take_def)
  show ob: "only_blocks s ?s'"
    by (simp add: heap_take_def split_block_def Let_def relink_def [symmetric])
  show "heap_list ?s' (K @ taken a n sz @ L)"
  proof (cases "n < sz + 48")
    case True
    then have "?s' = upd_block a (\<lambda>b. b\<lparr>hb_is_free := 0\<rparr>) s"
      using F by (simp add: heap_take_def split_block_def add.assoc)
    moreover have "taken a n sz = [(a, n, False)]" using True by (simp add: taken_def)
    ultimately show ?thesis
      using F tk by (intro heap_list_replace [OF LM]) (auto simp: upd_block_def tl)
  next
    case False
    have r: "unat (a + 32 + sz) = unat a + 32 + unat sz" "unat (n - sz - 32) = unat n - unat sz - 32"
      "unat sz + 48 \<le> unat n"
      using split_rest [of a n True sz] F(7,12) sz False by (simp_all add: word_le_nat_alt)
    define rest where "rest = a + 32 + sz"
    define R where "R = \<lparr>hb_magic = HEAP_MAGIC, hb_is_free = 1, hb_size = n - sz - 32,
      hb_next = first L 0, hb_prev = a\<rparr>"
    define s1 where "s1 = upd_block rest (\<lambda>_. R) s"
    define s2 where "s2 = relink (first L 0) rest s1"
    have s': "?s' = upd_block a (\<lambda>b. b\<lparr>hb_is_free := 0\<rparr>) (upd_block a (\<lambda>b. b\<lparr>hb_next := rest, hb_size := sz\<rparr>) s2)"
      using False F(8) by (simp add: heap_take_def split_block_def add.assoc Let_def relink_def s1_def s2_def R_def rest_def)
    have okL: "blocks_ok heap_start False (K @ (a, n, True) # L) (unat (heap_mapped_limit s))"
      using L by (simp add: heap_list_def)
    have fresh: "rest \<noteq> a" "rest \<notin> fst ` set L" "rest \<notin> fst ` set K"
      using r blocks_ok_after [OF okL] blocks_ok_before [OF okL]
      by (fastforce simp: rest_def blk_end_def word_unat_eq_iff)+
    have h1: "hlist (hmem s1) a L 0" using F(9) fresh(2) by (simp add: s1_def upd_block_def)
    note S2 = relink_spec [OF h1 F(3,2), where x = rest, folded s2_def]
    have "hmem s2 rest = R" using S2(3) [of rest] fresh by (simp add: s1_def upd_block_def)
    moreover have "hmem s2 a = hmem s a" using S2(3) [of a] F(5) fresh by (simp add: s1_def upd_block_def)
    moreover have "hmem s2 b = hmem s b" if "b \<in> fst ` set K" for b
    proof -
      have "b \<notin> fst ` set L" "b \<noteq> rest" using F(6) that fresh by blast+
      then show ?thesis using S2(3) [of b] by (simp add: s1_def upd_block_def)
    qed
    moreover have "taken a n sz = [(a, sz, False), (rest, n - sz - 32, True)]"
      using False by (simp add: taken_def rest_def)
    ultimately show ?thesis
      using F S2(1,2) fresh tk tl ob unfolding s'
      by (intro heap_list_replace [OF LM]) (auto simp: upd_block_def R_def s1_def lastp_nonempty)
  qed
qed

section \<open>Releasing a block\<close>

text \<open>
  The contract of \<open>kfree\<close> on the list: the block is marked free, and free blocks that touch are joined, with
  the header between them. Blocks that do not touch stay apart.
\<close>

fun coalesce :: "ablock list \<Rightarrow> ablock list" where
  "coalesce [] = []"
| "coalesce [b] = [b]"
| "coalesce ((a, n, f) # (b, t, g) # L) =
     (if f \<and> g \<and> b = a + 32 + n then coalesce ((a, n + (32 + t), True) # L) else (a, n, f) # coalesce ((b, t, g) # L))"

definition mark_free :: "u64 \<Rightarrow> ablock list \<Rightarrow> ablock list" where
  "mark_free a L = map (\<lambda>(b, n, f). (b, n, f \<or> b = a)) L"

lemma coalesce_join: "coalesce (K @ (a, n, True) # (a + 32 + n, t, True) # M) = coalesce (K @ (a, n + (32 + t), True) # M)"
proof (induction "length K" arbitrary: K rule: less_induct)
  case less
  show ?case
  proof (cases K)
    case Nil
    then show ?thesis by simp
  next
    case (Cons c J)
    obtain p q f where c: "c = (p, q, f)" by (cases c)
    show ?thesis
    proof (cases J)
      case Nil
      have "p + 32 + q + 32 + n = p + 32 + (q + (32 + n))" "q + (32 + (n + (32 + t))) = q + (32 + n) + (32 + t)" by simp_all
      then show ?thesis using Cons c Nil by (cases "f \<and> a = p + 32 + q") (auto simp: add.assoc)
    next
      case (Cons d I)
      obtain x y g where d: "d = (x, y, g)" by (cases d)
      have "length ((p, q + (32 + y), True) # I) < length K" "length (d # I) < length K" using \<open>K = c # J\<close> Cons by simp_all
      from less [OF this(1)] less [OF this(2)] show ?thesis using \<open>K = c # J\<close> Cons c d by simp
    qed
  qed
qed

lemma heap_list_limit:
  assumes "heap_list s (K @ b # L)"
  shows "blocks_ok heap_start False K (ends heap_start K)"
    "blocks_ok (ends heap_start K) (ends_free False K) (b # L) (unat (heap_mapped_limit s))"
    "heap_tail s = lastp (fst b) L"
  using assms by (simp_all add: heap_list_def blocks_ok_append)

lemma blk_end_merge:
  assumes "blk_end (b, t, g) < 2 ^ 64" "unat b = blk_end (a, n, f)"
  shows "blk_end (a, n + (32 + t), h) = blk_end (b, t, g)" "unat (n + (32 + t)) = unat n + 32 + unat t"
proof -
  have "unat (32 + t) = 32 + unat t"
    using assms by (intro unat_add_no_wrap [of 32 t, simplified]) (simp add: blk_end_def)
  then show "unat (n + (32 + t)) = unat n + 32 + unat t"
    using assms unat_add_no_wrap [of n "32 + t"] by (simp add: blk_end_def)
  then show "blk_end (a, n + (32 + t), h) = blk_end (b, t, g)" using assms by (simp add: blk_end_def)
qed

lemma adjacent_iff:
  assumes "blk_end (a, n, f) < 2 ^ 64"
  shows "b = a + 32 + n \<longleftrightarrow> unat b = blk_end (a, n, f)"
proof -
  have "unat (a + 32) = unat a + 32"
    using assms by (intro unat_add_no_wrap [of a 32, simplified]) (simp add: blk_end_def)
  then have "unat (a + 32 + n) = blk_end (a, n, f)"
    using assms unat_add_no_wrap [of "a + 32" n] by (simp add: blk_end_def)
  then show ?thesis by (simp add: word_unat_eq_iff)
qed

lemma coalesce_ok: "blocks_ok lo fr L hi \<Longrightarrow> hi < 2 ^ 64 \<Longrightarrow> coalesce L = L"
proof (induction L arbitrary: lo fr rule: coalesce.induct)
  case (3 a n f b t g L)
  have e: "blk_end (a, n, f) < 2 ^ 64" "blocks_ok (blk_end (a, n, f)) f ((b, t, g) # L) hi"
    using "3.prems" blocks_ok_bounds [of lo fr "(a, n, f) # (b, t, g) # L" hi] by auto
  then have no: "\<not> (f \<and> g \<and> b = a + 32 + n)" using adjacent_iff [OF e(1), of b] by auto
  then have "coalesce ((a, n, f) # (b, t, g) # L) = (a, n, f) # coalesce ((b, t, g) # L)" by (subst coalesce.simps) (simp only: if_False)
  then show ?case using "3.IH"(2) [OF no e(2) "3.prems"(2)] by simp
qed simp_all

text \<open>The block after it has been marked free and merged with its right neighbour.\<close>

definition freed :: "'a heap_scheme \<Rightarrow> 'a heap_scheme \<Rightarrow> ablock list \<Rightarrow> u64 \<Rightarrow> u64 \<Rightarrow> ablock list \<Rightarrow> bool" where
  "freed s s' K a n L \<longleftrightarrow>
     hmem s' a = \<lparr>hb_magic = HEAP_MAGIC, hb_is_free = 1, hb_size = n, hb_next = first L 0,
                  hb_prev = lastp 0 K\<rparr> \<and>
     hlist (hmem s') a L 0 \<and> (\<forall>c\<in>fst ` set K. hmem s' c = hmem s c) \<and> heap_tail s' = lastp a L \<and>
     only_blocks s s' \<and> blocks_ok (blk_end (a, n, True)) True L (unat (heap_mapped_limit s)) \<and> 16 dvd unat n"

lemma kfree_next:
  assumes L: "heap_list s (K @ (a, n, False) # L)"
  shows "\<exists>D n' L'. L = D @ L' \<and> (D = [] \<and> n' = n \<or> (\<exists>t. D = [(a + 32 + n, t, True)] \<and> n' = n + (32 + t))) \<and>
    freed s (kfree_merge_next a (upd_block a (\<lambda>b. b\<lparr>hb_is_free := 1\<rparr>) s)) K a n' L'"
proof -
  define s1 where "s1 = upd_block a (\<lambda>b. b\<lparr>hb_is_free := 1\<rparr>) s"
  note F = heap_list_facts [OF L, simplified]
  note ok = heap_list_limit [OF L, simplified]
  have a1: "hmem s1 a = \<lparr>hb_magic = HEAP_MAGIC, hb_is_free = 1, hb_size = n, hb_next = first L 0,
      hb_prev = lastp 0 K\<rparr>" using F(8) by (simp add: s1_def upd_block_def)
  have h1: "hlist (hmem s1) a L 0" using F(5,9) by (simp add: s1_def upd_block_def)
  have K1: "\<forall>c\<in>fst ` set K. hmem s1 c = hmem s c" using F(4) by (auto simp: s1_def upd_block_def)
  have end_a: "blk_end (a, n, False) < 2 ^ 64" using F(7) by simp
  show ?thesis
  proof (cases "\<exists>b t M. L = (b, t, True) # M \<and> b = a + 32 + n")
    case False
    then have "kfree_merge_next a s1 = s1" using a1 h1
      by (cases L) (auto simp: kfree_merge_next_def Let_def)
    moreover have "blocks_ok (blk_end (a, n, True)) True L (unat (heap_mapped_limit s))"
      using ok(2) False adjacent_iff [OF end_a] by (cases L) (auto simp: blk_end_def)
    ultimately have "freed s (kfree_merge_next a s1) K a n L"
      using a1 h1 K1 ok F(11) by (auto simp: freed_def) (simp_all add: s1_def upd_block_def)
    then show ?thesis unfolding s1_def by (intro exI [of _ "[]"] exI [of _ n] exI [of _ L]) simp
  next
    case True
    then obtain b t M where LM: "L = (b, t, True) # M" and b: "b = a + 32 + n" by blast
    have LK: "heap_list s ((K @ [(a, n, False)]) @ (b, t, True) # M)" using L LM by simp
    note G = heap_list_facts [OF LK, simplified]
    define s2 where "s2 = upd_block a (\<lambda>x. x\<lparr>hb_size := n + (32 + t), hb_next := first M 0\<rparr>) s1"
    have m: "kfree_merge_next a s1 = relink (first M 0) a s2"
      using a1 h1 LM b G(1)
      by (auto simp: kfree_merge_next_def Let_def relink_def s2_def upd_block_def)
    have "hlist (hmem s2) b M 0" using h1 LM F(5) by (simp add: s2_def upd_block_def)
    note R = relink_spec [OF this G(3,2), where x = a, folded m]
    have ub: "unat b = blk_end (a, n, False)" using adjacent_iff [OF end_a] b by simp
    have "blk_end (b, t, True) < 2 ^ 64" using G(7) by simp
    note E = blk_end_merge(1) [OF this ub, where h = True] blk_end_merge(2) [OF this ub]
    have "freed s (kfree_merge_next a s1) K a (n + (32 + t)) M"
      unfolding freed_def
    proof (intro conjI ballI)
      show "hmem (kfree_merge_next a s1) a = \<lparr>hb_magic = HEAP_MAGIC, hb_is_free = 1,
          hb_size = n + (32 + t), hb_next = first M 0, hb_prev = lastp 0 K\<rparr>"
        using R(3) [of a] F(5) LM a1 by (simp add: s2_def upd_block_def)
      show "hmem (kfree_merge_next a s1) c = hmem s c" if "c \<in> fst ` set K" for c
      proof -
        have "c \<notin> fst ` set M" "c \<noteq> a" using F(4,6) LM that by auto
        then show ?thesis using R(3) [of c] K1 that by (simp add: s2_def upd_block_def)
      qed
      show "heap_tail (kfree_merge_next a s1) = lastp a M"
        using R(2) ok(3) LM by (simp add: s2_def s1_def upd_block_def lastp_nonempty)
      show "16 dvd unat (n + (32 + t))" using E(2) F(11) G(11) by simp
      show "blocks_ok (blk_end (a, n + (32 + t), True)) True M (unat (heap_mapped_limit s))"
        using ok(2) LM E(1) by simp
      show "only_blocks s (kfree_merge_next a s1)" by (simp add: m s2_def) (simp add: s1_def)
    qed (use R(1) in simp)
    then show ?thesis unfolding s1_def LM
      by (intro exI [of _ "[(b, t, True)]"] exI [of _ "n + (32 + t)"] exI [of _ M]) (simp add: b)
  qed
qed


definition used_blocks :: "ablock list \<Rightarrow> (u64 \<times> u64) set" where
  "used_blocks L = {(a + 32, n) | a n. (a, n, False) \<in> set L}"

lemma used_blocks_simps [simp]:
  "used_blocks [] = {}" "used_blocks ((a, n, True) # L) = used_blocks L"
  "used_blocks ((a, n, False) # L) = insert (a + 32, n) (used_blocks L)"
  "used_blocks (K @ L) = used_blocks K \<union> used_blocks L"
  by (auto simp: used_blocks_def)

lemma used_blocks_free: "\<forall>c\<in>set D. snd (snd c) \<Longrightarrow> used_blocks D = {}"
  by (fastforce simp: used_blocks_def)

lemma used_blocks_addr: "(a + 32, n) \<in> used_blocks L \<Longrightarrow> a \<in> fst ` set L"
  by (force simp: used_blocks_def)

lemma heap_list_used_fresh:
  assumes "heap_list s (K @ (a, n, f) # L)"
  shows "(a + 32, m) \<notin> used_blocks (K @ L)"
  using heap_list_facts(4,5) [OF assms] used_blocks_addr [of a m "K @ L"] by auto

lemma heap_list_prev:
  assumes "heap_list s ((J @ [(p, t, g)]) @ (a, n, f) # L)"
  shows "hmem s p = \<lparr>hb_magic = HEAP_MAGIC, hb_is_free = (if g then 1 else 0), hb_size = t, hb_next = a,
      hb_prev = lastp 0 J\<rparr>"
    and "p \<noteq> 0" "blk_end (p, t, g) = unat a \<longleftrightarrow> a = p + 32 + t"
  using heap_list_facts(1,7,8) [of s J "(p, t, g)" "(a, n, f) # L"] assms adjacent_iff [of p t g a]
  by auto

lemma kfree_list:
  assumes L: "heap_list s (K @ (a, n, False) # L)"
  shows "\<exists>L'. heap_list (kfree (a + 32) s) L' \<and> used_blocks L' = used_blocks (K @ L) \<and>
    only_blocks s (kfree (a + 32) s) \<and> L' = coalesce (K @ (a, n, True) # L)"
proof -
  note F = heap_list_facts [OF L, simplified]
  note ok = heap_list_limit [OF L, simplified]
  define s2 where "s2 = kfree_merge_next a (upd_block a (\<lambda>b. b\<lparr>hb_is_free := 1\<rparr>) s)"
  obtain D n' L' where D: "L = D @ L'" "D = [] \<and> n' = n \<or> (\<exists>t. D = [(a + 32 + n, t, True)] \<and> n' = n + (32 + t))"
    and fr: "freed s s2 K a n' L'"
    using kfree_next [OF L] unfolding s2_def by blast
  have Df: "\<forall>c\<in>set D. snd (snd c)" using D(2) by auto
  have join: "coalesce (K @ (a, n, True) # L) = coalesce (K @ (a, n', True) # L')" using D coalesce_join by auto
  have fin: "coalesce L'' = L''" if "heap_list t L''" for t :: "'a heap_scheme" and L''
    using that unsigned_less [of "heap_mapped_limit t", where 'a = nat] by (auto simp: heap_list_def intro: coalesce_ok)
  have a: "a + 32 \<noteq> 0"
  proof
    assume "a + 32 = 0"
    then have "unat (a + 32) = 0" by simp
    then show False using F(7) unat_add_no_wrap [of a 32] by (simp add: blk_end_def)
  qed
  then have kf: "kfree (a + 32) s = kfree_merge_prev a s2" using F(8) by (simp add: kfree_def s2_def Let_def)
  have LD: "heap_list s (K @ ((a, n, False) # D) @ L')" using L D by simp
  show ?thesis
  proof (cases "\<exists>J p t. K = J @ [(p, t, True)] \<and> a = p + 32 + t")
    case False
    have m: "kfree_merge_prev a s2 = s2 \<and> \<not> (ends_free False K \<and> ends heap_start K = unat a)"
    proof (cases K rule: rev_cases)
      case Nil
      then show ?thesis using fr by (simp add: kfree_merge_prev_def freed_def)
    next
      case (snoc J b)
      obtain p t g where b: "b = (p, t, g)" by (cases b)
      note P = heap_list_prev [OF L [unfolded snoc b]]
      have "hmem s2 p = hmem s p" using fr snoc b by (simp add: freed_def)
      then show ?thesis
        using fr False snoc b P by (auto simp: kfree_merge_prev_def freed_def Let_def ends_free_def ends_def)
    qed
    then have hl: "heap_list s2 (K @ [(a, n', True)] @ L')"
      using fr ok F(10) by (intro heap_list_replace [OF LD]) (auto simp: freed_def)
    then show ?thesis using D(1) Df fr m used_blocks_free [of D] join fin [OF hl]
      by (intro exI [of _ "K @ [(a, n', True)] @ L'"]) (simp add: kf freed_def)
  next
    case True
    then obtain J p t where KJ: "K = J @ [(p, t, True)]" and a: "a = p + 32 + t" by blast
    note P = heap_list_prev [OF L [unfolded KJ]]
    define s3 where "s3 = upd_block p (\<lambda>b. b\<lparr>hb_size := t + (32 + n'), hb_next := first L' 0\<rparr>) s2"
    have p2: "hmem s2 p = hmem s p" using fr KJ by (simp add: freed_def)
    then have m: "kfree_merge_prev a s2 = relink (first L' 0) p s3"
      using fr P KJ a by (simp add: kfree_merge_prev_def freed_def Let_def relink_def s3_def upd_block_def)
    have out: "p \<notin> fst ` set L'" "distinct (map fst L')" "0 \<notin> fst ` set L'" "fst ` set J \<inter> fst ` set L' = {}"
      using F(2,3,6) KJ D(1) by auto
    have pa: "p \<noteq> a" "p \<notin> fst ` set J" using F(4) KJ heap_list_facts(4) [of s J "(p, t, True)"] L by auto
    have h3: "hlist (hmem s3) a L' 0" using fr out(1) by (simp add: freed_def s3_def upd_block_def)
    note R = relink_spec [OF h3 out(2,3), where x = p, folded m]
    have hl: "heap_list (kfree_merge_prev a s2) (J @ [(p, t + (32 + n'), True)] @ L')"
    proof (rule heap_list_replace [of s J "(p, t, True) # (a, n, False) # D"])
      show "heap_list s (J @ ((p, t, True) # (a, n, False) # D) @ L')" using L D KJ by simp
      show "hmem (kfree_merge_prev a s2) c = hmem s c" if "c \<in> fst ` set J" for c
      proof -
        have "c \<notin> fst ` set L'" "c \<noteq> p" using out(4) that pa(2) by auto
        moreover have "hmem s2 c = hmem s c" using fr that KJ unfolding freed_def by auto
        ultimately show ?thesis using R(3) [of c] by (simp add: s3_def upd_block_def)
      qed
      show "hlist (hmem (kfree_merge_prev a s2)) (lastp 0 J) [(p, t + (32 + n'), True)] (first L' 0)"
        using R(3) [of p] out(1) p2 P(1) by (simp add: s3_def upd_block_def)
      show "heap_tail (kfree_merge_prev a s2) = lastp (fst (last [(p, t + (32 + n'), True)])) L'"
        using R(2) fr by (simp add: freed_def s3_def upd_block_def lastp_nonempty)
      have e: "blk_end (a, n', True) < 2 ^ 64"
        using fr blocks_ok_bounds [of "blk_end (a, n', True)"] unsigned_less [of "heap_mapped_limit s", where 'a = nat]
        by (fastforce simp: freed_def)
      have ua: "unat a = blk_end (p, t, True)" using P(3) a by simp
      note E = blk_end_merge(1) [OF e ua, where h = True] blk_end_merge(2) [OF e ua]
      have J: "heap_list s (J @ (p, t, True) # (a, n, False) # L)" using L KJ by simp
      show "blocks_ok (ends heap_start J) (ends_free False J) ([(p, t + (32 + n'), True)] @ L')
          (unat (heap_mapped_limit s))"
        using heap_list_limit(2) [OF J] fr E by (auto simp: freed_def)
    qed (use R(1) fr in \<open>simp_all add: m s3_def freed_def\<close>)
    moreover have "coalesce (K @ (a, n', True) # L') = J @ [(p, t + (32 + n'), True)] @ L'"
      using coalesce_join [of J p t n' L'] fin [OF hl] by (simp add: KJ a)
    ultimately show ?thesis using D(1) Df fr used_blocks_free [of D] KJ join
      by (intro exI [of _ "J @ [(p, t + (32 + n'), True)] @ L'"]) (simp add: kf freed_def s3_def m)
  qed
qed

section \<open>Searching and extending the list\<close>

definition fits :: "u64 \<Rightarrow> ablock \<Rightarrow> bool" where
  "fits sz b \<longleftrightarrow> snd (snd b) \<and> sz \<le> fst (snd b)"

lemma heap_search_list:
  assumes "hlist h p L 0" "0 \<notin> fst ` set L"
  shows "(\<forall>b\<in>set L. \<not> fits sz b) \<and> heap_search h sz (first L 0) = Some 0 \<or>
    (\<exists>K b M. L = K @ b # M \<and> fits sz b \<and> (\<forall>c\<in>set K. \<not> fits sz c) \<and>
      heap_search h sz (first L 0) = Some (fst b))"
  using assms
proof (induction L arbitrary: p)
  case Nil
  then show ?case by (simp add: heap_search.simps)
next
  case (Cons b L)
  obtain a n f where b: "b = (a, n, f)" by (cases b)
  have h: "h a = \<lparr>hb_magic = HEAP_MAGIC, hb_is_free = (if f then 1 else 0), hb_size = n,
      hb_next = first L 0, hb_prev = p\<rparr>" and L: "hlist h a L 0" and a: "a \<noteq> 0"
    using Cons.prems b by auto
  show ?case
  proof (cases "fits sz b")
    case True
    then have "heap_search h sz (first (b # L) 0) = Some (fst b)"
      using h a b by (simp add: heap_search.simps fits_def)
    with True show ?thesis by (intro disjI2 exI [of _ "[]"] exI [of _ b] exI [of _ L]) simp
  next
    case False
    then have step: "heap_search h sz (first (b # L) 0) = heap_search h sz (first L 0)"
      using h a b by (subst heap_search.simps) (auto simp: fits_def)
    have "0 \<notin> fst ` set L" using Cons.prems(2) by simp
    from Cons.IH [OF L this] show ?thesis
    proof (elim disjE exE conjE)
      fix K c M
      assume "L = K @ c # M" "fits sz c" "\<forall>c\<in>set K. \<not> fits sz c" "heap_search h sz (first L 0) = Some (fst c)"
      then show ?thesis using False step by (intro disjI2 exI [of _ "b # K"] exI [of _ c] exI [of _ M]) simp
    qed (use False step in simp)
  qed
qed

lemma align_up_spec:
  assumes "unat n + 16 \<le> 2 ^ 64"
  shows "unat n \<le> unat (align_up n)" "unat (align_up n) < unat n + 16" "16 dvd unat (align_up n)"
proof -
  have m: "unat (n mod 16) = unat n mod 16" by (simp add: unat_mod)
  have "unat (align_up n) = (if unat n mod 16 = 0 then unat n else unat n + (16 - unat n mod 16))"
  proof (cases "n mod 16 = 0")
    case True
    then show ?thesis using m by (simp add: align_up_def)
  next
    case False
    then have nz: "unat n mod 16 \<noteq> 0" using m by (metis unat_eq_zero)
    have "n mod 16 \<le> 16" using m by (simp add: word_le_nat_alt)
    then have "unat (16 - n mod 16) = 16 - unat n mod 16" using m by (simp add: unat_sub_no_wrap)
    moreover have "unat n + (16 - unat n mod 16) < 2 ^ 64"
    proof (rule ccontr)
      assume "\<not> ?thesis"
      with assms nz show False by presburger
    qed
    ultimately show ?thesis using False nz by (simp add: align_up_def unat_add_no_wrap)
  qed
  then show "unat n \<le> unat (align_up n)" "unat (align_up n) < unat n + 16" "16 dvd unat (align_up n)"
    by (auto split: if_splits; presburger)+
qed

definition list_at :: "'a heap_scheme \<Rightarrow> ablock list \<Rightarrow> u64 \<Rightarrow> bool" where
  "list_at s L start \<longleftrightarrow> hlist (hmem s) 0 L 0 \<and> heap_head s = first L 0 \<and> heap_tail s = lastp 0 L \<and>
     blocks_ok heap_start False L (unat start) \<and> 16 dvd unat start"

text \<open>The list after \<open>m\<close> more bytes from \<open>start\<close>: a free last block grows, and else there is a new last block.\<close>

definition grow_list :: "u64 \<Rightarrow> u64 \<Rightarrow> ablock list \<Rightarrow> ablock list" where
  "grow_list start m L =
     (if L \<noteq> [] \<and> snd (snd (last L)) then butlast L @ [(fst (last L), fst (snd (last L)) + m, True)]
      else L @ [(start, m - 32, True)])"

lemma heap_add_block_list:
  assumes L: "list_at s L start"
    and m: "32 \<le> mapped" "16 dvd unat mapped" "unat start + unat mapped = unat (heap_mapped_limit s)"
  shows "heap_list (heap_add_block start mapped s) (grow_list start mapped L) \<and>
    used_blocks (grow_list start mapped L) = used_blocks L \<and>
    (\<exists>b\<in>set (grow_list start mapped L). snd (snd b) \<and> mapped - 32 \<le> fst (snd b))"
proof -
  let ?b = "(start, mapped - 32, True)"
  have lt: "unat start + unat mapped < 2 ^ 64"
    using m(3) unsigned_less [of "heap_mapped_limit s", where 'a = nat] by simp
  have um: "unat (mapped - 32) = unat mapped - 32" using m(1) by (simp add: unat_sub_no_wrap)
  have m32: "32 \<le> unat mapped" using m(1) by (simp add: word_le_nat_alt)
  have bd: "heap_start \<le> unat start" "\<And>c. c \<in> set L \<Longrightarrow> heap_start \<le> unat (fst c) \<and> blk_end c \<le> unat start"
    using blocks_ok_bounds [of heap_start False L "unat start"] L unfolding list_at_def by blast+
  have sd: "16 dvd unat start" using L by (simp add: list_at_def)
  have dv: "16 dvd unat (mapped - 32)" unfolding um using m(2) by (simp add: dvd_diff_nat)
  have fresh: "start \<notin> fst ` set L" using bd(2) by (fastforce simp: blk_end_def)
  have h: "hlist ((hmem s)(start := x)) 0 L 0" for x using L fresh by (simp add: list_at_def)
  show ?thesis
  proof (cases L rule: rev_cases)
    case Nil
    then have "heap_list (heap_add_block start mapped s) [?b]"
      using L m dv bd um m32 by (simp add: heap_list_def list_at_def heap_add_block_def upd_block_def Let_def blk_end_def)
    then show ?thesis using Nil by (simp add: grow_list_def)
  next
    case (snoc J b)
    obtain p t f where b: "b = (p, t, f)" by (cases b)
    have J: "hlist (hmem s) 0 J p" "blocks_ok heap_start False J (ends heap_start J)"
      "blocks_ok (ends heap_start J) (ends_free False J) [(p, t, f)] (unat start)"
      and p: "hmem s p = \<lparr>hb_magic = HEAP_MAGIC, hb_is_free = (if f then 1 else 0), hb_size = t,
        hb_next = 0, hb_prev = lastp 0 J\<rparr>" "heap_tail s = p" "heap_head s = first J p"
      using L snoc b by (simp_all add: list_at_def hlist_append blocks_ok_append)
    have "distinct (map fst L)" using L blocks_ok_distinct by (auto simp: list_at_def)
    then have out: "p \<notin> fst ` set J" "start \<notin> fst ` set J" "start \<noteq> p" "p \<noteq> 0" "blk_end (p, t, f) \<le> unat start"
      using fresh bd(2) [of b] snoc b by auto
    note S = heap_add_block_def upd_block_def Let_def p
    show ?thesis
    proof (cases f)
      case False
      then have "heap_list (heap_add_block start mapped s) (J @ [(p, t, False), ?b])"
        using J out m dv um m32 bd(1) sd
        by (auto simp: heap_list_def S hlist_append blocks_ok_append blk_end_def)
      then show ?thesis using False snoc b by (simp add: grow_list_def)
    next
      case True
      have ut: "unat (t + mapped) = unat t + unat mapped"
        using out(5) lt by (intro unat_add_no_wrap) (simp add: blk_end_def)
      have "heap_list (heap_add_block start mapped s) (J @ [(p, t + mapped, True)])"
        using True J out m ut
        by (auto simp: heap_list_def S hlist_append blocks_ok_append blk_end_def)
      moreover have "mapped - 32 \<le> t + mapped" using um ut by (simp add: word_le_nat_alt)
      ultimately show ?thesis using True snoc b by (simp add: grow_list_def)
    qed
  qed
qed

section \<open>Growing the heap\<close>

lemma heap_fields_cong:
  assumes "vmm.more s' = vmm.more s"
  shows "heap_mapped_limit s' = heap_mapped_limit s" "heap_head s' = heap_head s"
    "heap_tail s' = heap_tail s" "hmem s' = hmem s" "heap.more s' = heap.more s"
  using assms by (cases s; cases s'; simp)+

definition heap_vm :: "'a heap_scheme \<Rightarrow> bool" where
  "heap_vm s \<longleftrightarrow> pt_inv s \<and> (\<forall>v\<ge>HEAP_START_VIRT. no_huge s v) \<and> 4096 dvd unat (heap_mapped_limit s) \<and>
     heap_start \<le> unat (heap_mapped_limit s) \<and>
     unat (heap_mapped_limit s) + 4096 * card (free_pages s) < 2 ^ 64"

definition heap_mapped :: "'a heap_scheme \<Rightarrow> bool" where
  "heap_mapped s \<longleftrightarrow> (\<forall>v. HEAP_START_VIRT \<le> v \<and> v < heap_mapped_limit s \<longrightarrow> leaf s v \<noteq> None)"

text \<open>One iteration of the loop: a page is taken, mapped at the limit, and the limit advances.\<close>

lemma heap_map_one:
  assumes vm: "heap_vm s" and k: "k \<in> free_pages s"
  obtains s' where "vmm_map_page (k * 4096) (heap_mapped_limit s) 3 (take_page k s) = Some s'"
    "heap_vm (s'\<lparr>heap_mapped_limit := heap_mapped_limit s + 4096\<rparr>)"
    "unat (heap_mapped_limit s + 4096) = unat (heap_mapped_limit s) + 4096"
    "vmm.more s' = vmm.more s" "free_pages s' \<subset> free_pages s"
    "heap_mapped s \<Longrightarrow> free_pages s' \<noteq> {} \<Longrightarrow> heap_mapped (s'\<lparr>heap_mapped_limit := heap_mapped_limit s + 4096\<rparr>)"
proof -
  let ?l = "heap_mapped_limit s" and ?t = "take_page k s"
  have inv: "pt_inv s" and nh: "\<And>v. HEAP_START_VIRT \<le> v \<Longrightarrow> no_huge s v"
    and l: "4096 dvd unat ?l" "heap_start \<le> unat ?l" "unat ?l + 4096 * card (free_pages s) < 2 ^ 64"
    using vm by (auto simp: heap_vm_def)
  have nht: "no_huge ?t v = no_huge s v" and lft: "leaf ?t v = leaf s v" for v
    by (rule tables_cong; simp add: frame_simps)+
  have "HEAP_START_VIRT \<le> ?l" using l(2) by (simp add: word_le_nat_alt)
  from vmm_map_page_spec [OF pt_inv_take [OF inv k], of ?l "k * 4096" 3] nh [OF this] nht
  obtain s' where s': "vmm_map_page (k * 4096) ?l 3 ?t = Some s'" "pt_inv s'"
    "\<forall>v. \<not> same_page v ?l \<longrightarrow> leaf s' v = leaf s v"
    "leaf s' ?l \<noteq> None \<or> free_pages s' = {}" "tree_grows ?t s'"
    unfolding lft by blast
  have sub: "free_pages s' \<subseteq> free_pages s - {k}" and more: "vmm.more s' = vmm.more s"
    using s'(5) by (simp_all add: tree_grows_def free_pages_take frame_simps)
  have c: "card (free_pages s') + 1 \<le> card (free_pages s)"
    using card_mono [OF _ sub] k card_Suc_Diff1 [of "free_pages s" k] by simp
  have ul: "unat (?l + 4096) = unat ?l + 4096"
    using l(3) c by (intro unat_add_no_wrap [of ?l 4096, simplified]) simp
  let ?s = "s'\<lparr>heap_mapped_limit := ?l + 4096\<rparr>"
  have tr: "vmm.truncate ?s = vmm.truncate s'" by (simp add: vmm.truncate_def)
  note C = vmm_cong [OF tr]
  have "heap_vm ?s"
    using s'(2) tree_grows_no_huge [OF s'(5)] nht nh l ul c by (auto simp: heap_vm_def C)
  moreover have "heap_mapped ?s" if hm: "heap_mapped s" and ne: "free_pages s' \<noteq> {}"
    unfolding heap_mapped_def
  proof (intro allI impI)
    fix v assume v: "HEAP_START_VIRT \<le> v \<and> v < heap_mapped_limit ?s"
    show "leaf ?s v \<noteq> None"
    proof (cases "v < ?l")
      case True
      have "leaf s v \<noteq> None" using hm v True by (simp add: heap_mapped_def)
      moreover have "leaf s' v = leaf s' ?l" if "same_page v ?l" using same_page_leaf [OF that] .
      ultimately show ?thesis using s'(3,4) ne by (cases "same_page v ?l") (auto simp: C)
    next
      case False
      then have "unat ?l \<le> unat v" "unat v < unat ?l + 4096"
        using v ul by (simp_all add: word_less_nat_alt)
      then have "v - ?l < 4096" by (simp add: word_less_nat_alt unat_sub_no_wrap word_le_nat_alt)
      then have "same_page (?l + (v - ?l)) ?l"
        using l(1) by (intro same_page_offset) (simp_all add: page_aligned_iff)
      then show ?thesis using same_page_leaf [of v ?l s'] s'(4) ne by (simp add: C)
    qed
  qed
  ultimately show thesis using s' ul more sub k by (intro that [of s']) auto
qed

definition pages_result :: "u64 \<Rightarrow> u64 \<Rightarrow> u64 option \<Rightarrow> 'a heap_scheme \<Rightarrow> 'a heap_scheme \<Rightarrow> bool" where
  "pages_result total_bytes mapped r s s' \<longleftrightarrow> heap_vm s' \<and> heap_head s' = heap_head s \<and>
     heap_tail s' = heap_tail s \<and> hmem s' = hmem s \<and> heap.more s' = heap.more s \<and>
     unat (heap_mapped_limit s) \<le> unat (heap_mapped_limit s') \<and> free_pages s' \<subseteq> free_pages s \<and>
     (heap_mapped s \<longrightarrow> free_pages s' \<noteq> {} \<longrightarrow> heap_mapped s') \<and>
     (case r of None \<Rightarrow> free_pages s' = {}
      | Some m \<Rightarrow> total_bytes \<le> m \<and> unat m < max (unat mapped + 1) (unat total_bytes + 4096) \<and> 4096 dvd unat m \<and>
          unat (heap_mapped_limit s') + unat mapped = unat (heap_mapped_limit s) + unat m)"

lemma heap_map_pages_spec:
  assumes "heap_vm s" "unat mapped + heap_start \<le> unat (heap_mapped_limit s)" "4096 dvd unat mapped"
  shows "\<exists>r s'. heap_map_pages total_bytes mapped s = Some (r, s') \<and> pages_result total_bytes mapped r s s'"
  using assms
proof (induction "card (free_pages s)" arbitrary: s mapped rule: less_induct)
  case less
  note vm = less.prems(1)
  show ?case
  proof (cases "mapped < total_bytes")
    case False
    then show ?thesis using vm less.prems(3)
      by (subst heap_map_pages.simps) (auto simp: pages_result_def)
  next
    case True
    have pinv: "pmm_inv s" using vm by (auto simp: heap_vm_def dest: pt_invD(1))
    then obtain a s1 where r: "pmm_alloc_page s = Some (a, s1)" using pmm.alloc_defined by blast
    from pinv r show ?thesis
    proof (cases rule: pmm_alloc_page_cases)
      case full
      then show ?thesis using True r vm
        by (subst heap_map_pages.simps) (auto simp: pages_result_def)
    next
      case (found k)
      let ?l = "heap_mapped_limit s"
      have a: "a \<noteq> 0" using pmm.page_address(1) [OF pinv found(1)] found(3) by simp
      have l1: "heap_mapped_limit s1 = ?l" using found by (simp add: take_page_def)
      obtain s' where s': "vmm_map_page (k * 4096) ?l 3 (take_page k s) = Some s'"
        "heap_vm (s'\<lparr>heap_mapped_limit := ?l + 4096\<rparr>)"
        "unat (?l + 4096) = unat ?l + 4096" "vmm.more s' = vmm.more s" "free_pages s' \<subset> free_pages s"
        "heap_mapped s \<Longrightarrow> free_pages s' \<noteq> {} \<Longrightarrow> heap_mapped (s'\<lparr>heap_mapped_limit := ?l + 4096\<rparr>)"
        using heap_map_one [OF vm found(1)] by blast
      let ?s = "s'\<lparr>heap_mapped_limit := ?l + 4096\<rparr>"
      note F = heap_fields_cong [OF s'(4)]
      have fp: "free_pages ?s = free_pages s'" by (rule vmm_cong) (simp add: vmm.truncate_def)
      have um: "unat (mapped + 4096) = unat mapped + 4096"
        using less.prems(2) unsigned_less [of ?l, where 'a = nat]
        by (intro unat_add_no_wrap [of mapped 4096, simplified]) simp
      have "card (free_pages ?s) < card (free_pages s)" using s'(5) fp by (simp add: psubset_card_mono)
      from less.hyps [OF this s'(2), of "mapped + 4096"] obtain r' s'' where
        rr: "heap_map_pages total_bytes (mapped + 4096) ?s = Some (r', s'')"
        "pages_result total_bytes (mapped + 4096) r' ?s s''"
        using um s'(3) less.prems by auto
      have "heap_map_pages total_bytes mapped s = Some (r', s'')"
        using True r a s'(1) F rr(1) found(3,4) l1 by (subst heap_map_pages.simps) simp
      moreover have "pages_result total_bytes mapped r' s s''"
        using rr(2) F s'(3,5,6) um fp True by (auto simp: pages_result_def word_less_nat_alt split: option.splits)
      ultimately show ?thesis by blast
    qed
  qed
qed

lemma heap_vm_cong:
  assumes "vmm.truncate s' = vmm.truncate s" "heap_mapped_limit s' = heap_mapped_limit s"
  shows "heap_vm s' = heap_vm s" "heap_mapped s' = heap_mapped s"
  by (simp_all add: heap_vm_def heap_mapped_def vmm_cong [OF assms(1)] assms(2))

definition heap_rel :: "'a heap_scheme \<Rightarrow> ablock list \<Rightarrow> bool" where
  "heap_rel s L \<longleftrightarrow> heap_vm s \<and> heap_list s L"

lemma heap_add_block_frame:
  "vmm.truncate (heap_add_block a m s) = vmm.truncate s"
  "heap_mapped_limit (heap_add_block a m s) = heap_mapped_limit s"
  "heap.more (heap_add_block a m s) = heap.more s"
  by (simp_all add: heap_add_block_def upd_block_def Let_def vmm.truncate_def)

lemma heap_rel_zero: "heap_rel s L \<Longrightarrow> 0 \<notin> fst ` set L"
  using blocks_ok_bounds [of heap_start False L] by (fastforce simp: heap_rel_def heap_list_def)

text \<open>The heap grows by the pages that a block of \<open>needed\<close> bytes takes with its header.\<close>

definition grown :: "u64 \<Rightarrow> u64 \<Rightarrow> u64 \<Rightarrow> ablock list \<Rightarrow> ablock list \<Rightarrow> bool" where
  "grown needed start limit L L' \<longleftrightarrow> (\<exists>m. L' = grow_list start m L \<and> unat limit = unat start + unat m \<and>
     4096 dvd unat m \<and> unat needed + 32 \<le> unat m \<and> unat m < unat needed + 48 + 4096)"

lemma heap_expand_spec:
  assumes vm: "heap_vm s" and at: "list_at s L (heap_mapped_limit s)" and n: "unat needed + 48 \<le> 2 ^ 64"
  shows "\<exists>ok s' L'. heap_expand needed s = Some (ok, s') \<and> heap_vm s' \<and>
    (if ok then heap_list s' L' \<and> (\<exists>b\<in>set L'. fits needed b) \<and> grown needed (heap_mapped_limit s) (heap_mapped_limit s') L L'
     else list_at s' L (heap_mapped_limit s') \<and> L' = L \<and> free_pages s' = {}) \<and>
    used_blocks L' = used_blocks L \<and> heap.more s' = heap.more s \<and>
    (heap_mapped s \<longrightarrow> free_pages s' \<noteq> {} \<longrightarrow> heap_mapped s')"
proof -
  define tb where "tb = align_up (needed + 32)"
  have nn: "unat (needed + 32) = unat needed + 32"
    using n by (intro unat_add_no_wrap [of needed 32, simplified]) simp
  then have tb: "unat needed + 32 \<le> unat tb" using align_up_spec(1) [of "needed + 32"] n by (simp add: tb_def)
  obtain r s1 where r: "heap_map_pages tb 0 s = Some (r, s1)" "pages_result tb 0 r s s1"
    using heap_map_pages_spec [OF vm, of 0 tb] vm by (auto simp: heap_vm_def)
  have dl: "16 dvd unat (heap_mapped_limit s1)"
    using r(2) dvd_trans [of 16 4096 "unat (heap_mapped_limit s1)"] by (auto simp: pages_result_def heap_vm_def)
  show ?thesis
  proof (cases r)
    case None
    then have "heap_expand needed s = Some (False, s1)" using r(1) by (simp add: heap_expand_def tb_def)
    moreover have "list_at s1 L (heap_mapped_limit s1)"
      using at r(2) dl blocks_ok_mono by (auto simp: list_at_def pages_result_def)
    ultimately show ?thesis using None r(2) by (intro exI [of _ False] exI [of _ s1] exI [of _ L]) (simp add: pages_result_def)
  next
    case (Some m)
    let ?s = "heap_add_block (heap_mapped_limit s) m s1"
    have e: "heap_expand needed s = Some (True, ?s)" using r(1) Some by (simp add: heap_expand_def tb_def)
    have m: "tb \<le> m" "4096 dvd unat m" "unat (heap_mapped_limit s1) = unat (heap_mapped_limit s) + unat m"
      using r(2) Some by (simp_all add: pages_result_def)
    have m32: "32 \<le> m" "unat needed \<le> unat (m - 32)"
      using tb m(1) by (simp_all add: word_le_nat_alt unat_sub_no_wrap)
    have "list_at s1 L (heap_mapped_limit s)" using at r(2) by (simp add: list_at_def pages_result_def)
    from heap_add_block_list [OF this m32(1)] m dvd_trans [of 16 4096 "unat m"]
    obtain L' b where L': "heap_list ?s L'" "used_blocks L' = used_blocks L" "b \<in> set L'"
      "snd (snd b)" "m - 32 \<le> fst (snd b)" "L' = grow_list (heap_mapped_limit s) m L" by auto
    have "unat m < max 1 (unat tb + 4096)" using r(2) Some by (simp add: pages_result_def)
    then have "grown needed (heap_mapped_limit s) (heap_mapped_limit ?s) L L'"
      unfolding grown_def heap_add_block_frame(2) using L'(6) m tb align_up_spec(2) [of "needed + 32"] nn n
      by (intro exI [of _ m]) (simp add: tb_def word_le_nat_alt)
    moreover
    have "fits needed b" using m32(2) L'(4,5) by (simp add: fits_def word_le_nat_alt)
    moreover have "heap_vm ?s" "heap_mapped ?s = heap_mapped s1" "free_pages ?s = free_pages s1"
      using r(2) by (simp_all add: heap_vm_cong [OF heap_add_block_frame(1,2)]
        vmm_cong [OF heap_add_block_frame(1)] pages_result_def)
    ultimately show ?thesis
      using e L' r(2) by (intro exI [of _ True] exI [of _ ?s] exI [of _ L'])
        (auto simp: pages_result_def heap_add_block_frame)
  qed
qed

section \<open>Allocation and release\<close>

lemma list_at_limit: "heap_vm s \<Longrightarrow> list_at s L (heap_mapped_limit s) \<longleftrightarrow> heap_list s L"
  using dvd_trans [of 16 4096 "unat (heap_mapped_limit s)"]
  by (auto simp: list_at_def heap_list_def heap_vm_def)

lemma only_blocks_more: "only_blocks s s' \<Longrightarrow> heap.more s' = heap.more s"
proof -
  have "heap.more s' = heap.more (s'\<lparr>heap_tail := heap_tail s, hmem := hmem s\<rparr>)" by simp
  then show "only_blocks s s' \<Longrightarrow> heap.more s' = heap.more s" by (simp add: only_blocks_def)
qed

lemma only_blocks_vm:
  assumes "only_blocks s s'"
  shows "heap_vm s' = heap_vm s" "heap_mapped s' = heap_mapped s" "free_pages s' = free_pages s"
proof -
  have f: "vmm.truncate s' = vmm.truncate s" "heap_mapped_limit s' = heap_mapped_limit s"
    using only_blocks_fields [OF assms] by simp_all
  show "heap_vm s' = heap_vm s" "heap_mapped s' = heap_mapped s" by (rule heap_vm_cong [OF f])+
  show "free_pages s' = free_pages s" by (rule vmm_cong [OF f(1)])
qed

text \<open>Taking the first block that fits.\<close>

definition taken_one :: "u64 \<Rightarrow> u64 \<Rightarrow> ablock list \<Rightarrow> ablock list \<Rightarrow> bool" where
  "taken_one sz p L L' \<longleftrightarrow> p \<noteq> 0 \<and> 16 dvd unat p \<and>
     (\<exists>n\<ge>sz. unat n < unat sz + 48 \<and> (p, n) \<notin> used_blocks L \<and> used_blocks L' = insert (p, n) (used_blocks L))"

text \<open>The first block of the list that fits is taken, and the rest of it split off.\<close>

definition first_fit :: "u64 \<Rightarrow> u64 \<Rightarrow> ablock list \<Rightarrow> ablock list \<Rightarrow> bool" where
  "first_fit sz p L L' \<longleftrightarrow> (\<exists>K a n M. L = K @ (a, n, True) # M \<and> (\<forall>c\<in>set K. \<not> fits sz c) \<and> fits sz (a, n, True) \<and>
     p = a + 32 \<and> L' = K @ taken a n sz @ M)"

lemma heap_take_rel:
  assumes rel: "heap_rel s (K @ b # M)" and b: "fits sz b" and sz: "16 dvd unat sz" and K: "\<forall>c\<in>set K. \<not> fits sz c"
  shows "\<exists>p s' L'. heap_take (fst b) sz s = (p, s') \<and> heap_rel s' L' \<and> taken_one sz p (K @ b # M) L' \<and>
    only_blocks s s' \<and> first_fit sz p (K @ b # M) L'"
proof -
  obtain a n where ab: "b = (a, n, True)" and sn: "sz \<le> n" using b by (cases b) (auto simp: fits_def)
  have L: "heap_list s (K @ (a, n, True) # M)" using rel ab by (simp add: heap_rel_def)
  note F = heap_list_facts [OF L, simplified]
  note T = heap_take_list [OF L sn sz]
  have ua: "unat (a + 32) = unat a + 32"
    using F(7) by (intro unat_add_no_wrap [of a 32, simplified]) (simp add: blk_end_def)
  have p: "a + 32 \<noteq> 0" using ua by (metis add_is_0 unat_0 zero_neq_numeral)
  let ?n = "if n < sz + 48 then n else sz"
  have u48: "unat (sz + 48) = unat sz + 48"
    using F(12) sn by (intro unat_add_no_wrap [of sz 48, simplified]) (simp add: word_le_nat_alt)
  have "used_blocks (K @ taken a n sz @ M) = insert (a + 32, ?n) (used_blocks (K @ b # M))"
    by (simp add: taken_def ab)
  moreover have "sz \<le> ?n" "unat ?n < unat sz + 48" using sn u48 by (auto simp: word_less_nat_alt)
  moreover have "(a + 32, ?n) \<notin> used_blocks (K @ b # M)" using heap_list_used_fresh [OF L, of ?n] by (simp add: ab)
  ultimately have "taken_one sz (a + 32) (K @ b # M) (K @ taken a n sz @ M)"
    unfolding taken_one_def using p ua F(10) by auto
  moreover have "heap_rel (snd (heap_take a sz s)) (K @ taken a n sz @ M)"
    using rel T(2) only_blocks_vm(1) [OF T(3)] by (simp add: heap_rel_def)
  moreover have "first_fit sz (a + 32) (K @ b # M) (K @ taken a n sz @ M)"
    unfolding first_fit_def using K b ab by blast
  ultimately show ?thesis using T(1,3) ab
    by (intro exI [of _ "a + 32"] exI [of _ "snd (heap_take a sz s)"] exI [of _ "K @ taken a n sz @ M"])
      (simp, simp add: prod_eq_iff)
qed

lemma heap_search_take:
  assumes rel: "heap_rel s L" and sz: "16 dvd unat sz" and fit: "\<exists>b\<in>set L. fits sz b"
  shows "\<exists>blk p s' L'. heap_search (hmem s) sz (heap_head s) = Some blk \<and> blk \<noteq> 0 \<and>
    heap_take blk sz s = (p, s') \<and> heap_rel s' L' \<and> taken_one sz p L L' \<and> only_blocks s s' \<and> first_fit sz p L L'"
proof -
  have h: "hlist (hmem s) 0 L 0" "heap_head s = first L 0" using rel by (simp_all add: heap_rel_def heap_list_def)
  obtain K b M where L: "L = K @ b # M" "fits sz b" "heap_search (hmem s) sz (heap_head s) = Some (fst b)" "\<forall>c\<in>set K. \<not> fits sz c"
    using heap_search_list [OF h(1) heap_rel_zero [OF rel], of sz] fit h(2) by auto
  moreover have "fst b \<noteq> 0" using heap_rel_zero [OF rel] L(1) by force
  ultimately show ?thesis using heap_take_rel [OF rel [unfolded L(1)] L(2) sz L(4)] by blast
qed

lemma heap_search_none:
  assumes "heap_rel s L" "\<forall>b\<in>set L. \<not> fits sz b"
  shows "heap_search (hmem s) sz (heap_head s) = Some 0"
  using heap_search_list [of "hmem s" 0 L sz] heap_rel_zero [OF assms(1)] assms
  by (auto simp: heap_rel_def heap_list_def)

lemma taken_one_used: "used_blocks K = used_blocks L \<Longrightarrow> taken_one sz p K L' = taken_one sz p L L'"
  by (simp add: taken_one_def)

lemma taken_one_le:
  assumes "taken_one a p L L'" "unat b \<le> unat a" "unat a < unat b + 16"
  shows "p \<noteq> 0 \<and> 16 dvd unat p \<and> (\<exists>n\<ge>b. unat n < unat b + 64 \<and> (p, n) \<notin> used_blocks L \<and>
      used_blocks L' = insert (p, n) (used_blocks L))"
proof -
  obtain n where "a \<le> n" "unat n < unat a + 48" "(p, n) \<notin> used_blocks L"
    "used_blocks L' = insert (p, n) (used_blocks L)" "p \<noteq> 0" "16 dvd unat p"
    using assms(1) by (auto simp: taken_one_def)
  then show ?thesis using assms(2,3) by (intro conjI exI [of _ n]) (auto simp: word_le_nat_alt)
qed

text \<open>
  The contract of an allocation of \<open>n\<close> bytes on the list: the first block that fits, if there is one, and else the first of
  the list after the heap has grown; nothing when it cannot grow.
\<close>

definition allocated :: "u64 \<Rightarrow> 'a heap_scheme \<Rightarrow> ablock list \<Rightarrow> u64 \<Rightarrow> 'a heap_scheme \<Rightarrow> ablock list \<Rightarrow> bool" where
  "allocated n s L p s' L' \<longleftrightarrow>
     (if \<exists>b\<in>set L. fits n b then first_fit n p L L' \<and> vmm.truncate s' = vmm.truncate s
      else if p = 0 then L' = L \<and> free_pages s' = {}
      else \<exists>L1. grown n (heap_mapped_limit s) (heap_mapped_limit s') L L1 \<and> first_fit n p L1 L')"

lemma kmalloc_rel:
  assumes rel: "heap_rel s L" and sz: "0 < sz" "unat sz + 64 \<le> 2 ^ 64"
  shows "\<exists>p s' L'. kmalloc sz s = Some (p, s') \<and> heap_rel s' L' \<and> heap.more s' = heap.more s \<and> allocated (align_up sz) s L p s' L' \<and>
    (if p = 0 then used_blocks L' = used_blocks L \<and> free_pages s' = {} else taken_one (align_up sz) p L L') \<and>
    (heap_mapped s \<longrightarrow> free_pages s' \<noteq> {} \<longrightarrow> heap_mapped s')"
proof -
  define n where "n = align_up sz"
  have n: "16 dvd unat n" "unat n < unat sz + 16" using align_up_spec(2,3) [of sz] sz by (simp_all add: n_def)
  have k: "kmalloc sz s = Option.bind (heap_search (hmem s) n (heap_head s)) (\<lambda>blk.
      if blk \<noteq> 0 then Some (heap_take blk n s) else
      Option.bind (heap_expand n s) (\<lambda>(ok, s).
      if \<not> ok then Some (0, s) else
      Option.bind (heap_search (hmem s) n (heap_head s)) (\<lambda>blk.
      if blk \<noteq> 0 then Some (heap_take blk n s) else Some (0, s))))"
    using sz(1) by (cases "sz = 0") (simp_all add: kmalloc_def n_def Let_def cong: if_cong)
  show ?thesis
  proof (cases "\<exists>b\<in>set L. fits n b")
    case True
    from heap_search_take [OF rel n(1) True] obtain blk p s' L' where
      "heap_search (hmem s) n (heap_head s) = Some blk" "blk \<noteq> 0" "heap_take blk n s = (p, s')"
      "heap_rel s' L'" "taken_one n p L L'" "only_blocks s s'" "first_fit n p L L'" by blast
    then show ?thesis using only_blocks_vm [of s s'] only_blocks_more [of s s'] only_blocks_fields [of s s'] True
      by (intro exI [of _ p] exI [of _ s'] exI [of _ L']) (simp add: k taken_one_def n_def [symmetric] allocated_def)
  next
    case False
    note nofit = False
    have vm: "heap_vm s" and at: "list_at s L (heap_mapped_limit s)"
      using rel list_at_limit [of s L] by (auto simp: heap_rel_def)
    have s0: "heap_search (hmem s) n (heap_head s) = Some 0" using heap_search_none [OF rel] False by blast
    obtain ok s1 L1 where e: "heap_expand n s = Some (ok, s1)" "heap_vm s1"
      "if ok then heap_list s1 L1 \<and> (\<exists>b\<in>set L1. fits n b) \<and> grown n (heap_mapped_limit s) (heap_mapped_limit s1) L L1
       else list_at s1 L (heap_mapped_limit s1) \<and> L1 = L \<and> free_pages s1 = {}"
      "used_blocks L1 = used_blocks L" "heap.more s1 = heap.more s"
      "heap_mapped s \<longrightarrow> free_pages s1 \<noteq> {} \<longrightarrow> heap_mapped s1"
      using heap_expand_spec [OF vm at, of n] n(2) sz(2) by auto
    show ?thesis
    proof (cases ok)
      case False
      then show ?thesis using e list_at_limit [OF e(2)] s0 nofit
        by (intro exI [of _ 0] exI [of _ s1] exI [of _ L]) (simp add: k heap_rel_def allocated_def n_def [symmetric])
    next
      case True
      then have rel1: "heap_rel s1 L1" and f: "\<exists>b\<in>set L1. fits n b" using e by (simp_all add: heap_rel_def)
      from heap_search_take [OF rel1 n(1) f] obtain blk p s' L' where
        "heap_search (hmem s1) n (heap_head s1) = Some blk" "blk \<noteq> 0" "heap_take blk n s1 = (p, s')"
        "heap_rel s' L'" "taken_one n p L1 L'" "only_blocks s1 s'" "first_fit n p L1 L'" by blast
      moreover from this have "allocated n s L p s' L'"
        using nofit e(3) True only_blocks_fields [of s1 s'] by (auto simp: allocated_def taken_one_def)
      ultimately show ?thesis using True e s0 only_blocks_vm [of s1 s'] only_blocks_more [of s1 s'] taken_one_used [OF e(4)]
        by (intro exI [of _ p] exI [of _ s'] exI [of _ L']) (simp add: k taken_one_def n_def [symmetric])
    qed
  qed
qed

lemma kfree_rel:
  assumes rel: "heap_rel s L" and p: "(p, n) \<in> used_blocks L"
  shows "\<exists>L'. heap_rel (kfree p s) L' \<and> used_blocks L' = used_blocks L - {(p, n)} \<and> only_blocks s (kfree p s) \<and>
    L' = coalesce (mark_free (p - 32) L)"
proof -
  obtain a where a: "p = a + 32" "(a, n, False) \<in> set L" using p by (auto simp: used_blocks_def)
  then obtain K M where L: "L = K @ (a, n, False) # M" by (auto dest: split_list)
  have hl: "heap_list s (K @ (a, n, False) # M)" using rel L by (simp add: heap_rel_def)
  have "used_blocks L - {(p, n)} = used_blocks (K @ M)"
    using heap_list_used_fresh [OF hl, of n] a(1) by (auto simp: L)
  moreover have "mark_free (p - 32) L = K @ (a, n, True) # M"
  proof -
    have "mark_free a K = K" "mark_free a M = M"
      using heap_list_facts(4,5) [OF hl] by (force simp: mark_free_def intro!: map_idI)+
    then show ?thesis by (simp add: L a(1) mark_free_def)
  qed
  ultimately show ?thesis using kfree_list [OF hl]
    using rel a(1) only_blocks_vm(1) [of s "kfree p s"] by (auto simp: heap_rel_def)
qed

lemma used_in_heap:
  assumes rel: "heap_rel s L" and p: "(p, n) \<in> used_blocks L"
  obtains a where "(a, n, False) \<in> set L" "p = a + 32" "unat p = unat a + 32"
    "blk_end (a, n, False) = unat p + unat n"
    "heap_start + 32 \<le> unat p" "unat p + unat n \<le> unat (heap_mapped_limit s)"
proof -
  obtain a where a: "p = a + 32" "(a, n, False) \<in> set L" using p by (auto simp: used_blocks_def)
  then obtain K M where "L = K @ (a, n, False) # M" by (auto dest: split_list)
  then have L: "heap_list s (K @ (a, n, False) # M)" using rel by (simp add: heap_rel_def)
  have "unat (a + 32) = unat a + 32" using heap_list_facts(7) [OF L]
    by (intro unat_add_no_wrap [of a 32, simplified]) (simp add: blk_end_def)
  moreover have "heap_start \<le> unat a \<and> blk_end (a, n, False) \<le> unat (heap_mapped_limit s)"
    using blocks_ok_bounds [of heap_start False L] rel a(2) by (fastforce simp: heap_rel_def heap_list_def)
  ultimately show thesis using a by (intro that [of a]) (simp_all add: blk_end_def)
qed

lemma used_disjoint:
  assumes rel: "heap_rel s L" and pq: "(p, n) \<in> used_blocks L" "(q, m) \<in> used_blocks L" "(p, n) \<noteq> (q, m)"
  shows "unat p + unat n \<le> unat q \<or> unat q + unat m \<le> unat p"
proof -
  obtain a where a: "(a, n, False) \<in> set L" "p = a + 32" "unat p = unat a + 32" "blk_end (a, n, False) = unat p + unat n"
    using used_in_heap [OF rel pq(1)] by blast
  obtain b where b: "(b, m, False) \<in> set L" "q = b + 32" "unat q = unat b + 32" "blk_end (b, m, False) = unat q + unat m"
    using used_in_heap [OF rel pq(2)] by blast
  have "blocks_ok heap_start False L (unat (heap_mapped_limit s))" using rel by (simp add: heap_rel_def heap_list_def)
  from blocks_disjoint [OF this a(1) b(1)] pq(3) a b show ?thesis by auto
qed

lemma used_in_range: "heap_rel s L \<Longrightarrow> (p, n) \<in> used_blocks L \<Longrightarrow> unat p + unat n < 2 ^ 64"
proof -
  assume "heap_rel s L" "(p, n) \<in> used_blocks L"
  then have "unat p + unat n \<le> unat (heap_mapped_limit s)" using used_in_heap by blast
  also have "\<dots> < 2 ^ 64" using unsigned_less [of "heap_mapped_limit s", where 'a = nat] by simp
  finally show ?thesis .
qed

lemma used_unique:
  assumes rel: "heap_rel s L" and "(p, n) \<in> used_blocks L" "(p, m) \<in> used_blocks L"
  shows "n = m"
proof -
  obtain a where a: "(a, n, False) \<in> set L" "(a, m, False) \<in> set L"
    using assms(2,3) by (auto simp: used_blocks_def)
  have "distinct (map fst L)" using rel blocks_ok_distinct by (auto simp: heap_rel_def heap_list_def)
  from eq_key_imp_eq_value [OF this a] show ?thesis by simp
qed

lemma heap_rel_cong:
  assumes "heap.truncate s' = heap.truncate s"
  shows "heap_rel s' L = heap_rel s L"
proof -
  have v: "vmm.truncate s' = vmm.truncate s" and l: "heap_mapped_limit s' = heap_mapped_limit s"
    and h: "heap_head s' = heap_head s" "heap_tail s' = heap_tail s" "hmem s' = hmem s"
    using assms by (simp_all add: heap.truncate_def vmm.truncate_def)
  show ?thesis by (simp add: heap_rel_def heap_vm_def heap_list_def vmm_cong [OF v] l h)
qed

section \<open>The interface of the heap\<close>

text \<open>
  What a client of the heap relies on: \<open>used\<close> is the set of allocated blocks (address and size) of
  the abstract heap a state is related to, and \<open>rest\<close> the part of the state the heap does not own.
\<close>

locale block_allocator =
  fixes alloc :: "u64 \<Rightarrow> 's \<Rightarrow> (u64 \<times> 's) option"
    and release :: "u64 \<Rightarrow> 's \<Rightarrow> 's"
    and rel :: "'s \<Rightarrow> 'l \<Rightarrow> bool"
    and used :: "'l \<Rightarrow> (u64 \<times> u64) set"
    and rest :: "'s \<Rightarrow> 'r"
  assumes alloc_ok: "rel s L \<Longrightarrow> 0 < sz \<Longrightarrow> unat sz + 64 \<le> 2 ^ 64 \<Longrightarrow>
      \<exists>p s' L'. alloc sz s = Some (p, s') \<and> rel s' L' \<and> rest s' = rest s \<and>
        (if p = 0 then used L' = used L
         else 16 dvd unat p \<and> (\<exists>n\<ge>sz. (p, n) \<notin> used L \<and> used L' = insert (p, n) (used L)))"
    and release_ok: "rel s L \<Longrightarrow> (p, n) \<in> used L \<Longrightarrow>
      \<exists>L'. rel (release p s) L' \<and> used L' = used L - {(p, n)} \<and> rest (release p s) = rest s"
    and disjoint: "rel s L \<Longrightarrow> (p, n) \<in> used L \<Longrightarrow> (q, m) \<in> used L \<Longrightarrow> (p, n) \<noteq> (q, m) \<Longrightarrow>
      unat p + unat n \<le> unat q \<or> unat q + unat m \<le> unat p"
    and in_range: "rel s L \<Longrightarrow> (p, n) \<in> used L \<Longrightarrow> unat p + unat n < 2 ^ 64"
    and unique: "rel s L \<Longrightarrow> (p, n) \<in> used L \<Longrightarrow> (p, m) \<in> used L \<Longrightarrow> n = m"
begin

text \<open>A block just allocated overlaps no block that was in use before.\<close>

lemma alloc_fresh:
  assumes "rel s L" "0 < sz" "unat sz + 64 \<le> 2 ^ 64" "alloc sz s = Some (p, s')" "p \<noteq> 0"
  shows "\<exists>n L'. sz \<le> n \<and> rel s' L' \<and> rest s' = rest s \<and> used L' = insert (p, n) (used L) \<and>
    (\<forall>(q, m)\<in>used L. unat p + unat n \<le> unat q \<or> unat q + unat m \<le> unat p)"
proof -
  obtain n L' where n: "sz \<le> n" "rel s' L'" "rest s' = rest s" "(p, n) \<notin> used L"
    "used L' = insert (p, n) (used L)"
    using alloc_ok [OF assms(1-3)] assms(4,5) by auto
  moreover have "unat p + unat n \<le> unat q \<or> unat q + unat m \<le> unat p" if "(q, m) \<in> used L" for q m
    using disjoint [OF n(2), of p n q m] n(4,5) that by auto
  ultimately show ?thesis by blast
qed

text \<open>Releasing what was just allocated restores the set of blocks in use.\<close>

lemma alloc_release:
  assumes "rel s L" "0 < sz" "unat sz + 64 \<le> 2 ^ 64" "alloc sz s = Some (p, s')" "p \<noteq> 0"
  shows "\<exists>L'. rel (release p s') L' \<and> used L' = used L \<and> rest (release p s') = rest s"
proof -
  obtain n L' where n: "rel s' L'" "rest s' = rest s" "(p, n) \<notin> used L" "used L' = insert (p, n) (used L)"
    using alloc_ok [OF assms(1-3)] assms(4,5) by auto
  with release_ok [OF n(1), of p n] show ?thesis by auto
qed

end

interpretation heap: block_allocator kmalloc kfree heap_rel used_blocks heap.more
proof
  fix s :: "'a heap_scheme" and L and sz :: u64
  assume rel: "heap_rel s L" and sz: "0 < sz" "unat sz + 64 \<le> 2 ^ 64"
  obtain p s' L' where k: "kmalloc sz s = Some (p, s')" "heap_rel s' L'" "heap.more s' = heap.more s"
    "if p = 0 then used_blocks L' = used_blocks L \<and> free_pages s' = {} else taken_one (align_up sz) p L L'"
    using kmalloc_rel [OF rel sz] by blast
  then show "\<exists>p s' L'. kmalloc sz s = Some (p, s') \<and> heap_rel s' L' \<and> heap.more s' = heap.more s \<and>
      (if p = 0 then used_blocks L' = used_blocks L
       else 16 dvd unat p \<and>
         (\<exists>n\<ge>sz. (p, n) \<notin> used_blocks L \<and> used_blocks L' = insert (p, n) (used_blocks L)))"
    using taken_one_le [of "align_up sz" p L L' sz] align_up_spec(1,2) [of sz] sz
    by (intro exI [of _ p] exI [of _ s'] exI [of _ L']) (auto split: if_splits)
next
  fix s :: "'a heap_scheme" and L p n
  assume "heap_rel s L" "(p, n) \<in> used_blocks L"
  from kfree_rel [OF this] show "\<exists>L'. heap_rel (kfree p s) L' \<and> used_blocks L' = used_blocks L - {(p, n)} \<and>
      heap.more (kfree p s) = heap.more s"
    using only_blocks_more by blast
qed (rule used_disjoint used_in_range used_unique; assumption)+

lemma heap_init_rel:
  assumes inv: "pt_inv s" and nh: "\<forall>v\<ge>HEAP_START_VIRT. no_huge s v"
  shows "\<exists>ok s' L. heap_init s = Some (ok, s') \<and> heap_rel s' L \<and> used_blocks L = {} \<and>
    heap.more s' = heap.more s \<and>
    (if ok then \<exists>b\<in>set L. fits 4096 b else free_pages s' = {}) \<and> (free_pages s' \<noteq> {} \<longrightarrow> heap_mapped s')"
proof -
  let ?s = "s\<lparr>heap_head := 0, heap_tail := 0, heap_mapped_limit := HEAP_START_VIRT\<rparr>"
  have tr: "vmm.truncate ?s = vmm.truncate s" by (simp add: vmm.truncate_def)
  have "card (free_pages s) \<le> 131072"
    using pt_invD(1) [OF inv] by (auto simp: pmm_inv_def pmm_count_def intro: card_free_pages)
  then have vm: "heap_vm ?s" using inv nh by (simp add: heap_vm_def vmm_cong [OF tr])
  have at: "list_at ?s [] (heap_mapped_limit ?s)" by (simp add: list_at_def)
  have hm: "heap_mapped ?s" unfolding heap_mapped_def by (auto dest: leD)
  obtain ok s' L where e: "heap_expand 4096 ?s = Some (ok, s')" "heap_vm s'"
      "if ok then heap_list s' L \<and> (\<exists>b\<in>set L. fits 4096 b) \<and> grown 4096 (heap_mapped_limit ?s) (heap_mapped_limit s') [] L
       else list_at s' [] (heap_mapped_limit s') \<and> L = [] \<and> free_pages s' = {}"
      "used_blocks L = used_blocks []" "heap.more s' = heap.more ?s"
      "heap_mapped ?s \<longrightarrow> free_pages s' \<noteq> {} \<longrightarrow> heap_mapped s'"
    using heap_expand_spec [OF vm at, of 4096] by auto
  then have "heap_rel s' L" using list_at_limit [OF e(2)] by (auto simp: heap_rel_def split: if_splits)
  with e hm show ?thesis
    by (intro exI [of _ ok] exI [of _ s'] exI [of _ L]) (auto simp: heap_init_def split: if_splits)
qed

text \<open>A heap of one page on the small machine.\<close>

definition small_heap :: heap where
  "small_heap = vmm.extend small_machine (heap.fields (HEAP_START_VIRT + 4096) HEAP_START_VIRT HEAP_START_VIRT
     (\<lambda>_. \<lparr>hb_magic = HEAP_MAGIC, hb_is_free = 1, hb_size = 4064, hb_next = 0, hb_prev = 0\<rparr>))"

lemma small_heap_vmm: "vmm.truncate small_heap = vmm.truncate small_machine"
  by (simp add: small_heap_def vmm.defs heap.defs)

lemma small_heap_rel: "heap_rel small_heap [(HEAP_START_VIRT, 4064, True)]"
proof -
  have c: "card (free_pages small_machine) \<le> 131072"
    using small_machine_inv by (auto simp: pmm_inv_def pmm_count_def intro: card_free_pages)
  have "heap_mapped_limit small_heap = 0xFFFFFFFF81001000" by (simp add: small_heap_def vmm.defs heap.defs)
  then have "heap_vm small_heap"
    using c small_machine_tables(1,2)
    by (simp add: heap_vm_def vmm_cong [OF small_heap_vmm])
  moreover have "heap_list small_heap [(HEAP_START_VIRT, 4064, True)]"
    by (simp add: heap_list_def small_heap_def vmm.defs heap.defs blk_end_def)
  ultimately show ?thesis by (simp add: heap_rel_def)
qed

section \<open>Correctness\<close>

text \<open>
  \<open>heap_init\<close> returns and leaves a well-formed heap with no block in use. When it reports success
  there is a free block of at least a page, and all memory of the heap is mapped unless the
  physical memory manager has run empty; when it fails, physical memory is exhausted.
\<close>

theorem heap_init_correct:
  assumes "pt_inv s" "\<forall>v\<ge>HEAP_START_VIRT. no_huge s v"
  shows "\<exists>ok s' L. heap_init s = Some (ok, s') \<and> heap_rel s' L \<and> used_blocks L = {} \<and>
    (if ok then \<exists>b\<in>set L. fits 4096 b else free_pages s' = {}) \<and> (free_pages s' \<noteq> {} \<longrightarrow> heap_mapped s')"
  using heap_init_rel [OF assms] by blast

theorem heap_init_correct_witness:
  "\<exists>ok s' L. heap_init small_heap = Some (ok, s') \<and> heap_rel s' L \<and> used_blocks L = {}"
proof -
  have "pt_inv small_heap" "\<forall>v\<ge>HEAP_START_VIRT. no_huge small_heap v"
    using small_machine_tables(1,2) by (simp_all add: vmm_cong [OF small_heap_vmm])
  from heap_init_correct [OF this] show ?thesis by blast
qed

lemma kmalloc_ok:
  assumes "heap_rel s L" "0 < sz" "unat sz + 64 \<le> 2 ^ 64"
  shows "\<exists>p s' L'. kmalloc sz s = Some (p, s') \<and> heap_rel s' L' \<and> allocated (align_up sz) s L p s' L' \<and>
    (if p = 0 then used_blocks L' = used_blocks L \<and> free_pages s' = {}
     else \<exists>n. sz \<le> n \<and> unat n < unat sz + 64 \<and> 16 dvd unat p \<and> used_blocks L' = insert (p, n) (used_blocks L) \<and>
       unat HEAP_START_VIRT < unat p \<and> unat p + unat n \<le> unat (heap_mapped_limit s') \<and>
       (\<forall>(q, m)\<in>used_blocks L. unat p + unat n \<le> unat q \<or> unat q + unat m \<le> unat p)) \<and>
    (heap_mapped s \<longrightarrow> free_pages s' \<noteq> {} \<longrightarrow> heap_mapped s')"
proof -
  obtain p s' L' where k: "kmalloc sz s = Some (p, s')" "heap_rel s' L'"
    "if p = 0 then used_blocks L' = used_blocks L \<and> free_pages s' = {} else taken_one (align_up sz) p L L'"
    "heap_mapped s \<longrightarrow> free_pages s' \<noteq> {} \<longrightarrow> heap_mapped s'" "allocated (align_up sz) s L p s' L'"
    using kmalloc_rel [OF assms] by blast
  show ?thesis
  proof (cases "p = 0")
    case True
    with k show ?thesis by auto
  next
    case False
    with k(3) obtain n where n: "sz \<le> n" "unat n < unat sz + 64" "16 dvd unat p" "(p, n) \<notin> used_blocks L"
      "used_blocks L' = insert (p, n) (used_blocks L)"
      using taken_one_le [of "align_up sz" p L L' sz] align_up_spec(1,2) [of sz] assms(3) by auto
    then have "heap_start + 32 \<le> unat p" "unat p + unat n \<le> unat (heap_mapped_limit s')"
      using used_in_heap [OF k(2), of p n] by (metis insertI1)+
    moreover have "\<forall>(q, m)\<in>used_blocks L. unat p + unat n \<le> unat q \<or> unat q + unat m \<le> unat p"
      using used_disjoint [OF k(2), of p n] n(4,5) by fastforce
    ultimately show ?thesis using False k n by (intro exI [of _ p] exI [of _ s'] exI [of _ L']) auto
  qed
qed

text \<open>
  C7. \<open>kmalloc\<close> returns, and keeps the heap well formed. The block it takes is the first free one in the list of blocks that is large
  enough for the rounded request; it is split when the rest has room for a header and 16 bytes, and the rest stays free in its
  place. If there is none, the heap first grows at its end by the pages that the request takes, the last
  block growing if it is free. A nonzero result is the 16-byte aligned
  address of a block of at least the requested size that lies in the heap, overlaps no block in
  use, and joins the blocks in use, which are otherwise unchanged; less than 64 bytes more than
  requested are used up. A zero result leaves the blocks as they were, and only happens when the
  physical memory manager is empty. All memory of the heap stays mapped unless it is.
\<close>

theorem kmalloc_correct:
  assumes "heap_rel s L" "0 < sz" "unat sz + 64 \<le> 2 ^ 64"
  shows "\<exists>p s' L'. kmalloc sz s = Some (p, s') \<and> heap_rel s' L' \<and> allocated (align_up sz) s L p s' L' \<and>
    (if p = 0 then used_blocks L' = used_blocks L \<and> free_pages s' = {}
     else \<exists>n. sz \<le> n \<and> unat n < unat sz + 64 \<and> 16 dvd unat p \<and> used_blocks L' = insert (p, n) (used_blocks L) \<and>
       unat HEAP_START_VIRT < unat p \<and> unat p + unat n \<le> unat (heap_mapped_limit s') \<and>
       (\<forall>(q, m)\<in>used_blocks L. unat p + unat n \<le> unat q \<or> unat q + unat m \<le> unat p)) \<and>
    (heap_mapped s \<longrightarrow> free_pages s' \<noteq> {} \<longrightarrow> heap_mapped s')"
  by (rule kmalloc_ok [OF assms])

theorem kmalloc_correct_witness:
  "\<exists>s' L'. kmalloc 100 small_heap = Some (0xFFFFFFFF81000020, s') \<and> heap_rel s' L' \<and>
     L' = [(HEAP_START_VIRT, 112, False), (0xFFFFFFFF81000090, 3920, True)]"
proof -
  have "(0 :: u64) < 100" "unat (100 :: u64) + 64 \<le> 2 ^ 64" by simp_all
  from kmalloc_correct [OF small_heap_rel this] obtain p s' L' where
    k: "kmalloc 100 small_heap = Some (p, s')" "heap_rel s' L'"
    "allocated (align_up 100) small_heap [(HEAP_START_VIRT, 4064, True)] p s' L'" by blast
  have a: "align_up 100 = (112 :: u64)" by (simp add: align_up_def)
  from k(3) have "first_fit 112 p [(HEAP_START_VIRT, 4064, True)] L'" by (simp add: allocated_def a fits_def)
  then obtain K x n M where f: "[(HEAP_START_VIRT, 4064, True)] = K @ (x, n, True) # M" "p = x + 32" "L' = K @ taken x n 112 @ M"
    by (auto simp: first_fit_def)
  from f(1) have "K = []" "x = HEAP_START_VIRT" "n = 4064" "M = []" by (cases K; simp)+
  with f(2,3) k(1,2) show ?thesis by (simp add: taken_def)
qed

text \<open>
  C8. \<open>kfree\<close> of a block in use marks exactly that block free and joins it with its free neighbours: the list of blocks
  afterwards is the one before with the block free and all free blocks that touch joined, headers included, so no
  byte is lost. The blocks in use are otherwise the same, and the heap is well formed. The physical memory manager and the page tables are not touched.
\<close>

theorem kfree_correct:
  assumes "heap_rel s L" "(p, n) \<in> used_blocks L"
  shows "\<exists>L'. heap_rel (kfree p s) L' \<and> L' = coalesce (mark_free (p - 32) L) \<and> used_blocks L' = used_blocks L - {(p, n)} \<and>
    vmm.truncate (kfree p s) = vmm.truncate s"
  using kfree_rel [OF assms] only_blocks_fields by blast

theorem kfree_correct_witness:
  "\<exists>s. heap_rel (s :: heap) [(HEAP_START_VIRT, 112, False), (0xFFFFFFFF81000090, 3920, True)] \<and>
     heap_rel (kfree 0xFFFFFFFF81000020 s) [(HEAP_START_VIRT, 4064, True)]"
proof -
  let ?L = "[(HEAP_START_VIRT, 112, False), (0xFFFFFFFF81000090, 3920, True)]"
  obtain p s where t: "heap_take HEAP_START_VIRT 112 small_heap = (p, s)"
    using prod.exhaust by metis
  have "heap_list small_heap ([] @ (HEAP_START_VIRT, 4064, True) # [])"
    using small_heap_rel by (simp add: heap_rel_def)
  from heap_take_list [OF this, of 112] t have s: "heap_list s ?L" "only_blocks small_heap s"
    by (simp_all add: taken_def)
  then have r: "heap_rel s ?L"
    using small_heap_rel only_blocks_vm(1) [of small_heap s] by (simp add: heap_rel_def)
  have "(0xFFFFFFFF81000020, 112) \<in> used_blocks ?L" by simp
  from kfree_correct [OF r this] have "heap_rel (kfree 0xFFFFFFFF81000020 s) (coalesce (mark_free HEAP_START_VIRT ?L))" by auto
  moreover have "coalesce (mark_free HEAP_START_VIRT ?L) = [(HEAP_START_VIRT, 4064, True)]" by (simp add: mark_free_def)
  ultimately have "heap_rel (kfree 0xFFFFFFFF81000020 s) [(HEAP_START_VIRT, 4064, True)]" by simp
  with r show ?thesis by blast
qed

text \<open>
  C9. A request within 15 bytes of \<open>SIZE_MAX\<close> wraps around in \<open>align_up\<close> to a request for nothing: if
  there is any free block, \<open>kmalloc\<close> reports success with a block of less than 48 bytes.
\<close>

theorem kmalloc_size_wrap:
  assumes "heap_rel s L" "2 ^ 64 - 16 < unat sz" "\<exists>b\<in>set L. snd (snd b)"
  shows "\<exists>p s' L' n. kmalloc sz s = Some (p, s') \<and> p \<noteq> 0 \<and> heap_rel s' L' \<and>
    (p, n) \<in> used_blocks L' \<and> unat n < 48"
proof -
  have m: "unat (sz mod 16) = unat sz mod 16" by (simp add: unat_mod)
  have lt: "unat sz < 2 ^ 64" using unsigned_less [of sz, where 'a = nat] by simp
  define k where "k = 2 ^ 64 - unat sz"
  have k: "0 < k" "k < 16" "unat sz = 2 ^ 64 - k" using assms(2) lt by (auto simp: k_def)
  have "unat sz = 16 * (2 ^ 60 - 1) + (16 - k)" using k by simp
  then have mm: "unat sz mod 16 = 16 - k" using k by (simp only: mod_mult_self4) simp
  have "16 - sz mod 16 = of_nat k"
  proof (rule word_unat_eq_iff [THEN iffD2])
    have "sz mod 16 \<le> 16" using m mm by (simp add: word_le_nat_alt)
    then show "unat (16 - sz mod 16) = unat (of_nat k :: u64)"
      using m mm k by (simp add: unat_sub_no_wrap unat_of_nat)
  qed
  moreover have "sz + of_nat k = 0"
  proof (rule word_unat_eq_iff [THEN iffD2])
    have "unat sz + k = 2 ^ 64" using k by simp
    then show "unat (sz + of_nat k) = unat (0 :: u64)" using k(2) by (simp add: unat_word_ariths unat_of_nat)
  qed
  moreover have "sz mod 16 \<noteq> 0" using m mm k by (metis diff_is_0_eq leD unat_0)
  ultimately have a: "align_up sz = 0" by (simp add: align_up_def)
  have "\<exists>b\<in>set L. fits 0 b" using assms(3) by (auto simp: fits_def)
  from heap_search_take [OF assms(1) _ this] obtain blk p s' L' where
    t: "heap_search (hmem s) 0 (heap_head s) = Some blk" "blk \<noteq> 0" "heap_take blk 0 s = (p, s')"
    "heap_rel s' L'" "taken_one 0 p L L'" by auto
  moreover have "sz \<noteq> 0" using k(2,3) by auto
  ultimately have "kmalloc sz s = Some (p, s')" by (simp add: kmalloc_def a)
  then show ?thesis using t(4,5) unfolding taken_one_def by auto
qed

theorem kmalloc_size_wrap_witness:
  "\<exists>p s' L' n. kmalloc 0xFFFFFFFFFFFFFFFF small_heap = Some (p, s') \<and> p \<noteq> 0 \<and> heap_rel s' L' \<and>
    (p, n) \<in> used_blocks L' \<and> unat n < 48"
  using kmalloc_size_wrap [OF small_heap_rel, of "0xFFFFFFFFFFFFFFFF"] by simp

end
