(* ===== verification/Process.thy ===== *)
theory Process
  imports Heap
begin

text \<open>
  Processes and the scheduler, \<^verbatim>\<open>kernel/process.c\<close>: a table of 64 process control blocks, creation
  with a stack from the kernel heap, round-robin switching from the timer interrupt with deferred
  release of the stacks of dead processes, and release of the pages a process owns when it exits.
\<close>

section \<open>State and operations\<close>

abbreviation (input) MAX_PROCESSES :: nat where "MAX_PROCESSES \<equiv> 64"
abbreviation (input) MAX_ALLOCATIONS_PER_PROC :: nat where "MAX_ALLOCATIONS_PER_PROC \<equiv> 128"
abbreviation (input) PROC_STACK_SIZE :: u64 where "PROC_STACK_SIZE \<equiv> 16384"

datatype process_state = PROC_STATE_DEAD | PROC_STATE_READY | PROC_STATE_RUNNING | PROC_STATE_SLEEPING

record cpu_state =
  reg_r15 :: u64
  reg_r14 :: u64
  reg_r13 :: u64
  reg_r12 :: u64
  reg_r11 :: u64
  reg_r10 :: u64
  reg_r9 :: u64
  reg_r8 :: u64
  reg_rbp :: u64
  reg_rdi :: u64
  reg_rsi :: u64
  reg_rdx :: u64
  reg_rcx :: u64
  reg_rbx :: u64
  reg_rax :: u64
  reg_int_no :: u64
  reg_err_code :: u64
  reg_rip :: u64
  reg_cs :: u64
  reg_rflags :: u64
  reg_rsp :: u64
  reg_ss :: u64

record process =
  p_pid :: u32
  p_state :: process_state
  p_context :: cpu_state
  p_page_directory :: u64
  p_kernel_stack :: u64
  p_stack_base :: u64
  p_allocations :: "u64 list"
  p_alloc_count :: nat

text \<open>\<open>current_process_index\<close> is -1 before \<open>process_init\<close>.\<close>

record procs = heap +
  processes :: "process list"
  current_process_index :: int
  next_pid :: u32
  kernel_cs :: u64
  kernel_ss :: u64

definition zero_cpu_state :: cpu_state where
  "zero_cpu_state = \<lparr>reg_r15 = 0, reg_r14 = 0, reg_r13 = 0, reg_r12 = 0, reg_r11 = 0, reg_r10 = 0,
     reg_r9 = 0, reg_r8 = 0, reg_rbp = 0, reg_rdi = 0, reg_rsi = 0, reg_rdx = 0, reg_rcx = 0,
     reg_rbx = 0, reg_rax = 0, reg_int_no = 0, reg_err_code = 0, reg_rip = 0, reg_cs = 0,
     reg_rflags = 0, reg_rsp = 0, reg_ss = 0\<rparr>"

definition zero_process :: process where
  "zero_process = \<lparr>p_pid = 0, p_state = PROC_STATE_DEAD, p_context = zero_cpu_state,
     p_page_directory = 0, p_kernel_stack = 0, p_stack_base = 0,
     p_allocations = replicate MAX_ALLOCATIONS_PER_PROC 0, p_alloc_count = 0\<rparr>"

definition upd_proc :: "nat \<Rightarrow> (process \<Rightarrow> process) \<Rightarrow> 'a procs_scheme \<Rightarrow> 'a procs_scheme" where
  "upd_proc i f s = s\<lparr>processes := (processes s)[i := f (processes s ! i)]\<rparr>"

definition process_init :: "u16 \<Rightarrow> u16 \<Rightarrow> 'a procs_scheme \<Rightarrow> 'a procs_scheme" where
  "process_init cs ss s =
     (let s = s\<lparr>processes := replicate MAX_PROCESSES zero_process, kernel_cs := ucast cs, kernel_ss := ucast ss\<rparr>
      in (upd_proc 0 (\<lambda>p. p\<lparr>p_pid := 0, p_state := PROC_STATE_RUNNING, p_alloc_count := 0\<rparr>) s)
           \<lparr>current_process_index := 0\<rparr>)"

text \<open>The body of \<open>process_create\<close>'s loop for the first dead slot \<open>i\<close>, in the order of the code.\<close>

definition process_reserve :: "nat \<Rightarrow> 'a procs_scheme \<Rightarrow> 'a procs_scheme" where
  "process_reserve i s =
     upd_proc i (\<lambda>p. p\<lparr>p_pid := next_pid s, p_state := PROC_STATE_SLEEPING, p_alloc_count := 0\<rparr>)
       (s\<lparr>next_pid := next_pid s + 1\<rparr>)"

definition process_fill :: "nat \<Rightarrow> u64 \<Rightarrow> u64 \<Rightarrow> 'a procs_scheme \<Rightarrow> 'a procs_scheme" where
  "process_fill i entry_point new_stack s =
     upd_proc i (\<lambda>p.
       let top = (new_stack + PROC_STACK_SIZE) AND NOT 0xF in
       p\<lparr>p_stack_base := new_stack, p_kernel_stack := top,
         p_context := zero_cpu_state\<lparr>reg_rip := entry_point, reg_rsp := top, reg_cs := kernel_cs s,
                                     reg_ss := kernel_ss s, reg_rflags := 0x202\<rparr>\<rparr>) s"

definition process_set_state :: "nat \<Rightarrow> process_state \<Rightarrow> 'a procs_scheme \<Rightarrow> 'a procs_scheme" where
  "process_set_state i st s = upd_proc i (\<lambda>p. p\<lparr>p_state := st\<rparr>) s"

definition process_create_at :: "nat \<Rightarrow> u64 \<Rightarrow> 'a procs_scheme \<Rightarrow> (u32 \<times> 'a procs_scheme) option" where
  "process_create_at i entry_point s =
     Option.bind (kmalloc PROC_STACK_SIZE (process_reserve i s)) (\<lambda>(new_stack, s).
     if new_stack = 0 then Some (0, process_set_state i PROC_STATE_DEAD s)
     else let s = process_set_state i PROC_STATE_READY (process_fill i entry_point new_stack s)
          in Some (p_pid (processes s ! i), s))"

function process_create_from :: "nat \<Rightarrow> u64 \<Rightarrow> 'a procs_scheme \<Rightarrow> (u32 \<times> 'a procs_scheme) option" where
  "process_create_from i entry_point s =
     (if i < MAX_PROCESSES then
        if p_state (processes s ! i) = PROC_STATE_DEAD then process_create_at i entry_point s
        else process_create_from (i + 1) entry_point s
      else Some (0, s))"
  by pat_completeness auto
termination
  by (relation "measure (\<lambda>(i, e, s). 64 - i)") auto

definition process_create :: "u64 \<Rightarrow> 'a procs_scheme \<Rightarrow> (u32 \<times> 'a procs_scheme) option" where
  "process_create entry_point s = process_create_from 1 entry_point s"

text \<open>\<open>process_schedule\<close>: the search takes at most 64 steps; the result is the slot, if any.\<close>

primrec find_ready :: "nat \<Rightarrow> nat \<Rightarrow> process list \<Rightarrow> nat option" where
  "find_ready 0 next_index ps = None"
| "find_ready (Suc n) next_index ps =
     (if p_state (ps ! next_index) = PROC_STATE_READY then Some next_index
      else find_ready n ((next_index + 1) mod MAX_PROCESSES) ps)"

function reap_from :: "nat \<Rightarrow> 'a procs_scheme \<Rightarrow> 'a procs_scheme" where
  "reap_from i s =
     (if i < MAX_PROCESSES then
        reap_from (i + 1)
          (if int i \<noteq> current_process_index s \<and> p_state (processes s ! i) = PROC_STATE_DEAD \<and>
              p_stack_base (processes s ! i) \<noteq> 0
           then upd_proc i (\<lambda>p. p\<lparr>p_stack_base := 0, p_kernel_stack := 0\<rparr>)
                  (kfree (p_stack_base (processes s ! i)) s)
           else s)
      else s)"
  by pat_completeness auto
termination
  by (relation "measure (\<lambda>(i, s). 64 - i)") auto

definition process_save :: "cpu_state \<Rightarrow> 'a procs_scheme \<Rightarrow> 'a procs_scheme" where
  "process_save ctx s =
     upd_proc (nat (current_process_index s)) (\<lambda>p.
       let p = p\<lparr>p_context := ctx\<rparr> in
       if p_state p = PROC_STATE_RUNNING then p\<lparr>p_state := PROC_STATE_READY\<rparr> else p) s"

definition process_switch :: "nat \<Rightarrow> 'a procs_scheme \<Rightarrow> 'a procs_scheme" where
  "process_switch i s =
     process_set_state i PROC_STATE_RUNNING (s\<lparr>current_process_index := int i\<rparr>)"

definition process_schedule :: "cpu_state \<Rightarrow> 'a procs_scheme \<Rightarrow> cpu_state \<times> 'a procs_scheme" where
  "process_schedule ctx s =
     (if current_process_index s = -1 then (ctx, s) else
      let s = process_save ctx s;
          next_index = (case find_ready MAX_PROCESSES
                          ((nat (current_process_index s) + 1) mod MAX_PROCESSES) (processes s)
                        of None \<Rightarrow> 0 | Some i \<Rightarrow> i);
          s = process_switch next_index s
      in (p_context (processes s ! next_index), reap_from 1 s))"

definition process_count_alive :: "'a procs_scheme \<Rightarrow> nat" where
  "process_count_alive s = length (filter (\<lambda>p. p_state p \<noteq> PROC_STATE_DEAD) (processes s))"

definition process_get_current_pid :: "'a procs_scheme \<Rightarrow> u32" where
  "process_get_current_pid s =
     (if current_process_index s = -1 then 0 else p_pid (processes s ! nat (current_process_index s)))"

text \<open>The slot of the live process \<open>pid\<close>, searched by both \<open>process_track_allocation\<close> and \<open>process_exit\<close>.\<close>

function find_pid :: "nat \<Rightarrow> u32 \<Rightarrow> process list \<Rightarrow> nat option" where
  "find_pid i pid ps =
     (if i < MAX_PROCESSES then
        if p_pid (ps ! i) = pid \<and> p_state (ps ! i) \<noteq> PROC_STATE_DEAD then Some i
        else find_pid (i + 1) pid ps
      else None)"
  by pat_completeness auto
termination
  by (relation "measure (\<lambda>(i, pid, ps). 64 - i)") auto

definition process_track_allocation :: "u32 \<Rightarrow> u64 \<Rightarrow> 'a procs_scheme \<Rightarrow> 'a procs_scheme" where
  "process_track_allocation pid phys_addr s =
     (case find_pid 0 pid (processes s) of None \<Rightarrow> s
      | Some i \<Rightarrow>
          if p_alloc_count (processes s ! i) < MAX_ALLOCATIONS_PER_PROC then
            upd_proc i (\<lambda>p. p\<lparr>p_allocations := (p_allocations p)[p_alloc_count p := phys_addr],
                              p_alloc_count := p_alloc_count p + 1\<rparr>) s
          else s)"

fun free_pages_of :: "u64 list \<Rightarrow> 'a pmm_scheme \<Rightarrow> 'a pmm_scheme option" where
  "free_pages_of [] s = Some s"
| "free_pages_of (a # as) s = Option.bind (pmm_free_page a s) (free_pages_of as)"

text \<open>
  \<open>process_exit\<close> returns, unless the process ends itself: then it waits for the scheduler with
  interrupts enabled and never continues.
\<close>

datatype exit_outcome = Exit_returns | Exit_waits

definition process_exit :: "u32 \<Rightarrow> 'a procs_scheme \<Rightarrow> (exit_outcome \<times> 'a procs_scheme) option" where
  "process_exit pid s =
     (case find_pid 0 pid (processes s) of None \<Rightarrow> Some (Exit_returns, s)
      | Some i \<Rightarrow>
          Option.bind (free_pages_of (take (p_alloc_count (processes s ! i)) (p_allocations (processes s ! i))) s)
            (\<lambda>s. let s = upd_proc i (\<lambda>p. p\<lparr>p_alloc_count := 0, p_state := PROC_STATE_DEAD\<rparr>) s
                 in Some (if current_process_index s = int i then Exit_waits else Exit_returns, s)))"

declare process_create_from.simps [simp del] reap_from.simps [simp del] find_pid.simps [simp del]

section \<open>The process table\<close>

abbreviation (input) state_of :: "'a procs_scheme \<Rightarrow> nat \<Rightarrow> process_state" where
  "state_of s i \<equiv> p_state (processes s ! i)"

definition proc_ok :: "'a procs_scheme \<Rightarrow> bool" where
  "proc_ok s \<longleftrightarrow> length (processes s) = 64 \<and> 0 \<le> current_process_index s \<and> current_process_index s < 64 \<and>
     (\<forall>i<64. state_of s i = PROC_STATE_RUNNING \<longrightarrow> int i = current_process_index s) \<and>
     (\<forall>i<64. length (p_allocations (processes s ! i)) = 128 \<and> p_alloc_count (processes s ! i) \<le> 128)"

abbreviation (input) cur :: "'a procs_scheme \<Rightarrow> nat" where
  "cur s \<equiv> nat (current_process_index s)"

lemma proc_okD:
  assumes "proc_ok s"
  shows "length (processes s) = 64" "cur s < 64" "current_process_index s = int (cur s)"
    "i < 64 \<Longrightarrow> state_of s i = PROC_STATE_RUNNING \<Longrightarrow> i = cur s"
  using assms by (auto simp: proc_ok_def)

lemma find_ready_Some:
  "find_ready n k ps = Some j \<Longrightarrow> k < 64 \<Longrightarrow>
   \<exists>d<n. j = (k + d) mod 64 \<and> p_state (ps ! j) = PROC_STATE_READY \<and>
     (\<forall>e<d. p_state (ps ! ((k + e) mod 64)) \<noteq> PROC_STATE_READY)"
proof (induction n arbitrary: k)
  case (Suc n)
  show ?case
  proof (cases "p_state (ps ! k) = PROC_STATE_READY")
    case True
    then show ?thesis using Suc.prems by (intro exI [of _ 0]) simp
  next
    case False
    then obtain d where d: "d < n" "j = ((k + 1) mod 64 + d) mod 64" "p_state (ps ! j) = PROC_STATE_READY"
      "\<forall>e<d. p_state (ps ! (((k + 1) mod 64 + e) mod 64)) \<noteq> PROC_STATE_READY"
      using Suc.IH [of "(k + 1) mod 64"] Suc.prems by auto
    have "p_state (ps ! ((k + e) mod 64)) \<noteq> PROC_STATE_READY" if "e < Suc d" for e
      using d(4) False that Suc.prems(2) by (cases e) (auto simp: mod_simps)
    then show ?thesis using d by (intro exI [of _ "Suc d"]) (simp add: mod_simps)
  qed
qed simp

lemma find_ready_None:
  "find_ready n k ps = None \<Longrightarrow> k < 64 \<Longrightarrow> d < n \<Longrightarrow> p_state (ps ! ((k + d) mod 64)) \<noteq> PROC_STATE_READY"
proof (induction n arbitrary: k d)
  case (Suc n)
  then have k: "p_state (ps ! k) \<noteq> PROC_STATE_READY" "find_ready n ((k + 1) mod 64) ps = None"
    by (auto split: if_splits)
  show ?case
  proof (cases d)
    case 0
    then show ?thesis using k(1) Suc.prems(2) by simp
  next
    case (Suc e)
    then show ?thesis using Suc.IH [OF k(2), of e] Suc.prems by (simp add: mod_simps)
  qed
qed simp

lemma mod_64_reach: "i < 64 \<Longrightarrow> \<exists>d<64. (k + d) mod 64 = i" for k i :: nat
proof -
  assume i: "i < 64"
  have "(k + (i + 63 * k) mod 64) mod 64 = (i + 64 * k) mod 64" by (simp add: mod_simps)
  with i show ?thesis by (intro exI [of _ "(i + 63 * k) mod 64"]) simp
qed

section \<open>The parts of a switch\<close>

lemma only_blocks_kfree: "only_blocks s (kfree p s)"
  by (simp add: kfree_def kfree_merge_prev_def kfree_merge_next_def Let_def)

lemma procs_fields_cong:
  assumes "heap.more s' = heap.more s"
  shows "processes s' = processes s" "current_process_index s' = current_process_index s"
    "next_pid s' = next_pid s" "kernel_cs s' = kernel_cs s" "kernel_ss s' = kernel_ss s"
  using assms by (cases s; cases s'; simp)+

lemma kfree_procs [simp]:
  "processes (kfree p s) = processes s" "current_process_index (kfree p s) = current_process_index s"
  by (simp_all add: procs_fields_cong [OF only_blocks_more [OF only_blocks_kfree]])

lemma upd_proc_simps [simp]:
  "current_process_index (upd_proc i f s) = current_process_index s"
  "processes (upd_proc i f s) = (processes s)[i := f (processes s ! i)]"
  "heap.truncate (upd_proc i f s) = heap.truncate s"
  by (simp_all add: upd_proc_def heap.truncate_def)

text \<open>Reaping changes the stack fields of dead processes and nothing else in the table.\<close>

definition reaped :: "'a procs_scheme \<Rightarrow> nat \<Rightarrow> nat \<Rightarrow> bool" where
  "reaped s i j \<longleftrightarrow> i \<le> j \<and> j < 64 \<and> int j \<noteq> current_process_index s \<and> state_of s j = PROC_STATE_DEAD \<and>
     p_stack_base (processes s ! j) \<noteq> 0"

lemma reap_from_table:
  assumes "length (processes s) = 64"
  shows "current_process_index (reap_from i s) = current_process_index s \<and>
    processes (reap_from i s) = map (\<lambda>j. if reaped s i j
      then (processes s ! j)\<lparr>p_stack_base := 0, p_kernel_stack := 0\<rparr> else processes s ! j) [0..<64]"
  using assms
proof (induction i s rule: reap_from.induct)
  case (1 i s)
  show ?case
  proof (cases "i < 64")
    case False
    then show ?thesis using "1.prems"
      by (auto simp: reap_from.simps [of i s] reaped_def intro!: nth_equalityI)
  next
    case True
    let ?s = "if int i \<noteq> current_process_index s \<and> p_state (processes s ! i) = PROC_STATE_DEAD \<and>
              p_stack_base (processes s ! i) \<noteq> 0
           then upd_proc i (\<lambda>p. p\<lparr>p_stack_base := 0, p_kernel_stack := 0\<rparr>)
                  (kfree (p_stack_base (processes s ! i)) s)
           else s"
    have len: "length (processes ?s) = 64" using "1.prems" by simp
    have c: "current_process_index ?s = current_process_index s" by simp
    have r: "reap_from i s = reap_from (i + 1) ?s" using True by (simp only: reap_from.simps [of i s] if_True)
    have "(if reaped ?s (i + 1) j then (processes ?s ! j)\<lparr>p_stack_base := 0, p_kernel_stack := 0\<rparr> else processes ?s ! j) =
       (if reaped s i j then (processes s ! j)\<lparr>p_stack_base := 0, p_kernel_stack := 0\<rparr> else processes s ! j)"
      if "j < 64" for j
      using that "1.prems" True by (cases "j = i") (auto simp: reaped_def nth_list_update)
    with "1.IH" [OF True len] show ?thesis unfolding r c by (simp cong: map_cong)
  qed
qed

lemma mod_64_inj: "(a + e) mod 64 = (a + d) mod 64 \<Longrightarrow> e < 64 \<Longrightarrow> d < 64 \<Longrightarrow> e = d" for a d e :: nat
proof -
  assume eq: "(a + e) mod 64 = (a + d) mod 64" and lt: "e < 64" "d < 64"
  have "(63 * a + (a + e)) mod 64 = (63 * a + (a + d)) mod 64" using eq by (rule mod_add_cong [OF refl])
  moreover have "63 * a + (a + x) = x + 64 * a" for x by simp
  ultimately show "e = d" using lt by simp
qed

definition saved_state :: "'a procs_scheme \<Rightarrow> nat \<Rightarrow> process_state" where
  "saved_state s i = (if state_of s i = PROC_STATE_RUNNING then PROC_STATE_READY else state_of s i)"

text \<open>The slot the round robin chooses: the first ready one after the current one, else slot 0.\<close>

definition round_robin :: "'a procs_scheme \<Rightarrow> nat \<Rightarrow> bool" where
  "round_robin s k \<longleftrightarrow>
     (\<exists>d<64. k = (cur s + 1 + d) mod 64 \<and> saved_state s k = PROC_STATE_READY \<and>
        (\<forall>e<d. saved_state s ((cur s + 1 + e) mod 64) \<noteq> PROC_STATE_READY)) \<or>
     k = 0 \<and> (\<forall>i<64. saved_state s i \<noteq> PROC_STATE_READY)"

lemma process_save_nth:
  assumes "proc_ok s" "i < 64"
  shows "processes (process_save ctx s) ! i = (if i = cur s
    then (processes s ! i)\<lparr>p_context := ctx, p_state := saved_state s i\<rparr> else processes s ! i)"
  using proc_okD(1,2) [OF assms(1)] assms(2)
  by (simp add: process_save_def saved_state_def nth_list_update Let_def)

lemma process_save_table:
  assumes ok: "proc_ok s"
  shows "length (processes (process_save ctx s)) = 64"
    "current_process_index (process_save ctx s) = current_process_index s"
    "i < 64 \<Longrightarrow> state_of (process_save ctx s) i = saved_state s i"
    "i < 64 \<Longrightarrow> p_context (processes (process_save ctx s) ! i) = (if i = cur s then ctx else p_context (processes s ! i))"
    "i < 64 \<Longrightarrow> p_stack_base (processes (process_save ctx s) ! i) = p_stack_base (processes s ! i)"
    "i < 64 \<Longrightarrow> p_allocations (processes (process_save ctx s) ! i) = p_allocations (processes s ! i)"
    "i < 64 \<Longrightarrow> p_alloc_count (processes (process_save ctx s) ! i) = p_alloc_count (processes s ! i)"
    "i < 64 \<Longrightarrow> p_pid (processes (process_save ctx s) ! i) = p_pid (processes s ! i)"
proof -
  show "state_of (process_save ctx s) i = saved_state s i" if "i < 64"
    using proc_okD(4) [OF ok that] process_save_nth [OF ok that] by (auto simp: saved_state_def)
qed (use proc_okD(1) [OF ok] process_save_nth [OF ok, of i ctx] in \<open>simp_all add: process_save_def\<close>)

definition schedule_choice :: "cpu_state \<Rightarrow> 'a procs_scheme \<Rightarrow> nat" where
  "schedule_choice ctx s = (case find_ready 64 ((cur s + 1) mod 64) (processes (process_save ctx s))
     of None \<Rightarrow> 0 | Some i \<Rightarrow> i)"

lemma schedule_choice:
  assumes ok: "proc_ok s"
  shows "round_robin s (schedule_choice ctx s)" "schedule_choice ctx s < 64"
proof -
  let ?k = "(cur s + 1) mod 64" and ?P = "processes (process_save ctx s)"
  have k: "?k < 64" by simp
  have st: "p_state (?P ! (i mod 64)) = saved_state s (i mod 64)" for i
    using process_save_table(3) [OF ok] by simp
  have "round_robin s (schedule_choice ctx s) \<and> schedule_choice ctx s < 64"
  proof (cases "find_ready 64 ?k ?P")
    case None
    have "saved_state s i \<noteq> PROC_STATE_READY" if "i < 64" for i
    proof -
      obtain d where d: "d < 64" "(?k + d) mod 64 = i" using mod_64_reach [OF \<open>i < 64\<close>] by blast
      then show ?thesis using find_ready_None [OF None k, of d] st [of "?k + d"] by simp
    qed
    then show ?thesis using None by (simp add: schedule_choice_def round_robin_def)
  next
    case (Some j)
    then obtain d where "d < 64" "j = (?k + d) mod 64" "p_state (?P ! j) = PROC_STATE_READY"
      "\<forall>e<d. p_state (?P ! ((?k + e) mod 64)) \<noteq> PROC_STATE_READY"
      using find_ready_Some [OF Some k] by blast
    then show ?thesis using Some st unfolding schedule_choice_def round_robin_def
      by (intro conjI disjI1 exI [of _ d]) (auto simp: mod_simps)
  qed
  then show "round_robin s (schedule_choice ctx s)" "schedule_choice ctx s < 64" by blast+
qed

lemma process_schedule_eq:
  assumes "proc_ok s"
  shows "process_schedule ctx s = (let k = schedule_choice ctx s; s1 = process_switch k (process_save ctx s) in
    (p_context (processes s1 ! k), reap_from 1 s1))"
proof -
  have "current_process_index s \<noteq> -1" using assms by (auto simp: proc_ok_def)
  then show ?thesis
    using process_save_table(2) [OF assms] by (simp add: process_schedule_def schedule_choice_def Let_def)
qed

lemma process_switch_table:
  assumes "length (processes s) = 64" "k < 64"
  shows "length (processes (process_switch k s)) = 64" "current_process_index (process_switch k s) = int k"
    "i < 64 \<Longrightarrow> processes (process_switch k s) ! i =
       (if i = k then (processes s ! i)\<lparr>p_state := PROC_STATE_RUNNING\<rparr> else processes s ! i)"
  using assms by (simp_all add: process_switch_def process_set_state_def nth_list_update)

lemma reap_table:
  assumes "length (processes s) = 64"
  shows "length (processes (reap_from i s)) = 64"
    "current_process_index (reap_from i s) = current_process_index s"
    "j < 64 \<Longrightarrow> processes (reap_from i s) ! j = (if reaped s i j
      then (processes s ! j)\<lparr>p_stack_base := 0, p_kernel_stack := 0\<rparr> else processes s ! j)"
  using reap_from_table [OF assms, of i] by simp_all

lemma process_schedule_spec:
  assumes ok: "proc_ok s" and r: "process_schedule ctx s = (ctx', s')"
  shows "proc_ok s'" "round_robin s (cur s')" "state_of s' (cur s') = PROC_STATE_RUNNING"
    "ctx' = p_context (processes s' ! cur s')"
    "i < 64 \<Longrightarrow> i \<noteq> cur s' \<Longrightarrow> state_of s' i = saved_state s i"
    "i < 64 \<Longrightarrow> p_context (processes s' ! i) = (if i = cur s then ctx else p_context (processes s ! i))"
    "i < 64 \<Longrightarrow> p_pid (processes s' ! i) = p_pid (processes s ! i)"
proof -
  define k where "k = schedule_choice ctx s"
  define s1 where "s1 = process_switch k (process_save ctx s)"
  note K = schedule_choice [OF ok, of ctx, folded k_def]
  note S = process_save_table [OF ok, where ctx = ctx]
  note W = process_switch_table [OF S(1) K(2), folded s1_def]
  have s': "s' = reap_from 1 s1" and ctx': "ctx' = p_context (processes s1 ! k)"
    using r process_schedule_eq [OF ok, of ctx] by (simp_all add: Let_def k_def s1_def)
  note R = reap_table [OF W(1), where i = 1, folded s']
  have ck: "cur s' = k" using R(2) W(2) by simp
  show "round_robin s (cur s')" using K(1) ck by simp
  show "state_of s' (cur s') = PROC_STATE_RUNNING" using R(3) [OF K(2)] W(3) [OF K(2)] ck by simp
  show "ctx' = p_context (processes s' ! cur s')" using R(3) [OF K(2)] ck ctx' by simp
  show st: "state_of s' i = saved_state s i" if "i < 64" "i \<noteq> cur s'" for i
    using R(3) [OF that(1)] W(3) [OF that(1)] S(3) [OF that(1)] that(2) ck by simp
  show "p_context (processes s' ! i) = (if i = cur s then ctx else p_context (processes s ! i))" if "i < 64" for i
    unfolding R(3) [OF that] W(3) [OF that] S(4) [OF that, symmetric] by simp
  show "p_pid (processes s' ! i) = p_pid (processes s ! i)" if "i < 64" for i
    unfolding R(3) [OF that] W(3) [OF that] S(8) [OF that, symmetric] by simp
  have "length (p_allocations (processes s' ! i)) = 128 \<and> p_alloc_count (processes s' ! i) \<le> 128" if "i < 64" for i
  proof -
    have "p_allocations (processes s' ! i) = p_allocations (processes s ! i)"
      "p_alloc_count (processes s' ! i) = p_alloc_count (processes s ! i)"
      unfolding R(3) [OF that] W(3) [OF that] S(6,7) [OF that, symmetric] by simp_all
    then show ?thesis using ok that by (simp add: proc_ok_def)
  qed
  moreover have "i = cur s'" if "i < 64" "state_of s' i = PROC_STATE_RUNNING" for i
  proof (rule ccontr)
    assume "i \<noteq> cur s'"
    from st [OF that(1) this] that(2) show False by (simp add: saved_state_def split: if_splits)
  qed
  ultimately show "proc_ok s'" using R(1,2) W(2) K(2) by (auto simp: proc_ok_def)
qed

text \<open>Timer ticks in a row; \<open>ctx n\<close> is the interrupted context of the \<open>n\<close>-th.\<close>

primrec ticks :: "(nat \<Rightarrow> cpu_state) \<Rightarrow> nat \<Rightarrow> 'a procs_scheme \<Rightarrow> 'a procs_scheme" where
  "ticks ctx 0 s = s"
| "ticks ctx (Suc n) s = ticks (\<lambda>i. ctx (Suc i)) n (snd (process_schedule (ctx 0) s))"

lemma ticks_reach:
  assumes "proc_ok s" "j < 64" "state_of s j = PROC_STATE_READY" "d < 64" "(cur s + 1 + d) mod 64 = j"
  shows "\<exists>n\<le>d. cur (ticks ctx (Suc n) s) = j"
  using assms
proof (induction d arbitrary: s ctx rule: less_induct)
  case (less d)
  obtain ctx' s' where r: "process_schedule (ctx 0) s = (ctx', s')" by (cases "process_schedule (ctx 0) s")
  note S = process_schedule_spec [OF less.prems(1) r]
  have rj: "saved_state s j = PROC_STATE_READY" using less.prems(3) by (simp add: saved_state_def)
  with S(2) less.prems(2) obtain e where e: "e < 64" "cur s' = (cur s + 1 + e) mod 64"
    "\<forall>i<e. saved_state s ((cur s + 1 + i) mod 64) \<noteq> PROC_STATE_READY"
    unfolding round_robin_def by blast
  have le: "e \<le> d" using e(3) rj less.prems(5) by (metis not_le)
  show ?case
  proof (cases "e = d")
    case True
    then show ?thesis using e(2) less.prems(5) r by (intro exI [of _ 0]) simp
  next
    case False
    then have lt: "d - e - 1 < d" using le by simp
    have eq: "(cur s' + 1 + (d - e - 1)) mod 64 = j"
    proof -
      obtain m where m: "d = e + 1 + m" using le False less_imp_Suc_add [of e d] by auto
      have "(cur s' + 1 + m) mod 64 = (cur s + 1 + (e + 1 + m)) mod 64"
        using mod_add_left_eq [of "cur s + 1 + e" 64 "1 + m"] e(2) by (simp add: add.assoc)
      then show ?thesis using m less.prems(5) by simp
    qed
    have "cur s' \<noteq> j"
    proof
      assume "cur s' = j"
      then have "(cur s + 1 + e) mod 64 = (cur s + 1 + d) mod 64" using e(2) less.prems(5) by simp
      then have "e = d" using mod_64_inj e(1) less.prems(4) by blast
      then show False using False by simp
    qed
    then have "state_of s' j = PROC_STATE_READY" using S(5) [OF less.prems(2)] rj by simp
    moreover have "d - e - 1 < 64" using less.prems(4) by simp
    ultimately obtain n where "n \<le> d - e - 1" "cur (ticks (\<lambda>i. ctx (Suc i)) (Suc n) s') = j"
      using less.IH [OF lt S(1) less.prems(2) _ _ eq] by blast
    then show ?thesis using r False le by (intro exI [of _ "Suc n"]) simp
  qed
qed

section \<open>Stacks\<close>

text \<open>
  Every stack a process refers to is a block in use of the heap, of at least the stack size, and
  no two processes share one.
\<close>

definition stack_refs :: "process list \<Rightarrow> (u64 \<times> u64) set \<Rightarrow> bool" where
  "stack_refs ps U \<longleftrightarrow>
     (\<forall>i<64. p_stack_base (ps ! i) \<noteq> 0 \<longrightarrow> (\<exists>n\<ge>PROC_STACK_SIZE. (p_stack_base (ps ! i), n) \<in> U)) \<and>
     (\<forall>i<64. \<forall>j<64. p_stack_base (ps ! i) \<noteq> 0 \<longrightarrow> p_stack_base (ps ! i) = p_stack_base (ps ! j) \<longrightarrow> i = j)"

lemma reap_from_heap:
  assumes "length (processes s) = 64" "heap_rel s L" "stack_refs (processes s) (used_blocks L)"
  shows "\<exists>L'. heap_rel (reap_from i s) L' \<and>
    used_blocks L' = {(p, n) \<in> used_blocks L. \<forall>j. reaped s i j \<longrightarrow> p \<noteq> p_stack_base (processes s ! j)}"
  using assms
proof (induction i s arbitrary: L rule: reap_from.induct)
  case (1 i s)
  let ?b = "\<lambda>s j. p_stack_base (processes s ! j)"
  show ?case
  proof (cases "i < 64")
    case False
    then show ?thesis using "1.prems" by (intro exI [of _ L]) (auto simp: reap_from.simps [of i s] reaped_def)
  next
    case i: True
    show ?thesis
    proof (cases "reaped s i i")
      case False
      then have r: "reap_from i s = reap_from (i + 1) s" using i
        by (subst reap_from.simps) (auto simp: reaped_def)
      have "reaped s i j \<longleftrightarrow> reaped s (i + 1) j" for j
        using False by (cases "j = i") (auto simp: reaped_def)
      with "1.IH" [OF i, of L] "1.prems" False i show ?thesis unfolding r by (auto simp: reaped_def)
    next
      case True
      define s1 where "s1 = upd_proc i (\<lambda>p. p\<lparr>p_stack_base := 0, p_kernel_stack := 0\<rparr>) (kfree (?b s i) s)"
      have r: "reap_from i s = reap_from (i + 1) s1" using i True
        by (simp add: reap_from.simps [of i s] reaped_def s1_def)
      obtain n where n: "(?b s i, n) \<in> used_blocks L" "?b s i \<noteq> 0"
        using "1.prems"(3) True i by (auto simp: stack_refs_def reaped_def)
      obtain L1 where L1: "heap_rel (kfree (?b s i) s) L1" "used_blocks L1 = used_blocks L - {(?b s i, n)}"
        using heap.release_ok [OF "1.prems"(2) n(1)] by blast
      have rel1: "heap_rel s1 L1" using L1(1) heap_rel_cong [of s1 "kfree (?b s i) s"] by (simp add: s1_def)
      have b1: "?b s1 j = (if j = i then 0 else ?b s j)" if "j < 64" for j
        using that i "1.prems"(1) by (simp add: s1_def nth_list_update)
      have refs: "stack_refs (processes s1) (used_blocks L1)"
        using "1.prems"(3) i n(2) b1 unfolding stack_refs_def L1(2) by (auto split: if_splits) metis+
      have "reaped s i j \<longleftrightarrow> j = i \<or> reaped s1 (i + 1) j" for j
        using True i "1.prems"(1) by (cases "j = i") (auto simp: reaped_def s1_def nth_list_update)
      moreover have "j \<noteq> i" "j < 64" if "reaped s1 (i + 1) j" for j using that by (auto simp: reaped_def)
      moreover have "p = ?b s i \<longleftrightarrow> (p, m) = (?b s i, n)" if "(p, m) \<in> used_blocks L" for p m
        using that n(1) heap.unique [OF "1.prems"(2)] by auto
      ultimately have "{(p, n) \<in> used_blocks L1. \<forall>j. reaped s1 (i + 1) j \<longrightarrow> p \<noteq> ?b s1 j} =
          {(p, n) \<in> used_blocks L. \<forall>j. reaped s i j \<longrightarrow> p \<noteq> ?b s j}"
        unfolding L1(2) using b1 by fastforce
      moreover have "length (processes s1) = 64" using "1.prems"(1) by (simp add: s1_def)
      ultimately show ?thesis
        using "1.IH" [OF i, of L1] rel1 refs True i unfolding r by (simp add: reaped_def s1_def)
    qed
  qed
qed

definition proc_inv :: "'a procs_scheme \<Rightarrow> ablock list \<Rightarrow> bool" where
  "proc_inv s L \<longleftrightarrow> proc_ok s \<and> heap_rel s L \<and> stack_refs (processes s) (used_blocks L) \<and>
     (\<forall>i<64. 0 < i \<longrightarrow> state_of s i \<noteq> PROC_STATE_DEAD \<longrightarrow> p_stack_base (processes s ! i) \<noteq> 0)"

lemma process_schedule_stacks:
  assumes inv: "proc_inv s L" and r: "process_schedule ctx s = (ctx', s')"
  shows "\<exists>L'. proc_inv s' L' \<and> used_blocks L' = {(p, n) \<in> used_blocks L.
      \<forall>j. 0 < j \<longrightarrow> j < 64 \<longrightarrow> j \<noteq> cur s' \<longrightarrow> state_of s j = PROC_STATE_DEAD \<longrightarrow> p \<noteq> p_stack_base (processes s ! j)} \<and>
    (\<forall>j<64. 0 < j \<longrightarrow> j \<noteq> cur s' \<longrightarrow> state_of s' j = PROC_STATE_DEAD \<longrightarrow> p_stack_base (processes s' ! j) = 0)"
proof -
  let ?b = "\<lambda>s j. p_stack_base (processes s ! j)"
  have ok: "proc_ok s" and rel: "heap_rel s L" and refs: "stack_refs (processes s) (used_blocks L)"
    and live: "\<And>i. i < 64 \<Longrightarrow> 0 < i \<Longrightarrow> state_of s i \<noteq> PROC_STATE_DEAD \<Longrightarrow> ?b s i \<noteq> 0"
    using inv by (auto simp: proc_inv_def)
  define k where "k = schedule_choice ctx s"
  define s1 where "s1 = process_switch k (process_save ctx s)"
  note K = schedule_choice [OF ok, of ctx, folded k_def]
  note S = process_save_table [OF ok, where ctx = ctx]
  note W = process_switch_table [OF S(1) K(2), folded s1_def]
  have s': "s' = reap_from 1 s1"
    using r process_schedule_eq [OF ok, of ctx] by (simp add: Let_def k_def s1_def)
  note R = reap_table [OF W(1), where i = 1, folded s']
  note T = process_schedule_spec [OF ok r]
  have ck: "cur s' = k" using R(2) W(2) by simp
  have b1: "?b s1 j = ?b s j" if "j < 64" for j
    unfolding W(3) [OF that] S(5) [OF that, symmetric] by simp
  have st1: "state_of s1 j = (if j = k then PROC_STATE_RUNNING else saved_state s j)" if "j < 64" for j
    using W(3) [OF that] S(3) [OF that] by simp
  have dead: "saved_state s j = PROC_STATE_DEAD \<longleftrightarrow> state_of s j = PROC_STATE_DEAD" for j
    by (simp add: saved_state_def)
  have reap: "reaped s1 1 j \<longleftrightarrow> 0 < j \<and> j < 64 \<and> j \<noteq> k \<and> state_of s j = PROC_STATE_DEAD \<and> ?b s j \<noteq> 0" for j
    using st1 [of j] b1 [of j] W(2) dead [of j] by (auto simp: reaped_def)
  have b': "?b s' j = (if reaped s1 1 j then 0 else ?b s j)" if "j < 64" for j
    using R(3) [OF that] b1 [OF that] by simp
  have "heap.truncate s1 = heap.truncate s"
    by (simp add: s1_def process_switch_def process_set_state_def process_save_def heap.truncate_def upd_proc_def)
  then have rel1: "heap_rel s1 L" using rel heap_rel_cong by blast
  have refs1: "stack_refs (processes s1) (used_blocks L)" using refs b1 by (auto simp: stack_refs_def)
  obtain L' where L': "heap_rel s' L'"
    "used_blocks L' = {(p, n) \<in> used_blocks L. \<forall>j. reaped s1 1 j \<longrightarrow> p \<noteq> ?b s1 j}"
    using reap_from_heap [OF W(1) rel1 refs1, of 1] s' by blast
  have U: "used_blocks L' = {(p, n) \<in> used_blocks L. \<forall>j. 0 < j \<longrightarrow> j < 64 \<longrightarrow> j \<noteq> cur s' \<longrightarrow>
      state_of s j = PROC_STATE_DEAD \<longrightarrow> p \<noteq> ?b s j}"
  proof -
    have nz: "p \<noteq> 0" if "(p, n) \<in> used_blocks L" for p n
    proof
      assume "p = 0"
      then show False using used_in_heap [OF rel that] by auto
    qed
    have "(\<forall>j. reaped s1 1 j \<longrightarrow> p \<noteq> ?b s1 j) \<longleftrightarrow> (\<forall>j. 0 < j \<longrightarrow> j < 64 \<longrightarrow> j \<noteq> k \<longrightarrow>
        state_of s j = PROC_STATE_DEAD \<longrightarrow> p \<noteq> ?b s j)" if "p \<noteq> 0" for p
      unfolding reap using that b1 by auto
    with nz show ?thesis unfolding L'(2) ck by blast
  qed
  have refs': "stack_refs (processes s') (used_blocks L')"
    unfolding stack_refs_def
  proof (intro conjI allI impI)
    fix i assume i: "i < 64" "?b s' i \<noteq> 0"
    then have nr: "\<not> reaped s1 1 i" "?b s' i = ?b s i" using b' by auto
    obtain n where n: "n \<ge> PROC_STACK_SIZE" "(?b s i, n) \<in> used_blocks L"
      using refs i nr unfolding stack_refs_def by auto
    have "?b s i \<noteq> ?b s1 j" if "reaped s1 1 j" for j
    proof -
      have "j < 64" "j \<noteq> i" "?b s j \<noteq> 0" using that nr(1) reap [of j] by auto
      then show ?thesis using refs i(1) b1 [of j] unfolding stack_refs_def by metis
    qed
    then show "\<exists>n\<ge>PROC_STACK_SIZE. (?b s' i, n) \<in> used_blocks L'" using n nr(2) L'(2) by auto
  next
    fix i j assume "i < 64" "j < 64" "?b s' i \<noteq> 0" "?b s' i = ?b s' j"
    then have "?b s i \<noteq> 0 \<and> ?b s i = ?b s j" using b' [of i] b' [of j] by (auto split: if_splits)
    then show "i = j" using refs \<open>i < 64\<close> \<open>j < 64\<close> unfolding stack_refs_def by blast
  qed
  have d': "state_of s' j = PROC_STATE_DEAD \<longleftrightarrow> state_of s j = PROC_STATE_DEAD" if "j < 64" "j \<noteq> k" for j
    using T(5) [OF that(1)] that(2) ck dead [of j] by simp
  have "?b s' i \<noteq> 0" if "i < 64" "0 < i" "state_of s' i \<noteq> PROC_STATE_DEAD" for i
  proof (cases "i = k")
    case True
    then have "saved_state s i = PROC_STATE_READY" using K(1) that(2) by (auto simp: round_robin_def)
    then have "state_of s i \<noteq> PROC_STATE_DEAD" by (auto simp: saved_state_def split: if_splits)
    then show ?thesis using live [OF that(1,2)] b' [OF that(1)] reap [of i] by simp
  next
    case False
    then show ?thesis using d' [OF that(1)] live [OF that(1,2)] that(3) b' [OF that(1)] reap [of i] by simp
  qed
  moreover have "?b s' j = 0" if "j < 64" "0 < j" "j \<noteq> cur s'" "state_of s' j = PROC_STATE_DEAD" for j
    using b' [OF that(1)] reap [of j] d' [OF that(1)] that ck by auto
  ultimately show ?thesis using T(1) L'(1) refs' U by (intro exI [of _ L']) (auto simp: proc_inv_def)
qed

lemma and_not_15: "16 dvd unat w \<Longrightarrow> w AND NOT 0xF = w" for w :: u64
proof -
  assume "16 dvd unat w"
  then have "unat (take_bit 4 w) = 0" by (simp add: take_bit_eq_mod unat_mod mod_eq_0_iff_dvd)
  then have t: "take_bit 4 w = 0" using unat_eq_zero by blast
  have "w AND NOT (mask 4) = w"
  proof (rule bit_word_eqI)
    fix n assume "n < LENGTH(64)"
    have "\<not> bit w n" if "n < 4" using t that by (metis bit_0_eq bit_take_bit_iff bot_apply bot_bool_def)
    then show "bit (w AND NOT (mask 4)) n = bit w n" using \<open>n < LENGTH(64)\<close> by (auto simp: bit_simps)
  qed
  then show "w AND NOT 0xF = w" by (simp add: mask_eq_exp_minus_1)
qed

definition fresh_process :: "'a procs_scheme \<Rightarrow> u64 \<Rightarrow> process \<Rightarrow> bool" where
  "fresh_process s entry_point p \<longleftrightarrow> p_pid p = next_pid s \<and> p_state p = PROC_STATE_READY \<and> p_alloc_count p = 0 \<and>
     p_kernel_stack p = p_stack_base p + PROC_STACK_SIZE \<and>
     p_context p = zero_cpu_state\<lparr>reg_rip := entry_point, reg_rsp := p_stack_base p + PROC_STACK_SIZE,
       reg_cs := kernel_cs s, reg_ss := kernel_ss s, reg_rflags := 0x202\<rparr>"

definition created_at :: "nat \<Rightarrow> u64 \<Rightarrow> 'a procs_scheme \<Rightarrow> ablock list \<Rightarrow> u32 \<Rightarrow> 'a procs_scheme \<Rightarrow> ablock list \<Rightarrow> bool" where
  "created_at i entry_point s L r s' L' \<longleftrightarrow>
     (\<forall>j<64. j \<noteq> i \<longrightarrow> processes s' ! j = processes s ! j) \<and>
     current_process_index s' = current_process_index s \<and> next_pid s' = next_pid s + 1 \<and>
     (if state_of s' i = PROC_STATE_DEAD then r = 0 \<and> used_blocks L' = used_blocks L
      else r = next_pid s \<and> fresh_process s entry_point (processes s' ! i) \<and>
        (\<exists>n\<ge>PROC_STACK_SIZE. unat (p_stack_base (processes s' ! i)) + unat n < 2 ^ 64 \<and>
           (\<forall>m. (p_stack_base (processes s' ! i), m) \<notin> used_blocks L) \<and>
           used_blocks L' = insert (p_stack_base (processes s' ! i), n) (used_blocks L)))"

lemma proc_inv_upd:
  assumes ok: "proc_ok s" and i: "i < 64" "0 < i" "state_of s i = PROC_STATE_DEAD"
    and p: "p_state p \<noteq> PROC_STATE_RUNNING" "length (p_allocations p) = 128" "p_alloc_count p \<le> 128"
    and s': "processes s' = (processes s)[i := p]" "current_process_index s' = current_process_index s"
  shows "proc_ok s'"
  using assms by (auto simp: proc_ok_def nth_list_update)

lemma stack_refs_upd:
  assumes refs: "stack_refs ps U" and p: "p_stack_base p = q" and fresh: "\<And>m. (q, m) \<notin> U"
    and n: "PROC_STACK_SIZE \<le> n" and i: "i < 64" "length ps = 64"
  shows "stack_refs (ps[i := p]) (insert (q, n) U)"
  unfolding stack_refs_def
proof (intro conjI allI impI)
  fix j assume j: "j < 64" "p_stack_base (ps[i := p] ! j) \<noteq> 0"
  show "\<exists>m\<ge>PROC_STACK_SIZE. (p_stack_base (ps[i := p] ! j), m) \<in> insert (q, n) U"
    using refs j p n i by (cases "j = i") (auto simp: stack_refs_def)
next
  fix j l assume jl: "j < 64" "l < 64" "p_stack_base (ps[i := p] ! j) \<noteq> 0"
    "p_stack_base (ps[i := p] ! j) = p_stack_base (ps[i := p] ! l)"
  have "p_stack_base (ps ! j) \<noteq> q" if "j < 64" "p_stack_base (ps ! j) \<noteq> 0" for j
    using refs fresh that unfolding stack_refs_def by metis
  then show "j = l" using refs jl p i unfolding stack_refs_def by (cases "j = i"; cases "l = i") auto
qed

lemma process_create_at_spec:
  assumes inv: "proc_inv s L" and i: "i < 64" "0 < i" "state_of s i = PROC_STATE_DEAD"
  shows "\<exists>r s' L'. process_create_at i entry_point s = Some (r, s') \<and> proc_inv s' L' \<and>
    created_at i entry_point s L r s' L'"
proof -
  let ?b = "\<lambda>s j. p_stack_base (processes s ! j)"
  have ok: "proc_ok s" and rel: "heap_rel s L" and refs: "stack_refs (processes s) (used_blocks L)"
    and live: "\<And>i. i < 64 \<Longrightarrow> 0 < i \<Longrightarrow> state_of s i \<noteq> PROC_STATE_DEAD \<Longrightarrow> ?b s i \<noteq> 0"
    using inv by (auto simp: proc_inv_def)
  have len: "length (processes s) = 64" using proc_okD(1) [OF ok] .
  have al: "length (p_allocations (processes s ! i)) = 128" using ok i(1) by (simp add: proc_ok_def)
  define s1 where "s1 = process_reserve i s"
  define p1 where "p1 = (processes s ! i)\<lparr>p_pid := next_pid s, p_state := PROC_STATE_SLEEPING, p_alloc_count := 0\<rparr>"
  have s1: "processes s1 = (processes s)[i := p1]" "current_process_index s1 = current_process_index s"
      "next_pid s1 = next_pid s + 1" "kernel_cs s1 = kernel_cs s" "kernel_ss s1 = kernel_ss s"
      "heap.truncate s1 = heap.truncate s"
    by (simp_all add: s1_def p1_def process_reserve_def upd_proc_def heap.truncate_def)
  have rel1: "heap_rel s1 L" using rel heap_rel_cong [OF s1(6)] by blast
  obtain q s2 L2 where k: "kmalloc PROC_STACK_SIZE s1 = Some (q, s2)" "heap_rel s2 L2" "heap.more s2 = heap.more s1"
    "if q = 0 then used_blocks L2 = used_blocks L else 16 dvd unat q \<and>
      (\<exists>n\<ge>PROC_STACK_SIZE. (q, n) \<notin> used_blocks L \<and> used_blocks L2 = insert (q, n) (used_blocks L))"
    using heap.alloc_ok [OF rel1, of PROC_STACK_SIZE] by auto
  note M = procs_fields_cong [OF k(3)]
  show ?thesis
  proof (cases "q = 0")
    case True
    define s' where "s' = process_set_state i PROC_STATE_DEAD s2"
    have P: "processes s' = (processes s)[i := p1\<lparr>p_state := PROC_STATE_DEAD\<rparr>]"
      using len i(1) by (simp add: s'_def process_set_state_def M s1)
    have c: "current_process_index s' = current_process_index s" "next_pid s' = next_pid s + 1"
      "heap.truncate s' = heap.truncate s2"
      by (simp_all add: s'_def process_set_state_def M s1 upd_proc_def heap.truncate_def)
    have "proc_ok s'" by (rule proc_inv_upd [OF ok i _ _ _ P c(1)]) (simp_all add: p1_def al)
    moreover have "stack_refs (processes s') (used_blocks L2)"
    proof -
      have "?b s' j = ?b s j" for j using i(1) len by (cases "j = i") (simp_all add: P p1_def)
      then show ?thesis using refs k(4) True by (simp add: stack_refs_def)
    qed
    moreover have "heap_rel s' L2" using k(2) heap_rel_cong [OF c(3)] by blast
    ultimately have "proc_inv s' L2" using live len i by (auto simp: proc_inv_def P p1_def nth_list_update)
    moreover have "created_at i entry_point s L 0 s' L2"
      using k(4) True c len i by (simp add: created_at_def P)
    ultimately show ?thesis using k(1) True by (auto simp: process_create_at_def s1_def s'_def)
  next
    case False
    with k(4) obtain n where n: "PROC_STACK_SIZE \<le> n" "(q, n) \<notin> used_blocks L" "16 dvd unat q"
      "used_blocks L2 = insert (q, n) (used_blocks L)" by auto
    have rg: "unat q + unat n < 2 ^ 64" using heap.in_range [OF k(2), of q n] n(4) by simp
    have fresh: "(q, m) \<notin> used_blocks L" for m
      using heap.unique [OF k(2), of q n m] n(2,4) by auto
    have "unat (q + 16384) = unat q + 16384"
      using rg n(1) by (intro unat_add_no_wrap [of q 16384, simplified]) (simp add: word_le_nat_alt)
    then have top: "(q + PROC_STACK_SIZE) AND NOT 0xF = q + PROC_STACK_SIZE" using n(3) by (intro and_not_15) simp
    define s' where "s' = process_set_state i PROC_STATE_READY (process_fill i entry_point q s2)"
    define p' where "p' = p1\<lparr>p_stack_base := q, p_kernel_stack := q + PROC_STACK_SIZE,
         p_context := zero_cpu_state\<lparr>reg_rip := entry_point, reg_rsp := q + PROC_STACK_SIZE, reg_cs := kernel_cs s,
                                     reg_ss := kernel_ss s, reg_rflags := 0x202\<rparr>,
         p_state := PROC_STATE_READY\<rparr>"
    have P: "processes s' = (processes s)[i := p']"
      using len i(1) by (simp only: s'_def process_set_state_def process_fill_def upd_proc_simps M s1 top Let_def
        p'_def list_update_overwrite nth_list_update_eq length_list_update)
    have c: "current_process_index s' = current_process_index s" "next_pid s' = next_pid s + 1"
      "heap.truncate s' = heap.truncate s2"
      by (simp_all add: s'_def process_set_state_def process_fill_def M s1 upd_proc_def heap.truncate_def)
    have pi: "processes s' ! i = p'" using len i(1) by (simp add: P)
    have "proc_ok s'" by (rule proc_inv_upd [OF ok i _ _ _ P c(1)]) (simp_all add: p'_def p1_def al)
    moreover have "stack_refs (processes s') (used_blocks L2)"
      unfolding P n(4) by (rule stack_refs_upd [OF refs _ fresh n(1)]) (simp_all add: p'_def i len)
    moreover have "heap_rel s' L2" using k(2) heap_rel_cong [OF c(3)] by blast
    ultimately have "proc_inv s' L2"
      using live len i False by (auto simp: proc_inv_def P p'_def nth_list_update)
    moreover have "created_at i entry_point s L (next_pid s) s' L2"
    proof -
      have "processes s' ! j = processes s ! j" if "j \<noteq> i" for j using that by (simp add: P)
      then show ?thesis using n(1,4) c rg fresh unfolding created_at_def fresh_process_def pi
        by (auto simp: p'_def p1_def)
    qed
    moreover have "p_pid (processes s' ! i) = next_pid s" by (simp add: pi p'_def p1_def)
    ultimately show ?thesis using k(1) False by (auto simp: process_create_at_def s1_def s'_def Let_def)
  qed
qed

lemma process_create_from_spec:
  assumes "proc_inv s L" "0 < i"
  shows "(\<forall>j. i \<le> j \<longrightarrow> j < 64 \<longrightarrow> state_of s j \<noteq> PROC_STATE_DEAD) \<and> process_create_from i entry_point s = Some (0, s) \<or>
    (\<exists>k. i \<le> k \<and> k < 64 \<and> state_of s k = PROC_STATE_DEAD \<and> (\<forall>j. i \<le> j \<longrightarrow> j < k \<longrightarrow> state_of s j \<noteq> PROC_STATE_DEAD) \<and>
       process_create_from i entry_point s = process_create_at k entry_point s)"
  using assms
proof (induction i entry_point s rule: process_create_from.induct)
  case (1 i e s)
  consider "\<not> i < 64" | "i < 64" "state_of s i = PROC_STATE_DEAD" | "i < 64" "state_of s i \<noteq> PROC_STATE_DEAD"
    by blast
  then show ?case
  proof cases
    case 1
    then show ?thesis by (simp add: process_create_from.simps [of i e s])
  next
    case 2
    then show ?thesis by (intro disjI2 exI [of _ i]) (simp add: process_create_from.simps [of i e s])
  next
    case 3
    have le: "i \<le> j \<longleftrightarrow> j = i \<or> i + 1 \<le> j" for j by auto
    have "process_create_from i e s = process_create_from (i + 1) e s"
      using 3 by (simp add: process_create_from.simps [of i e s])
    then show ?thesis using "1.IH" [OF 3] "1.prems" 3 unfolding le by fastforce
  qed
qed

lemma find_pid_Some:
  "find_pid i pid ps = Some k \<Longrightarrow> k < 64 \<and> p_pid (ps ! k) = pid \<and> p_state (ps ! k) \<noteq> PROC_STATE_DEAD"
  by (induction i pid ps rule: find_pid.induct) (auto simp: find_pid.simps split: if_splits)

lemma find_pid_None:
  "find_pid i pid ps = None \<Longrightarrow> i \<le> k \<Longrightarrow> k < 64 \<Longrightarrow> p_pid (ps ! k) = pid \<Longrightarrow> p_state (ps ! k) = PROC_STATE_DEAD"
proof (induction i pid ps rule: find_pid.induct)
  case (1 i pid ps)
  then show ?case
    by (cases "k = i") (auto simp: find_pid.simps [of i pid ps] split: if_splits)
qed

lemma free_pages_of_spec:
  assumes "pmm_inv s" "\<forall>a\<in>set as. 256 \<le> a div PMM_PAGE_SIZE \<and> a div PMM_PAGE_SIZE < total_pages s"
  shows "\<exists>s'. free_pages_of as s = Some s' \<and> pmm_inv s' \<and> pmm.more s' = pmm.more s \<and>
    free_pages s' = free_pages s \<union> (\<lambda>a. a div PMM_PAGE_SIZE) ` set as"
  using assms
proof (induction as arbitrary: s)
  case (Cons a as)
  from Cons.prems have a: "256 \<le> a div PMM_PAGE_SIZE" "a div PMM_PAGE_SIZE < total_pages s" by auto
  obtain s1 where s1: "pmm_free_page a s = Some s1" "pmm_inv s1"
    "free_pages s1 = insert (a div PMM_PAGE_SIZE) (free_pages s)"
    using pmm_free_page_spec [OF Cons.prems(1) a] by blast
  then have "total_pages s1 = total_pages s" "pmm.more s1 = pmm.more s"
    by (auto simp: pmm_free_page_eq Let_def split: if_splits)
  with Cons.IH [OF s1(2)] Cons.prems(2) s1 show ?case by auto
qed simp

lemma procs_pmm_cong:
  assumes "pmm.more s' = pmm.more s"
  shows "processes s' = processes s" "current_process_index s' = current_process_index s"
  using assms by (cases s; cases s'; simp)+

lemma process_init_inv:
  assumes "heap_rel s L"
  shows "proc_inv (process_init cs ss s) L"
proof -
  let ?s = "process_init cs ss s"
  have "heap.truncate ?s = heap.truncate s" by (simp add: process_init_def heap.truncate_def upd_proc_def Let_def)
  then have "heap_rel ?s L" using assms heap_rel_cong by blast
  moreover have P: "processes ?s = (replicate 64 zero_process)[0 := zero_process\<lparr>p_state := PROC_STATE_RUNNING\<rparr>]"
    "current_process_index ?s = 0"
    by (simp_all add: process_init_def Let_def upd_proc_def zero_process_def)
  ultimately show ?thesis
    by (auto simp: proc_inv_def proc_ok_def stack_refs_def P zero_process_def nth_list_update)
qed

definition small_procs :: procs where
  "small_procs = process_init 0x8 0x10 (heap.extend small_heap (procs.fields [] (-1) 1 0 0))"

lemma small_procs_inv: "proc_inv small_procs [(HEAP_START_VIRT, 4064, True)]"
  unfolding small_procs_def
proof (rule process_init_inv)
  have "heap.truncate (heap.extend small_heap (procs.fields [] (-1) 1 0 0)) = heap.truncate small_heap"
    by (simp add: heap.defs)
  then show "heap_rel (heap.extend small_heap (procs.fields [] (-1) 1 0 0)) [(HEAP_START_VIRT, 4064, True)]"
    using small_heap_rel heap_rel_cong by blast
qed

lemma small_procs_table:
  "processes small_procs = (replicate 64 zero_process)[0 := zero_process\<lparr>p_state := PROC_STATE_RUNNING\<rparr>]"
  "current_process_index small_procs = 0"
  by (simp_all add: small_procs_def process_init_def Let_def upd_proc_def zero_process_def heap.defs procs.defs)

section \<open>Correctness\<close>

text \<open>
  C10. A context switch saves the interrupted context in the table entry of the process that was
  running and touches no other saved context; it resumes with exactly the saved context of the
  process it selects, which is the first ready one after the current in cyclic order (slot 0 when
  none is ready), and that process is the only one marked as running. All other states are as
  before, with a preempted process back to ready.
\<close>

theorem process_schedule_correct:
  assumes "proc_ok s" "process_schedule ctx s = (ctx', s')"
  shows "proc_ok s' \<and> round_robin s (cur s') \<and> ctx' = p_context (processes s' ! cur s') \<and>
    (\<forall>i<64. p_context (processes s' ! i) = (if i = cur s then ctx else p_context (processes s ! i))) \<and>
    (\<forall>i<64. state_of s' i = (if i = cur s' then PROC_STATE_RUNNING
       else if state_of s i = PROC_STATE_RUNNING then PROC_STATE_READY else state_of s i))"
  using process_schedule_spec [OF assms] by (auto simp: saved_state_def)

theorem process_schedule_correct_witness:
  "round_robin small_procs (cur (snd (process_schedule zero_cpu_state small_procs)))"
proof -
  have "proc_ok small_procs" using small_procs_inv by (simp add: proc_inv_def)
  from process_schedule_correct [OF this, of zero_cpu_state] show ?thesis
    by (metis prod.collapse)
qed

text \<open>
  C11. The round robin is fair: whatever contexts the timer interrupts, a ready process is running
  after at most 64 ticks.
\<close>

theorem process_schedule_fair:
  assumes "proc_ok s" "j < 64" "state_of s j = PROC_STATE_READY"
  shows "\<exists>n<64. cur (ticks ctx (Suc n) s) = j"
proof -
  obtain d where d: "d < 64" "(cur s + 1 + d) mod 64 = j" using mod_64_reach [OF assms(2)] by blast
  from ticks_reach [OF assms d, of ctx] obtain n where "n \<le> d" "cur (ticks ctx (Suc n) s) = j" by blast
  with d(1) show ?thesis by (intro exI [of _ n]) simp
qed

theorem process_schedule_fair_witness:
  "\<exists>n<64. cur (ticks (\<lambda>_. zero_cpu_state) (Suc n) (process_set_state 5 PROC_STATE_READY small_procs)) = 5"
proof (rule process_schedule_fair)
  show "proc_ok (process_set_state 5 PROC_STATE_READY small_procs)"
    by (simp add: proc_ok_def process_set_state_def small_procs_table nth_list_update zero_process_def)
qed (simp_all add: process_set_state_def small_procs_table)

text \<open>
  C12. Deferred release of stacks: a context switch keeps the invariant that every stack of a live
  process is a block of the heap of its own. It releases exactly the stacks of the dead processes
  other than the one switched to, and afterwards no dead process holds a stack.
\<close>

theorem process_schedule_reaps:
  assumes "proc_inv s L" "process_schedule ctx s = (ctx', s')"
  shows "\<exists>L'. proc_inv s' L' \<and> used_blocks L' = {(p, n) \<in> used_blocks L.
      \<forall>j. 0 < j \<longrightarrow> j < 64 \<longrightarrow> j \<noteq> cur s' \<longrightarrow> state_of s j = PROC_STATE_DEAD \<longrightarrow> p \<noteq> p_stack_base (processes s ! j)} \<and>
    (\<forall>j<64. 0 < j \<longrightarrow> j \<noteq> cur s' \<longrightarrow> state_of s' j = PROC_STATE_DEAD \<longrightarrow> p_stack_base (processes s' ! j) = 0)"
  using assms by (rule process_schedule_stacks)

theorem process_schedule_reaps_witness:
  "\<exists>L'. proc_inv (snd (process_schedule zero_cpu_state small_procs)) L' \<and> used_blocks L' = {}"
proof -
  obtain c s' where r: "process_schedule zero_cpu_state small_procs = (c, s')" by (cases "process_schedule zero_cpu_state small_procs")
  from process_schedule_reaps [OF small_procs_inv r] show ?thesis using r by auto
qed

text \<open>
  C13. \<open>process_create\<close> returns, and keeps the invariant. It takes the first dead slot after slot 0 and
  changes no other. On success that slot holds a ready process with the next process number, the
  entry point and kernel selectors in its context, and a stack in a fresh block of the heap, with
  the stack pointer 16 KB above the block's start. When memory runs out the slot is dead again,
  and when all slots are in use nothing changes; both report 0.
\<close>

theorem process_create_correct:
  assumes "proc_inv s L"
  shows "\<exists>r s' L'. process_create entry_point s = Some (r, s') \<and> proc_inv s' L' \<and>
    ((\<forall>j<64. 0 < j \<longrightarrow> state_of s j \<noteq> PROC_STATE_DEAD) \<and> r = 0 \<and> s' = s \<or>
     (\<exists>k<64. 0 < k \<and> state_of s k = PROC_STATE_DEAD \<and> (\<forall>j<k. 0 < j \<longrightarrow> state_of s j \<noteq> PROC_STATE_DEAD) \<and>
        created_at k entry_point s L r s' L'))"
proof -
  consider "\<forall>j. 1 \<le> j \<longrightarrow> j < 64 \<longrightarrow> state_of s j \<noteq> PROC_STATE_DEAD" "process_create entry_point s = Some (0, s)"
    | k where "1 \<le> k" "k < 64" "state_of s k = PROC_STATE_DEAD" "\<forall>j. 1 \<le> j \<longrightarrow> j < k \<longrightarrow> state_of s j \<noteq> PROC_STATE_DEAD"
      "process_create entry_point s = process_create_at k entry_point s"
    using process_create_from_spec [OF assms, of 1 entry_point] unfolding process_create_def by auto
  then show ?thesis
  proof cases
    case 1
    then show ?thesis using assms by (intro exI [of _ 0] exI [of _ s] exI [of _ L]) (auto simp: Suc_le_eq)
  next
    case (2 k)
    with process_create_at_spec [OF assms 2(2) _ 2(3), of entry_point] show ?thesis
      by (auto simp: Suc_le_eq) blast
  qed
qed

theorem process_create_correct_witness:
  "\<exists>r s' L'. process_create 0xFFFFFFFF80001000 small_procs = Some (r, s') \<and> proc_inv s' L'"
  using process_create_correct [OF small_procs_inv] by blast



end
