(* ===== verification/CString.thy ===== *)
theory CString
  imports Prelude "HOL-Library.Signed_Division"
begin

text \<open>
  The string library, \<^verbatim>\<open>lib/string.c\<close>, over a memory of bytes. Pointers are 64-bit addresses and
  pointer arithmetic wraps around as the hardware's does. Loops that run until a terminating zero
  are partial: \<open>None\<close> means that no zero is found.
\<close>

section \<open>Operations\<close>

type_synonym mem = "u64 \<Rightarrow> u8"

function memcpy_loop :: "u64 \<Rightarrow> u64 \<Rightarrow> u64 \<Rightarrow> u64 \<Rightarrow> mem \<Rightarrow> mem" where
  "memcpy_loop i n d s m =
     (if i < n then memcpy_loop (i + 1) n d s (m(d + i := m (s + i))) else m)"
  by pat_completeness auto
termination
  by (relation "measure (\<lambda>(i, n, d, s, m). unat n - unat i)") (auto simp: unat_inc word_less_nat_alt)

definition memcpy :: "u64 \<Rightarrow> u64 \<Rightarrow> u64 \<Rightarrow> mem \<Rightarrow> mem" where
  "memcpy dest src n m = memcpy_loop 0 n dest src m"

function memset_loop :: "u64 \<Rightarrow> u64 \<Rightarrow> u64 \<Rightarrow> u8 \<Rightarrow> mem \<Rightarrow> mem" where
  "memset_loop i n p c m = (if i < n then memset_loop (i + 1) n p c (m(p + i := c)) else m)"
  by pat_completeness auto
termination
  by (relation "measure (\<lambda>(i, n, p, c, m). unat n - unat i)") (auto simp: unat_inc word_less_nat_alt)

definition memset :: "u64 \<Rightarrow> u32 \<Rightarrow> u64 \<Rightarrow> mem \<Rightarrow> mem" where
  "memset s c n m = memset_loop 0 n s (ucast c) m"

function memmove_back :: "u64 \<Rightarrow> u64 \<Rightarrow> u64 \<Rightarrow> mem \<Rightarrow> mem" where
  "memmove_back i d s m =
     (if i > 0 then memmove_back (i - 1) d s (m(d + (i - 1) := m (s + (i - 1)))) else m)"
  by pat_completeness auto
termination
  by (relation "measure (\<lambda>(i, d, s, m). unat i)") (auto simp: word_gt_0 dest: unat_dec)

definition memmove :: "u64 \<Rightarrow> u64 \<Rightarrow> u64 \<Rightarrow> mem \<Rightarrow> mem" where
  "memmove dest src n m =
     (if dest < src then memcpy_loop 0 n dest src m else memmove_back n dest src m)"

function memcmp :: "u64 \<Rightarrow> u64 \<Rightarrow> u64 \<Rightarrow> mem \<Rightarrow> int" where
  "memcmp p1 p2 n m =
     (if n = 0 then 0
      else if m p1 \<noteq> m p2 then uint (m p1) - uint (m p2)
      else memcmp (p1 + 1) (p2 + 1) (n - 1) m)"
  by pat_completeness auto
termination
  by (relation "measure (\<lambda>(p1, p2, n, m). unat n)") (auto simp: word_gt_0 dest: unat_dec)

declare memcpy_loop.simps [simp del] memset_loop.simps [simp del] memmove_back.simps [simp del]
  memcmp.simps [simp del]

text \<open>\<open>strstr\<close>: the inner loop returns the address in the needle at which the comparison stops.\<close>

partial_function (option) strstr_match :: "u64 \<Rightarrow> u64 \<Rightarrow> mem \<Rightarrow> u64 option" where
  "strstr_match h n m =
     (if m h \<noteq> 0 \<and> m n \<noteq> 0 \<and> m h = m n then strstr_match (h + 1) (n + 1) m else Some n)"

partial_function (option) strstr_loop :: "u64 \<Rightarrow> u64 \<Rightarrow> mem \<Rightarrow> u64 option" where
  "strstr_loop haystack needle m =
     (if m haystack = 0 then Some 0
      else if m haystack = m needle then
        Option.bind (strstr_match haystack needle m) (\<lambda>n.
          if m n = 0 then Some haystack else strstr_loop (haystack + 1) needle m)
      else strstr_loop (haystack + 1) needle m)"

definition strstr :: "u64 \<Rightarrow> u64 \<Rightarrow> mem \<Rightarrow> u64 option" where
  "strstr haystack needle m = (if m needle = 0 then Some haystack else strstr_loop haystack needle m)"

partial_function (option) strlen_loop :: "u64 \<Rightarrow> u64 \<Rightarrow> mem \<Rightarrow> u64 option" where
  "strlen_loop len s m = (if m (s + len) \<noteq> 0 then strlen_loop (len + 1) s m else Some len)"

definition strlen :: "u64 \<Rightarrow> mem \<Rightarrow> u64 option" where
  "strlen s m = strlen_loop 0 s m"

partial_function (option) strcmp :: "u64 \<Rightarrow> u64 \<Rightarrow> mem \<Rightarrow> int option" where
  "strcmp s1 s2 m =
     (if m s1 \<noteq> 0 \<and> m s1 = m s2 then strcmp (s1 + 1) (s2 + 1) m
      else Some (uint (m s1) - uint (m s2)))"

function strncmp_loop :: "u64 \<Rightarrow> u64 \<Rightarrow> u64 \<Rightarrow> u64 \<Rightarrow> mem \<Rightarrow> int" where
  "strncmp_loop i s1 s2 n m =
     (if i < n then
        if m (s1 + i) \<noteq> m (s2 + i) then uint (m (s1 + i)) - uint (m (s2 + i))
        else if m (s1 + i) = 0 then 0
        else strncmp_loop (i + 1) s1 s2 n m
      else 0)"
  by pat_completeness auto
termination
  by (relation "measure (\<lambda>(i, s1, s2, n, m). unat n - unat i)") (auto simp: unat_inc word_less_nat_alt)

definition strncmp :: "u64 \<Rightarrow> u64 \<Rightarrow> u64 \<Rightarrow> mem \<Rightarrow> int" where
  "strncmp s1 s2 n m = strncmp_loop 0 s1 s2 n m"

partial_function (option) strcpy :: "u64 \<Rightarrow> u64 \<Rightarrow> mem \<Rightarrow> mem option" where
  "strcpy dest src m =
     (let c = m src; m' = m(dest := c) in
      if c \<noteq> 0 then strcpy (dest + 1) (src + 1) m' else Some m')"

function strncpy_pad :: "u64 \<Rightarrow> u64 \<Rightarrow> u64 \<Rightarrow> mem \<Rightarrow> mem" where
  "strncpy_pad i dest n m = (if i < n then strncpy_pad (i + 1) dest n (m(dest + i := 0)) else m)"
  by pat_completeness auto
termination
  by (relation "measure (\<lambda>(i, dest, n, m). unat n - unat i)") (auto simp: unat_inc word_less_nat_alt)

function strncpy_loop :: "u64 \<Rightarrow> u64 \<Rightarrow> u64 \<Rightarrow> u64 \<Rightarrow> mem \<Rightarrow> mem" where
  "strncpy_loop i dest src n m =
     (if i < n \<and> m (src + i) \<noteq> 0 then strncpy_loop (i + 1) dest src n (m(dest + i := m (src + i)))
      else strncpy_pad i dest n m)"
  by pat_completeness auto
termination
  by (relation "measure (\<lambda>(i, dest, src, n, m). unat n - unat i)") (auto simp: unat_inc word_less_nat_alt)

definition strncpy :: "u64 \<Rightarrow> u64 \<Rightarrow> u64 \<Rightarrow> mem \<Rightarrow> mem" where
  "strncpy dest src n m = strncpy_loop 0 dest src n m"

declare strncmp_loop.simps [simp del] strncpy_pad.simps [simp del] strncpy_loop.simps [simp del]

definition strcat :: "u64 \<Rightarrow> u64 \<Rightarrow> mem \<Rightarrow> mem option" where
  "strcat dest src m = Option.bind (strlen dest m) (\<lambda>len. strcpy (dest + len) src m)"

text \<open>\<open>NULL\<close> is address 0.\<close>

partial_function (option) strchr :: "u64 \<Rightarrow> u32 \<Rightarrow> mem \<Rightarrow> u64 option" where
  "strchr s c m =
     (if m s \<noteq> 0 then if m s = ucast c then Some s else strchr (s + 1) c m
      else Some (if c = 0 then s else 0))"

partial_function (option) strrchr_loop :: "u64 \<Rightarrow> u64 \<Rightarrow> u32 \<Rightarrow> mem \<Rightarrow> u64 option" where
  "strrchr_loop last_found s c m =
     (if m s \<noteq> 0 then strrchr_loop (if m s = ucast c then s else last_found) (s + 1) c m
      else Some (if c = 0 then s else last_found))"

definition strrchr :: "u64 \<Rightarrow> u32 \<Rightarrow> mem \<Rightarrow> u64 option" where
  "strrchr s c m = strrchr_loop 0 s c m"

text \<open>\<open>strtok\<close> keeps its position in \<open>strtok_save\<close>, which is passed along.\<close>

partial_function (option) is_delim :: "u8 \<Rightarrow> u64 \<Rightarrow> mem \<Rightarrow> bool option" where
  "is_delim c d m =
     (if m d = 0 then Some False else if c = m d then Some True else is_delim c (d + 1) m)"

partial_function (option) strtok_skip :: "u64 \<Rightarrow> u64 \<Rightarrow> mem \<Rightarrow> u64 option" where
  "strtok_skip start delim m =
     (if m start = 0 then Some start
      else Option.bind (is_delim (m start) delim m) (\<lambda>b.
        if b then strtok_skip (start + 1) delim m else Some start))"

text \<open>The end of the token: the address of the delimiter, or \<open>None\<close> when the string ends first.\<close>

partial_function (option) strtok_end :: "u64 \<Rightarrow> u64 \<Rightarrow> mem \<Rightarrow> u64 option option" where
  "strtok_end e delim m =
     (if m e = 0 then Some None
      else Option.bind (is_delim (m e) delim m) (\<lambda>b.
        if b then Some (Some e) else strtok_end (e + 1) delim m))"

definition strtok :: "u64 \<Rightarrow> u64 \<Rightarrow> u64 \<Rightarrow> mem \<Rightarrow> (u64 \<times> u64 \<times> mem) option" where
  "strtok str delim strtok_save m =
     (let save = (if str \<noteq> 0 then str else strtok_save) in
      if save = 0 then Some (0, save, m) else
      Option.bind (strtok_skip save delim m) (\<lambda>start.
      if m start = 0 then Some (0, 0, m) else
      Option.bind (strtok_end start delim m) (\<lambda>e.
      case e of None \<Rightarrow> Some (start, 0, m)
      | Some e \<Rightarrow> Some (start, e + 1, m(e := 0)))))"

text \<open>
  \<open>atoi\<close> computes with 32-bit integers; a number outside their range is undefined behaviour in the
  source and wraps around here.
\<close>

partial_function (option) atoi_blanks :: "u64 \<Rightarrow> mem \<Rightarrow> u64 option" where
  "atoi_blanks str m = (if m str = 0x20 \<or> m str = 0x09 then atoi_blanks (str + 1) m else Some str)"

partial_function (option) atoi_digits :: "u32 \<Rightarrow> u64 \<Rightarrow> mem \<Rightarrow> u32 option" where
  "atoi_digits result str m =
     (if 0x30 \<le> m str \<and> m str \<le> 0x39
      then atoi_digits (result * 10 + (ucast (m str) - 0x30)) (str + 1) m
      else Some result)"

definition atoi :: "u64 \<Rightarrow> mem \<Rightarrow> u32 option" where
  "atoi str m =
     Option.bind (atoi_blanks str m) (\<lambda>str.
     if m str = 0x2D then map_option uminus (atoi_digits 0 (str + 1) m)
     else if m str = 0x2B then atoi_digits 0 (str + 1) m
     else atoi_digits 0 str m)"

text \<open>
  \<open>itoa\<close> on the signed 32-bit value; division truncates. Negating the least value overflows and
  gives the same value back.
\<close>

definition wrap32 :: "int \<Rightarrow> int" where
  "wrap32 v = signed_take_bit 31 v"

definition itoa_char :: "int \<Rightarrow> u8" where
  "itoa_char digit = word_of_int (if digit < 10 then 0x30 + digit else 0x61 + digit - 10)"

partial_function (option) itoa_digits :: "int \<Rightarrow> u64 \<Rightarrow> int \<Rightarrow> mem \<Rightarrow> (u64 \<times> mem) option" where
  "itoa_digits value p base m =
     (if base = 0 then None
      else let m = m(p := itoa_char (value smod base)); p = p + 1; value = value sdiv base in
           if value \<noteq> 0 then itoa_digits value p base m else Some (p, m))"

definition digit_char :: "u64 \<Rightarrow> u8" where
  "digit_char digit = (if digit < 10 then 0x30 + ucast digit else 0x61 + ucast digit - 10)"

text \<open>The digits in reverse; the result is the address after the last and the memory.\<close>

partial_function (option) utoa_digits :: "u64 \<Rightarrow> u64 \<Rightarrow> u64 \<Rightarrow> mem \<Rightarrow> (u64 \<times> mem) option" where
  "utoa_digits value p base m =
     (if base = 0 then None
      else let m = m(p := digit_char (value mod base)); p = p + 1; value = value div base in
           if value \<noteq> 0 then utoa_digits value p base m else Some (p, m))"

function reverse_loop :: "u64 \<Rightarrow> u64 \<Rightarrow> mem \<Rightarrow> mem" where
  "reverse_loop p1 p2 m =
     (if p1 < p2 then reverse_loop (p1 + 1) (p2 - 1) (m(p1 := m p2, p2 := m p1)) else m)"
  by pat_completeness auto
termination
  by (relation "measure (\<lambda>(p1, p2, m). unat p2 - unat p1)")
    (auto simp: unat_inc word_less_nat_alt unat_sub_no_wrap word_le_nat_alt)

declare reverse_loop.simps [simp del]

definition itoa :: "int \<Rightarrow> u64 \<Rightarrow> int \<Rightarrow> mem \<Rightarrow> mem option" where
  "itoa value str base m =
     (let negative = (value < 0 \<and> base = 10); value = (if negative then wrap32 (- value) else value) in
      Option.bind (itoa_digits value str base m) (\<lambda>(p, m).
      let (p, m) = (if negative then (p + 1, m(p := 0x2D)) else (p, m))
      in Some (reverse_loop str (p - 1) (m(p := 0)))))"

definition utoa :: "u64 \<Rightarrow> u64 \<Rightarrow> u64 \<Rightarrow> mem \<Rightarrow> mem option" where
  "utoa value str base m =
     Option.bind (utoa_digits value str base m) (\<lambda>(p, m).
     Some (reverse_loop str (p - 1) (m(p := 0))))"

section \<open>Copying\<close>

lemma word_le_inc: "i < n \<Longrightarrow> i + 1 \<le> x \<longleftrightarrow> i < x" for i n x :: u64
  using unat_inc [of i n] by (simp add: word_le_nat_alt word_less_nat_alt Suc_le_eq)

lemma memcpy_loop_eq:
  assumes "\<And>i j. i < j \<Longrightarrow> j < n \<Longrightarrow> d + i \<noteq> s + j"
  shows "memcpy_loop i n d s m (d + x) = (if i \<le> x \<and> x < n then m (s + x) else m (d + x))"
  using assms
proof (induction i n d s m rule: memcpy_loop.induct)
  case (1 i n d s m)
  show ?case
  proof (cases "i < n")
    case False
    then show ?thesis by (auto simp: memcpy_loop.simps [of i n])
  next
    case True
    define m' where "m' = m(d + i := m (s + i))"
    have IH: "memcpy_loop (i + 1) n d s m' (d + x) = (if i < x \<and> x < n then m' (s + x) else m' (d + x))"
      using "1.IH" [OF True "1.prems"] word_le_inc [OF True, of x] by (simp only: m'_def)
    moreover have "memcpy_loop i n d s m = memcpy_loop (i + 1) n d s m'"
      using True by (simp add: memcpy_loop.simps [of i n] m'_def)
    moreover have "m' (s + x) = m (s + x)" if "i < x" "x < n"
      using "1.prems" [OF that] by (simp add: m'_def)
    ultimately show ?thesis using True by (auto simp: m'_def)
  qed
qed

lemma memmove_back_eq:
  assumes "\<And>i j. j < i \<Longrightarrow> i < n \<Longrightarrow> d + i \<noteq> s + j" "i \<le> n"
  shows "memmove_back i d s m (d + x) = (if x < i then m (s + x) else m (d + x))"
  using assms
proof (induction i d s m rule: memmove_back.induct)
  case (1 i d s m)
  show ?case
  proof (cases "0 < i")
    case False
    then have "i = 0" by (simp add: word_gt_0)
    then show ?thesis by (subst memmove_back.simps) simp
  next
    case True
    define m' where "m' = m(d + (i - 1) := m (s + (i - 1)))"
    have u: "unat (i - 1) = unat i - 1" "0 < unat i" using True unat_dec [of i] by (auto simp: word_gt_0)
    then have le: "i - 1 \<le> n" "i - 1 < n" using "1.prems"(2) by (auto simp: word_le_nat_alt word_less_nat_alt)
    have lt: "x < i \<longleftrightarrow> x < i - 1 \<or> x = i - 1"
      using u by (auto simp: word_less_nat_alt word_unat_eq_iff)
    have "memmove_back (i - 1) d s m' (d + x) = (if x < i - 1 then m' (s + x) else m' (d + x))"
      using "1.IH" [OF True "1.prems"(1) le(1)] by (simp only: m'_def)
    moreover have "memmove_back i d s m = memmove_back (i - 1) d s m'"
      using True by (simp add: memmove_back.simps [of i] m'_def)
    moreover have "m' (s + x) = m (s + x)" if "x < i - 1"
      using "1.prems"(1) [OF that le(2)] by (simp add: m'_def)
    ultimately show ?thesis unfolding lt by (auto simp: m'_def)
  qed
qed

lemma no_wrap_offset: "unat p + unat n \<le> 2 ^ 64 \<Longrightarrow> i < n \<Longrightarrow> unat (p + i) = unat p + unat i" for p n i :: u64
  by (intro unat_add_no_wrap) (simp add: word_less_nat_alt)

lemma memmove_eq:
  assumes "unat dest + unat n \<le> 2 ^ 64" "unat src + unat n \<le> 2 ^ 64"
  shows "memmove dest src n m = (\<lambda>a. if a - dest < n then m (src + (a - dest)) else m a)"
proof (rule ext)
  fix a
  have u: "unat (dest + i) = unat dest + unat i" "unat (src + i) = unat src + unat i" if "i < n" for i
    using no_wrap_offset assms that by blast+
  show "memmove dest src n m a = (if a - dest < n then m (src + (a - dest)) else m a)"
  proof (cases "dest < src")
    case True
    have "dest + i \<noteq> src + j" if "i < j" "j < n" for i j
      using u [OF that(2)] u [OF less_trans [OF that]] that(1) True
      by (auto simp: word_less_nat_alt word_unat_eq_iff)
    then show ?thesis using memcpy_loop_eq [of n dest src 0 m "a - dest"] True by (simp add: memmove_def)
  next
    case False
    have "dest + i \<noteq> src + j" if "j < i" "i < n" for i j
      using u [OF that(2)] u [OF less_trans [OF that]] that(1) False
      by (auto simp: word_less_nat_alt word_unat_eq_iff)
    then show ?thesis using memmove_back_eq [of n dest src n m "a - dest"] False by (simp add: memmove_def)
  qed
qed

lemma memset_loop_eq:
  "memset_loop i n p c m (p + x) = (if i \<le> x \<and> x < n then c else m (p + x))"
proof (induction i n p c m rule: memset_loop.induct)
  case (1 i n p c m)
  show ?case
  proof (cases "i < n")
    case False
    then show ?thesis by (auto simp: memset_loop.simps [of i n])
  next
    case True
    define m' where "m' = m(p + i := c)"
    have "memset_loop (i + 1) n p c m' (p + x) = (if i < x \<and> x < n then c else m' (p + x))"
      using "1.IH" [OF True] word_le_inc [OF True, of x] by (simp only: m'_def)
    moreover have "memset_loop i n p c m = memset_loop (i + 1) n p c m'"
      using True by (simp add: memset_loop.simps [of i n] m'_def)
    ultimately show ?thesis using True by (auto simp: m'_def)
  qed
qed

lemma memset_eq: "memset p c n m = (\<lambda>a. if a - p < n then ucast c else m a)"
  using memset_loop_eq [of 0 n p "ucast c" m "_ - p"] by (intro ext) (simp add: memset_def)

lemma memcpy_eq:
  assumes "\<And>i j. i < j \<Longrightarrow> j < n \<Longrightarrow> dest + i \<noteq> src + j"
  shows "memcpy dest src n m = (\<lambda>a. if a - dest < n then m (src + (a - dest)) else m a)"
proof
  fix a
  show "memcpy dest src n m a = (if a - dest < n then m (src + (a - dest)) else m a)"
    using memcpy_loop_eq [OF assms, where i = 0 and m = m and x = "a - dest"] by (simp add: memcpy_def)
qed

section \<open>Zero-terminated strings\<close>

fun cstr :: "mem \<Rightarrow> u64 \<Rightarrow> u8 list \<Rightarrow> bool" where
  "cstr m p [] \<longleftrightarrow> m p = 0"
| "cstr m p (c # cs) \<longleftrightarrow> m p = c \<and> c \<noteq> 0 \<and> cstr m (p + 1) cs"

lemma strlen_loop_cstr: "cstr m (s + len) cs \<Longrightarrow> strlen_loop len s m = Some (len + of_nat (length cs))"
proof (induction cs arbitrary: len)
  case Nil
  then show ?case by (simp add: strlen_loop.simps)
next
  case (Cons c cs)
  have "strlen_loop (len + 1) s m = Some (len + 1 + of_nat (length cs))"
    using Cons by (intro Cons.IH) (simp add: add.assoc)
  then show ?case using Cons.prems by (simp add: strlen_loop.simps [of len] add.assoc)
qed

lemma strlen_cstr: "cstr m s cs \<Longrightarrow> strlen s m = Some (of_nat (length cs))"
  using strlen_loop_cstr [of m s 0 cs] by (simp add: strlen_def)

lemma strcmp_cstr:
  "cstr m p xs \<Longrightarrow> cstr m q ys \<Longrightarrow> \<exists>r. strcmp p q m = Some r \<and> (r = 0 \<longleftrightarrow> xs = ys) \<and>
     (r < 0 \<longleftrightarrow> (xs, ys) \<in> lexord {(a, b). a < b})"
proof (induction xs arbitrary: p q ys)
  case Nil
  then show ?case
    by (cases ys) (auto simp: strcmp.simps [of p q] uint_0_iff less_le)
next
  case (Cons x xs)
  show ?case
  proof (cases ys)
    case ys: Nil
    then show ?thesis using Cons.prems by (auto simp: strcmp.simps [of p q] uint_0_iff)
  next
    case ys: (Cons y ys')
    show ?thesis
    proof (cases "x = y")
      case True
      then show ?thesis using Cons.IH [of "p + 1" "q + 1" ys'] Cons.prems ys by (simp add: strcmp.simps [of p q])
    next
      case False
      then show ?thesis using Cons.prems ys
        by (auto simp: strcmp.simps [of p q] word_less_def word_uint_eq_iff)
    qed
  qed
qed


lemma strcpy_cstr:
  assumes "cstr m src cs" "unat src + length cs < 2 ^ 64" "unat dest + length cs < 2 ^ 64"
    and "unat src + length cs < unat dest \<or> unat dest + length cs < unat src"
  shows "\<exists>m'. strcpy dest src m = Some m' \<and> cstr m' dest cs \<and>
    (\<forall>a. \<not> (unat dest \<le> unat a \<and> unat a \<le> unat dest + length cs) \<longrightarrow> m' a = m a)"
  using assms
proof (induction cs arbitrary: src dest m)
  case Nil
  then have "strcpy dest src m = Some (m(dest := 0))" by (subst strcpy.simps) simp
  then show ?case by auto
next
  case (Cons c cs)
  define m1 where "m1 = m(dest := c)"
  have u: "unat (src + 1) = unat src + 1" "unat (dest + 1) = unat dest + 1"
    using Cons.prems(2,3) by (simp_all add: unat_word_ariths)
  have sf: "cstr m1 p cs" if "cstr m p cs" "unat dest < unat p \<or> unat p + length cs < unat dest" "unat p + length cs < 2 ^ 64" for p
    using that
  proof (induction cs arbitrary: p)
    case (Cons x xs)
    then have "unat (p + 1) = unat p + 1" by (simp add: unat_word_ariths)
    with Cons show ?case by (auto simp: m1_def)
  qed (auto simp: m1_def)
  have "strcpy dest src m = strcpy (dest + 1) (src + 1) m1"
    using Cons.prems(1) by (subst strcpy.simps) (simp add: m1_def)
  moreover have "cstr m1 (src + 1) cs" using Cons.prems u by (intro sf) auto
  then have "\<exists>m'. strcpy (dest + 1) (src + 1) m1 = Some m' \<and> cstr m' (dest + 1) cs \<and>
    (\<forall>a. \<not> (unat (dest + 1) \<le> unat a \<and> unat a \<le> unat (dest + 1) + length cs) \<longrightarrow> m' a = m1 a)"
    using Cons.prems u by (intro Cons.IH) auto
  then obtain m' where m': "strcpy (dest + 1) (src + 1) m1 = Some m'" "cstr m' (dest + 1) cs"
    "\<forall>a. \<not> (unat (dest + 1) \<le> unat a \<and> unat a \<le> unat (dest + 1) + length cs) \<longrightarrow> m' a = m1 a" by blast
  moreover have "m' dest = c" using m'(3) u by (simp add: m1_def)
  moreover have "m' a = m a" if "\<not> (unat dest \<le> unat a \<and> unat a \<le> unat dest + length (c # cs))" for a
  proof -
    have "a \<noteq> dest" using that by auto
    then show ?thesis using m'(3) u that by (auto simp: m1_def)
  qed
  ultimately show ?case using Cons.prems(1) by auto
qed

text \<open>\<open>strstr\<close> finds the first occurrence.\<close>

lemma strstr_match_cstr:
  "cstr m h xs \<Longrightarrow> cstr m n ys \<Longrightarrow>
   \<exists>e. strstr_match h n m = Some e \<and> (m e = 0 \<longleftrightarrow> take (length ys) xs = ys)"
proof (induction ys arbitrary: xs h n)
  case Nil
  then show ?case by (subst strstr_match.simps) simp
next
  case (Cons y ys)
  show ?case
  proof (cases xs)
    case Nil
    then show ?thesis using Cons.prems by (subst strstr_match.simps) simp
  next
    case (Cons x xs')
    then show ?thesis using Cons.IH [of "h + 1" xs' "n + 1"] Cons.prems
      by (cases "x = y") (simp_all add: strstr_match.simps [of h n])
  qed
qed

definition occurs_at :: "'a list \<Rightarrow> 'a list \<Rightarrow> nat \<Rightarrow> bool" where
  "occurs_at ys xs k \<longleftrightarrow> k < length xs \<and> take (length ys) (drop k xs) = ys"

lemma occurs_at_Cons: "occurs_at ys (x # xs) (Suc k) \<longleftrightarrow> occurs_at ys xs k"
  by (simp add: occurs_at_def)

lemma strstr_loop_cstr:
  assumes "cstr m h xs" "cstr m n ys" "ys \<noteq> []"
  shows "strstr_loop h n m = Some (if \<exists>k. occurs_at ys xs k then h + of_nat (LEAST k. occurs_at ys xs k) else 0)"
  using assms(1)
proof (induction xs arbitrary: h)
  case Nil
  moreover have "\<not> (\<exists>k. occurs_at ys [] k)" by (simp add: occurs_at_def)
  ultimately show ?case by (subst strstr_loop.simps) auto
next
  case (Cons x xs)
  obtain y ys' where ys: "ys = y # ys'" using assms(3) by (cases ys) auto
  have x: "m h = x" "x \<noteq> 0" "cstr m (h + 1) xs" using Cons.prems by simp_all
  have n0: "m n = y" using assms(2) ys by simp
  obtain e where e: "strstr_match h n m = Some e" "m e = 0 \<longleftrightarrow> take (length ys) (x # xs) = ys"
    using strstr_match_cstr [OF Cons.prems assms(2)] by blast
  show ?case
  proof (cases "take (length ys) (x # xs) = ys")
    case True
    then have "occurs_at ys (x # xs) 0" by (simp add: occurs_at_def)
    then have "(LEAST k. occurs_at ys (x # xs) k) = 0" "\<exists>k. occurs_at ys (x # xs) k" by (auto intro: Least_equality)
    moreover have "x = y" using True ys by simp
    ultimately show ?thesis using x e True n0 by (subst strstr_loop.simps) simp
  next
    case False
    then have no: "\<not> occurs_at ys (x # xs) 0" by (simp add: occurs_at_def)
    then have ex: "(\<exists>k. occurs_at ys (x # xs) k) \<longleftrightarrow> (\<exists>k. occurs_at ys xs k)"
      by (metis occurs_at_Cons not0_implies_Suc)
    have "(LEAST k. occurs_at ys (x # xs) k) = Suc (LEAST k. occurs_at ys xs k)" if "\<exists>k. occurs_at ys xs k"
      using that no ex Least_Suc [of "occurs_at ys (x # xs)"] by (auto simp: occurs_at_Cons)
    moreover have "strstr_loop h n m = strstr_loop (h + 1) n m"
      using x e False n0 by (subst strstr_loop.simps) auto
    ultimately show ?thesis using Cons.IH [OF x(3)] ex by (auto simp: add.assoc)
  qed
qed

section \<open>Numbers\<close>

text \<open>The digits of a number in a base, least significant first.\<close>

function udigits :: "nat \<Rightarrow> nat \<Rightarrow> nat list" where
  "udigits b v = (if 2 \<le> b \<and> v div b \<noteq> 0 then v mod b # udigits b (v div b) else [v mod b])"
  by pat_completeness auto
termination
  by (relation "measure snd") (auto intro!: div_less_dividend gr0I)

declare udigits.simps [simp del]

lemma udigits_value: "2 \<le> b \<Longrightarrow> foldr (\<lambda>d a. a * b + d) (udigits b v) 0 = v"
  by (induction b v rule: udigits.induct) (subst udigits.simps, auto simp: div_eq_0_iff)

lemma udigits_less: "2 \<le> b \<Longrightarrow> d \<in> set (udigits b v) \<Longrightarrow> d < b"
  by (induction b v rule: udigits.induct) (subst (asm) udigits.simps, auto split: if_splits)

lemma udigits_length: "2 \<le> b \<Longrightarrow> v < 2 ^ n \<Longrightarrow> 0 < n \<Longrightarrow> length (udigits b v) \<le> n"
proof (induction b v arbitrary: n rule: udigits.induct)
  case (1 b v)
  show ?case
  proof (cases "v div b = 0")
    case True
    then show ?thesis using "1.prems" by (subst udigits.simps) simp
  next
    case False
    have "v div b \<le> v div 2" using "1.prems"(1) by (rule div_le_mono2 [rotated]) simp
    then have lt: "v div b < 2 ^ (n - 1)"
      using "1.prems"(2,3) by (cases n) auto
    have "0 < n - 1" using lt False by (cases "n - 1") auto
    with "1.IH" [OF _ _ lt] "1.prems" False show ?thesis by (subst udigits.simps) auto
  qed
qed

lemma udigits_last: "2 \<le> b \<Longrightarrow> 0 < v \<Longrightarrow> last (udigits b v) \<noteq> 0"
proof (induction b v rule: udigits.induct)
  case (1 b v)
  have "udigits b w \<noteq> []" for w by (subst udigits.simps) simp
  with 1 show ?case by (subst udigits.simps) (auto simp: div_eq_0_iff div_greater_zero_iff)
qed

text \<open>A list of bytes written to consecutive addresses.\<close>

fun store :: "mem \<Rightarrow> u64 \<Rightarrow> u8 list \<Rightarrow> mem" where
  "store m p [] = m"
| "store m p (c # cs) = store (m(p := c)) (p + 1) cs"

lemma store_nth:
  "unat p + length cs \<le> 2 ^ 64 \<Longrightarrow> store m p cs a =
     (if unat p \<le> unat a \<and> unat a < unat p + length cs then cs ! (unat a - unat p) else m a)"
proof (induction cs arbitrary: m p)
  case (Cons c cs)
  show ?case
  proof (cases "cs = []")
    case True
    then show ?thesis by (auto simp: word_unat_eq_iff)
  next
    case False
    then have "unat (p + 1) = unat p + 1" using Cons.prems by (cases cs) (simp_all add: unat_word_ariths)
    moreover have "unat (p + 1) + length cs \<le> 2 ^ 64" using calculation Cons.prems by simp
    note IH = Cons.IH [OF this, of "m(p := c)"]
    ultimately show ?thesis
      by (auto simp: IH word_unat_eq_iff nth_Cons')
  qed
qed auto

lemma utoa_digits_eq:
  assumes "2 \<le> unat base"
  shows "utoa_digits v p base m = Some (p + of_nat (length (udigits (unat base) (unat v))),
    store m p (map (\<lambda>d. digit_char (of_nat d)) (udigits (unat base) (unat v))))"
proof (induction "unat v" arbitrary: v p m rule: less_induct)
  case less
  have b: "base \<noteq> 0" using assms by auto
  have d: "unat (v div base) = unat v div unat base" "unat (v mod base) = unat v mod unat base"
    by (simp_all add: unat_div unat_mod)
  have dc: "digit_char (v mod base) = digit_char (of_nat (unat v mod unat base))"
    using d(2) by (metis of_nat_unat ucast_id)
  have z: "v div base = 0 \<longleftrightarrow> unat v div unat base = 0" using d(1) by (metis unat_eq_zero)
  show ?case
  proof (cases "v div base = 0")
    case True
    then have "udigits (unat base) (unat v) = [unat v mod unat base]" using z by (subst udigits.simps) simp
    then show ?thesis using b True by (subst utoa_digits.simps) (simp add: Let_def dc [symmetric])
  next
    case False
    have u: "udigits (unat base) (unat v) = unat v mod unat base # udigits (unat base) (unat (v div base))"
      using False z assms d(1) by (subst udigits.simps) simp
    have "utoa_digits v p base m =
        utoa_digits (v div base) (p + 1) base (m(p := digit_char (v mod base)))"
      using b False by (subst utoa_digits.simps) (simp add: Let_def)
    also have "\<dots> = Some (p + 1 + of_nat (length (udigits (unat base) (unat (v div base)))),
      store (m(p := digit_char (v mod base))) (p + 1)
        (map (\<lambda>d. digit_char (of_nat d)) (udigits (unat base) (unat (v div base)))))"
    proof (rule less.hyps)
      have "0 < unat v" using False by (metis div_0 gr0I unat_eq_zero)
      then show "unat (v div base) < unat v" unfolding d(1) using assms by (intro div_less_dividend) simp_all
    qed
    finally show ?thesis unfolding u by (simp add: add.assoc dc [symmetric])
  qed
qed

lemma reverse_loop_eq:
  "unat p1 \<le> unat p2 + 1 \<Longrightarrow> reverse_loop p1 p2 m a =
     (if unat p1 \<le> unat a \<and> unat a \<le> unat p2 then m (p1 + p2 - a) else m a)"
proof (induction p1 p2 m rule: reverse_loop.induct)
  case (1 p1 p2 m)
  show ?case
  proof (cases "p1 < p2")
    case False
    then have "a = p1" "a = p2" if "unat p1 \<le> unat a" "unat a \<le> unat p2"
      using that by (simp_all add: word_less_nat_alt word_unat_eq_iff)
    then show ?thesis using False by (auto simp: reverse_loop.simps [of p1 p2])
  next
    case True
    define m' where "m' = m(p1 := m p2, p2 := m p1)"
    have u: "unat (p1 + 1) = unat p1 + 1" "unat (p2 - 1) = unat p2 - 1" "0 < unat p2" "unat p1 < unat p2"
    proof -
      have "p2 \<noteq> 0" using True by auto
      then show "unat (p2 - 1) = unat p2 - 1" "0 < unat p2" using unat_dec by blast+
    qed (use True unat_inc [OF True] in \<open>simp_all add: word_less_nat_alt\<close>)
    have r: "reverse_loop p1 p2 m = reverse_loop (p1 + 1) (p2 - 1) m'"
      using True by (simp add: reverse_loop.simps [of p1 p2] m'_def)
    have IH: "reverse_loop (p1 + 1) (p2 - 1) m' a = (if unat p1 + 1 \<le> unat a \<and> unat a \<le> unat p2 - 1
        then m' (p1 + p2 - a) else m' a)"
    proof -
      have "unat (p1 + 1) \<le> unat (p2 - 1) + 1" using u by simp
      from "1.IH" [OF True, folded m'_def, OF this] u show ?thesis by simp
    qed
    consider "a = p1" | "a = p2" | "unat p1 < unat a" "unat a < unat p2" | "unat a < unat p1" | "unat p2 < unat a"
      by (metis word_unat_eq_iff nat_neq_iff)
    then show ?thesis
    proof cases
      case 3
      then have ne: "p1 + p2 - a \<noteq> p1" "p1 + p2 - a \<noteq> p2" by (auto simp: algebra_simps)
      moreover have "unat p1 + 1 \<le> unat a \<and> unat a \<le> unat p2 - 1" using 3 by simp
      ultimately show ?thesis using r IH 3 by (simp add: m'_def)
    qed (use r IH u in \<open>auto simp: m'_def\<close>)
  qed
qed

lemma cstr_nth:
  "(\<And>i. i < length cs \<Longrightarrow> m (p + of_nat i) = cs ! i) \<Longrightarrow> 0 \<notin> set cs \<Longrightarrow> m (p + of_nat (length cs)) = 0 \<Longrightarrow>
   cstr m p cs"
proof (induction cs arbitrary: p)
  case (Cons c cs)
  have "m p = c" using Cons.prems(1) [of 0] by simp
  moreover have "cstr m (p + 1) cs"
  proof (rule Cons.IH)
    show "m (p + 1 + of_nat i) = cs ! i" if "i < length cs" for i
      using Cons.prems(1) [of "Suc i"] that by (simp add: add.assoc)
  qed (use Cons.prems in \<open>simp_all add: add.assoc\<close>)
  ultimately show ?case using Cons.prems(2) by auto
qed simp

definition digit_val :: "u8 \<Rightarrow> nat" where
  "digit_val c = (if c \<le> 0x39 then unat c - 0x30 else unat c - 0x57)"

lemma unat_digit_char: "d < 36 \<Longrightarrow> unat (digit_char (of_nat d)) = (if d < 10 then 0x30 + d else 0x57 + d)"
proof -
  assume d: "d < 36"
  then have u: "unat (of_nat d :: u64) = d" by (simp add: unat_of_nat)
  have c: "(ucast (of_nat d :: u64) :: u8) = of_nat d"
    using d by (simp add: word_unat_eq_iff unsigned_ucast_eq u unat_of_nat take_bit_eq_mod)
  have "(0x61 + of_nat d - 10 :: u8) = 0x57 + of_nat d" by simp
  then show ?thesis using d by (simp add: digit_char_def word_less_nat_alt u c unat_word_ariths unat_of_nat)
qed

lemma digit_val_char: "d < 36 \<Longrightarrow> digit_val (digit_char (of_nat d)) = d"
  by (simp add: digit_val_def word_le_nat_alt unat_digit_char)

lemma digit_char_nonzero: "d < 36 \<Longrightarrow> digit_char (of_nat d) \<noteq> 0"
  using unat_digit_char [of d] by (auto split: if_splits)

definition number_string :: "nat \<Rightarrow> nat \<Rightarrow> u8 list" where
  "number_string b v = rev (map (\<lambda>d. digit_char (of_nat d)) (udigits b v))"

definition string_number :: "nat \<Rightarrow> u8 list \<Rightarrow> nat" where
  "string_number b cs = foldl (\<lambda>a c. a * b + digit_val c) 0 cs"

lemma string_number_string:
  assumes "2 \<le> b" "b \<le> 36"
  shows "string_number b (number_string b v) = v"
proof -
  have "foldr (\<lambda>d a. a * b + digit_val (digit_char (of_nat d))) ds 0 = foldr (\<lambda>d a. a * b + d) ds 0"
    if "\<forall>d\<in>set ds. d < 36" for ds using that by (induction ds) (simp_all add: digit_val_char)
  moreover have "\<forall>d\<in>set (udigits b v). d < 36" using udigits_less [OF assms(1)] assms(2) by fastforce
  ultimately show ?thesis using udigits_value [OF assms(1), of v]
    by (simp add: string_number_def number_string_def foldl_conv_foldr rev_map foldr_map comp_def)
qed

lemma utoa_eq:
  assumes b: "2 \<le> unat base" "unat base \<le> 36" and str: "unat str + 65 \<le> 2 ^ 64"
  shows "\<exists>m'. utoa v str base m = Some m' \<and> cstr m' str (number_string (unat base) (unat v)) \<and>
    (\<forall>a. \<not> (unat str \<le> unat a \<and> unat a < unat str + 65) \<longrightarrow> m' a = m a)"
proof -
  define ds where "ds = udigits (unat base) (unat v)"
  define cs where "cs = map (\<lambda>d. digit_char (of_nat d) :: u8) ds"
  have len: "length cs \<le> 64" "0 < length cs"
  proof -
    have "unat v < 2 ^ 64" using unsigned_less [of v, where 'a = nat] by simp
    then show "length cs \<le> 64" using udigits_length [OF b(1), of "unat v" 64] by (simp add: cs_def ds_def)
    show "0 < length cs" unfolding cs_def ds_def by (subst udigits.simps) simp
  qed
  define p where "p = str + of_nat (length cs)"
  have up: "unat p = unat str + length cs"
    using len str unat_add_no_wrap [of str "of_nat (length cs)"] by (simp add: p_def unat_of_nat)
  have u: "utoa v str base m = Some (reverse_loop str (p - 1) ((store m str cs)(p := 0)))"
    using utoa_digits_eq [OF b(1), of v str m] by (simp add: utoa_def cs_def ds_def p_def)
  have "p \<noteq> 0" using up len(2) by auto
  then have up1: "unat (p - 1) = unat str + length cs - 1" using unat_dec [of p] up by simp
  let ?m = "(store m str cs)(p := 0)" let ?m' = "reverse_loop str (p - 1) ?m"
  have pre: "unat str \<le> unat (p - 1) + 1" using up1 len by simp
  have ai: "unat (str + of_nat i) = unat str + i" if "i \<le> 64" for i
    using that str unat_add_no_wrap [of str "of_nat i"] by (simp add: unat_of_nat)
  have st: "store m str cs a = (if unat str \<le> unat a \<and> unat a < unat str + length cs then cs ! (unat a - unat str) else m a)" for a
    using store_nth [of str cs m a] len str by simp
  have "cstr ?m' str (rev cs)"
  proof (rule cstr_nth)
    fix i assume i: "i < length (rev cs)"
    define j where "j = length cs - 1 - i"
    define q where "q = str + of_nat j"
    have j: "j < length cs" using i by (simp add: j_def)
    have "of_nat (length cs) = (of_nat j + 1 + of_nat i :: u64)"
    proof -
      have "length cs = j + 1 + i" using i by (simp add: j_def)
      then show ?thesis by (metis of_nat_1 of_nat_add)
    qed
    then have e: "str + (p - 1) - (str + of_nat i) = q" by (simp add: p_def q_def)
    have uq: "unat q = unat str + j" unfolding q_def using len j by (intro ai) simp
    then have "q \<noteq> p" using up j by auto
    moreover have "unat str \<le> unat (str + of_nat i) \<and> unat (str + of_nat i) \<le> unat (p - 1)"
      using ai [of i] i len up1 by simp
    ultimately have "?m' (str + of_nat i) = cs ! j"
      using reverse_loop_eq [OF pre, of ?m "str + of_nat i"] st [of q] uq j unfolding e by simp
    then show "?m' (str + of_nat i) = rev cs ! i" using i by (simp add: rev_nth j_def)
  next
    show "0 \<notin> set (rev cs)"
      using udigits_less [OF b(1)] b(2) digit_char_nonzero by (force simp: cs_def ds_def)
    show "?m' (str + of_nat (length (rev cs))) = 0"
    proof -
      have "\<not> unat p \<le> unat (p - 1)" using up up1 len(2) by linarith
      then have "?m' p = 0" using reverse_loop_eq [OF pre, of ?m p] by simp
      then show ?thesis by (simp add: p_def)
    qed
  qed
  moreover have "?m' a = m a" if "\<not> (unat str \<le> unat a \<and> unat a < unat str + 65)" for a
  proof -
    have "a \<noteq> p" using that up len by auto
    then show ?thesis using reverse_loop_eq [OF pre, of ?m a] up1 len that st [of a] by auto
  qed
  ultimately show ?thesis using u by (simp add: cs_def ds_def number_string_def)
qed


lemma atoi_digits_cstr:
  assumes "cstr m p cs" "\<forall>c\<in>set cs. 0x30 \<le> c \<and> c \<le> 0x39"
  shows "atoi_digits r p m = Some (foldl (\<lambda>a c. a * 10 + of_nat (digit_val c)) r cs)"
  using assms
proof (induction cs arbitrary: p r)
  case Nil
  then show ?case by (subst atoi_digits.simps) simp
next
  case (Cons c cs)
  have c: "unat c - 0x30 = digit_val c" "0x30 \<le> unat c" using Cons.prems by (simp_all add: digit_val_def word_le_nat_alt)
  have "(ucast c - 0x30 :: u32) = of_nat (digit_val c)"
    using c by (metis of_nat_diff of_nat_numeral of_nat_unat)
  then show ?case using Cons.prems Cons.IH [of "p + 1"] by (subst atoi_digits.simps) simp
qed

lemma number_string_digits: "\<forall>c\<in>set (number_string 10 v). 0x30 \<le> c \<and> c \<le> 0x39"
proof
  fix c assume "c \<in> set (number_string 10 v)"
  then obtain d where d: "d \<in> set (udigits 10 v)" "c = digit_char (of_nat d)" by (auto simp: number_string_def)
  then have "d < 10" using udigits_less [of 10] by simp
  then show "0x30 \<le> c \<and> c \<le> 0x39" using unat_digit_char [of d] d(2) by (simp add: word_le_nat_alt)
qed

lemma atoi_number_string:
  assumes "cstr m p (number_string 10 v)"
  shows "atoi p m = Some (of_nat v)"
proof -
  have "foldl (\<lambda>a c. a * 10 + of_nat (digit_val c)) (of_nat r :: u32) cs =
      of_nat (foldl (\<lambda>a c. a * 10 + digit_val c) r cs)" for r cs
  proof (induction cs arbitrary: r)
    case (Cons c cs)
    show ?case using Cons.IH [of "r * 10 + digit_val c"] by simp
  qed simp
  from this [of 0] have "foldl (\<lambda>a c. a * 10 + of_nat (digit_val c)) (0 :: u32) (number_string 10 v) = of_nat v"
    using string_number_string [of 10 v] by (simp add: string_number_def)
  moreover obtain c cs where ns: "number_string 10 v = c # cs"
    by (cases "number_string 10 v") (simp_all add: number_string_def udigits.simps [of 10 v] split: if_splits)
  moreover have mp: "m p = c" "0x30 \<le> c \<and> c \<le> 0x39" using assms ns number_string_digits [of v] by simp_all
  have "m p \<noteq> 0x20" "m p \<noteq> 0x09" "m p \<noteq> 0x2D" "m p \<noteq> 0x2B" using mp by auto
  then have "atoi p m = atoi_digits 0 p m" by (simp add: atoi_def atoi_blanks.simps [of p])
  ultimately show ?thesis using atoi_digits_cstr [OF assms number_string_digits, of 0] by simp
qed

section \<open>Correctness\<close>

text \<open>
  \<open>memmove\<close> copies as if through an intermediate buffer, however source and destination overlap,
  and changes no byte outside the destination. The objects may not wrap around the address space.
\<close>

theorem memmove_correct:
  assumes "unat dest + unat n \<le> 2 ^ 64" "unat src + unat n \<le> 2 ^ 64"
  shows "memmove dest src n m = (\<lambda>a. if a - dest < n then m (src + (a - dest)) else m a)"
  using assms by (rule memmove_eq)

theorem memmove_correct_witness:
  "memmove 0x1001 0x1000 3 ucast 0x1003 = (ucast (0x1002 :: u64) :: u8)"
  using memmove_correct [of "0x1001" 3 "0x1000" ucast] by simp

text \<open>
  On two strings \<open>strcmp\<close> returns zero exactly when they are equal and a negative number exactly
  when the first is less in the lexicographic order of unsigned bytes.
\<close>

theorem strcmp_correct:
  assumes "cstr m p xs" "cstr m q ys"
  shows "\<exists>r. strcmp p q m = Some r \<and> (r = 0 \<longleftrightarrow> xs = ys) \<and> (r < 0 \<longleftrightarrow> (xs, ys) \<in> lexord {(a, b). a < b})"
  using assms by (rule strcmp_cstr)

theorem strcmp_correct_witness:
  "\<exists>r. strcmp 0x10 0x20 ((\<lambda>_. 0)(0x10 := 0x61, 0x20 := 0x62)) = Some r \<and> r < 0"
  using strcmp_correct [of "(\<lambda>_. 0)(0x10 := 0x61, 0x20 := 0x62)" "0x10" "[0x61]" "0x20" "[0x62]"] by auto

text \<open>
  \<open>strstr\<close> returns the address of the first occurrence of a nonempty needle in the haystack, and
  the null pointer when there is none.
\<close>

theorem strstr_correct:
  assumes "cstr m h xs" "cstr m n ys" "ys \<noteq> []"
  shows "strstr h n m = Some (if \<exists>k. occurs_at ys xs k then h + of_nat (LEAST k. occurs_at ys xs k) else 0)"
proof -
  have "m n \<noteq> 0" using assms(2,3) by (cases ys) auto
  then show ?thesis using strstr_loop_cstr [OF assms] by (simp add: strstr_def)
qed

theorem strstr_correct_witness:
  "strstr 0x10 0x20 ((\<lambda>_. 0)(0x10 := 0x61, 0x11 := 0x62, 0x20 := 0x62)) = Some 0x11"
proof -
  let ?m = "(\<lambda>_. 0)(0x10 := 0x61, 0x11 := 0x62, 0x20 := 0x62) :: mem"
  have "(LEAST k. occurs_at [0x62 :: u8] [0x61, 0x62] k) = 1"
    by (rule Least_equality) (auto simp: occurs_at_def less_Suc_eq intro: ccontr)
  moreover have "occurs_at [0x62 :: u8] [0x61, 0x62] 1" by (simp add: occurs_at_def)
  ultimately show ?thesis
    using strstr_correct [of ?m "0x10" "[0x61, 0x62]" "0x20" "[0x62]"] by auto
qed

text \<open>
  \<open>utoa\<close> terminates for every base from 2 to 36 and writes a zero-terminated string of at most 64
  characters, whose digits are the value in that base: reading them back gives the value. No
  byte outside 65 bytes from the buffer's start changes, so the 65-byte buffers of the callers
  suffice.
\<close>

theorem utoa_correct:
  assumes "2 \<le> unat base" "unat base \<le> 36" "unat str + 65 \<le> 2 ^ 64"
  shows "\<exists>m' cs. utoa v str base m = Some m' \<and> cstr m' str cs \<and> string_number (unat base) cs = unat v \<and>
    0 < length cs \<and> length cs \<le> 64 \<and> (\<forall>a. \<not> (unat str \<le> unat a \<and> unat a < unat str + 65) \<longrightarrow> m' a = m a)"
proof -
  let ?cs = "number_string (unat base) (unat v)"
  have "length ?cs \<le> 64" using udigits_length [OF assms(1), of "unat v" 64] unsigned_less [of v, where 'a = nat]
    by (simp add: number_string_def)
  moreover have "0 < length ?cs" unfolding number_string_def by (subst udigits.simps) simp
  ultimately show ?thesis
    using utoa_eq [OF assms, of v m] string_number_string [OF assms(1,2), of "unat v"] by blast
qed

theorem utoa_correct_witness:
  "\<exists>m' cs. utoa 0xCAFE 0x1000 16 (\<lambda>_. 0) = Some m' \<and> cstr m' 0x1000 cs \<and> string_number 16 cs = 0xCAFE"
  using utoa_correct [of 16 "0x1000" "0xCAFE" "\<lambda>_. 0"] by auto

text \<open>
  \<open>atoi\<close> inverts \<open>utoa\<close> in base ten, for every number that fits a signed 32-bit integer.
\<close>

theorem atoi_utoa:
  assumes "unat str + 65 \<le> 2 ^ 64" "unat v < 2 ^ 31"
  shows "\<exists>m'. utoa v str 10 m = Some m' \<and> atoi str m' = Some (ucast v) \<and> sint (ucast v :: u32) = uint v"
proof -
  obtain m' where "utoa v str 10 m = Some m'" "cstr m' str (number_string 10 (unat v))"
    using utoa_eq [of 10 str v m] assms(1) by auto
  moreover have "(of_nat (unat v) :: u32) = ucast v" by simp
  moreover have "sint (ucast v :: u32) = uint v"
  proof -
    have "uint v < 2 ^ 31" using assms(2) by (metis of_nat_less_numeral_power_cancel_iff uint_nat)
    moreover have "0 \<le> uint v" by simp
    ultimately have "signed_take_bit 31 (uint v) = uint v" by (intro signed_take_bit_int_eq_self) linarith+
    then show ?thesis by (simp add: signed_ucast_eq)
  qed
  ultimately show ?thesis using atoi_number_string by fastforce
qed

theorem atoi_utoa_witness:
  "\<exists>m'. utoa 12345 0x1000 10 (\<lambda>_. 0) = Some m' \<and> atoi 0x1000 m' = Some 12345"
  using atoi_utoa [of "0x1000" 12345 "\<lambda>_. 0"] by auto

end
