(* ===== verification/Stdio.thy ===== *)
theory Stdio
  imports CString
begin

text \<open>
  Formatted output into a buffer, \<open>vsnprintf\<close> and \<open>snprintf\<close> of \<^verbatim>\<open>lib/stdio.c\<close>. The format and the strings
  it refers to are read from the memory that is being written, as in the source. The variable
  arguments are a list of 64-bit slots, and taking one too many is undefined (\<open>None\<close>); the local
  array \<open>tmp\<close> is a memory of its own.
\<close>

section \<open>Operations\<close>

text \<open>The macro \<open>PUT\<close> on the memory and the position.\<close>

definition put :: "u64 \<Rightarrow> u64 \<Rightarrow> u8 \<Rightarrow> mem \<times> u64 \<Rightarrow> mem \<times> u64" where
  "put buf sz c st =
     (let (m, pos) = st in (if pos < sz - 1 then m(buf + pos := c) else m, pos + 1))"

primrec put_pad :: "nat \<Rightarrow> u64 \<Rightarrow> u64 \<Rightarrow> u8 \<Rightarrow> mem \<times> u64 \<Rightarrow> mem \<times> u64" where
  "put_pad 0 buf sz c st = st"
| "put_pad (Suc n) buf sz c st = put_pad n buf sz c (put buf sz c st)"

partial_function (option) put_tmp :: "mem \<Rightarrow> u64 \<Rightarrow> u64 \<Rightarrow> u64 \<Rightarrow> mem \<times> u64 \<Rightarrow> (mem \<times> u64) option" where
  "put_tmp tmp i buf sz st =
     (if tmp i \<noteq> 0 then put_tmp tmp (i + 1) buf sz (put buf sz (tmp i) st) else Some st)"

text \<open>\<open>utoa\<close> into \<open>tmp\<close>, padding to the width, then the digits.\<close>

definition put_number :: "u64 \<Rightarrow> u64 \<Rightarrow> int \<Rightarrow> u8 \<Rightarrow> u64 \<Rightarrow> u64 \<Rightarrow> mem \<times> u64 \<Rightarrow> (mem \<times> u64) option" where
  "put_number val base pad_width pad_char buf sz st =
     Option.bind (utoa val 0 base (\<lambda>_. 0)) (\<lambda>tmp.
     Option.bind (strlen 0 tmp) (\<lambda>len.
     put_tmp tmp 0 buf sz (put_pad (nat (pad_width - sint (ucast len :: u32))) buf sz pad_char st)))"

text \<open>
  \<open>while (*s) PUT(*s++)\<close>, with \<open>s\<close> in the memory the buffer is in. The macro evaluates its argument only when it stores it: once the buffer
  is full \<open>s\<close> stays where it is, and the loop goes on until the position has wrapped around. The characters of the literal \<open>(null)\<close> are put in the same way.
\<close>

partial_function (option) put_str :: "u64 \<Rightarrow> u64 \<Rightarrow> u64 \<Rightarrow> mem \<times> u64 \<Rightarrow> (mem \<times> u64) option" where
  "put_str s buf sz st =
     (let (m, pos) = st in
      if m s = 0 then Some st
      else if pos < sz - 1 then put_str (s + 1) buf sz (m(buf + pos := m s), pos + 1)
      else put_str s buf sz (m, pos + 1))"

partial_function (option) put_literal :: "u8 list \<Rightarrow> u64 \<Rightarrow> u64 \<Rightarrow> mem \<times> u64 \<Rightarrow> (mem \<times> u64) option" where
  "put_literal cs buf sz st =
     (let (m, pos) = st in
      if cs = [] then Some st
      else if pos < sz - 1 then put_literal (tl cs) buf sz (m(buf + pos := hd cs), pos + 1)
      else put_literal cs buf sz (m, pos + 1))"

text \<open>The width is a 32-bit integer; a width that overflows it is undefined.\<close>

partial_function (option) parse_width :: "int \<Rightarrow> u64 \<Rightarrow> mem \<Rightarrow> (int \<times> u64) option" where
  "parse_width w fmt m =
     (if 0x30 \<le> m fmt \<and> m fmt \<le> 0x39 then
        let w = w * 10 + (uint (m fmt) - 0x30) in if w \<ge> 2 ^ 31 then None else parse_width w (fmt + 1) m
      else Some (w, fmt))"

text \<open>\<open>va_arg\<close> of a 64-bit or a 32-bit, signed or unsigned argument.\<close>

definition va_signed :: "bool \<Rightarrow> u64 \<Rightarrow> u64" where
  "va_signed is_long a = (if is_long then a else scast (ucast a :: u32))"

definition va_unsigned :: "bool \<Rightarrow> u64 \<Rightarrow> u64" where
  "va_unsigned is_long a = (if is_long then a else ucast (ucast a :: u32))"

definition null_string :: "u8 list" where
  "null_string = [0x28, 0x6E, 0x75, 0x6C, 0x6C, 0x29]"

text \<open>The switch over the conversion character \<open>c\<close>; the result has the remaining arguments.\<close>

definition format_directive ::
  "u8 \<Rightarrow> bool \<Rightarrow> int \<Rightarrow> bool \<Rightarrow> u64 \<Rightarrow> u64 \<Rightarrow> u64 list \<Rightarrow> mem \<times> u64 \<Rightarrow> (u64 list \<times> mem \<times> u64) option" where
  "format_directive c pad_zero pad_width is_long buf sz args st =
     (let pad_char = (if pad_zero then 0x30 else 0x20) in
      if c = 0x64 \<or> c = 0x69 then
        (case args of [] \<Rightarrow> None | a # args \<Rightarrow>
           let val = va_signed is_long a;
               (val, st) = (if val <s 0 then (- val, put buf sz 0x2D st) else (val, st))
           in map_option (Pair args) (put_number val 10 pad_width pad_char buf sz st))
      else if c = 0x75 then
        (case args of [] \<Rightarrow> None | a # args \<Rightarrow>
           map_option (Pair args) (put_number (va_unsigned is_long a) 10 pad_width pad_char buf sz st))
      else if c = 0x78 \<or> c = 0x58 then
        (case args of [] \<Rightarrow> None | a # args \<Rightarrow>
           map_option (Pair args) (put_number (va_unsigned is_long a) 16 pad_width pad_char buf sz st))
      else if c = 0x70 then
        (case args of [] \<Rightarrow> None | a # args \<Rightarrow>
           map_option (Pair args)
             (put_number a 16 16 0x30 buf sz (put buf sz 0x78 (put buf sz 0x30 st))))
      else if c = 0x73 then
        (case args of [] \<Rightarrow> None | a # args \<Rightarrow>
           if a = 0 then
             map_option (Pair args) (put_literal null_string buf sz
               (put_pad (nat (pad_width - int (length null_string))) buf sz 0x20 st))
           else Option.bind (strlen a (fst st)) (\<lambda>len.
             map_option (Pair args)
               (put_str a buf sz (put_pad (nat (pad_width - sint (ucast len :: u32))) buf sz 0x20 st))))
      else if c = 0x63 then
        (case args of [] \<Rightarrow> None | a # args \<Rightarrow> Some (args, put buf sz (ucast a) st))
      else if c = 0x25 then Some (args, put buf sz 0x25 st)
      else Some (args, put buf sz c (put buf sz 0x25 st)))"

partial_function (option) vsnprintf_loop ::
  "u64 \<Rightarrow> u64 \<Rightarrow> u64 \<Rightarrow> u64 list \<Rightarrow> mem \<times> u64 \<Rightarrow> (mem \<times> u64) option" where
  "vsnprintf_loop buf sz fmt args st =
     (let m = fst st in
      if m fmt = 0 then Some st
      else if m fmt \<noteq> 0x25 then vsnprintf_loop buf sz (fmt + 1) args (put buf sz (m fmt) st)
      else
        let fmt = fmt + 1; pad_zero = (m fmt = 0x30); fmt = (if pad_zero then fmt + 1 else fmt) in
        Option.bind (parse_width 0 fmt m) (\<lambda>(pad_width, fmt).
        let is_long = (m fmt = 0x6C); fmt = (if is_long then fmt + 1 else fmt) in
        Option.bind (format_directive (m fmt) pad_zero pad_width is_long buf sz args st) (\<lambda>(args, st).
        vsnprintf_loop buf sz (fmt + 1) args st)))"

definition vsnprintf :: "u64 \<Rightarrow> u64 \<Rightarrow> u64 \<Rightarrow> u64 list \<Rightarrow> mem \<Rightarrow> (u32 \<times> mem) option" where
  "vsnprintf buf sz fmt args m =
     Option.bind (vsnprintf_loop buf sz fmt args (m, 0)) (\<lambda>(m, pos).
     Some (ucast pos, if sz > 0 then m(buf + (if pos < sz then pos else sz - 1) := 0) else m))"

definition snprintf :: "u64 \<Rightarrow> u64 \<Rightarrow> u64 \<Rightarrow> u64 list \<Rightarrow> mem \<Rightarrow> (u32 \<times> mem) option" where
  "snprintf buf sz fmt args m = vsnprintf buf sz fmt args m"

section \<open>The stream of characters\<close>

text \<open>
  What the output is, independently of buffers and of memory. An argument is a number or a string
  with its address; running past the end of the format is \<open>None\<close>.
\<close>

datatype arg = Num u64 | Str u64 "u8 list"

primrec arg_slot :: "arg \<Rightarrow> u64" where
  "arg_slot (Num a) = a"
| "arg_slot (Str a xs) = a"

definition is_digit :: "u8 \<Rightarrow> bool" where "is_digit c \<longleftrightarrow> 0x30 \<le> c \<and> c \<le> 0x39"

definition padded :: "int \<Rightarrow> u8 \<Rightarrow> u8 list \<Rightarrow> u8 list" where
  "padded w c cs = replicate (nat (w - int (length cs))) c @ cs"

definition render_directive :: "u8 \<Rightarrow> bool \<Rightarrow> int \<Rightarrow> bool \<Rightarrow> arg list \<Rightarrow> (arg list \<times> u8 list) option" where
  "render_directive c z w l args =
     (if w \<ge> 2 ^ 31 then None else
      let pc = (if z then 0x30 else 0x20); num = (\<lambda>b v. padded w pc (number_string b (unat v))) in
      if c \<in> {0x64, 0x69} then
        (case args of [] \<Rightarrow> None | a # args \<Rightarrow> let v = va_signed l (arg_slot a) in
           Some (args, if v <s 0 then 0x2D # num 10 (- v) else num 10 v))
      else if c = 0x75 then
        (case args of [] \<Rightarrow> None | a # args \<Rightarrow> Some (args, num 10 (va_unsigned l (arg_slot a))))
      else if c \<in> {0x78, 0x58} then
        (case args of [] \<Rightarrow> None | a # args \<Rightarrow> Some (args, num 16 (va_unsigned l (arg_slot a))))
      else if c = 0x70 then
        (case args of [] \<Rightarrow> None | a # args \<Rightarrow>
           Some (args, [0x30, 0x78] @ padded 16 0x30 (number_string 16 (unat (arg_slot a)))))
      else if c = 0x73 then
        (case args of Str a xs # args \<Rightarrow> Some (args, padded w 0x20 xs)
         | Num a # args \<Rightarrow> if a = 0 then Some (args, padded w 0x20 null_string) else None
         | [] \<Rightarrow> None)
      else if c = 0x63 then
        (case args of [] \<Rightarrow> None | a # args \<Rightarrow> Some (args, [ucast (arg_slot a)]))
      else Some (args, if c = 0x25 then [0x25] else [0x25, c]))"

definition skip_char :: "u8 \<Rightarrow> u8 list \<Rightarrow> bool \<times> u8 list" where
  "skip_char c f = (case f of [] \<Rightarrow> (False, []) | x # f' \<Rightarrow> if x = c then (True, f') else (False, f))"

definition split_directive :: "u8 list \<Rightarrow> bool \<times> int \<times> bool \<times> u8 list" where
  "split_directive f =
     (let (z, f) = skip_char 0x30 f;
          w = foldl (\<lambda>w c. w * 10 + (uint c - 0x30)) 0 (takeWhile is_digit f);
          (l, f) = skip_char 0x6C (dropWhile is_digit f)
      in (z, w, l, f))"

lemma split_directive_length: "split_directive f = (z, w, l, d # f') \<Longrightarrow> length f' < length f"
proof -
  assume s: "split_directive f = (z, w, l, d # f')"
  have sk: "length (snd (skip_char c g)) \<le> length g" for c g by (simp add: skip_char_def split: list.splits)
  obtain f1 where "d # f' = snd (skip_char 0x6C (dropWhile is_digit f1))" "f1 = snd (skip_char 0x30 f)"
    using s by (auto simp: split_directive_def Let_def split: prod.splits)
  then have "length (d # f') \<le> length f"
    using sk [of "0x6C" "dropWhile is_digit f1"] length_dropWhile_le [of is_digit f1] sk [of "0x30" f] by simp
  then show "length f' < length f" by simp
qed

function render :: "u8 list \<Rightarrow> arg list \<Rightarrow> u8 list option" where
  "render [] args = Some []"
| "render (c # f) args =
     (if c \<noteq> 0x25 then map_option (Cons c) (render f args)
      else (case split_directive f of
        (z, w, l, []) \<Rightarrow> None
      | (z, w, l, d # f') \<Rightarrow> Option.bind (render_directive d z w l args) (\<lambda>(args, cs).
           map_option ((@) cs) (render f' args))))"
  by pat_completeness auto
termination
  by (relation "measure (\<lambda>(f, args). length f)") (auto dest!: split_directive_length [OF sym])

text \<open>
  Every string argument that has characters is put before \<open>n\<close> characters are out, of which \<open>p\<close> are out already. What is cut off by the end of the
  buffer may be anything but a part of a string argument.
\<close>

definition arg_text :: "arg list \<Rightarrow> u8 list" where
  "arg_text args = (case args of Str a xs # _ \<Rightarrow> xs | _ \<Rightarrow> null_string)"

function strs_fit :: "nat \<Rightarrow> nat \<Rightarrow> u8 list \<Rightarrow> arg list \<Rightarrow> bool" where
  "strs_fit n p [] args \<longleftrightarrow> True"
| "strs_fit n p (c # f) args \<longleftrightarrow>
     (if c \<noteq> 0x25 then strs_fit n (p + 1) f args
      else (case split_directive f of
        (z, w, l, []) \<Rightarrow> True
      | (z, w, l, d # f') \<Rightarrow> (case render_directive d z w l args of
          None \<Rightarrow> True
        | Some (args', cs) \<Rightarrow> (d = 0x73 \<and> arg_text args \<noteq> [] \<longrightarrow> p + length cs \<le> n) \<and> strs_fit n (p + length cs) f' args')))"
  by pat_completeness auto
termination
  by (relation "measure (\<lambda>(n, p, f, args). length f)") (auto dest!: split_directive_length [OF sym])

lemma strs_fit_short: "render f args = Some cs \<Longrightarrow> p + length cs \<le> n \<Longrightarrow> strs_fit n p f args"
  by (induction f args arbitrary: cs p rule: render.induct) (fastforce split: if_splits prod.splits list.splits option.splits simp: bind_eq_Some_conv)+

text \<open>The string in a buffer of \<open>sz\<close> bytes after the output; \<open>None\<close> when a string argument does not fit.\<close>

definition formatted :: "nat \<Rightarrow> u8 list \<Rightarrow> arg list \<Rightarrow> u8 list option" where
  "formatted sz f args =
     Option.bind (render f args) (\<lambda>cs. if strs_fit (sz - 1) 0 f args then Some (takeWhile (\<lambda>c. c \<noteq> 0) (take (sz - 1) cs)) else None)"

lemma formatted_short:
  assumes "render f args = Some cs" "length cs < sz" "0 \<notin> set cs"
  shows "formatted sz f args = Some cs"
proof -
  have "take (sz - 1) cs = cs" "takeWhile (\<lambda>c. c \<noteq> 0) cs = cs" using assms(2,3) by (auto simp: takeWhile_eq_all_conv)
  then show ?thesis using strs_fit_short [OF assms(1), of 0 "sz - 1"] assms(1,2) by (simp add: formatted_def)
qed

section \<open>The buffer receives the stream\<close>

lemma put_pad_fold: "put_pad n buf sz c st = fold (put buf sz) (replicate n c) st"
  by (induction n arbitrary: st) auto

lemma put_tmp_cstr: "cstr tmp i cs \<Longrightarrow> put_tmp tmp i buf sz st = Some (fold (put buf sz) cs st)"
proof (induction cs arbitrary: i st)
  case Nil
  then show ?case by (subst put_tmp.simps) simp
next
  case (Cons c cs)
  then show ?case by (subst put_tmp.simps) auto
qed

lemma sint_length: "n < 2 ^ 31 \<Longrightarrow> sint (ucast (of_nat n :: u64) :: u32) = int n"
proof -
  assume n: "n < 2 ^ 31"
  then have "signed_take_bit 31 (int n) = int n" by (intro signed_take_bit_int_eq_self) simp_all
  moreover have "uint (of_nat n :: u64) = int n" using n by (simp add: uint_nat unat_of_nat)
  ultimately show ?thesis by (simp add: signed_ucast_eq)
qed

lemma number_string_length: "2 \<le> b \<Longrightarrow> v < 2 ^ 64 \<Longrightarrow> length (number_string b v) \<le> 64"
  using udigits_length [of b v 64] by (simp add: number_string_def)

lemma put_number_eq:
  assumes "2 \<le> unat base" "unat base \<le> 36"
  shows "put_number v base w c buf sz st =
    Some (fold (put buf sz) (padded w c (number_string (unat base) (unat v))) st)"
proof -
  let ?ns = "number_string (unat base) (unat v)"
  obtain tmp where t: "utoa v 0 base (\<lambda>_. 0) = Some tmp" "cstr tmp 0 ?ns"
    using utoa_eq [OF assms, of 0 v "\<lambda>_. 0"] by auto
  have "length ?ns < 2 ^ 31"
    using number_string_length [OF assms(1), of "unat v"] unsigned_less [of v, where 'a = nat] by simp
  then show ?thesis
    using t strlen_cstr [OF t(2)] put_tmp_cstr [OF t(2)] sint_length [of "length ?ns"]
    by (simp add: put_number_def padded_def put_pad_fold)
qed

lemma number_string_nonzero: "2 \<le> b \<Longrightarrow> b \<le> 36 \<Longrightarrow> 0 \<notin> set (number_string b v)"
proof
  assume b: "2 \<le> b" "b \<le> 36" and "0 \<in> set (number_string b v)"
  then obtain d where d: "d \<in> set (udigits b v)" "digit_char (of_nat d) = 0" by (auto simp: number_string_def)
  then have "d < 36" using udigits_less [of b d v] b by auto
  then show False using unat_digit_char [of d] d(2) by (simp split: if_splits)
qed

text \<open>A string outside the part of the buffer that \<open>PUT\<close> writes survives it.\<close>

fun outside :: "u64 \<Rightarrow> u64 \<Rightarrow> u64 \<Rightarrow> u8 list \<Rightarrow> bool" where
  "outside buf sz p [] \<longleftrightarrow> \<not> p - buf < sz - 1"
| "outside buf sz p (c # cs) \<longleftrightarrow> \<not> p - buf < sz - 1 \<and> outside buf sz (p + 1) cs"

definition kept :: "u64 \<Rightarrow> u64 \<Rightarrow> mem \<Rightarrow> u64 \<Rightarrow> u8 list \<Rightarrow> bool" where
  "kept buf sz m p cs \<longleftrightarrow> cstr m p cs \<and> outside buf sz p cs"

lemma fold_put_outside: "\<not> a - buf < sz - 1 \<Longrightarrow> fst (fold (put buf sz) cs st) a = fst st a"
proof (induction cs arbitrary: st)
  case (Cons c cs)
  then have "fst (put buf sz c st) a = fst st a" by (auto simp: put_def split: prod.splits)
  then show ?case using Cons by simp
qed simp

lemma kept_fold_put: "kept buf sz m p cs \<Longrightarrow> kept buf sz (fst (fold (put buf sz) xs (m, pos))) p cs"
proof -
  have "outside buf sz p cs \<Longrightarrow> cstr m p cs \<Longrightarrow> cstr (fst (fold (put buf sz) xs (m, pos))) p cs"
    by (induction cs arbitrary: p) (auto simp: fold_put_outside)
  then show "kept buf sz m p cs \<Longrightarrow> kept buf sz (fst (fold (put buf sz) xs (m, pos))) p cs"
    by (simp add: kept_def)
qed

lemma kept_Cons: "kept buf sz m p (c # cs) \<Longrightarrow> m p = c \<and> c \<noteq> 0 \<and> kept buf sz m (p + 1) cs"
  by (simp add: kept_def)

text \<open>There is room for some characters.\<close>

definition room :: "u64 \<Rightarrow> u64 \<Rightarrow> nat \<Rightarrow> bool" where
  "room sz pos n \<longleftrightarrow> n = 0 \<or> unat pos + n \<le> unat (sz - 1)"

lemma room_Suc: "room sz pos (Suc n) \<Longrightarrow> pos < sz - 1 \<and> room sz (pos + 1) n"
proof -
  assume r: "room sz pos (Suc n)"
  then have "unat (pos + 1) = unat pos + 1"
    using unsigned_less [of "sz - 1", where 'a = nat] unat_add_no_wrap [of pos 1] by (simp add: room_def)
  then show ?thesis using r by (simp add: room_def word_less_nat_alt)
qed

lemma put_str_kept:
  "kept buf sz (fst st) s cs \<Longrightarrow> room sz (snd st) (length cs) \<Longrightarrow> put_str s buf sz st = Some (fold (put buf sz) cs st)"
proof (induction cs arbitrary: s st)
  case Nil
  then show ?case by (subst put_str.simps) (auto simp: kept_def split: prod.splits)
next
  case (Cons c cs)
  obtain m pos where st: "st = (m, pos)" by (cases st)
  have r: "pos < sz - 1" "room sz (pos + 1) (length cs)" using room_Suc Cons.prems(2) st by auto
  have k: "m s = c" "c \<noteq> 0" "kept buf sz m (s + 1) cs" using kept_Cons [OF Cons.prems(1)] st by simp_all
  have "kept buf sz (m(buf + pos := c)) (s + 1) cs"
    using kept_fold_put [OF k(3), of "[c]" pos] r(1) by (simp add: put_def)
  with Cons.IH [of "(m(buf + pos := c), pos + 1)" "s + 1"] r(2)
  have "put_str (s + 1) buf sz (m(buf + pos := c), pos + 1) = Some (fold (put buf sz) cs (m(buf + pos := c), pos + 1))" by (simp del: fun_upd_apply)
  then show ?case using k r(1) st by (subst put_str.simps) (simp add: put_def)
qed

lemma put_literal_fits: "room sz (snd st) (length cs) \<Longrightarrow> put_literal cs buf sz st = Some (fold (put buf sz) cs st)"
proof (induction cs arbitrary: st)
  case Nil
  then show ?case by (subst put_literal.simps) (simp split: prod.splits)
next
  case (Cons c cs)
  obtain m pos where st: "st = (m, pos)" by (cases st)
  have r: "pos < sz - 1" "room sz (pos + 1) (length cs)" using room_Suc Cons.prems st by auto
  have "put buf sz c (m, pos) = (m(buf + pos := c), pos + 1)" using r(1) by (simp add: put_def)
  then show ?case using r Cons.IH [of "(m(buf + pos := c), pos + 1)"] st by (subst put_literal.simps) simp
qed

lemma snd_fold_put: "snd (fold (put buf sz) cs st) = snd st + of_nat (length cs)"
  by (induction cs arbitrary: st) (auto simp: put_def split: prod.splits)

lemma snd_put_pad: "snd (put_pad n buf sz c st) = snd st + of_nat n"
  unfolding put_pad_fold snd_fold_put by simp

lemma room_append:
  assumes "ys \<noteq> [] \<longrightarrow> unat pos + length (xs @ ys) \<le> unat (sz - 1)"
  shows "room sz (pos + of_nat (length xs)) (length ys)"
proof (cases "ys = []")
  case False
  then have le: "unat pos + length xs + length ys \<le> unat (sz - 1)" using assms by simp
  then have "unat pos + length xs < 2 ^ 64" using unsigned_less [of "sz - 1", where 'a = nat] by simp
  then have "unat (pos + of_nat (length xs)) = unat pos + length xs" by (simp add: unat_word_ariths unat_of_nat)
  then show ?thesis using le by (simp add: room_def)
qed (simp add: room_def)

definition arg_ok :: "u64 \<Rightarrow> u64 \<Rightarrow> mem \<Rightarrow> arg \<Rightarrow> bool" where
  "arg_ok buf sz m a = (case a of Num _ \<Rightarrow> True
     | Str p xs \<Rightarrow> p \<noteq> 0 \<and> length xs < 2 ^ 31 \<and> kept buf sz m p xs)"

lemma arg_ok_fold_put: "arg_ok buf sz m a \<Longrightarrow> arg_ok buf sz (fst (fold (put buf sz) xs (m, pos))) a"
  using kept_fold_put by (auto simp: arg_ok_def split: arg.splits)

lemma format_directive_render:
  assumes "render_directive c z w l args = Some (args', cs)" "\<forall>a\<in>set args. arg_ok buf sz (fst st) a"
    and fit: "c = 0x73 \<and> arg_text args \<noteq> [] \<longrightarrow> unat (snd st) + length cs \<le> unat (sz - 1)"
  shows "format_directive c z w l buf sz (map arg_slot args) st =
    Some (map arg_slot args', fold (put buf sz) cs st) \<and> set args' \<subseteq> set args"
proof -
  note N = put_number_eq [where base = 10, simplified] put_number_eq [where base = 16, simplified]
  have sl: "length null_string = 6" by (simp add: null_string_def)
  show ?thesis
  proof (cases args)
    case Nil
    then show ?thesis using assms(1)
      by (auto simp: render_directive_def format_directive_def Let_def split: if_splits)
  next
    case (Cons a as)
    show ?thesis
    proof (cases "c = 0x73")
      case True
      show ?thesis
      proof (cases a)
        case (Num n)
        have lit: "put_literal null_string buf sz (put_pad k buf sz 0x20 st) = Some (fold (put buf sz) null_string (put_pad k buf sz 0x20 st))"
          if "cs = replicate k 0x20 @ null_string" for k
        proof (rule put_literal_fits)
          have "unat (snd st) + length (replicate k (0x20 :: u8) @ null_string) \<le> unat (sz - 1)"
            using fit True Cons Num that by (simp add: arg_text_def null_string_def)
          then show "room sz (snd (put_pad k buf sz 0x20 st)) (length null_string)"
            using room_append [of null_string "snd st" "replicate k 0x20" sz] by (simp add: snd_put_pad)
        qed
        then show ?thesis using assms(1) True Cons Num
          by (auto simp: render_directive_def format_directive_def Let_def padded_def put_pad_fold sl split: if_splits) (metis surj_pair)
      next
        case (Str p xs)
        then have k: "p \<noteq> 0" "length xs < 2 ^ 31" "kept buf sz (fst st) p xs"
          using assms(2) Cons by (auto simp: arg_ok_def)
        have "put_str p buf sz (put_pad n buf sz 0x20 st) = Some (fold (put buf sz) (replicate n 0x20 @ xs) st)"
          if "cs = replicate n 0x20 @ xs" for n
        proof -
          have "xs \<noteq> [] \<longrightarrow> unat (snd st) + length (replicate n (0x20 :: u8) @ xs) \<le> unat (sz - 1)"
            using fit True Cons Str that by (simp add: arg_text_def)
          then have "room sz (snd (put_pad n buf sz 0x20 st)) (length xs)"
            using room_append [of xs "snd st" "replicate n 0x20" sz] by (simp add: snd_put_pad)
          then show ?thesis using put_str_kept [of buf sz "put_pad n buf sz 0x20 st" p xs]
            kept_fold_put [OF k(3), of "replicate n 0x20" "snd st"] by (simp add: put_pad_fold)
        qed
        moreover have "strlen p (fst st) = Some (of_nat (length xs))" using k(3) strlen_cstr by (simp add: kept_def)
        moreover have "args' = as" "cs = replicate (nat (w - int (length xs))) 0x20 @ xs"
          using assms(1) True Cons Str by (simp_all add: render_directive_def Let_def padded_def split: if_splits)
        ultimately show ?thesis using True Cons Str k(1) sint_length [OF k(2)]
          by (simp add: format_directive_def Let_def del: fold_append)  auto
      qed
    next
      case False
      then show ?thesis using assms(1) Cons
        by (auto simp: render_directive_def format_directive_def Let_def N split: if_splits)
    qed
  qed
qed


definition width_of :: "int \<Rightarrow> u8 list \<Rightarrow> int" where
  "width_of w ds = foldl (\<lambda>w c. w * 10 + (uint c - 0x30)) w ds"

lemma width_of_simps: "width_of w [] = w" "width_of w (c # ds) = width_of (w * 10 + (uint c - 0x30)) ds"
  by (simp_all add: width_of_def)

lemma is_digit_uint: "is_digit c \<Longrightarrow> 0 \<le> uint c - 0x30"
  by (simp add: is_digit_def word_le_def)

lemma width_of_mono: "\<forall>c\<in>set ds. is_digit c \<Longrightarrow> 0 \<le> w \<Longrightarrow> w \<le> width_of w ds"
proof (induction ds arbitrary: w)
  case (Cons c ds)
  have "0 \<le> uint c - 0x30" using Cons.prems(1) is_digit_uint by simp
  with Cons.IH [of "w * 10 + (uint c - 0x30)"] Cons.prems show ?case by (simp add: width_of_simps)
qed (simp add: width_of_simps)

lemma parse_width_cstr:
  "cstr m p f \<Longrightarrow> 0 \<le> w \<Longrightarrow> width_of w (takeWhile is_digit f) < 2 ^ 31 \<Longrightarrow>
     parse_width w p m = Some (width_of w (takeWhile is_digit f), p + of_nat (length (takeWhile is_digit f)))"
proof (induction f arbitrary: p w)
  case Nil
  then show ?case by (subst parse_width.simps) (simp add: width_of_simps)
next
  case (Cons c f)
  show ?case
  proof (cases "is_digit c")
    case True
    let ?w = "w * 10 + (uint c - 0x30)"
    have w: "0 \<le> ?w" using is_digit_uint [OF True] Cons.prems(2) by simp
    have lt: "width_of ?w (takeWhile is_digit f) < 2 ^ 31" using Cons.prems(3) True by (simp add: width_of_simps)
    have "?w \<le> width_of ?w (takeWhile is_digit f)" by (rule width_of_mono [OF _ w]) (auto dest: set_takeWhileD)
    then have "\<not> ?w \<ge> 2 ^ 31" using lt by linarith
    then show ?thesis using Cons.IH [of "p + 1" ?w] w lt True Cons.prems(1)
      by (subst parse_width.simps) (simp add: is_digit_def [symmetric] width_of_simps add.assoc Let_def)
  next
    case False
    then show ?thesis using Cons.prems(1) by (subst parse_width.simps) (simp add: is_digit_def [symmetric] width_of_simps)
  qed
qed

lemma kept_dropWhile: "kept buf sz m p f \<Longrightarrow> kept buf sz m (p + of_nat (length (takeWhile P f))) (dropWhile P f)"
proof (induction f arbitrary: p)
  case (Cons c f)
  then show ?case using kept_Cons [OF Cons.prems] Cons.IH [of "p + 1"] by (auto simp: add.assoc)
qed simp

lemma kept_skip_char:
  assumes "kept buf sz m p f" "skip_char c f = (b, f')" "c \<noteq> 0"
  shows "(m p = c) = b \<and> kept buf sz m (if b then p + 1 else p) f'"
  using assms by (cases f) (auto simp: skip_char_def kept_def split: if_splits)

lemma vsnprintf_loop_render:
  assumes "render f args = Some cs" "kept buf sz m fmt f" "\<forall>a\<in>set args. arg_ok buf sz m a"
    and "strs_fit (unat (sz - 1)) (unat pos) f args" "unat pos + length cs < 2 ^ 64"
  shows "vsnprintf_loop buf sz fmt (map arg_slot args) (m, pos) = Some (fold (put buf sz) cs (m, pos))"
  using assms
proof (induction f args arbitrary: cs m fmt pos rule: render.induct)
  case (1 args)
  then show ?case by (subst vsnprintf_loop.simps) (simp add: kept_def)
next
  case (2 c f args)
  note k = kept_Cons [OF "2.prems"(2)]
  show ?case
  proof (cases "c = 0x25")
    case False
    then obtain cs' where cs: "render f args = Some cs'" "cs = c # cs'" using "2.prems"(1) by auto
    obtain m1 pos1 where p: "put buf sz c (m, pos) = (m1, pos1)" by (cases "put buf sz c (m, pos)")
    have m1: "m1 = fst (fold (put buf sz) [c] (m, pos))" using p by simp
    have up: "unat pos1 = unat pos + 1"
    proof -
      have "pos1 = pos + 1" using p by (auto simp: put_def)
      then show ?thesis using "2.prems"(5) cs(2) unat_add_no_wrap [of pos 1] by simp
    qed
    have "kept buf sz m1 (fmt + 1) f" "\<forall>a\<in>set args. arg_ok buf sz m1 a"
      unfolding m1 using kept_fold_put arg_ok_fold_put k "2.prems"(3) by blast+
    moreover have "strs_fit (unat (sz - 1)) (unat pos1) f args" "unat pos1 + length cs' < 2 ^ 64"
      using "2.prems"(4,5) False cs(2) up by simp_all
    ultimately have "vsnprintf_loop buf sz (fmt + 1) (map arg_slot args) (m1, pos1) = Some (fold (put buf sz) cs' (m1, pos1))"
      by (rule "2.IH"(1) [OF False cs(1)])
    then show ?thesis
      using k False cs(2) p by (subst vsnprintf_loop.simps) simp
  next
    case True
    obtain z w l f3 where sd: "split_directive f = (z, w, l, f3)" by (cases "split_directive f") auto
    then obtain d f4 where f3: "f3 = d # f4" using "2.prems"(1) True by (cases f3) auto
    obtain args' cs1 cs2 where r: "render_directive d z w l args = Some (args', cs1)"
      "render f4 args' = Some cs2" "cs = cs1 @ cs2"
      using "2.prems"(1) True sd f3 by (auto simp: bind_eq_Some_conv)
    obtain f1 where f1: "skip_char 0x30 f = (z, f1)"
      "w = width_of 0 (takeWhile is_digit f1)"
      "skip_char 0x6C (dropWhile is_digit f1) = (l, f3)"
      using sd by (auto simp: split_directive_def Let_def width_of_def split: prod.splits)
    define p1 where "p1 = (if z then fmt + 1 + 1 else fmt + 1)"
    define p2 where "p2 = p1 + of_nat (length (takeWhile is_digit f1))"
    define p3 where "p3 = (if l then p2 + 1 else p2)"
    have a1: "(m (fmt + 1) = 0x30) = z" "kept buf sz m p1 f1"
      using kept_skip_char [OF _ f1(1)] k by (auto simp: p1_def)
    have wlt: "w < 2 ^ 31" using r(1) by (auto simp: render_directive_def split: if_splits)
    have a2: "parse_width 0 p1 m = Some (w, p2)" "kept buf sz m p2 (dropWhile is_digit f1)"
      using wlt parse_width_cstr [of m p1 f1 0] kept_dropWhile [OF a1(2)] a1(2) f1(2)
      by (simp_all add: kept_def p2_def)
    have a3: "(m p2 = 0x6C) = l" "kept buf sz m p3 (d # f4)"
      using kept_skip_char [OF a2(2) f1(3)] f3 by (auto simp: p3_def)
    have a4: "m p3 = d" "kept buf sz m (p3 + 1) f4" using kept_Cons [OF a3(2)] by auto
    have fd: "format_directive d z w l buf sz (map arg_slot args) (m, pos) =
        Some (map arg_slot args', fold (put buf sz) cs1 (m, pos))" "set args' \<subseteq> set args"
      using format_directive_render [OF r(1), of buf sz "(m, pos)"] "2.prems"(3,4) True sd f3 r(1) by auto
    obtain m1 pos1 where p: "fold (put buf sz) cs1 (m, pos) = (m1, pos1)" by (cases "fold (put buf sz) cs1 (m, pos)")
    have m1: "m1 = fst (fold (put buf sz) cs1 (m, pos))" using p by simp
    have "kept buf sz m1 (p3 + 1) f4" "\<forall>a\<in>set args'. arg_ok buf sz m1 a"
      unfolding m1 using kept_fold_put arg_ok_fold_put a4 "2.prems"(3) fd(2) by blast+
    moreover have up: "unat pos1 = unat pos + length cs1"
    proof -
      have "pos1 = pos + of_nat (length cs1)" using snd_fold_put [of buf sz cs1 "(m, pos)"] p by simp
      moreover have "unat pos + length cs1 < 2 ^ 64" using "2.prems"(5) r(3) by simp
      ultimately show ?thesis by (simp add: unat_word_ariths unat_of_nat)
    qed
    moreover have "strs_fit (unat (sz - 1)) (unat pos1) f4 args'" "unat pos1 + length cs2 < 2 ^ 64"
      using "2.prems"(4,5) True sd f3 r(1,3) up by simp_all
    ultimately have "vsnprintf_loop buf sz (p3 + 1) (map arg_slot args') (m1, pos1) = Some (fold (put buf sz) cs2 (m1, pos1))"
      using "2.IH"(2) [OF _ sd [symmetric]] True f3 r(1,2) by simp
    moreover have "vsnprintf_loop buf sz fmt (map arg_slot args) (m, pos) =
        vsnprintf_loop buf sz (p3 + 1) (map arg_slot args') (m1, pos1)"
      using k True a1(1) a2(1) a3(1) a4(1) fd(1) p
      by (subst vsnprintf_loop.simps) (simp add: Let_def p1_def p3_def cong: if_cong)
    ultimately show ?thesis using r(3) p by simp
  qed
qed


lemma fold_put_content:
  assumes "length cs < 2 ^ 64"
  shows "fold (put buf sz) cs (m, 0) = ((\<lambda>a. if a - buf < sz - 1 \<and> unat (a - buf) < length cs
    then cs ! unat (a - buf) else m a), of_nat (length cs))"
  using assms
proof (induction cs rule: rev_induct)
  case (snoc c cs)
  have u: "unat (of_nat (length cs) :: u64) = length cs" using snoc.prems by (simp add: unat_of_nat)
  have eq: "a = buf + of_nat (length cs) \<longleftrightarrow> unat (a - buf) = length cs" for a
    using u by (metis add_diff_cancel_left' diff_add_cancel add.commute word_unat_eq_iff)
  show ?case using snoc
    by (auto simp: put_def fun_eq_iff eq nth_append word_less_nat_alt u)
qed simp

lemma ucast_of_nat_32: "(ucast (of_nat n :: u64) :: u32) = of_nat n"
  by (simp add: word_unat_eq_iff unsigned_ucast_eq unat_of_nat take_bit_eq_mod mod_mod_cancel)

section \<open>Correctness\<close>

lemma vsnprintf_renders:
  assumes "0 < sz" "render f args = Some cs" "length cs < 2 ^ 64"
    and "kept buf sz m fmt f" "\<forall>a\<in>set args. arg_ok buf sz m a" "strs_fit (unat sz - 1) 0 f args"
  shows "vsnprintf buf sz fmt (map arg_slot args) m = Some (of_nat (length cs), (\<lambda>a.
    let i = unat (a - buf); n = min (length cs) (unat sz - 1) in
    if i < n then cs ! i else if i = n then 0 else m a))"
proof -
  have s1: "unat (sz - 1) = unat sz - 1" "0 < unat sz" using assms(1) unat_dec [of sz] by (auto simp: word_gt_0)
  have ul: "unat (of_nat (length cs) :: u64) = length cs" using assms(3) by (simp add: unat_of_nat)
  have le: "length cs < unat sz \<longleftrightarrow> of_nat (length cs) < sz" by (simp add: word_less_nat_alt ul)
  define e where "e = (if of_nat (length cs) < sz then of_nat (length cs) else sz - 1)"
  have ue: "unat e = min (length cs) (unat sz - 1)" using s1 ul le by (auto simp: e_def)
  have eq: "a = buf + e \<longleftrightarrow> unat (a - buf) = min (length cs) (unat sz - 1)" for a
    using ue by (metis add_diff_cancel_left' diff_add_cancel add.commute word_unat_eq_iff)
  have "vsnprintf_loop buf sz fmt (map arg_slot args) (m, 0) = Some (fold (put buf sz) cs (m, 0))"
    by (rule vsnprintf_loop_render [OF assms(2,4,5)]) (use assms(3,6) s1(1) in simp_all)
  then have "vsnprintf buf sz fmt (map arg_slot args) m = Some (of_nat (length cs),
      (fst (fold (put buf sz) cs (m, 0)))(buf + e := 0))"
    using assms(1) fold_put_content [OF assms(3), of buf sz m] ucast_of_nat_32
    by (simp add: vsnprintf_def e_def)
  moreover have "(fst (fold (put buf sz) cs (m, 0)))(buf + e := 0) = (\<lambda>a.
    let i = unat (a - buf); n = min (length cs) (unat sz - 1) in
    if i < n then cs ! i else if i = n then 0 else m a)"
    using s1 by (auto simp: fold_put_content [OF assms(3)] fun_eq_iff eq word_less_nat_alt Let_def)
  ultimately show ?thesis by simp
qed

text \<open>
  C15. \<open>vsnprintf\<close> into a buffer of nonzero size returns for every format the renderer accepts. The
  buffer receives the rendered characters up to one less than its size, followed by a zero; no
  other byte of memory changes; and the result is the length of the whole output. The format and
  the string arguments must lie outside the buffer, and every string argument must fit into it as a whole:
  numbers, characters and the text of the format may be cut off anywhere.
\<close>

theorem vsnprintf_correct:
  assumes "0 < sz" "render f args = Some cs" "length cs < 2 ^ 64"
    and "kept buf sz m fmt f" "\<forall>a\<in>set args. arg_ok buf sz m a" "strs_fit (unat sz - 1) 0 f args"
  shows "vsnprintf buf sz fmt (map arg_slot args) m = Some (of_nat (length cs), (\<lambda>a.
    let i = unat (a - buf); n = min (length cs) (unat sz - 1) in
    if i < n then cs ! i else if i = n then 0 else m a))"
  using assms by (rule vsnprintf_renders)

text \<open>The format \<open>%03u\<close> with the argument 7 in a buffer of three bytes: only two digits fit.\<close>

theorem vsnprintf_correct_witness:
  "\<exists>m'. vsnprintf 0x200 3 0x100 [7]
      ((\<lambda>_. 0xAA)(0x100 := 0x25, 0x101 := 0x30, 0x102 := 0x33, 0x103 := 0x75, 0x104 := 0)) = Some (3, m') \<and>
     m' 0x200 = 0x30 \<and> m' 0x201 = 0x30 \<and> m' 0x202 = 0 \<and> m' 0x203 = 0xAA"
proof -
  let ?m = "(\<lambda>_. 0xAA)(0x100 := 0x25, 0x101 := 0x30, 0x102 := 0x33, 0x103 := 0x75, 0x104 := 0) :: mem"
  have sd: "split_directive [0x30, 0x33, 0x75] = (True, 3, False, [0x75])"
    by (simp add: split_directive_def skip_char_def is_digit_def)
  have ns: "number_string 10 7 = [0x37]"
    by (simp add: number_string_def udigits.simps digit_char_def)
  have rd: "render_directive 0x75 True 3 False [Num 7] = Some ([], [0x30, 0x30, 0x37])"
  proof -
    have "replicate 2 (0x30 :: u8) = [0x30, 0x30]" by (simp add: numeral_2_eq_2)
    then show ?thesis using ns by (simp add: render_directive_def padded_def va_unsigned_def)
  qed
  then have r: "render [0x25, 0x30, 0x33, 0x75] [Num 7] = Some [0x30, 0x30, 0x37]" using sd by simp
  have k: "kept 0x200 3 ?m 0x100 [0x25, 0x30, 0x33, 0x75]" by (simp add: kept_def)
  have "vsnprintf 0x200 3 0x100 (map arg_slot [Num 7]) ?m = Some (of_nat (length [0x30, 0x30, 0x37 :: u8]), (\<lambda>a.
    let i = unat (a - 0x200); n = min (length [0x30, 0x30, 0x37 :: u8]) (unat (3 :: u64) - 1) in
    if i < n then [0x30, 0x30, 0x37] ! i else if i = n then 0 else ?m a))"
    by (rule vsnprintf_correct [OF _ r _ k]) (simp_all add: arg_ok_def sd rd)
  then show ?thesis by (simp add: Let_def)
qed

section \<open>A string that does not fit\<close>

lemma put_str_wraps: "\<not> pos < sz - 1 \<Longrightarrow> m s \<noteq> 0 \<Longrightarrow> put_str s buf sz (m, pos) = put_str s buf sz (m, 0)"
proof (induction "2 ^ 64 - unat pos" arbitrary: pos rule: less_induct)
  case less
  have step: "put_str s buf sz (m, pos) = put_str s buf sz (m, pos + 1)"
    using less.prems by (subst put_str.simps) simp
  show ?case
  proof (cases "pos + 1 = 0")
    case False
    have "(unat pos + 1) mod 2 ^ 64 \<noteq> 0"
      using False by (simp add: word_unat_eq_iff unat_word_ariths)
    then have "unat pos + 1 \<noteq> 2 ^ 64" by (metis mod_self)
    then have "unat pos + 1 < 2 ^ 64" using unsigned_less [of pos, where 'a = nat] by simp
    then have u: "unat (pos + 1) = unat pos + 1" using unat_add_no_wrap [of pos 1] by simp
    then have "\<not> pos + 1 < sz - 1" using less.prems(1) by (simp add: word_less_nat_alt)
    moreover have "2 ^ 64 - unat (pos + 1) < 2 ^ 64 - unat pos" using u unsigned_less [of pos, where 'a = nat] by simp
    ultimately show ?thesis using step less.hyps less.prems(2) by metis
  qed (use step in simp)
qed

lemma put_str_stuck: "put_str s buf sz st = Some y \<Longrightarrow> sz = 1 \<longrightarrow> fst st s = 0"
  by (erule put_str.raw_induct [rotated]) (auto simp: Let_def split: prod.splits if_splits)

lemma put_str_prefix:
  "kept buf sz (fst st) s (xs @ ys) \<Longrightarrow> room sz (snd st) (length xs) \<Longrightarrow>
     put_str s buf sz st = put_str (s + of_nat (length xs)) buf sz (fold (put buf sz) xs st)"
proof (induction xs arbitrary: s st)
  case (Cons c cs)
  obtain m pos where st: "st = (m, pos)" by (cases st)
  have r: "pos < sz - 1" "room sz (pos + 1) (length cs)" using room_Suc Cons.prems(2) st by auto
  have k: "m s = c" "c \<noteq> 0" "kept buf sz m (s + 1) (cs @ ys)" using kept_Cons [of buf sz m s c "cs @ ys"] Cons.prems(1) st by simp_all
  have p: "put buf sz c (m, pos) = (m(buf + pos := c), pos + 1)" using r(1) by (simp add: put_def)
  have "kept buf sz (m(buf + pos := c)) (s + 1) (cs @ ys)"
    using kept_fold_put [OF k(3), of "[c]" pos] p by simp
  then have "put_str (s + 1) buf sz (m(buf + pos := c), pos + 1) =
      put_str (s + 1 + of_nat (length cs)) buf sz (fold (put buf sz) cs (m(buf + pos := c), pos + 1))"
    using Cons.IH [of "(m(buf + pos := c), pos + 1)" "s + 1"] r(2) by (simp del: fun_upd_apply)
  then show ?case using k r(1) st p by (subst put_str.simps) (simp add: add.assoc)
qed simp

lemma kept_append: "kept buf sz m s (xs @ ys) \<Longrightarrow> kept buf sz m (s + of_nat (length xs)) ys"
proof (induction xs arbitrary: s)
  case (Cons c cs)
  then show ?case using kept_Cons [of buf sz m s c "cs @ ys"] Cons.IH [of "s + 1"] by (simp add: add.assoc)
qed simp

text \<open>The string goes round the buffer of \<open>k\<close> characters: the last round starts after \<open>last_round k n\<close> characters.\<close>

definition last_round :: "nat \<Rightarrow> nat \<Rightarrow> nat" where
  "last_round k n = k * ((n - 1) div k)"

definition round_bytes :: "nat \<Rightarrow> u8 list \<Rightarrow> nat \<Rightarrow> u8 option" where
  "round_bytes k xs i =
     (let q = last_round k (length xs) in
      if q + i < length xs \<and> i < k then Some (xs ! (q + i))
      else if k \<le> q \<and> i < k then Some (xs ! (q - k + i)) else None)"

lemma last_round_step: "0 < k \<Longrightarrow> k < n \<Longrightarrow> last_round k n = k + last_round k (n - k)"
  by (simp add: last_round_def le_div_geq)

lemma last_round_first: "n \<le> k \<Longrightarrow> last_round k n = 0"
  by (cases n) (auto simp: last_round_def)

lemma last_round_bounds: "0 < k \<Longrightarrow> 0 < n \<Longrightarrow> last_round k n < n \<and> n \<le> last_round k n + k"
proof -
  assume a: "0 < k" "0 < n"
  have "k * ((n - 1) div k) + (n - 1) mod k = n - 1" "(n - 1) mod k < k" using a(1) by simp_all
  then show ?thesis unfolding last_round_def using a(2) by linarith
qed

lemma round_bytes_step:
  assumes "0 < k" "k < length xs"
  shows "round_bytes k xs i = (case round_bytes k (drop k xs) i of Some b \<Rightarrow> Some b | None \<Rightarrow> if i < k then Some (xs ! i) else None)"
proof -
  define q where "q = last_round k (length xs - k)"
  have q: "last_round k (length xs) = k + q" "last_round k (length (drop k xs)) = q"
    using last_round_step [OF assms] by (simp_all add: q_def)
  have "q = 0 \<or> k \<le> q"
    by (cases "(length xs - k - 1) div k") (auto simp: q_def last_round_def)
  then show ?thesis using assms q by (auto simp: round_bytes_def Let_def nth_drop ac_simps)
qed

lemma put_str_rounds:
  assumes "xs \<noteq> []" "0 < unat (sz - 1)" "kept buf sz m s xs"
  shows "put_str s buf sz (m, 0) =
    Some (\<lambda>a. (case round_bytes (unat (sz - 1)) xs (unat (a - buf)) of Some b \<Rightarrow> b | None \<Rightarrow> m a),
          of_nat (length xs - last_round (unat (sz - 1)) (length xs)))"
  using assms
proof (induction "length xs" arbitrary: xs m s rule: less_induct)
  case less
  let ?k = "unat (sz - 1)"
  have k64: "?k < 2 ^ 64" using unsigned_less [of "sz - 1", where 'a = nat] by simp
  show ?case
  proof (cases "length xs \<le> ?k")
    case True
    have "put_str s buf sz (m, 0) = Some (fold (put buf sz) xs (m, 0))"
      using put_str_kept [of buf sz "(m, 0)" s xs] less.prems(3) True by (simp add: room_def)
    then show ?thesis using True k64
      by (auto simp: fold_put_content round_bytes_def Let_def last_round_first fun_eq_iff word_less_nat_alt)
  next
    case False
    let ?ys = "take ?k xs" and ?zs = "drop ?k xs"
    have l: "length ?ys = ?k" using False by simp
    have k: "kept buf sz m s (?ys @ ?zs)" using less.prems(3) by simp
    define m1 where m1a: "m1 = (\<lambda>a. if unat (a - buf) < ?k then xs ! unat (a - buf) else m a)"
    have m1: "fold (put buf sz) ?ys (m, 0) = (m1, sz - 1)"
      using fold_put_content [of ?ys buf sz m] k64 l False unfolding m1a by (auto simp: word_less_nat_alt fun_eq_iff)
    have "put_str s buf sz (m, 0) = put_str (s + of_nat ?k) buf sz (m1, sz - 1)"
      using put_str_prefix [of buf sz "(m, 0)" s ?ys ?zs] k m1 l by (simp add: room_def)
    moreover have kz: "kept buf sz m1 (s + of_nat ?k) ?zs"
      using kept_fold_put [OF kept_append [OF k], of ?ys 0] m1 l by simp
    moreover have "?zs \<noteq> []" using False by simp
    moreover from this have "m1 (s + of_nat ?k) \<noteq> 0" using kept_Cons [of buf sz m1 "s + of_nat ?k" "hd ?zs" "tl ?zs"] kz by simp
    ultimately have "put_str s buf sz (m, 0) = put_str (s + of_nat ?k) buf sz (m1, 0)" using put_str_wraps [of "sz - 1" sz] by simp
    also have "\<dots> = Some (\<lambda>a. (case round_bytes ?k ?zs (unat (a - buf)) of Some b \<Rightarrow> b | None \<Rightarrow> m1 a),
        of_nat (length ?zs - last_round ?k (length ?zs)))"
      by (rule less.hyps [OF _ \<open>?zs \<noteq> []\<close> less.prems(2) kz]) (use less.prems(1,2) in \<open>simp add: False\<close>)
    finally show ?thesis
      using False less.prems(2) last_round_step [of ?k "length xs"]
      by (auto simp: round_bytes_step m1a fun_eq_iff split: option.splits)
  qed
qed

lemma vsnprintf_loop_string:
  assumes "kept buf sz m fmt [0x25, 0x73]" "kept buf sz m s xs" "s \<noteq> 0" "length xs < 2 ^ 31"
  shows "vsnprintf_loop buf sz fmt [s] (m, 0) =
    Option.bind (put_str s buf sz (m, 0)) (vsnprintf_loop buf sz (fmt + 2) [])"
proof -
  have f: "m fmt = 0x25" "m (fmt + 1) = 0x73" using assms(1) by (simp_all add: kept_def)
  have "parse_width 0 (fmt + 1) m = Some (0, fmt + 1)" using f by (subst parse_width.simps) simp
  moreover have "strlen s m = Some (of_nat (length xs))" using assms(2) strlen_cstr by (simp add: kept_def)
  moreover have "nat (0 - sint (ucast (of_nat (length xs) :: u64) :: u32)) = 0" using sint_length [OF assms(4)] by simp
  ultimately show ?thesis
    using f assms(3) by (subst vsnprintf_loop.simps)
      (simp add: format_directive_def Let_def map_conv_bind_option split_def add.commute [of 2] cong: if_cong)
qed

text \<open>
  C16. A string argument that does not fit is not cut off. With the format \<open>%s\<close> and a string \<open>xs\<close> longer than the \<open>k = size - 1\<close> characters the
  buffer takes, the loop waits, for about \<open>2 ^ 64\<close> steps, until the position has wrapped around to 0, and then puts the rest of the string over
  the start of the buffer, as often as it takes. The result is the length of the last round instead of the length of the string, and the buffer
  holds the last round and a zero, behind it bytes of the round before. With a buffer of one byte the loop never ends.
\<close>

theorem vsnprintf_truncated_string:
  assumes "kept buf sz m fmt [0x25, 0x73]" "kept buf sz m s xs" "s \<noteq> 0" "length xs < 2 ^ 31"
    and "0 < sz" "unat sz - 1 < length xs"
  shows "vsnprintf buf sz fmt [s] m =
    (if sz = 1 then None else
     let k = unat sz - 1; q = last_round k (length xs); r = length xs - q in
       Some (of_nat r, \<lambda>a. let i = unat (a - buf) in
         if i < r then xs ! (q + i) else if i = r then 0 else if i < k then xs ! (q - k + i) else m a))"
proof (cases "sz = 1")
  case True
  have "xs \<noteq> []" using assms(6) by auto
  then have "m s \<noteq> 0" using kept_Cons [of buf sz m s "hd xs" "tl xs"] assms(2) by simp
  then have "put_str s buf sz (m, 0) = None" using put_str_stuck [of s buf sz "(m, 0)"] True by (cases "put_str s buf sz (m, 0)") auto
  then show ?thesis using True vsnprintf_loop_string [OF assms(1-4)] by (simp add: vsnprintf_def)
next
  case False
  define k where "k = unat (sz - 1)"
  define q where "q = last_round k (length xs)"
  define r where "r = length xs - q"
  have k1: "unat sz - 1 = k" "0 < k" "unat sz = Suc k"
    using assms(5) False unat_dec [of sz] by (auto simp: k_def word_gt_0 word_unat_eq_iff)
  have b: "q < length xs" "length xs \<le> q + k" "0 < r" "r \<le> k"
    using last_round_bounds [of k "length xs"] k1(1,2) assms(6) unfolding q_def r_def by linarith+
  have kq: "k \<le> q" using last_round_step [of k "length xs"] k1 assms(6) by (simp add: q_def)
  have k64: "k < 2 ^ 64" using unsigned_less [of "sz - 1", where 'a = nat] by (simp add: k_def)
  define m1 where "m1 = (\<lambda>a. (case round_bytes k xs (unat (a - buf)) of Some c \<Rightarrow> c | None \<Rightarrow> m a))"
  have xs: "xs \<noteq> []" using assms(6) by auto
  have p: "put_str s buf sz (m, 0) = Some (m1, of_nat r)"
    using put_str_rounds [OF xs _ assms(2)] k1(2) unfolding m1_def r_def q_def k_def by simp
  have m1a: "m1 a = (let i = unat (a - buf) in if i < r then xs ! (q + i) else if i < k then xs ! (q - k + i) else m a)" for a
    using b kq by (auto simp: m1_def round_bytes_def Let_def q_def [symmetric] r_def)
  have "\<not> fmt + 2 - buf < sz - 1" "m (fmt + 2) = 0"
    using assms(1) by (simp_all add: kept_def add.commute [of 2])
  then have "m1 (fmt + 2) = 0" using b by (simp add: m1a Let_def word_less_nat_alt k_def)
  then have "vsnprintf_loop buf sz (fmt + 2) [] (m1, of_nat r) = Some (m1, of_nat r)" by (subst vsnprintf_loop.simps) simp
  moreover have ur: "unat (of_nat r :: u64) = r" using b k64 by (simp add: unat_of_nat)
  moreover have "(of_nat r :: u64) < sz" using b k1(3) ur by (simp add: word_less_nat_alt)
  ultimately have "vsnprintf buf sz fmt [s] m = Some (of_nat r, m1(buf + of_nat r := 0))"
    using vsnprintf_loop_string [OF assms(1-4)] p assms(5) ucast_of_nat_32 by (simp add: vsnprintf_def)
  moreover have "a = buf + of_nat r \<longleftrightarrow> unat (a - buf) = r" for a
    using ur by (metis add_diff_cancel_left' diff_add_cancel add.commute word_unat_eq_iff)
  ultimately show ?thesis
    using False unfolding k1(1) q_def [symmetric] r_def [symmetric] Let_def
    by (auto simp: m1a fun_eq_iff Let_def)
qed

text \<open>The string \<open>abc\<close> in a buffer of three bytes comes out as \<open>cb\<close>, cut to \<open>c\<close> by the zero, and the result is 1.\<close>

theorem vsnprintf_truncated_string_witness:
  "\<exists>m'. vsnprintf 0x200 3 0x100 [0x300] ((\<lambda>_. 0)(0x100 := 0x25, 0x101 := 0x73, 0x300 := 0x61, 0x301 := 0x62, 0x302 := 0x63)) = Some (1, m') \<and>
     m' 0x200 = 0x63 \<and> m' 0x201 = 0"
proof -
  have "last_round 2 (Suc (Suc (Suc 0))) = 2" by (simp add: last_round_def)
  then show ?thesis
    using vsnprintf_truncated_string [of "0x200" 3
      "(\<lambda>_. 0)(0x100 := 0x25, 0x101 := 0x73, 0x300 := 0x61, 0x301 := 0x62, 0x302 := 0x63)" "0x100" "0x300" "[0x61, 0x62, 0x63]"]
    by (simp add: kept_def Let_def)
qed

text \<open>
  A format that ends in a bare percent sign is not stopped by its terminating zero: the zero is printed as an unknown conversion, and the loop
  goes on with the bytes \<open>f\<close> that follow the format in memory.
\<close>

lemma vsnprintf_trailing_percent:
  assumes "m fmt = 0x25" "m (fmt + 1) = 0" "\<not> fmt - buf < sz - 1" "\<not> fmt + 1 - buf < sz - 1" "kept buf sz m (fmt + 2) f"
    and "0x25 \<notin> set f" "length f < 2 ^ 32"
  shows "vsnprintf_loop buf sz fmt [] (m, 0) = Some (fold (put buf sz) ([0x25, 0] @ f) (m, 0))"
proof -
  have pw: "parse_width 0 (fmt + 1) m = Some (0, fmt + 1)" using assms(2) by (subst parse_width.simps) simp
  have f2: "fmt + 1 + 1 = fmt + 2" by simp
  have one: "vsnprintf_loop buf sz fmt [] (m, 0) = vsnprintf_loop buf sz (fmt + 2) [] (put buf sz 0 (put buf sz 0x25 (m, 0)))"
    using assms(1,2) pw by (subst vsnprintf_loop.simps) (simp add: format_directive_def Let_def f2)
  have r: "0x25 \<notin> set g \<Longrightarrow> render g [] = Some g \<and> strs_fit n p g []" for g n p
    by (induction g arbitrary: p) auto
  obtain m1 where m1: "fold (put buf sz) [0x25, 0] (m, 0) = (m1, 2)"
    using snd_fold_put [of buf sz "[0x25, 0]" "(m, 0)"] by (cases "fold (put buf sz) [0x25, 0] (m, 0)") simp
  have "kept buf sz m1 (fmt + 2) f" using kept_fold_put [OF assms(5), of "[0x25, 0]" 0] m1 by simp
  then have "vsnprintf_loop buf sz (fmt + 2) [] (m1, 2) = Some (fold (put buf sz) f (m1, 2))"
    using vsnprintf_loop_render [of f "[]" f buf sz m1 "fmt + 2" 2] r [OF assms(6)] assms(7) by simp
  then show ?thesis using one m1 by simp
qed

text \<open>With a buffer of size 0 the bound \<open>size - 1\<close> wraps around, and the output is written anyway.\<close>

lemma vsnprintf_size_zero:
  assumes "m fmt = c" "c \<noteq> 0" "c \<noteq> 0x25" "m (fmt + 1) = 0" "fmt + 1 \<noteq> buf"
  shows "vsnprintf buf 0 fmt [] m = Some (1, m(buf := c))"
proof -
  have "vsnprintf_loop buf 0 fmt [] (m, 0) = vsnprintf_loop buf 0 (fmt + 1) [] (m(buf := c), 1)"
    using assms by (subst vsnprintf_loop.simps) (simp add: put_def word_gt_0)
  also have "\<dots> = Some (m(buf := c), 1)" using assms by (subst vsnprintf_loop.simps) simp
  finally show ?thesis by (simp add: vsnprintf_def)
qed

end
