(* ===== verification/Ports.thy ===== *)
theory Ports
  imports CString
begin

text \<open>
  Port input and output, \<^verbatim>\<open>cpu/ports.h\<close>, and the serial line, \<^verbatim>\<open>drivers/serial.c\<close>. The hardware behind
  the ports is a parameter: a record of what an input or output instruction of each width does to
  the state of the devices, which is of an arbitrary type.
\<close>

section \<open>Ports\<close>

record 'd io =
  io_in8 :: "u16 \<Rightarrow> 'd \<Rightarrow> u8 \<times> 'd"
  io_out8 :: "u16 \<Rightarrow> u8 \<Rightarrow> 'd \<Rightarrow> 'd"
  io_in16 :: "u16 \<Rightarrow> 'd \<Rightarrow> u16 \<times> 'd"
  io_out16 :: "u16 \<Rightarrow> u16 \<Rightarrow> 'd \<Rightarrow> 'd"
  io_in32 :: "u16 \<Rightarrow> 'd \<Rightarrow> u32 \<times> 'd"
  io_out32 :: "u16 \<Rightarrow> u32 \<Rightarrow> 'd \<Rightarrow> 'd"

definition inb :: "'d io \<Rightarrow> u16 \<Rightarrow> 'd \<Rightarrow> u8 \<times> 'd" where "inb io port d = io_in8 io port d"
definition outb :: "'d io \<Rightarrow> u16 \<Rightarrow> u8 \<Rightarrow> 'd \<Rightarrow> 'd" where "outb io port x d = io_out8 io port x d"
definition inw :: "'d io \<Rightarrow> u16 \<Rightarrow> 'd \<Rightarrow> u16 \<times> 'd" where "inw io port d = io_in16 io port d"
definition outw :: "'d io \<Rightarrow> u16 \<Rightarrow> u16 \<Rightarrow> 'd \<Rightarrow> 'd" where "outw io port x d = io_out16 io port x d"
definition inl :: "'d io \<Rightarrow> u16 \<Rightarrow> 'd \<Rightarrow> u32 \<times> 'd" where "inl io port d = io_in32 io port d"
definition outl :: "'d io \<Rightarrow> u16 \<Rightarrow> u32 \<Rightarrow> 'd \<Rightarrow> 'd" where "outl io port x d = io_out32 io port x d"

definition io_wait :: "'d io \<Rightarrow> 'd \<Rightarrow> 'd" where
  "io_wait io d = outb io 0x80 0 d"

section \<open>The serial line\<close>

abbreviation (input) COM1 :: u16 where "COM1 \<equiv> 0x3F8"

text \<open>The writes of an initialisation, in order.\<close>

definition outbs :: "'d io \<Rightarrow> (u16 \<times> u8) list \<Rightarrow> 'd \<Rightarrow> 'd" where
  "outbs io ws d = fold (\<lambda>(port, x). outb io port x) ws d"

definition serial_init :: "'d io \<Rightarrow> 'd \<Rightarrow> 'd" where
  "serial_init io d =
     (let d = outbs io [(COM1 + 1, 0x00), (COM1 + 3, 0x80), (COM1 + 0, 0x01), (COM1 + 1, 0x00),
                (COM1 + 3, 0x03), (COM1 + 2, 0xC7), (COM1 + 4, 0x0B),
                (COM1 + 4, 0x1E), (COM1 + 0, 0xAE)] d;
          (x, d) = inb io (COM1 + 0) d
      in if x \<noteq> 0xAE then d else outb io (COM1 + 4) 0x0F d)"

definition serial_is_transmit_empty :: "'d io \<Rightarrow> 'd \<Rightarrow> bool \<times> 'd" where
  "serial_is_transmit_empty io d = (let (x, d) = inb io (COM1 + 5) d in (x AND 0x20 \<noteq> 0, d))"

text \<open>The wait for the transmitter has no bound: \<open>None\<close> when it never becomes empty.\<close>

partial_function (option) serial_putchar :: "'d io \<Rightarrow> u8 \<Rightarrow> 'd \<Rightarrow> 'd option" where
  "serial_putchar io c d =
     (let (empty, d) = serial_is_transmit_empty io d in
      if empty then Some (outb io COM1 c d) else serial_putchar io c d)"

partial_function (option) serial_puts :: "'d io \<Rightarrow> u64 \<Rightarrow> mem \<Rightarrow> 'd \<Rightarrow> 'd option" where
  "serial_puts io s m d =
     (if m s = 0 then Some d
      else Option.bind (if m s = 0x0A then serial_putchar io 0x0D d else Some d) (\<lambda>d.
           Option.bind (serial_putchar io (m s) d) (\<lambda>d. serial_puts io (s + 1) m d)))"

definition serial_received :: "'d io \<Rightarrow> 'd \<Rightarrow> bool \<times> 'd" where
  "serial_received io d = (let (x, d) = inb io (COM1 + 5) d in (x AND 1 \<noteq> 0, d))"

partial_function (option) serial_read :: "'d io \<Rightarrow> 'd \<Rightarrow> (u8 \<times> 'd) option" where
  "serial_read io d =
     (let (ready, d) = serial_received io d in if ready then Some (inb io COM1 d) else serial_read io d)"

section \<open>What reaches the line\<close>

text \<open>
  A line whose transmitter becomes empty after at most \<open>k d\<close> further polls, as the UART documents:
  a poll that finds it busy lowers \<open>k\<close>, and polling sends nothing. \<open>sent\<close> is what was transmitted.
\<close>

definition uart :: "'d io \<Rightarrow> ('d \<Rightarrow> nat) \<Rightarrow> ('d \<Rightarrow> u8 list) \<Rightarrow> bool" where
  "uart io k sent \<longleftrightarrow>
     (\<forall>d x d'. io_in8 io (COM1 + 5) d = (x, d') \<longrightarrow> sent d' = sent d \<and> (x AND 0x20 \<noteq> 0 \<or> k d' < k d)) \<and>
     (\<forall>d c. sent (io_out8 io COM1 c d) = sent d @ [c])"

lemma serial_putchar_sends:
  assumes "uart io k sent"
  shows "\<exists>d'. serial_putchar io c d = Some d' \<and> sent d' = sent d @ [c]"
proof (induction "k d" arbitrary: d rule: less_induct)
  case less
  obtain x d1 where r: "io_in8 io 0x3FD d = (x, d1)" by (cases "io_in8 io 0x3FD d")
  have u: "sent d1 = sent d" "x AND 0x20 \<noteq> 0 \<or> k d1 < k d"
    "sent (io_out8 io COM1 c d1) = sent d1 @ [c]" using assms r by (auto simp: uart_def)
  show ?case
  proof (cases "x AND 0x20 = 0")
    case True
    then have "k d1 < k d" using u(2) by simp
    from less [OF this] u(1) r True show ?thesis
      by (subst serial_putchar.simps) (simp add: serial_is_transmit_empty_def inb_def)
  next
    case False
    then show ?thesis using u r
      by (subst serial_putchar.simps) (simp add: serial_is_transmit_empty_def inb_def outb_def)
  qed
qed

definition crlf :: "u8 list \<Rightarrow> u8 list" where
  "crlf cs = concat (map (\<lambda>c. if c = 0x0A then [0x0D, 0x0A] else [c]) cs)"

lemma serial_puts_sends:
  assumes "uart io k sent" "cstr m s cs"
  shows "\<exists>d'. serial_puts io s m d = Some d' \<and> sent d' = sent d @ crlf cs"
  using assms(2)
proof (induction cs arbitrary: s d)
  case Nil
  then show ?case by (subst serial_puts.simps) (simp add: crlf_def)
next
  case (Cons c cs)
  obtain d1 where d1: "(if c = 0x0A then serial_putchar io 0x0D d else Some d) = Some d1"
    "sent d1 = sent d @ (if c = 0x0A then [0x0D] else [])"
    using serial_putchar_sends [OF assms(1), of "0x0D" d] by (cases "c = 0x0A") auto
  obtain d2 where d2: "serial_putchar io c d1 = Some d2" "sent d2 = sent d1 @ [c]"
    using serial_putchar_sends [OF assms(1)] by blast
  obtain d3 where "serial_puts io (s + 1) m d2 = Some d3" "sent d3 = sent d2 @ crlf cs"
    using Cons.IH [of "s + 1"] Cons.prems by auto
  then show ?case using d1 d2 Cons.prems by (subst serial_puts.simps) (auto simp: crlf_def)
qed

text \<open>A line that is always ready and records what it is sent.\<close>

definition log_io :: "u8 list io" where
  "log_io = \<lparr>io_in8 = (\<lambda>p d. (0x20, d)), io_out8 = (\<lambda>p x d. if p = COM1 then d @ [x] else d),
     io_in16 = (\<lambda>p d. (0, d)), io_out16 = (\<lambda>p x d. d), io_in32 = (\<lambda>p d. (0, d)), io_out32 = (\<lambda>p x d. d)\<rparr>"

text \<open>
  On a serial line whose transmitter always becomes empty again, \<open>serial_puts\<close> returns, and what
  it transmits is the string with every line feed preceded by a carriage return.
\<close>

theorem serial_puts_correct:
  assumes "uart io k sent" "cstr m s cs"
  shows "\<exists>d'. serial_puts io s m d = Some d' \<and> sent d' = sent d @ crlf cs"
  using assms by (rule serial_puts_sends)

theorem serial_puts_correct_witness:
  "serial_puts log_io 0x10 ((\<lambda>_. 0)(0x10 := 0x41, 0x11 := 0x0A)) [] = Some [0x41, 0x0D, 0x0A]"
proof -
  have "uart log_io (\<lambda>_. 0) id" by (simp add: uart_def log_io_def)
  moreover have "cstr ((\<lambda>_. 0)(0x10 := 0x41, 0x11 := 0x0A)) 0x10 [0x41, 0x0A]" by simp
  ultimately show ?thesis using serial_puts_correct [of log_io "\<lambda>_. 0" id _ "0x10" "[0x41, 0x0A]" "[]"]
    by (force simp: crlf_def)
qed

end
