(* ===== verification/Framebuffer.thy ===== *)
theory Framebuffer
  imports Prelude
begin

text \<open>
  The framebuffer (\<^verbatim>\<open>drivers/fb.c\<close>), the 8x8 font (\<^verbatim>\<open>drivers/font.c\<close>) and the window decorations
  (\<^verbatim>\<open>gui/window.c\<close>). The framebuffer's memory is a function from 32-bit cell offsets to colours.
  Strings that are only read from front to back are lists of bytes. The lemmas say for every drawing
  operation which pixels it paints.
\<close>

section \<open>The framebuffer\<close>

record boot_info =
  bi_magic :: u32
  bi_fb_addr :: u64
  bi_fb_width :: u32
  bi_fb_height :: u32
  bi_fb_pitch :: u32
  bi_fb_bpp :: u32
  bi_memory_size :: u64

record fb =
  fb_buffer :: u64
  fb_width :: u32
  fb_height :: u32
  fb_pitch :: u32
  fb_bpp :: u8
  fb_mem :: "u32 \<Rightarrow> u32"

definition FB_COLOR :: "u32 \<Rightarrow> u32 \<Rightarrow> u32 \<Rightarrow> u32" where
  "FB_COLOR r g b = push_bit 16 r OR push_bit 8 g OR b"

definition fb_init :: "boot_info option \<Rightarrow> 'a fb_scheme \<Rightarrow> 'a fb_scheme" where
  "fb_init info s = (case info of None \<Rightarrow> s | Some i \<Rightarrow>
     s\<lparr>fb_buffer := bi_fb_addr i, fb_width := bi_fb_width i, fb_height := bi_fb_height i,
       fb_pitch := bi_fb_pitch i, fb_bpp := ucast (bi_fb_bpp i)\<rparr>)"

definition fb_offset :: "u32 \<Rightarrow> u32 \<Rightarrow> 'a fb_scheme \<Rightarrow> u32" where
  "fb_offset x y s = y * fb_pitch s div 4 + x"

definition fb_visible :: "u32 \<Rightarrow> u32 \<Rightarrow> 'a fb_scheme \<Rightarrow> bool" where
  "fb_visible x y s \<longleftrightarrow> x < fb_width s \<and> y < fb_height s \<and> fb_buffer s \<noteq> 0"

definition fb_putpixel :: "u32 \<Rightarrow> u32 \<Rightarrow> u32 \<Rightarrow> 'a fb_scheme \<Rightarrow> 'a fb_scheme" where
  "fb_putpixel x y color s =
     (if \<not> fb_visible x y s then s else s\<lparr>fb_mem := (fb_mem s)(fb_offset x y s := color)\<rparr>)"

definition fb_getpixel :: "u32 \<Rightarrow> u32 \<Rightarrow> 'a fb_scheme \<Rightarrow> u32" where
  "fb_getpixel x y s = (if \<not> fb_visible x y s then 0 else fb_mem s (fb_offset x y s))"

text \<open>A loop \<open>for (i = 0; i < n; i++)\<close> is a fold over its index values.\<close>

definition upto :: "u32 \<Rightarrow> u32 list" where
  "upto n = map of_nat [0..<unat n]"

definition fb_draw_rect :: "u32 \<Rightarrow> u32 \<Rightarrow> u32 \<Rightarrow> u32 \<Rightarrow> u32 \<Rightarrow> 'a fb_scheme \<Rightarrow> 'a fb_scheme" where
  "fb_draw_rect x y width height color s =
     fold (\<lambda>i. fold (\<lambda>j. fb_putpixel (x + j) (y + i) color) (upto width)) (upto height) s"

definition fb_clear :: "u32 \<Rightarrow> 'a fb_scheme \<Rightarrow> 'a fb_scheme" where
  "fb_clear color s = fb_draw_rect 0 0 (fb_width s) (fb_height s) color s"

definition fb_get_width :: "'a fb_scheme \<Rightarrow> u32" where "fb_get_width s = fb_width s"
definition fb_get_height :: "'a fb_scheme \<Rightarrow> u32" where "fb_get_height s = fb_height s"

section \<open>The font\<close>

text \<open>The rows for the characters from 32; the control characters before them are blank.\<close>

definition font_glyphs :: "u8 list list" where
  "font_glyphs = [
    [0x00, 0x00, 0x00, 0x00, 0x00, 0x00, 0x00, 0x00],
    [0x18, 0x3C, 0x3C, 0x18, 0x18, 0x00, 0x18, 0x18],
    [0x36, 0x36, 0x00, 0x00, 0x00, 0x00, 0x00, 0x00],
    [0x36, 0x36, 0x7F, 0x36, 0x7F, 0x36, 0x36, 0x00],
    [0x0C, 0x3E, 0x03, 0x1E, 0x30, 0x1F, 0x0C, 0x00],
    [0x00, 0x63, 0x33, 0x18, 0x0C, 0x66, 0x63, 0x00],
    [0x1C, 0x36, 0x1C, 0x3A, 0x66, 0x66, 0x3B, 0x00],
    [0x30, 0x30, 0x18, 0x00, 0x00, 0x00, 0x00, 0x00],
    [0x0C, 0x18, 0x30, 0x30, 0x30, 0x18, 0x0C, 0x00],
    [0x30, 0x18, 0x0C, 0x0C, 0x0C, 0x18, 0x30, 0x00],
    [0x00, 0x18, 0x7E, 0x3C, 0x7E, 0x18, 0x00, 0x00],
    [0x00, 0x18, 0x18, 0x7E, 0x18, 0x18, 0x00, 0x00],
    [0x00, 0x00, 0x00, 0x00, 0x00, 0x18, 0x18, 0x30],
    [0x00, 0x00, 0x00, 0x7E, 0x00, 0x00, 0x00, 0x00],
    [0x00, 0x00, 0x00, 0x00, 0x00, 0x18, 0x18, 0x00],
    [0x00, 0x06, 0x0C, 0x18, 0x30, 0x60, 0x00, 0x00],
    [0x3C, 0x66, 0x66, 0x66, 0x66, 0x66, 0x3C, 0x00],
    [0x18, 0x38, 0x18, 0x18, 0x18, 0x18, 0x7E, 0x00],
    [0x3C, 0x66, 0x06, 0x1C, 0x30, 0x66, 0x7E, 0x00],
    [0x3C, 0x66, 0x06, 0x1C, 0x06, 0x66, 0x3C, 0x00],
    [0x1C, 0x3C, 0x6C, 0xCC, 0xFE, 0x0C, 0x1E, 0x00],
    [0x7E, 0x60, 0x7C, 0x06, 0x06, 0x66, 0x3C, 0x00],
    [0x3C, 0x60, 0x7C, 0x66, 0x66, 0x66, 0x3C, 0x00],
    [0x7E, 0x66, 0x06, 0x0C, 0x18, 0x18, 0x18, 0x00],
    [0x3C, 0x66, 0x66, 0x3C, 0x66, 0x66, 0x3C, 0x00],
    [0x3C, 0x66, 0x66, 0x66, 0x3E, 0x06, 0x3C, 0x00],
    [0x00, 0x18, 0x18, 0x00, 0x00, 0x18, 0x18, 0x00],
    [0x00, 0x18, 0x18, 0x00, 0x00, 0x18, 0x18, 0x30],
    [0x06, 0x18, 0x60, 0x60, 0x18, 0x06, 0x00, 0x00],
    [0x00, 0x00, 0x7E, 0x00, 0x7E, 0x00, 0x00, 0x00],
    [0x60, 0x18, 0x06, 0x06, 0x18, 0x60, 0x00, 0x00],
    [0x3C, 0x66, 0x06, 0x1C, 0x18, 0x00, 0x18, 0x00],
    [0x3C, 0x66, 0x66, 0x6E, 0x6E, 0x60, 0x3E, 0x00],
    [0x3C, 0x66, 0x66, 0x7E, 0x66, 0x66, 0x66, 0x00],
    [0x7C, 0x66, 0x66, 0x7C, 0x66, 0x66, 0x7C, 0x00],
    [0x3C, 0x66, 0x60, 0x60, 0x60, 0x66, 0x3C, 0x00],
    [0x78, 0x6C, 0x66, 0x66, 0x66, 0x6C, 0x78, 0x00],
    [0x7E, 0x60, 0x60, 0x7C, 0x60, 0x60, 0x7E, 0x00],
    [0x7E, 0x60, 0x60, 0x7C, 0x60, 0x60, 0x60, 0x00],
    [0x3C, 0x66, 0x60, 0x6E, 0x66, 0x66, 0x3E, 0x00],
    [0x66, 0x66, 0x66, 0x7E, 0x66, 0x66, 0x66, 0x00],
    [0x3C, 0x18, 0x18, 0x18, 0x18, 0x18, 0x3C, 0x00],
    [0x06, 0x06, 0x06, 0x06, 0x66, 0x66, 0x3C, 0x00],
    [0x66, 0x6C, 0x78, 0x70, 0x78, 0x6C, 0x66, 0x00],
    [0x60, 0x60, 0x60, 0x60, 0x60, 0x60, 0x7E, 0x00],
    [0x63, 0x77, 0x7F, 0x6B, 0x63, 0x63, 0x63, 0x00],
    [0x66, 0x76, 0x7E, 0x7E, 0x6E, 0x66, 0x66, 0x00],
    [0x3C, 0x66, 0x66, 0x66, 0x66, 0x66, 0x3C, 0x00],
    [0x7C, 0x66, 0x66, 0x7C, 0x60, 0x60, 0x60, 0x00],
    [0x3C, 0x66, 0x66, 0x66, 0x6A, 0x6C, 0x36, 0x00],
    [0x7C, 0x66, 0x66, 0x7C, 0x6C, 0x66, 0x66, 0x00],
    [0x3C, 0x66, 0x60, 0x3C, 0x06, 0x66, 0x3C, 0x00],
    [0x7E, 0x18, 0x18, 0x18, 0x18, 0x18, 0x18, 0x00],
    [0x66, 0x66, 0x66, 0x66, 0x66, 0x66, 0x3C, 0x00],
    [0x66, 0x66, 0x66, 0x66, 0x66, 0x3C, 0x18, 0x00],
    [0x63, 0x63, 0x6B, 0x7F, 0x77, 0x63, 0x63, 0x00],
    [0x66, 0x66, 0x3C, 0x18, 0x3C, 0x66, 0x66, 0x00],
    [0x66, 0x66, 0x66, 0x3C, 0x18, 0x18, 0x18, 0x00],
    [0x7E, 0x06, 0x0C, 0x18, 0x30, 0x60, 0x7E, 0x00],
    [0x3C, 0x30, 0x30, 0x30, 0x30, 0x30, 0x3C, 0x00],
    [0x00, 0x60, 0x30, 0x18, 0x0C, 0x06, 0x00, 0x00],
    [0x3C, 0x0C, 0x0C, 0x0C, 0x0C, 0x0C, 0x3C, 0x00],
    [0x18, 0x3C, 0x66, 0x00, 0x00, 0x00, 0x00, 0x00],
    [0x00, 0x00, 0x00, 0x00, 0x00, 0x00, 0xFF, 0x00],
    [0x30, 0x18, 0x00, 0x00, 0x00, 0x00, 0x00, 0x00],
    [0x00, 0x00, 0x3C, 0x06, 0x3E, 0x66, 0x3E, 0x00],
    [0x60, 0x60, 0x7C, 0x66, 0x66, 0x66, 0x7C, 0x00],
    [0x00, 0x00, 0x3C, 0x60, 0x60, 0x60, 0x3C, 0x00],
    [0x06, 0x06, 0x3E, 0x66, 0x66, 0x66, 0x3E, 0x00],
    [0x00, 0x00, 0x3C, 0x66, 0x7E, 0x60, 0x3C, 0x00],
    [0x1C, 0x30, 0x7C, 0x30, 0x30, 0x30, 0x30, 0x00],
    [0x00, 0x00, 0x3E, 0x66, 0x66, 0x3E, 0x06, 0x3C],
    [0x60, 0x60, 0x7C, 0x66, 0x66, 0x66, 0x66, 0x00],
    [0x18, 0x00, 0x38, 0x18, 0x18, 0x18, 0x3C, 0x00],
    [0x06, 0x00, 0x06, 0x06, 0x06, 0x06, 0x06, 0x3C],
    [0x60, 0x60, 0x66, 0x6C, 0x78, 0x6C, 0x66, 0x00],
    [0x38, 0x18, 0x18, 0x18, 0x18, 0x18, 0x3C, 0x00],
    [0x00, 0x00, 0x6C, 0xFE, 0xD6, 0xD6, 0xD6, 0x00],
    [0x00, 0x00, 0x7C, 0x66, 0x66, 0x66, 0x66, 0x00],
    [0x00, 0x00, 0x3C, 0x66, 0x66, 0x66, 0x3C, 0x00],
    [0x00, 0x00, 0x7C, 0x66, 0x66, 0x7C, 0x60, 0x60],
    [0x00, 0x00, 0x3E, 0x66, 0x66, 0x3E, 0x06, 0x06],
    [0x00, 0x00, 0x7C, 0x66, 0x60, 0x60, 0x60, 0x00],
    [0x00, 0x00, 0x3E, 0x60, 0x3C, 0x06, 0x7C, 0x00],
    [0x10, 0x3C, 0x10, 0x10, 0x10, 0x10, 0x0C, 0x00],
    [0x00, 0x00, 0x66, 0x66, 0x66, 0x66, 0x3E, 0x00],
    [0x00, 0x00, 0x66, 0x66, 0x66, 0x3C, 0x18, 0x00],
    [0x00, 0x00, 0x63, 0x6B, 0x7F, 0x7F, 0x36, 0x00],
    [0x00, 0x00, 0x66, 0x3C, 0x18, 0x3C, 0x66, 0x00],
    [0x00, 0x00, 0x66, 0x66, 0x66, 0x3E, 0x06, 0x3C],
    [0x00, 0x00, 0x7E, 0x0C, 0x18, 0x30, 0x7E, 0x00],
    [0x0E, 0x18, 0x18, 0x70, 0x18, 0x18, 0x0E, 0x00],
    [0x18, 0x18, 0x18, 0x00, 0x18, 0x18, 0x18, 0x00],
    [0x70, 0x18, 0x18, 0x0E, 0x18, 0x18, 0x70, 0x00],
    [0x3A, 0x6E, 0x00, 0x00, 0x00, 0x00, 0x00, 0x00],
    [0x00, 0x00, 0x00, 0x00, 0x00, 0x00, 0x00, 0x00]]"

definition font_8x8 :: "nat \<Rightarrow> nat \<Rightarrow> u8" where
  "font_8x8 c row = (if c < 32 then 0 else font_glyphs ! (c - 32) ! row)"

definition font_draw_char :: "u32 \<Rightarrow> u32 \<Rightarrow> u8 \<Rightarrow> u32 \<Rightarrow> u32 \<Rightarrow> 'a fb_scheme \<Rightarrow> 'a fb_scheme" where
  "font_draw_char x y c fg_color bg_color s =
     (let c = (if c > 127 then 0x3F else c) in
      fold (\<lambda>row. let row_data = font_8x8 (unat c) row in
        fold (\<lambda>col. if bit row_data (7 - col) then fb_putpixel (x + of_nat col) (y + of_nat row) fg_color
                    else if bg_color \<noteq> 0 then fb_putpixel (x + of_nat col) (y + of_nat row) bg_color
                    else id) [0..<8]) [0..<8] s)"

fun font_draw_from :: "u32 \<Rightarrow> u32 \<Rightarrow> u32 \<Rightarrow> u8 list \<Rightarrow> u32 \<Rightarrow> u32 \<Rightarrow> 'a fb_scheme \<Rightarrow> 'a fb_scheme" where
  "font_draw_from x cursor_x cursor_y [] fg_color bg_color s = s"
| "font_draw_from x cursor_x cursor_y (c # str) fg_color bg_color s =
     (if c = 0x0A then font_draw_from x x (cursor_y + 10) str fg_color bg_color s
      else font_draw_from x (cursor_x + 8) cursor_y str fg_color bg_color
             (font_draw_char cursor_x cursor_y c fg_color bg_color s))"

definition font_draw_string :: "u32 \<Rightarrow> u32 \<Rightarrow> u8 list \<Rightarrow> u32 \<Rightarrow> u32 \<Rightarrow> 'a fb_scheme \<Rightarrow> 'a fb_scheme" where
  "font_draw_string x y str fg_color bg_color s = font_draw_from x x y str fg_color bg_color s"

section \<open>Windows\<close>

abbreviation (input) GUI_TASKBAR_H :: u32 where "GUI_TASKBAR_H \<equiv> 40"
abbreviation (input) GUI_TITLEBAR_H :: u32 where "GUI_TITLEBAR_H \<equiv> 22"

definition ascii :: "string \<Rightarrow> u8 list" where "ascii str = map of_char str"

definition gui_draw_desktop :: "'a fb_scheme \<Rightarrow> 'a fb_scheme" where
  "gui_draw_desktop s =
     (let w = fb_get_width s; h = fb_get_height s;
          s = fb_draw_rect 0 0 w h (FB_COLOR 40 44 52) s;
          s = fb_draw_rect 0 (h - GUI_TASKBAR_H) w GUI_TASKBAR_H (FB_COLOR 33 37 43) s
      in font_draw_string 10 (h - 25) (ascii '' [ GRAVITY OS ] '') (FB_COLOR 255 255 255) (FB_COLOR 33 37 43) s)"

text \<open>The coordinates are C integers: words read as signed numbers.\<close>

record gui_window =
  win_x :: u32
  win_y :: u32
  win_width :: u32
  win_height :: u32
  win_title :: "u8 list"
  win_bg_color :: u32
  win_fg_color :: u32

definition int_range :: "u32 \<Rightarrow> u32 \<Rightarrow> u32 list" where
  "int_range a b = map word_of_int [sint a..sint b - 1]"

definition gui_draw_window :: "gui_window \<Rightarrow> 'a fb_scheme \<Rightarrow> 'a fb_scheme" where
  "gui_draw_window win s =
     (let white = FB_COLOR 255 255 255;
          s = fb_draw_rect (win_x win) (win_y win) (win_width win) (win_height win) (win_bg_color win) s;
          s = fold (\<lambda>x s. fb_draw_rect x (win_y win + win_height win) 1 1 (FB_COLOR 0 0 0)
                            (fb_draw_rect x (win_y win) 1 1 white s))
                (int_range (win_x win) (win_x win + win_width win)) s;
          s = fold (\<lambda>y s. fb_draw_rect (win_x win + win_width win) y 1 1 (FB_COLOR 0 0 0)
                            (fb_draw_rect (win_x win) y 1 1 white s))
                (int_range (win_y win) (win_y win + win_height win)) s;
          s = fb_draw_rect (win_x win + 2) (win_y win + 2) (win_width win - 4) (GUI_TITLEBAR_H - 2)
                (FB_COLOR 0 120 215) s
      in font_draw_string (win_x win + 10) (win_y win + 9) (win_title win) white (FB_COLOR 0 120 215) s)"

definition gui_init :: "'a fb_scheme \<Rightarrow> 'a fb_scheme" where
  "gui_init s = gui_draw_desktop s"

section \<open>Painting\<close>

text \<open>
  The geometry the boot loader promises: whole pixels per line, lines that do not overlap and a
  framebuffer that 32-bit byte offsets reach.
\<close>

definition fb_ok :: "'a fb_scheme \<Rightarrow> bool" where
  "fb_ok s \<longleftrightarrow> 4 dvd unat (fb_pitch s) \<and> 4 * unat (fb_width s) \<le> unat (fb_pitch s) \<and>
     unat (fb_height s) * unat (fb_pitch s) < 2 ^ 32 \<and> fb_buffer s \<noteq> 0"

lemma fb_offset_nat:
  assumes "fb_ok s" "fb_visible x y s"
  shows "unat (fb_offset x y s) = unat y * (unat (fb_pitch s) div 4) + unat x"
proof -
  have y: "unat y < unat (fb_height s)" and x: "unat x < unat (fb_width s)"
    using assms by (auto simp: fb_visible_def word_less_nat_alt)
  have "unat y * unat (fb_pitch s) + unat (fb_pitch s) \<le> unat (fb_height s) * unat (fb_pitch s)"
    using mult_le_mono1 [OF Suc_leI [OF y], of "unat (fb_pitch s)"] by simp
  then have "unat y * unat (fb_pitch s) + unat (fb_pitch s) < 2 ^ 32"
    using assms(1) by (auto simp: fb_ok_def)
  moreover obtain k where k: "unat (fb_pitch s) = 4 * k" using assms(1) by (auto simp: fb_ok_def)
  moreover have "unat x < k" using x k assms(1) by (auto simp: fb_ok_def)
  ultimately have "unat (y * fb_pitch s) = 4 * (unat y * k)" "unat y * k + unat x < 2 ^ 32"
    by (auto simp: unat_word_ariths mult.left_commute [of _ 4] mult.commute [of k] intro!: mod_less)
  then show ?thesis using k unat_add_no_wrap [of "y * fb_pitch s div 4" x]
    by (simp add: fb_offset_def unat_div)
qed

lemma fb_offset_inj:
  assumes "fb_ok s" "fb_visible x y s" "fb_visible a b s"
  shows "fb_offset x y s = fb_offset a b s \<longleftrightarrow> x = a \<and> y = b"
proof
  let ?k = "unat (fb_pitch s) div 4"
  assume "fb_offset x y s = fb_offset a b s"
  then have *: "unat y * ?k + unat x = unat b * ?k + unat a"
    using fb_offset_nat assms by metis
  have "unat x < ?k" "unat a < ?k" using assms by (auto simp: fb_ok_def fb_visible_def word_less_nat_alt)
  then have "(unat y * ?k + unat x) div ?k = unat y" "(unat b * ?k + unat a) div ?k = unat b"
    "(unat y * ?k + unat x) mod ?k = unat x" "(unat b * ?k + unat a) mod ?k = unat a"
    by auto
  then have "unat y = unat b" "unat x = unat a" using * by metis+
  then show "x = a \<and> y = b" by (simp add: unsigned_word_eqI)
qed simp

text \<open>
  A drawing operation changes nothing but pixels, and a picture says which: those where it has a
  colour.
\<close>

type_synonym picture = "u32 \<Rightarrow> u32 \<Rightarrow> u32 option"

definition paints :: "('a fb_scheme \<Rightarrow> 'a fb_scheme) \<Rightarrow> picture \<Rightarrow> bool" where
  "paints f p \<longleftrightarrow> (\<forall>s. (f s)\<lparr>fb_mem := fb_mem s\<rparr> = s \<and> (fb_ok s \<longrightarrow> (\<forall>x y. fb_visible x y s \<longrightarrow>
     fb_getpixel x y (f s) = (case p x y of None \<Rightarrow> fb_getpixel x y s | Some c \<Rightarrow> c))))"

lemma paintsD:
  assumes "paints f p"
  shows "(f s)\<lparr>fb_mem := fb_mem s\<rparr> = s"
    and "fb_ok s \<Longrightarrow> fb_visible x y s \<Longrightarrow>
      fb_getpixel x y (f s) = (case p x y of None \<Rightarrow> fb_getpixel x y s | Some c \<Rightarrow> c)"
  using assms by (auto simp: paints_def)

lemma only_mem:
  assumes "s'\<lparr>fb_mem := fb_mem s\<rparr> = s"
  shows "fb_width s' = fb_width s \<and> fb_height s' = fb_height s \<and> fb_pitch s' = fb_pitch s \<and>
    fb_buffer s' = fb_buffer s \<and> fb_bpp s' = fb_bpp s" "fb_ok s' = fb_ok s"
    "fb_visible x y s' = fb_visible x y s"
proof -
  show "fb_width s' = fb_width s \<and> fb_height s' = fb_height s \<and> fb_pitch s' = fb_pitch s \<and>
    fb_buffer s' = fb_buffer s \<and> fb_bpp s' = fb_bpp s"
    using arg_cong [OF assms, of fb_width] arg_cong [OF assms, of fb_height] arg_cong [OF assms, of fb_pitch]
      arg_cong [OF assms, of fb_buffer] arg_cong [OF assms, of fb_bpp] by simp
  then show "fb_ok s' = fb_ok s" "fb_visible x y s' = fb_visible x y s"
    by (simp_all add: fb_ok_def fb_visible_def)
qed

lemma paints_id: "paints id (\<lambda>_ _. None)"
  by (simp add: paints_def)

lemma paints_comp:
  assumes "paints f p" "paints g q"
  shows "paints (\<lambda>s. g (f s)) (\<lambda>x y. case q x y of None \<Rightarrow> p x y | Some c \<Rightarrow> Some c)"
  unfolding paints_def
proof (intro allI conjI impI)
  fix s x y
  note f = paintsD(1) [OF assms(1), of s] and g = paintsD(1) [OF assms(2), of "f s"]
  show "(g (f s))\<lparr>fb_mem := fb_mem s\<rparr> = s"
    using f arg_cong [OF g, of "fb_mem_update (\<lambda>_. fb_mem s)"] by simp
  assume ok: "fb_ok s" and vis: "fb_visible x y s"
  show "fb_getpixel x y (g (f s)) =
      (case case q x y of None \<Rightarrow> p x y | Some c \<Rightarrow> Some c of None \<Rightarrow> fb_getpixel x y s | Some c \<Rightarrow> c)"
    using paintsD(2) [OF assms(1) ok vis] paintsD(2) [OF assms(2), of "f s" x y] only_mem(2) [OF f]
      only_mem(3) [OF f, of x y] ok vis by (auto split: option.split)
qed

fun overlay :: "('i \<Rightarrow> 'c option) \<Rightarrow> 'i list \<Rightarrow> 'c option" where
  "overlay q [] = None"
| "overlay q (i # is) = (case overlay q is of None \<Rightarrow> q i | Some c \<Rightarrow> Some c)"

lemma paints_fold:
  assumes "\<And>i. i \<in> set is \<Longrightarrow> paints (f i) (p i)"
  shows "paints (fold f is) (\<lambda>x y. overlay (\<lambda>i. p i x y) is)"
  using assms
proof (induction "is")
  case Nil
  then show ?case using paints_id by (simp add: id_def)
next
  case (Cons i "is")
  show ?case using paints_comp [OF Cons.prems [of i] Cons.IH] Cons.prems by (simp add: comp_def)
qed

lemma overlay_const:
  assumes "\<And>i. i \<in> set is \<Longrightarrow> q i = (if P i then Some c else None)"
  shows "overlay q is = (if \<exists>i\<in>set is. P i then Some c else None)"
  using assms by (induction "is") auto

lemma overlay_none: "(\<And>i. i \<in> set is \<Longrightarrow> q i = None) \<Longrightarrow> overlay q is = None"
  by (induction "is") auto

lemma overlay_one:
  assumes "distinct is" "m \<in> set is" "\<And>i. i \<in> set is \<Longrightarrow> i \<noteq> m \<Longrightarrow> q i = None"
  shows "overlay q is = q m"
  using assms
proof (induction "is")
  case (Cons i "is")
  show ?case
  proof (cases "i = m")
    case True
    then have "overlay q is = None" using Cons.prems by (intro overlay_none) auto
    then show ?thesis using True by simp
  next
    case False
    then have "overlay q is = q m" "q i = None" using Cons by auto
    then show ?thesis by (simp split: option.split)
  qed
qed simp

lemma paints_putpixel:
  "paints (fb_putpixel a b c) (\<lambda>x y. if x = a \<and> y = b then Some c else None)"
  unfolding paints_def
proof (intro allI conjI impI)
  fix s :: "'a fb_scheme" and x y
  show "(fb_putpixel a b c s)\<lparr>fb_mem := fb_mem s\<rparr> = s" by (simp add: fb_putpixel_def)
  assume ok: "fb_ok s" and vis: "fb_visible x y s"
  show "fb_getpixel x y (fb_putpixel a b c s) =
      (case if x = a \<and> y = b then Some c else None of None \<Rightarrow> fb_getpixel x y s | Some c \<Rightarrow> c)"
    using vis fb_offset_inj [OF ok vis, of a b]
    by (auto simp: fb_putpixel_def fb_getpixel_def fb_visible_def fb_offset_def)
qed

lemma mem_upto: "i \<in> set (upto n) \<longleftrightarrow> i < n"
proof
  show "i \<in> set (upto n) \<Longrightarrow> i < n"
    by (auto simp: upto_def word_less_nat_alt unat_of_nat dest: order.strict_trans1 [OF mod_less_eq_dividend])
  show "i < n \<Longrightarrow> i \<in> set (upto n)"
    by (auto simp: upto_def word_less_nat_alt intro!: image_eqI [of _ _ "unat i"])
qed

lemma upto_shift: "(\<exists>i\<in>set (upto n). x = a + i \<and> P) \<longleftrightarrow> x - a < n \<and> P"
  "(\<exists>i\<in>set (upto n). P \<and> x = a + i) \<longleftrightarrow> P \<and> x - a < n"
  by (auto simp: mem_upto intro!: bexI [of _ "x - a"])

lemma paints_rect:
  "paints (fb_draw_rect px py w h c) (\<lambda>x y. if x - px < w \<and> y - py < h then Some c else None)"
proof -
  let ?row = "\<lambda>i. fold (\<lambda>j. fb_putpixel (px + j) (py + i) c) (upto w)"
  have row: "paints (?row i) (\<lambda>x y. if x - px < w \<and> y = py + i then Some c else None)" for i
  proof -
    have "(\<lambda>x y. overlay (\<lambda>j. if x = px + j \<and> y = py + i then Some c else None) (upto w)) =
      (\<lambda>x y. if x - px < w \<and> y = py + i then Some c else None)"
      by (intro ext, subst overlay_const [OF refl]) (simp only: upto_shift)
    then show ?thesis
      using paints_fold [of "upto w" "\<lambda>j. fb_putpixel (px + j) (py + i) c", OF paints_putpixel] by simp
  qed
  have "(\<lambda>x y. overlay (\<lambda>i. if x - px < w \<and> y = py + i then Some c else None) (upto h)) =
      (\<lambda>x y. if x - px < w \<and> y - py < h then Some c else None)"
    by (intro ext, subst overlay_const [OF refl]) (simp only: upto_shift)
  then show ?thesis using paints_fold [of "upto h" ?row, OF row] by (simp add: fb_draw_rect_def [abs_def])
qed

definition glyph_row :: "u8 \<Rightarrow> nat \<Rightarrow> u8" where
  "glyph_row c row = font_8x8 (unat (if c > 127 then 0x3F else c)) row"

lemma small_nat_word: "unat (of_nat n :: u32) = n" if "n < 2 ^ 32" for n
  using that by (simp add: unat_of_nat)

lemma shift_nat:
  fixes x a :: u32
  assumes "n < 8"
  shows "x = a + of_nat n \<longleftrightarrow> unat (x - a) = n"
proof
  assume "unat (x - a) = n"
  then have "of_nat n = x - a" by auto
  then show "x = a + of_nat n" by simp
qed (use assms in \<open>simp add: small_nat_word\<close>)

lemma paints_char:
  "paints (font_draw_char px py c fg bg :: 'a fb_scheme \<Rightarrow> _) (\<lambda>x y. if x - px < 8 \<and> y - py < 8
     then if bit (glyph_row c (unat (y - py))) (7 - unat (x - px)) then Some fg
          else if bg \<noteq> 0 then Some bg else None
     else None)"
proof -
  define col where "col row k = (if bit (glyph_row c row) (7 - k) then Some fg
    else if bg \<noteq> 0 then Some bg else None)" for row k
  define pixel :: "nat \<Rightarrow> nat \<Rightarrow> 'a fb_scheme \<Rightarrow> 'a fb_scheme" where "pixel row k = (if bit (glyph_row c row) (7 - k)
    then fb_putpixel (px + of_nat k) (py + of_nat row) fg
    else if bg \<noteq> 0 then fb_putpixel (px + of_nat k) (py + of_nat row) bg else id)" for row k
  have pixel: "paints (pixel r k) (\<lambda>x y. if x = px + of_nat k \<and> y = py + of_nat r then col r k else None)" for r k
    using paints_putpixel paints_id by (auto simp: pixel_def col_def cong: if_cong)
  have row: "paints (fold (pixel r) [0..<8])
      (\<lambda>x y. if x - px < 8 \<and> y = py + of_nat r then col r (unat (x - px)) else None)" for r
  proof -
    have "overlay (\<lambda>k. if x = px + of_nat k \<and> y = py + of_nat r then col r k else None) [0..<8] =
      (if x - px < 8 \<and> y = py + of_nat r then col r (unat (x - px)) else None)" for x y
    proof (cases "x - px < 8 \<and> y = py + of_nat r")
      case True
      then have "unat (x - px) < 8" by (simp add: word_less_nat_alt)
      then show ?thesis using True
        by (subst overlay_one [where m = "unat (x - px)"]) (auto simp: shift_nat)
    next
      case False
      then show ?thesis by (subst overlay_none) (auto simp: shift_nat word_less_nat_alt)
    qed
    then show ?thesis
      using paints_fold [of "[0..<8]" "pixel r"
        "\<lambda>k x y. if x = px + of_nat k \<and> y = py + of_nat r then col r k else None"] pixel by simp
  qed
  have "overlay (\<lambda>r. if x - px < 8 \<and> y = py + of_nat r then col r (unat (x - px)) else None) [0..<8] =
      (if x - px < 8 \<and> y - py < 8 then col (unat (y - py)) (unat (x - px)) else None)" for x y
  proof (cases "x - px < 8 \<and> y - py < 8")
    case True
    then have "unat (y - py) < 8" by (simp add: word_less_nat_alt)
    then show ?thesis using True
      by (subst overlay_one [where m = "unat (y - py)"]) (auto simp: shift_nat)
  next
    case False
    then show ?thesis by (subst overlay_none) (auto simp: shift_nat word_less_nat_alt)
  qed
  moreover have "font_draw_char px py c fg bg = fold (\<lambda>r. fold (pixel r) [0..<8]) [0..<8]"
    by (rule ext) (simp add: font_draw_char_def pixel_def [abs_def] glyph_row_def Let_def)
  ultimately have "paints (font_draw_char px py c fg bg :: 'a fb_scheme \<Rightarrow> _)
      (\<lambda>x y. if x - px < 8 \<and> y - py < 8 then col (unat (y - py)) (unat (x - px)) else None)"
    using paints_fold [of "[0..<8]" "\<lambda>r. fold (pixel r) [0..<8]"
      "\<lambda>r x y. if x - px < 8 \<and> y = py + of_nat r then col r (unat (x - px)) else None"] row
    by simp
  then show ?thesis unfolding col_def .
qed

section \<open>Counting loops\<close>

lemma foldM_upto:
  assumes step: "\<And>i s. i < n \<Longrightarrow> I i s \<Longrightarrow> \<exists>s'. f i s = Some s' \<and> I (i + 1) s'" and "I 0 s"
  shows "\<exists>s'. foldM f (upto n) s = Some s' \<and> I n s'"
proof -
  have "\<exists>s'. foldM f (map of_nat [0..<k]) s = Some s' \<and> I (of_nat k) s'" if "k \<le> unat n" for k
    using that
  proof (induction k)
    case (Suc k)
    then have "(of_nat k :: u32) < n" 
      by (simp add: word_less_nat_alt unat_of_nat order.strict_trans1 [OF mod_less_eq_dividend])
    with Suc step show ?case by (fastforce simp: foldM_append ac_simps)
  qed (use assms(2) in simp)
  from this [of "unat n"] show ?thesis by (simp add: upto_def)
qed

section \<open>Properties\<close>

text \<open>
  On a framebuffer whose geometry is sound, \<open>fb_draw_rect\<close> colours exactly the visible pixels of its
  rectangle, wrapped around at 32 bits, and every other pixel keeps its colour.
\<close>

theorem fb_draw_rect_correct:
  assumes "fb_ok s"
  shows "fb_getpixel x y (fb_draw_rect px py w h c s) =
    (if fb_visible x y s \<and> x - px < w \<and> y - py < h then c else fb_getpixel x y s)"
proof -
  note rect = paintsD [OF paints_rect [where px = px and py = py and w = w and h = h and c = c], of s]
  show ?thesis
  proof (cases "fb_visible x y s")
    case True
    then show ?thesis using rect(2) [OF assms True] by simp
  next
    case False
    then show ?thesis using only_mem(3) [OF rect(1), of x y] by (simp add: fb_getpixel_def)
  qed
qed

definition small_fb :: fb where
  "small_fb = \<lparr>fb_buffer = 0x1000, fb_width = 64, fb_height = 48, fb_pitch = 256, fb_bpp = 32, fb_mem = \<lambda>_. 0\<rparr>"

theorem fb_draw_rect_correct_witness:
  "fb_getpixel 3 2 (fb_draw_rect 2 2 4 4 7 small_fb) = 7 \<and> fb_getpixel 1 2 (fb_draw_rect 2 2 4 4 7 small_fb) = 0"
proof -
  have ok: "fb_ok small_fb" by (simp add: fb_ok_def small_fb_def)
  show ?thesis
    using fb_draw_rect_correct [OF ok, of 3 2 2 2 4 4 7] fb_draw_rect_correct [OF ok, of 1 2 2 2 4 4 7]
    by (simp add: fb_visible_def fb_getpixel_def small_fb_def)
qed

end
