(* ===== verification/Fbcon.thy ===== *)
theory Fbcon
  imports Framebuffer
begin

text \<open>
  The text console on the framebuffer, \<^verbatim>\<open>drivers/fbcon.c\<close>: a grid of character cells that the code
  keeps beside the pixels. The lemmas relate it to a terminal of lines of characters and show that
  the pixels of the console are at all times the picture of the cells.
\<close>

section \<open>The text console\<close>

abbreviation (input) FBCON_MAX_COLS :: u32 where "FBCON_MAX_COLS \<equiv> 160"
abbreviation (input) FBCON_MAX_ROWS :: u32 where "FBCON_MAX_ROWS \<equiv> 96"
abbreviation (input) FBCON_CELL_W :: u32 where "FBCON_CELL_W \<equiv> 8"
abbreviation (input) FBCON_CELL_H :: u32 where "FBCON_CELL_H \<equiv> 10"

definition FBC_GREY :: u32 where "FBC_GREY = FB_COLOR 160 160 160"

text \<open>The cells are the two arrays of 96 rows of 160; an access outside them is \<open>None\<close>.\<close>

record fbcon = fb +
  con_x :: u32
  con_y :: u32
  con_cols :: u32
  con_rows :: u32
  con_bg :: u32
  con_fg :: u32
  cur_col :: u32
  cur_row :: u32
  con_ready :: bool
  cursor_shown :: bool
  cursor_col :: u32
  cursor_row :: u32
  cell_ch :: "u32 \<Rightarrow> u32 \<Rightarrow> u8"
  cell_fg :: "u32 \<Rightarrow> u32 \<Rightarrow> u32"

definition in_grid :: "u32 \<Rightarrow> u32 \<Rightarrow> bool" where
  "in_grid row col \<longleftrightarrow> row < FBCON_MAX_ROWS \<and> col < FBCON_MAX_COLS"

definition set_cell :: "u32 \<Rightarrow> u32 \<Rightarrow> u8 \<Rightarrow> u32 \<Rightarrow> 'a fbcon_scheme \<Rightarrow> 'a fbcon_scheme option" where
  "set_cell row col ch fg s =
     (if in_grid row col then Some (s\<lparr>cell_ch := (cell_ch s)(row := (cell_ch s row)(col := ch)),
                                      cell_fg := (cell_fg s)(row := (cell_fg s row)(col := fg))\<rparr>)
      else None)"

definition fbcon_ready :: "'a fbcon_scheme \<Rightarrow> bool" where "fbcon_ready s = con_ready s"

definition draw_cell :: "u32 \<Rightarrow> u32 \<Rightarrow> 'a fbcon_scheme \<Rightarrow> 'a fbcon_scheme option" where
  "draw_cell row col s =
     (let px = con_x s + col * FBCON_CELL_W; py = con_y s + row * FBCON_CELL_H in
      if \<not> in_grid row col then None else
      let c = cell_ch s row col; s = fb_draw_rect px py FBCON_CELL_W FBCON_CELL_H (con_bg s) s in
      Some (if c \<noteq> 0 \<and> c \<noteq> 0x20 then font_draw_char px py c (cell_fg s row col) (con_bg s) s else s))"

definition redraw_all :: "'a fbcon_scheme \<Rightarrow> 'a fbcon_scheme option" where
  "redraw_all s = foldM (\<lambda>r. foldM (\<lambda>c. draw_cell r c) (upto (con_cols s))) (upto (con_rows s)) s"

definition fbcon_clear :: "'a fbcon_scheme \<Rightarrow> 'a fbcon_scheme option" where
  "fbcon_clear s =
     (if \<not> con_ready s then Some s else
      Option.bind (foldM (\<lambda>r. foldM (\<lambda>c s. set_cell r c 0x20 (con_fg s) s) (upto (con_cols s)))
        (upto (con_rows s)) s) (\<lambda>s.
      let s = s\<lparr>cur_col := 0, cur_row := 0, cursor_shown := False\<rparr> in
      Some (fb_draw_rect (con_x s) (con_y s) (con_cols s * FBCON_CELL_W) (con_rows s * FBCON_CELL_H) (con_bg s) s)))"

definition fbcon_init :: "u32 \<Rightarrow> u32 \<Rightarrow> u32 \<Rightarrow> u32 \<Rightarrow> u32 \<Rightarrow> 'a fbcon_scheme \<Rightarrow> 'a fbcon_scheme option" where
  "fbcon_init x y w h bg_color s =
     (let cols = w div FBCON_CELL_W; rows = h div FBCON_CELL_H;
          cols = (if cols > FBCON_MAX_COLS then FBCON_MAX_COLS else cols);
          rows = (if rows > FBCON_MAX_ROWS then FBCON_MAX_ROWS else rows)
      in fbcon_clear (s\<lparr>con_x := x, con_y := y, con_bg := bg_color, con_cols := cols, con_rows := rows,
                        con_ready := True\<rparr>))"

definition fbcon_set_color :: "u32 \<Rightarrow> 'a fbcon_scheme \<Rightarrow> 'a fbcon_scheme" where
  "fbcon_set_color fg_color s = s\<lparr>con_fg := fg_color\<rparr>"

definition scroll_up :: "'a fbcon_scheme \<Rightarrow> 'a fbcon_scheme option" where
  "scroll_up s =
     (let rows = con_rows s; cols = con_cols s in
      Option.bind (foldM (\<lambda>r. foldM (\<lambda>c s.
          if in_grid (r + 1) c then set_cell r c (cell_ch s (r + 1) c) (cell_fg s (r + 1) c) s else None)
        (upto cols)) (filter (\<lambda>r. r + 1 < rows) (upto rows)) s) (\<lambda>s.
      Option.bind (foldM (\<lambda>c s. set_cell (rows - 1) c 0x20 (con_fg s) s) (upto cols) s) (\<lambda>s.
      redraw_all (s\<lparr>cur_row := rows - 1, cursor_shown := False\<rparr>))))"

definition newline :: "'a fbcon_scheme \<Rightarrow> 'a fbcon_scheme option" where
  "newline s =
     (let s = s\<lparr>cur_col := 0\<rparr> in
      if cur_row s + 1 < con_rows s then Some (s\<lparr>cur_row := cur_row s + 1\<rparr>) else scroll_up s)"

definition cursor_hide :: "'a fbcon_scheme \<Rightarrow> 'a fbcon_scheme option" where
  "cursor_hide s =
     (if \<not> cursor_shown s then Some s else
      let s = s\<lparr>cursor_shown := False\<rparr> in
      if cursor_row s < con_rows s \<and> cursor_col s < con_cols s then draw_cell (cursor_row s) (cursor_col s) s
      else Some s)"

definition fbcon_cursor_blink :: "'a fbcon_scheme \<Rightarrow> 'a fbcon_scheme option" where
  "fbcon_cursor_blink s =
     (if \<not> con_ready s then Some s
      else if cursor_shown s then cursor_hide s
      else let s = s\<lparr>cursor_row := cur_row s, cursor_col := cur_col s\<rparr> in
        if cursor_row s \<ge> con_rows s \<or> cursor_col s \<ge> con_cols s then Some s
        else Some ((fb_draw_rect (con_x s + cursor_col s * FBCON_CELL_W) (con_y s + cursor_row s * FBCON_CELL_H)
                      FBCON_CELL_W (FBCON_CELL_H - 1) FBC_GREY s)\<lparr>cursor_shown := True\<rparr>))"

function fbcon_putchar :: "u8 \<Rightarrow> 'a fbcon_scheme \<Rightarrow> 'a fbcon_scheme option" where
  "fbcon_putchar c s =
     (if \<not> con_ready s then Some s else
      Option.bind (cursor_hide s) (\<lambda>s.
      if c = 0x0A then newline s
      else if c = 0x0D then Some (s\<lparr>cur_col := 0\<rparr>)
      else if c = 0x08 then
        let s = (if cur_col s > 0 then s\<lparr>cur_col := cur_col s - 1\<rparr>
                 else if cur_row s > 0 then s\<lparr>cur_row := cur_row s - 1, cur_col := con_cols s - 1\<rparr>
                 else s)
        in Option.bind (set_cell (cur_row s) (cur_col s) 0x20 (cell_fg s (cur_row s) (cur_col s)) s)
             (\<lambda>s. draw_cell (cur_row s) (cur_col s) s)
      else if c = 0x09 then
        Option.bind (fbcon_putchar 0x20 s) (\<lambda>s. Option.bind (fbcon_putchar 0x20 s) (\<lambda>s.
        Option.bind (fbcon_putchar 0x20 s) (\<lambda>s. fbcon_putchar 0x20 s)))
      else if c < 32 \<or> c > 126 then Some s
      else Option.bind (if cur_col s \<ge> con_cols s then newline s else Some s) (\<lambda>s.
        Option.bind (set_cell (cur_row s) (cur_col s) c (con_fg s) s) (\<lambda>s.
        Option.bind (draw_cell (cur_row s) (cur_col s) s) (\<lambda>s. Some (s\<lparr>cur_col := cur_col s + 1\<rparr>))))))"
  by pat_completeness auto
termination
  by (relation "measure (\<lambda>(c, s). if c = 0x09 then 1 else 0)") auto

declare fbcon_putchar.simps [simp del]

section \<open>Writing cells\<close>

definition set_row :: "u32 \<Rightarrow> u32 \<Rightarrow> (u32 \<Rightarrow> u8) \<Rightarrow> (u32 \<Rightarrow> u32) \<Rightarrow> 'a fbcon_scheme \<Rightarrow> 'a fbcon_scheme" where
  "set_row r n ch fg s = s\<lparr>
     cell_ch := (cell_ch s)(r := \<lambda>c. if c < n then ch c else cell_ch s r c),
     cell_fg := (cell_fg s)(r := \<lambda>c. if c < n then fg c else cell_fg s r c)\<rparr>"

definition set_rows :: "u32 \<Rightarrow> u32 \<Rightarrow> (u32 \<Rightarrow> u32 \<Rightarrow> u8) \<Rightarrow> (u32 \<Rightarrow> u32 \<Rightarrow> u32) \<Rightarrow> 'a fbcon_scheme \<Rightarrow> 'a fbcon_scheme" where
  "set_rows m n ch fg s = s\<lparr>
     cell_ch := \<lambda>r c. if r < m \<and> c < n then ch r c else cell_ch s r c,
     cell_fg := \<lambda>r c. if r < m \<and> c < n then fg r c else cell_fg s r c\<rparr>"

lemma row_loop:
  assumes "r < 96" "n \<le> 160"
    and body: "\<And>c. c < n \<Longrightarrow> f c (set_row r c ch fg s) = set_cell r c (ch c) (fg c) (set_row r c ch fg s)"
  shows "foldM f (upto n) s = Some (set_row r n ch fg s)"
proof -
  have "\<exists>s'. foldM f (upto n) s = Some s' \<and> s' = set_row r n ch fg s"
  proof (rule foldM_upto)
    fix c s' assume c: "c < n" and s': "s' = set_row r c ch fg s"
    have "set_cell r c (ch c) (fg c) s' = Some (set_row r (c + 1) ch fg s)"
      using c assms(1,2) unfolding s'
      by (auto simp: set_cell_def set_row_def in_grid_def fun_eq_iff less_inc [OF c])
    then show "\<exists>s''. f c s' = Some s'' \<and> s'' = set_row r (c + 1) ch fg s" using body [OF c] s' by simp
  qed (simp add: set_row_def)
  then show ?thesis by simp
qed

lemma rows_loop:
  assumes body: "\<And>r. r < m \<Longrightarrow> f r (set_rows r n ch fg s) = Some (set_row r n (ch r) (fg r) (set_rows r n ch fg s))"
  shows "foldM f (upto m) s = Some (set_rows m n ch fg s)"
proof -
  have "\<exists>s'. foldM f (upto m) s = Some s' \<and> s' = set_rows m n ch fg s"
  proof (rule foldM_upto)
    fix r s' assume r: "r < m" and s': "s' = set_rows r n ch fg s"
    have "set_row r n (ch r) (fg r) s' = set_rows (r + 1) n ch fg s"
      unfolding s' by (auto simp: set_row_def set_rows_def fun_eq_iff less_inc [OF r])
    then show "\<exists>s''. f r s' = Some s'' \<and> s'' = set_rows (r + 1) n ch fg s" using body [OF r] s' by simp
  qed (simp add: set_rows_def)
  then show ?thesis by simp
qed

section \<open>The picture of the cells\<close>

definition con_geom :: "'a fbcon_scheme \<Rightarrow> bool" where
  "con_geom s \<longleftrightarrow> fb_ok s \<and> con_ready s \<and> 0 < con_cols s \<and> con_cols s \<le> 160 \<and> 0 < con_rows s \<and> con_rows s \<le> 96 \<and>
     unat (con_x s) + 8 * unat (con_cols s) \<le> unat (fb_width s) \<and>
     unat (con_y s) + 10 * unat (con_rows s) \<le> unat (fb_height s)"

definition cell_pixel :: "'a fbcon_scheme \<Rightarrow> u32 \<Rightarrow> u32 \<Rightarrow> u32 \<Rightarrow> u32 \<Rightarrow> u32" where
  "cell_pixel s r c dx dy =
     (let ch = cell_ch s r c in
      if ch \<noteq> 0 \<and> ch \<noteq> 0x20 \<and> dy < 8 \<and> bit (glyph_row ch (unat dy)) (7 - unat dx)
      then cell_fg s r c else con_bg s)"

definition shows_cells :: "(u32 \<Rightarrow> u32 \<Rightarrow> bool) \<Rightarrow> 'a fbcon_scheme \<Rightarrow> bool" where
  "shows_cells P s \<longleftrightarrow> (\<forall>r c dx dy. P r c \<longrightarrow> r < con_rows s \<longrightarrow> c < con_cols s \<longrightarrow> dx < 8 \<longrightarrow> dy < 10 \<longrightarrow>
     fb_getpixel (con_x s + c * 8 + dx) (con_y s + r * 10 + dy) s = cell_pixel s r c dx dy)"

definition in_console :: "'a fbcon_scheme \<Rightarrow> u32 \<Rightarrow> u32 \<Rightarrow> bool" where
  "in_console s x y \<longleftrightarrow> unat (x - con_x s) < 8 * unat (con_cols s) \<and> unat (y - con_y s) < 10 * unat (con_rows s)"

definition con_frame :: "'a fbcon_scheme \<Rightarrow> 'a fbcon_scheme \<Rightarrow> bool" where
  "con_frame s s' \<longleftrightarrow> con_x s' = con_x s \<and> con_y s' = con_y s \<and> con_cols s' = con_cols s \<and>
     con_rows s' = con_rows s \<and> con_bg s' = con_bg s \<and> con_fg s' = con_fg s \<and> con_ready s' = con_ready s \<and>
     fb_buffer s' = fb_buffer s \<and> fb_width s' = fb_width s \<and> fb_height s' = fb_height s \<and> fb_pitch s' = fb_pitch s \<and>
     (\<forall>x y. \<not> in_console s x y \<longrightarrow> fb_visible x y s \<longrightarrow> fb_getpixel x y s' = fb_getpixel x y s)"

lemma con_frame_refl [simp]: "con_frame s s"
  by (simp add: con_frame_def)

lemma con_frame_trans [trans]: "con_frame s t \<Longrightarrow> con_frame t u \<Longrightarrow> con_frame s u"
  by (auto simp: con_frame_def in_console_def fb_visible_def)

lemma con_frame_geom: "con_frame s s' \<Longrightarrow> con_geom s' = con_geom s"
  by (simp add: con_frame_def con_geom_def fb_ok_def)

lemma only_mem_con:
  assumes "s'\<lparr>fb_mem := fb_mem s\<rparr> = s"
  shows "con_x s' = con_x s" "con_y s' = con_y s" "con_cols s' = con_cols s" "con_rows s' = con_rows s"
    "con_bg s' = con_bg s" "con_fg s' = con_fg s" "con_ready s' = con_ready s" "cell_ch s' = cell_ch s"
    "cell_fg s' = cell_fg s" "cur_row s' = cur_row s" "cur_col s' = cur_col s"
    "cursor_shown s' = cursor_shown s" "cursor_row s' = cursor_row s" "cursor_col s' = cursor_col s"
  using arg_cong [OF assms, of con_x] arg_cong [OF assms, of con_y] arg_cong [OF assms, of con_cols]
    arg_cong [OF assms, of con_rows] arg_cong [OF assms, of con_bg] arg_cong [OF assms, of con_fg]
    arg_cong [OF assms, of con_ready] arg_cong [OF assms, of cell_ch] arg_cong [OF assms, of cell_fg]
    arg_cong [OF assms, of cur_row] arg_cong [OF assms, of cur_col] arg_cong [OF assms, of cursor_shown]
    arg_cong [OF assms, of cursor_row] arg_cong [OF assms, of cursor_col] by simp_all

lemma inside_cell:
  assumes "con_geom s" "r < con_rows s" "c < con_cols s" "dx < 8" "dy < 10"
  shows "fb_visible (con_x s + c * 8 + dx) (con_y s + r * 10 + dy) s"
    "in_console s (con_x s + c * 8 + dx) (con_y s + r * 10 + dy)"
proof -
  have b: "unat c < unat (con_cols s)" "unat r < unat (con_rows s)" "unat dx < 8" "unat dy < 10"
    "unat (con_cols s) \<le> 160" "unat (con_rows s) \<le> 96"
    "unat (con_x s) + 8 * unat (con_cols s) \<le> unat (fb_width s)"
    "unat (con_y s) + 10 * unat (con_rows s) \<le> unat (fb_height s)" "fb_buffer s \<noteq> 0"
    using assms by (auto simp: con_geom_def fb_ok_def word_less_nat_alt word_le_nat_alt)
  have w: "unat (fb_width s) < 2 ^ 32" "unat (fb_height s) < 2 ^ 32"
    using unsigned_less [of "fb_width s", where 'a = nat] unsigned_less [of "fb_height s", where 'a = nat] by auto
  have u: "unat (c * 8 + dx) = 8 * unat c + unat dx" "unat (r * 10 + dy) = 10 * unat r + unat dy"
    using b by (auto simp: unat_word_ariths)
  have v: "unat (con_x s + (c * 8 + dx)) = unat (con_x s) + (8 * unat c + unat dx)"
    "unat (con_y s + (r * 10 + dy)) = unat (con_y s) + (10 * unat r + unat dy)"
    using b w u by (auto simp: unat_word_ariths(1) [of _ "_ + _"])
  show "fb_visible (con_x s + c * 8 + dx) (con_y s + r * 10 + dy) s"
    using b v by (auto simp: fb_visible_def word_less_nat_alt add.assoc)
  show "in_console s (con_x s + c * 8 + dx) (con_y s + r * 10 + dy)"
    using b u by (auto simp: in_console_def add.assoc)
qed

lemma cell_unique:
  assumes "r < 96" "c < 160" "r' < 96" "c' < 160" "dx < 8" "dy < 10"
  shows "(x + c * 8 + dx) - (x + c' * 8) < (8 :: u32) \<longleftrightarrow> c = c'"
    "(y + r * 10 + dy) - (y + r' * 10) < (10 :: u32) \<longleftrightarrow> r = r'"
proof -
  have b: "unat c < 160" "unat r < 96" "unat c' < 160" "unat r' < 96" "unat dx < 8" "unat dy < 10"
    using assms by (auto simp: word_less_nat_alt)
  have u: "unat (c * 8 + dx) = 8 * unat c + unat dx" "unat (r * 10 + dy) = 10 * unat r + unat dy"
    "unat (c' * 8) = 8 * unat c'" "unat (r' * 10) = 10 * unat r'"
    using b by (auto simp: unat_word_ariths)
  have "unat (c * 8 + dx - c' * 8) < 8 \<longleftrightarrow> unat c = unat c'" "unat (r * 10 + dy - r' * 10) < 10 \<longleftrightarrow> unat r = unat r'"
    using u b by (auto simp: unat_sub_if')
  moreover have "x + c * 8 + dx - (x + c' * 8) = c * 8 + dx - c' * 8"
    "y + r * 10 + dy - (y + r' * 10) = r * 10 + dy - r' * 10" by simp_all
  ultimately show "(x + c * 8 + dx) - (x + c' * 8) < (8 :: u32) \<longleftrightarrow> c = c'"
    "(y + r * 10 + dy) - (y + r' * 10) < (10 :: u32) \<longleftrightarrow> r = r'"
    by (auto simp: word_less_nat_alt unsigned_word_eqI add_diff_eq)
qed

lemma draw_cell_paints:
  assumes geom: "con_geom s" and r: "r < con_rows s" and c: "c < con_cols s"
  shows "\<exists>s'. draw_cell r c s = Some s' \<and> s'\<lparr>fb_mem := fb_mem s\<rparr> = s \<and>
    (\<forall>x y. fb_visible x y s \<longrightarrow> fb_getpixel x y s' =
      (if x - (con_x s + c * 8) < 8 \<and> y - (con_y s + r * 10) < 10
       then cell_pixel s r c (x - (con_x s + c * 8)) (y - (con_y s + r * 10)) else fb_getpixel x y s))"
proof -
  define px where "px = con_x s + c * 8"
  define py where "py = con_y s + r * 10"
  define t where "t = fb_draw_rect px py 8 10 (con_bg s) s"
  define u where "u = (if cell_ch s r c \<noteq> 0 \<and> cell_ch s r c \<noteq> 0x20
    then font_draw_char px py (cell_ch s r c) (cell_fg s r c) (con_bg s) t else t)"
  note rect = paintsD [OF paints_rect [where px = px and py = py and w = 8 and h = 10 and c = "con_bg s"], of s]
  note glyph = paintsD [OF paints_char [where px = px and py = py and c = "cell_ch s r c" and fg = "cell_fg s r c" and bg = "con_bg s"], of t]
  have ok: "fb_ok s" using geom by (simp add: con_geom_def)
  have t: "t\<lparr>fb_mem := fb_mem s\<rparr> = s" using rect(1) by (simp add: t_def)
  have "in_grid r c" using geom r c by (auto simp: con_geom_def in_grid_def)
  then have "draw_cell r c s = Some u"
    using only_mem_con [OF t] by (simp add: draw_cell_def Let_def px_def [symmetric] py_def [symmetric] t_def [symmetric] u_def)
  moreover have "u\<lparr>fb_mem := fb_mem s\<rparr> = s"
    using t arg_cong [OF glyph(1), of "fb_mem_update (\<lambda>_. fb_mem s)"] by (simp add: u_def)
  moreover have "fb_getpixel x y u = (if x - px < 8 \<and> y - py < 10 then cell_pixel s r c (x - px) (y - py)
      else fb_getpixel x y s)" if "fb_visible x y s" for x y
  proof -
    have "y - py < 8 \<Longrightarrow> y - py < 10" by (simp add: word_less_nat_alt)
    then show ?thesis
      using rect(2) [OF ok that] glyph(2) [of x y] that ok only_mem(2,3) [OF t]
      by (auto simp: u_def cell_pixel_def t_def [symmetric])
  qed
  ultimately show ?thesis by (auto simp: px_def py_def)
qed

lemma shows_cells_weaken:
  assumes "shows_cells P s" "\<And>r c. r < con_rows s \<Longrightarrow> c < con_cols s \<Longrightarrow> Q r c \<Longrightarrow> P r c"
  shows "shows_cells Q s"
  using assms by (simp add: shows_cells_def)

lemma draw_cell_ok:
  assumes geom: "con_geom s" and r: "r < con_rows s" and c: "c < con_cols s" and P: "shows_cells P s"
  shows "\<exists>s'. draw_cell r c s = Some s' \<and> s'\<lparr>fb_mem := fb_mem s\<rparr> = s \<and> con_frame s s' \<and>
    shows_cells (\<lambda>r' c'. P r' c' \<or> r' = r \<and> c' = c) s'"
proof -
  obtain s' where s': "draw_cell r c s = Some s'" and mem: "s'\<lparr>fb_mem := fb_mem s\<rparr> = s"
    and px: "\<And>x y. fb_visible x y s \<Longrightarrow> fb_getpixel x y s' =
      (if x - (con_x s + c * 8) < 8 \<and> y - (con_y s + r * 10) < 10
       then cell_pixel s r c (x - (con_x s + c * 8)) (y - (con_y s + r * 10)) else fb_getpixel x y s)"
    using draw_cell_paints [OF geom r c] by blast
  have "con_frame s s'"
    using only_mem [OF mem] only_mem_con [OF mem] px
      inside_cell(2) [OF geom r c, where dx = "x - (con_x s + c * 8)" and dy = "y - (con_y s + r * 10)" for x y]
    by (fastforce simp: con_frame_def)
  moreover have "shows_cells (\<lambda>r' c'. P r' c' \<or> r' = r \<and> c' = c) s'"
    unfolding shows_cells_def only_mem_con [OF mem]
  proof (intro allI impI)
    fix r' c' and dx dy :: u32
    assume cell: "P r' c' \<or> r' = r \<and> c' = c" "r' < con_rows s" "c' < con_cols s" "dx < 8" "dy < 10"
    let ?x = "con_x s + c' * 8 + dx" and ?y = "con_y s + r' * 10 + dy"
    have lt: "r' < 96" "c' < 160" "r < 96" "c < 160" using geom r c cell by (auto simp: con_geom_def)
    have "fb_getpixel ?x ?y s' = (if c' = c \<and> r' = r then cell_pixel s r c dx dy else fb_getpixel ?x ?y s)"
      using px [OF inside_cell(1) [OF geom cell(2-5)]] cell_unique [OF lt(1,2,3,4) cell(4,5)] by auto
    also have "\<dots> = cell_pixel s r' c' dx dy" using P cell by (auto simp: shows_cells_def)
    finally show "fb_getpixel ?x ?y s' = cell_pixel s' r' c' dx dy"
      using only_mem_con [OF mem] by (simp add: cell_pixel_def Let_def)
  qed
  ultimately show ?thesis using s' mem by blast
qed

text \<open>Changing the cells or the positions leaves the pixels.\<close>

lemma shows_cells_cong:
  assumes "fb_mem s' = fb_mem s" "fb_buffer s' = fb_buffer s" "fb_width s' = fb_width s" "fb_height s' = fb_height s"
    "fb_pitch s' = fb_pitch s" "con_x s' = con_x s" "con_y s' = con_y s" "con_bg s' = con_bg s"
    "con_rows s' = con_rows s" "con_cols s' = con_cols s"
    "\<And>r c. Q r c \<Longrightarrow> P r c \<and> cell_ch s' r c = cell_ch s r c \<and> cell_fg s' r c = cell_fg s r c"
    "shows_cells P s"
  shows "shows_cells Q s'"
proof -
  have "fb_getpixel x y s' = fb_getpixel x y s" for x y
    using assms(1-5) by (simp add: fb_getpixel_def fb_visible_def fb_offset_def)
  moreover have "cell_pixel s' r c = cell_pixel s r c" if "Q r c" for r c
    using assms(8) assms(11) [OF that] by (simp add: cell_pixel_def fun_eq_iff Let_def)
  ultimately show ?thesis using assms(6-12) by (simp add: shows_cells_def)
qed

lemma con_frame_cong:
  assumes "fb_mem s' = fb_mem s" "fb_buffer s' = fb_buffer s" "fb_width s' = fb_width s" "fb_height s' = fb_height s"
    "fb_pitch s' = fb_pitch s" "con_x s' = con_x s" "con_y s' = con_y s" "con_bg s' = con_bg s" "con_fg s' = con_fg s"
    "con_rows s' = con_rows s" "con_cols s' = con_cols s" "con_ready s' = con_ready s"
  shows "con_frame s s'"
  using assms by (auto simp: con_frame_def fb_getpixel_def fb_visible_def fb_offset_def)

lemma redraw_all_ok:
  assumes geom: "con_geom s"
  shows "\<exists>s'. redraw_all s = Some s' \<and> s'\<lparr>fb_mem := fb_mem s\<rparr> = s \<and> con_frame s s' \<and> shows_cells (\<lambda>_ _. True) s'"
proof -
  define I where "I r c t \<longleftrightarrow> t\<lparr>fb_mem := fb_mem s\<rparr> = s \<and> con_frame s t \<and>
    shows_cells (\<lambda>r' c'. r' < r \<or> r' = r \<and> c' < c) t" for r c and t :: "'a fbcon_scheme"
  have row: "\<exists>t'. foldM (draw_cell r) (upto (con_cols s)) t = Some t' \<and> I (r + 1) 0 t'"
    if r: "r < con_rows s" and "I r 0 t" for r t
  proof -
    have "\<exists>t'. foldM (draw_cell r) (upto (con_cols s)) t = Some t' \<and> I r (con_cols s) t'"
    proof (rule foldM_upto)
      fix c t assume c: "c < con_cols s" and "I r c t"
      then have t: "t\<lparr>fb_mem := fb_mem s\<rparr> = s" "con_frame s t" "shows_cells (\<lambda>r' c'. r' < r \<or> r' = r \<and> c' < c) t"
        by (auto simp: I_def)
      obtain u where u: "draw_cell r c t = Some u" "u\<lparr>fb_mem := fb_mem t\<rparr> = t" "con_frame t u"
        "shows_cells (\<lambda>r' c'. (r' < r \<or> r' = r \<and> c' < c) \<or> r' = r \<and> c' = c) u"
        using draw_cell_ok [of t r c, OF _ _ _ t(3)] con_frame_geom [OF t(2)] geom r c only_mem_con [OF t(1)] by auto
      have "u\<lparr>fb_mem := fb_mem s\<rparr> = s" using t(1) arg_cong [OF u(2), of "fb_mem_update (\<lambda>_. fb_mem s)"] by simp
      moreover have "shows_cells (\<lambda>r' c'. r' < r \<or> r' = r \<and> c' < c + 1) u"
        using u(4) by (rule shows_cells_weaken) (auto simp: less_inc [OF c])
      ultimately show "\<exists>t'. draw_cell r c t = Some t' \<and> I r (c + 1) t'"
        using u(1) con_frame_trans [OF t(2) u(3)] by (simp add: I_def)
    qed (rule that(2))
    moreover have "I (r + 1) 0 t'" if "I r (con_cols s) t'" for t'
    proof -
      have t': "t'\<lparr>fb_mem := fb_mem s\<rparr> = s" "con_frame s t'"
        "shows_cells (\<lambda>r' c'. r' < r \<or> r' = r \<and> c' < con_cols s) t'" using that by (simp_all add: I_def)
      have "shows_cells (\<lambda>r' c'. r' < r + 1 \<or> r' = r + 1 \<and> c' < 0) t'"
        using t'(3) by (rule shows_cells_weaken) (auto simp: less_inc [OF r] only_mem_con [OF t'(1)])
      then show ?thesis using t'(1,2) by (simp add: I_def)
    qed
    ultimately show ?thesis by blast
  qed
  have "\<exists>t. foldM (\<lambda>r. foldM (draw_cell r) (upto (con_cols s))) (upto (con_rows s)) s = Some t \<and> I (con_rows s) 0 t"
  proof (rule foldM_upto [where I = "\<lambda>r. I r 0"])
    show "I 0 0 s" by (simp add: I_def shows_cells_def)
  qed (rule row)
  then obtain t where t: "redraw_all s = Some t" "I (con_rows s) 0 t" by (auto simp: redraw_all_def)
  have f: "t\<lparr>fb_mem := fb_mem s\<rparr> = s" "con_frame s t" using t(2) by (simp_all add: I_def)
  have "shows_cells (\<lambda>_ _. True) t"
    by (rule shows_cells_weaken [of "\<lambda>r' c'. r' < con_rows s \<or> r' = con_rows s \<and> c' < 0"])
      (use t(2) in \<open>simp_all add: I_def only_mem_con [OF f(1)]\<close>)
  then show ?thesis using t(1) f by blast
qed

section \<open>The terminal\<close>

text \<open>
  What the console shows as a text: lines of characters with their colours, and the position of the
  next character.
\<close>

type_synonym cell = "u8 \<times> u32"
type_synonym terminal = "cell list list \<times> nat \<times> nat"

definition put_at :: "nat \<Rightarrow> nat \<Rightarrow> cell \<Rightarrow> cell list list \<Rightarrow> cell list list" where
  "put_at r c x ls = ls[r := (ls ! r)[c := x]]"

definition scrolled :: "u32 \<Rightarrow> cell list list \<Rightarrow> cell list list" where
  "scrolled fg ls = tl ls @ [map (\<lambda>_. (0x20, fg)) (hd ls)]"

fun term_newline :: "u32 \<Rightarrow> terminal \<Rightarrow> terminal" where
  "term_newline fg (ls, r, c) = (if r + 1 < length ls then (ls, r + 1, 0) else (scrolled fg ls, r, 0))"

fun term_print :: "u8 \<Rightarrow> u32 \<Rightarrow> terminal \<Rightarrow> terminal" where
  "term_print ch fg (ls, r, c) =
     (let (ls, r, c) = (if c < length (hd ls) then (ls, r, c) else term_newline fg (ls, r, c))
      in (put_at r c (ch, fg) ls, r, c + 1))"

fun term_backspace :: "terminal \<Rightarrow> terminal" where
  "term_backspace (ls, r, c) =
     (let (r, c) = (if c > 0 then (r, c - 1) else if r > 0 then (r - 1, length (hd ls) - 1) else (r, c))
      in (put_at r c (0x20, snd (ls ! r ! c)) ls, r, c))"

definition term_putchar :: "u8 \<Rightarrow> u32 \<Rightarrow> terminal \<Rightarrow> terminal" where
  "term_putchar ch fg t =
     (if ch = 0x0A then term_newline fg t
      else if ch = 0x0D then (fst t, fst (snd t), 0)
      else if ch = 0x08 then term_backspace t
      else if ch = 0x09 then (term_print 0x20 fg ^^ 4) t
      else if ch < 32 \<or> ch > 126 then t
      else term_print ch fg t)"

definition con_lines :: "'a fbcon_scheme \<Rightarrow> cell list list" where
  "con_lines s = map (\<lambda>r. map (\<lambda>c. (cell_ch s r c, cell_fg s r c)) (upto (con_cols s))) (upto (con_rows s))"

definition con_text :: "'a fbcon_scheme \<Rightarrow> terminal" where
  "con_text s = (con_lines s, unat (cur_row s), unat (cur_col s))"

definition con_inv :: "'a fbcon_scheme \<Rightarrow> bool" where
  "con_inv s \<longleftrightarrow> con_geom s \<and> cur_row s < con_rows s \<and> cur_col s \<le> con_cols s \<and>
     (cursor_shown s \<longrightarrow> cursor_row s < con_rows s \<and> cursor_col s < con_cols s) \<and>
     shows_cells (\<lambda>r c. \<not> (cursor_shown s \<and> r = cursor_row s \<and> c = cursor_col s)) s"

lemma length_upto [simp]: "length (upto n) = unat n"
  by (simp add: upto_def)

lemma nth_upto [simp]: "i < unat n \<Longrightarrow> upto n ! i = of_nat i"
  by (simp add: upto_def)

lemma con_lines_shape [simp]:
  "length (con_lines s) = unat (con_rows s)"
  "i < unat (con_rows s) \<Longrightarrow> length (con_lines s ! i) = unat (con_cols s)"
  by (simp_all add: con_lines_def)

lemma con_lines_nth:
  "i < unat (con_rows s) \<Longrightarrow> k < unat (con_cols s) \<Longrightarrow>
    con_lines s ! i ! k = (cell_ch s (of_nat i) (of_nat k), cell_fg s (of_nat i) (of_nat k))"
  by (simp add: con_lines_def)

lemma hd_con_lines: "0 < con_rows s \<Longrightarrow> hd (con_lines s) = con_lines s ! 0"
  by (subst hd_conv_nth) (auto simp: word_gt_0 unat_gt_0 simp flip: length_0_conv)

lemma lines_eqI:
  assumes "length ls = m" "length ls' = m" "\<And>i. i < m \<Longrightarrow> length (ls ! i) = n \<and> length (ls' ! i) = n"
    "\<And>i k. i < m \<Longrightarrow> k < n \<Longrightarrow> ls ! i ! k = ls' ! i ! k"
  shows "ls = ls'"
  using assms by (intro nth_equalityI) auto

lemma con_lines_cong:
  assumes "con_rows s' = con_rows s" "con_cols s' = con_cols s" "cell_ch s' = cell_ch s" "cell_fg s' = cell_fg s"
  shows "con_lines s' = con_lines s"
  using assms by (simp add: con_lines_def)

lemma of_nat_unat_eq: "i < 2 ^ 32 \<Longrightarrow> of_nat i = r \<longleftrightarrow> i = unat r" for r :: u32
  by (auto simp: unat_of_nat)

lemma con_lines_set_cell:
  assumes "set_cell r c ch fg s = Some s'" "r < con_rows s" "c < con_cols s"
  shows "con_lines s' = put_at (unat r) (unat c) (ch, fg) (con_lines s)"
proof -
  have s': "s' = s\<lparr>cell_ch := (cell_ch s)(r := (cell_ch s r)(c := ch)), cell_fg := (cell_fg s)(r := (cell_fg s r)(c := fg))\<rparr>"
    using assms(1) by (simp add: set_cell_def split: if_splits)
  have lt: "unat r < unat (con_rows s)" "unat c < unat (con_cols s)" using assms(2,3) by (simp_all add: word_less_nat_alt)
  show ?thesis
  proof (rule lines_eqI [where m = "unat (con_rows s)" and n = "unat (con_cols s)"])
    fix i k assume i: "i < unat (con_rows s)" and k: "k < unat (con_cols s)"
    have b: "i < 2 ^ 32" "k < 2 ^ 32" using i k unsigned_less [of "con_rows s", where 'a = nat] unsigned_less [of "con_cols s", where 'a = nat] by auto
    show "con_lines s' ! i ! k = put_at (unat r) (unat c) (ch, fg) (con_lines s) ! i ! k"
      using i k lt of_nat_unat_eq [OF b(1), of r] of_nat_unat_eq [OF b(2), of c]
      by (auto simp: put_at_def nth_list_update con_lines_nth s')
  qed (auto simp: put_at_def nth_list_update s' lt)
qed

lemma con_lines_scrolled:
  assumes "0 < con_rows s"
  shows "con_lines (set_row (con_rows s - 1) (con_cols s) (\<lambda>_. 0x20) (\<lambda>_. fg)
      (set_rows (con_rows s - 1) (con_cols s) (\<lambda>r. cell_ch s (r + 1)) (\<lambda>r. cell_fg s (r + 1)) s)) =
    scrolled fg (con_lines s)" (is "con_lines ?s = _")
proof (rule lines_eqI [where m = "unat (con_rows s)" and n = "unat (con_cols s)"])
  have n: "unat (con_rows s - 1) = unat (con_rows s) - 1" "0 < unat (con_rows s)" 
    using unat_dec [of "con_rows s"] assms by (simp_all add: word_gt_0)
  have shape: "con_rows ?s = con_rows s" "con_cols ?s = con_cols s" by (simp_all add: set_row_def set_rows_def)
  show "length (con_lines ?s) = unat (con_rows s)" by (simp add: shape)
  show "length (scrolled fg (con_lines s)) = unat (con_rows s)" using n by (simp add: scrolled_def)
  fix i assume i: "i < unat (con_rows s)"
  show "length (con_lines ?s ! i) = unat (con_cols s) \<and> length (scrolled fg (con_lines s) ! i) = unat (con_cols s)"
    using i n hd_con_lines [OF assms] by (auto simp: shape scrolled_def nth_append nth_tl)
  fix k assume k: "k < unat (con_cols s)"
  have b: "i < 2 ^ 32" "k < 2 ^ 32" using i k unsigned_less [of "con_rows s", where 'a = nat] unsigned_less [of "con_cols s", where 'a = nat] by auto
  have ik: "of_nat i < con_rows s - 1 \<longleftrightarrow> i < unat (con_rows s) - 1" "of_nat k < con_cols s"
    using b k n by (simp_all add: word_less_nat_alt unat_of_nat)
  show "con_lines ?s ! i ! k = scrolled fg (con_lines s) ! i ! k"
    using i k n hd_con_lines [OF assms] of_nat_unat_eq [OF b(1), of "con_rows s - 1"] ik
    by (auto simp: con_lines_nth shape scrolled_def nth_append nth_tl set_row_def set_rows_def add.commute [of 1])
qed

section \<open>The operations on the terminal\<close>

lemma upto_filter: "0 < n \<Longrightarrow> filter (\<lambda>r. r + 1 < n) (upto n) = upto (n - 1)"
proof -
  assume "0 < n"
  then obtain k where k: "unat n = Suc k" "unat (n - 1) = k" using unat_dec [of n] by (auto simp: word_gt_0 gr0_conv_Suc)
  have n: "unat n < 2 ^ 32" using unsigned_less [of n, where 'a = nat] by simp
  have lt: "(of_nat i :: u32) + 1 < n \<longleftrightarrow> i < k" if "i < Suc k" for i
    using that k n by (simp add: word_less_nat_alt unat_of_nat unat_word_ariths)
  have "filter (\<lambda>r. r + 1 < n) (upto n) = map of_nat (filter (\<lambda>i. i < k) [0..<Suc k])"
    by (auto simp: upto_def k(1) filter_map lt simp del: upt_Suc intro!: arg_cong [where f = "map of_nat"] filter_cong)
  then show ?thesis by (simp add: upto_def k)
qed

definition idle :: "'a fbcon_scheme \<Rightarrow> bool" where
  "idle s \<longleftrightarrow> con_inv s \<and> \<not> cursor_shown s"

lemma idleI:
  assumes "con_geom s" "cur_row s < con_rows s" "cur_col s \<le> con_cols s" "\<not> cursor_shown s" "shows_cells (\<lambda>_ _. True) s"
  shows "idle s"
  using assms by (simp add: idle_def con_inv_def)

lemma idleD:
  assumes "idle s"
  shows "con_geom s" "cur_row s < con_rows s" "cur_col s \<le> con_cols s" "\<not> cursor_shown s" "shows_cells (\<lambda>_ _. True) s"
    "0 < con_rows s" "0 < con_cols s"
  using assms by (auto simp: idle_def con_inv_def con_geom_def)

lemma scroll_up_ok:
  assumes geom: "con_geom s"
  shows "\<exists>s'. scroll_up s = Some s' \<and> con_frame s s' \<and> shows_cells (\<lambda>_ _. True) s' \<and> \<not> cursor_shown s' \<and>
    cur_row s' = con_rows s - 1 \<and> cur_col s' = cur_col s \<and> con_lines s' = scrolled (con_fg s) (con_lines s)"
proof -
  define a where "a = set_rows (con_rows s - 1) (con_cols s) (\<lambda>r. cell_ch s (r + 1)) (\<lambda>r. cell_fg s (r + 1)) s"
  define b where "b = set_row (con_rows s - 1) (con_cols s) (\<lambda>_. 0x20) (\<lambda>_. con_fg s) a"
  define t where "t = b\<lparr>cur_row := con_rows s - 1, cursor_shown := False\<rparr>"
  have g: "0 < con_rows s" "con_rows s \<le> 96" "con_cols s \<le> 160" "con_rows s - 1 < 96"
    using geom unat_dec [of "con_rows s"] by (auto simp: con_geom_def word_le_nat_alt word_less_nat_alt simp flip: unat_gt_0)
  have lt: "r + 1 < 96 \<and> r < 96 \<and> r + 1 \<noteq> r \<and> \<not> r + 1 < r" if "r < con_rows s - 1" for r
    using that g unat_inc [OF that] by (auto simp: word_less_nat_alt word_le_nat_alt)
  have body: "(if in_grid (r + 1) c then set_cell r c (cell_ch t (r + 1) c) (cell_fg t (r + 1) c) t else None) =
      set_cell r c (cell_ch s (r + 1) c) (cell_fg s (r + 1) c) t"
    if r: "r < con_rows s - 1" and c: "c < con_cols s" and t: "t = set_row r c (cell_ch s (r + 1)) (cell_fg s (r + 1))
      (set_rows r (con_cols s) (\<lambda>r. cell_ch s (r + 1)) (\<lambda>r. cell_fg s (r + 1)) s)" for r c t
    using lt [OF r] c g unfolding t by (auto simp: in_grid_def set_row_def set_rows_def)
  have "foldM (\<lambda>r. foldM (\<lambda>c t. if in_grid (r + 1) c then set_cell r c (cell_ch t (r + 1) c) (cell_fg t (r + 1) c) t else None)
      (upto (con_cols s))) (upto (con_rows s - 1)) s = Some a"
    unfolding a_def by (rule rows_loop, rule row_loop, use lt in blast, rule g, rule body [OF _ _ refl])
  moreover have "foldM (\<lambda>c t. set_cell (con_rows s - 1) c 0x20 (con_fg t) t) (upto (con_cols s)) a = Some b"
    unfolding b_def by (rule row_loop) (use g in \<open>auto simp: set_row_def a_def set_rows_def\<close>)
  ultimately have *: "scroll_up s = redraw_all t"
    by (simp add: scroll_up_def Let_def upto_filter [OF g(1)] t_def)
  have fr: "con_frame s t" by (rule con_frame_cong) (simp_all add: t_def a_def b_def set_row_def set_rows_def)
  obtain u where u: "redraw_all t = Some u" "u\<lparr>fb_mem := fb_mem t\<rparr> = t" "con_frame t u" "shows_cells (\<lambda>_ _. True) u"
    using redraw_all_ok [of t] con_frame_geom [OF fr] geom by auto
  have "con_lines u = con_lines b"
    using only_mem_con [OF u(2)] by (intro con_lines_cong) (simp_all add: t_def)
  then show ?thesis
    using u * con_frame_trans [OF fr u(3)] only_mem_con [OF u(2)] con_lines_scrolled [OF g(1), of "con_fg s"]
    by (auto simp: t_def a_def b_def set_row_def set_rows_def)
qed

lemma newline_ok:
  assumes "idle s"
  shows "\<exists>s'. newline s = Some s' \<and> idle s' \<and> con_frame s s' \<and> con_text s' = term_newline (con_fg s) (con_text s) \<and> cur_col s' = 0"
proof (cases "cur_row s + 1 < con_rows s")
  case True
  let ?s = "s\<lparr>cur_col := 0, cur_row := cur_row s + 1\<rparr>"
  have fr: "con_frame s ?s" by (rule con_frame_cong) simp_all
  have "shows_cells (\<lambda>_ _. True) ?s"
    by (rule shows_cells_cong [where s = s and P = "\<lambda>_ _. True"]) (use idleD(5) [OF assms] in simp_all)
  then have "idle ?s" using idleD [OF assms] True con_frame_geom [OF fr] by (intro idleI) simp_all
  moreover have "con_lines ?s = con_lines s" by (rule con_lines_cong) simp_all
  moreover have "unat (cur_row s + 1) = unat (cur_row s) + 1" using unat_inc [OF idleD(2) [OF assms]] by simp
  ultimately have "con_text ?s = term_newline (con_fg s) (con_text s)"
    using True by (simp add: con_text_def word_less_nat_alt)
  moreover have "newline s = Some ?s" using True by (simp add: newline_def)
  ultimately show ?thesis using \<open>idle ?s\<close> fr by (intro exI [of _ ?s]) simp
next
  case False
  let ?s = "s\<lparr>cur_col := 0\<rparr>"
  have fr: "con_frame s ?s" by (rule con_frame_cong) simp_all
  obtain u where u: "scroll_up ?s = Some u" "con_frame ?s u" "shows_cells (\<lambda>_ _. True) u" "\<not> cursor_shown u"
    "cur_row u = con_rows s - 1" "cur_col u = 0" "con_lines u = scrolled (con_fg s) (con_lines ?s)"
    using scroll_up_ok [of ?s] con_frame_geom [OF fr] idleD(1) [OF assms] by auto
  have n: "unat (cur_row s) + 1 = unat (con_rows s)"
    using False idleD(2) [OF assms] unat_inc [OF idleD(2) [OF assms]] by (simp add: word_less_nat_alt)
  have d: "unat (con_rows s - 1) = unat (con_rows s) - 1" "0 < unat (con_rows s)"
    using unat_dec [of "con_rows s"] idleD(6) [OF assms] by (simp_all add: word_gt_0)
  have "unat (cur_row s) = unat (con_rows s - 1)" using n d by simp
  then have row: "cur_row s = con_rows s - 1" by (rule unsigned_word_eqI)
  have lt: "con_rows s - 1 < con_rows s" using d by (simp add: word_less_nat_alt)
  have f: "con_frame s u" by (rule con_frame_trans [OF fr u(2)])
  have "con_rows u = con_rows s" using f by (simp add: con_frame_def)
  then have "idle u" using u(3-6) lt con_frame_geom [OF f] idleD(1) [OF assms] by (intro idleI) simp_all
  moreover have "con_lines ?s = con_lines s" by (rule con_lines_cong) simp_all
  then have "con_text u = term_newline (con_fg s) (con_text s)" using u(5-7) n row by (simp add: con_text_def)
  moreover have "newline s = Some u" using False u(1) by (simp add: newline_def)
  ultimately show ?thesis using f u(6) by blast
qed

lemma cursor_hide_ok:
  assumes "con_inv s"
  shows "\<exists>s'. cursor_hide s = Some s' \<and> idle s' \<and> con_frame s s' \<and> con_text s' = con_text s"
proof (cases "cursor_shown s")
  case False
  then show ?thesis using assms by (simp add: cursor_hide_def idle_def)
next
  case True
  let ?s = "s\<lparr>cursor_shown := False\<rparr>" and ?P = "\<lambda>r c. \<not> (r = cursor_row s \<and> c = cursor_col s)"
  have inv: "con_geom s" "cur_row s < con_rows s" "cur_col s \<le> con_cols s" "cursor_row s < con_rows s"
    "cursor_col s < con_cols s" "shows_cells ?P s" using assms True by (simp_all add: con_inv_def)
  have fr: "con_frame s ?s" by (rule con_frame_cong) simp_all
  have P: "shows_cells ?P ?s" by (rule shows_cells_cong [where s = s and P = ?P]) (use inv(6) in simp_all)
  obtain u where u: "draw_cell (cursor_row s) (cursor_col s) ?s = Some u" "u\<lparr>fb_mem := fb_mem ?s\<rparr> = ?s" "con_frame ?s u"
    "shows_cells (\<lambda>r c. ?P r c \<or> r = cursor_row s \<and> c = cursor_col s) u"
    using draw_cell_ok [OF _ _ _ P, of "cursor_row s" "cursor_col s"] con_frame_geom [OF fr] inv by auto
  have f: "con_frame s u" by (rule con_frame_trans [OF fr u(3)])
  have "shows_cells (\<lambda>_ _. True) u" using u(4) by (rule shows_cells_weaken) blast
  then have "idle u" using only_mem_con [OF u(2)] con_frame_geom [OF f] inv by (intro idleI) simp_all
  moreover have "con_text u = con_text s" using only_mem_con [OF u(2)] con_lines_cong [of u s] by (simp add: con_text_def)
  moreover have "cursor_hide s = Some u" using True inv u(1) by (simp add: cursor_hide_def)
  ultimately show ?thesis using f by blast
qed

lemma write_cell_ok:
  assumes idle: "idle s" and r: "cur_row s < con_rows s" and c: "cur_col s < con_cols s"
  shows "\<exists>t u. set_cell (cur_row s) (cur_col s) ch fg s = Some t \<and> cur_row t = cur_row s \<and> cur_col t = cur_col s \<and>
    draw_cell (cur_row s) (cur_col s) t = Some u \<and> idle u \<and> con_frame s u \<and> cur_row u = cur_row s \<and> cur_col u = cur_col s \<and>
    con_lines u = put_at (unat (cur_row s)) (unat (cur_col s)) (ch, fg) (con_lines s)"
proof -
  note inv = idleD [OF idle]
  have "in_grid (cur_row s) (cur_col s)" using inv(1) r c by (auto simp: in_grid_def con_geom_def)
  then obtain t where t: "set_cell (cur_row s) (cur_col s) ch fg s = Some t" by (simp add: set_cell_def)
  then have t_def: "t = s\<lparr>cell_ch := (cell_ch s)(cur_row s := (cell_ch s (cur_row s))(cur_col s := ch)),
      cell_fg := (cell_fg s)(cur_row s := (cell_fg s (cur_row s))(cur_col s := fg))\<rparr>"
    by (simp add: set_cell_def split: if_splits)
  have fr: "con_frame s t" by (rule con_frame_cong) (simp_all add: t_def)
  let ?P = "\<lambda>r c. \<not> (r = cur_row s \<and> c = cur_col s)"
  have P: "shows_cells ?P t"
    by (rule shows_cells_cong [where s = s and P = "\<lambda>_ _. True"]) (use inv(5) in \<open>auto simp: t_def\<close>)
  obtain u where u: "draw_cell (cur_row s) (cur_col s) t = Some u" "u\<lparr>fb_mem := fb_mem t\<rparr> = t" "con_frame t u"
    "shows_cells (\<lambda>r c. ?P r c \<or> r = cur_row s \<and> c = cur_col s) u"
    using draw_cell_ok [OF _ _ _ P, of "cur_row s" "cur_col s"] con_frame_geom [OF fr] inv(1) r c by (auto simp: t_def)
  have f: "con_frame s u" by (rule con_frame_trans [OF fr u(3)])
  have "shows_cells (\<lambda>_ _. True) u" using u(4) by (rule shows_cells_weaken) blast
  moreover have pos: "cur_row u = cur_row s" "cur_col u = cur_col s" "con_rows u = con_rows s" "con_cols u = con_cols s"
    "\<not> cursor_shown u" using only_mem_con [OF u(2)] inv(4) by (simp_all add: t_def)
  ultimately have "idle u" using con_frame_geom [OF f] inv(1-3) by (intro idleI) simp_all
  moreover have "con_lines u = con_lines t" using only_mem_con [OF u(2)] by (intro con_lines_cong) simp_all
  then have "con_lines u = put_at (unat (cur_row s)) (unat (cur_col s)) (ch, fg) (con_lines s)"
    using con_lines_set_cell [OF t r c] by simp
  ultimately show ?thesis using t u(1) f pos(1,2) by (auto simp: t_def)
qed

definition print_char :: "u8 \<Rightarrow> 'a fbcon_scheme \<Rightarrow> 'a fbcon_scheme option" where
  "print_char c s = Option.bind (if cur_col s \<ge> con_cols s then newline s else Some s) (\<lambda>s.
     Option.bind (set_cell (cur_row s) (cur_col s) c (con_fg s) s) (\<lambda>s.
     Option.bind (draw_cell (cur_row s) (cur_col s) s) (\<lambda>s. Some (s\<lparr>cur_col := cur_col s + 1\<rparr>))))"

lemma print_char_ok:
  assumes idle: "idle s"
  shows "\<exists>s'. print_char ch s = Some s' \<and> idle s' \<and> con_frame s s' \<and> con_text s' = term_print ch (con_fg s) (con_text s)"
proof -
  have wrap: "\<exists>w. (if cur_col s \<ge> con_cols s then newline s else Some s) = Some w \<and> idle w \<and> con_frame s w \<and>
      cur_col w < con_cols w \<and> con_text w = (if cur_col s \<ge> con_cols s then term_newline (con_fg s) (con_text s) else con_text s)"
  proof (cases "cur_col s \<ge> con_cols s")
    case True
    obtain w where w: "newline s = Some w" "idle w" "con_frame s w" "con_text w = term_newline (con_fg s) (con_text s)" "cur_col w = 0"
      using newline_ok [OF idle] by blast
    then show ?thesis using True idleD(7) [OF w(2)] by simp
  qed (use idle in auto)
  then obtain w where w: "(if cur_col s \<ge> con_cols s then newline s else Some s) = Some w" "idle w" "con_frame s w" "cur_col w < con_cols w"
    and txt_w: "con_text w = (if cur_col s \<ge> con_cols s then term_newline (con_fg s) (con_text s) else con_text s)" by blast
  have fg: "con_fg w = con_fg s" using w(3) by (simp add: con_frame_def)
  obtain t u where u: "set_cell (cur_row w) (cur_col w) ch (con_fg w) w = Some t" "cur_row t = cur_row w" "cur_col t = cur_col w"
    "draw_cell (cur_row w) (cur_col w) t = Some u" "idle u" "con_frame w u" "cur_row u = cur_row w" "cur_col u = cur_col w"
    "con_lines u = put_at (unat (cur_row w)) (unat (cur_col w)) (ch, con_fg w) (con_lines w)"
    using write_cell_ok [OF w(2) idleD(2) [OF w(2)] w(4)] by blast
  let ?v = "u\<lparr>cur_col := cur_col u + 1\<rparr>"
  have fr: "con_frame u ?v" by (rule con_frame_cong) simp_all
  have eq: "con_cols u = con_cols w" using u(6) by (simp add: con_frame_def)
  have nat: "unat (cur_col u + 1) = unat (cur_col w) + 1" using unat_inc [OF w(4)] u(8) by simp
  have "shows_cells (\<lambda>_ _. True) ?v"
    by (rule shows_cells_cong [where s = u and P = "\<lambda>_ _. True"]) (use idleD(5) [OF u(5)] in simp_all)
  moreover have "cur_col u + 1 \<le> con_cols u" using nat w(4) eq by (simp add: word_le_nat_alt word_less_nat_alt)
  ultimately have "idle ?v" using idleD [OF u(5)] con_frame_geom [OF fr] by (intro idleI) simp_all
  moreover have "print_char ch s = Some ?v" using w(1) u(1-4) by (simp add: print_char_def)
  moreover have "con_text ?v = term_print ch (con_fg s) (con_text s)"
  proof -
    have "length (hd (con_lines s)) = unat (con_cols s)"
      using hd_con_lines [OF idleD(6) [OF idle]] idleD(6) [OF idle] by (simp add: word_less_nat_alt)
    then have "term_print ch (con_fg s) (con_text s) = (case con_text w of (ls, r, c) \<Rightarrow> (put_at r c (ch, con_fg s) ls, r, c + 1))"
      using txt_w by (simp add: con_text_def word_le_nat_alt not_less split: prod.splits)
    moreover have "con_lines ?v = con_lines u" by (rule con_lines_cong) simp_all
    ultimately show ?thesis using u(7-9) nat fg by (simp add: con_text_def)
  qed
  ultimately show ?thesis using con_frame_trans [OF con_frame_trans [OF w(3) u(6)] fr] by blast
qed

lemma idle_ready: "con_inv s \<Longrightarrow> con_ready s"
  by (simp add: con_inv_def con_geom_def)

lemma putchar_printable:
  assumes "con_inv s" "\<not> (c < 32 \<or> c > 126)"
  shows "fbcon_putchar c s = Option.bind (cursor_hide s) (print_char c)"
proof -
  have "c \<noteq> 0x0A" "c \<noteq> 0x0D" "c \<noteq> 0x08" "c \<noteq> 0x09" using assms(2) by auto
  then show ?thesis using assms idle_ready [OF assms(1)]
    by (subst fbcon_putchar.simps) (simp add: print_char_def [abs_def])
qed

lemma space_ok:
  assumes "idle s"
  shows "\<exists>s'. fbcon_putchar 0x20 s = Some s' \<and> idle s' \<and> con_frame s s' \<and> con_text s' = term_print 0x20 (con_fg s) (con_text s)"
proof -
  have "cursor_hide s = Some s" using idleD(4) [OF assms] by (simp add: cursor_hide_def)
  then have "fbcon_putchar 0x20 s = print_char 0x20 s"
    using putchar_printable [of s "0x20"] assms by (simp add: idle_def)
  then show ?thesis using print_char_ok [OF assms] by simp
qed

lemma spaces_ok:
  assumes "idle s"
  shows "\<exists>s'. Option.bind (fbcon_putchar 0x20 s) (\<lambda>s. Option.bind (fbcon_putchar 0x20 s) (\<lambda>s.
      Option.bind (fbcon_putchar 0x20 s) (\<lambda>s. fbcon_putchar 0x20 s))) = Some s' \<and> idle s' \<and> con_frame s s' \<and>
    con_text s' = (term_print 0x20 (con_fg s) ^^ 4) (con_text s)"
proof -
  obtain a where a: "fbcon_putchar 0x20 s = Some a" "idle a" "con_frame s a" "con_text a = term_print 0x20 (con_fg s) (con_text s)"
    using space_ok [OF assms] by blast
  obtain b where b: "fbcon_putchar 0x20 a = Some b" "idle b" "con_frame a b" "con_text b = term_print 0x20 (con_fg a) (con_text a)"
    using space_ok [OF a(2)] by blast
  obtain c where c: "fbcon_putchar 0x20 b = Some c" "idle c" "con_frame b c" "con_text c = term_print 0x20 (con_fg b) (con_text b)"
    using space_ok [OF b(2)] by blast
  obtain d where d: "fbcon_putchar 0x20 c = Some d" "idle d" "con_frame c d" "con_text d = term_print 0x20 (con_fg c) (con_text c)"
    using space_ok [OF c(2)] by blast
  have fg: "con_fg a = con_fg s" "con_fg b = con_fg s" "con_fg c = con_fg s" using a(3) b(3) c(3) by (simp_all add: con_frame_def)
  have "con_frame s d" by (rule con_frame_trans [OF con_frame_trans [OF con_frame_trans [OF a(3) b(3)] c(3)] d(3)])
  then show ?thesis using a(1,4) b(1,4) c(1,4) d(1,2,4) fg by (simp add: eval_nat_numeral)
qed

lemma backspace_ok:
  assumes idle: "idle s"
  defines "b \<equiv> (if cur_col s > 0 then s\<lparr>cur_col := cur_col s - 1\<rparr>
     else if cur_row s > 0 then s\<lparr>cur_row := cur_row s - 1, cur_col := con_cols s - 1\<rparr> else s)"
  shows "\<exists>s'. Option.bind (set_cell (cur_row b) (cur_col b) 0x20 (cell_fg b (cur_row b) (cur_col b)) b)
      (\<lambda>s. draw_cell (cur_row s) (cur_col s) s) = Some s' \<and> idle s' \<and> con_frame s s' \<and> con_text s' = term_backspace (con_text s)"
proof -
  note inv = idleD [OF idle]
  have n: "unat (cur_row s) < unat (con_rows s)" "unat (cur_col s) \<le> unat (con_cols s)" "0 < unat (con_cols s)"
    using inv by (simp_all add: word_less_nat_alt word_le_nat_alt)
  have fr: "con_frame s b" by (rule con_frame_cong) (simp_all add: b_def)
  have same: "cell_ch b = cell_ch s" "cell_fg b = cell_fg s" "con_rows b = con_rows s" "con_cols b = con_cols s" "\<not> cursor_shown b"
    using inv(4) by (simp_all add: b_def)
  define r where "r = unat (cur_row b)"
  define c where "c = unat (cur_col b)"
  have rc: "(r, c) = (if unat (cur_col s) > 0 then (unat (cur_row s), unat (cur_col s) - 1)
      else if unat (cur_row s) > 0 then (unat (cur_row s) - 1, unat (con_cols s) - 1) else (unat (cur_row s), unat (cur_col s)))"
    using unat_dec [of "cur_col s"] unat_dec [of "cur_row s"] unat_dec [of "con_cols s"] inv(7)
    by (simp add: r_def c_def b_def word_gt_0 unat_gt_0)
  have lt: "r < unat (con_rows s)" "c < unat (con_cols s)" using rc n by (auto split: if_splits)
  then have pos: "cur_row b < con_rows b" "cur_col b < con_cols b" by (simp_all add: r_def c_def same word_less_nat_alt)
  have "shows_cells (\<lambda>_ _. True) b"
    by (rule shows_cells_cong [where s = s and P = "\<lambda>_ _. True"]) (use inv(5) in \<open>simp_all add: b_def\<close>)
  then have "idle b" using con_frame_geom [OF fr] inv(1) same(5) pos by (intro idleI) simp_all
  then obtain t u where u: "set_cell (cur_row b) (cur_col b) 0x20 (cell_fg b (cur_row b) (cur_col b)) b = Some t"
    "cur_row t = cur_row b" "cur_col t = cur_col b" "draw_cell (cur_row b) (cur_col b) t = Some u" "idle u" "con_frame b u"
    "cur_row u = cur_row b" "cur_col u = cur_col b"
    "con_lines u = put_at r c (0x20, cell_fg b (cur_row b) (cur_col b)) (con_lines b)"
    using write_cell_ok [OF _ pos] unfolding r_def c_def by blast
  have "con_lines b = con_lines s" using same by (intro con_lines_cong) simp_all
  moreover have "cell_fg b (cur_row b) (cur_col b) = snd (con_lines s ! r ! c)"
    using con_lines_nth [OF lt] same by (simp add: r_def c_def)
  ultimately have "con_text u = (put_at r c (0x20, snd (con_lines s ! r ! c)) (con_lines s), r, c)"
    using u(7-9) by (simp add: con_text_def r_def c_def)
  moreover have "length (hd (con_lines s)) = unat (con_cols s)"
    using hd_con_lines [OF inv(6)] n by simp
  then have "term_backspace (con_text s) = (put_at r c (0x20, snd (con_lines s ! r ! c)) (con_lines s), r, c)"
    using rc by (auto simp: con_text_def split: if_splits)
  ultimately show ?thesis using u(1-6) con_frame_trans [OF fr u(6)] by simp
qed

lemma paint_in_cell:
  assumes geom: "con_geom s" and r: "r < con_rows s" and c: "c < con_cols s" and P: "shows_cells P s"
    and f: "paints f p" and sub: "\<And>x y. p x y \<noteq> None \<Longrightarrow> x - (con_x s + c * 8) < 8 \<and> y - (con_y s + r * 10) < 10"
  shows "con_frame s (f s)" "shows_cells (\<lambda>r' c'. P r' c' \<and> \<not> (r' = r \<and> c' = c)) (f s)"
proof -
  have ok: "fb_ok s" using geom by (simp add: con_geom_def)
  note mem = paintsD(1) [OF f, of s] and px = paintsD(2) [OF f ok]
  show "con_frame s (f s)"
    unfolding con_frame_def only_mem_con [OF mem]
  proof (intro conjI allI impI)
    fix x y assume out: "\<not> in_console s x y" and vis: "fb_visible x y s"
    have "p x y = None"
      using sub [of x y] out inside_cell(2) [OF geom r c, of "x - (con_x s + c * 8)" "y - (con_y s + r * 10)"]
      by (cases "p x y") auto
    then show "fb_getpixel x y (f s) = fb_getpixel x y s" using px [OF vis] by simp
  qed (use only_mem(1) [OF mem] in auto)
  show "shows_cells (\<lambda>r' c'. P r' c' \<and> \<not> (r' = r \<and> c' = c)) (f s)"
    unfolding shows_cells_def only_mem_con [OF mem]
  proof (intro allI impI)
    fix r' c' and dx dy :: u32
    assume cell: "P r' c' \<and> \<not> (r' = r \<and> c' = c)" "r' < con_rows s" "c' < con_cols s" "dx < 8" "dy < 10"
    let ?x = "con_x s + c' * 8 + dx" and ?y = "con_y s + r' * 10 + dy"
    have lt: "r' < 96" "c' < 160" "r < 96" "c < 160" using geom r c cell by (auto simp: con_geom_def)
    have "p ?x ?y = None" using sub [of ?x ?y] cell_unique [OF lt(1,2,3,4) cell(4,5)] cell(1) by blast
    then have "fb_getpixel ?x ?y (f s) = fb_getpixel ?x ?y s" using px [OF inside_cell(1) [OF geom cell(2-5)]] by simp
    also have "\<dots> = cell_pixel s r' c' dx dy" using P cell by (simp add: shows_cells_def)
    finally show "fb_getpixel ?x ?y (f s) = cell_pixel (f s) r' c' dx dy"
      using only_mem_con [OF mem] by (simp add: cell_pixel_def Let_def)
  qed
qed

lemma of_nat_less_word: "i < unat n \<Longrightarrow> of_nat i < n" for n :: "'a::len word"
  by (simp add: word_less_nat_alt unat_of_nat order.strict_trans1 [OF mod_less_eq_dividend])

lemma fbcon_clear_ok:
  assumes geom: "con_geom s"
  shows "\<exists>s'. fbcon_clear s = Some s' \<and> idle s' \<and> con_frame s s' \<and>
    con_text s' = (replicate (unat (con_rows s)) (replicate (unat (con_cols s)) (0x20, con_fg s)), 0, 0)"
proof -
  define a where "a = set_rows (con_rows s) (con_cols s) (\<lambda>_ _. 0x20) (\<lambda>_ _. con_fg s) s"
  define t where "t = a\<lparr>cur_col := 0, cur_row := 0, cursor_shown := False\<rparr>"
  have g: "0 < con_rows s" "con_rows s \<le> 96" "con_cols s \<le> 160" "con_ready s" using geom by (auto simp: con_geom_def)
  define f :: "'a fbcon_scheme \<Rightarrow> 'a fbcon_scheme"
    where "f = fb_draw_rect (con_x s) (con_y s) (con_cols s * 8) (con_rows s * 10) (con_bg s)"
  have f: "paints f (\<lambda>x y. if x - con_x s < con_cols s * 8 \<and> y - con_y s < con_rows s * 10 then Some (con_bg s) else None)"
    unfolding f_def by (rule paints_rect)
  have big: "unat (con_cols s * 8) = 8 * unat (con_cols s)" "unat (con_rows s * 10) = 10 * unat (con_rows s)"
    using g by (simp_all add: word_le_nat_alt unat_word_ariths)
  have lt: "r < 96" if "r < con_rows s" for r using that g(2) by simp
  have "foldM (\<lambda>r. foldM (\<lambda>c t. set_cell r c 0x20 (con_fg t) t) (upto (con_cols s))) (upto (con_rows s)) s = Some a"
    unfolding a_def by (rule rows_loop, rule row_loop, erule lt, rule g) (simp add: set_row_def set_rows_def)
  then have *: "fbcon_clear s = Some (f t)"
    using g(4) by (simp add: fbcon_clear_def Let_def t_def a_def set_rows_def f_def)
  have fr: "con_frame s t" by (rule con_frame_cong) (simp_all add: t_def a_def set_rows_def)
  have geom_t: "con_geom t" using geom con_frame_geom [OF fr] by simp
  note mem = paintsD(1) [OF f, of t]
  have px: "fb_getpixel x y (f t) = (if in_console s x y then con_bg s else fb_getpixel x y t)" if "fb_visible x y t" for x y
    using paintsD(2) [OF f _ that] geom_t big by (auto simp: con_geom_def in_console_def word_less_nat_alt)
  have fr_f: "con_frame t (f t)"
    using only_mem [OF mem] only_mem_con [OF mem] px by (auto simp: con_frame_def in_console_def t_def a_def set_rows_def)
  have fields: "con_rows t = con_rows s" "con_cols t = con_cols s" "con_x t = con_x s" "con_y t = con_y s" "con_bg t = con_bg s"
    "\<And>r c. r < con_rows s \<Longrightarrow> c < con_cols s \<Longrightarrow> cell_ch t r c = 0x20 \<and> cell_fg t r c = con_fg s"
    "cur_row t = 0" "cur_col t = 0" "\<not> cursor_shown t"
    by (simp_all add: t_def a_def set_rows_def)
  have "shows_cells (\<lambda>_ _. True) (f t)"
    unfolding shows_cells_def only_mem_con [OF mem]
  proof (intro allI impI)
    fix r c and dx dy :: u32
    assume cell: "r < con_rows t" "c < con_cols t" "dx < 8" "dy < 10"
    then show "fb_getpixel (con_x t + c * 8 + dx) (con_y t + r * 10 + dy) (f t) = cell_pixel (f t) r c dx dy"
      using px [OF inside_cell(1) [OF geom_t cell]] inside_cell(2) [OF geom_t cell] fields only_mem_con [OF mem]
      by (simp add: cell_pixel_def in_console_def)
  qed
  then have "idle (f t)"
    using con_frame_geom [OF fr_f] geom_t only_mem_con [OF mem] fields g(1) by (intro idleI) simp_all
  moreover have "con_lines (f t) = replicate (unat (con_rows s)) (replicate (unat (con_cols s)) (0x20, con_fg s))"
    using only_mem_con [OF mem] fields
    by (intro lines_eqI [where m = "unat (con_rows s)" and n = "unat (con_cols s)"]) (simp_all add: con_lines_nth of_nat_less_word)
  ultimately show ?thesis using * con_frame_trans [OF fr fr_f] only_mem_con [OF mem] fields by (auto simp: con_text_def)
qed

lemma fbcon_init_ok:
  assumes fb: "fb_ok s" and size: "8 \<le> w" "10 \<le> h"
    and on: "unat x + unat w \<le> unat (fb_width s)" "unat y + unat h \<le> unat (fb_height s)"
  shows "\<exists>s'. fbcon_init x y w h bg s = Some s' \<and> idle s' \<and>
    con_text s' = (replicate (min 96 (unat h div 10)) (replicate (min 160 (unat w div 8)) (0x20, con_fg s)), 0, 0) \<and>
    con_fg s' = con_fg s \<and> con_x s' = x \<and> con_y s' = y \<and> fb_height s' = fb_height s"
proof -
  define cols where "cols = (if w div 8 > 160 then 160 else w div 8)"
  define rows where "rows = (if h div 10 > 96 then 96 else h div 10)"
  define t where "t = s\<lparr>con_x := x, con_y := y, con_bg := bg, con_cols := cols, con_rows := rows, con_ready := True\<rparr>"
  have n: "unat cols = min 160 (unat w div 8)" "unat rows = min 96 (unat h div 10)"
    by (auto simp: cols_def rows_def word_less_nat_alt unat_div)
  have pos: "0 < unat w div 8" "0 < unat h div 10" using size by (simp_all add: word_le_nat_alt div_greater_zero_iff)
  have "8 * unat cols \<le> unat w" "10 * unat rows \<le> unat h"
    using n by (simp_all add: min_def less_eq_div_iff_mult_less_eq)
  then have geom: "con_geom t"
    using fb on pos n by (auto simp: con_geom_def t_def fb_ok_def word_less_nat_alt word_le_nat_alt)
  have *: "fbcon_init x y w h bg s = fbcon_clear t"
    by (simp add: fbcon_init_def t_def cols_def rows_def Let_def)
  obtain u where u: "fbcon_clear t = Some u" "idle u" "con_frame t u"
    "con_text u = (replicate (unat (con_rows t)) (replicate (unat (con_cols t)) (0x20, con_fg t)), 0, 0)"
    using fbcon_clear_ok [OF geom] by blast
  have "con_fg u = con_fg s" "con_x u = x" "con_y u = y" "fb_height u = fb_height s" using u(3) by (simp_all add: con_frame_def t_def)
  moreover have "con_rows t = rows" "con_cols t = cols" "con_fg t = con_fg s" by (simp_all add: t_def)
  ultimately show ?thesis using u * n by simp
qed

definition small_con :: fbcon where
  "small_con = \<lparr>fb_buffer = 0x1000, fb_width = 64, fb_height = 48, fb_pitch = 256, fb_bpp = 32, fb_mem = \<lambda>_. 0,
     con_x = 0, con_y = 0, con_cols = 0, con_rows = 0, con_bg = 0, con_fg = FBC_GREY, cur_col = 0, cur_row = 0,
     con_ready = False, cursor_shown = False, cursor_col = 0, cursor_row = 0, cell_ch = \<lambda>_ _. 0, cell_fg = \<lambda>_ _. 0\<rparr>"

lemma replicate_2: "replicate 2 z = [z, z]"
  by (simp add: numeral_2_eq_2)

lemma small_con_ready:
  "\<exists>s. fbcon_init 8 4 16 20 0 small_con = Some s \<and> idle s \<and> con_fg s = FBC_GREY \<and>
    con_text s = ([[(0x20, FBC_GREY), (0x20, FBC_GREY)], [(0x20, FBC_GREY), (0x20, FBC_GREY)]], 0, 0)"
proof -
  have "fb_ok small_con" by (simp add: fb_ok_def small_con_def)
  moreover have "min 96 (unat (20 :: u32) div 10) = 2" "min 160 (unat (16 :: u32) div 8) = 2" by simp_all
  moreover have "con_fg small_con = FBC_GREY" "fb_width small_con = 64" "fb_height small_con = 48"
    by (simp_all add: small_con_def)
  ultimately show ?thesis using fbcon_init_ok [of small_con 16 20 8 4 0] by (auto simp: replicate_2)
qed

section \<open>Properties\<close>

text \<open>
  On a framebuffer whose geometry is sound, \<open>fbcon_init\<close> of a rectangle on the screen of at least one
  cell yields a console in its invariant: blank lines, as many as fit and the tables have room for,
  the position in the first cell, and the pixels of the console the picture of its cells.
\<close>

theorem fbcon_init_correct:
  assumes "fb_ok s" "8 \<le> w" "10 \<le> h"
    and "unat x + unat w \<le> unat (fb_width s)" "unat y + unat h \<le> unat (fb_height s)"
  shows "\<exists>s'. fbcon_init x y w h bg s = Some s' \<and> con_inv s' \<and>
    con_text s' = (replicate (min 96 (unat h div 10)) (replicate (min 160 (unat w div 8)) (0x20, con_fg s)), 0, 0)"
  using fbcon_init_ok [OF assms] by (auto simp: idle_def)

theorem fbcon_init_correct_witness:
  "\<exists>s. fbcon_init 8 4 16 20 0 small_con = Some s \<and> con_inv s \<and> fst (snd (con_text s)) = 0"
proof -
  have "fb_ok small_con" by (simp add: fb_ok_def small_con_def)
  then show ?thesis
    using fbcon_init_correct [of small_con 16 20 8 4 0] by (auto simp: small_con_def)
qed

lemma fbcon_putchar_ok:
  assumes "con_inv s"
  shows "\<exists>s'. fbcon_putchar c s = Some s' \<and> con_inv s' \<and> con_frame s s' \<and>
    con_text s' = term_putchar c (con_fg s) (con_text s)"
proof -
  obtain h where h: "cursor_hide s = Some h" "idle h" "con_frame s h" "con_text h = con_text s"
    using cursor_hide_ok [OF assms] by blast
  have fg: "con_fg h = con_fg s" using h(3) by (simp add: con_frame_def)
  have "\<exists>s'. fbcon_putchar c s = Some s' \<and> idle s' \<and> con_frame h s' \<and> con_text s' = term_putchar c (con_fg h) (con_text h)"
  proof -
    consider "c = 0x0A" | "c = 0x0D" | "c = 0x08" | "c = 0x09"
      | "c < 32 \<or> c > 126" "c \<noteq> 0x0A" "c \<noteq> 0x0D" "c \<noteq> 0x08" "c \<noteq> 0x09" | "\<not> (c < 32 \<or> c > 126)" by blast
    then show ?thesis
    proof cases
      case 1
      then show ?thesis using newline_ok [OF h(2)] h(1) idle_ready [OF assms]
        by (subst fbcon_putchar.simps) (auto simp: term_putchar_def)
    next
      case 2
      let ?h = "h\<lparr>cur_col := 0\<rparr>"
      have fr: "con_frame h ?h" by (rule con_frame_cong) simp_all
      have "shows_cells (\<lambda>_ _. True) ?h"
        by (rule shows_cells_cong [where s = h and P = "\<lambda>_ _. True"]) (use idleD(5) [OF h(2)] in simp_all)
      then have "idle ?h" using idleD [OF h(2)] con_frame_geom [OF fr] by (intro idleI) simp_all
      moreover have "con_lines ?h = con_lines h" by (rule con_lines_cong) simp_all
      moreover have "fbcon_putchar c s = Some ?h" using 2 h(1) idle_ready [OF assms] by (subst fbcon_putchar.simps) simp
      ultimately show ?thesis using 2 fr by (intro exI [of _ ?h]) (simp add: term_putchar_def con_text_def)
    next
      case 3
      then show ?thesis using backspace_ok [OF h(2)] h(1) idle_ready [OF assms]
        by (subst fbcon_putchar.simps) (simp add: term_putchar_def Let_def)
    next
      case 4
      then show ?thesis using spaces_ok [OF h(2)] h(1) idle_ready [OF assms]
        by (subst fbcon_putchar.simps) (simp add: term_putchar_def)
    next
      case 5
      then show ?thesis using h idle_ready [OF assms]
        by (subst fbcon_putchar.simps) (simp add: term_putchar_def)
    next
      case 6
      then have "c \<noteq> 0x0A" "c \<noteq> 0x0D" "c \<noteq> 0x08" "c \<noteq> 0x09" by auto
      then show ?thesis using 6 print_char_ok [OF h(2)] putchar_printable [OF assms 6] h(1) by (simp add: term_putchar_def)
    qed
  qed
  then show ?thesis using h(3,4) fg con_frame_trans [OF h(3)] by (auto simp: idle_def)
qed

text \<open>
  C17. On a console in its invariant \<open>fbcon_putchar\<close> is defined for every character (it stays within the
  cell tables), does what the terminal does with it - line feed with scrolling, carriage return,
  backspace, tabulator, characters that are not printed, line wrap - leaves the pixels outside the
  console alone and keeps the invariant: the pixels are the picture of the cells.
\<close>

theorem fbcon_putchar_correct:
  assumes "con_inv s"
  shows "\<exists>s'. fbcon_putchar c s = Some s' \<and> con_inv s' \<and> con_frame s s' \<and>
    con_text s' = term_putchar c (con_fg s) (con_text s)"
  using assms by (rule fbcon_putchar_ok)

theorem fbcon_putchar_correct_witness:
  "\<exists>s s'. fbcon_init 8 4 16 20 0 small_con = Some s \<and> fbcon_putchar 0x41 s = Some s' \<and>
    con_text s' = ([[(0x41, FBC_GREY), (0x20, FBC_GREY)], [(0x20, FBC_GREY), (0x20, FBC_GREY)]], 0, 1)"
proof -
  obtain s where s: "fbcon_init 8 4 16 20 0 small_con = Some s" "idle s" "con_fg s = FBC_GREY"
    "con_text s = ([[(0x20, FBC_GREY), (0x20, FBC_GREY)], [(0x20, FBC_GREY), (0x20, FBC_GREY)]], 0, 0)"
    using small_con_ready by blast
  then have "con_inv s" by (simp add: idle_def)
  from fbcon_putchar_correct [OF this, of "0x41"] s show ?thesis
    by (auto simp: term_putchar_def put_at_def)
qed

text \<open>
  \<open>fbcon_cursor_blink\<close> shows the cursor block at the next position (none beyond the last column) or
  takes it away again with the cell under it restored; text, position and invariant stay.
\<close>

theorem fbcon_cursor_blink_correct:
  assumes "con_inv s"
  shows "\<exists>s'. fbcon_cursor_blink s = Some s' \<and> con_inv s' \<and> con_frame s s' \<and> con_text s' = con_text s \<and>
    (cursor_shown s' \<longleftrightarrow> \<not> cursor_shown s \<and> cur_col s < con_cols s)"
proof (cases "cursor_shown s")
  case True
  then have "fbcon_cursor_blink s = cursor_hide s" using idle_ready [OF assms] by (simp add: fbcon_cursor_blink_def)
  then show ?thesis using cursor_hide_ok [OF assms] True by (auto simp: idle_def)
next
  case False
  then have idle: "idle s" using assms by (simp add: idle_def)
  note inv = idleD [OF idle]
  let ?t = "s\<lparr>cursor_row := cur_row s, cursor_col := cur_col s\<rparr>"
  have fr: "con_frame s ?t" by (rule con_frame_cong) simp_all
  have P: "shows_cells (\<lambda>_ _. True) ?t"
    by (rule shows_cells_cong [where s = s and P = "\<lambda>_ _. True"]) (use inv(5) in simp_all)
  have txt_t: "con_text ?t = con_text s" using con_lines_cong [of ?t s] by (simp add: con_text_def)
  show ?thesis
  proof (cases "cur_col s < con_cols s")
    case False
    then have "con_cols s \<le> cur_col s" by simp
    then have "fbcon_cursor_blink s = Some ?t"
      using \<open>\<not> cursor_shown s\<close> idle_ready [OF assms] by (simp add: fbcon_cursor_blink_def Let_def)
    moreover have "idle ?t" using inv P con_frame_geom [OF fr] by (intro idleI) simp_all
    ultimately show ?thesis using fr txt_t False \<open>\<not> cursor_shown s\<close> by (intro exI [of _ ?t]) (simp add: idle_def)
  next
    case True
    define f :: "'a fbcon_scheme \<Rightarrow> 'a fbcon_scheme"
      where "f = fb_draw_rect (con_x s + cur_col s * 8) (con_y s + cur_row s * 10) 8 9 FBC_GREY"
    have f: "paints f (\<lambda>x y. if x - (con_x s + cur_col s * 8) < 8 \<and> y - (con_y s + cur_row s * 10) < 9 then Some FBC_GREY else None)"
      unfolding f_def by (rule paints_rect)
    have geom_t: "con_geom ?t" using inv(1) con_frame_geom [OF fr] by simp
    have sub: "x - (con_x ?t + cur_col s * 8) < 8 \<and> y - (con_y ?t + cur_row s * 10) < 10"
      if "(if x - (con_x s + cur_col s * 8) < 8 \<and> y - (con_y s + cur_row s * 10) < 9 then Some FBC_GREY else None) \<noteq> None" for x y
      using that by (auto simp: word_less_nat_alt split: if_splits)
    note cell = paint_in_cell [of ?t "cur_row s" "cur_col s", OF geom_t _ _ P f sub]
    have fr_f: "con_frame ?t (f ?t)" and P_f: "shows_cells (\<lambda>r c. \<not> (r = cur_row s \<and> c = cur_col s)) (f ?t)"
      using cell inv(2) True by simp_all
    let ?u = "(f ?t)\<lparr>cursor_shown := True\<rparr>"
    have fr_u: "con_frame (f ?t) ?u" by (rule con_frame_cong) simp_all
    note mem = paintsD(1) [OF f, of ?t]
    have "con_frame s ?u" by (rule con_frame_trans [OF con_frame_trans [OF fr fr_f] fr_u])
    moreover have "shows_cells (\<lambda>r c. \<not> (r = cur_row s \<and> c = cur_col s)) ?u"
      by (rule shows_cells_cong [where s = "f ?t" and P = "\<lambda>r c. \<not> (r = cur_row s \<and> c = cur_col s)"]) (use P_f in simp_all)
    then have "con_inv ?u"
      using inv(1-3) True con_frame_geom [OF \<open>con_frame s ?u\<close>] only_mem_con [OF mem] by (simp add: con_inv_def)
    moreover have "con_text ?u = con_text s"
      using con_lines_cong [of ?u s] only_mem_con [OF mem] by (simp add: con_text_def)
    moreover have "fbcon_cursor_blink s = Some ?u"
      using True inv(2) \<open>\<not> cursor_shown s\<close> idle_ready [OF assms]
      by (simp add: fbcon_cursor_blink_def Let_def f_def not_le [symmetric])
    ultimately show ?thesis using True \<open>\<not> cursor_shown s\<close> by (intro exI [of _ ?u]) simp
  qed
qed

theorem fbcon_cursor_blink_correct_witness:
  "\<exists>s s'. fbcon_init 8 4 16 20 0 small_con = Some s \<and> fbcon_cursor_blink s = Some s' \<and> con_text s' = con_text s"
proof -
  obtain s where s: "fbcon_init 8 4 16 20 0 small_con = Some s" "idle s" using small_con_ready by blast
  then have "con_inv s" by (simp add: idle_def)
  from fbcon_cursor_blink_correct [OF this] s(1) show ?thesis by blast
qed

end
