(* ===== verification/Interrupts.thy ===== *)
theory Interrupts
  imports Ports Process
begin

text \<open>
  The descriptor tables and the interrupt dispatch: \<^verbatim>\<open>cpu/gdt.c\<close>, \<^verbatim>\<open>cpu/idt.c\<close>, \<^verbatim>\<open>cpu/isr.c\<close> and the timer,
  \<^verbatim>\<open>drivers/timer.c\<close>. Addresses that the linker or the assembly stubs give are arguments. A handler
  works on the registers that the stub saved and on a pair of the kernel's state and the devices.
\<close>

section \<open>The global descriptor table\<close>

record gdt_entry =
  limit_low :: u16
  base_low :: u16
  base_mid :: u8
  access :: u8
  granularity :: u8
  base_high :: u8

definition zero_gdt_entry :: gdt_entry where
  "zero_gdt_entry = \<lparr>limit_low = 0, base_low = 0, base_mid = 0, access = 0, granularity = 0, base_high = 0\<rparr>"

record tss =
  tss_rsp0 :: u64
  tss_rsp1 :: u64
  tss_rsp2 :: u64
  tss_ist :: "u64 list"
  iomap_base :: u16

record gdt =
  gdt_table :: "gdt_entry list"
  gdtr_limit :: u16
  gdtr_base :: u64
  gdt_tss :: tss
  reg_cs_sel :: u16
  reg_data_sel :: u16
  task_register :: u16

abbreviation (input) GDT_KERNEL_CODE :: u16 where "GDT_KERNEL_CODE \<equiv> 0x08"
abbreviation (input) GDT_KERNEL_DATA :: u16 where "GDT_KERNEL_DATA \<equiv> 0x10"
abbreviation (input) GDT_TSS :: u16 where "GDT_TSS \<equiv> 0x28"
abbreviation (input) KERNEL_STACK_SIZE :: u64 where "KERNEL_STACK_SIZE \<equiv> 16384"

definition gdt_set_entry :: "nat \<Rightarrow> u8 \<Rightarrow> u8 \<Rightarrow> gdt_entry list \<Rightarrow> gdt_entry list" where
  "gdt_set_entry idx acc gran t =
     t[idx := (t ! idx)\<lparr>limit_low := 0xFFFF, base_low := 0, base_mid := 0, access := acc, granularity := gran, base_high := 0\<rparr>]"

definition tss_set_rsp0 :: "u64 \<Rightarrow> 'a gdt_scheme \<Rightarrow> 'a gdt_scheme" where
  "tss_set_rsp0 rsp0 s = s\<lparr>gdt_tss := (gdt_tss s)\<lparr>tss_rsp0 := rsp0\<rparr>\<rparr>"

definition tss_get_rsp0 :: "'a gdt_scheme \<Rightarrow> u64" where
  "tss_get_rsp0 s = tss_rsp0 (gdt_tss s)"

text \<open>
  The 16 bytes of the TSS descriptor lie over two table slots: its fields up to \<open>base_high\<close> are the
  first slot's, the 32 bits of \<open>base_upper\<close> are the second slot's limit and low base.
\<close>

definition set_tss_desc :: "u64 \<Rightarrow> gdt_entry list \<Rightarrow> gdt_entry list" where
  "set_tss_desc tss_base t =
     t[5 := \<lparr>limit_low = 104 - 1, base_low = ucast (tss_base AND 0xFFFF), base_mid = ucast (drop_bit 16 tss_base AND 0xFF),
             access = 0x89, granularity = 0, base_high = ucast (drop_bit 24 tss_base AND 0xFF)\<rparr>,
       6 := (let base_upper = (ucast (drop_bit 32 tss_base) :: u32) in
             \<lparr>limit_low = ucast base_upper, base_low = ucast (drop_bit 16 base_upper),
              base_mid = 0, access = 0, granularity = 0, base_high = 0\<rparr>)]"

definition gdt_init :: "u64 \<Rightarrow> u64 \<Rightarrow> u64 \<Rightarrow> 'a gdt_scheme \<Rightarrow> 'a gdt_scheme" where
  "gdt_init kernel_stack tss_addr gdt_addr s =
     (let t = replicate 7 zero_gdt_entry;
          t = gdt_set_entry 1 0x9A 0xA0 t;
          t = gdt_set_entry 2 0x92 0xC0 t;
          t = gdt_set_entry 3 0xF2 0xC0 t;
          t = gdt_set_entry 4 0xFA 0xA0 t;
          tss = \<lparr>tss_rsp0 = kernel_stack + KERNEL_STACK_SIZE, tss_rsp1 = 0, tss_rsp2 = 0, tss_ist = replicate 7 0, iomap_base = 104\<rparr>
      in s\<lparr>gdt_tss := tss, gdt_table := set_tss_desc tss_addr t, gdtr_limit := 7 * 8 - 1, gdtr_base := gdt_addr,
           reg_cs_sel := GDT_KERNEL_CODE, reg_data_sel := GDT_KERNEL_DATA, task_register := GDT_TSS\<rparr>)"

section \<open>The interrupt descriptor table\<close>

record idt_entry =
  offset_low :: u16
  selector :: u16
  ist :: u8
  type_attr :: u8
  offset_mid :: u16
  offset_high :: u32
  idt_reserved :: u32

definition zero_idt_entry :: idt_entry where
  "zero_idt_entry = \<lparr>offset_low = 0, selector = 0, ist = 0, type_attr = 0, offset_mid = 0, offset_high = 0, idt_reserved = 0\<rparr>"

abbreviation (input) IDT_GATE_INTERRUPT :: u8 where "IDT_GATE_INTERRUPT \<equiv> 0x8E"

type_synonym idt = "u8 \<Rightarrow> idt_entry"

definition idt_set_gate :: "u8 \<Rightarrow> u64 \<Rightarrow> u16 \<Rightarrow> u8 \<Rightarrow> idt \<Rightarrow> idt" where
  "idt_set_gate num handler sel flags t =
     t(num := (t num)\<lparr>offset_low := ucast (handler AND 0xFFFF), offset_mid := ucast (drop_bit 16 handler AND 0xFFFF),
                      offset_high := ucast (drop_bit 32 handler AND 0xFFFFFFFF), selector := sel,
                      ist := 0, type_attr := flags, idt_reserved := 0\<rparr>)"

abbreviation (input) PIC1_CMD :: u16 where "PIC1_CMD \<equiv> 0x20"
abbreviation (input) PIC1_DATA :: u16 where "PIC1_DATA \<equiv> 0x21"
abbreviation (input) PIC2_CMD :: u16 where "PIC2_CMD \<equiv> 0xA0"
abbreviation (input) PIC2_DATA :: u16 where "PIC2_DATA \<equiv> 0xA1"

definition pic_remap :: "'d io \<Rightarrow> 'd \<Rightarrow> 'd" where
  "pic_remap io d =
     (let d = fold (\<lambda>(port, x) d. io_wait io (outb io port x d))
                [(PIC1_CMD, 0x11), (PIC2_CMD, 0x11), (PIC1_DATA, 0x20), (PIC2_DATA, 0x28),
                 (PIC1_DATA, 0x04), (PIC2_DATA, 0x02), (PIC1_DATA, 0x01), (PIC2_DATA, 0x01)] d
      in outb io PIC2_DATA 0xFF (outb io PIC1_DATA 0xFF d))"

text \<open>
  The stubs \<open>isr0\<close> to \<open>isr31\<close> and \<open>irq0\<close> to \<open>irq15\<close> are assembly code: \<open>stub n\<close> is the address of the one for
  vector \<open>n\<close>.
\<close>

definition idt_init :: "'d io \<Rightarrow> (nat \<Rightarrow> u64) \<Rightarrow> 'd \<Rightarrow> idt \<times> 'd" where
  "idt_init io stub d =
     (fold (\<lambda>n. idt_set_gate (of_nat n) (stub n) GDT_KERNEL_CODE IDT_GATE_INTERRUPT) [0..<48] (\<lambda>_. zero_idt_entry),
      pic_remap io d)"

definition isr_init :: "'d io \<Rightarrow> (nat \<Rightarrow> u64) \<Rightarrow> 'd \<Rightarrow> idt \<times> 'd" where
  "isr_init io stub d = idt_init io stub d"

section \<open>Interrupt requests\<close>

type_synonym ('s, 'd) handler = "cpu_state \<Rightarrow> 's \<times> 'd \<Rightarrow> cpu_state \<times> 's \<times> 'd"
type_synonym ('s, 'd) irq_table = "('s, 'd) handler option list"

definition pic_send_eoi :: "'d io \<Rightarrow> u8 \<Rightarrow> 'd \<Rightarrow> 'd" where
  "pic_send_eoi io irq d =
     (let d = (if irq \<ge> 8 then outb io PIC2_CMD 0x20 d else d) in outb io PIC1_CMD 0x20 d)"

definition irq_install_handler ::
  "'d io \<Rightarrow> int \<Rightarrow> ('s, 'd) handler \<Rightarrow> ('s, 'd) irq_table \<times> 'd \<Rightarrow> ('s, 'd) irq_table \<times> 'd" where
  "irq_install_handler io irq h td =
     (let (t, d) = td in
      if irq < 0 \<or> irq > 15 then (t, d) else
      let t = t[nat irq := Some h];
          (port, irq, d) =
            (if irq < 8 then (PIC1_DATA, irq, d)
             else let (x, d) = inb io PIC1_DATA d
                  in (PIC2_DATA, irq - 8, outb io PIC1_DATA (x AND NOT (push_bit 2 1)) d));
          (x, d) = inb io port d
      in (t, outb io port (x AND NOT (push_bit (nat irq) 1)) d))"

definition irq_uninstall_handler :: "int \<Rightarrow> ('s, 'd) irq_table \<Rightarrow> ('s, 'd) irq_table" where
  "irq_uninstall_handler irq t = (if irq < 0 \<or> irq > 15 then t else t[nat irq := None])"

definition irq_handler :: "'d io \<Rightarrow> ('s, 'd) irq_table \<Rightarrow> ('s, 'd) handler" where
  "irq_handler io t regs sd =
     (let irq_num = reg_int_no regs - 32;
          (regs, s, d) = (case if irq_num < 16 then t ! unat irq_num else None of
                            Some h \<Rightarrow> h regs sd | None \<Rightarrow> (regs, sd))
      in (regs, s, pic_send_eoi io (ucast irq_num) d))"

section \<open>The timer\<close>

record timer = procs +
  timer_ticks :: u64
  timer_frequency :: u32

abbreviation (input) PIT_CHANNEL0 :: u16 where "PIT_CHANNEL0 \<equiv> 0x40"
abbreviation (input) PIT_CMD :: u16 where "PIT_CMD \<equiv> 0x43"
abbreviation (input) PIT_BASE_FREQ :: u32 where "PIT_BASE_FREQ \<equiv> 1193182"

definition timer_irq_handler :: "('a timer_scheme, 'd) handler" where
  "timer_irq_handler regs sd =
     (let (s, d) = sd; (regs, s) = process_schedule regs (s\<lparr>timer_ticks := timer_ticks s + 1\<rparr>) in (regs, s, d))"

text \<open>A frequency of 0 divides by zero.\<close>

definition timer_init ::
  "'d io \<Rightarrow> u32 \<Rightarrow> ('a timer_scheme, 'd) irq_table \<times> 'a timer_scheme \<times> 'd \<Rightarrow>
   (('a timer_scheme, 'd) irq_table \<times> 'a timer_scheme \<times> 'd) option" where
  "timer_init io frequency w =
     (let (t, s, d) = w; s = s\<lparr>timer_frequency := frequency\<rparr> in
      if frequency = 0 then None else
      let divisor = (ucast (PIT_BASE_FREQ div frequency) :: u16);
          d = outb io PIT_CMD 0x36 d;
          d = outb io PIT_CHANNEL0 (ucast (divisor AND 0xFF)) d;
          d = outb io PIT_CHANNEL0 (ucast (drop_bit 8 divisor AND 0xFF)) d;
          (t, d) = irq_install_handler io 0 timer_irq_handler (t, d)
      in Some (t, s, d))"

definition timer_get_ticks :: "'a timer_scheme \<Rightarrow> u64" where
  "timer_get_ticks s = timer_ticks s"

text \<open>
  The wait of \<open>sleep_ms\<close>: \<open>hlt\<close> returns after an interrupt, whose effect on the state is the argument
  \<open>wait\<close>. \<open>None\<close> means that the target is never reached.
\<close>

partial_function (option) sleep_until :: "('s \<Rightarrow> 's) \<Rightarrow> ('s \<Rightarrow> u64) \<Rightarrow> u64 \<Rightarrow> 's \<Rightarrow> 's option" where
  "sleep_until wait now target s = (if now s < target then sleep_until wait now target (wait s) else Some s)"

definition sleep_ms :: "('a timer_scheme \<Rightarrow> 'a timer_scheme) \<Rightarrow> u32 \<Rightarrow> 'a timer_scheme \<Rightarrow> 'a timer_scheme option" where
  "sleep_ms wait ms s =
     (let target = timer_ticks s + ucast (ms * timer_frequency s div 1000)
      in sleep_until wait timer_ticks target s)"

section \<open>What the processor reads from the tables\<close>

definition gate_offset :: "idt_entry \<Rightarrow> u64" where
  "gate_offset e = ucast (offset_low e) OR push_bit 16 (ucast (offset_mid e)) OR push_bit 32 (ucast (offset_high e))"

definition desc_base :: "gdt_entry \<Rightarrow> u64" where
  "desc_base e = ucast (base_low e) OR push_bit 16 (ucast (base_mid e)) OR push_bit 24 (ucast (base_high e))"

definition sys_base :: "gdt_entry \<Rightarrow> gdt_entry \<Rightarrow> u64" where
  "sys_base lo hi = desc_base lo OR push_bit 32 (ucast (limit_low hi)) OR push_bit 48 (ucast (base_low hi))"

definition desc_of :: "u16 \<Rightarrow> 'a gdt_scheme \<Rightarrow> gdt_entry" where
  "desc_of sel s = gdt_table s ! (unat sel div 8)"

definition dpl :: "gdt_entry \<Rightarrow> u8" where
  "dpl e = drop_bit 5 (access e) AND 3"

definition long_code :: "gdt_entry \<Rightarrow> bool" where
  "long_code e \<longleftrightarrow> access e AND 0x98 = 0x98 \<and> bit (granularity e) 5"

lemma field_bit:
  "bit (push_bit k (ucast (ucast (drop_bit k x) :: 'b::len word)) :: u64) n \<longleftrightarrow> k \<le> n \<and> n < k + LENGTH('b) \<and> bit x n"
  for x :: u64
  using bit_imp_le_length [of x n] by (auto simp: bit_simps)

lemma ucast_mask_fields:
  "ucast (x AND 0xFFFF) = (ucast x :: u16)" "ucast (x AND 0xFF) = (ucast x :: u8)" "ucast (x AND 0xFFFFFFFF) = (ucast x :: u32)"
  for x :: u64
proof -
  have m: "(0xFFFF :: u64) = mask 16" "(0xFF :: u64) = mask 8" "(0xFFFFFFFF :: u64) = mask 32"
    by (simp_all add: mask_eq_exp_minus_1)
  show "ucast (x AND 0xFFFF) = (ucast x :: u16)" "ucast (x AND 0xFF) = (ucast x :: u8)" "ucast (x AND 0xFFFFFFFF) = (ucast x :: u32)"
    unfolding m by (rule bit_eqI; auto simp: bit_simps)+
qed

lemma split_64: "ucast (ucast x :: u16) OR push_bit 16 (ucast (ucast (drop_bit 16 x) :: u16)) OR
    push_bit 32 (ucast (ucast (drop_bit 32 x) :: u32)) = x" (is "?l = x") for x :: u64
proof (rule bit_eqI)
  fix n assume "possible_bit TYPE(u64) n"
  then show "bit ?l n = bit x n"
    unfolding bit_or_iff field_bit field_bit [where k = 0, simplified] by (auto simp: possible_bit_word)
qed

lemma gate_offset_set: "gate_offset (idt_set_gate n h sel fl t n) = h"
  by (simp add: gate_offset_def idt_set_gate_def ucast_mask_fields split_64)

lemma sys_base_set:
  assumes "length t = 7"
  shows "sys_base (set_tss_desc b t ! 5) (set_tss_desc b t ! 6) = b"
proof -
  have hi: "ucast (ucast (drop_bit 32 b) :: u32) = (ucast (drop_bit 32 b) :: u16)"
    "ucast (drop_bit 16 (ucast (drop_bit 32 b) :: u32)) = (ucast (drop_bit 48 b) :: u16)"
    by (rule bit_eqI; auto simp: bit_simps)+
  have "ucast (ucast b :: u16) OR push_bit 16 (ucast (ucast (drop_bit 16 b) :: u8)) OR
    push_bit 24 (ucast (ucast (drop_bit 24 b) :: u8)) OR push_bit 32 (ucast (ucast (drop_bit 32 b) :: u16)) OR
    push_bit 48 (ucast (ucast (drop_bit 48 b) :: u16)) = b" (is "?l = b")
  proof (rule bit_eqI)
    fix n assume "possible_bit TYPE(u64) n"
    then show "bit ?l n = bit b n" unfolding bit_or_iff field_bit field_bit [where k = 0, simplified] by (auto simp: possible_bit_word)
  qed
  then show ?thesis using assms by (simp add: sys_base_def desc_base_def set_tss_desc_def Let_def or.assoc ucast_mask_fields hi)
qed

text \<open>
  After \<open>gdt_init\<close> the loaded table has seven slots within the loaded limit; the code and data selectors
  the processor runs with are ring 0 and 64-bit, the ones kept for user mode ring 3; and the
  descriptor the task register names is an available 64-bit TSS whose base, spread over five fields
  of two slots, is the address of the TSS, whose ring 0 stack is the top of the kernel stack.
\<close>

theorem gdt_init_correct:
  "let s' = gdt_init kernel_stack tss_addr gdt_addr s in
   length (gdt_table s') * 8 = unat (gdtr_limit s') + 1 \<and> gdtr_base s' = gdt_addr \<and>
   long_code (desc_of (reg_cs_sel s') s') \<and> dpl (desc_of (reg_cs_sel s') s') = 0 \<and>
   dpl (desc_of (reg_data_sel s') s') = 0 \<and>
   dpl (desc_of 0x18 s') = 3 \<and> long_code (desc_of 0x20 s') \<and> dpl (desc_of 0x20 s') = 3 \<and>
   access (desc_of (task_register s') s') = 0x89 \<and> limit_low (desc_of (task_register s') s') = 103 \<and>
   sys_base (desc_of (task_register s') s') (desc_of (task_register s' + 8) s') = tss_addr \<and>
   tss_get_rsp0 s' = kernel_stack + 16384"
proof -
  define t where "t = gdt_set_entry 4 0xFA 0xA0 (gdt_set_entry 3 0xF2 0xC0 (gdt_set_entry 2 0x92 0xC0
    (gdt_set_entry 1 0x9A 0xA0 (replicate 7 zero_gdt_entry))))"
  have t: "length t = 7" by (simp add: t_def gdt_set_entry_def)
  have "sys_base (set_tss_desc tss_addr t ! 5) (set_tss_desc tss_addr t ! 6) = tss_addr" by (rule sys_base_set [OF t])
  moreover have "access (t ! 1) = 0x9A" "granularity (t ! 1) = 0xA0" "access (t ! 2) = 0x92" "access (t ! 3) = 0xF2"
    "access (t ! 4) = 0xFA" "granularity (t ! 4) = 0xA0"
    by (simp_all add: t_def gdt_set_entry_def nth_list_update)
  moreover have "gdt_init kernel_stack tss_addr gdt_addr s = s\<lparr>gdt_tss := \<lparr>tss_rsp0 = kernel_stack + 16384, tss_rsp1 = 0,
      tss_rsp2 = 0, tss_ist = replicate 7 0, iomap_base = 104\<rparr>, gdt_table := set_tss_desc tss_addr t, gdtr_limit := 7 * 8 - 1,
      gdtr_base := gdt_addr, reg_cs_sel := 8, reg_data_sel := 16, task_register := 40\<rparr>"
    unfolding gdt_init_def Let_def t_def ..
  ultimately show ?thesis using t
    by (simp add: Let_def desc_of_def dpl_def long_code_def tss_get_rsp0_def set_tss_desc_def nth_list_update bit_numeral_rec)
qed

lemma fold_gates:
  assumes "k \<le> 256"
  shows "fold (\<lambda>n. idt_set_gate (of_nat n) (stub n) sel fl) [0..<k] (\<lambda>_. zero_idt_entry) v =
    (if unat v < k then idt_set_gate v (stub (unat v)) sel fl (\<lambda>_. zero_idt_entry) v else zero_idt_entry)"
  using assms
proof (induction k)
  case (Suc k)
  have "v = of_nat k \<longleftrightarrow> unat v = k" using Suc.prems by (auto simp: unat_of_nat)
  then show ?case using Suc by (auto simp: idt_set_gate_def less_Suc_eq)
qed simp

text \<open>
  After \<open>idt_init\<close> the vectors 0 to 47 are present interrupt gates of ring 0 into the kernel's code
  segment, each with the full 64-bit address of its own stub; every other vector is absent.
\<close>

theorem idt_init_correct:
  "let t = fst (idt_init io stub d) in
   (\<forall>v. unat v < 48 \<longrightarrow> gate_offset (t v) = stub (unat v) \<and> selector (t v) = 8 \<and> type_attr (t v) = 0x8E \<and> ist (t v) = 0) \<and>
   (\<forall>v. \<not> unat v < 48 \<longrightarrow> \<not> bit (type_attr (t v)) 7)"
  by (simp add: idt_init_def fold_gates gate_offset_set Let_def) (simp add: idt_set_gate_def zero_idt_entry_def)

theorem idt_init_correct_witness:
  "gate_offset (fst (idt_init log_io (\<lambda>n. 0xFFFFFFFF80001000 + 16 * of_nat n) []) 33) = 0xFFFFFFFF80001210"
  using idt_init_correct [of log_io "\<lambda>n. 0xFFFFFFFF80001000 + 16 * of_nat n" "[]"] by (simp add: Let_def)

section \<open>Dispatch\<close>

text \<open>The mask registers of the two interrupt controllers behind their data ports.\<close>

definition pic_regs :: "'d io \<Rightarrow> ('d \<Rightarrow> u8) \<Rightarrow> ('d \<Rightarrow> u8) \<Rightarrow> bool" where
  "pic_regs io m1 m2 \<longleftrightarrow>
     (\<forall>d. io_in8 io 0x21 d = (m1 d, d)) \<and> (\<forall>d. io_in8 io 0xA1 d = (m2 d, d)) \<and>
     (\<forall>x d. m1 (io_out8 io 0x21 x d) = x \<and> m2 (io_out8 io 0x21 x d) = m2 d) \<and>
     (\<forall>x d. m2 (io_out8 io 0xA1 x d) = x \<and> m1 (io_out8 io 0xA1 x d) = m1 d)"

lemma bit_clear: "n < 8 \<Longrightarrow> bit (x AND NOT (push_bit k 1)) n \<longleftrightarrow> bit x n \<and> n \<noteq> k" for x :: u8
  by (auto simp: bit_simps)

text \<open>
  \<open>irq_install_handler\<close> of a valid line enters the handler in its slot, leaves the other handlers, and
  unmasks exactly that line, and for a line of the second controller the cascade line of the first.
\<close>

theorem irq_install_handler_correct:
  assumes "pic_regs io m1 m2" "0 \<le> irq" "irq \<le> 15" "irq_install_handler io irq h (t, d) = (t', d')"
  shows "t' = t[nat irq := Some h] \<and>
    (\<forall>n<8. bit (m1 d') n \<longleftrightarrow> bit (m1 d) n \<and> \<not> (int n = irq \<or> irq \<ge> 8 \<and> n = 2)) \<and>
    (\<forall>n<8. bit (m2 d') n \<longleftrightarrow> bit (m2 d) n \<and> int n + 8 \<noteq> irq)"
proof -
  have r: "\<And>d. io_in8 io 0x21 d = (m1 d, d)" "\<And>d. io_in8 io 0xA1 d = (m2 d, d)"
    "\<And>x d. m1 (io_out8 io 0x21 x d) = x" "\<And>x d. m2 (io_out8 io 0x21 x d) = m2 d"
    "\<And>x d. m2 (io_out8 io 0xA1 x d) = x" "\<And>x d. m1 (io_out8 io 0xA1 x d) = m1 d"
    using assms(1) by (auto simp: pic_regs_def)
  show ?thesis
  proof (cases "irq < 8")
    case True
    then have t': "t' = t[nat irq := Some h]" and d': "d' = io_out8 io 0x21 (m1 d AND NOT (push_bit (nat irq) 1)) d"
      using assms(2-4) by (auto simp: irq_install_handler_def inb_def outb_def r)
    show ?thesis unfolding d' r using t' True assms(2) by (auto simp: bit_clear simp del: push_bit_of_1)
  next
    case False
    then have t': "t' = t[nat irq := Some h]" and d': "d' = io_out8 io 0xA1 (m2 d AND NOT (push_bit (nat (irq - 8)) 1))
        (io_out8 io 0x21 (m1 d AND NOT (push_bit 2 1)) d)"
      using assms(2-4) by (auto simp: irq_install_handler_def inb_def outb_def r)
    show ?thesis unfolding d' r using t' False assms(2,3) by (auto simp: bit_clear simp del: push_bit_of_1)
  qed
qed

definition mask_io :: "(u8 \<times> u8) io" where
  "mask_io = \<lparr>io_in8 = (\<lambda>p d. (if p = 0x21 then fst d else snd d, d)),
     io_out8 = (\<lambda>p x d. if p = 0x21 then (x, snd d) else if p = 0xA1 then (fst d, x) else d),
     io_in16 = (\<lambda>p d. (0, d)), io_out16 = (\<lambda>p x d. d), io_in32 = (\<lambda>p d. (0, d)), io_out32 = (\<lambda>p x d. d)\<rparr>"

theorem irq_install_handler_correct_witness:
  "case irq_install_handler mask_io 12 (\<lambda>r sd. (r, sd)) (replicate 16 None, 0xFF, 0xFF) of (t, m1, m2) \<Rightarrow>
     \<not> bit m2 4 \<and> \<not> bit m1 2 \<and> bit m1 0"
proof (split prod.split, intro allI impI, split prod.split, intro allI impI)
  fix t d' m1 m2
  assume "irq_install_handler mask_io 12 (\<lambda>r sd. (r, sd)) (replicate 16 None, 0xFF, 0xFF) = (t, d')" "d' = (m1, m2)"
  then have r: "irq_install_handler mask_io 12 (\<lambda>r sd. (r, sd)) (replicate 16 None, 0xFF, 0xFF) = (t, m1, m2)" by simp
  have io: "pic_regs mask_io fst snd" by (simp add: pic_regs_def mask_io_def)
  have "\<forall>n<8. bit m1 n \<longleftrightarrow> bit (0xFF :: u8) n \<and> \<not> (int n = 12 \<or> (12 :: int) \<ge> 8 \<and> n = 2)"
    "\<forall>n<8. bit m2 n \<longleftrightarrow> bit (0xFF :: u8) n \<and> int n + 8 \<noteq> 12"
    using irq_install_handler_correct [OF io _ _ r] by auto
  then show "\<not> bit m2 4 \<and> \<not> bit m1 2 \<and> bit m1 0" by simp
qed

section \<open>Time\<close>

lemma kfree_ticks [simp]: "timer_ticks (kfree p s) = timer_ticks s"
  by (simp add: kfree_def kfree_merge_next_def kfree_merge_prev_def upd_block_def Let_def)

lemma reap_ticks [simp]: "timer_ticks (reap_from i s) = timer_ticks s"
proof (induction i s rule: reap_from.induct)
  case (1 i s)
  then show ?case by (subst reap_from.simps) (simp add: upd_proc_def)
qed

lemma process_schedule_ticks: "process_schedule ctx s = (ctx', s') \<Longrightarrow> timer_ticks s' = timer_ticks s"
  by (auto simp: process_schedule_def Let_def process_switch_def process_set_state_def upd_proc_def process_save_def split: if_splits)

lemma timer_init_Some:
  assumes "f \<noteq> 0"
  shows "\<exists>d'. timer_init io f (t, s, d) = Some (t[0 := Some timer_irq_handler], s\<lparr>timer_frequency := f\<rparr>, d')"
  using assms by (auto simp: timer_init_def irq_install_handler_def Let_def split: prod.split)

text \<open>
  C18. The timer interrupt: with the handler table as \<open>timer_init\<close> left it, \<open>irq_handler\<close> on vector 32 counts the
  tick, gives the processor to the next ready process in round-robin order, whose registers are the
  ones the stub restores, keeps the process table in order, and acknowledges the interrupt at the
  first controller.
\<close>

theorem timer_interrupt_correct:
  assumes "timer_init io f (t, s0, d0) = Some (t', s1, d1)" "length t = 16" "proc_ok s" "reg_int_no regs = 32"
    and "irq_handler io t' regs (s, d) = (regs', s', d')"
  shows "timer_ticks s' = timer_ticks s + 1 \<and> proc_ok s' \<and> round_robin s (cur s') \<and>
    regs' = p_context (processes s' ! cur s') \<and> d' = io_out8 io 0x20 0x20 d"
proof -
  have t': "t' ! 0 = Some timer_irq_handler"
    using assms(1,2) by (auto simp: timer_init_def irq_install_handler_def Let_def split: if_splits prod.splits)
  let ?s = "s\<lparr>timer_ticks := timer_ticks s + 1\<rparr>"
  have run: "process_schedule regs ?s = (regs', s')" "d' = io_out8 io 0x20 0x20 d"
    using assms(4,5) t' by (auto simp: irq_handler_def timer_irq_handler_def pic_send_eoi_def outb_def Let_def split: prod.splits)
  have "proc_ok ?s" using assms(3) by (simp add: proc_ok_def)
  from process_schedule_spec [OF this run(1)] have "proc_ok s'" "round_robin ?s (cur s')" "regs' = p_context (processes s' ! cur s')"
    by auto
  moreover have "round_robin ?s = round_robin s" by (simp add: round_robin_def saved_state_def fun_eq_iff)
  ultimately show ?thesis using process_schedule_ticks [OF run(1)] run(2) by simp
qed

definition small_timer :: timer where
  "small_timer = procs.extend small_procs (timer.fields 7 100)"

lemma small_timer_fields [simp]: "timer_ticks small_timer = 7" "timer_frequency small_timer = 100"
  "processes small_timer = processes small_procs" "current_process_index small_timer = current_process_index small_procs"
  by (simp_all add: small_timer_def timer.defs procs.defs)

theorem timer_interrupt_correct_witness:
  "\<exists>t s d regs s' d'. timer_init mask_io 100 (replicate 16 None, small_timer, 0xFF, 0xFF) = Some (t, s, d) \<and>
    irq_handler mask_io t (zero_cpu_state\<lparr>reg_int_no := 32\<rparr>) (s, d) = (regs, s', d') \<and> timer_ticks s' = 8"
proof -
  let ?s = "small_timer" and ?r = "zero_cpu_state\<lparr>reg_int_no := 32\<rparr>"
  obtain t s d where i: "timer_init mask_io 100 (replicate 16 None, ?s, 0xFF, 0xFF) = Some (t, s, d)" "s = ?s\<lparr>timer_frequency := 100\<rparr>"
    using timer_init_Some [of 100 mask_io "replicate 16 None" small_timer "(0xFF, 0xFF)"] by auto
  obtain regs s' d' where h: "irq_handler mask_io t ?r (s, d) = (regs, s', d')" by (cases "irq_handler mask_io t ?r (s, d)") auto
  have "proc_ok small_procs" using small_procs_inv by (simp add: proc_inv_def)
  then have "proc_ok s" unfolding i(2) by (simp add: proc_ok_def)
  from timer_interrupt_correct [OF i(1) _ this _ h] have "timer_ticks s' = timer_ticks s + 1" by simp
  then have "timer_ticks s' = 8" unfolding i(2) by simp
  then show ?thesis using i(1) h by blast
qed

lemma sleep_until_reaches:
  assumes step: "\<And>s. now (wait s) = now s \<or> now (wait s) = now s + 1"
    and live: "\<And>s. \<exists>n. now ((wait ^^ n) s) \<noteq> now s"
    and "now s \<le> target"
  shows "\<exists>s'. sleep_until wait now target s = Some s' \<and> now s' = target"
  using assms(3)
proof (induction "unat target - unat (now s)" arbitrary: s rule: less_induct)
  case less
  show ?case
  proof (cases "now s < target")
    case False
    then show ?thesis using less.prems by (subst sleep_until.simps) auto
  next
    case True
    obtain n where "now ((wait ^^ n) s) \<noteq> now s" using live by blast
    then show ?thesis using True less
    proof (induction n arbitrary: s)
      case 0
      then show ?case by simp
    next
      case (Suc n)
      note lt = \<open>now s < target\<close>
      show ?case
      proof (cases "now (wait s) = now s")
        case True
        have "\<exists>s'. sleep_until wait now target (wait s) = Some s' \<and> now s' = target"
          by (rule Suc.IH) (use Suc.prems True in \<open>simp_all add: funpow_swap1\<close>)
        then show ?thesis using lt by (subst sleep_until.simps) simp
      next
        case False
        then have w: "now (wait s) = now s + 1" using step by blast
        then have "now (wait s) \<le> target" "unat target - unat (now (wait s)) < unat target - unat (now s)"
          using lt unat_inc [OF lt] by (auto simp: word_le_nat_alt word_less_nat_alt)
        from Suc.prems(3) [OF this(2,1)] show ?thesis using lt by (subst sleep_until.simps) simp
      qed
    qed
  qed
qed

text \<open>
  \<open>sleep_ms\<close> returns, and it returns at the tick the requested time asks for: provided the interrupts that
  wake the processor advance the tick counter one at a time and the counter never stops for good,
  and provided the product of time and frequency fits 32 bits.
\<close>

theorem sleep_ms_correct:
  assumes "\<And>s. timer_ticks (wait s) = timer_ticks s \<or> timer_ticks (wait s) = timer_ticks s + 1"
    and "\<And>s. \<exists>n. timer_ticks ((wait ^^ n) s) \<noteq> timer_ticks s"
    and "unat ms * unat (timer_frequency s) < 2 ^ 32" "unat (timer_ticks s) + unat ms * unat (timer_frequency s) div 1000 < 2 ^ 64"
  shows "\<exists>s'. sleep_ms wait ms s = Some s' \<and>
    unat (timer_ticks s') = unat (timer_ticks s) + unat ms * unat (timer_frequency s) div 1000"
proof -
  define target where "target = timer_ticks s + ucast (ms * timer_frequency s div 1000)"
  have "unat (ucast (ms * timer_frequency s div 1000) :: u64) = unat ms * unat (timer_frequency s) div 1000"
    using assms(3) by (simp add: unsigned_ucast_eq unat_div unat_word_ariths take_bit_nat_eq_self_iff) 
  then have t: "unat target = unat (timer_ticks s) + unat ms * unat (timer_frequency s) div 1000"
    unfolding target_def using assms(4) by (subst unat_add_no_wrap) simp_all
  then have "timer_ticks s \<le> target" by (simp add: word_le_nat_alt)
  from sleep_until_reaches [of timer_ticks wait, OF assms(1,2) this] t show ?thesis
    by (auto simp: sleep_ms_def target_def Let_def)
qed

theorem sleep_ms_correct_witness:
  "\<exists>s'. sleep_ms (\<lambda>s. s\<lparr>timer_ticks := timer_ticks s + 1\<rparr>) 50 small_timer = Some s' \<and>
    unat (timer_ticks s') = 12"
proof -
  let ?w = "\<lambda>s :: timer. s\<lparr>timer_ticks := timer_ticks s + 1\<rparr>"
  have "\<exists>n. timer_ticks ((?w ^^ n) s) \<noteq> timer_ticks s" for s by (intro exI [of _ 1]) simp
  then show ?thesis
    using sleep_ms_correct [of ?w 50 small_timer] by simp
qed

end
