(* ===== verification/Ps2.thy ===== *)
theory Ps2
  imports Interrupts Framebuffer
begin

text \<open>
  The PS/2 devices: the keyboard, \<^verbatim>\<open>drivers/keyboard.c\<close>, and the mouse, \<^verbatim>\<open>drivers/mouse.c\<close>, which share one
  controller. A character is a byte. The coordinates and motions of the mouse are 32-bit words read
  as signed numbers.
\<close>

section \<open>The keyboard\<close>

abbreviation (input) KB_BUFFER_SIZE :: nat where "KB_BUFFER_SIZE \<equiv> 256"

record ps2 = fb +
  shift_pressed :: bool
  ctrl_pressed :: bool
  caps_lock :: bool
  kb_buffer :: "u8 list"
  kb_buffer_head :: nat
  kb_buffer_tail :: nat
  mouse_x :: u32
  mouse_y :: u32
  mouse_left_pressed :: u8
  mouse_right_pressed :: u8
  mouse_cycle :: u8
  mouse_byte :: "u8 list"
  mouse_saved_pixels :: "u32 list list"
  mouse_saved_valid :: bool
  old_mouse_x :: u32
  old_mouse_y :: u32

definition scancode_to_ascii :: "u8 list" where
  "scancode_to_ascii =
     [0, 0] @ ascii ''1234567890-='' @ [0x08, 0x09] @ ascii ''qwertyuiop[]'' @ [0x0A, 0] @ ascii ''asdfghjkl;'' @
     [0x27, 0x60, 0, 0x5C] @ ascii ''zxcvbnm,./'' @ [0, 0x2A, 0, 0x20] @ replicate 13 0 @
     ascii ''789-456+1230.'' @ replicate 4 0"

definition scancode_to_ascii_shift :: "u8 list" where
  "scancode_to_ascii_shift =
     [0, 0] @ ascii ''!@#$%^&*()_+'' @ [0x08, 0x09] @ ascii ''QWERTYUIOP{}'' @ [0x0A, 0] @ ascii ''ASDFGHJKL:'' @
     [0x22, 0x7E, 0, 0x7C] @ ascii ''ZXCVBNM<>?'' @ [0, 0x2A, 0, 0x20] @ replicate 6 0"

definition buffer_put :: "u8 \<Rightarrow> 'a ps2_scheme \<Rightarrow> 'a ps2_scheme" where
  "buffer_put c s =
     (let next = (kb_buffer_head s + 1) mod KB_BUFFER_SIZE in
      if next \<noteq> kb_buffer_tail s
      then s\<lparr>kb_buffer := (kb_buffer s)[kb_buffer_head s := c], kb_buffer_head := next\<rparr> else s)"

text \<open>The translation of a key that is not a modifier; 0 when the key has no character.\<close>

definition scancode_char :: "u8 \<Rightarrow> bool \<Rightarrow> bool \<Rightarrow> bool \<Rightarrow> u8" where
  "scancode_char scancode shift caps ctrl =
     (if unat scancode \<ge> length scancode_to_ascii then 0 else
      let c = (if shift then
                 if unat scancode < length scancode_to_ascii_shift then scancode_to_ascii_shift ! unat scancode else 0
               else scancode_to_ascii ! unat scancode) in
      if c = 0 then 0 else
      let c = (if caps \<and> \<not> shift then if c \<ge> 0x61 \<and> c \<le> 0x7A then c - 32 else c
               else if caps \<and> shift then if c \<ge> 0x41 \<and> c \<le> 0x5A then c + 32 else c
               else c)
      in if ctrl \<and> c \<ge> 0x61 \<and> c \<le> 0x7A then c - 0x61 + 1 else c)"

definition keyboard_handle_byte :: "u8 \<Rightarrow> 'a ps2_scheme \<Rightarrow> 'a ps2_scheme" where
  "keyboard_handle_byte scancode s =
     (if scancode AND 0x80 \<noteq> 0 then
        let released = scancode AND 0x7F in
        if released = 0x2A \<or> released = 0x36 then s\<lparr>shift_pressed := False\<rparr>
        else if released = 0x1D then s\<lparr>ctrl_pressed := False\<rparr>
        else s
      else if scancode = 0x2A \<or> scancode = 0x36 then s\<lparr>shift_pressed := True\<rparr>
      else if scancode = 0x1D then s\<lparr>ctrl_pressed := True\<rparr>
      else if scancode = 0x3A then s\<lparr>caps_lock := \<not> caps_lock s\<rparr>
      else if scancode = 0x38 then s
      else
        let c = scancode_char scancode (shift_pressed s) (caps_lock s) (ctrl_pressed s) in
        if c = 0 then s else buffer_put c s)"

definition keyboard_has_input :: "'a ps2_scheme \<Rightarrow> bool" where
  "keyboard_has_input s \<longleftrightarrow> kb_buffer_head s \<noteq> kb_buffer_tail s"

text \<open>\<open>hlt\<close> returns after an interrupt, whose effect on the state is the argument \<open>wait\<close>.\<close>

partial_function (option) keyboard_getchar :: "('a ps2_scheme \<Rightarrow> 'a ps2_scheme) \<Rightarrow> 'a ps2_scheme \<Rightarrow> (u8 \<times> 'a ps2_scheme) option" where
  "keyboard_getchar wait s =
     (if \<not> keyboard_has_input s then keyboard_getchar wait (wait s)
      else Some (kb_buffer s ! kb_buffer_tail s, s\<lparr>kb_buffer_tail := (kb_buffer_tail s + 1) mod KB_BUFFER_SIZE\<rparr>))"

section \<open>The mouse\<close>

abbreviation (input) CURSOR_SIZE :: nat where "CURSOR_SIZE \<equiv> 5"

definition cursor_cells :: "(nat \<times> nat) list" where
  "cursor_cells = concat (map (\<lambda>i. map (\<lambda>j. (i, j)) [0..<CURSOR_SIZE]) [0..<CURSOR_SIZE])"

definition restore_pixels :: "u32 \<Rightarrow> u32 \<Rightarrow> u32 list list \<Rightarrow> 'a fb_scheme \<Rightarrow> 'a fb_scheme" where
  "restore_pixels x y saved s =
     fold (\<lambda>(i, j). fb_putpixel (x + of_nat j) (y + of_nat i) (saved ! i ! j)) cursor_cells s"

definition save_pixels :: "u32 \<Rightarrow> u32 \<Rightarrow> 'a fb_scheme \<Rightarrow> u32 list list" where
  "save_pixels x y s =
     map (\<lambda>i. map (\<lambda>j. fb_getpixel (x + of_nat j) (y + of_nat i) s) [0..<CURSOR_SIZE]) [0..<CURSOR_SIZE]"

definition draw_mouse_cursor :: "u32 \<Rightarrow> u32 \<Rightarrow> 'a ps2_scheme \<Rightarrow> 'a ps2_scheme" where
  "draw_mouse_cursor x y s =
     (let s = (if mouse_saved_valid s then restore_pixels (old_mouse_x s) (old_mouse_y s) (mouse_saved_pixels s) s else s);
          s = s\<lparr>mouse_saved_pixels := save_pixels x y s, mouse_saved_valid := True\<rparr>;
          s = fb_draw_rect x (y + 2) (of_nat CURSOR_SIZE) 1 (FB_COLOR 255 0 0) s;
          s = fb_draw_rect (x + 2) y 1 (of_nat CURSOR_SIZE) (FB_COLOR 255 0 0) s
      in s\<lparr>old_mouse_x := x, old_mouse_y := y\<rparr>)"

text \<open>A completed packet: \<open>b0\<close> the flags, \<open>b1\<close> and \<open>b2\<close> the low bytes of the motion.\<close>

definition mouse_packet :: "u8 \<Rightarrow> u8 \<Rightarrow> u8 \<Rightarrow> 'a ps2_scheme \<Rightarrow> 'a ps2_scheme" where
  "mouse_packet b0 b1 b2 s =
     (if b0 AND 0xC0 \<noteq> 0 then s else
      let s = s\<lparr>mouse_left_pressed := b0 AND 0x01, mouse_right_pressed := b0 AND 0x02\<rparr>;
          rel_x = (ucast b1 :: u32) - (if b0 AND 0x10 \<noteq> 0 then 256 else 0);
          rel_y = (ucast b2 :: u32) - (if b0 AND 0x20 \<noteq> 0 then 256 else 0)
      in if rel_x = 0 \<and> rel_y = 0 then s else
      let x = mouse_x s + rel_x;
          y = mouse_y s - rel_y;
          max_x = fb_get_width s - of_nat CURSOR_SIZE;
          max_y = fb_get_height s - of_nat CURSOR_SIZE;
          x = (if x <s 0 then 0 else x);
          y = (if y <s 0 then 0 else y);
          x = (if max_x <s x then max_x else x);
          y = (if max_y <s y then max_y else y)
      in draw_mouse_cursor x y (s\<lparr>mouse_x := x, mouse_y := y\<rparr>))"

definition mouse_handle_byte :: "u8 \<Rightarrow> 'a ps2_scheme \<Rightarrow> 'a ps2_scheme" where
  "mouse_handle_byte data s =
     (if mouse_cycle s = 0 then
        if data AND 0x08 = 0 then s
        else s\<lparr>mouse_byte := (mouse_byte s)[0 := data], mouse_cycle := 1\<rparr>
      else if mouse_cycle s = 1 then s\<lparr>mouse_byte := (mouse_byte s)[1 := data], mouse_cycle := 2\<rparr>
      else if mouse_cycle s = 2 then
        let s = s\<lparr>mouse_byte := (mouse_byte s)[2 := data], mouse_cycle := 0\<rparr>
        in mouse_packet (mouse_byte s ! 0) (mouse_byte s ! 1) (mouse_byte s ! 2) s
      else s\<lparr>mouse_cycle := 0\<rparr>)"

section \<open>The controller\<close>

abbreviation (input) KEYBOARD_DATA_PORT :: u16 where "KEYBOARD_DATA_PORT \<equiv> 0x60"
abbreviation (input) KEYBOARD_STATUS_PORT :: u16 where "KEYBOARD_STATUS_PORT \<equiv> 0x64"

text \<open>Both interrupt handlers run this loop over at most \<open>guard\<close> bytes.\<close>

primrec ps2_drain :: "nat \<Rightarrow> 'd io \<Rightarrow> 'a ps2_scheme \<times> 'd \<Rightarrow> 'a ps2_scheme \<times> 'd" where
  "ps2_drain 0 io sd = sd"
| "ps2_drain (Suc guard) io sd =
     (let (s, d) = sd; (status, d) = inb io KEYBOARD_STATUS_PORT d in
      if status AND 0x01 = 0 then (s, d)
      else let (data, d) = inb io KEYBOARD_DATA_PORT d in
        ps2_drain guard io (if status AND 0x20 \<noteq> 0 then mouse_handle_byte data s else keyboard_handle_byte data s, d))"

definition keyboard_irq_handler :: "'d io \<Rightarrow> ('a ps2_scheme, 'd) handler" where
  "keyboard_irq_handler io regs sd = (regs, ps2_drain 32 io sd)"

definition mouse_irq_handler :: "'d io \<Rightarrow> ('a ps2_scheme, 'd) handler" where
  "mouse_irq_handler io regs sd = (regs, ps2_drain 32 io sd)"

primrec ps2_flush :: "nat \<Rightarrow> 'd io \<Rightarrow> 'd \<Rightarrow> 'd" where
  "ps2_flush 0 io d = d"
| "ps2_flush (Suc n) io d =
     (let (status, d) = inb io KEYBOARD_STATUS_PORT d in
      if status AND 0x01 = 0 then d else ps2_flush n io (snd (inb io KEYBOARD_DATA_PORT d)))"

definition keyboard_init :: "'d io \<Rightarrow> ('a ps2_scheme, 'd) irq_table \<times> 'd \<Rightarrow> ('a ps2_scheme, 'd) irq_table \<times> 'd" where
  "keyboard_init io td = (let (t, d) = td in irq_install_handler io 1 (keyboard_irq_handler io) (t, ps2_flush 32 io d))"

primrec mouse_wait_loop :: "nat \<Rightarrow> bool \<Rightarrow> 'd io \<Rightarrow> 'd \<Rightarrow> 'd" where
  "mouse_wait_loop 0 for_data io d = d"
| "mouse_wait_loop (Suc n) for_data io d =
     (let (x, d) = inb io 0x64 d in
      if (if for_data then x AND 1 = 1 else x AND 2 = 0) then d else mouse_wait_loop n for_data io d)"

definition mouse_wait :: "u8 \<Rightarrow> 'd io \<Rightarrow> 'd \<Rightarrow> 'd" where
  "mouse_wait a_type io d = mouse_wait_loop 100000 (a_type = 0) io d"

definition mouse_write :: "u8 \<Rightarrow> 'd io \<Rightarrow> 'd \<Rightarrow> 'd" where
  "mouse_write a_write io d = outb io 0x60 a_write (mouse_wait 1 io (outb io 0x64 0xD4 (mouse_wait 1 io d)))"

definition mouse_read :: "'d io \<Rightarrow> 'd \<Rightarrow> u8 \<times> 'd" where
  "mouse_read io d = inb io 0x60 (mouse_wait 0 io d)"

definition mouse_init ::
  "'d io \<Rightarrow> ('a ps2_scheme, 'd) irq_table \<times> 'a ps2_scheme \<times> 'd \<Rightarrow> ('a ps2_scheme, 'd) irq_table \<times> 'a ps2_scheme \<times> 'd" where
  "mouse_init io w =
     (let (t, s, d) = w;
          d = outb io 0x64 0xA8 (mouse_wait 1 io d);
          d = outb io 0x64 0x20 (mouse_wait 1 io d);
          (x, d) = inb io 0x60 (mouse_wait 0 io d);
          status = x OR 2;
          d = outb io 0x64 0x60 (mouse_wait 1 io d);
          d = outb io 0x60 status (mouse_wait 1 io d);
          d = snd (mouse_read io (mouse_write 0xF6 io d));
          d = snd (mouse_read io (mouse_write 0xF4 io d));
          (t, d) = irq_install_handler io 12 (mouse_irq_handler io) (t, d);
          x = word_of_int (sint (fb_get_width s) sdiv 2);
          y = word_of_int (sint (fb_get_height s) sdiv 2)
      in (t, draw_mouse_cursor x y (s\<lparr>mouse_x := x, mouse_y := y\<rparr>), d))"

section \<open>The keyboard buffer is a queue\<close>

text \<open>
  A bounded queue: what its clients may rely on is only how the operations act on the list of
  waiting characters.
\<close>

locale bounded_queue =
  fixes inv :: "'s \<Rightarrow> bool" and queue :: "'s \<Rightarrow> 'c list" and put :: "'c \<Rightarrow> 's \<Rightarrow> 's"
    and ready :: "'s \<Rightarrow> bool" and get :: "'s \<Rightarrow> 'c \<times> 's" and cap :: nat
  assumes put_inv: "inv s \<Longrightarrow> inv (put c s)"
    and put_queue: "inv s \<Longrightarrow> queue (put c s) = (if length (queue s) < cap then queue s @ [c] else queue s)"
    and ready_iff: "inv s \<Longrightarrow> ready s \<longleftrightarrow> queue s \<noteq> []"
    and get_inv: "inv s \<Longrightarrow> ready s \<Longrightarrow> inv (snd (get s))"
    and get_queue: "inv s \<Longrightarrow> ready s \<Longrightarrow> queue s = fst (get s) # queue (snd (get s))"
    and queue_le: "inv s \<Longrightarrow> length (queue s) \<le> cap"
begin

primrec drain :: "nat \<Rightarrow> 's \<Rightarrow> 'c list" where
  "drain 0 s = []"
| "drain (Suc n) s = (if ready s then fst (get s) # drain n (snd (get s)) else [])"

lemma puts: "inv s \<Longrightarrow> inv (fold put cs s) \<and> queue (fold put cs s) = take cap (queue s @ cs)"
proof (induction cs arbitrary: s)
  case (Cons c cs)
  have "length (queue s) < cap \<Longrightarrow> cap - length (queue s) = Suc (cap - Suc (length (queue s)))" by simp
  then show ?case using Cons.IH [OF put_inv [OF Cons.prems]] put_queue [OF Cons.prems] by auto
next
  case Nil
  then show ?case using queue_le by simp
qed

lemma drain_all: "inv s \<Longrightarrow> length (queue s) \<le> n \<Longrightarrow> drain n s = queue s"
proof (induction n arbitrary: s)
  case (Suc n)
  show ?case
  proof (cases "ready s")
    case True
    then show ?thesis using Suc get_queue [OF Suc.prems(1) True] get_inv [OF Suc.prems(1) True] by simp
  next
    case False
    then show ?thesis using ready_iff [OF Suc.prems(1)] by simp
  qed
qed simp

lemma fifo: "inv s \<Longrightarrow> queue s = [] \<Longrightarrow> drain cap (fold put cs s) = take cap cs"
  using puts [of s cs] drain_all [of "fold put cs s" cap] by simp

end

definition kb_ok :: "'a ps2_scheme \<Rightarrow> bool" where
  "kb_ok s \<longleftrightarrow> length (kb_buffer s) = 256 \<and> kb_buffer_head s < 256 \<and> kb_buffer_tail s < 256"

definition kb_count :: "'a ps2_scheme \<Rightarrow> nat" where
  "kb_count s = (kb_buffer_head s + 256 - kb_buffer_tail s) mod 256"

definition kb_queue :: "'a ps2_scheme \<Rightarrow> u8 list" where
  "kb_queue s = map (\<lambda>k. kb_buffer s ! ((kb_buffer_tail s + k) mod 256)) [0..<kb_count s]"

definition kb_get :: "'a ps2_scheme \<Rightarrow> u8 \<times> 'a ps2_scheme" where
  "kb_get s = (kb_buffer s ! kb_buffer_tail s, s\<lparr>kb_buffer_tail := (kb_buffer_tail s + 1) mod 256\<rparr>)"

lemma mod_256: "x < 256 \<Longrightarrow> x mod 256 = x" "256 \<le> x \<Longrightarrow> x < 512 \<Longrightarrow> x mod 256 = x - 256" for x :: nat
  by (simp_all add: le_mod_geq)

lemma ring_arith:
  fixes h t n :: nat
  assumes ht: "h < 256" "t < 256" and n_def: "n = (h + 256 - t) mod 256"
  shows "(t + n) mod 256 = h" "n < 256" "k < n \<Longrightarrow> (t + k) mod 256 \<noteq> h" "(h + 1) mod 256 = t \<longleftrightarrow> n = 255"
    "n < 255 \<Longrightarrow> ((h + 1) mod 256 + 256 - t) mod 256 = Suc n" "n = 0 \<longleftrightarrow> h = t"
    "0 < n \<Longrightarrow> (h + 256 - (t + 1) mod 256) mod 256 = n - 1"
proof -
  have n: "t \<le> h \<and> n = h - t \<or> h < t \<and> n = h + 256 - t"
    using ht n_def mod_256 [of "h + 256 - t"] by (cases "t \<le> h") auto
  show "n < 256" "n = 0 \<longleftrightarrow> h = t" using n ht by auto
  show "(t + n) mod 256 = h" using n ht by auto
  show "(t + k) mod 256 \<noteq> h" if "k < n"
    using n that ht mod_256 [of "t + k"] by (cases "t + k < 256") auto
  have h: "(h + 1) mod 256 = (if h = 255 then 0 else h + 1)" using ht(1) by simp
  have t: "(t + 1) mod 256 = (if t = 255 then 0 else t + 1)" using ht(2) by simp
  show "(h + 1) mod 256 = t \<longleftrightarrow> n = 255" unfolding h using n ht by (cases "h = 255") auto
  show "((h + 1) mod 256 + 256 - t) mod 256 = Suc n" if "n < 255"
  proof (cases "h = 255")
    case True
    then have "n = 255 - t" "0 < t" using n that ht by auto
    then show ?thesis using ht True mod_256(1) [of "256 - t"] by simp
  next
    case False
    then show ?thesis using n that ht mod_256 [of "h + 1 + 256 - t"] unfolding h by auto
  qed
  show "(h + 256 - (t + 1) mod 256) mod 256 = n - 1" if "0 < n"
  proof (cases "t = 255")
    case True
    then show ?thesis using n that ht unfolding t by auto
  next
    case False
    then show ?thesis using n that ht mod_256 [of "h + 256 - (t + 1)"] unfolding t by auto
  qed
qed

lemma kb_put_queue:
  assumes "kb_ok s"
  shows "kb_queue (buffer_put c s) = (if length (kb_queue s) < 255 then kb_queue s @ [c] else kb_queue s)"
proof -
  let ?h = "kb_buffer_head s" and ?t = "kb_buffer_tail s"
  have ok: "?h < 256" "?t < 256" "length (kb_buffer s) = 256" using assms by (auto simp: kb_ok_def)
  note ring = ring_arith [OF ok(1,2) kb_count_def]
  show ?thesis
  proof (cases "kb_count s = 255")
    case True
    then have "buffer_put c s = s" using ring(4) by (simp add: buffer_put_def Let_def)
    then show ?thesis using True by (simp add: kb_queue_def)
  next
    case False
    then have lt: "kb_count s < 255" using ring(2) by simp
    have s': "buffer_put c s = s\<lparr>kb_buffer := (kb_buffer s)[?h := c], kb_buffer_head := (?h + 1) mod 256\<rparr>"
      using ring(4) False by (simp add: buffer_put_def Let_def)
    have "kb_count (buffer_put c s) = Suc (kb_count s)" using ring(5) [OF lt] unfolding s' by (simp add: kb_count_def)
    then have "kb_queue (buffer_put c s) = map (\<lambda>k. (kb_buffer s)[?h := c] ! ((?t + k) mod 256)) [0..<kb_count s] @ [c]"
      using ring(1) ok(1,3) by (simp add: kb_queue_def s')
    also have "map (\<lambda>k. (kb_buffer s)[?h := c] ! ((?t + k) mod 256)) [0..<kb_count s] = kb_queue s"
      unfolding kb_queue_def by (intro map_cong refl nth_list_update_neq not_sym [OF ring(3)]) simp
    finally show ?thesis using lt by (simp add: kb_queue_def)
  qed
qed

interpretation kb: bounded_queue kb_ok kb_queue buffer_put keyboard_has_input kb_get 255
proof
  fix s :: "'a ps2_scheme" and c
  assume ok: "kb_ok s"
  then have ht: "kb_buffer_head s < 256" "kb_buffer_tail s < 256" by (auto simp: kb_ok_def)
  note ring = ring_arith [OF ht kb_count_def]
  show "kb_ok (buffer_put c s)" using ok by (auto simp: kb_ok_def buffer_put_def Let_def)
  show "kb_queue (buffer_put c s) = (if length (kb_queue s) < 255 then kb_queue s @ [c] else kb_queue s)"
    by (rule kb_put_queue [OF ok])
  show ready: "keyboard_has_input s \<longleftrightarrow> kb_queue s \<noteq> []" using ring(6) by (simp add: keyboard_has_input_def kb_queue_def)
  show "length (kb_queue s) \<le> 255" using ring(2) by (simp add: kb_queue_def)
  assume in_s: "keyboard_has_input s"
  show "kb_ok (snd (kb_get s))" using ok by (simp add: kb_ok_def kb_get_def)
  have "0 < kb_count s" using in_s ring(6) by (simp add: keyboard_has_input_def)
  then obtain n where n: "kb_count s = Suc n" by (cases "kb_count s") auto
  have "kb_count (snd (kb_get s)) = n" using ring(7) n by (simp add: kb_count_def kb_get_def)
  moreover have "((kb_buffer_tail s + 1) mod 256 + k) mod 256 = (kb_buffer_tail s + Suc k) mod 256" for k
    by (simp add: mod_simps)
  ultimately show "kb_queue s = fst (kb_get s) # kb_queue (snd (kb_get s))"
    using ht(2) unfolding kb_queue_def n upt_conv_Cons [OF zero_less_Suc] map_Suc_upt [symmetric]
    by (simp add: kb_get_def)
qed

section \<open>Typing\<close>

text \<open>
  What the keys mean, independently of the driver's tables: the state of the modifiers goes through the scan codes, where a code with
  the top bit is the release of the key below it, and every other key press that has a character yields it.
\<close>

record modifiers =
  shift_down :: bool
  caps_on :: bool
  ctrl_down :: bool

definition modifier_key :: "u8 \<Rightarrow> modifiers \<Rightarrow> modifiers option" where
  "modifier_key k m =
     (if k \<in> {0x2A, 0x36} then Some (m\<lparr>shift_down := True\<rparr>)
      else if k \<in> {0xAA, 0xB6} then Some (m\<lparr>shift_down := False\<rparr>)
      else if k = 0x1D then Some (m\<lparr>ctrl_down := True\<rparr>)
      else if k = 0x9D then Some (m\<lparr>ctrl_down := False\<rparr>)
      else if k = 0x3A then Some (m\<lparr>caps_on := \<not> caps_on m\<rparr>)
      else if k = 0x38 \<or> k \<ge> 0x80 then Some m
      else None)"

text \<open>
  The keyboard as it is printed on its caps, by rows of neighbouring scan codes: the letters; the keys with one symbol below another;
  the keys of the number pad, which have a character only without shift; and the keys that are the same with and without it.
\<close>

definition key_row :: "nat \<Rightarrow> 'b list \<Rightarrow> (u8 \<times> 'b) list" where
  "key_row k xs = zip (map of_nat [k..<k + length xs]) xs"

definition letter_keys :: "(u8 \<times> u8) list" where
  "letter_keys = key_row 0x10 (ascii ''qwertyuiop'') @ key_row 0x1E (ascii ''asdfghjkl'') @ key_row 0x2C (ascii ''zxcvbnm'')"

definition symbol_keys :: "(u8 \<times> u8 \<times> u8) list" where
  "symbol_keys = key_row 0x02 (zip (ascii ''1234567890-='') (ascii ''!@#$%^&*()_+'')) @ key_row 0x1A (zip (ascii ''[]'') (ascii ''{}'')) @
     key_row 0x27 (zip (ascii '';'') (ascii '':'')) @ [(0x28, 0x27, 0x22), (0x29, 0x60, 0x7E), (0x2B, 0x5C, 0x7C)] @
     key_row 0x33 (zip (ascii '',./'') (ascii ''<>?''))"

definition pad_keys :: "(u8 \<times> u8) list" where
  "pad_keys = key_row 0x47 (ascii ''789-456+1230.'')"

definition plain_keys :: "(u8 \<times> u8) list" where
  "plain_keys = [(0x0E, 0x08), (0x0F, 0x09), (0x1C, 0x0A), (0x37, 0x2A), (0x39, 0x20)]"

text \<open>
  A letter is a capital when exactly one of shift and caps lock is on; otherwise control makes it the control character of its
  place in the alphabet. Caps lock and control do nothing to the other keys.
\<close>

definition key_char :: "u8 \<Rightarrow> modifiers \<Rightarrow> u8 list" where
  "key_char k m =
     (case map_of letter_keys k of
        Some l \<Rightarrow> [if shift_down m \<noteq> caps_on m then l - 0x20 else if ctrl_down m then l - 0x60 else l]
      | None \<Rightarrow>
     (case map_of symbol_keys k of
        Some (a, b) \<Rightarrow> [if shift_down m then b else a]
      | None \<Rightarrow>
     (case map_of pad_keys k of
        Some a \<Rightarrow> if shift_down m then [] else [a]
      | None \<Rightarrow>
     (case map_of plain_keys k of Some a \<Rightarrow> [a] | None \<Rightarrow> []))))"

primrec typed :: "u8 list \<Rightarrow> modifiers \<Rightarrow> u8 list" where
  "typed [] m = []"
| "typed (k # ks) m = (case modifier_key k m of Some m' \<Rightarrow> typed ks m' | None \<Rightarrow> key_char k m @ typed ks m)"

text \<open>The tables of the driver and its treatment of the modifiers are this keyboard: checked for every scan code.\<close>

lemma keyboard_tables:
  "scancode_to_ascii = [0, 0, 0x31, 0x32, 0x33, 0x34, 0x35, 0x36, 0x37, 0x38, 0x39, 0x30, 0x2D, 0x3D, 0x08, 0x09, 0x71, 0x77, 0x65, 0x72, 0x74, 0x79,
      0x75, 0x69, 0x6F, 0x70, 0x5B, 0x5D, 0x0A, 0, 0x61, 0x73, 0x64, 0x66, 0x67, 0x68, 0x6A, 0x6B, 0x6C, 0x3B, 0x27, 0x60, 0, 0x5C, 0x7A, 0x78, 0x63,
      0x76, 0x62, 0x6E, 0x6D, 0x2C, 0x2E, 0x2F, 0, 0x2A, 0, 0x20, 0, 0, 0, 0, 0, 0, 0, 0, 0, 0, 0, 0, 0, 0x37, 0x38, 0x39, 0x2D, 0x34, 0x35, 0x36,
      0x2B, 0x31, 0x32, 0x33, 0x30, 0x2E, 0, 0, 0, 0]"
  "scancode_to_ascii_shift = [0, 0, 0x21, 0x40, 0x23, 0x24, 0x25, 0x5E, 0x26, 0x2A, 0x28, 0x29, 0x5F, 0x2B, 0x08, 0x09, 0x51, 0x57, 0x45, 0x52, 0x54,
      0x59, 0x55, 0x49, 0x4F, 0x50, 0x7B, 0x7D, 0x0A, 0, 0x41, 0x53, 0x44, 0x46, 0x47, 0x48, 0x4A, 0x4B, 0x4C, 0x3A, 0x22, 0x7E, 0, 0x7C, 0x5A, 0x58,
      0x43, 0x56, 0x42, 0x4E, 0x4D, 0x3C, 0x3E, 0x3F, 0, 0x2A, 0, 0x20, 0, 0, 0, 0, 0, 0]"
  "letter_keys = [(0x10, 0x71), (0x11, 0x77), (0x12, 0x65), (0x13, 0x72), (0x14, 0x74), (0x15, 0x79), (0x16, 0x75), (0x17, 0x69), (0x18, 0x6F), (0x19,
      0x70), (0x1E, 0x61), (0x1F, 0x73), (0x20, 0x64), (0x21, 0x66), (0x22, 0x67), (0x23, 0x68), (0x24, 0x6A), (0x25, 0x6B), (0x26, 0x6C), (0x2C,
      0x7A), (0x2D, 0x78), (0x2E, 0x63), (0x2F, 0x76), (0x30, 0x62), (0x31, 0x6E), (0x32, 0x6D)]"
  "symbol_keys = [(0x02, 0x31, 0x21), (0x03, 0x32, 0x40), (0x04, 0x33, 0x23), (0x05, 0x34, 0x24), (0x06, 0x35, 0x25), (0x07, 0x36, 0x5E), (0x08, 0x37,
      0x26), (0x09, 0x38, 0x2A), (0x0A, 0x39, 0x28), (0x0B, 0x30, 0x29), (0x0C, 0x2D, 0x5F), (0x0D, 0x3D, 0x2B), (0x1A, 0x5B, 0x7B), (0x1B, 0x5D,
      0x7D), (0x27, 0x3B, 0x3A), (0x28, 0x27, 0x22), (0x29, 0x60, 0x7E), (0x2B, 0x5C, 0x7C), (0x33, 0x2C, 0x3C), (0x34, 0x2E, 0x3E), (0x35, 0x2F,
      0x3F)]"
  "pad_keys = [(0x47, 0x37), (0x48, 0x38), (0x49, 0x39), (0x4A, 0x2D), (0x4B, 0x34), (0x4C, 0x35), (0x4D, 0x36), (0x4E, 0x2B), (0x4F, 0x31), (0x50,
      0x32), (0x51, 0x33), (0x52, 0x30), (0x53, 0x2E)]"
  by code_simp+

text \<open>The pair of characters on a key, 0 for none.\<close>

definition key_pair :: "u8 \<Rightarrow> u8 \<times> u8" where
  "key_pair k =
     (case map_of letter_keys k of Some l \<Rightarrow> (l, l - 0x20) | None \<Rightarrow>
     (case map_of symbol_keys k of Some (a, b) \<Rightarrow> (a, b) | None \<Rightarrow>
     (case map_of pad_keys k of Some a \<Rightarrow> (a, 0) | None \<Rightarrow>
     (case map_of plain_keys k of Some a \<Rightarrow> (a, a) | None \<Rightarrow> (0, 0)))))"

lemma key_pairs:
  "map key_pair (map of_nat [0..<128]) = zip scancode_to_ascii (scancode_to_ascii_shift @ replicate 24 0) @ replicate 40 (0, 0)"
  unfolding key_pair_def keyboard_tables plain_keys_def by code_simp

lemma table_lengths: "length scancode_to_ascii = 88" "length scancode_to_ascii_shift = 64"
  by (simp_all add: keyboard_tables)

lemma key_pair_table:
  assumes "k < 0x80"
  shows "key_pair k =
    (if unat k < 88 then (scancode_to_ascii ! unat k, if unat k < 64 then scancode_to_ascii_shift ! unat k else 0) else (0, 0))"
proof -
  have k: "unat k < 128" using assms by (simp add: word_less_nat_alt)
  then have "key_pair k = map key_pair (map of_nat [0..<128]) ! unat k" by simp
  then show ?thesis using k unfolding key_pairs by (simp add: nth_append table_lengths del: replicate.simps)
qed

definition is_lower :: "u8 \<Rightarrow> bool" where "is_lower c \<longleftrightarrow> 0x61 \<le> c \<and> c \<le> 0x7A"
definition is_upper :: "u8 \<Rightarrow> bool" where "is_upper c \<longleftrightarrow> 0x41 \<le> c \<and> c \<le> 0x5A"

lemma key_classes:
  "map_of letter_keys k = Some l \<Longrightarrow> is_lower l \<and> \<not> is_upper l \<and> is_upper (l - 0x20) \<and> \<not> is_lower (l - 0x20) \<and> l \<noteq> 0 \<and> l - 0x20 \<noteq> 0"
  "map_of symbol_keys k = Some (a, b) \<Longrightarrow> \<not> is_lower a \<and> \<not> is_upper a \<and> a \<noteq> 0 \<and> \<not> is_lower b \<and> \<not> is_upper b \<and> b \<noteq> 0"
  "map_of pad_keys k = Some a \<Longrightarrow> \<not> is_lower a \<and> \<not> is_upper a \<and> a \<noteq> 0"
  "map_of plain_keys k = Some a \<Longrightarrow> \<not> is_lower a \<and> \<not> is_upper a \<and> a \<noteq> 0"
proof -
  have "\<forall>(k, l)\<in>set letter_keys. is_lower l \<and> \<not> is_upper l \<and> is_upper (l - 0x20) \<and> \<not> is_lower (l - 0x20) \<and> l \<noteq> 0 \<and> l - 0x20 \<noteq> 0"
    "\<forall>(k, a, b)\<in>set symbol_keys. \<not> is_lower a \<and> \<not> is_upper a \<and> a \<noteq> 0 \<and> \<not> is_lower b \<and> \<not> is_upper b \<and> b \<noteq> 0"
    "\<forall>(k, a)\<in>set pad_keys. \<not> is_lower a \<and> \<not> is_upper a \<and> a \<noteq> 0"
    "\<forall>(k, a)\<in>set plain_keys. \<not> is_lower a \<and> \<not> is_upper a \<and> a \<noteq> 0"
    unfolding keyboard_tables plain_keys_def by (simp_all add: is_lower_def is_upper_def)
  then show
    "map_of letter_keys k = Some l \<Longrightarrow> is_lower l \<and> \<not> is_upper l \<and> is_upper (l - 0x20) \<and> \<not> is_lower (l - 0x20) \<and> l \<noteq> 0 \<and> l - 0x20 \<noteq> 0"
    "map_of symbol_keys k = Some (a, b) \<Longrightarrow> \<not> is_lower a \<and> \<not> is_upper a \<and> a \<noteq> 0 \<and> \<not> is_lower b \<and> \<not> is_upper b \<and> b \<noteq> 0"
    "map_of pad_keys k = Some a \<Longrightarrow> \<not> is_lower a \<and> \<not> is_upper a \<and> a \<noteq> 0"
    "map_of plain_keys k = Some a \<Longrightarrow> \<not> is_lower a \<and> \<not> is_upper a \<and> a \<noteq> 0"
    by (fastforce dest: map_of_SomeD)+
qed

lemma scancode_char_pair:
  assumes "k < 0x80"
  shows "scancode_char k shift caps ctrl =
    (let c = (if shift then snd (key_pair k) else fst (key_pair k));
         d = (if caps \<and> \<not> shift \<and> is_lower c then c - 32 else if caps \<and> shift \<and> is_upper c then c + 32 else c)
     in if c = 0 then 0 else if ctrl \<and> is_lower d then d - 0x61 + 1 else d)"
  unfolding scancode_char_def table_lengths Let_def is_lower_def [symmetric] is_upper_def [symmetric] key_pair_table [OF assms]
  by (cases "unat k < 88"; cases shift; cases caps) simp_all

lemma scancode_char_key:
  assumes "k < 0x80"
  shows "(let c = scancode_char k (shift_down m) (caps_on m) (ctrl_down m) in if c = 0 then [] else [c]) = key_char k m"
proof -
  have undo: "x - 0x20 + 32 = x" "x - 0x61 + 1 = x - 0x60" for x :: u8 by simp_all
  have ctl: "x - 0x60 \<noteq> 0" if "is_lower x" for x :: u8 using that by (auto simp: is_lower_def)
  note simps = scancode_char_pair [OF assms] Let_def key_pair_def key_char_def
  show ?thesis
  proof (cases "map_of letter_keys k")
    case (Some l)
    then show ?thesis using key_classes(1) [OF Some] ctl [of l] unfolding simps
      by (cases "shift_down m"; cases "caps_on m"; cases "ctrl_down m") (simp_all add: undo)
  next
    case l: None
    show ?thesis
    proof (cases "map_of symbol_keys k")
      case (Some ab)
      obtain a b where ab: "ab = (a, b)" by (cases ab)
      then show ?thesis using l Some key_classes(2) [of k a b] unfolding simps
        by (cases "shift_down m"; cases "caps_on m") simp_all
    next
      case s: None
      show ?thesis
      proof (cases "map_of pad_keys k")
        case (Some a)
        then show ?thesis using l s key_classes(3) [OF Some] unfolding simps by simp
      next
        case p: None
        show ?thesis using l s p key_classes(4) [of k] unfolding simps by (cases "map_of plain_keys k") simp_all
      qed
    qed
  qed
qed

lemma not_modifier: "modifier_key k m = None \<Longrightarrow> k < 0x80"
  by (auto simp: modifier_key_def not_le split: if_splits)

definition mods :: "'a ps2_scheme \<Rightarrow> modifiers" where
  "mods s = \<lparr>shift_down = shift_pressed s, caps_on = caps_lock s, ctrl_down = ctrl_pressed s\<rparr>"

lemma released_code: "k AND 0x80 \<noteq> 0 \<longleftrightarrow> k \<ge> 0x80" "k \<ge> 0x80 \<Longrightarrow> k AND 0x7F = k - 0x80" for k :: u8
proof -
  have "\<forall>k \<in> set (map (of_nat :: nat \<Rightarrow> u8) [0..<256]). (k AND 0x80 \<noteq> 0 \<longleftrightarrow> k \<ge> 0x80) \<and> (k \<ge> 0x80 \<longrightarrow> k AND 0x7F = k - 0x80)"
    by code_simp
  moreover have "k \<in> set (map of_nat [0..<256])"
    using unsigned_less [of k, where 'a = nat] by (auto intro!: image_eqI [of _ _ "unat k"])
  ultimately show "k AND 0x80 \<noteq> 0 \<longleftrightarrow> k \<ge> 0x80" "k \<ge> 0x80 \<Longrightarrow> k AND 0x7F = k - 0x80" by auto
qed

lemma handle_modifier:
  assumes "modifier_key k (mods s) = Some m"
  shows "mods (keyboard_handle_byte k s) = m" "kb_buffer (keyboard_handle_byte k s) = kb_buffer s"
    "kb_buffer_head (keyboard_handle_byte k s) = kb_buffer_head s" "kb_buffer_tail (keyboard_handle_byte k s) = kb_buffer_tail s"
proof -
  have sub: "k - 0x80 = x \<longleftrightarrow> k = x + 0x80" for x by (auto simp: algebra_simps)
  show "mods (keyboard_handle_byte k s) = m" "kb_buffer (keyboard_handle_byte k s) = kb_buffer s"
    "kb_buffer_head (keyboard_handle_byte k s) = kb_buffer_head s" "kb_buffer_tail (keyboard_handle_byte k s) = kb_buffer_tail s"
    using assms released_code [of k]
    by (auto simp: keyboard_handle_byte_def modifier_key_def mods_def Let_def sub split: if_splits)
qed

lemma handle_char:
  assumes "modifier_key k (mods s) = None"
  shows "keyboard_handle_byte k s = (let c = scancode_char k (shift_pressed s) (caps_lock s) (ctrl_pressed s) in
    if c = 0 then s else buffer_put c s)"
  using assms released_code [of k] by (auto simp: keyboard_handle_byte_def modifier_key_def split: if_splits)

lemma handle_bytes:
  assumes "kb_ok s"
  shows "kb_ok (fold keyboard_handle_byte ks s) \<and> kb_queue (fold keyboard_handle_byte ks s) = take 255 (kb_queue s @ typed ks (mods s))"
  using assms
proof (induction ks arbitrary: s)
  case Nil
  then show ?case using kb.queue_le [OF Nil] by simp
next
  case (Cons k ks)
  let ?s = "keyboard_handle_byte k s"
  show ?case
  proof (cases "modifier_key k (mods s)")
    case (Some m)
    note h = handle_modifier [OF Some]
    have "kb_ok ?s" "kb_queue ?s = kb_queue s" using Cons.prems h by (simp_all add: kb_ok_def kb_queue_def kb_count_def)
    then show ?thesis using Cons.IH [of ?s] h(1) Some by simp
  next
    case None
    define c where "c = scancode_char k (shift_pressed s) (caps_lock s) (ctrl_pressed s)"
    have kc: "key_char k (mods s) = (if c = 0 then [] else [c])"
      using scancode_char_key [OF not_modifier [OF None], of "mods s"] by (simp add: c_def mods_def Let_def split: if_splits)
    have s': "?s = (if c = 0 then s else buffer_put c s)" using handle_char [OF None] by (simp add: c_def Let_def)
    have "mods ?s = mods s" unfolding s' by (simp add: mods_def buffer_put_def Let_def)
    moreover have "kb_ok ?s" unfolding s' using Cons.prems by (simp add: kb.put_inv)
    moreover have "take 255 (kb_queue ?s @ zs) = take 255 (kb_queue s @ (if c = 0 then [] else [c]) @ zs)" for zs
      using kb.put_queue [OF Cons.prems, of c] unfolding s' by simp
    ultimately show ?thesis using Cons.IH [of ?s] None kc by simp
  qed
qed

lemma getchar_waits:
  assumes "keyboard_has_input ((wait ^^ n) s)" "\<And>k. k < n \<Longrightarrow> \<not> keyboard_has_input ((wait ^^ k) s)"
  shows "keyboard_getchar wait s = Some (kb_get ((wait ^^ n) s))"
  using assms
proof (induction n arbitrary: s)
  case 0
  then show ?case by (subst keyboard_getchar.simps) (simp add: kb_get_def)
next
  case (Suc n)
  have "\<not> keyboard_has_input s" using Suc.prems(2) [of 0] by simp
  moreover have "keyboard_getchar wait (wait s) = Some (kb_get ((wait ^^ n) (wait s)))"
  proof (rule Suc.IH)
    show "keyboard_has_input ((wait ^^ n) (wait s))" using Suc.prems(1) by (simp add: funpow_swap1)
    show "\<not> keyboard_has_input ((wait ^^ k) (wait s))" if "k < n" for k
      using Suc.prems(2) [of "Suc k"] that by (simp add: funpow_swap1)
  qed
  ultimately show ?case by (subst keyboard_getchar.simps) (simp add: funpow_swap1)
qed

text \<open>Reading all that waits.\<close>

primrec read_chars :: "nat \<Rightarrow> 'a ps2_scheme \<Rightarrow> u8 list" where
  "read_chars 0 s = []"
| "read_chars (Suc n) s =
     (if keyboard_has_input s then
        case keyboard_getchar id s of None \<Rightarrow> [] | Some (c, s') \<Rightarrow> c # read_chars n s'
      else [])"

lemma read_chars_drain: "read_chars n s = kb.drain n s"
proof (induction n arbitrary: s)
  case (Suc n)
  then show ?case using getchar_waits [of 0 id s] by (auto split: prod.split)
qed simp

text \<open>
  C19. What is typed is what is read: from an empty buffer, after any sequence of scan codes, reading
  character by character gives exactly the characters that those keys have on a US keyboard under shift, caps lock and
  control, in order; of more than 255 unread characters the later ones are dropped.
\<close>

theorem keyboard_typing_correct:
  assumes "kb_ok s" "kb_queue s = []"
  shows "read_chars 255 (fold keyboard_handle_byte ks s) = take 255 (typed ks (mods s))"
proof -
  have "kb_ok (fold keyboard_handle_byte ks s)" "kb_queue (fold keyboard_handle_byte ks s) = take 255 (typed ks (mods s))"
    using handle_bytes [OF assms(1), of ks] assms(2) by auto
  then show ?thesis unfolding read_chars_drain by (subst kb.drain_all) simp_all
qed

definition small_ps2 :: ps2 where
  "small_ps2 = fb.extend small_fb (ps2.fields False False False (replicate 256 0) 0 0 20 20 0 0 0 [0, 0, 0] [] False 20 20)"

lemma small_ps2_fields [simp]:
  "kb_buffer small_ps2 = replicate 256 0" "kb_buffer_head small_ps2 = 0" "kb_buffer_tail small_ps2 = 0"
  "shift_pressed small_ps2 = False" "ctrl_pressed small_ps2 = False" "caps_lock small_ps2 = False"
  "mouse_x small_ps2 = 20" "mouse_y small_ps2 = 20" "mouse_cycle small_ps2 = 0" "mouse_byte small_ps2 = [0, 0, 0]"
  "mouse_saved_valid small_ps2 = False" "fb_width small_ps2 = 64" "fb_height small_ps2 = 48" "fb_pitch small_ps2 = 256" "fb_buffer small_ps2 = 0x1000"
  by (simp_all add: small_ps2_def fb.defs ps2.defs small_fb_def)

text \<open>Shift and h, caps lock and i, control and c.\<close>

theorem keyboard_typing_correct_witness:
  "read_chars 255 (fold keyboard_handle_byte [0x2A, 0x23, 0xAA, 0x3A, 0x17, 0x97, 0x3A, 0x1D, 0x2E, 0x9D] small_ps2) = [0x48, 0x49, 3]"
proof -
  have "kb_ok small_ps2" "kb_queue small_ps2 = []" by (simp_all add: kb_ok_def kb_queue_def kb_count_def)
  note * = keyboard_typing_correct [OF this, of "[0x2A, 0x23, 0xAA, 0x3A, 0x17, 0x97, 0x3A, 0x1D, 0x2E, 0x9D]"]
  have "key_char 0x23 \<lparr>shift_down = True, caps_on = False, ctrl_down = False\<rparr> = [0x48]"
    "key_char 0x17 \<lparr>shift_down = False, caps_on = True, ctrl_down = False\<rparr> = [0x49]"
    "key_char 0x2E \<lparr>shift_down = False, caps_on = False, ctrl_down = True\<rparr> = [3]" by code_simp+
  then have "typed [0x2A, 0x23, 0xAA, 0x3A, 0x17, 0x97, 0x3A, 0x1D, 0x2E, 0x9D] (mods small_ps2) = [0x48, 0x49, 3]"
    by (simp add: mods_def modifier_key_def)
  then show ?thesis unfolding * by simp
qed

section \<open>Draining the controller\<close>

text \<open>
  The controller as documented: bit 0 of the status says whether a byte waits, bit 5 whether it is the
  mouse's, and reading the data port takes it. \<open>out\<close> is what waits, with its origin.
\<close>

definition i8042 :: "'d io \<Rightarrow> ('d \<Rightarrow> (bool \<times> u8) list) \<Rightarrow> bool" where
  "i8042 io out \<longleftrightarrow>
     (\<forall>d x d'. io_in8 io 0x64 d = (x, d') \<longrightarrow> out d' = out d \<and> (x AND 1 = 0 \<longleftrightarrow> out d = []) \<and>
        (\<forall>m b q. out d = (m, b) # q \<longrightarrow> (x AND 0x20 \<noteq> 0 \<longleftrightarrow> m))) \<and>
     (\<forall>d m b q. out d = (m, b) # q \<longrightarrow> fst (io_in8 io 0x60 d) = b \<and> out (snd (io_in8 io 0x60 d)) = q)"

definition route :: "bool \<times> u8 \<Rightarrow> 'a ps2_scheme \<Rightarrow> 'a ps2_scheme" where
  "route mb s = (case mb of (True, b) \<Rightarrow> mouse_handle_byte b s | (False, b) \<Rightarrow> keyboard_handle_byte b s)"

lemma ps2_drain_routes:
  assumes io: "i8042 io out"
  shows "\<exists>d'. ps2_drain n io (s, d) = (fold route (take n (out d)) s, d') \<and> out d' = drop n (out d)"
proof (induction n arbitrary: s d)
  case (Suc n)
  obtain x e where st: "io_in8 io 0x64 d = (x, e)" by (cases "io_in8 io 0x64 d")
  have e: "out e = out d" "x AND 1 = 0 \<longleftrightarrow> out d = []" "\<And>m b q. out d = (m, b) # q \<Longrightarrow> (x AND 0x20 \<noteq> 0 \<longleftrightarrow> m)"
    using io st by (auto simp: i8042_def)
  show ?case
  proof (cases "out d")
    case Nil
    then show ?thesis using st e by (simp add: inb_def)
  next
    case (Cons mb q)
    obtain m b where mb: "mb = (m, b)" by (cases mb)
    have data: "fst (io_in8 io 0x60 e) = b" "out (snd (io_in8 io 0x60 e)) = q" using io Cons mb e(1) by (auto simp: i8042_def)
    have r: "route mb s = (if x AND 0x20 \<noteq> 0 then mouse_handle_byte b s else keyboard_handle_byte b s)"
      using e(3) Cons mb by (simp add: route_def)
    obtain f where f: "ps2_drain n io (route mb s, snd (io_in8 io 0x60 e)) = (fold route (take n q) (route mb s), f)" "out f = drop n q"
      using Suc.IH [of "route mb s" "snd (io_in8 io 0x60 e)"] data(2) by auto
    have "x AND 1 \<noteq> 0" using e(2) Cons by simp
    then have "ps2_drain (Suc n) io (s, d) = ps2_drain n io (route mb s, snd (io_in8 io 0x60 e))"
      using st data(1) r by (simp add: inb_def split_beta)
    then show ?thesis using f Cons by simp
  qed
qed simp

text \<open>
  C20. Each of the two interrupt handlers empties the controller of up to 32 bytes and gives every one,
  in order, to the device it came from, whichever interrupt was raised.
\<close>

theorem ps2_handlers_correct:
  assumes "i8042 io out"
  shows "\<exists>d'. keyboard_irq_handler io regs (s, d) = (regs, fold route (take 32 (out d)) s, d') \<and>
    mouse_irq_handler io regs (s, d) = (regs, fold route (take 32 (out d)) s, d') \<and> out d' = drop 32 (out d)"
  using ps2_drain_routes [OF assms, of 32 s d] by (auto simp: keyboard_irq_handler_def mouse_irq_handler_def)

definition queue_io :: "(bool \<times> u8) list io" where
  "queue_io = \<lparr>io_in8 = (\<lambda>p d. if p = 0x64 then (case d of [] \<Rightarrow> 0 | (m, b) # q \<Rightarrow> if m then 0x21 else 1, d)
      else case d of [] \<Rightarrow> (0, []) | (m, b) # q \<Rightarrow> (b, q)),
     io_out8 = (\<lambda>p x d. d), io_in16 = (\<lambda>p d. (0, d)), io_out16 = (\<lambda>p x d. d), io_in32 = (\<lambda>p d. (0, d)), io_out32 = (\<lambda>p x d. d)\<rparr>"

theorem ps2_handlers_correct_witness:
  "\<exists>d'. keyboard_irq_handler queue_io zero_cpu_state (small_ps2, [(False, 0x2A), (True, 0x08)]) =
    (zero_cpu_state, small_ps2\<lparr>shift_pressed := True, mouse_byte := [0x08, 0, 0], mouse_cycle := 1\<rparr>, d')"
proof -
  have "i8042 queue_io (\<lambda>d. d)" by (auto simp: i8042_def queue_io_def split: list.splits)
  from ps2_handlers_correct [OF this, of zero_cpu_state small_ps2 "[(False, 0x2A), (True, 0x08)]"] show ?thesis
    by (auto simp: route_def keyboard_handle_byte_def mouse_handle_byte_def)
qed

section \<open>The cursor\<close>

definition saved_ok :: "'a ps2_scheme \<Rightarrow> bool" where
  "saved_ok s \<longleftrightarrow> (mouse_saved_valid s \<longrightarrow> length (mouse_saved_pixels s) = 5 \<and> (\<forall>i<5. length (mouse_saved_pixels s ! i) = 5))"

text \<open>The picture without the cursor.\<close>

definition clean :: "'a ps2_scheme \<Rightarrow> u32 \<Rightarrow> u32 \<Rightarrow> u32" where
  "clean s x y =
     (if mouse_saved_valid s \<and> x - old_mouse_x s < 5 \<and> y - old_mouse_y s < 5
      then mouse_saved_pixels s ! unat (y - old_mouse_y s) ! unat (x - old_mouse_x s) else fb_getpixel x y s)"

definition on_cross :: "u32 \<Rightarrow> u32 \<Rightarrow> u32 \<Rightarrow> u32 \<Rightarrow> bool" where
  "on_cross mx my x y \<longleftrightarrow> x - mx < 5 \<and> y - my = 2 \<or> x - mx = 2 \<and> y - my < 5"

lemma cursor_cells: "set cursor_cells = {(i, j). i < 5 \<and> j < 5}" "distinct cursor_cells"
proof -
  show "set cursor_cells = {(i, j). i < 5 \<and> j < 5}" by (auto simp: cursor_cells_def)
  show "distinct cursor_cells" by code_simp
qed

lemma paints_restore:
  "paints (restore_pixels ox oy saved) (\<lambda>x y. if x - ox < 5 \<and> y - oy < 5 then Some (saved ! unat (y - oy) ! unat (x - ox)) else None)"
proof -
  let ?p = "\<lambda>ij x y. if x = ox + of_nat (snd ij) \<and> y = oy + of_nat (fst ij) then Some (saved ! fst ij ! snd ij) else None"
  have "paints (fold (\<lambda>ij. fb_putpixel (ox + of_nat (snd ij)) (oy + of_nat (fst ij)) (saved ! fst ij ! snd ij)) cursor_cells)
      (\<lambda>x y. overlay (\<lambda>ij. ?p ij x y) cursor_cells)"
    by (rule paints_fold) (rule paints_putpixel)
  moreover have "overlay (\<lambda>ij. ?p ij x y) cursor_cells =
      (if x - ox < 5 \<and> y - oy < 5 then Some (saved ! unat (y - oy) ! unat (x - ox)) else None)" for x y
  proof -
    have at: "x = ox + of_nat j \<and> y = oy + of_nat i \<longleftrightarrow> unat (x - ox) = j \<and> unat (y - oy) = i" if "(i, j) \<in> set cursor_cells" for i j
      using that by (simp add: cursor_cells shift_nat)
    have mem: "x - ox < 5 \<and> y - oy < 5 \<longleftrightarrow> (unat (y - oy), unat (x - ox)) \<in> set cursor_cells"
      by (simp add: cursor_cells word_less_nat_alt) blast
    show ?thesis
    proof (cases "x - ox < 5 \<and> y - oy < 5")
      case True
      then have in_cells: "(unat (y - oy), unat (x - ox)) \<in> set cursor_cells" using mem by blast
      have "overlay (\<lambda>ij. ?p ij x y) cursor_cells = ?p (unat (y - oy), unat (x - ox)) x y"
        by (rule overlay_one [OF cursor_cells(2) in_cells]) (use at in \<open>auto split: if_splits\<close>)
      then show ?thesis using True at [OF in_cells] by simp
    next
      case False
      have "overlay (\<lambda>ij. ?p ij x y) cursor_cells = None"
        by (rule overlay_none) (use at mem False in \<open>auto split: if_splits\<close>)
      then show ?thesis using False by simp
    qed
  qed
  ultimately show ?thesis by (simp add: restore_pixels_def [abs_def] split_def)
qed

lemma only_mem_ps2:
  assumes "s'\<lparr>fb_mem := fb_mem s\<rparr> = s"
  shows "mouse_saved_valid s' = mouse_saved_valid s" "mouse_saved_pixels s' = mouse_saved_pixels s"
    "old_mouse_x s' = old_mouse_x s" "old_mouse_y s' = old_mouse_y s" "mouse_x s' = mouse_x s" "mouse_y s' = mouse_y s"
    "mouse_cycle s' = mouse_cycle s" "mouse_left_pressed s' = mouse_left_pressed s" "mouse_right_pressed s' = mouse_right_pressed s"
  using arg_cong [OF assms, of mouse_saved_valid] arg_cong [OF assms, of mouse_saved_pixels] arg_cong [OF assms, of old_mouse_x]
    arg_cong [OF assms, of old_mouse_y] arg_cong [OF assms, of mouse_x] arg_cong [OF assms, of mouse_y]
    arg_cong [OF assms, of mouse_cycle] arg_cong [OF assms, of mouse_left_pressed] arg_cong [OF assms, of mouse_right_pressed] by simp_all

lemma draw_mouse_cursor_ok:
  assumes ok: "fb_ok s" and s'_def: "s' = draw_mouse_cursor mx my s"
  shows "fb_visible x y s \<Longrightarrow> fb_getpixel x y s' = (if on_cross mx my x y then FB_COLOR 255 0 0 else clean s x y)"
    "fb_visible x y s \<Longrightarrow> clean s' x y = clean s x y"
    "fb_ok s'" "saved_ok s'" "fb_visible x y s' = fb_visible x y s" "old_mouse_x s' = mx" "old_mouse_y s' = my"
    "mouse_x s' = mouse_x s" "mouse_y s' = mouse_y s" "mouse_cycle s' = mouse_cycle s"
    "mouse_left_pressed s' = mouse_left_pressed s" "mouse_right_pressed s' = mouse_right_pressed s"
    "fb_width s' = fb_width s" "fb_height s' = fb_height s"
proof -
  define a where "a = (if mouse_saved_valid s then restore_pixels (old_mouse_x s) (old_mouse_y s) (mouse_saved_pixels s) s else s)"
  define b where "b = a\<lparr>mouse_saved_pixels := save_pixels mx my a, mouse_saved_valid := True\<rparr>"
  define c where "c = fb_draw_rect mx (my + 2) 5 1 (FB_COLOR 255 0 0) b"
  define e where "e = fb_draw_rect (mx + 2) my 1 5 (FB_COLOR 255 0 0) c"
  have s': "s' = e\<lparr>old_mouse_x := mx, old_mouse_y := my\<rparr>"
    by (simp add: s'_def draw_mouse_cursor_def Let_def a_def b_def c_def e_def)
  note restore = paintsD [OF paints_restore [where ox = "old_mouse_x s" and oy = "old_mouse_y s" and saved = "mouse_saved_pixels s"], of s]
  have ma: "a\<lparr>fb_mem := fb_mem s\<rparr> = s" using restore(1) by (simp add: a_def)
  have pa: "fb_getpixel x y a = clean s x y" if "fb_visible x y s" for x y
    using restore(2) [OF ok that] by (simp add: a_def clean_def)
  have vb: "fb_ok b" "fb_visible x y b = fb_visible x y s" "fb_getpixel x y b = fb_getpixel x y a" for x y
    using only_mem(1-2) [OF ma] only_mem(3) [OF ma, of x y] ok
    by (simp_all add: b_def fb_ok_def fb_visible_def fb_getpixel_def fb_offset_def)
  note c = paintsD [OF paints_rect [where px = mx and py = "my + 2" and w = 5 and h = 1 and c = "FB_COLOR 255 0 0"], of b, folded c_def]
  note e = paintsD [OF paints_rect [where px = "mx + 2" and py = my and w = 1 and h = 5 and c = "FB_COLOR 255 0 0"], of c, folded e_def]
  have me: "e\<lparr>fb_mem := fb_mem b\<rparr> = b"
    using c(1) arg_cong [OF e(1), of "fb_mem_update (\<lambda>_. fb_mem b)"] by simp
  have one: "z < 1 \<longleftrightarrow> z = 0" for z :: u32 by (simp add: word_less_nat_alt unat_eq_zero)
  have pe: "fb_getpixel x y e = (if on_cross mx my x y then FB_COLOR 255 0 0 else clean s x y)" if "fb_visible x y s" for x y
  proof -
    have "on_cross mx my x y \<longleftrightarrow> x - (mx + 2) < 1 \<and> y - my < 5 \<or> x - mx < 5 \<and> y - (my + 2) < 1"
      unfolding one on_cross_def by (auto simp: algebra_simps)
    then show ?thesis
      using e(2) [of x y] c(2) [of x y] vb only_mem(2) [OF c(1)] only_mem(3) [OF c(1), of x y] pa [OF that] that by auto
  qed
  have fields: "mouse_saved_valid e" "mouse_saved_pixels e = save_pixels mx my a"
    using only_mem_ps2 [OF me] by (simp_all add: b_def)
  show vis: "fb_visible x y s' = fb_visible x y s" for x y
    using only_mem(3) [OF me, of x y] vb(2) by (simp add: s' fb_visible_def)
  have ps': "fb_getpixel x y s' = fb_getpixel x y e" for x y by (simp add: s' fb_getpixel_def fb_visible_def fb_offset_def)
  show "fb_visible x y s \<Longrightarrow> fb_getpixel x y s' = (if on_cross mx my x y then FB_COLOR 255 0 0 else clean s x y)"
    unfolding ps' by (rule pe)
  show "clean s' x y = clean s x y" if v: "fb_visible x y s"
  proof (cases "x - mx < 5 \<and> y - my < 5")
    case True
    then have "unat (x - mx) < 5" "unat (y - my) < 5" by (simp_all add: word_less_nat_alt)
    then have "clean s' x y = fb_getpixel x y a" using True fields by (simp add: s' clean_def save_pixels_def)
    then show ?thesis using pa [OF v] by simp
  next
    case False
    then have "\<not> on_cross mx my x y" by (auto simp: on_cross_def)
    moreover have "clean s' x y = fb_getpixel x y s'" using False by (auto simp: clean_def s')
    ultimately show ?thesis using pe [OF v] ps' [of x y] by simp
  qed
  show "fb_ok s'" using only_mem(2) [OF me] vb(1) by (simp add: s' fb_ok_def)
  show "saved_ok s'" using fields by (simp add: s' saved_ok_def save_pixels_def)
  show "old_mouse_x s' = mx" "old_mouse_y s' = my" by (simp_all add: s')
  show "mouse_x s' = mouse_x s" "mouse_y s' = mouse_y s" "mouse_cycle s' = mouse_cycle s"
    "mouse_left_pressed s' = mouse_left_pressed s" "mouse_right_pressed s' = mouse_right_pressed s"
    "fb_width s' = fb_width s" "fb_height s' = fb_height s"
    using only_mem_ps2 [OF me] only_mem_ps2 [OF ma] only_mem(1) [OF me] only_mem(1) [OF ma] by (simp_all add: s' b_def)
qed

section \<open>Packets\<close>

definition motion :: "u8 \<Rightarrow> bool \<Rightarrow> int" where
  "motion b neg = uint b - (if neg then 256 else 0)"

definition clamp :: "int \<Rightarrow> u32 \<Rightarrow> int" where
  "clamp k w = max 0 (min (uint w - 5) k)"

lemma clamp_word:
  fixes w :: u32
  assumes w: "5 \<le> uint w" "uint w < 2 ^ 31" and k: "- (2 ^ 31) \<le> k" "k < 2 ^ 31"
  shows "(let x = word_of_int k; x = (if x <s 0 then 0 else x) in if w - 5 <s x then w - 5 else x) = word_of_int (clamp k w)"
proof -
  have m: "w - 5 = word_of_int (uint w - 5)" by simp
  have "sint (w - 5) = uint w - 5" unfolding m by (rule sint_small) (use w in simp_all)
  then have "w - 5 <s word_of_int j \<longleftrightarrow> uint w - 5 < j" if "- (2 ^ 31) \<le> j" "j < 2 ^ 31" for j
    using sint_small [OF that] by (simp add: word_sless_alt)
  from this [OF k] this [of 0] show ?thesis
    using sint_small [OF k] w by (auto simp: word_sless_alt clamp_def Let_def)
qed

lemma uint_clamp: "5 \<le> uint w \<Longrightarrow> uint (word_of_int (clamp k w) :: u32) = clamp k w"
  using unsigned_less [of w, where 'a = int] by (simp add: clamp_def uint_word_of_int)

definition on_screen :: "'a ps2_scheme \<Rightarrow> bool" where
  "on_screen s \<longleftrightarrow> fb_ok s \<and> 5 \<le> uint (fb_width s) \<and> uint (fb_width s) < 2 ^ 30 \<and> 5 \<le> uint (fb_height s) \<and> uint (fb_height s) < 2 ^ 30 \<and>
     uint (mouse_x s) \<le> uint (fb_width s) - 5 \<and> uint (mouse_y s) \<le> uint (fb_height s) - 5"

lemma rel_word: "(ucast b :: u32) - (if neg then 256 else 0) = word_of_int (motion b neg)" for b :: u8
  by (simp add: motion_def)

lemma motion_bounds: "- 256 \<le> motion b neg" "motion b neg < 256"
  using unsigned_less [of b, where 'a = int] by (auto simp: motion_def intro: order_trans [of _ 0])

lemma motion_zero: "(word_of_int (motion b neg) :: u32) = 0 \<longleftrightarrow> motion b neg = 0"
proof
  assume "(word_of_int (motion b neg) :: u32) = 0"
  then have "sint (word_of_int (motion b neg) :: u32) = 0" by simp
  then show "motion b neg = 0" using sint_small [of "motion b neg"] motion_bounds [of b neg] by simp
qed simp

lemma clamp_inside: "0 \<le> k \<Longrightarrow> k \<le> uint w - 5 \<Longrightarrow> clamp k w = k"
  by (simp add: clamp_def)

lemma clamp_bounds: "5 \<le> uint w \<Longrightarrow> 0 \<le> clamp k w \<and> clamp k w \<le> uint w - 5"
  by (simp add: clamp_def)

lemma mouse_packet_ok:
  assumes on: "on_screen s" and s': "s' = mouse_packet b0 b1 b2 s"
    and flags: "b0 AND 0xC0 = 0"
  defines "dx \<equiv> motion b1 (b0 AND 0x10 \<noteq> 0)" and "dy \<equiv> motion b2 (b0 AND 0x20 \<noteq> 0)"
  shows "uint (mouse_x s') = clamp (uint (mouse_x s) + dx) (fb_width s)" "uint (mouse_y s') = clamp (uint (mouse_y s) - dy) (fb_height s)"
    "mouse_left_pressed s' = b0 AND 1" "mouse_right_pressed s' = b0 AND 2" "mouse_cycle s' = mouse_cycle s" "on_screen s'"
    "fb_visible x y s \<Longrightarrow> clean s' x y = clean s x y"
proof -
  define a where "a = s\<lparr>mouse_left_pressed := b0 AND 1, mouse_right_pressed := b0 AND 2\<rparr>"
  define mx :: u32 where "mx = word_of_int (clamp (uint (mouse_x s) + dx) (fb_width s))"
  define my :: u32 where "my = word_of_int (clamp (uint (mouse_y s) - dy) (fb_height s))"
  define b where "b = a\<lparr>mouse_x := mx, mouse_y := my\<rparr>"
  have o: "fb_ok s" "5 \<le> uint (fb_width s)" "uint (fb_width s) < 2 ^ 30" "5 \<le> uint (fb_height s)" "uint (fb_height s) < 2 ^ 30"
    "uint (mouse_x s) \<le> uint (fb_width s) - 5" "uint (mouse_y s) \<le> uint (fb_height s) - 5" using on by (auto simp: on_screen_def)
  have d: "- 256 \<le> dx" "dx < 256" "- 256 \<le> dy" "dy < 256" by (simp_all add: dx_def dy_def motion_bounds)
  have x: "(let x = mouse_x s + word_of_int dx; x = (if x <s 0 then 0 else x) in if fb_width s - 5 <s x then fb_width s - 5 else x) = mx"
    using clamp_word [of "fb_width s" "uint (mouse_x s) + dx"] o d unsigned_greater_eq [of "mouse_x s", where 'a = int] by (simp add: mx_def)
  have y: "(let y = mouse_y s - word_of_int dy; y = (if y <s 0 then 0 else y) in if fb_height s - 5 <s y then fb_height s - 5 else y) = my"
    using clamp_word [of "fb_height s" "uint (mouse_y s) - dy"] o d unsigned_greater_eq [of "mouse_y s", where 'a = int] by (simp add: my_def)
  have run: "s' = (if dx = 0 \<and> dy = 0 then a else draw_mouse_cursor mx my b)"
    using flags x y motion_zero unfolding s'
    by (simp add: mouse_packet_def rel_word a_def b_def dx_def dy_def Let_def fb_get_width_def fb_get_height_def)
  have ub: "uint mx = clamp (uint (mouse_x s) + dx) (fb_width s)" "uint my = clamp (uint (mouse_y s) - dy) (fb_height s)"
    using uint_clamp o(2,4) by (simp_all add: mx_def my_def)
  have same: "fb_ok b" "fb_visible x y b = fb_visible x y s" "clean b x y = clean s x y" "clean a x y = clean s x y" for x y
    using o(1) by (simp_all add: b_def a_def fb_ok_def fb_visible_def clean_def fb_getpixel_def fb_offset_def)
  note cursor = draw_mouse_cursor_ok [OF same(1) refl, where mx = mx and my = my]
  have xy: "uint (mouse_x s') = uint mx \<and> uint (mouse_y s') = uint my"
  proof (cases "dx = 0 \<and> dy = 0")
    case True
    then show ?thesis using run ub o clamp_inside by (simp add: a_def)
  next
    case False
    then show ?thesis using cursor(8,9) run by (auto simp: b_def)
  qed
  then show "uint (mouse_x s') = clamp (uint (mouse_x s) + dx) (fb_width s)" "uint (mouse_y s') = clamp (uint (mouse_y s) - dy) (fb_height s)"
    using ub by simp_all
  show "mouse_left_pressed s' = b0 AND 1" "mouse_right_pressed s' = b0 AND 2" "mouse_cycle s' = mouse_cycle s"
    using run cursor(10-12) by (auto simp: a_def b_def)
  have "fb_ok s'" "fb_width s' = fb_width s" "fb_height s' = fb_height s"
    using run cursor(3,13,14) o(1) by (auto simp: a_def b_def fb_ok_def)
  then show "on_screen s'" using o(2-5) xy ub clamp_bounds by (simp add: on_screen_def)
  show "clean s' x y = clean s x y" if "fb_visible x y s"
    using run cursor(2) [where x = x and y = y] same(2-4) [of x y] that by auto
qed

text \<open>
  A packet of three bytes: a first byte without the marker bit is skipped; a packet with an overflow
  flag is dropped; otherwise the buttons are those of the packet and the cursor moves by the 9-bit
  signed motion, upwards for a positive vertical one, and stops at the edges so that the whole
  cursor stays on the screen. In every case the picture under the cursor is kept: no trail is left.
\<close>

theorem mouse_packet_correct:
  assumes "on_screen s" "mouse_cycle s = 0" "length (mouse_byte s) = 3"
    and "s' = fold mouse_handle_byte [b0, b1, b2] s"
  shows "if b0 AND 8 = 0 then mouse_handle_byte b0 s = s
    else mouse_cycle s' = 0 \<and> on_screen s' \<and> (\<forall>x y. fb_visible x y s \<longrightarrow> clean s' x y = clean s x y) \<and>
      (if b0 AND 0xC0 \<noteq> 0 then mouse_x s' = mouse_x s \<and> mouse_y s' = mouse_y s \<and> mouse_left_pressed s' = mouse_left_pressed s
       else uint (mouse_x s') = clamp (uint (mouse_x s) + motion b1 (b0 AND 0x10 \<noteq> 0)) (fb_width s) \<and>
         uint (mouse_y s') = clamp (uint (mouse_y s) - motion b2 (b0 AND 0x20 \<noteq> 0)) (fb_height s) \<and>
         mouse_left_pressed s' = b0 AND 1 \<and> mouse_right_pressed s' = b0 AND 2)"
proof (cases "b0 AND 8 = 0")
  case True
  then show ?thesis using assms(2) by (simp add: mouse_handle_byte_def)
next
  case m: False
  define t where "t = s\<lparr>mouse_byte := [b0, b1, b2], mouse_cycle := 0\<rparr>"
  obtain c0 c1 c2 where mb: "mouse_byte s = [c0, c1, c2]" using assms(3) by (auto simp: numeral_3_eq_3 length_Suc_conv)
  have s': "s' = mouse_packet b0 b1 b2 t"
    using m assms(2,4) mb by (simp add: mouse_handle_byte_def t_def Let_def)
  have t: "on_screen t" "\<And>x y. clean t x y = clean s x y" "\<And>x y. fb_visible x y t = fb_visible x y s"
    using assms(1) by (simp_all add: t_def on_screen_def fb_ok_def clean_def fb_visible_def fb_getpixel_def fb_offset_def)
  show ?thesis
  proof (cases "b0 AND 0xC0 = 0")
    case False
    then have "s' = t" using s' by (simp add: mouse_packet_def)
    then show ?thesis using False t m by (simp add: t_def)
  next
    case True
    note p = mouse_packet_ok [OF t(1) s' True]
    show ?thesis using p(1-6) p(7) t True m by (simp add: t_def)
  qed
qed

theorem mouse_packet_correct_witness:
  "uint (mouse_x (fold mouse_handle_byte [0x19, 0xF6, 30] small_ps2)) = 10 \<and> uint (mouse_y (fold mouse_handle_byte [0x19, 0xF6, 30] small_ps2)) = 0"
proof -
  have "on_screen small_ps2" by (simp add: on_screen_def fb_ok_def)
  from mouse_packet_correct [OF this _ _ refl, of "0x19" "0xF6" 30] show ?thesis
    by (simp add: clamp_def motion_def)
qed

end
