(* ===== verification/Net.thy ===== *)
theory Net
  imports Prelude
begin

text \<open>
  The network stack, \<^verbatim>\<open>net/net.c\<close>: Ethernet, ARP, IPv4 and ICMP. Frames and packets are lists of bytes;
  a field of a header is loaded and stored in the byte order of the machine and converted as the
  code converts it. The network card and the clock are a record of operations on an arbitrary
  state, which the driver provides.
\<close>

section \<open>Byte order and checksum\<close>

definition htons :: "u16 \<Rightarrow> u16" where
  "htons x = push_bit 8 x OR drop_bit 8 x"

definition htonl :: "u32 \<Rightarrow> u32" where
  "htonl x = push_bit 24 (x AND 0x000000FF) OR push_bit 8 (x AND 0x0000FF00) OR
     drop_bit 8 (x AND 0x00FF0000) OR drop_bit 24 (x AND 0xFF000000)"

definition IPV4_ADDR :: "u8 \<Rightarrow> u8 \<Rightarrow> u8 \<Rightarrow> u8 \<Rightarrow> u32" where
  "IPV4_ADDR a b c d = push_bit 24 (ucast a) OR push_bit 16 (ucast b) OR push_bit 8 (ucast c) OR ucast d"

text \<open>The internet checksum, over a list of bytes whose length is the argument \<open>length\<close> of the code.\<close>

fun checksum_sum :: "u8 list \<Rightarrow> u32 \<Rightarrow> u32" where
  "checksum_sum (a # b # bs) acc = checksum_sum bs (acc + (push_bit 8 (ucast a) OR ucast b))"
| "checksum_sum [a] acc = acc + push_bit 8 (ucast a)"
| "checksum_sum [] acc = acc"

lemma checksum_fold_step: "unat ((acc AND 0xFFFF) + drop_bit 16 acc) = unat acc mod 65536 + unat acc div 65536" for acc :: u32
proof -
  have "acc AND 0xFFFF = take_bit 16 acc" by (simp add: take_bit_eq_mask mask_eq_exp_minus_1)
  then have "unat (acc AND 0xFFFF) = unat acc mod 65536" by (simp add: take_bit_eq_mod unat_mod)
  moreover have "unat (drop_bit 16 acc) = unat acc div 65536" by (simp add: drop_bit_eq_div unat_div)
  moreover have "unat acc < 2 ^ 32" using unsigned_less [of acc, where 'a = nat] by simp
  ultimately show ?thesis by (subst unat_add_no_wrap) simp_all
qed

function checksum_fold :: "u32 \<Rightarrow> u32" where
  "checksum_fold acc =
     (if drop_bit 16 acc \<noteq> 0 then checksum_fold ((acc AND 0xFFFF) + drop_bit 16 acc) else acc)"
  by pat_completeness auto

termination
proof (relation "measure unat")
  fix acc :: u32 assume "drop_bit 16 acc \<noteq> 0"
  then have "unat (drop_bit 16 acc) \<noteq> 0" by (simp add: unat_eq_zero)
  then have "unat acc div 65536 \<noteq> 0" by (simp add: drop_bit_eq_div unat_div)
  then show "((acc AND 0xFFFF) + drop_bit 16 acc, acc) \<in> measure unat"
  proof -
    assume q: "unat acc div 65536 \<noteq> 0"
    have "unat acc = unat acc mod 65536 + 65536 * (unat acc div 65536)" by simp
    then have "unat acc mod 65536 + unat acc div 65536 < unat acc" using q by linarith
    then show ?thesis by (simp add: checksum_fold_step)
  qed
qed simp

declare checksum_fold.simps [simp del]

definition checksum16 :: "u8 list \<Rightarrow> u16" where
  "checksum16 bs = ucast (NOT (checksum_fold (checksum_sum bs 0)))"

section \<open>State\<close>

record arp_entry =
  arp_ip :: u32
  arp_mac :: "u8 list"
  arp_valid :: bool

record net =
  stack_ready :: bool
  local_ip :: u32
  netmask :: u32
  gateway_ip :: u32
  arp_cache :: "arp_entry list"
  rx_count :: u32
  tx_count :: u32
  ping_wait_seq :: u16
  ping_wait_active :: bool
  ping_got_reply :: bool
  rx_frame :: "u8 list"

record 'd nic =
  nic_present :: "'d \<Rightarrow> bool"
  nic_mac :: "'d \<Rightarrow> u8 list"
  nic_send :: "u8 list \<Rightarrow> 'd \<Rightarrow> bool \<times> 'd"
  nic_receive :: "nat \<Rightarrow> 'd \<Rightarrow> u8 list \<times> 'd"
  nic_ticks :: "'d \<Rightarrow> u64 \<times> 'd"

abbreviation (input) ETH_MTU :: nat where "ETH_MTU \<equiv> 1500"
abbreviation (input) ETH_FRAME_MAX :: nat where "ETH_FRAME_MAX \<equiv> 1518"
abbreviation (input) ETH_TYPE_IPV4 :: u16 where "ETH_TYPE_IPV4 \<equiv> 0x0800"
abbreviation (input) ETH_TYPE_ARP :: u16 where "ETH_TYPE_ARP \<equiv> 0x0806"
abbreviation (input) ARP_REQUEST :: u16 where "ARP_REQUEST \<equiv> 1"
abbreviation (input) ARP_REPLY :: u16 where "ARP_REPLY \<equiv> 2"
abbreviation (input) IP_PROTO_ICMP :: u8 where "IP_PROTO_ICMP \<equiv> 1"
abbreviation (input) ICMP_ECHO_REPLY :: u8 where "ICMP_ECHO_REPLY \<equiv> 0"
abbreviation (input) ICMP_ECHO_REQUEST :: u8 where "ICMP_ECHO_REQUEST \<equiv> 8"
abbreviation (input) ARP_CACHE_SIZE :: nat where "ARP_CACHE_SIZE \<equiv> 8"

definition broadcast_mac :: "u8 list" where "broadcast_mac = replicate 6 0xFF"

definition net_ready :: "net \<Rightarrow> bool" where "net_ready s = stack_ready s"
definition net_local_ip :: "net \<Rightarrow> u32" where "net_local_ip s = local_ip s"
definition net_gateway_ip :: "net \<Rightarrow> u32" where "net_gateway_ip s = gateway_ip s"
definition net_rx_count :: "net \<Rightarrow> u32" where "net_rx_count s = rx_count s"
definition net_tx_count :: "net \<Rightarrow> u32" where "net_tx_count s = tx_count s"

definition net_set_ip :: "u32 \<Rightarrow> u32 \<Rightarrow> u32 \<Rightarrow> net \<Rightarrow> net" where
  "net_set_ip ip nm gw s = s\<lparr>local_ip := ip, netmask := nm, gateway_ip := gw\<rparr>"

section \<open>The ARP cache\<close>

fun arp_find :: "(arp_entry \<Rightarrow> bool) \<Rightarrow> nat \<Rightarrow> arp_entry list \<Rightarrow> nat option" where
  "arp_find P i [] = None"
| "arp_find P i (e # es) = (if P e then Some i else arp_find P (i + 1) es)"

definition arp_cache_put :: "u32 \<Rightarrow> u8 list \<Rightarrow> arp_entry list \<Rightarrow> arp_entry list" where
  "arp_cache_put ip mac c =
     (case arp_find (\<lambda>e. arp_valid e \<and> arp_ip e = ip) 0 c of
        Some i \<Rightarrow> c[i := (c ! i)\<lparr>arp_mac := mac\<rparr>]
      | None \<Rightarrow>
          case arp_find (\<lambda>e. \<not> arp_valid e) 0 c of
            Some i \<Rightarrow> c[i := \<lparr>arp_ip = ip, arp_mac = mac, arp_valid = True\<rparr>]
          | None \<Rightarrow> c[0 := (c ! 0)\<lparr>arp_ip := ip, arp_mac := mac\<rparr>])"

definition arp_cache_get :: "u32 \<Rightarrow> arp_entry list \<Rightarrow> u8 list option" where
  "arp_cache_get ip c = map_option (\<lambda>i. arp_mac (c ! i)) (arp_find (\<lambda>e. arp_valid e \<and> arp_ip e = ip) 0 c)"

section \<open>Sending\<close>

definition send_frame :: "'d nic \<Rightarrow> u8 list \<Rightarrow> u16 \<Rightarrow> u8 list \<Rightarrow> net \<times> 'd \<Rightarrow> bool \<times> net \<times> 'd" where
  "send_frame nic dst_mac ether_type payload w =
     (if length payload + 14 > ETH_FRAME_MAX then (False, w) else
      let (s, d) = w;
          frame = dst_mac @ nic_mac nic d @ bytes16 (htons ether_type) @ payload;
          frame = frame @ replicate (60 - length frame) 0;
          (ok, d) = nic_send nic frame d
      in (ok, if ok then s\<lparr>tx_count := tx_count s + 1\<rparr> else s, d))"

definition arp_packet :: "u16 \<Rightarrow> u8 list \<Rightarrow> u32 \<Rightarrow> u8 list \<Rightarrow> u32 \<Rightarrow> u8 list" where
  "arp_packet opcode sender_mac sender_ip target_mac target_ip =
     bytes16 (htons 1) @ bytes16 (htons ETH_TYPE_IPV4) @ [6, 4] @ bytes16 (htons opcode) @
     sender_mac @ bytes32 (htonl sender_ip) @ target_mac @ bytes32 (htonl target_ip)"

definition send_arp :: "'d nic \<Rightarrow> u16 \<Rightarrow> u8 list \<Rightarrow> u32 \<Rightarrow> net \<times> 'd \<Rightarrow> net \<times> 'd" where
  "send_arp nic opcode target_mac target_ip w =
     (let (s, d) = w; arp = arp_packet opcode (nic_mac nic d) (local_ip s) target_mac target_ip
      in snd (send_frame nic (if opcode = ARP_REQUEST then broadcast_mac else target_mac) ETH_TYPE_ARP arp w))"

definition ipv4_header :: "u16 \<Rightarrow> u8 \<Rightarrow> u16 \<Rightarrow> u32 \<Rightarrow> u32 \<Rightarrow> u8 list" where
  "ipv4_header total_length protocol checksum src_ip dst_ip =
     [0x45, 0] @ bytes16 (htons total_length) @ bytes16 (htons 0) @ bytes16 (htons 0x4000) @ [64, protocol] @
     bytes16 checksum @ bytes32 (htonl src_ip) @ bytes32 (htonl dst_ip)"

text \<open>
  The resolution of the next hop may wait for frames and so call back into the handlers: it is an
  argument here and bound below.
\<close>

type_synonym 'd resolver = "u32 \<Rightarrow> net \<times> 'd \<Rightarrow> (u8 list option \<times> net \<times> 'd) option"

definition send_ipv4 :: "'d nic \<Rightarrow> 'd resolver \<Rightarrow> u32 \<Rightarrow> u8 \<Rightarrow> u8 list \<Rightarrow> net \<times> 'd \<Rightarrow> (bool \<times> net \<times> 'd) option" where
  "send_ipv4 nic resolve dst_ip protocol payload w =
     (if 20 + length payload > ETH_MTU then Some (False, w) else
      let s = fst w;
          total_length = of_nat (20 + length payload);
          checksum = htons (checksum16 (ipv4_header total_length protocol 0 (local_ip s) dst_ip));
          packet = ipv4_header total_length protocol checksum (local_ip s) dst_ip @ payload;
          next_hop = (if dst_ip AND netmask s = local_ip s AND netmask s then dst_ip else gateway_ip s)
      in Option.bind (resolve next_hop w) (\<lambda>(mac, w).
         case mac of None \<Rightarrow> Some (False, w)
         | Some dst_mac \<Rightarrow> Some (send_frame nic dst_mac ETH_TYPE_IPV4 packet w)))"

section \<open>Receiving\<close>

definition handle_arp :: "'d nic \<Rightarrow> u8 list \<Rightarrow> u16 \<Rightarrow> net \<times> 'd \<Rightarrow> net \<times> 'd" where
  "handle_arp nic payload len w =
     (if unat len < 28 then w else
      let (s, d) = w;
          sender_mac = take 6 (drop 8 payload);
          sender_ip = htonl (load32 payload 14);
          target_ip = htonl (load32 payload 24);
          s = s\<lparr>arp_cache := arp_cache_put sender_ip sender_mac (arp_cache s)\<rparr>
      in if htons (load16 payload 6) = ARP_REQUEST \<and> target_ip = local_ip s
         then send_arp nic ARP_REPLY sender_mac sender_ip (s, d) else (s, d))"

definition echo_reply :: "u8 list \<Rightarrow> u8 list" where
  "echo_reply payload =
     (let reply = payload[0 := ICMP_ECHO_REPLY, 2 := 0, 3 := 0];
          c = bytes16 (htons (checksum16 reply))
      in reply[2 := c ! 0, 3 := c ! 1])"

definition handle_icmp :: "'d nic \<Rightarrow> 'd resolver \<Rightarrow> u32 \<Rightarrow> u8 list \<Rightarrow> u16 \<Rightarrow> net \<times> 'd \<Rightarrow> (net \<times> 'd) option" where
  "handle_icmp nic resolve src_ip payload len w =
     (if unat len < 8 then Some w
      else if payload ! 0 = ICMP_ECHO_REPLY then
        let (s, d) = w in
        Some (if ping_wait_active s \<and> htons (load16 payload 6) = ping_wait_seq s then s\<lparr>ping_got_reply := True\<rparr> else s, d)
      else if payload ! 0 = ICMP_ECHO_REQUEST then
        if unat len > ETH_MTU then Some w
        else map_option snd (send_ipv4 nic resolve src_ip IP_PROTO_ICMP (echo_reply (take (unat len) payload)) w)
      else Some w)"

definition handle_ipv4 :: "'d nic \<Rightarrow> 'd resolver \<Rightarrow> u8 list \<Rightarrow> u16 \<Rightarrow> net \<times> 'd \<Rightarrow> (net \<times> 'd) option" where
  "handle_ipv4 nic resolve payload len w =
     (if unat len < 20 then Some w
      else if drop_bit 4 (payload ! 0) \<noteq> 4 then Some w
      else
        let header_len = (ucast (payload ! 0 AND 0x0F) * 4 :: u16) in
        if unat header_len < 20 \<or> header_len > len then Some w
        else if htonl (load32 payload 16) \<noteq> local_ip (fst w) then Some w
        else
          let total_len = htons (load16 payload 2);
              total_len = (if total_len > len then len else total_len);
              inner = drop (unat header_len) payload;
              inner_len = total_len - header_len
          in if payload ! 9 = IP_PROTO_ICMP then handle_icmp nic resolve (htonl (load32 payload 12)) inner inner_len w
             else Some w)"

text \<open>One received frame of \<open>len\<close> bytes, in the static buffer.\<close>

definition handle_frame :: "'d nic \<Rightarrow> 'd resolver \<Rightarrow> u16 \<Rightarrow> net \<times> 'd \<Rightarrow> (net \<times> 'd) option" where
  "handle_frame nic resolve len w =
     (if unat len < 14 then Some w else
      let frame = rx_frame (fst w); payload = drop 14 frame; payload_len = len - 14; type = htons (load16 frame 12) in
      if type = ETH_TYPE_ARP then Some (handle_arp nic payload payload_len w)
      else if type = ETH_TYPE_IPV4 then handle_ipv4 nic resolve payload payload_len w
      else Some w)"

definition receive_frame :: "'d nic \<Rightarrow> net \<times> 'd \<Rightarrow> u16 \<times> net \<times> 'd" where
  "receive_frame nic w =
     (let (s, d) = w; (frame, d) = nic_receive nic (length (rx_frame s)) d
      in (of_nat (length frame), s\<lparr>rx_frame := frame @ drop (length frame) (rx_frame s)\<rparr>, d))"

partial_function (option) net_poll_loop :: "'d nic \<Rightarrow> 'd resolver \<Rightarrow> net \<times> 'd \<Rightarrow> (net \<times> 'd) option" where
  "net_poll_loop nic resolve w =
     (let (len, s, d) = receive_frame nic w in
      if len > 0 then
        Option.bind (handle_frame nic resolve len (s\<lparr>rx_count := rx_count s + 1\<rparr>, d)) (net_poll_loop nic resolve)
      else Some (s, d))"

definition net_poll :: "'d nic \<Rightarrow> 'd resolver \<Rightarrow> net \<times> 'd \<Rightarrow> (net \<times> 'd) option" where
  "net_poll nic resolve w = (if \<not> stack_ready (fst w) then Some w else net_poll_loop nic resolve w)"

section \<open>Resolution and echo\<close>

partial_function (option) arp_wait ::
  "'d nic \<Rightarrow> (net \<times> 'd \<Rightarrow> (net \<times> 'd) option) \<Rightarrow> u32 \<Rightarrow> u64 \<Rightarrow> net \<times> 'd \<Rightarrow> (u8 list option \<times> net \<times> 'd) option" where
  "arp_wait nic poll ip deadline w =
     (let (s, d) = w; (now, d) = nic_ticks nic d in
      if now < deadline then
        Option.bind (poll (s, d)) (\<lambda>w.
          case arp_cache_get ip (arp_cache (fst w)) of
            Some mac \<Rightarrow> Some (Some mac, w)
          | None \<Rightarrow> arp_wait nic poll ip deadline w)
      else Some (None, s, d))"

primrec arp_attempts ::
  "nat \<Rightarrow> 'd nic \<Rightarrow> (net \<times> 'd \<Rightarrow> (net \<times> 'd) option) \<Rightarrow> u32 \<Rightarrow> net \<times> 'd \<Rightarrow> (u8 list option \<times> net \<times> 'd) option" where
  "arp_attempts 0 nic poll ip w = Some (None, w)"
| "arp_attempts (Suc n) nic poll ip w =
     (let (s, d) = send_arp nic ARP_REQUEST broadcast_mac ip w; (now, d) = nic_ticks nic d in
      Option.bind (arp_wait nic poll ip (now + 20) (s, d)) (\<lambda>(mac, w).
        case mac of Some m \<Rightarrow> Some (Some m, w) | None \<Rightarrow> arp_attempts n nic poll ip w))"

text \<open>
  Resolving polls for frames, and a received echo request may have to resolve in turn: the first
  argument bounds this nesting, which the kernel stack bounds on the machine.
\<close>

fun net_arp_resolve :: "nat \<Rightarrow> 'd nic \<Rightarrow> 'd resolver" where
  "net_arp_resolve depth nic ip w =
     (case arp_cache_get ip (arp_cache (fst w)) of
        Some mac \<Rightarrow> Some (Some mac, w)
      | None \<Rightarrow>
          case depth of 0 \<Rightarrow> None
          | Suc n \<Rightarrow> arp_attempts 3 nic (net_poll nic (net_arp_resolve n nic)) ip w)"

declare net_arp_resolve.simps [simp del]

definition ping_packet :: "u16 \<Rightarrow> u8 list" where
  "ping_packet sequence =
     (let header = (\<lambda>c. [ICMP_ECHO_REQUEST, 0] @ c @ bytes16 (htons 0x4756) @ bytes16 (htons sequence));
          body = map (\<lambda>i. 0x61 + of_nat (i mod 26)) [8..<64]
      in header (bytes16 (htons (checksum16 (header [0, 0] @ body)))) @ body)"

partial_function (option) ping_wait :: "'d nic \<Rightarrow> 'd resolver \<Rightarrow> u64 \<Rightarrow> u64 \<Rightarrow> net \<times> 'd \<Rightarrow> (u32 \<times> net \<times> 'd) option" where
  "ping_wait nic resolve start deadline w =
     (let (s, d) = w; (now, d) = nic_ticks nic d in
      if now < deadline then
        Option.bind (net_poll nic resolve (s, d)) (\<lambda>(s, d).
          if ping_got_reply s then
            let s = s\<lparr>ping_wait_active := False\<rparr>; (now, d) = nic_ticks nic d in Some (ucast (now - start), s, d)
          else ping_wait nic resolve start deadline (s, d))
      else Some (-1, s\<lparr>ping_wait_active := False\<rparr>, d))"

definition net_ping :: "nat \<Rightarrow> 'd nic \<Rightarrow> u32 \<Rightarrow> u16 \<Rightarrow> net \<times> 'd \<Rightarrow> (u32 \<times> net \<times> 'd) option" where
  "net_ping depth nic ip sequence w =
     (let (s, d) = w in
      if \<not> stack_ready s then Some (-1, s, d) else
      let s = s\<lparr>ping_wait_seq := sequence, ping_got_reply := False, ping_wait_active := True\<rparr>;
          (start, d) = nic_ticks nic d in
      Option.bind (send_ipv4 nic (net_arp_resolve depth nic) ip IP_PROTO_ICMP (ping_packet sequence) (s, d)) (\<lambda>(ok, s, d).
      if \<not> ok then Some (-1, s\<lparr>ping_wait_active := False\<rparr>, d)
      else ping_wait nic (net_arp_resolve depth nic) start (start + 100) (s, d)))"

definition zero_arp_entry :: arp_entry where
  "zero_arp_entry = \<lparr>arp_ip = 0, arp_mac = replicate 6 0, arp_valid = False\<rparr>"

definition net_init :: "'d nic \<Rightarrow> net \<times> 'd \<Rightarrow> net \<times> 'd" where
  "net_init nic w =
     (let (s, d) = w; s = s\<lparr>arp_cache := replicate ARP_CACHE_SIZE zero_arp_entry\<rparr>
      in (s\<lparr>stack_ready := nic_present nic d\<rparr>, d))"

section \<open>Byte order\<close>

lemma bytes16_htons: "bytes16 (htons x) = [ucast (drop_bit 8 x), ucast x]"
proof -
  have "ucast (htons x) = (ucast (drop_bit 8 x) :: u8)" "ucast (drop_bit 8 (htons x)) = (ucast x :: u8)"
    by (rule bit_eqI; auto simp: htons_def bit_simps)+
  then show ?thesis by (simp add: bytes16_def)
qed

lemma htons_htons [simp]: "htons (htons x) = x"
  by (rule bit_eqI) (auto simp: htons_def bit_simps)

lemma bit_htonl:
  assumes "n < 32"
  shows "bit (htonl x) n = bit x (if n < 8 then n + 24 else if n < 16 then n + 8 else if n < 24 then n - 8 else n - 24)"
proof -
  have m: "(0xFF :: u32) = mask 8" "(0xFF00 :: u32) = push_bit 8 (mask 8)" "(0xFF0000 :: u32) = push_bit 16 (mask 8)"
    "(0xFF000000 :: u32) = push_bit 24 (mask 8)"
    by (simp_all add: mask_eq_exp_minus_1 push_bit_eq_mult)
  consider "n < 8" | "8 \<le> n" "n < 16" | "16 \<le> n" "n < 24" | "24 \<le> n" by linarith
  then show ?thesis using assms unfolding htonl_def m by cases (auto simp: bit_simps add.commute)
qed

lemma htonl_htonl [simp]: "htonl (htonl x) = x"
proof (rule bit_eqI)
  fix n assume "possible_bit TYPE(u32) n"
  then have "n < 32" by (simp add: possible_bit_word)
  consider "n < 8" | "8 \<le> n" "n < 16" | "16 \<le> n" "n < 24" | "24 \<le> n" by linarith
  then show "bit (htonl (htonl x)) n = bit x n"
  proof cases
    case 3
    then obtain m where "n = m + 8" "8 \<le> m" "m < 16" using le_Suc_ex [of 8 n] by auto
    then show ?thesis by (simp add: bit_htonl)
  next
    case 4
    then obtain m where "n = m + 24" "m < 8" using le_Suc_ex [of 24 n] \<open>n < 32\<close> by auto
    then show ?thesis by (simp add: bit_htonl)
  qed (use \<open>n < 32\<close> in \<open>simp_all add: bit_htonl\<close>)
qed

lemma ucast_htonl:
  "ucast (htonl x) = (ucast (drop_bit 24 x) :: u8)" "ucast (drop_bit 8 (htonl x)) = (ucast (drop_bit 16 x) :: u8)"
  "ucast (drop_bit 16 (htonl x)) = (ucast (drop_bit 8 x) :: u8)" "ucast (drop_bit 24 (htonl x)) = (ucast x :: u8)"
proof -
  have byte: "ucast w = (ucast v :: u8)" if "\<And>n. n < 8 \<Longrightarrow> bit w n = bit v n" for w v :: u32
    using that by (intro bit_eqI) (auto simp: bit_simps)
  show "ucast (htonl x) = (ucast (drop_bit 24 x) :: u8)" "ucast (drop_bit 8 (htonl x)) = (ucast (drop_bit 16 x) :: u8)"
    "ucast (drop_bit 16 (htonl x)) = (ucast (drop_bit 8 x) :: u8)" "ucast (drop_bit 24 (htonl x)) = (ucast x :: u8)"
    by (rule byte, simp add: bit_drop_bit_eq bit_htonl add.commute)+
qed

lemma bytes32_htonl: "bytes32 (htonl x) = [ucast (drop_bit 24 x), ucast (drop_bit 16 x), ucast (drop_bit 8 x), ucast x]"
  by (simp add: bytes32_def ucast_htonl)

section \<open>The checksum\<close>

fun be_sum :: "u8 list \<Rightarrow> nat" where
  "be_sum (a # b # bs) = 256 * unat a + unat b + be_sum bs"
| "be_sum [a] = 256 * unat a"
| "be_sum [] = 0"

lemma be_pair: "unat (push_bit 8 (ucast a) OR ucast b :: u32) = 256 * unat a + unat b" for a b :: u8
proof -
  have "(push_bit 8 (ucast a) OR ucast b :: u32) = push_bit 8 (ucast a) + ucast b"
    by (rule disjunctive_add [symmetric]) (auto simp: bit_simps dest: bit_imp_le_length)
  moreover have "unat (ucast c :: u32) = unat c" for c :: u8
    using unsigned_less [of c, where 'a = nat] by (simp add: unsigned_ucast_eq take_bit_nat_eq_self)
  moreover from this [of a] have "unat (push_bit 8 (ucast a) :: u32) = 256 * unat a"
    using unsigned_less [of a, where 'a = nat] by (simp add: push_bit_eq_mult unat_word_ariths)
  ultimately show ?thesis
    using unsigned_less [of a, where 'a = nat] unsigned_less [of b, where 'a = nat] by (simp add: unat_add_no_wrap)
qed

lemma be_sum_le: "be_sum bs \<le> 65535 * length bs"
proof (induction bs rule: be_sum.induct)
  case (1 a b bs)
  then show ?case using unsigned_less [of a, where 'a = nat] unsigned_less [of b, where 'a = nat] by simp
next
  case (2 a)
  then show ?case using unsigned_less [of a, where 'a = nat] by simp
qed simp

lemma checksum_sum_nat:
  assumes "unat acc + be_sum bs < 2 ^ 32"
  shows "unat (checksum_sum bs acc) = unat acc + be_sum bs"
  using assms
proof (induction bs acc rule: checksum_sum.induct)
  case (1 a b bs acc)
  then show ?case by (simp add: be_pair unat_add_no_wrap)
next
  case (2 a acc)
  have "unat (push_bit 8 (ucast a) :: u32) = 256 * unat a"
    using be_pair [of a 0] by simp
  with 2 show ?case by (simp add: unat_add_no_wrap)
qed simp

lemma checksum_fold_nat:
  assumes "0 < unat acc"
  shows "0 < unat (checksum_fold acc) \<and> unat (checksum_fold acc) \<le> 65535 \<and> unat (checksum_fold acc) mod 65535 = unat acc mod 65535"
  using assms
proof (induction acc rule: checksum_fold.induct)
  case (1 acc)
  let ?n = "unat acc" and ?next = "(acc AND 0xFFFF) + drop_bit 16 acc"
  have eq: "?n = ?n mod 65536 + 65536 * (?n div 65536)" by simp
  have "(r + 65536 * q) mod 65535 = (r + q) mod 65535" for r q :: nat
  proof -
    have "r + 65536 * q = (r + q) + 65535 * q" by simp
    then show ?thesis by (simp only: mod_mult_self2)
  qed
  from this [of "?n mod 65536" "?n div 65536"] eq have next_mod: "unat ?next mod 65535 = ?n mod 65535"
    unfolding checksum_fold_step by metis
  show ?case
  proof (cases "drop_bit 16 acc \<noteq> 0")
    case True
    have "0 < unat ?next" using 1(2) eq unfolding checksum_fold_step by linarith
    then show ?thesis using 1(1) [OF True] next_mod True by (subst (1 2 3) checksum_fold.simps) simp
  next
    case False
    then have "unat (drop_bit 16 acc) = 0" by simp
    then have "?n div 65536 = 0" by (simp add: drop_bit_eq_div unat_div)
    then have "?n \<le> 65535" by (simp add: div_eq_0_iff)
    then show ?thesis using 1(2) False by (subst (1 2 3) checksum_fold.simps) simp
  qed
qed

lemma checksum16_nat:
  assumes "length bs \<le> 1518"
  obtains f where "f \<le> 65535" "f = 0 \<longleftrightarrow> be_sum bs = 0" "f mod 65535 = be_sum bs mod 65535" "unat (checksum16 bs) = 65535 - f"
proof -
  have "be_sum bs < 2 ^ 32" using be_sum_le [of bs] assms(1) by simp
  then have s: "unat (checksum_sum bs 0) = be_sum bs" using checksum_sum_nat [of 0 bs] by simp
  define f where "f = unat (checksum_fold (checksum_sum bs 0))"
  have f: "f \<le> 65535 \<and> (f = 0 \<longleftrightarrow> be_sum bs = 0) \<and> f mod 65535 = be_sum bs mod 65535"
  proof (cases "be_sum bs = 0")
    case True
    then have "checksum_sum bs 0 = 0" using s by (simp add: unat_eq_zero)
    then show ?thesis using True by (simp add: f_def checksum_fold.simps)
  next
    case False
    then show ?thesis using checksum_fold_nat [of "checksum_sum bs 0"] s by (simp add: f_def)
  qed
  have "checksum_fold (checksum_sum bs 0) = of_nat f" by (simp add: f_def)
  then have "checksum16 bs = NOT (of_nat f)" unfolding checksum16_def by (rule_tac bit_eqI) (simp add: bit_simps)
  moreover have "unat (NOT (of_nat f :: u16)) = 65535 - f"
  proof -
    have "NOT (of_nat f :: u16) = - 1 - of_nat f" by (simp add: not_eq_complement)
    moreover have "unat (of_nat f :: u16) = f" using f by (simp add: unat_of_nat)
    moreover have "(of_nat f :: u16) \<le> - 1" by simp
    moreover have "unat (- 1 :: u16) = 65535" by (simp add: unsigned_minus_1_eq_mask mask_eq_exp_minus_1)
    ultimately show ?thesis using unat_sub_no_wrap [of "of_nat f" "- 1 :: u16"] by simp
  qed
  ultimately show ?thesis using that [of f] f by simp
qed

text \<open>A block of bytes with its checksum stored in it has the checksum zero: the receiver's test.\<close>

lemma be_sum_append: "even (length xs) \<Longrightarrow> be_sum (xs @ ys) = be_sum xs + be_sum ys"
  by (induction xs rule: be_sum.induct) auto

lemma be_sum_bytes16: "be_sum (bytes16 (htons c) @ ys) = unat c + be_sum ys"
proof -
  have "c = push_bit 8 (ucast (ucast (drop_bit 8 c) :: u8)) OR ucast (ucast c :: u8)"
    by (rule bit_eqI) (auto simp: bit_simps)
  moreover have "unat (push_bit 8 (ucast (a :: u8)) OR ucast (b :: u8) :: u16) = 256 * unat a + unat b" for a b
  proof -
    have "(ucast (push_bit 8 (ucast a) OR ucast b :: u16) :: u32) = push_bit 8 (ucast a) OR ucast b"
      by (rule bit_eqI) (auto simp: bit_simps dest: bit_imp_le_length)
    moreover have "unat (ucast v :: u32) = unat v" for v :: u16
      using unsigned_less [of v, where 'a = nat] by (simp add: unsigned_ucast_eq take_bit_nat_eq_self)
    ultimately show ?thesis by (metis be_pair)
  qed
  ultimately have "unat c = 256 * unat (ucast (drop_bit 8 c) :: u8) + unat (ucast c :: u8)" by metis
  then show ?thesis by (simp add: bytes16_htons)
qed

lemma stored_checksum:
  assumes "even (length xs)" "length (xs @ [0, 0] @ ys) \<le> 1518"
  shows "checksum16 (xs @ bytes16 (htons (checksum16 (xs @ [0, 0] @ ys))) @ ys) = 0"
proof -
  let ?z = "xs @ [0, 0] @ ys"
  let ?s = "xs @ bytes16 (htons (checksum16 ?z)) @ ys"
  obtain f where f: "f \<le> 65535" "f = 0 \<longleftrightarrow> be_sum ?z = 0" "f mod 65535 = be_sum ?z mod 65535"
    "unat (checksum16 ?z) = 65535 - f" using checksum16_nat [OF assms(2)] by blast
  have sum_s: "be_sum ?s = be_sum ?z + (65535 - f)"
    using f(4) by (simp add: be_sum_append [OF assms(1)] be_sum_bytes16)
  have "length ?s \<le> 1518" using assms(2) by (simp add: bytes16_def)
  then obtain g where g: "g \<le> 65535" "g = 0 \<longleftrightarrow> be_sum ?s = 0" "g mod 65535 = be_sum ?s mod 65535"
    "unat (checksum16 ?s) = 65535 - g" using checksum16_nat by blast
  have "(be_sum ?z + (65535 - f)) mod 65535 = (f + (65535 - f)) mod 65535"
    by (rule mod_add_cong) (simp_all add: f(3))
  then have "g mod 65535 = 0" using sum_s g(3) f(1) by simp
  moreover have "g \<noteq> 0" using g(2) sum_s f(1,2) by auto
  ultimately have "g = 65535" using g(1) by (metis le_neq_implies_less mod_less)
  then have "unat (checksum16 ?s) = 0" using g(4) by simp
  then show ?thesis by (simp add: unat_eq_zero)
qed

lemma length_ipv4_header [simp]: "length (ipv4_header t p c a b) = 20"
  by (simp add: ipv4_header_def)

lemma ipv4_header_checksum: "checksum16 (ipv4_header t p (htons (checksum16 (ipv4_header t p 0 a b))) a b) = 0"
proof -
  let ?xs = "[0x45, 0] @ bytes16 (htons t) @ bytes16 (htons 0) @ bytes16 (htons 0x4000) @ [64, p]"
    and ?ys = "bytes32 (htonl a) @ bytes32 (htonl b)"
  have split: "ipv4_header t p c a b = ?xs @ bytes16 c @ ?ys" for c by (simp add: ipv4_header_def)
  show ?thesis using stored_checksum [of ?xs ?ys] unfolding split bytes16_0 by simp
qed

lemma echo_reply_eq:
  "echo_reply (t # code # c1 # c2 # r) = [0, code] @ bytes16 (htons (checksum16 ([0, code] @ [0, 0] @ r))) @ r"
  by (simp add: echo_reply_def bytes16_def Let_def)

lemma echo_reply_correct:
  assumes "8 \<le> length p" "length p \<le> 1500"
  shows "length (echo_reply p) = length p" "echo_reply p ! 0 = 0" "echo_reply p ! 1 = p ! 1" "drop 4 (echo_reply p) = drop 4 p"
    "checksum16 (echo_reply p) = 0"
proof -
  obtain t code c1 c2 r where p: "p = t # code # c1 # c2 # r"
    using assms(1) by (auto simp: Suc_le_length_iff eval_nat_numeral)
  show "length (echo_reply p) = length p" "echo_reply p ! 0 = 0" "echo_reply p ! 1 = p ! 1" "drop 4 (echo_reply p) = drop 4 p"
    by (simp_all add: p echo_reply_eq nth_append)
  show "checksum16 (echo_reply p) = 0"
    unfolding p echo_reply_eq by (rule stored_checksum) (use assms in \<open>simp_all add: p\<close>)
qed

lemma ping_packet_correct:
  "length (ping_packet q) = 64" "ping_packet q ! 0 = 8" "checksum16 (ping_packet q) = 0"
  "take 2 (drop 6 (ping_packet q)) = bytes16 (htons q)"
proof -
  let ?ys = "bytes16 (htons 0x4756) @ bytes16 (htons q) @ map (\<lambda>i. 0x61 + of_nat (i mod 26)) [8..<64]"
  have p: "ping_packet q = [8, 0] @ bytes16 (htons (checksum16 ([8, 0] @ [0, 0] @ ?ys))) @ ?ys"
    by (simp add: ping_packet_def Let_def del: upt_conv_Cons_Cons map_append)
  show "length (ping_packet q) = 64" "ping_packet q ! 0 = 8" by (simp_all add: p)
  show "checksum16 (ping_packet q) = 0" unfolding p by (rule stored_checksum) simp_all
  show "take 2 (drop 6 (ping_packet q)) = bytes16 (htons q)" by (simp add: p)
qed

section \<open>Fields in network order\<close>

definition be16 :: "u8 list \<Rightarrow> nat \<Rightarrow> u16" where
  "be16 bs i = push_bit 8 (ucast (bs ! i)) OR ucast (bs ! (i + 1))"

definition be32 :: "u8 list \<Rightarrow> nat \<Rightarrow> u32" where
  "be32 bs i = IPV4_ADDR (bs ! i) (bs ! (i + 1)) (bs ! (i + 2)) (bs ! (i + 3))"

lemma htons_load16: "htons (load16 bs i) = be16 bs i"
  unfolding htons_def load16_def be16_def by (rule bit_eqI) (auto simp: bit_simps dest: bit_imp_le_length)

lemma htonl_load32: "htonl (load32 bs i) = be32 bs i"
proof (rule bit_eqI)
  fix n assume "possible_bit TYPE(u32) n"
  then have "n < 32" by (simp add: possible_bit_word)
  consider "n < 8" | "8 \<le> n" "n < 16" | "16 \<le> n" "n < 24" | "24 \<le> n" by linarith
  then show "bit (htonl (load32 bs i)) n = bit (be32 bs i) n"
    using \<open>n < 32\<close>
    by cases (auto simp: bit_htonl load32_def be32_def IPV4_ADDR_def bit_simps dest: bit_imp_le_length)
qed

section \<open>The ARP cache is a map of at most eight addresses\<close>

definition arp_ok :: "arp_entry list \<Rightarrow> bool" where
  "arp_ok c = (length c = ARP_CACHE_SIZE \<and>
     (\<forall>i < length c. \<forall>j < length c. arp_valid (c ! i) \<and> arp_valid (c ! j) \<and> arp_ip (c ! i) = arp_ip (c ! j) \<longrightarrow> i = j))"

lemma arp_find_Some: "arp_find P i c = Some j \<Longrightarrow> i \<le> j \<and> j < i + length c \<and> P (c ! (j - i)) \<and> (\<forall>k < j - i. \<not> P (c ! k))"
proof (induction c arbitrary: i)
  case (Cons e es)
  show ?case
  proof (cases "P e")
    case False
    with Cons.prems have IH: "Suc i \<le> j \<and> j < Suc i + length es \<and> P (es ! (j - Suc i)) \<and> (\<forall>k < j - Suc i. \<not> P (es ! k))"
      using Cons.IH [of "Suc i"] by simp
    then obtain m where j: "j = Suc i + m" using le_Suc_ex by blast
    have "\<not> P ((e # es) ! k)" if "k < Suc m" for k using that IH False by (cases k) (auto simp: j)
    then show ?thesis using IH by (simp add: j)
  qed (use Cons.prems in auto)
qed simp

lemma arp_find_None: "arp_find P i c = None \<longleftrightarrow> (\<forall>e \<in> set c. \<not> P e)"
  by (induction c arbitrary: i) auto

lemma arp_cache_get_iff:
  assumes "arp_ok c"
  shows "arp_cache_get ip c = Some m \<longleftrightarrow> (\<exists>i < length c. arp_valid (c ! i) \<and> arp_ip (c ! i) = ip \<and> arp_mac (c ! i) = m)"
proof
  assume "arp_cache_get ip c = Some m"
  then obtain i where "arp_find (\<lambda>e. arp_valid e \<and> arp_ip e = ip) 0 c = Some i" "m = arp_mac (c ! i)"
    by (auto simp: arp_cache_get_def)
  then show "\<exists>i < length c. arp_valid (c ! i) \<and> arp_ip (c ! i) = ip \<and> arp_mac (c ! i) = m"
    using arp_find_Some [of _ 0 c i] by auto
next
  assume "\<exists>i < length c. arp_valid (c ! i) \<and> arp_ip (c ! i) = ip \<and> arp_mac (c ! i) = m"
  then obtain i where i: "i < length c" "arp_valid (c ! i)" "arp_ip (c ! i) = ip" "arp_mac (c ! i) = m" by blast
  then have "arp_find (\<lambda>e. arp_valid e \<and> arp_ip e = ip) 0 c \<noteq> None" unfolding arp_find_None by auto
  then obtain j where j: "arp_find (\<lambda>e. arp_valid e \<and> arp_ip e = ip) 0 c = Some j" by blast
  from arp_find_Some [OF this] have "j < length c" "arp_valid (c ! j)" "arp_ip (c ! j) = ip" by auto
  then have "j = i" using assms i unfolding arp_ok_def by blast
  then show "arp_cache_get ip c = Some m" using j i by (simp add: arp_cache_get_def)
qed

lemma arp_cache_get_None: "arp_cache_get ip c = None \<longleftrightarrow> (\<forall>i < length c. \<not> (arp_valid (c ! i) \<and> arp_ip (c ! i) = ip))"
  by (simp add: arp_cache_get_def arp_find_None all_set_conv_all_nth)

lemma arp_ok_unique:
  "\<lbrakk>arp_ok c; i < length c; j < length c; arp_valid (c ! i); arp_valid (c ! j); arp_ip (c ! i) = arp_ip (c ! j)\<rbrakk> \<Longrightarrow> i = j"
  unfolding arp_ok_def by blast

lemma arp_get_update:
  assumes ok: "arp_ok c" and i: "i < length c"
    and new: "arp_cache_get ip c = None \<or> (arp_valid (c ! i) \<and> arp_ip (c ! i) = ip)"
    and e: "arp_valid e" "arp_ip e = ip"
  shows "arp_ok (c[i := e])"
    and "arp_cache_get x (c[i := e]) =
      (if x = ip then Some (arp_mac e) else if arp_valid (c ! i) \<and> arp_ip (c ! i) = x then None else arp_cache_get x c)"
proof -
  have only: "j = i" if "j < length c" "arp_valid (c ! j)" "arp_ip (c ! j) = ip" for j
    using new
  proof
    assume "arp_cache_get ip c = None"
    then show ?thesis using that unfolding arp_cache_get_None by blast
  next
    assume "arp_valid (c ! i) \<and> arp_ip (c ! i) = ip"
    then show ?thesis using arp_ok_unique [OF ok that(1) i] that by simp
  qed
  have uniq: "j = k" if "j < length c" "k < length c" "arp_valid (c[i := e] ! j)" "arp_valid (c[i := e] ! k)"
    "arp_ip (c[i := e] ! j) = arp_ip (c[i := e] ! k)" for j k
  proof -
    consider "j = i" "k = i" | "j = i" "k \<noteq> i" | "j \<noteq> i" "k = i" | "j \<noteq> i" "k \<noteq> i" by blast
    then show ?thesis
    proof cases
      case 2 then show ?thesis using only [OF that(2)] that e i by simp
    next
      case 3 then show ?thesis using only [OF that(1)] that e i by simp
    next
      case 4 then show ?thesis using arp_ok_unique [OF ok that(1,2)] that by simp
    qed simp
  qed
  have "length c = ARP_CACHE_SIZE" using ok by (simp add: arp_ok_def)
  then show ok': "arp_ok (c[i := e])" using uniq unfolding arp_ok_def length_list_update by blast
  have other: "arp_cache_get x (c[i := e]) = Some m \<longleftrightarrow> arp_cache_get x c = Some m"
    if "x \<noteq> ip" "\<not> (arp_valid (c ! i) \<and> arp_ip (c ! i) = x)" for m
    unfolding arp_cache_get_iff [OF ok] arp_cache_get_iff [OF ok'] length_list_update
  proof (rule ex_cong1, rule conj_cong [OF refl])
    fix j assume "j < length c"
    then show "(arp_valid (c[i := e] ! j) \<and> arp_ip (c[i := e] ! j) = x \<and> arp_mac (c[i := e] ! j) = m) =
        (arp_valid (c ! j) \<and> arp_ip (c ! j) = x \<and> arp_mac (c ! j) = m)"
      using that e by (cases "j = i") auto
  qed
  have lost: "\<not> (arp_valid (c[i := e] ! j) \<and> arp_ip (c[i := e] ! j) = x)"
    if "j < length c" "x \<noteq> ip" "arp_valid (c ! i)" "arp_ip (c ! i) = x" for j
    using that e i arp_ok_unique [OF ok that(1) i] by (cases "j = i") (simp, metis nth_list_update_neq)
  consider "x = ip" | "x \<noteq> ip" "arp_valid (c ! i)" "arp_ip (c ! i) = x" | "x \<noteq> ip" "\<not> (arp_valid (c ! i) \<and> arp_ip (c ! i) = x)"
    by blast
  then show "arp_cache_get x (c[i := e]) =
      (if x = ip then Some (arp_mac e) else if arp_valid (c ! i) \<and> arp_ip (c ! i) = x then None else arp_cache_get x c)"
  proof cases
    case 1
    have "\<exists>j < length (c[i := e]). arp_valid (c[i := e] ! j) \<and> arp_ip (c[i := e] ! j) = x \<and> arp_mac (c[i := e] ! j) = arp_mac e"
      using i e 1 by (intro exI [of _ i]) simp
    then show ?thesis using 1 arp_cache_get_iff [OF ok'] by simp
  next
    case 2
    then have "arp_cache_get x (c[i := e]) = None" using lost by (simp add: arp_cache_get_None)
    then show ?thesis using 2 by simp
  next
    case 3
    have "arp_cache_get x (c[i := e]) = arp_cache_get x c"
    proof (cases "arp_cache_get x c")
      case None
      then show ?thesis using other [OF 3] by (cases "arp_cache_get x (c[i := e])") auto
    qed (use other [OF 3] in simp)
    then show ?thesis using 3 by (simp only: if_False if_not_P)
  qed
qed

definition arp_full :: "arp_entry list \<Rightarrow> bool" where
  "arp_full c = (\<forall>e \<in> set c. arp_valid e)"

lemma arp_cache_put_cases:
  assumes "arp_ok c"
  obtains i e where "i < length c" "arp_cache_put ip m c = c[i := e]" "arp_valid e" "arp_ip e = ip" "arp_mac e = m"
    "arp_cache_get ip c = None \<or> arp_valid (c ! i) \<and> arp_ip (c ! i) = ip"
    "arp_valid (c ! i) \<and> arp_ip (c ! i) \<noteq> ip \<longrightarrow> i = 0 \<and> arp_full c \<and> arp_cache_get ip c = None"
proof (cases "arp_find (\<lambda>e. arp_valid e \<and> arp_ip e = ip) 0 c")
  case (Some i)
  from arp_find_Some [OF this] show ?thesis
    using that [of i "(c ! i)\<lparr>arp_mac := m\<rparr>"] by (simp add: arp_cache_put_def Some)
next
  case None
  then have absent: "arp_cache_get ip c = None" by (simp add: arp_cache_get_def)
  show ?thesis
  proof (cases "arp_find (\<lambda>e. \<not> arp_valid e) 0 c")
    case (Some i)
    from arp_find_Some [OF this] show ?thesis
      using that [of i "\<lparr>arp_ip = ip, arp_mac = m, arp_valid = True\<rparr>"] None absent by (simp add: arp_cache_put_def Some)
  next
    case full: None
    then have "arp_full c" by (simp add: arp_find_None arp_full_def)
    moreover have "0 < length c" using assms by (simp add: arp_ok_def)
    ultimately show ?thesis
      using that [of 0 "(c ! 0)\<lparr>arp_ip := ip, arp_mac := m\<rparr>"] None absent full
      by (simp add: arp_cache_put_def arp_full_def)
  qed
qed

lemma arp_cache_put_get: "arp_ok c \<Longrightarrow> arp_cache_get ip (arp_cache_put ip m c) = Some m"
  by (rule arp_cache_put_cases [of c ip m], assumption) (simp add: arp_get_update(2))

text \<open>
  The ARP cache is a map from addresses to hardware addresses with room for eight: after an
  address is put it is found with the hardware address given last, every other address is found as
  before, and the only address ever forgotten is the one in the first slot, when all eight slots
  hold other addresses. No address is ever in two slots.
\<close>

theorem arp_cache_correct:
  assumes "arp_ok c"
  shows "arp_ok (arp_cache_put ip m c) \<and>
    arp_cache_get x (arp_cache_put ip m c) =
      (if x = ip then Some m
       else if arp_full c \<and> arp_cache_get ip c = None \<and> x = arp_ip (c ! 0) then None
       else arp_cache_get x c)"
proof -
  obtain i e where i: "i < length c" "arp_cache_put ip m c = c[i := e]" "arp_valid e" "arp_ip e = ip" "arp_mac e = m"
    "arp_cache_get ip c = None \<or> arp_valid (c ! i) \<and> arp_ip (c ! i) = ip"
    and evict: "arp_valid (c ! i) \<and> arp_ip (c ! i) \<noteq> ip \<longrightarrow> i = 0 \<and> arp_full c \<and> arp_cache_get ip c = None"
    using arp_cache_put_cases [OF assms] by blast
  note upd = arp_get_update [OF assms i(1) i(6) i(3) i(4)]
  have "x \<noteq> ip \<Longrightarrow> arp_valid (c ! i) \<and> arp_ip (c ! i) = x \<longleftrightarrow> arp_full c \<and> arp_cache_get ip c = None \<and> x = arp_ip (c ! 0)"
  proof
    assume "x \<noteq> ip" "arp_full c \<and> arp_cache_get ip c = None \<and> x = arp_ip (c ! 0)"
    then have "arp_valid (c ! i) \<and> arp_ip (c ! i) \<noteq> ip" using i(1) by (auto simp: arp_full_def arp_cache_get_None)
    with evict show "arp_valid (c ! i) \<and> arp_ip (c ! i) = x"
      using \<open>arp_full c \<and> arp_cache_get ip c = None \<and> x = arp_ip (c ! 0)\<close> by blast
  qed (use evict in auto)
  then show ?thesis using upd(1) upd(2) [of x] i(2,5) by auto
qed

theorem arp_cache_correct_witness:
  "arp_cache_get 7 (arp_cache_put 5 [1] (arp_cache_put 7 [2] (replicate 8 zero_arp_entry))) = Some [2]"
proof -
  have ok: "arp_ok (replicate 8 zero_arp_entry)" by (simp add: arp_ok_def zero_arp_entry_def)
  note one = arp_cache_correct [OF ok, of 7 "[2]"]
  have "\<not> arp_full (arp_cache_put 7 [2] (replicate 8 zero_arp_entry))" by code_simp
  then show ?thesis using arp_cache_correct [OF one [THEN conjunct1], of 5 "[1]" 7] one [of 7] by simp
qed

section \<open>What is sent\<close>

text \<open>An Ethernet frame as it is on the wire: the header, the payload and zeros up to sixty bytes.\<close>

definition ethernet :: "u8 list \<Rightarrow> u8 list \<Rightarrow> u16 \<Rightarrow> u8 list \<Rightarrow> u8 list" where
  "ethernet dst src type payload =
     dst @ src @ [ucast (drop_bit 8 type), ucast type] @ payload @ replicate (46 - length payload) 0"

lemma ethernet_length:
  "\<lbrakk>length dst = 6; length src = 6; length payload \<le> 1500\<rbrakk> \<Longrightarrow> 60 \<le> length (ethernet dst src type payload) \<and> length (ethernet dst src type payload) \<le> 1514"
  by (simp add: ethernet_def) linarith

definition transmit :: "'d nic \<Rightarrow> u8 list \<Rightarrow> net \<times> 'd \<Rightarrow> bool \<times> net \<times> 'd" where
  "transmit nic frame w =
     (let (s, d) = w; (ok, d) = nic_send nic frame d in (ok, if ok then s\<lparr>tx_count := tx_count s + 1\<rparr> else s, d))"

lemma send_frame_transmit:
  assumes "length payload \<le> 1500" "length dst = 6" "length (nic_mac nic (snd w)) = 6"
  shows "send_frame nic dst type payload w = transmit nic (ethernet dst (nic_mac nic (snd w)) type payload) w"
  using assms by (cases w) (simp add: send_frame_def transmit_def ethernet_def bytes16_htons split: prod.split)

lemma take_drop_nth: "i + n \<le> length xs \<Longrightarrow> take n (drop i xs) = map (\<lambda>k. xs ! (i + k)) [0..<n]"
  by (rule nth_equalityI) auto

lemma bytes32_be32: "i + 4 \<le> length bs \<Longrightarrow> bytes32 (htonl (be32 bs i)) = take 4 (drop i bs)"
proof -
  assume "i + 4 \<le> length bs"
  moreover have "ucast (drop_bit 24 (IPV4_ADDR a b c d)) = a" "ucast (drop_bit 16 (IPV4_ADDR a b c d)) = b"
    "ucast (drop_bit 8 (IPV4_ADDR a b c d)) = c" "ucast (IPV4_ADDR a b c d) = d" for a b c d :: u8
    unfolding IPV4_ADDR_def by (rule bit_eqI; auto simp: bit_simps dest: bit_imp_le_length)+
  moreover have "[0..<4] = [0, 1, 2, 3 :: nat]" by (simp add: upt_rec)
  ultimately show ?thesis by (simp add: bytes32_htonl be32_def take_drop_nth)
qed

lemma be_drop: "k + i + 2 \<le> length bs \<Longrightarrow> be16 (drop k bs) i = be16 bs (k + i)"
  "k + i + 4 \<le> length bs \<Longrightarrow> be32 (drop k bs) i = be32 bs (k + i)"
  by (simp_all add: be16_def be32_def add.assoc)

lemma unat_len_sub: "n \<le> unat len \<Longrightarrow> n < 65536 \<Longrightarrow> unat (len - of_nat n) = unat len - n" for len :: u16
  by (subst unat_sub_no_wrap) (simp_all add: word_le_nat_alt unat_of_nat)

text \<open>
  C22. An ARP request for the address of the machine is answered: of the bytes of the received frame,
  exactly one frame is sent, to the hardware address the request came from, which is the reply of
  RFC 826 with the addresses swapped and the card's own hardware address filled in; and the sender
  of the request is in the cache from then on.
\<close>

theorem arp_request_answered:
  assumes "42 \<le> unat len" "length (rx_frame s) = ETH_FRAME_MAX" "length (nic_mac nic d) = 6"
    and "be16 (rx_frame s) 12 = 0x0806" "be16 (rx_frame s) 20 = 1" "be32 (rx_frame s) 38 = local_ip s"
    and "arp_ok (arp_cache s)"
  shows "\<exists>s1. handle_frame nic resolve len (s, d) =
      Some (snd (transmit nic
        (ethernet (take 6 (drop 22 (rx_frame s))) (nic_mac nic d) 0x0806
          ([0, 1, 8, 0, 6, 4, 0, 2] @ nic_mac nic d @ take 4 (drop 38 (rx_frame s)) @
           take 6 (drop 22 (rx_frame s)) @ take 4 (drop 28 (rx_frame s)))) (s1, d))) \<and>
    s1 = s\<lparr>arp_cache := arp_cache_put (be32 (rx_frame s) 28) (take 6 (drop 22 (rx_frame s))) (arp_cache s)\<rparr> \<and>
    arp_cache_get (be32 (rx_frame s) 28) (arp_cache s1) = Some (take 6 (drop 22 (rx_frame s)))"
proof -
  let ?f = "rx_frame s" and ?my = "nic_mac nic d"
  let ?mac = "take 6 (drop 22 ?f)" and ?ip = "be32 ?f 28"
  define s1 where "s1 = s\<lparr>arp_cache := arp_cache_put ?ip ?mac (arp_cache s)\<rparr>"
  have len: "\<not> unat (len - 14) < 28" "\<not> unat len < 14" using unat_len_sub [of 14 len] assms(1) by simp_all
  have "handle_frame nic resolve len (s, d) = Some (send_arp nic ARP_REPLY ?mac ?ip (s1, d))"
    using assms(1-6) by (simp add: handle_frame_def handle_arp_def len htons_load16 htonl_load32 be_drop s1_def Let_def)
  moreover have "arp_packet ARP_REPLY ?my (local_ip s1) ?mac ?ip =
      [0, 1, 8, 0, 6, 4, 0, 2] @ ?my @ take 4 (drop 38 ?f) @ ?mac @ take 4 (drop 28 ?f)"
  proof -
    have "bytes32 (htonl (local_ip s)) = take 4 (drop 38 ?f)" unfolding assms(6) [symmetric]
      by (rule bytes32_be32) (simp add: assms(2))
    moreover have "bytes32 (htonl ?ip) = take 4 (drop 28 ?f)" by (rule bytes32_be32) (simp add: assms(2))
    ultimately show ?thesis by (simp add: arp_packet_def s1_def bytes16_htons)
  qed
  ultimately have "handle_frame nic resolve len (s, d) = Some (snd (transmit nic (ethernet ?mac ?my 0x0806
      ([0, 1, 8, 0, 6, 4, 0, 2] @ ?my @ take 4 (drop 38 ?f) @ ?mac @ take 4 (drop 28 ?f))) (s1, d)))"
    using assms(2,3) by (simp add: send_arp_def Let_def send_frame_transmit)
  moreover have "arp_cache_get ?ip (arp_cache s1) = Some ?mac"
    using arp_cache_put_get [OF assms(7)] by (simp add: s1_def)
  ultimately show ?thesis using s1_def by blast
qed

definition log_nic :: "u8 list list nic" where
  "log_nic = \<lparr>nic_present = (\<lambda>d. True), nic_mac = (\<lambda>d. [2, 0, 0, 0, 0, 1]), nic_send = (\<lambda>f d. (True, d @ [f])),
     nic_receive = (\<lambda>n d. ([], d)), nic_ticks = (\<lambda>d. (0, d))\<rparr>"

definition example_net :: "u8 list \<Rightarrow> net" where
  "example_net frame = \<lparr>stack_ready = True, local_ip = IPV4_ADDR 10 0 2 15, netmask = IPV4_ADDR 255 255 255 0,
     gateway_ip = IPV4_ADDR 10 0 2 2, arp_cache = replicate 8 zero_arp_entry, rx_count = 0, tx_count = 0,
     ping_wait_seq = 0, ping_wait_active = False, ping_got_reply = False, rx_frame = frame @ replicate (1518 - length frame) 0\<rparr>"

definition example_arp :: "u8 list" where
  "example_arp = replicate 6 0xFF @ [2, 0, 0, 0, 0, 9] @ [8, 6, 0, 1, 8, 0, 6, 4, 0, 1] @
     [2, 0, 0, 0, 0, 9, 10, 0, 2, 2] @ [0, 0, 0, 0, 0, 0, 10, 0, 2, 15] @ replicate 18 0"

theorem arp_request_answered_witness:
  "map_option snd (handle_frame log_nic (\<lambda>ip w. None) 60 (example_net example_arp, [])) =
     Some [[2, 0, 0, 0, 0, 9, 2, 0, 0, 0, 0, 1, 8, 6, 0, 1, 8, 0, 6, 4, 0, 2, 2, 0, 0, 0, 0, 1, 10, 0, 2, 15,
            2, 0, 0, 0, 0, 9, 10, 0, 2, 2] @ replicate 18 0]"
proof -
  let ?s = "example_net example_arp"
  have "arp_ok (arp_cache ?s)" by (simp add: example_net_def arp_ok_def zero_arp_entry_def)
  moreover have "length (rx_frame ?s) = 1518" "be16 (rx_frame ?s) 12 = 0x0806" "be16 (rx_frame ?s) 20 = 1"
    "be32 (rx_frame ?s) 38 = local_ip ?s" "take 6 (drop 22 (rx_frame ?s)) = [2, 0, 0, 0, 0, 9]"
    "take 4 (drop 38 (rx_frame ?s)) = [10, 0, 2, 15]" "take 4 (drop 28 (rx_frame ?s)) = [10, 0, 2, 2]"
    by (simp_all add: example_net_def example_arp_def be16_def be32_def IPV4_ADDR_def nth_append)
  ultimately show ?thesis
    using arp_request_answered [of 60 ?s log_nic "[]" "\<lambda>ip w. None"]
    by (auto simp: log_nic_def transmit_def ethernet_def)
qed

section \<open>Echo requests\<close>

definition next_hop :: "net \<Rightarrow> u32 \<Rightarrow> u32" where
  "next_hop s ip = (if ip AND netmask s = local_ip s AND netmask s then ip else gateway_ip s)"

lemma resolve_cached: "arp_cache_get ip (arp_cache (fst w)) = Some m \<Longrightarrow> net_arp_resolve depth nic ip w = Some (Some m, w)"
  by (simp add: net_arp_resolve.simps)

definition ipv4_datagram :: "u8 \<Rightarrow> u32 \<Rightarrow> u32 \<Rightarrow> u8 list \<Rightarrow> u8 list \<Rightarrow> bool" where
  "ipv4_datagram protocol src dst payload p =
     (length p = 20 + length payload \<and> p ! 0 = 0x45 \<and> be16 p 2 = of_nat (length p) \<and> p ! 9 = protocol \<and>
      be32 p 12 = src \<and> be32 p 16 = dst \<and> checksum16 (take 20 p) = 0 \<and> drop 20 p = payload)"

lemma be16_at: "be16 (xs @ bytes16 (htons x) @ ys) (length xs) = x"
proof -
  have "push_bit 8 (ucast (ucast (drop_bit 8 x) :: u8)) OR ucast (ucast x :: u8) = x"
    by (rule bit_eqI) (auto simp: bit_simps)
  then show ?thesis by (simp add: be16_def bytes16_htons nth_append)
qed

lemma be32_at: "be32 (xs @ bytes32 (htonl x) @ ys) (length xs) = x"
proof -
  have "IPV4_ADDR (ucast (drop_bit 24 x)) (ucast (drop_bit 16 x)) (ucast (drop_bit 8 x)) (ucast x) = x"
    unfolding IPV4_ADDR_def
  proof (rule bit_eqI)
    fix n assume "possible_bit TYPE(u32) n"
    then have "n < 32" by (simp add: possible_bit_word)
    consider "n < 8" | "8 \<le> n" "n < 16" | "16 \<le> n" "n < 24" | "24 \<le> n" by linarith
    then show "bit (push_bit 24 (ucast (ucast (drop_bit 24 x) :: u8)) OR push_bit 16 (ucast (ucast (drop_bit 16 x) :: u8)) OR
        push_bit 8 (ucast (ucast (drop_bit 8 x) :: u8)) OR ucast (ucast x :: u8) :: u32) n = bit x n"
      using \<open>n < 32\<close> by cases (auto simp: bit_simps)
  qed
  then show ?thesis by (simp add: be32_def bytes32_htonl nth_append)
qed

lemma ipv4_datagramI:
  "ipv4_datagram protocol src dst payload
     (ipv4_header (of_nat (20 + length payload)) protocol
        (htons (checksum16 (ipv4_header (of_nat (20 + length payload)) protocol 0 src dst))) src dst @ payload)"
    (is "ipv4_datagram _ _ _ _ (ipv4_header _ _ ?c _ _ @ _)")
proof -
  let ?t = "of_nat (20 + length payload) :: u16"
  have "be16 (ipv4_header ?t protocol ?c src dst @ payload) 2 = ?t"
    using be16_at [of "[0x45, 0]" ?t] by (simp add: ipv4_header_def numeral_2_eq_2)
  moreover have "be32 (ipv4_header ?t protocol ?c src dst @ payload) 12 = src"
    using be32_at [of "[0x45, 0] @ bytes16 (htons ?t) @ bytes16 (htons 0) @ bytes16 (htons 0x4000) @ [64, protocol] @ bytes16 ?c" src]
    by (simp add: ipv4_header_def)
  moreover have "be32 (ipv4_header ?t protocol ?c src dst @ payload) 16 = dst"
    using be32_at [of "[0x45, 0] @ bytes16 (htons ?t) @ bytes16 (htons 0) @ bytes16 (htons 0x4000) @ [64, protocol] @ bytes16 ?c @ bytes32 (htonl src)" dst]
    by (simp add: ipv4_header_def)
  moreover have "(ipv4_header ?t protocol ?c src dst @ payload) ! 0 = 0x45" "(ipv4_header ?t protocol ?c src dst @ payload) ! 9 = protocol"
    by (simp_all add: ipv4_header_def nth_append)
  ultimately show ?thesis by (simp add: ipv4_datagram_def ipv4_header_checksum)
qed

text \<open>A datagram goes to the hardware address that the resolution of the next hop gives, and nowhere if it gives none.\<close>

lemma send_ipv4_resolved:
  assumes "20 + length payload \<le> ETH_MTU" "resolve (next_hop (fst w) ip) w = Some (m, v)"
    and "m \<noteq> None \<longrightarrow> length (the m) = 6 \<and> length (nic_mac nic (snd v)) = 6"
  shows "\<exists>p. ipv4_datagram protocol (local_ip (fst w)) ip payload p \<and>
    send_ipv4 nic resolve ip protocol payload w =
      Some (case m of None \<Rightarrow> (False, v) | Some mac \<Rightarrow> transmit nic (ethernet mac (nic_mac nic (snd v)) 0x0800 p) v)"
proof -
  let ?t = "of_nat (20 + length payload) :: u16"
  let ?h = "\<lambda>c. ipv4_header ?t protocol c (local_ip (fst w)) ip"
  let ?p = "?h (htons (checksum16 (?h 0))) @ payload"
  have "send_ipv4 nic resolve ip protocol payload w =
      Some (case m of None \<Rightarrow> (False, v) | Some mac \<Rightarrow> send_frame nic mac 0x0800 ?p v)"
    using assms(1,2) by (auto simp: send_ipv4_def Let_def next_hop_def split: if_splits option.splits)
  also have "\<dots> = Some (case m of None \<Rightarrow> (False, v) | Some mac \<Rightarrow> transmit nic (ethernet mac (nic_mac nic (snd v)) 0x0800 ?p) v)"
    using assms(1,3) by (cases m) (simp_all add: send_frame_transmit)
  finally show ?thesis using ipv4_datagramI by blast
qed


definition example_echo :: "u8 list" where
  "example_echo = [2, 0, 0, 0, 0, 1, 2, 0, 0, 0, 0, 9, 8, 0] @ [0x45, 0, 0, 32, 0, 0, 0, 0, 64, 1, 0, 0, 10, 0, 2, 2, 10, 0, 2, 15] @
     [8, 0, 0x11, 0x22, 0x47, 0x56, 0, 3, 65, 66, 67, 68] @ replicate 14 0"

definition example_peer :: net where
  "example_peer = (example_net example_echo)\<lparr>arp_cache := \<lparr>arp_ip = IPV4_ADDR 10 0 2 2, arp_mac = [2, 0, 0, 0, 0, 9], arp_valid = True\<rparr> #
     replicate 7 zero_arp_entry\<rparr>"


section \<open>Waiting ends\<close>

text \<open>
  What the stack relies on to return: only finitely many frames arrive, and the clock can be read
  only finitely often before a given time. \<open>pending\<close> counts the frames still to come, \<open>left t\<close>
  the readings before \<open>t\<close>, and \<open>inv\<close> is what driver and card keep. The driver of the card provides it.
\<close>

locale nic_progress =
  fixes nic :: "'d nic" and inv :: "'d \<Rightarrow> bool" and pending :: "'d \<Rightarrow> nat" and left :: "u64 \<Rightarrow> 'd \<Rightarrow> nat"
  assumes send_progress: "inv d \<Longrightarrow> nic_send nic f d = (ok, d') \<Longrightarrow> inv d' \<and> pending d' \<le> pending d \<and> left t d' \<le> left t d"
    and receive_progress: "inv d \<Longrightarrow> nic_receive nic n d = (f, d') \<Longrightarrow>
      inv d' \<and> pending d' \<le> pending d \<and> (f \<noteq> [] \<longrightarrow> pending d' < pending d) \<and> left t d' \<le> left t d"
    and ticks_progress: "inv d \<Longrightarrow> nic_ticks nic d = (now, d') \<Longrightarrow>
      inv d' \<and> pending d' \<le> pending d \<and> left t d' \<le> left t d \<and> (now < t \<longrightarrow> left t d' < left t d)"
begin

definition later :: "'d \<Rightarrow> 'd \<Rightarrow> bool" where
  "later d' d = (inv d' \<and> pending d' \<le> pending d \<and> (\<forall>t. left t d' \<le> left t d))"

lemma later_refl [simp]: "inv d \<Longrightarrow> later d d"
  by (simp add: later_def)

lemma later_trans [trans]: "later a b \<Longrightarrow> later b c \<Longrightarrow> later a c"
  unfolding later_def by (meson le_trans)

definition total_resolver :: "nat \<Rightarrow> 'd resolver \<Rightarrow> bool" where
  "total_resolver k r = (\<forall>ip s d. inv d \<and> pending d < k \<longrightarrow> (\<exists>m s' d'. r ip (s, d) = Some (m, s', d') \<and> later d' d))"

lemma send_frame_later: "inv d \<Longrightarrow> send_frame nic dst type payload (s, d) = (ok, s', d') \<Longrightarrow> later d' d"
  using send_progress by (auto simp: send_frame_def Let_def later_def split: if_splits prod.splits)

lemma send_arp_later: "inv d \<Longrightarrow> send_arp nic op m ip (s, d) = (s', d') \<Longrightarrow> later d' d"
  using send_frame_later [OF _ surjective_pairing [THEN trans, OF arg_cong2 [OF refl surjective_pairing, where f = Pair]]]
  by (auto simp: send_arp_def Let_def prod_eq_iff)

lemma send_ipv4_returns:
  assumes "total_resolver k r" "inv d" "pending d < k"
  shows "\<exists>ok s' d'. send_ipv4 nic r ip protocol payload (s, d) = Some (ok, s', d') \<and> later d' d"
proof -
  obtain m s1 d1 where r: "r (next_hop s ip) (s, d) = Some (m, s1, d1)" "later d1 d"
    using assms unfolding total_resolver_def by blast
  show ?thesis
  proof (cases m)
    case None
    then show ?thesis using r assms(2) by (auto simp: send_ipv4_def Let_def next_hop_def split: if_splits)
  next
    case (Some mac)
    show ?thesis
    proof (cases "20 + length payload > ETH_MTU")
      case False
      then obtain p where "send_ipv4 nic r ip protocol payload (s, d) = Some (send_frame nic mac 0x0800 p (s1, d1))"
        using r Some by (auto simp: send_ipv4_def Let_def next_hop_def split: if_splits)
      moreover obtain ok s2 d2 where "send_frame nic mac 0x0800 p (s1, d1) = (ok, s2, d2)" by (metis prod_cases3)
      moreover have "inv d1" using r(2) by (simp add: later_def)
      ultimately show ?thesis using send_frame_later later_trans [OF _ r(2)] by auto
    qed (use assms(2) in \<open>auto simp: send_ipv4_def\<close>)
  qed
qed

lemma handle_icmp_returns:
  assumes "total_resolver k r" "inv d" "pending d < k"
  shows "\<exists>s' d'. handle_icmp nic r src p len (s, d) = Some (s', d') \<and> later d' d"
  using send_ipv4_returns [OF assms, of src 1 "echo_reply (take (unat len) p)" s] assms(2) by (auto simp: handle_icmp_def)

lemma handle_frame_returns:
  assumes "total_resolver k r" "inv d" "pending d < k"
  shows "\<exists>s' d'. handle_frame nic r len (s, d) = Some (s', d') \<and> later d' d"
proof -
  have ip: "\<exists>s' d'. handle_ipv4 nic r p l (s, d) = Some (s', d') \<and> later d' d" for p l
    using handle_icmp_returns [OF assms] assms(2) by (simp add: handle_ipv4_def Let_def)
  have "later d' d" if "handle_arp nic p l (s, d) = (s', d')" for p l s' d'
    using that send_arp_later assms(2) by (auto simp: handle_arp_def Let_def split: if_splits)
  then have arp: "\<exists>s' d'. handle_arp nic p l (s, d) = (s', d') \<and> later d' d" for p l by (metis surj_pair)
  show ?thesis
    using ip [of "drop 14 (rx_frame s)" "len - 14"] arp [of "drop 14 (rx_frame s)" "len - 14"] assms(2)
    by (auto simp: handle_frame_def Let_def)
qed

end

context nic_progress
begin

lemma net_poll_loop_returns:
  assumes r: "total_resolver k r"
  shows "inv d \<Longrightarrow> pending d \<le> k \<Longrightarrow> \<exists>s' d'. net_poll_loop nic r (s, d) = Some (s', d') \<and> later d' d"
proof (induction "pending d" arbitrary: s d rule: less_induct)
  case less
  obtain f d1 where recv: "nic_receive nic (length (rx_frame s)) d = (f, d1)" by fastforce
  have d1: "later d1 d" "f \<noteq> [] \<Longrightarrow> pending d1 < pending d" using receive_progress [OF less.prems(1) recv] by (simp_all add: later_def)
  let ?len = "of_nat (length f) :: u16"
  let ?s1 = "s\<lparr>rx_frame := f @ drop (length f) (rx_frame s)\<rparr>"
  have step: "net_poll_loop nic r (s, d) = (if ?len > 0
      then Option.bind (handle_frame nic r ?len (?s1\<lparr>rx_count := rx_count ?s1 + 1\<rparr>, d1)) (net_poll_loop nic r) else Some (?s1, d1))"
    by (subst net_poll_loop.simps) (simp add: receive_frame_def recv)
  show ?case
  proof (cases "?len > 0")
    case True
    then have "f \<noteq> []" by auto
    with d1 less.prems have "inv d1" "pending d1 < k" by (simp_all add: later_def)
    from handle_frame_returns [OF r this, of ?len "?s1\<lparr>rx_count := rx_count ?s1 + 1\<rparr>"] obtain s2 d2
      where h: "handle_frame nic r ?len (?s1\<lparr>rx_count := rx_count ?s1 + 1\<rparr>, d1) = Some (s2, d2)" "later d2 d1" by blast
    have "pending d2 < pending d" "inv d2" using h(2) d1(2) [OF \<open>f \<noteq> []\<close>] by (simp_all add: later_def)
    from less.hyps [OF this(1), of s2] less.prems this obtain s3 d3
      where "net_poll_loop nic r (s2, d2) = Some (s3, d3)" "later d3 d2" by auto
    then show ?thesis using True h d1(1) by (auto simp: step intro: later_trans)
  qed (use d1 in \<open>auto simp: step\<close>)
qed

lemma net_poll_returns:
  assumes "total_resolver k r" "inv d" "pending d \<le> k"
  shows "\<exists>s' d'. net_poll nic r (s, d) = Some (s', d') \<and> later d' d"
  using net_poll_loop_returns [OF assms] assms(2) by (auto simp: net_poll_def)

lemma arp_wait_returns:
  assumes poll: "\<And>s d. inv d \<Longrightarrow> pending d \<le> k \<Longrightarrow> \<exists>s' d'. poll (s, d) = Some (s', d') \<and> later d' d"
  shows "inv d \<Longrightarrow> pending d \<le> k \<Longrightarrow> \<exists>m s' d'. arp_wait nic poll ip t (s, d) = Some (m, s', d') \<and> later d' d"
proof (induction "left t d" arbitrary: s d rule: less_induct)
  case less
  obtain now d1 where ticks: "nic_ticks nic d = (now, d1)" by fastforce
  have d1: "later d1 d" "now < t \<Longrightarrow> left t d1 < left t d"
    using ticks_progress [OF less.prems(1) ticks] by (simp_all add: later_def)
  show ?case
  proof (cases "now < t")
    case False
    then show ?thesis using d1 by (subst arp_wait.simps) (simp add: ticks)
  next
    case True
    have "inv d1" "pending d1 \<le> k" using d1(1) less.prems by (simp_all add: later_def)
    from poll [OF this] obtain s2 d2 where p: "poll (s, d1) = Some (s2, d2)" "later d2 d1" by blast
    have d2: "left t d2 < left t d" "later d2 d"
      using p(2) d1(2) [OF True] later_trans [OF p(2) d1(1)] by (auto simp: later_def intro: le_less_trans)
    then have "inv d2" "pending d2 \<le> k" using less.prems by (simp_all add: later_def)
    from less.hyps [OF d2(1) this, of s2] obtain m s3 d3
      where "arp_wait nic poll ip t (s2, d2) = Some (m, s3, d3)" "later d3 d2" by blast
    then show ?thesis using True p d2(2)
      by (subst arp_wait.simps) (auto simp: ticks intro: later_trans split: option.split)
  qed
qed

lemma arp_attempts_returns:
  assumes poll: "\<And>s d. inv d \<Longrightarrow> pending d \<le> k \<Longrightarrow> \<exists>s' d'. poll (s, d) = Some (s', d') \<and> later d' d"
  shows "inv d \<Longrightarrow> pending d \<le> k \<Longrightarrow> \<exists>m s' d'. arp_attempts n nic poll ip (s, d) = Some (m, s', d') \<and> later d' d"
proof (induction n arbitrary: s d)
  case (Suc n)
  obtain s1 d1 where send: "send_arp nic 1 broadcast_mac ip (s, d) = (s1, d1)" by fastforce
  obtain now d2 where ticks: "nic_ticks nic d1 = (now, d2)" by fastforce
  have d1: "later d1 d" using send_arp_later [OF Suc.prems(1) send] .
  then have "inv d1" by (simp add: later_def)
  then have "later d2 d1" using ticks_progress [OF _ ticks] by (simp add: later_def)
  then have d2: "later d2 d" using d1 by (rule later_trans)
  then have "inv d2" "pending d2 \<le> k" using Suc.prems by (simp_all add: later_def)
  from arp_wait_returns [OF poll this, where ip = ip and t = "now + 20" and s = s1] obtain m s3 d3
    where w: "arp_wait nic poll ip (now + 20) (s1, d2) = Some (m, s3, d3)" "later d3 d2" by blast
  have d3: "later d3 d" using later_trans [OF w(2) d2] .
  then have "inv d3" "pending d3 \<le> k" using Suc.prems by (simp_all add: later_def)
  from Suc.IH [OF this, of s3] obtain m' s4 d4
    where "arp_attempts n nic poll ip (s3, d3) = Some (m', s4, d4)" "later d4 d3" by blast
  then show ?case using w d3 by (auto simp: send ticks intro: later_trans split: option.split)
qed simp

lemma net_arp_resolve_total: "total_resolver depth (net_arp_resolve depth nic)"
proof (induction depth)
  case (Suc n)
  have "\<exists>m s' d'. net_arp_resolve (Suc n) nic ip (s, d) = Some (m, s', d') \<and> later d' d" if "inv d" "pending d < Suc n" for ip s d
  proof (cases "arp_cache_get ip (arp_cache s)")
    case None
    then show ?thesis using arp_attempts_returns [OF net_poll_returns [OF Suc], where d = d and n = 3 and ip = ip and s = s] that
      by (subst net_arp_resolve.simps) simp
  qed (use that in \<open>simp add: resolve_cached\<close>)
  then show ?case unfolding total_resolver_def by blast
qed (simp add: total_resolver_def)

lemma ping_wait_returns:
  assumes r: "total_resolver k r"
  shows "inv d \<Longrightarrow> pending d \<le> k \<Longrightarrow> \<exists>x s' d'. ping_wait nic r start t (s, d) = Some (x, s', d') \<and> \<not> ping_wait_active s' \<and>
    (x \<noteq> - 1 \<longrightarrow> ping_got_reply s') \<and> pending d' \<le> pending d"
proof (induction "left t d" arbitrary: s d rule: less_induct)
  case less
  obtain now d1 where ticks: "nic_ticks nic d = (now, d1)" by fastforce
  have d1: "later d1 d" "now < t \<Longrightarrow> left t d1 < left t d"
    using ticks_progress [OF less.prems(1) ticks] by (simp_all add: later_def)
  show ?case
  proof (cases "now < t")
    case False
    then show ?thesis using d1 by (subst ping_wait.simps) (simp add: ticks later_def)
  next
    case True
    have "inv d1" "pending d1 \<le> k" using d1(1) less.prems by (simp_all add: later_def)
    from net_poll_returns [OF r this] obtain s2 d2 where p: "net_poll nic r (s, d1) = Some (s2, d2)" "later d2 d1" by blast
    have d2: "left t d2 < left t d" "later d2 d"
      using p(2) d1(2) [OF True] later_trans [OF p(2) d1(1)] by (auto simp: later_def intro: le_less_trans)
    then have k2: "inv d2" "pending d2 \<le> k" "pending d2 \<le> pending d" using less.prems by (simp_all add: later_def)
    show ?thesis
    proof (cases "ping_got_reply s2")
      case reply: True
      obtain t2 d3 where ticks2: "nic_ticks nic d2 = (t2, d3)" by fastforce
      then have "pending d3 \<le> pending d2" using ticks_progress k2(1) by blast
      then show ?thesis using True p reply ticks2 k2(3) by (subst ping_wait.simps) (simp add: ticks)
    next
      case wait: False
      from less.hyps [OF d2(1) k2(1,2), of s2] obtain x s3 d3 where "ping_wait nic r start t (s2, d2) = Some (x, s3, d3)"
        "\<not> ping_wait_active s3" "x \<noteq> - 1 \<longrightarrow> ping_got_reply s3" "pending d3 \<le> pending d2" by blast
      then show ?thesis using True p wait k2(3) by (subst ping_wait.simps) (simp add: ticks)
    qed
  qed
qed

lemma net_ping_returns:
  assumes "inv d" "pending d < depth" "stack_ready s"
  shows "\<exists>x s' d'. net_ping depth nic ip q (s, d) = Some (x, s', d') \<and> \<not> ping_wait_active s' \<and> (x \<noteq> - 1 \<longrightarrow> ping_got_reply s')"
proof -
  obtain start d1 where ticks: "nic_ticks nic d = (start, d1)" by fastforce
  let ?s1 = "s\<lparr>ping_wait_seq := q, ping_got_reply := False, ping_wait_active := True\<rparr>"
  have d1: "inv d1" "pending d1 < depth" using ticks_progress [OF assms(1) ticks] assms(2) by (meson le_less_trans)+
  from send_ipv4_returns [OF net_arp_resolve_total d1] obtain ok s2 d2 where
    send: "send_ipv4 nic (net_arp_resolve depth nic) ip 1 (ping_packet q) (?s1, d1) = Some (ok, s2, d2)" "later d2 d1" by blast
  then have "inv d2" "pending d2 \<le> depth" using d1 by (simp_all add: later_def)
  from ping_wait_returns [OF net_arp_resolve_total this, where s = s2 and start = start and t = "start + 100"] obtain x s3 d3
    where "ping_wait nic (net_arp_resolve depth nic) start (start + 100) (s2, d2) = Some (x, s3, d3)" "\<not> ping_wait_active s3"
      "x \<noteq> - 1 \<longrightarrow> ping_got_reply s3" by blast
  then show ?thesis using send assms(3) by (cases ok) (simp_all add: net_ping_def Let_def ticks)
qed

end

end
