(* ===== verification/Ata.thy ===== *)
theory Ata
  imports Ports
begin

text \<open>
  The ATA disk driver, \<^verbatim>\<open>drivers/ata.c\<close>: programmed input and output on the primary channel. The drive
  behind the ports is a parameter; what the driver relies on, the protocol of the ATA standard, is
  the interface \<open>ata_drive\<close> below.
\<close>

section \<open>The driver\<close>

abbreviation (input) ATA_DATA :: u16 where "ATA_DATA \<equiv> 0x1F0"
abbreviation (input) ATA_ERROR :: u16 where "ATA_ERROR \<equiv> 0x1F1"
abbreviation (input) ATA_SECCOUNT :: u16 where "ATA_SECCOUNT \<equiv> 0x1F2"
abbreviation (input) ATA_LBA_LOW :: u16 where "ATA_LBA_LOW \<equiv> 0x1F3"
abbreviation (input) ATA_LBA_MID :: u16 where "ATA_LBA_MID \<equiv> 0x1F4"
abbreviation (input) ATA_LBA_HIGH :: u16 where "ATA_LBA_HIGH \<equiv> 0x1F5"
abbreviation (input) ATA_DRIVE :: u16 where "ATA_DRIVE \<equiv> 0x1F6"
abbreviation (input) ATA_STATUS :: u16 where "ATA_STATUS \<equiv> 0x1F7"
abbreviation (input) ATA_COMMAND :: u16 where "ATA_COMMAND \<equiv> 0x1F7"
abbreviation (input) ATA_ALT_STATUS :: u16 where "ATA_ALT_STATUS \<equiv> 0x3F6"
abbreviation (input) ATA_SR_BSY :: u8 where "ATA_SR_BSY \<equiv> 0x80"
abbreviation (input) ATA_SR_DRQ :: u8 where "ATA_SR_DRQ \<equiv> 0x08"
abbreviation (input) ATA_SR_ERR :: u8 where "ATA_SR_ERR \<equiv> 0x01"
abbreviation (input) ATA_CMD_READ_PIO :: u8 where "ATA_CMD_READ_PIO \<equiv> 0x20"
abbreviation (input) ATA_CMD_WRITE_PIO :: u8 where "ATA_CMD_WRITE_PIO \<equiv> 0x30"
abbreviation (input) ATA_CMD_FLUSH :: u8 where "ATA_CMD_FLUSH \<equiv> 0xE7"
abbreviation (input) ATA_CMD_IDENTIFY :: u8 where "ATA_CMD_IDENTIFY \<equiv> 0xEC"
abbreviation (input) ATA_SECTOR_SIZE :: nat where "ATA_SECTOR_SIZE \<equiv> 512"
abbreviation (input) ATA_POLLS :: nat where "ATA_POLLS \<equiv> 4000000"

record ata =
  disk_present :: bool
  disk_sectors :: u32
  disk_model :: "u8 list"

definition ata_present :: "'a ata_scheme \<Rightarrow> bool" where "ata_present s = disk_present s"
definition ata_sector_count :: "'a ata_scheme \<Rightarrow> u32" where "ata_sector_count s = disk_sectors s"
definition ata_model :: "'a ata_scheme \<Rightarrow> u8 list" where "ata_model s = disk_model s"

definition ata_io_wait :: "'d io \<Rightarrow> 'd \<Rightarrow> 'd" where
  "ata_io_wait io d = ((\<lambda>d. snd (inb io ATA_ALT_STATUS d)) ^^ 4) d"

fun ata_poll_not_busy :: "nat \<Rightarrow> 'd io \<Rightarrow> 'd \<Rightarrow> bool \<times> 'd" where
  "ata_poll_not_busy n io d =
     (if n = 0 then (False, d) else
      let (status, d) = inb io ATA_STATUS d in
      if status AND ATA_SR_BSY = 0 then (True, d) else ata_poll_not_busy (n - 1) io d)"

definition ata_wait_not_busy :: "'d io \<Rightarrow> 'd \<Rightarrow> bool \<times> 'd" where
  "ata_wait_not_busy io d = ata_poll_not_busy ATA_POLLS io d"

fun ata_poll_drq :: "nat \<Rightarrow> 'd io \<Rightarrow> 'd \<Rightarrow> bool \<times> 'd" where
  "ata_poll_drq n io d =
     (if n = 0 then (False, d) else
      let (status, d) = inb io ATA_STATUS d in
      if status AND ATA_SR_ERR \<noteq> 0 then (False, d)
      else if status AND ATA_SR_BSY = 0 \<and> status AND ATA_SR_DRQ \<noteq> 0 then (True, d)
      else ata_poll_drq (n - 1) io d)"

definition ata_wait_drq :: "'d io \<Rightarrow> 'd \<Rightarrow> bool \<times> 'd" where
  "ata_wait_drq io d = ata_poll_drq ATA_POLLS io d"

declare ata_poll_not_busy.simps [simp del] ata_poll_drq.simps [simp del]

text \<open>The words a transfer reads, in order, and their bytes in memory.\<close>

primrec ata_in_words :: "nat \<Rightarrow> 'd io \<Rightarrow> 'd \<Rightarrow> u16 list \<times> 'd" where
  "ata_in_words 0 io d = ([], d)"
| "ata_in_words (Suc n) io d =
     (let (x, d) = inw io ATA_DATA d; (xs, d) = ata_in_words n io d in (x # xs, d))"

primrec ata_out_words :: "u16 list \<Rightarrow> 'd io \<Rightarrow> 'd \<Rightarrow> 'd" where
  "ata_out_words [] io d = d"
| "ata_out_words (x # xs) io d = ata_out_words xs io (outw io ATA_DATA x d)"

definition word_bytes :: "u16 \<Rightarrow> u8 list" where
  "word_bytes x = [ucast x, ucast (drop_bit 8 x)]"

fun bytes_words :: "u8 list \<Rightarrow> u16 list" where
  "bytes_words (a # b # bs) = (ucast a OR push_bit 8 (ucast b)) # bytes_words bs"
| "bytes_words _ = []"

definition trim_model :: "u8 list \<Rightarrow> u8 list" where
  "trim_model name =
     (let kept = rev (dropWhile (\<lambda>c. c = 0x20) (rev name)) in kept @ replicate (length name - length kept) 0)"

definition ata_init :: "'d io \<Rightarrow> 'a ata_scheme \<times> 'd \<Rightarrow> bool \<times> 'a ata_scheme \<times> 'd" where
  "ata_init io w =
     (let (s, d) = w; s = s\<lparr>disk_present := False\<rparr>;
          d = ata_io_wait io (outb io ATA_DRIVE 0xA0 d);
          d = outbs io [(ATA_SECCOUNT, 0), (ATA_LBA_LOW, 0), (ATA_LBA_MID, 0), (ATA_LBA_HIGH, 0)] d;
          d = ata_io_wait io (outb io ATA_COMMAND ATA_CMD_IDENTIFY d);
          (status, d) = inb io ATA_STATUS d
      in if status = 0 then (False, s, d) else
      let (ok, d) = ata_wait_not_busy io d in
      if \<not> ok then (False, s, d) else
      let (mid, d) = inb io ATA_LBA_MID d in
      if mid \<noteq> 0 then (False, s, d) else
      let (high, d) = inb io ATA_LBA_HIGH d in
      if high \<noteq> 0 then (False, s, d) else
      let (ok, d) = ata_wait_drq io d in
      if \<not> ok then (False, s, d) else
      let (identify, d) = ata_in_words 256 io d;
          model = concat (map (\<lambda>x. [ucast (drop_bit 8 x), ucast x]) (take 20 (drop 27 identify)));
          sectors = push_bit 16 (ucast (identify ! 61)) OR ucast (identify ! 60)
      in (True, s\<lparr>disk_model := trim_model model @ [0], disk_sectors := sectors, disk_present := True\<rparr>, d))"

definition ata_issue :: "'d io \<Rightarrow> u32 \<Rightarrow> u8 \<Rightarrow> u8 \<Rightarrow> 'd \<Rightarrow> bool \<times> 'd" where
  "ata_issue io lba count command d =
     (let (ok, d) = ata_wait_not_busy io d in
      if \<not> ok then (False, d) else
      (True, outbs io [(ATA_DRIVE, 0xE0 OR ucast (drop_bit 24 lba AND 0x0F)), (ATA_ERROR, 0), (ATA_SECCOUNT, count),
          (ATA_LBA_LOW, ucast (lba AND 0xFF)), (ATA_LBA_MID, ucast (drop_bit 8 lba AND 0xFF)),
          (ATA_LBA_HIGH, ucast (drop_bit 16 lba AND 0xFF)), (ATA_COMMAND, command)] d))"

text \<open>The result of a read is the success and the bytes stored in the buffer, up to a failure.\<close>

primrec ata_read_loop :: "nat \<Rightarrow> 'd io \<Rightarrow> 'd \<Rightarrow> bool \<times> u8 list \<times> 'd" where
  "ata_read_loop 0 io d = (True, [], d)"
| "ata_read_loop (Suc n) io d =
     (let (ok, d) = ata_wait_drq io d in
      if \<not> ok then (False, [], d) else
      let (xs, d) = ata_in_words (ATA_SECTOR_SIZE div 2) io d;
          d = ata_io_wait io d;
          (ok, bs, d) = ata_read_loop n io d
      in (ok, concat (map word_bytes xs) @ bs, d))"

definition ata_read_sectors :: "'d io \<Rightarrow> 'a ata_scheme \<Rightarrow> u32 \<Rightarrow> u8 \<Rightarrow> 'd \<Rightarrow> bool \<times> u8 list \<times> 'd" where
  "ata_read_sectors io s lba count d =
     (if \<not> disk_present s then (False, [], d)
      else if count = 0 then (False, [], d)
      else
        let (ok, d) = ata_issue io lba count ATA_CMD_READ_PIO d in
        if \<not> ok then (False, [], d) else ata_read_loop (unat count) io d)"

primrec ata_write_loop :: "nat \<Rightarrow> 'd io \<Rightarrow> u8 list \<Rightarrow> 'd \<Rightarrow> bool \<times> 'd" where
  "ata_write_loop 0 io buffer d = (True, d)"
| "ata_write_loop (Suc n) io buffer d =
     (let (ok, d) = ata_wait_drq io d in
      if \<not> ok then (False, d) else
      ata_write_loop n io (drop ATA_SECTOR_SIZE buffer)
        (ata_io_wait io (ata_out_words (bytes_words (take ATA_SECTOR_SIZE buffer)) io d)))"

definition ata_write_sectors :: "'d io \<Rightarrow> 'a ata_scheme \<Rightarrow> u32 \<Rightarrow> u8 \<Rightarrow> u8 list \<Rightarrow> 'd \<Rightarrow> bool \<times> 'd" where
  "ata_write_sectors io s lba count buffer d =
     (if \<not> disk_present s then (False, d)
      else if count = 0 then (False, d)
      else
        let (ok, d) = ata_issue io lba count ATA_CMD_WRITE_PIO d in
        if \<not> ok then (False, d) else
        let (ok, d) = ata_write_loop (unat count) io buffer d in
        if \<not> ok then (False, d) else
        let (ok, d) = ata_wait_not_busy io d in
        if \<not> ok then (False, d) else ata_wait_not_busy io (outb io ATA_COMMAND ATA_CMD_FLUSH d))"

section \<open>The drive\<close>

text \<open>
  What the standard says of a drive on a channel of its own: the registers a host writes, the phase
  of a command with the words still to be transferred, and the sectors on the medium.
\<close>

datatype ata_phase = Ready | Data_in u32 nat "u16 list" | Data_out u32 nat "u16 list"

record drive =
  reg_drive :: u8
  reg_count :: u8
  reg_low :: u8
  reg_mid :: u8
  reg_high :: u8
  phase :: ata_phase
  platter :: "u32 \<Rightarrow> u8 list"

definition drive_lba :: "drive \<Rightarrow> u32" where
  "drive_lba v = push_bit 24 (ucast (reg_drive v AND 0x0F)) OR push_bit 16 (ucast (reg_high v)) OR
     push_bit 8 (ucast (reg_mid v)) OR ucast (reg_low v)"

definition drive_reg :: "u16 \<Rightarrow> u8 \<Rightarrow> drive \<Rightarrow> drive" where
  "drive_reg port x v =
     (if port = ATA_SECCOUNT then v\<lparr>reg_count := x\<rparr> else if port = ATA_LBA_LOW then v\<lparr>reg_low := x\<rparr>
      else if port = ATA_LBA_MID then v\<lparr>reg_mid := x\<rparr> else if port = ATA_LBA_HIGH then v\<lparr>reg_high := x\<rparr>
      else if port = ATA_DRIVE then v\<lparr>reg_drive := x\<rparr> else v)"

text \<open>Sector \<open>lba\<close> of a command that has \<open>n\<close> sectors to go is the next to be transferred.\<close>

definition start_in :: "u32 \<Rightarrow> nat \<Rightarrow> drive \<Rightarrow> drive" where
  "start_in lba n v = v\<lparr>phase := (if n = 0 then Ready else Data_in lba n (bytes_words (platter v lba)))\<rparr>"

definition start_out :: "u32 \<Rightarrow> nat \<Rightarrow> drive \<Rightarrow> drive" where
  "start_out lba n v = v\<lparr>phase := (if n = 0 then Ready else Data_out lba n [])\<rparr>"

definition data_in :: "u32 \<Rightarrow> nat \<Rightarrow> u16 list \<Rightarrow> drive \<Rightarrow> drive" where
  "data_in lba n ws v = (if ws = [] then start_in (lba + 1) (n - 1) v else v\<lparr>phase := Data_in lba n ws\<rparr>)"

definition data_out :: "u32 \<Rightarrow> nat \<Rightarrow> u16 list \<Rightarrow> drive \<Rightarrow> drive" where
  "data_out lba n ws v =
     (if length ws = 256 then start_out (lba + 1) (n - 1) (v\<lparr>platter := (platter v)(lba := concat (map word_bytes ws))\<rparr>)
      else v\<lparr>phase := Data_out lba n ws\<rparr>)"

text \<open>
  The protocol between the driver and the drive. \<open>busy\<close> is the number of readings of the status
  register that still show it busy, fewer than the driver makes.
\<close>

locale ata_drive =
  fixes io :: "'d io" and drive :: "'d \<Rightarrow> drive" and busy :: "'d \<Rightarrow> nat" and capacity :: nat
  assumes capacity_28: "capacity \<le> 2 ^ 28"
    and busy_bound: "busy d < ATA_POLLS"
    and sector_length: "length (platter (drive d) lba) = ATA_SECTOR_SIZE"
    and status_busy: "\<lbrakk>io_in8 io ATA_STATUS d = (x, d'); busy d > 0\<rbrakk> \<Longrightarrow>
      bit x 7 \<and> \<not> bit x 0 \<and> drive d' = drive d \<and> busy d' < busy d"
    and status_idle: "\<lbrakk>io_in8 io ATA_STATUS d = (x, d'); busy d = 0\<rbrakk> \<Longrightarrow>
      \<not> bit x 7 \<and> \<not> bit x 0 \<and> (bit x 3 \<longleftrightarrow> phase (drive d) \<noteq> Ready) \<and> drive d' = drive d \<and> busy d' = 0"
    and alt_status: "io_in8 io ATA_ALT_STATUS d = (x, d') \<Longrightarrow> drive d' = drive d"
    and write_reg: "\<lbrakk>busy d = 0; phase (drive d) = Ready; ATA_ERROR \<le> port; port \<le> ATA_DRIVE\<rbrakk> \<Longrightarrow>
      drive (io_out8 io port x d) = drive_reg port x (drive d) \<and> busy (io_out8 io port x d) = 0"
    and command_read: "\<lbrakk>busy d = 0; phase (drive d) = Ready; unat (drive_lba (drive d)) + unat (reg_count (drive d)) \<le> capacity\<rbrakk> \<Longrightarrow>
      drive (io_out8 io ATA_COMMAND ATA_CMD_READ_PIO d) = start_in (drive_lba (drive d)) (unat (reg_count (drive d))) (drive d)"
    and command_write: "\<lbrakk>busy d = 0; phase (drive d) = Ready; unat (drive_lba (drive d)) + unat (reg_count (drive d)) \<le> capacity\<rbrakk> \<Longrightarrow>
      drive (io_out8 io ATA_COMMAND ATA_CMD_WRITE_PIO d) = start_out (drive_lba (drive d)) (unat (reg_count (drive d))) (drive d)"
    and command_flush: "\<lbrakk>busy d = 0; phase (drive d) = Ready\<rbrakk> \<Longrightarrow> drive (io_out8 io ATA_COMMAND ATA_CMD_FLUSH d) = drive d"
    and read_data: "\<lbrakk>busy d = 0; phase (drive d) = Data_in lba n (w # ws); io_in16 io ATA_DATA d = (y, d')\<rbrakk> \<Longrightarrow>
      y = w \<and> drive d' = data_in lba n ws (drive d) \<and> (ws \<noteq> [] \<longrightarrow> busy d' = 0)"
    and write_data: "\<lbrakk>busy d = 0; phase (drive d) = Data_out lba n ws; length ws < 256\<rbrakk> \<Longrightarrow>
      drive (io_out16 io ATA_DATA y d) = data_out lba n (ws @ [y]) (drive d) \<and>
      (length ws < 255 \<longrightarrow> busy (io_out16 io ATA_DATA y d) = 0)"
begin

lemma and_bits: "status AND 0x80 = 0 \<longleftrightarrow> \<not> bit status 7" "status AND 0x08 = 0 \<longleftrightarrow> \<not> bit status 3"
  "status AND 0x01 = 0 \<longleftrightarrow> \<not> bit status 0" for status :: u8
  using and_exp [of status 7] and_exp [of status 3] and_exp [of status 0] by simp_all

lemma poll_not_busy: "busy d < n \<Longrightarrow> \<exists>d'. ata_poll_not_busy n io d = (True, d') \<and> drive d' = drive d \<and> busy d' = 0"
proof (induction n arbitrary: d)
  case (Suc n)
  obtain x d1 where r: "io_in8 io ATA_STATUS d = (x, d1)" by fastforce
  show ?case
  proof (cases "busy d = 0")
    case True
    then show ?thesis using status_idle [OF r] by (subst ata_poll_not_busy.simps) (simp add: inb_def r and_bits)
  next
    case False
    then have "bit x 7" "drive d1 = drive d" "busy d1 < n" using status_busy [OF r] Suc.prems by auto
    then show ?thesis using Suc.IH [of d1] by (subst ata_poll_not_busy.simps) (simp add: inb_def r and_bits)
  qed
qed simp

lemma wait_not_busy: "\<exists>d'. ata_wait_not_busy io d = (True, d') \<and> drive d' = drive d \<and> busy d' = 0"
  unfolding ata_wait_not_busy_def by (rule poll_not_busy [OF busy_bound])

lemma poll_drq:
  "busy d < n \<Longrightarrow> phase (drive d) \<noteq> Ready \<Longrightarrow> \<exists>d'. ata_poll_drq n io d = (True, d') \<and> drive d' = drive d \<and> busy d' = 0"
proof (induction n arbitrary: d)
  case (Suc n)
  obtain x d1 where r: "io_in8 io ATA_STATUS d = (x, d1)" by fastforce
  show ?case
  proof (cases "busy d = 0")
    case True
    then show ?thesis using status_idle [OF r] Suc.prems by (subst ata_poll_drq.simps) (simp add: inb_def r and_bits)
  next
    case False
    then have "bit x 7" "\<not> bit x 0" "drive d1 = drive d" "busy d1 < n" using status_busy [OF r] Suc.prems by auto
    then show ?thesis using Suc.IH [of d1] Suc.prems by (subst ata_poll_drq.simps) (simp add: inb_def r and_bits)
  qed
qed simp

lemma wait_drq: "phase (drive d) \<noteq> Ready \<Longrightarrow> \<exists>d'. ata_wait_drq io d = (True, d') \<and> drive d' = drive d \<and> busy d' = 0"
  unfolding ata_wait_drq_def by (rule poll_drq [OF busy_bound])

lemma drive_io_wait: "drive (ata_io_wait io d) = drive d"
proof -
  have "drive (snd (inb io ATA_ALT_STATUS d)) = drive d" for d
    using alt_status [of d] by (cases "io_in8 io ATA_ALT_STATUS d") (auto simp: inb_def)
  then have "drive (((\<lambda>d. snd (inb io ATA_ALT_STATUS d)) ^^ n) d) = drive d" for n by (induction n) simp_all
  then show ?thesis unfolding ata_io_wait_def .
qed

lemma in_words:
  assumes "busy d = 0" "phase (drive d) = Data_in lba n ws" "ws \<noteq> []"
  shows "\<exists>d'. ata_in_words (length ws) io d = (ws, d') \<and> drive d' = start_in (lba + 1) (n - 1) (drive d)"
  using assms
proof (induction ws arbitrary: d)
  case (Cons w ws)
  obtain x d1 where r: "io_in16 io ATA_DATA d = (x, d1)" by fastforce
  from read_data [OF Cons.prems(1,2) r] have d1: "x = w" "drive d1 = data_in lba n ws (drive d)" "ws \<noteq> [] \<longrightarrow> busy d1 = 0" by simp_all
  show ?case
  proof (cases "ws = []")
    case True
    then show ?thesis using d1 by (simp add: inw_def r data_in_def)
  next
    case False
    then have "drive d1 = (drive d)\<lparr>phase := Data_in lba n ws\<rparr>" "busy d1 = 0" using d1 by (simp_all add: data_in_def)
    then obtain d' where "ata_in_words (length ws) io d1 = (ws, d')" "drive d' = start_in (lba + 1) (n - 1) (drive d)"
      using Cons.IH [of d1] False by (auto simp: start_in_def)
    then show ?thesis using d1(1) by (simp add: inw_def r)
  qed
qed simp

lemma out_words:
  assumes "busy d = 0" "phase (drive d) = Data_out lba n us" "length us + length ws = 256" "ws \<noteq> []"
  shows "drive (ata_out_words ws io d) =
    start_out (lba + 1) (n - 1) ((drive d)\<lparr>platter := (platter (drive d))(lba := concat (map word_bytes (us @ ws)))\<rparr>)"
  using assms
proof (induction ws arbitrary: d us)
  case (Cons w ws)
  let ?d1 = "io_out16 io ATA_DATA w d"
  have "length us < 256" using Cons.prems(3) by simp
  from write_data [OF Cons.prems(1,2) this] have d1: "drive ?d1 = data_out lba n (us @ [w]) (drive d)"
    "length us < 255 \<longrightarrow> busy ?d1 = 0" by simp_all
  show ?case
  proof (cases "ws = []")
    case True
    then show ?thesis using d1(1) Cons.prems(3) by (simp add: outw_def data_out_def fun_upd_def)
  next
    case False
    then have us: "length us < 255" using Cons.prems(3) by (cases ws) auto
    then have v: "drive ?d1 = (drive d)\<lparr>phase := Data_out lba n (us @ [w])\<rparr>" "busy ?d1 = 0" using d1 by (simp_all add: data_out_def)
    have "drive (ata_out_words ws io ?d1) = start_out (lba + 1) (n - 1)
        ((drive ?d1)\<lparr>platter := (platter (drive ?d1))(lba := concat (map word_bytes ((us @ [w]) @ ws)))\<rparr>)"
      by (rule Cons.IH) (use v Cons.prems(3) False in auto)
    then show ?thesis using v by (simp add: outw_def start_out_def fun_upd_def)
  qed
qed simp

end

lemma word_bytes_words: "even (length bs) \<Longrightarrow> concat (map word_bytes (bytes_words bs)) = bs"
proof (induction bs rule: bytes_words.induct)
  case (1 a b bs)
  have "ucast (ucast a OR push_bit 8 (ucast b) :: u16) = a" "ucast (drop_bit 8 (ucast a OR push_bit 8 (ucast b) :: u16)) = b"
    by (rule bit_eqI; auto simp: bit_simps dest: bit_imp_le_length)+
  then show ?case using 1 by (simp add: word_bytes_def)
qed simp_all

lemma length_bytes_words: "length (bytes_words bs) = length bs div 2"
  by (induction bs rule: bytes_words.induct) auto

lemma start_simps [simp]: "platter (start_in lba n v) = platter v" "platter (start_out lba n v) = platter v"
  "phase (start_in lba n v) = (if n = 0 then Ready else Data_in lba n (bytes_words (platter v lba)))"
  "phase (start_out lba n v) = (if n = 0 then Ready else Data_out lba n [])"
  by (simp_all add: start_in_def start_out_def)

context ata_drive
begin

definition idle :: "'d \<Rightarrow> bool" where
  "idle d = (phase (drive d) = Ready)"

lemma write_regs:
  assumes "busy d = 0" "phase (drive d) = Ready" "\<forall>(p, x) \<in> set ws. ATA_ERROR \<le> p \<and> p \<le> ATA_DRIVE"
  shows "drive (outbs io ws d) = fold (\<lambda>(p, x). drive_reg p x) ws (drive d) \<and> busy (outbs io ws d) = 0 \<and>
    phase (drive (outbs io ws d)) = Ready"
  using assms
proof (induction ws arbitrary: d)
  case (Cons px ws)
  obtain p x where px: "px = (p, x)" by fastforce
  let ?d1 = "io_out8 io p x d"
  have d1: "drive ?d1 = drive_reg p x (drive d)" "busy ?d1 = 0" using write_reg [of d p x] Cons.prems px by auto
  then have "phase (drive ?d1) = Ready" using Cons.prems(2) by (simp add: drive_reg_def)
  then show ?case using Cons.IH [of ?d1] d1 Cons.prems px by (auto simp: outbs_def outb_def)
qed (simp add: outbs_def)

lemma lba_registers:
  assumes "unat lba < 2 ^ 28"
  shows "drive_lba (fold (\<lambda>(p, x). drive_reg p x) [(ATA_DRIVE, 0xE0 OR ucast (drop_bit 24 lba AND 0x0F)), (ATA_ERROR, 0), (ATA_SECCOUNT, count),
          (ATA_LBA_LOW, ucast (lba AND 0xFF)), (ATA_LBA_MID, ucast (drop_bit 8 lba AND 0xFF)),
          (ATA_LBA_HIGH, ucast (drop_bit 16 lba AND 0xFF))] v) = lba"
proof (rule bit_eqI)
  fix n assume "possible_bit TYPE(u32) n"
  then have n: "n < 32" by (simp add: possible_bit_word)
  have m: "(0x0F :: u32) = mask 4" "(0x0F :: u8) = mask 4" "(0xFF :: u32) = mask 8" "(0xE0 :: u8) = push_bit 5 (mask 3)"
    by (simp_all add: mask_eq_exp_minus_1 push_bit_eq_mult)
  have b15: "bit (0x0F :: u8) k \<longleftrightarrow> k < 4" for k
    unfolding m(2) by (auto simp: bit_mask_iff)
  have b15i: "bit (0x0F :: int) k \<longleftrightarrow> k < 4" for k
  proof -
    have "(0x0F :: int) = mask 4" by (simp add: mask_eq_exp_minus_1)
    then show ?thesis by (simp only: bit_mask_iff) simp
  qed
  have lba: "\<not> bit lba n" if "28 \<le> n"
  proof -
    have "take_bit 28 lba = lba" using assms by (simp add: word_unat_eq_iff unsigned_take_bit_eq take_bit_nat_eq_self)
    then show ?thesis using that by (metis bit_take_bit_iff not_le)
  qed
  consider "n < 8" | "8 \<le> n" "n < 16" | "16 \<le> n" "n < 24" | "24 \<le> n" "n < 28" | "28 \<le> n" by linarith
  then show "bit (drive_lba (fold (\<lambda>(p, x). drive_reg p x) [(ATA_DRIVE, 0xE0 OR ucast (drop_bit 24 lba AND 0x0F)), (ATA_ERROR, 0),
          (ATA_SECCOUNT, count), (ATA_LBA_LOW, ucast (lba AND 0xFF)), (ATA_LBA_MID, ucast (drop_bit 8 lba AND 0xFF)),
          (ATA_LBA_HIGH, ucast (drop_bit 16 lba AND 0xFF))] v)) n = bit lba n"
    using n lba unfolding m(1,3,4)
    by cases (auto simp: drive_lba_def drive_reg_def bit_simps b15 b15i)
qed

lemma issue:
  assumes "idle d" "unat lba + unat count \<le> capacity" "count \<noteq> 0"
  shows "\<exists>d1. busy d1 = 0 \<and> phase (drive d1) = Ready \<and> drive_lba (drive d1) = lba \<and> reg_count (drive d1) = count \<and>
    platter (drive d1) = platter (drive d) \<and> ata_issue io lba count c d = (True, io_out8 io ATA_COMMAND c d1)"
proof -
  obtain d0 where w: "ata_wait_not_busy io d = (True, d0)" "drive d0 = drive d" "busy d0 = 0" using wait_not_busy by blast
  let ?ws = "[(ATA_DRIVE, 0xE0 OR ucast (drop_bit 24 lba AND 0x0F)), (ATA_ERROR, 0), (ATA_SECCOUNT, count),
          (ATA_LBA_LOW, ucast (lba AND 0xFF)), (ATA_LBA_MID, ucast (drop_bit 8 lba AND 0xFF)),
          (ATA_LBA_HIGH, ucast (drop_bit 16 lba AND 0xFF))]"
  let ?d1 = "outbs io ?ws d0"
  have d1: "drive ?d1 = fold (\<lambda>(p, x). drive_reg p x) ?ws (drive d0)" "busy ?d1 = 0" "phase (drive ?d1) = Ready"
  proof -
    have "\<forall>(p, x) \<in> set ?ws. ATA_ERROR \<le> p \<and> p \<le> ATA_DRIVE" by simp
    note regs = write_regs [OF w(3) _ this, unfolded w(2), OF assms(1) [unfolded idle_def]]
    show "drive ?d1 = fold (\<lambda>(p, x). drive_reg p x) ?ws (drive d0)" "busy ?d1 = 0" "phase (drive ?d1) = Ready"
      using regs unfolding w(2) by blast+
  qed
  have "0 < unat count" using assms(3) by (simp add: unat_gt_0)
  then have "unat lba < 2 ^ 28" using assms(2) capacity_28 by linarith
  then have "drive_lba (drive ?d1) = lba" unfolding d1(1) by (rule lba_registers)
  moreover have "reg_count (drive ?d1) = count" "platter (drive ?d1) = platter (drive d)"
    unfolding d1(1) w(2) by (simp_all add: drive_reg_def)
  moreover have "ata_issue io lba count c d = (True, io_out8 io ATA_COMMAND c ?d1)"
    by (simp add: ata_issue_def w(1) outbs_def outb_def)
  ultimately show ?thesis using d1(2,3) by blast
qed

lemma read_loop:
  assumes "drive d = start_in lba n v"
  shows "\<exists>d'. ata_read_loop n io d = (True, concat (map (\<lambda>i. platter v (lba + of_nat i)) [0..<n]), d') \<and>
    phase (drive d') = Ready \<and> platter (drive d') = platter v"
  using assms
proof (induction n arbitrary: d lba v)
  case (Suc n)
  then have ph: "phase (drive d) = Data_in lba (Suc n) (bytes_words (platter v lba))" by simp
  then obtain d1 where d1: "ata_wait_drq io d = (True, d1)" "drive d1 = drive d" "busy d1 = 0" using wait_drq [of d] by auto
  have len: "length (platter v lba) = 512" using sector_length [of d lba] Suc.prems by simp
  have ws: "length (bytes_words (platter v lba)) = 256" by (simp add: length_bytes_words len)
  then have "bytes_words (platter v lba) \<noteq> []" by auto
  from in_words [OF d1(3) ph [folded d1(2)] this] ws obtain d2 where
    d2: "ata_in_words 256 io d1 = (bytes_words (platter v lba), d2)" "drive d2 = start_in (lba + 1) n (drive d)"
    using d1(2) by auto
  have "drive (ata_io_wait io d2) = start_in (lba + 1) n (start_in lba (Suc n) v)"
    using d2(2) Suc.prems by (simp add: drive_io_wait)
  from Suc.IH [OF this] obtain d3 where d3:
    "ata_read_loop n io (ata_io_wait io d2) = (True, concat (map (\<lambda>i. platter v (lba + 1 + of_nat i)) [0..<n]), d3)"
    "phase (drive d3) = Ready" "platter (drive d3) = platter v" by auto
  have "concat (map (\<lambda>i. platter v (lba + of_nat i)) [0..<Suc n]) =
      platter v lba @ concat (map (\<lambda>i. platter v (lba + 1 + of_nat i)) [0..<n])"
    by (simp add: upt_conv_Cons map_Suc_upt [symmetric] comp_def add.assoc del: upt_Suc)
  then show ?case using d3 d1(1) d2(1) len by (simp add: word_bytes_words del: upt_Suc)
qed simp

lemma read_sectors:
  assumes "disk_present s" "idle d" "count \<noteq> 0" "unat lba + unat count \<le> capacity"
  shows "\<exists>d'. ata_read_sectors io s lba count d = (True, concat (map (\<lambda>i. platter (drive d) (lba + of_nat i)) [0..<unat count]), d') \<and>
    idle d' \<and> platter (drive d') = platter (drive d)"
proof -
  obtain d1 where d1: "busy d1 = 0" "phase (drive d1) = Ready" "drive_lba (drive d1) = lba" "reg_count (drive d1) = count"
    "platter (drive d1) = platter (drive d)" "ata_issue io lba count ATA_CMD_READ_PIO d = (True, io_out8 io ATA_COMMAND ATA_CMD_READ_PIO d1)"
    using issue [OF assms(2,4,3)] by blast
  have "drive (io_out8 io ATA_COMMAND ATA_CMD_READ_PIO d1) = start_in lba (unat count) (drive d1)"
    using command_read [OF d1(1,2)] d1(3,4) assms(4) by simp
  from read_loop [OF this] show ?thesis using assms(1,3) d1(5,6) by (auto simp: ata_read_sectors_def idle_def)
qed

definition written :: "u32 \<Rightarrow> nat \<Rightarrow> u8 list \<Rightarrow> (u32 \<Rightarrow> u8 list) \<Rightarrow> u32 \<Rightarrow> u8 list" where
  "written lba n bs p = fold (\<lambda>i p. p(lba + of_nat i := take ATA_SECTOR_SIZE (drop (ATA_SECTOR_SIZE * i) bs))) [0..<n] p"

lemma written_Suc: "written lba (Suc n) bs p = written (lba + 1) n (drop 512 bs) (p(lba := take 512 bs))"
proof -
  have "fold (\<lambda>i p. p(lba + of_nat i := take 512 (drop (512 * i) bs))) (map Suc [0..<n]) q = written (lba + 1) n (drop 512 bs) q" for q
    by (simp add: written_def fold_map comp_def ac_simps)
  then show ?thesis by (simp add: written_def upt_conv_Cons map_Suc_upt [symmetric] del: upt_Suc)
qed

lemma write_loop:
  assumes "drive d = start_out lba n v" "length bs = 512 * n"
  shows "\<exists>d'. ata_write_loop n io bs d = (True, d') \<and> phase (drive d') = Ready \<and> platter (drive d') = written lba n bs (platter v)"
  using assms
proof (induction n arbitrary: d lba v bs)
  case (Suc n)
  then have ph: "phase (drive d) = Data_out lba (Suc n) []" by simp
  then obtain d1 where d1: "ata_wait_drq io d = (True, d1)" "drive d1 = drive d" "busy d1 = 0" using wait_drq [of d] by auto
  let ?ws = "bytes_words (take 512 bs)"
  have "length (take 512 bs) = 512" using Suc.prems(2) by simp
  then have ws: "length ?ws = 256" "concat (map word_bytes ?ws) = take 512 bs"
    by (simp_all add: length_bytes_words word_bytes_words)
  then have "?ws \<noteq> []" by auto
  have "drive (ata_out_words ?ws io d1) = start_out (lba + 1) n ((drive d)\<lparr>platter := (platter (drive d))(lba := take 512 bs)\<rparr>)"
    using out_words [OF d1(3) ph [folded d1(2)] _ \<open>?ws \<noteq> []\<close>] ws d1(2) by simp
  from Suc.IH [OF trans [OF drive_io_wait this], of "drop 512 bs"] Suc.prems
  show ?case using d1(1) by (simp add: written_Suc fun_upd_def)
qed (simp add: written_def)

lemma write_sectors:
  assumes "disk_present s" "idle d" "count \<noteq> 0" "unat lba + unat count \<le> capacity" "length bs = 512 * unat count"
  shows "\<exists>d'. ata_write_sectors io s lba count bs d = (True, d') \<and> idle d' \<and>
    platter (drive d') = written lba (unat count) bs (platter (drive d))"
proof -
  obtain d1 where d1: "busy d1 = 0" "phase (drive d1) = Ready" "drive_lba (drive d1) = lba" "reg_count (drive d1) = count"
    "platter (drive d1) = platter (drive d)" "ata_issue io lba count ATA_CMD_WRITE_PIO d = (True, io_out8 io ATA_COMMAND ATA_CMD_WRITE_PIO d1)"
    using issue [OF assms(2,4,3)] by blast
  have "drive (io_out8 io ATA_COMMAND ATA_CMD_WRITE_PIO d1) = start_out lba (unat count) (drive d1)"
    using command_write [OF d1(1,2)] d1(3,4) assms(4) by simp
  from write_loop [OF this assms(5)] obtain d2 where d2:
    "ata_write_loop (unat count) io bs (io_out8 io ATA_COMMAND ATA_CMD_WRITE_PIO d1) = (True, d2)"
    "phase (drive d2) = Ready" "platter (drive d2) = written lba (unat count) bs (platter (drive d))" using d1(5) by auto
  obtain d3 where d3: "ata_wait_not_busy io d2 = (True, d3)" "drive d3 = drive d2" "busy d3 = 0" using wait_not_busy by blast
  obtain d4 where d4: "ata_wait_not_busy io (io_out8 io ATA_COMMAND ATA_CMD_FLUSH d3) = (True, d4)"
    "drive d4 = drive (io_out8 io ATA_COMMAND ATA_CMD_FLUSH d3)" using wait_not_busy by blast
  have "drive d4 = drive d2" using d4(2) command_flush [OF d3(3)] d3(2) d2(2) by simp
  then show ?thesis using assms(1,3) d1(6) d2 d3 d4 by (simp add: ata_write_sectors_def outb_def idle_def)
qed

end

lemma concat_chunks: "length bs = k * n \<Longrightarrow> concat (map (\<lambda>i. take k (drop (k * i) bs)) [0..<n]) = bs"
proof (induction n arbitrary: bs)
  case (Suc n)
  have "concat (map (\<lambda>i. take k (drop (k * i) bs)) [0..<Suc n]) = take k bs @ concat (map (\<lambda>i. take k (drop (k * i) (drop k bs))) [0..<n])"
    by (simp add: upt_conv_Cons map_Suc_upt [symmetric] comp_def add.commute del: upt_Suc)
  also have "\<dots> = bs" using Suc.IH [of "drop k bs"] Suc.prems by simp
  finally show ?case .
qed simp

context ata_drive
begin

lemma written_nth:
  assumes "unat lba + n \<le> 2 ^ 32"
  shows "written lba n bs p x = (if lba \<le> x \<and> unat x < unat lba + n
    then take 512 (drop (512 * (unat x - unat lba)) bs) else p x)"
  using assms
proof (induction n)
  case (Suc n)
  have "unat (lba + of_nat n) = unat lba + n"
    using Suc.prems by (subst unat_add_no_wrap) (simp_all add: unat_of_nat)
  then have x: "x = lba + of_nat n \<longleftrightarrow> unat x = unat lba + n" by (metis word_unat_eq_iff)
  have "written lba (Suc n) bs p = (written lba n bs p)(lba + of_nat n := take 512 (drop (512 * n) bs))"
    by (simp add: written_def)
  then show ?case using Suc.IH Suc.prems x by (auto simp: word_le_nat_alt)
qed (auto simp: written_def word_le_nat_alt)

lemma write_read:
  assumes "disk_present s" "idle d" "count \<noteq> 0" "unat lba + unat count \<le> capacity" "length bs = 512 * unat count"
  shows "\<exists>d1 d2. ata_write_sectors io s lba count bs d = (True, d1) \<and> ata_read_sectors io s lba count d1 = (True, bs, d2) \<and>
    idle d2 \<and> (\<forall>x. platter (drive d2) x = (if lba \<le> x \<and> unat x < unat lba + unat count
      then take 512 (drop (512 * (unat x - unat lba)) bs) else platter (drive d) x))"
proof -
  have le: "unat lba + unat count \<le> 2 ^ 32" using assms(4) capacity_28 by simp
  obtain d1 where d1: "ata_write_sectors io s lba count bs d = (True, d1)" "idle d1"
    "platter (drive d1) = written lba (unat count) bs (platter (drive d))" using write_sectors [OF assms] by blast
  obtain d2 where d2: "ata_read_sectors io s lba count d1 =
      (True, concat (map (\<lambda>i. platter (drive d1) (lba + of_nat i)) [0..<unat count]), d2)" "idle d2" "platter (drive d2) = platter (drive d1)"
    using read_sectors [OF assms(1) d1(2) assms(3,4)] by blast
  have "platter (drive d1) (lba + of_nat i) = take 512 (drop (512 * i) bs)" if "i < unat count" for i
  proof -
    have "unat (lba + of_nat i) = unat lba + i"
      using le that by (subst unat_add_no_wrap) (simp_all add: unat_of_nat)
    then show ?thesis unfolding d1(3) using that by (simp add: written_nth [OF le] word_le_nat_alt)
  qed
  then have "map (\<lambda>i. platter (drive d1) (lba + of_nat i)) [0..<unat count] = map (\<lambda>i. take 512 (drop (512 * i) bs)) [0..<unat count]"
    by simp
  then have "concat (map (\<lambda>i. platter (drive d1) (lba + of_nat i)) [0..<unat count]) = bs"
    by (simp only: concat_chunks [OF assms(5)])
  then show ?thesis using d1 d2 written_nth [OF le] by auto
qed

end

text \<open>
  C27. What is written to the disk is read back, sector by sector, and no other sector changes: for a
  drive that keeps the protocol of the standard, \<open>ata_write_sectors\<close> followed by \<open>ata_read_sectors\<close>
  of the same range both succeed and return the bytes written, and every sector outside of the range
  is as it was.
\<close>

theorem ata_write_read:
  assumes "ata_drive io drive busy capacity" "disk_present s" "phase (drive d) = Ready" "count \<noteq> 0"
    "unat lba + unat count \<le> capacity" "length bs = 512 * unat count"
  shows "\<exists>d1 d2. ata_write_sectors io s lba count bs d = (True, d1) \<and> ata_read_sectors io s lba count d1 = (True, bs, d2) \<and>
    phase (drive d2) = Ready \<and> (\<forall>x. platter (drive d2) x = (if lba \<le> x \<and> unat x < unat lba + unat count
      then take 512 (drop (512 * (unat x - unat lba)) bs) else platter (drive d) x))"
  using ata_drive.write_read [OF assms(1,2) _ assms(4,5,6)] assms(3) by (simp add: ata_drive.idle_def [OF assms(1)])

text \<open>A drive that is busy for a while after every command and every sector.\<close>

definition padded :: "drive \<Rightarrow> drive" where
  "padded v = v\<lparr>platter := (\<lambda>lba. take 512 (platter v lba @ replicate 512 0))\<rparr>"

definition sim_out8 :: "u16 \<Rightarrow> u8 \<Rightarrow> drive \<times> nat \<Rightarrow> drive \<times> nat" where
  "sim_out8 port x d =
     (let v = padded (fst d) in
      if port = ATA_COMMAND then
        (if x = ATA_CMD_READ_PIO then start_in (drive_lba v) (unat (reg_count v)) v
         else if x = ATA_CMD_WRITE_PIO then start_out (drive_lba v) (unat (reg_count v)) v else v, 3)
      else (drive_reg port x v, snd d))"

definition sim_io :: "(drive \<times> nat) io" where
  "sim_io = \<lparr>io_in8 = (\<lambda>port d. if port = ATA_STATUS then
       if snd d mod 8 = 0 then (if phase (fst d) = Ready then 0x40 else 0x48, d) else (0x80, (fst d, snd d - 1)) else (0, d)),
     io_out8 = sim_out8,
     io_in16 = (\<lambda>port d. case phase (fst d) of
         Data_in lba n (w # ws) \<Rightarrow> (w, data_in lba n ws (padded (fst d)), if ws = [] then 2 else snd d) | _ \<Rightarrow> (0, d)),
     io_out16 = (\<lambda>port x d. case phase (fst d) of
         Data_out lba n ws \<Rightarrow> (data_out lba n (ws @ [x]) (padded (fst d)), if length ws < 255 then snd d else 2) | _ \<Rightarrow> d),
     io_in32 = (\<lambda>port d. (0, d)), io_out32 = (\<lambda>port x d. d)\<rparr>"

lemma padded_id: "(\<And>lba. length (platter v lba) = 512) \<Longrightarrow> padded v = v"
  by (simp add: padded_def)

lemma length_word_bytes: "length (concat (map word_bytes ws)) = 2 * length ws"
  by (induction ws) (simp_all add: word_bytes_def)

lemma padded_simps [simp]: "phase (padded v) = phase v" "drive_lba (padded v) = drive_lba v" "reg_count (padded v) = reg_count v"
  "length (platter (padded v) lba) = 512"
  by (simp_all add: padded_def drive_lba_def)

lemma padded_step [simp]: "padded (padded v) = padded v"
  "padded (drive_reg port x (padded v)) = drive_reg port x (padded v)"
  "padded (start_in lba n (padded v)) = start_in lba n (padded v)"
  "padded (start_out lba n (padded v)) = start_out lba n (padded v)"
  "padded (data_in lba n ws (padded v)) = data_in lba n ws (padded v)"
  "padded (data_out lba n ws (padded v)) = data_out lba n ws (padded v)"
  by (rule padded_id; simp add: drive_reg_def data_in_def data_out_def length_word_bytes)+

interpretation sim: ata_drive sim_io "\<lambda>d. padded (fst d)" "\<lambda>d. snd d mod 8" "2 ^ 28"
proof (unfold_locales, goal_cases)
  case (4 d x d')
  moreover have "0 < m mod 8 \<Longrightarrow> (m - 1) mod 8 < m mod 8" for m :: nat by (cases m) (auto simp: mod_Suc)
  ultimately show ?case by (auto simp: sim_io_def)
next
  case (5 d x d')
  then show ?case by (auto simp: sim_io_def split: if_splits)
next
  case (7 d port x)
  moreover have "port \<noteq> ATA_COMMAND" using 7 by auto
  ultimately show ?case by (simp add: sim_io_def sim_out8_def Let_def)
qed (auto simp: sim_io_def sim_out8_def Let_def)

definition blank_drive :: drive where
  "blank_drive = \<lparr>reg_drive = 0, reg_count = 0, reg_low = 0, reg_mid = 0, reg_high = 0, phase = Ready, platter = (\<lambda>lba. replicate 512 0)\<rparr>"

definition sim_ata :: ata where
  "sim_ata = \<lparr>disk_present = True, disk_sectors = 0x10000000, disk_model = replicate 41 0\<rparr>"

theorem ata_write_read_witness:
  "\<exists>d1 d2. ata_write_sectors sim_io sim_ata 7 2 (replicate 1024 0x41) (blank_drive, 0) = (True, d1) \<and>
    ata_read_sectors sim_io sim_ata 7 2 d1 = (True, replicate 1024 0x41, d2) \<and> platter (padded (fst d2)) 9 = replicate 512 0"
  using ata_write_read [OF sim.ata_drive_axioms, of sim_ata "(blank_drive, 0)" 2 7 "replicate 1024 0x41"]
  by (auto simp: sim_ata_def blank_drive_def padded_def)

end
