(* ===== verification/Fat32.thy ===== *)
theory Fat32
  imports Ata
begin

text \<open>
  The FAT32 file system, \<^verbatim>\<open>drivers/fat32.c\<close>: the allocation table, the root directory and the files of
  a volume. A volume is on a disk that reads and writes one sector at a time; the disk of the kernel
  is the ATA driver. A loop over a chain of clusters ends only if the chain does: its result is an
  option, \<open>None\<close> when it does not end. Names are the bytes of a C string without its terminator, and
  a sector buffer is local to the operation that fills it, since none uses what another left there.
\<close>

section \<open>State\<close>

record 'd disk =
  dk_read :: "u32 \<Rightarrow> 'd \<Rightarrow> bool \<times> u8 list \<times> 'd"
  dk_write :: "u32 \<Rightarrow> u8 list \<Rightarrow> 'd \<Rightarrow> bool \<times> 'd"

definition ata_disk :: "'d io \<Rightarrow> 'a ata_scheme \<Rightarrow> 'd disk" where
  "ata_disk io s = \<lparr>dk_read = (\<lambda>lba. ata_read_sectors io s lba 1), dk_write = (\<lambda>lba. ata_write_sectors io s lba 1)\<rparr>"

record fat =
  mounted :: bool
  bytes_per_sector :: u16
  sectors_per_cluster :: u8
  reserved_sectors :: u16
  num_fats :: u8
  fat_size :: u32
  root_cluster :: u32
  first_data_sector :: u32

abbreviation (input) DIR_ENTRY_SIZE :: nat where "DIR_ENTRY_SIZE \<equiv> 32"
abbreviation (input) ATTR_VOLUME_ID :: u8 where "ATTR_VOLUME_ID \<equiv> 0x08"
abbreviation (input) ATTR_ARCHIVE :: u8 where "ATTR_ARCHIVE \<equiv> 0x20"
abbreviation (input) ATTR_DIRECTORY :: u8 where "ATTR_DIRECTORY \<equiv> 0x10"
abbreviation (input) ATTR_LFN :: u8 where "ATTR_LFN \<equiv> 0x0F"
abbreviation (input) FAT_EOC :: u32 where "FAT_EOC \<equiv> 0x0FFFFFF8"

definition fat32_mounted :: "fat \<Rightarrow> bool" where "fat32_mounted fs = mounted fs"

text \<open>A field of a buffer stored in place.\<close>

definition store_at :: "nat \<Rightarrow> u8 list \<Rightarrow> u8 list \<Rightarrow> u8 list" where
  "store_at i bs buf = take i buf @ bs @ drop (i + length bs) buf"

section \<open>The allocation table\<close>

definition cluster_to_lba :: "fat \<Rightarrow> u32 \<Rightarrow> u32" where
  "cluster_to_lba fs cluster = first_data_sector fs + (cluster - 2) * ucast (sectors_per_cluster fs)"

definition fat_next_cluster :: "'d disk \<Rightarrow> fat \<Rightarrow> u32 \<Rightarrow> 'd \<Rightarrow> u32 \<times> 'd" where
  "fat_next_cluster dk fs cluster d =
     (let fat_offset = cluster * 4;
          fat_sector = ucast (reserved_sectors fs) + fat_offset div ucast (bytes_per_sector fs);
          entry_off = fat_offset mod ucast (bytes_per_sector fs);
          (ok, buf, d) = dk_read dk fat_sector d
      in if \<not> ok then (FAT_EOC, d) else (load32 buf (unat entry_off) AND 0x0FFFFFFF, d))"

primrec fat_set_copies :: "'d disk \<Rightarrow> fat \<Rightarrow> u32 \<Rightarrow> u32 \<Rightarrow> u32 list \<Rightarrow> 'd \<Rightarrow> bool \<times> 'd" where
  "fat_set_copies dk fs cluster val [] d = (True, d)"
| "fat_set_copies dk fs cluster val (copy # copies) d =
     (let fat_offset = cluster * 4;
          sector_in_fat = fat_offset div ucast (bytes_per_sector fs);
          entry_off = fat_offset mod ucast (bytes_per_sector fs);
          lba = ucast (reserved_sectors fs) + copy * fat_size fs + sector_in_fat;
          (ok, buf, d) = dk_read dk lba d
      in if \<not> ok then (False, d) else
      let existing = load32 buf (unat entry_off);
          updated = (existing AND 0xF0000000) OR (val AND 0x0FFFFFFF);
          (ok, d) = dk_write dk lba (store_at (unat entry_off) (bytes32 updated) buf) d
      in if \<not> ok then (False, d) else fat_set_copies dk fs cluster val copies d)"

definition fat_set_entry :: "'d disk \<Rightarrow> fat \<Rightarrow> u32 \<Rightarrow> u32 \<Rightarrow> 'd \<Rightarrow> bool \<times> 'd" where
  "fat_set_entry dk fs cluster val d =
     fat_set_copies dk fs cluster val (map of_nat [0..<unat (num_fats fs)]) d"

text \<open>The first free entry of a sector of the table, and the search over its sectors.\<close>

definition free_entry :: "u32 \<Rightarrow> u32 \<Rightarrow> u32 \<Rightarrow> u8 list \<Rightarrow> nat option" where
  "free_entry sector per total_clusters buf =
     find (\<lambda>i. let cluster = sector * per + of_nat i in
       \<not> (cluster < 2 \<or> cluster \<ge> total_clusters) \<and> load32 buf (i * 4) AND 0x0FFFFFFF = 0) [0..<unat per]"

primrec fat_alloc_from :: "'d disk \<Rightarrow> fat \<Rightarrow> u32 \<Rightarrow> u32 \<Rightarrow> u32 list \<Rightarrow> 'd \<Rightarrow> u32 \<times> 'd" where
  "fat_alloc_from dk fs per total_clusters [] d = (0, d)"
| "fat_alloc_from dk fs per total_clusters (sector # sectors) d =
     (let (ok, buf, d) = dk_read dk (ucast (reserved_sectors fs) + sector) d in
      if \<not> ok then (0, d) else
      case free_entry sector per total_clusters buf of
        None \<Rightarrow> fat_alloc_from dk fs per total_clusters sectors d
      | Some i \<Rightarrow>
          let cluster = sector * per + of_nat i; (ok, d) = fat_set_entry dk fs cluster 0x0FFFFFFF d
          in if \<not> ok then (0, d) else (cluster, d))"

definition fat_alloc_cluster :: "'d disk \<Rightarrow> fat \<Rightarrow> 'd \<Rightarrow> u32 \<times> 'd" where
  "fat_alloc_cluster dk fs d =
     (let entries_per_sector = ucast (bytes_per_sector fs div 4);
          total_clusters = fat_size fs * entries_per_sector
      in fat_alloc_from dk fs entries_per_sector total_clusters (map of_nat [0..<unat (fat_size fs)]) d)"

partial_function (option) fat_free_chain :: "'d disk \<Rightarrow> fat \<Rightarrow> u32 \<Rightarrow> 'd \<Rightarrow> (bool \<times> 'd) option" where
  "fat_free_chain dk fs cluster d =
     (if cluster \<ge> 2 \<and> cluster < FAT_EOC then
        let (next, d) = fat_next_cluster dk fs cluster d; (ok, d) = fat_set_entry dk fs cluster 0 d in
        if \<not> ok then Some (False, d) else fat_free_chain dk fs next d
      else Some (True, d))"

section \<open>Mounting\<close>

definition fat32_init :: "bool \<Rightarrow> 'd disk \<Rightarrow> fat \<times> 'd \<Rightarrow> bool \<times> fat \<times> 'd" where
  "fat32_init present dk w =
     (let (fs, d) = w; fs = fs\<lparr>mounted := False\<rparr> in
      if \<not> present then (False, fs, d) else
      let (ok, buf, d) = dk_read dk 0 d in
      if \<not> ok then (False, fs, d)
      else if buf ! 510 \<noteq> 0x55 \<or> buf ! 511 \<noteq> 0xAA then (False, fs, d)
      else if load16 buf 11 \<noteq> 512 then (False, fs, d)
      else
        let fs = fs\<lparr>bytes_per_sector := load16 buf 11, sectors_per_cluster := buf ! 13, reserved_sectors := load16 buf 14,
              num_fats := buf ! 16, fat_size := load32 buf 36, root_cluster := load32 buf 44\<rparr>
        in if sectors_per_cluster fs = 0 \<or> fat_size fs = 0 then (False, fs, d)
           else (True, fs\<lparr>first_data_sector := ucast (reserved_sectors fs) + ucast (num_fats fs) * fat_size fs, mounted := True\<rparr>, d))"

section \<open>The root directory\<close>

definition upper :: "u8 \<Rightarrow> u8" where
  "upper c = (if c \<ge> 0x61 \<and> c \<le> 0x7A then c - 32 else c)"

definition to_short_name :: "u8 list \<Rightarrow> u8 list" where
  "to_short_name name =
     (let base = map upper (take 8 (takeWhile (\<lambda>c. c \<noteq> 0x2E) name));
          ext = map upper (take 3 (tl (dropWhile (\<lambda>c. c \<noteq> 0x2E) name)))
      in base @ replicate (8 - length base) 0x20 @ ext @ replicate (3 - length ext) 0x20)"

text \<open>
  The loops over the entries of the root directory differ in what they do with an entry and with a
  sector that cannot be read: the visit of an entry, from its place and its bytes, goes on or stops
  with a result.
\<close>

datatype ('a, 'r) scan = Go 'a | Stop 'r

type_synonym ('a, 'r) visit = "u32 \<Rightarrow> nat \<Rightarrow> u8 list \<Rightarrow> 'a \<Rightarrow> ('a, 'r) scan"

primrec scan_entries :: "('a, 'r) visit \<Rightarrow> u32 \<Rightarrow> u8 list \<Rightarrow> nat list \<Rightarrow> 'a \<Rightarrow> ('a, 'r) scan" where
  "scan_entries f lba buf [] acc = Go acc"
| "scan_entries f lba buf (off # offs) acc =
     (case f lba off (take DIR_ENTRY_SIZE (drop off buf)) acc of
        Stop r \<Rightarrow> Stop r | Go acc \<Rightarrow> scan_entries f lba buf offs acc)"

primrec scan_sectors :: "'d disk \<Rightarrow> ('a, 'r) visit \<Rightarrow> ('a \<Rightarrow> 'r) \<Rightarrow> u32 list \<Rightarrow> 'a \<Rightarrow> 'd \<Rightarrow> ('a, 'r) scan \<times> 'd" where
  "scan_sectors dk f fail [] acc d = (Go acc, d)"
| "scan_sectors dk f fail (lba # lbas) acc d =
     (let (ok, buf, d) = dk_read dk lba d in
      if \<not> ok then (Stop (fail acc), d) else
      case scan_entries f lba buf (map (\<lambda>k. k * DIR_ENTRY_SIZE) [0..<ATA_SECTOR_SIZE div DIR_ENTRY_SIZE]) acc of
        Stop r \<Rightarrow> (Stop r, d) | Go acc \<Rightarrow> scan_sectors dk f fail lbas acc d)"

definition cluster_sectors :: "fat \<Rightarrow> u32 \<Rightarrow> u32 list" where
  "cluster_sectors fs cluster = map (\<lambda>s. cluster_to_lba fs cluster + of_nat s) [0..<unat (sectors_per_cluster fs)]"

partial_function (option) dir_walk ::
  "'d disk \<Rightarrow> fat \<Rightarrow> ('a, 'r) visit \<Rightarrow> ('a \<Rightarrow> 'r) \<Rightarrow> u32 \<Rightarrow> u32 \<Rightarrow> 'a \<Rightarrow> 'd \<Rightarrow> (('a, 'r) scan \<times> u32 \<times> 'd) option" where
  "dir_walk dk fs f fail cluster last_cluster acc d =
     (if cluster \<ge> 2 \<and> cluster < FAT_EOC then
        let (r, d) = scan_sectors dk f fail (cluster_sectors fs cluster) acc d in
        case r of
          Stop x \<Rightarrow> Some (Stop x, cluster, d)
        | Go acc \<Rightarrow> let (next, d) = fat_next_cluster dk fs cluster d in dir_walk dk fs f fail next cluster acc d
      else Some (Go acc, last_cluster, d))"

text \<open>A live entry is neither deleted, nor a part of a long name, nor the label of the volume.\<close>

definition live_entry :: "u8 list \<Rightarrow> bool" where
  "live_entry e = (e ! 0 \<noteq> 0xE5 \<and> e ! 11 \<noteq> ATTR_LFN \<and> e ! 11 AND ATTR_VOLUME_ID = 0)"

definition entry_cluster :: "u8 list \<Rightarrow> u32" where
  "entry_cluster e = push_bit 16 (ucast (load16 e 20)) OR ucast (load16 e 26)"

definition find_visit :: "u8 list \<Rightarrow> (unit, (u32 \<times> nat \<times> u8 list) option) visit" where
  "find_visit target lba off e acc =
     (if e ! 0 = 0 then Stop None else if \<not> live_entry e then Go ()
      else if take 11 e = target then Stop (Some (lba, off, e)) else Go ())"

definition find_named :: "'d disk \<Rightarrow> fat \<Rightarrow> u8 list \<Rightarrow> 'd \<Rightarrow> ((u32 \<times> nat \<times> u8 list) option \<times> 'd) option" where
  "find_named dk fs name d =
     map_option (\<lambda>(r, _, d). (case r of Stop x \<Rightarrow> x | Go _ \<Rightarrow> None, d))
       (dir_walk dk fs (find_visit (to_short_name name)) (\<lambda>_. None) (root_cluster fs) (root_cluster fs) () d)"

definition find_entry :: "'d disk \<Rightarrow> fat \<Rightarrow> u8 list \<Rightarrow> 'd \<Rightarrow> ((u32 \<times> u32) option \<times> 'd) option" where
  "find_entry dk fs name d =
     map_option (\<lambda>(r, d). (map_option (\<lambda>(lba, off, e). (entry_cluster e, load32 e 28)) r, d)) (find_named dk fs name d)"

definition find_entry_location :: "'d disk \<Rightarrow> fat \<Rightarrow> u8 list \<Rightarrow> 'd \<Rightarrow> ((u32 \<times> nat) option \<times> 'd) option" where
  "find_entry_location dk fs name d =
     map_option (\<lambda>(r, d). (map_option (\<lambda>(lba, off, e). (lba, off)) r, d)) (find_named dk fs name d)"

text \<open>A line of the listing: the name in readable form, padded, and the size of a file.\<close>

definition entry_name :: "u8 list \<Rightarrow> u8 list" where
  "entry_name e =
     (let n = takeWhile (\<lambda>c. c \<noteq> 0x20) (take 8 e) @
        (if e ! 8 \<noteq> 0x20 then 0x2E # takeWhile (\<lambda>c. c \<noteq> 0x20) (take 3 (drop 8 e)) else [])
      in n @ replicate (14 - length n) 0x20)"

definition list_visit :: "((u8 list \<times> u32 option) list, int \<times> (u8 list \<times> u32 option) list) visit" where
  "list_visit lba off e rows =
     (if e ! 0 = 0 then Stop (int (length rows), rows) else if \<not> live_entry e then Go rows
      else Go (rows @ [(entry_name e, if e ! 11 AND ATTR_DIRECTORY \<noteq> 0 then None else Some (load32 e 28))]))"

definition fat32_list_root :: "'d disk \<Rightarrow> fat \<Rightarrow> 'd \<Rightarrow> ((int \<times> (u8 list \<times> u32 option) list) \<times> 'd) option" where
  "fat32_list_root dk fs d =
     (if \<not> mounted fs then Some ((-1, []), d) else
      map_option (\<lambda>(r, _, d). (case r of Stop x \<Rightarrow> x | Go rows \<Rightarrow> (int (length rows), rows), d))
        (dir_walk dk fs list_visit (\<lambda>rows. (-1, rows)) (root_cluster fs) (root_cluster fs) [] d))"

definition slot_visit :: "(unit, (u32 \<times> nat) option) visit" where
  "slot_visit lba off e acc = (if e ! 0 = 0 \<or> e ! 0 = 0xE5 then Stop (Some (lba, off)) else Go ())"

primrec write_all :: "'d disk \<Rightarrow> u8 list \<Rightarrow> u32 list \<Rightarrow> 'd \<Rightarrow> bool \<times> 'd" where
  "write_all dk buf [] d = (True, d)"
| "write_all dk buf (lba # lbas) d =
     (let (ok, d) = dk_write dk lba buf d in if \<not> ok then (False, d) else write_all dk buf lbas d)"

definition find_free_dir_slot :: "'d disk \<Rightarrow> fat \<Rightarrow> 'd \<Rightarrow> ((u32 \<times> nat) option \<times> 'd) option" where
  "find_free_dir_slot dk fs d =
     map_option (\<lambda>(r, last_cluster, d).
       case r of
         Stop x \<Rightarrow> (x, d)
       | Go _ \<Rightarrow>
           let (new_cluster, d) = fat_alloc_cluster dk fs d in
           if new_cluster = 0 then (None, d) else
           let (ok, d) = fat_set_entry dk fs last_cluster new_cluster d in
           if \<not> ok then (None, d) else
           let (ok, d) = write_all dk (replicate ATA_SECTOR_SIZE 0) (cluster_sectors fs new_cluster) d in
           if \<not> ok then (None, d) else (Some (cluster_to_lba fs new_cluster, 0), d))
       (dir_walk dk fs slot_visit (\<lambda>_. None) (root_cluster fs) (root_cluster fs) () d)"

definition dir_entry :: "u8 list \<Rightarrow> u32 \<Rightarrow> u32 \<Rightarrow> u8 list" where
  "dir_entry name11 cluster sz =
     name11 @ [ATTR_ARCHIVE] @ replicate 8 0 @ bytes16 (ucast (drop_bit 16 cluster)) @ replicate 4 0 @
     bytes16 (ucast (cluster AND 0xFFFF)) @ bytes32 sz"

definition write_dir_entry :: "'d disk \<Rightarrow> u32 \<Rightarrow> nat \<Rightarrow> u8 list \<Rightarrow> u32 \<Rightarrow> u32 \<Rightarrow> 'd \<Rightarrow> bool \<times> 'd" where
  "write_dir_entry dk lba off name11 cluster sz d =
     (let (ok, buf, d) = dk_read dk lba d in
      if \<not> ok then (False, d) else dk_write dk lba (store_at off (dir_entry name11 cluster sz) buf) d)"

section \<open>Files\<close>

text \<open>The sectors of one cluster, up to the end of the data; the result counts the bytes written.\<close>

primrec write_cluster :: "'d disk \<Rightarrow> u8 list \<Rightarrow> u32 list \<Rightarrow> nat \<Rightarrow> 'd \<Rightarrow> (bool \<times> nat) \<times> 'd" where
  "write_cluster dk data [] written d = ((True, written), d)"
| "write_cluster dk data (lba # lbas) written d =
     (if written < length data then
        let chunk = min (length data - written) ATA_SECTOR_SIZE;
            (ok, d) = dk_write dk lba (take chunk (drop written data) @ replicate (ATA_SECTOR_SIZE - chunk) 0) d
        in if \<not> ok then ((False, written), d) else write_cluster dk data lbas (written + chunk) d
      else ((True, written), d))"

text \<open>
  The clusters of a file, \<open>n\<close> of them to go. The result is an error of the code, or the first
  cluster and the number of bytes written.
\<close>

primrec write_clusters ::
  "nat \<Rightarrow> 'd disk \<Rightarrow> fat \<Rightarrow> u8 list \<Rightarrow> u32 \<Rightarrow> u32 \<Rightarrow> nat \<Rightarrow> 'd \<Rightarrow> ((int + u32 \<times> nat) \<times> 'd) option" where
  "write_clusters 0 dk fs data first_cluster prev_cluster written d = Some (Inr (first_cluster, written), d)"
| "write_clusters (Suc n) dk fs data first_cluster prev_cluster written d =
     (let (cluster, d) = fat_alloc_cluster dk fs d in
      if cluster = 0 then
        (if first_cluster \<noteq> 0 then map_option (\<lambda>(_, d). (Inl (-5), d)) (fat_free_chain dk fs first_cluster d)
         else Some (Inl (-5), d))
      else
        let (ok, d) = (if first_cluster = 0 then (True, d) else fat_set_entry dk fs prev_cluster cluster d) in
        if \<not> ok then Some (Inl (-6), d) else
        let first_cluster = (if first_cluster = 0 then cluster else first_cluster);
            ((ok, written), d) = write_cluster dk data (cluster_sectors fs cluster) written d
        in if \<not> ok then map_option (\<lambda>(_, d). (Inl (-7), d)) (fat_free_chain dk fs first_cluster d)
           else write_clusters n dk fs data first_cluster cluster written d)"

definition fat32_write_data :: "'d disk \<Rightarrow> fat \<Rightarrow> u8 list \<Rightarrow> u8 list \<Rightarrow> u32 \<times> nat \<Rightarrow> 'd \<Rightarrow> (int \<times> 'd) option" where
  "fat32_write_data dk fs name data loc d =
     (let (entry_lba, entry_off) = loc; size' = of_nat (length data) :: u32 in
      if size' = 0 then
        (let (ok, d) = write_dir_entry dk entry_lba entry_off (to_short_name name) 0 0 d in Some (if ok then 0 else -4, d))
      else
        let cluster_bytes = ucast (sectors_per_cluster fs) * ucast (bytes_per_sector fs);
            needed = (size' + cluster_bytes - 1) div cluster_bytes
        in Option.bind (write_clusters (unat needed) dk fs data 0 0 0 d) (\<lambda>(r, d).
           case r of Inl err \<Rightarrow> Some (err, d)
           | Inr (first_cluster, written) \<Rightarrow>
               let (ok, d) = write_dir_entry dk entry_lba entry_off (to_short_name name) first_cluster size' d
               in Some (if ok then sint (of_nat written :: u32) else -8, d)))"

definition fat32_write_file :: "'d disk \<Rightarrow> fat \<Rightarrow> u8 list \<Rightarrow> u8 list \<Rightarrow> 'd \<Rightarrow> (int \<times> 'd) option" where
  "fat32_write_file dk fs name data d =
     (if \<not> mounted fs then Some (-1, d) else
      Option.bind (find_entry_location dk fs name d) (\<lambda>(r, d).
      case r of
        Some (entry_lba, entry_off) \<Rightarrow>
          let (ok, buf, d) = dk_read dk entry_lba d in
          if \<not> ok then Some (-1, d) else
          let old_cluster = entry_cluster (drop entry_off buf) in
          Option.bind (if old_cluster \<ge> 2 then fat_free_chain dk fs old_cluster d else Some (True, d)) (\<lambda>(ok, d).
          if \<not> ok then Some (-2, d) else fat32_write_data dk fs name data (entry_lba, entry_off) d)
      | None \<Rightarrow>
          Option.bind (find_free_dir_slot dk fs d) (\<lambda>(r, d).
          case r of None \<Rightarrow> Some (-3, d) | Some loc \<Rightarrow> fat32_write_data dk fs name data loc d)))"

definition fat32_delete_file :: "'d disk \<Rightarrow> fat \<Rightarrow> u8 list \<Rightarrow> 'd \<Rightarrow> (int \<times> 'd) option" where
  "fat32_delete_file dk fs name d =
     (if \<not> mounted fs then Some (-1, d) else
      Option.bind (find_entry_location dk fs name d) (\<lambda>(r, d).
      case r of None \<Rightarrow> Some (-1, d)
      | Some (entry_lba, entry_off) \<Rightarrow>
          let (ok, buf, d) = dk_read dk entry_lba d in
          if \<not> ok then Some (-2, d) else
          let cluster = entry_cluster (drop entry_off buf);
              (ok, d) = dk_write dk entry_lba (buf[entry_off := 0xE5]) d
          in if \<not> ok then Some (-3, d)
             else if cluster \<ge> 2 then map_option (\<lambda>(_, d). (0, d)) (fat_free_chain dk fs cluster d)
             else Some (0, d)))"

primrec free_clusters_from :: "'d disk \<Rightarrow> fat \<Rightarrow> u32 \<Rightarrow> u32 list \<Rightarrow> u64 \<Rightarrow> 'd \<Rightarrow> u64 \<times> 'd" where
  "free_clusters_from dk fs per [] free_clusters d = (free_clusters, d)"
| "free_clusters_from dk fs per (sector # sectors) free_clusters d =
     (let (ok, buf, d) = dk_read dk (ucast (reserved_sectors fs) + sector) d in
      if \<not> ok then (free_clusters, d) else
      let n = length (filter (\<lambda>i. \<not> sector * per + of_nat i < 2 \<and> load32 buf (i * 4) AND 0x0FFFFFFF = 0) [0..<unat per])
      in free_clusters_from dk fs per sectors (free_clusters + of_nat n) d)"

definition fat32_free_space :: "'d disk \<Rightarrow> fat \<Rightarrow> 'd \<Rightarrow> u64 \<times> 'd" where
  "fat32_free_space dk fs d =
     (if \<not> mounted fs then (0, d) else
      let (n, d) = free_clusters_from dk fs (ucast (bytes_per_sector fs div 4)) (map of_nat [0..<unat (fat_size fs)]) 0 d
      in (n * ucast (sectors_per_cluster fs) * ucast (bytes_per_sector fs), d))"

definition fat32_file_size :: "'d disk \<Rightarrow> fat \<Rightarrow> u8 list \<Rightarrow> 'd \<Rightarrow> (int \<times> 'd) option" where
  "fat32_file_size dk fs name d =
     (if \<not> mounted fs then Some (-1, d) else
      map_option (\<lambda>(r, d). (case r of None \<Rightarrow> -1 | Some (cluster, sz) \<Rightarrow> sint sz, d)) (find_entry dk fs name d))"

text \<open>The bytes a read stores in the buffer of the caller; reading a cluster stops at the end of the file.\<close>

primrec read_cluster :: "'d disk \<Rightarrow> u32 list \<Rightarrow> nat \<Rightarrow> u8 list \<Rightarrow> 'd \<Rightarrow> (bool \<times> nat \<times> u8 list) \<times> 'd" where
  "read_cluster dk [] remaining out d = ((True, remaining, out), d)"
| "read_cluster dk (lba # lbas) remaining out d =
     (if remaining > 0 then
        let (ok, buf, d) = dk_read dk lba d in
        if \<not> ok then ((False, remaining, out), d) else
        let chunk = (if remaining < ATA_SECTOR_SIZE then remaining else ATA_SECTOR_SIZE)
        in read_cluster dk lbas (remaining - chunk) (out @ take chunk buf) d
      else ((True, remaining, out), d))"

partial_function (option) read_chain ::
  "'d disk \<Rightarrow> fat \<Rightarrow> u32 \<Rightarrow> nat \<Rightarrow> u8 list \<Rightarrow> 'd \<Rightarrow> ((bool \<times> nat \<times> u8 list) \<times> 'd) option" where
  "read_chain dk fs cluster remaining out d =
     (if cluster \<ge> 2 \<and> cluster < FAT_EOC \<and> remaining > 0 then
        let ((ok, remaining, out), d) = read_cluster dk (cluster_sectors fs cluster) remaining out d in
        if \<not> ok then Some ((False, remaining, out), d) else
        let (next, d) = fat_next_cluster dk fs cluster d in read_chain dk fs next remaining out d
      else Some ((True, remaining, out), d))"

definition fat32_read_file :: "'d disk \<Rightarrow> fat \<Rightarrow> u8 list \<Rightarrow> u32 \<Rightarrow> 'd \<Rightarrow> ((int \<times> u8 list) \<times> 'd) option" where
  "fat32_read_file dk fs name buffer_size d =
     (if \<not> mounted fs then Some ((-1, []), d) else
      Option.bind (find_entry dk fs name d) (\<lambda>(r, d).
      case r of None \<Rightarrow> Some ((-1, []), d)
      | Some (cluster, sz) \<Rightarrow>
          if sz > buffer_size then Some ((-2, []), d) else
          map_option (\<lambda>((ok, remaining, out), d). ((if ok then sint (sz - of_nat remaining) else -1, out), d))
            (read_chain dk fs cluster (unat sz) [] d)))"

section \<open>Volumes\<close>

text \<open>
  A disk as the file system needs it: a sector read is the sector of the image, a sector written
  replaces it. The driver of the kernel is such a disk, see below.
\<close>

locale block_device =
  fixes dk :: "'d disk" and img :: "'d \<Rightarrow> u32 \<Rightarrow> u8 list" and ready :: "'d \<Rightarrow> bool" and sectors :: nat
  assumes read_law: "\<lbrakk>ready d; unat lba < sectors\<rbrakk> \<Longrightarrow>
      \<exists>d'. dk_read dk lba d = (True, img d lba, d') \<and> ready d' \<and> img d' = img d"
    and write_law: "\<lbrakk>ready d; unat lba < sectors; length bs = ATA_SECTOR_SIZE\<rbrakk> \<Longrightarrow>
      \<exists>d'. dk_write dk lba bs d = (True, d') \<and> ready d' \<and> img d' = (img d)(lba := bs)"
    and img_length: "length (img d lba) = ATA_SECTOR_SIZE"

text \<open>
  The geometry of a volume: tables and clusters follow each other and fit on the disk, which holds
  the data of the clusters \<open>2\<close> to \<open>N - 1\<close>.
\<close>

definition fat_geometry :: "nat \<Rightarrow> nat \<Rightarrow> fat \<Rightarrow> bool" where
  "fat_geometry sectors N fs =
     (mounted fs \<and> bytes_per_sector fs = 512 \<and> sectors_per_cluster fs \<noteq> 0 \<and> num_fats fs \<noteq> 0 \<and>
      unat (first_data_sector fs) = unat (reserved_sectors fs) + unat (num_fats fs) * unat (fat_size fs) \<and>
      128 * unat (fat_size fs) \<le> 2 ^ 28 \<and> N \<le> 128 * unat (fat_size fs) \<and> 2 < N \<and> N \<le> unat FAT_EOC \<and>
      unat (first_data_sector fs) + (N - 2) * unat (sectors_per_cluster fs) \<le> sectors \<and> sectors \<le> 2 ^ 32)"

text \<open>The table of an image, its first copy, and the sectors of a cluster.\<close>

definition fat_tab :: "fat \<Rightarrow> (u32 \<Rightarrow> u8 list) \<Rightarrow> u32 \<Rightarrow> u32" where
  "fat_tab fs m c = load32 (m (ucast (reserved_sectors fs) + c div 128)) (4 * (unat c mod 128)) AND 0x0FFFFFFF"

definition fat_dat :: "fat \<Rightarrow> (u32 \<Rightarrow> u8 list) \<Rightarrow> u32 \<Rightarrow> u8 list list" where
  "fat_dat fs m c = map m (cluster_sectors fs c)"

text \<open>The clusters that have data, and the chains of them that the table links from a first cluster.\<close>

definition fat_valid :: "nat \<Rightarrow> u32 \<Rightarrow> bool" where
  "fat_valid N c = (2 \<le> c \<and> unat c < N)"

fun fat_chain :: "nat \<Rightarrow> (u32 \<Rightarrow> u32) \<Rightarrow> u32 list \<Rightarrow> u32 \<Rightarrow> bool" where
  "fat_chain N t [] c = (\<not> (2 \<le> c \<and> c < FAT_EOC))"
| "fat_chain N t (x # xs) c = (c = x \<and> fat_valid N x \<and> t x \<noteq> 0 \<and> fat_chain N t xs (t x))"

definition fat_free :: "fat \<Rightarrow> (u32 \<Rightarrow> u32) \<Rightarrow> u32 set" where
  "fat_free fs t = {c. 2 \<le> unat c \<and> unat c < 128 * unat (fat_size fs) \<and> t c = 0}"

lemma store_at_length: "i + length bs \<le> length buf \<Longrightarrow> length (store_at i bs buf) = length buf"
  by (simp add: store_at_def)

lemma load32_store_same: "i + 4 \<le> length buf \<Longrightarrow> load32 (store_at i (bytes32 x) buf) i = x"
  using load32_bytes32 [of x "drop (i + 4) buf"] load_skip(2) [of "take i buf" "bytes32 x @ drop (i + 4) buf" 0]
  by (simp add: store_at_def)

lemma store_at_nth:
  assumes "i + length bs \<le> length buf"
  shows "store_at i bs buf ! j = (if i \<le> j \<and> j < i + length bs then bs ! (j - i) else buf ! j)"
  using assms by (auto simp: store_at_def nth_append)

lemma load32_store_other:
  assumes "i + 4 \<le> length buf" "j + 4 \<le> i \<or> i + 4 \<le> j"
  shows "load32 (store_at i (bytes32 x) buf) j = load32 buf j"
  using assms by (auto simp: load32_def store_at_nth)

locale volume = block_device dk img ready sectors
  for dk :: "'d disk" and img ready sectors +
  fixes fs :: fat and N :: nat
  assumes geometry: "fat_geometry sectors N fs"
begin

abbreviation "spc \<equiv> unat (sectors_per_cluster fs)"
abbreviation "first \<equiv> unat (first_data_sector fs)"
abbreviation "reserved \<equiv> unat (reserved_sectors fs)"
abbreviation "table_size \<equiv> unat (fat_size fs)"
abbreviation "tab d \<equiv> fat_tab fs (img d)"
abbreviation "chain \<equiv> fat_chain N"
abbreviation "dat d \<equiv> fat_dat fs (img d)"

abbreviation "valid \<equiv> fat_valid N"

lemma geom: "bytes_per_sector fs = 512" "0 < spc" "0 < unat (num_fats fs)" "first = reserved + unat (num_fats fs) * table_size"
  "128 * table_size \<le> 2 ^ 28" "N \<le> 128 * table_size" "2 < N" "N \<le> unat FAT_EOC" "first + (N - 2) * spc \<le> sectors" "sectors \<le> 2 ^ 32" "mounted fs"
  using geometry by (auto simp: fat_geometry_def unat_gt_0)

lemma validD: "valid c \<Longrightarrow> 2 \<le> unat c \<and> unat c < N \<and> unat c < 128 * table_size \<and> c \<ge> 2 \<and> c < FAT_EOC"
  using geom(6,8) by (auto simp: fat_valid_def word_le_nat_alt word_less_nat_alt)

lemma data_lba:
  assumes "valid c" "s < spc"
  shows "unat (cluster_to_lba fs c + of_nat s) = first + (unat c - 2) * spc + s \<and> first + (unat c - 2) * spc + s < sectors"
proof -
  have c: "2 \<le> unat c" "unat c < N" using validD [OF assms(1)] by simp_all
  have "(unat c - 2) * spc + s < (unat c - 2) * spc + spc" using assms(2) by simp
  also have "\<dots> = Suc (unat c - 2) * spc" by simp
  also have "\<dots> \<le> (N - 2) * spc" using c by (intro mult_le_mono1) simp
  finally have lt: "first + (unat c - 2) * spc + s < sectors" using geom(9) by simp
  have "unat (c - 2) = unat c - 2" using c by (subst unat_sub_no_wrap) (simp_all add: word_le_nat_alt)
  moreover have "unat (ucast (sectors_per_cluster fs) :: u32) = spc"
    using unsigned_less [of "sectors_per_cluster fs", where 'a = nat] by (simp add: unsigned_ucast_eq take_bit_nat_eq_self)
  ultimately have m: "unat ((c - 2) * ucast (sectors_per_cluster fs) :: u32) = (unat c - 2) * spc"
    using lt geom(10) by (simp add: unat_word_ariths)
  have "unat (cluster_to_lba fs c) = first + (unat c - 2) * spc"
    unfolding cluster_to_lba_def using m lt geom(10) by (subst unat_add_no_wrap) simp_all
  moreover have "unat (of_nat s :: u32) = s"
    using lt geom(10) by (simp add: unat_of_nat)
  ultimately show ?thesis using lt geom(10) by (subst unat_add_no_wrap) simp_all
qed

lemma data_lba_inj:
  assumes "valid c" "valid c'" "s < spc" "s' < spc" "cluster_to_lba fs c + of_nat s = cluster_to_lba fs c' + of_nat s'"
  shows "c = c' \<and> s = s'"
proof -
  have "(unat c - 2) * spc + s = (unat c' - 2) * spc + s'"
    using data_lba [OF assms(1,3)] data_lba [OF assms(2,4)] assms(5) by simp
  from arg_cong [OF this, of "\<lambda>x. x div spc"] arg_cong [OF this, of "\<lambda>x. x mod spc"] assms(3,4)
  have "unat c - 2 = unat c' - 2" "s = s'" by simp_all
  moreover have "2 \<le> unat c" "2 \<le> unat c'" using validD assms(1,2) by blast+
  ultimately have "unat c = unat c'" by simp
  then show ?thesis using \<open>s = s'\<close> by (simp add: word_unat_eq_iff)
qed

lemma ucast_512: "(ucast (512 :: u16) :: u32) = 512"
  by simp

lemma table_lba:
  assumes "k < unat (num_fats fs)" "unat c < 128 * table_size"
  shows "unat (ucast (reserved_sectors fs) + of_nat k * fat_size fs + c * 4 div ucast (bytes_per_sector fs) :: u32) =
      reserved + k * table_size + unat c div 128"
    and "reserved + k * table_size + unat c div 128 < first" "first \<le> sectors"
    and "unat (c * 4 mod ucast (bytes_per_sector fs)) = 4 * (unat c mod 128)"
    and "c * 4 div ucast (bytes_per_sector fs) = c div 128"
proof -
  show fs': "first \<le> sectors" using geom(9) by simp
  have q: "unat c div 128 < table_size" using assms(2) by (simp add: less_mult_imp_div_less mult.commute)
  have "k * table_size + table_size \<le> unat (num_fats fs) * table_size"
    using assms(1) mult_le_mono1 [of "Suc k" "unat (num_fats fs)" table_size] by simp
  with q show lt: "reserved + k * table_size + unat c div 128 < first" using geom(4) by simp
  have c4: "unat (c * 4) = 4 * unat c" using assms(2) geom(5) by (simp add: unat_word_ariths)
  have "4 * n div 512 = n div 128" "4 * n mod 512 = 4 * (n mod 128)" for n :: nat
    using div_mult_mult1 [of 4 n 128] mult_mod_right [of 4 n 128] by simp_all
  then show d: "c * 4 div ucast (bytes_per_sector fs) = c div 128"
    and "unat (c * 4 mod ucast (bytes_per_sector fs)) = 4 * (unat c mod 128)"
    by (simp_all add: geom(1) word_unat_eq_iff unat_div unat_mod c4)
  have r: "unat (ucast (reserved_sectors fs) :: u32) = reserved"
    using unsigned_less [of "reserved_sectors fs", where 'a = nat] by (simp add: unsigned_ucast_eq take_bit_nat_eq_self)
  have "unat (of_nat k :: u32) = k" using assms(1) unsigned_less [of "num_fats fs", where 'a = nat] by (simp add: unat_of_nat)
  then have m: "unat (of_nat k * fat_size fs :: u32) = k * table_size"
    using lt fs' geom(10) by (simp add: unat_word_ariths)
  have "unat (ucast (reserved_sectors fs) + of_nat k * fat_size fs :: u32) = reserved + k * table_size"
    using m r lt fs' geom(10) by (subst unat_add_no_wrap) simp_all
  moreover have "unat (c div 128) = unat c div 128" by (simp add: unat_div)
  ultimately show "unat (ucast (reserved_sectors fs) + of_nat k * fat_size fs + c * 4 div ucast (bytes_per_sector fs) :: u32) =
      reserved + k * table_size + unat c div 128"
    unfolding d using lt fs' geom(10) by (subst unat_add_no_wrap) simp_all
qed

end

context volume
begin

text \<open>The table \<open>t\<close> and the clusters \<open>g\<close> of the volume in a state of the disk.\<close>

definition holds_vol :: "'d \<Rightarrow> (u32 \<Rightarrow> u32) \<Rightarrow> (u32 \<Rightarrow> u8 list list) \<Rightarrow> bool" where
  "holds_vol d t g = (ready d \<and> (\<forall>c. unat c < 128 * table_size \<longrightarrow> tab d c = t c) \<and> (\<forall>c. valid c \<longrightarrow> dat d c = g c))"

lemma holds_volD: "holds_vol d t g \<Longrightarrow> ready d" "\<lbrakk>holds_vol d t g; unat c < 128 * table_size\<rbrakk> \<Longrightarrow> tab d c = t c"
  "\<lbrakk>holds_vol d t g; valid c\<rbrakk> \<Longrightarrow> dat d c = g c"
  by (simp_all add: holds_vol_def)

lemma holds_vol_self: "ready d \<Longrightarrow> holds_vol d (tab d) (dat d)"
  by (simp add: holds_vol_def)

lemma holds_vol_img: "holds_vol d t g \<Longrightarrow> ready d' \<Longrightarrow> img d' = img d \<Longrightarrow> holds_vol d' t g"
  by (simp add: holds_vol_def)

lemma holds_vol_cong: "\<lbrakk>holds_vol d t g; \<And>c. unat c < 128 * table_size \<Longrightarrow> t c = t' c; \<And>c. valid c \<Longrightarrow> g c = g' c\<rbrakk> \<Longrightarrow> holds_vol d t' g'"
  by (simp add: holds_vol_def)

lemma dat_nth: "s < spc \<Longrightarrow> fat_dat fs m c ! s = m (cluster_to_lba fs c + of_nat s)"
  by (simp add: fat_dat_def cluster_sectors_def)

lemma length_dat: "length (fat_dat fs m c) = spc"
  by (simp add: fat_dat_def cluster_sectors_def)

lemma g_shape: "holds_vol d t g \<Longrightarrow> valid c \<Longrightarrow> length (g c) = spc \<and> (\<forall>s < spc. length (g c ! s) = 512)"
  using holds_volD(3) [of d t g c] by (metis dat_nth img_length length_dat)

lemma read_any:
  assumes "holds_vol d t g" "unat lba < sectors"
  shows "\<exists>d'. dk_read dk lba d = (True, img d lba, d') \<and> holds_vol d' t g \<and> img d' = img d"
  using read_law [OF holds_volD(1) [OF assms(1)] assms(2)] holds_vol_img [OF assms(1)] by blast

lemma read_sector:
  assumes "holds_vol d t g" "valid c" "s < spc"
  shows "\<exists>d'. dk_read dk (cluster_to_lba fs c + of_nat s) d = (True, g c ! s, d') \<and> holds_vol d' t g"
  using read_any [OF assms(1), of "cluster_to_lba fs c + of_nat s"] data_lba [OF assms(2,3)]
    holds_volD(3) [OF assms(1,2)] dat_nth [OF assms(3), of "img d" c] by auto

lemma table_sector_lt: "unat c < 128 * table_size \<Longrightarrow> unat (ucast (reserved_sectors fs) + c div 128 :: u32) = reserved + unat c div 128 \<and>
    reserved + unat c div 128 < first \<and> first \<le> sectors \<and> reserved + unat c div 128 < reserved + table_size"
  using table_lba [of 0 c] geom(3) by (simp add: less_mult_imp_div_less mult.commute)

lemma table_sector_ne: "unat x < 128 * table_size \<Longrightarrow> valid c \<Longrightarrow> s < spc \<Longrightarrow>
    ucast (reserved_sectors fs) + x div 128 \<noteq> cluster_to_lba fs c + of_nat s"
  using table_sector_lt [of x] data_lba [of c s] by auto

lemma write_sector:
  assumes "holds_vol d t g" "valid c" "s < spc" "length bs = 512"
  shows "\<exists>d'. dk_write dk (cluster_to_lba fs c + of_nat s) bs d = (True, d') \<and> holds_vol d' t (g(c := (g c)[s := bs]))"
proof -
  let ?lba = "cluster_to_lba fs c + of_nat s"
  obtain d' where d': "dk_write dk ?lba bs d = (True, d')" "ready d'" "img d' = (img d)(?lba := bs)"
    using write_law [OF holds_volD(1) [OF assms(1)] _ assms(4), of ?lba] data_lba [OF assms(2,3)] by auto
  have "tab d' x = t x" if "unat x < 128 * table_size" for x
    using table_sector_ne [OF that assms(2,3)] holds_volD(2) [OF assms(1) that] by (simp add: d'(3) fat_tab_def)
  moreover have "dat d' x = (g(c := (g c)[s := bs])) x" if "valid x" for x
  proof (rule nth_equalityI)
    fix i assume "i < length (dat d' x)"
    then have i: "i < spc" by (simp add: length_dat)
    have "img d (cluster_to_lba fs x + of_nat i) = g x ! i"
      using holds_volD(3) [OF assms(1) that] dat_nth [OF i, of "img d" x] by simp
    then show "dat d' x ! i = (g(c := (g c)[s := bs])) x ! i"
      using data_lba_inj [OF that assms(2) i assms(3)] g_shape [OF assms(1,2)] i
      by (cases "x = c"; cases "i = s") (auto simp: dat_nth d'(3))
  qed (use g_shape [OF assms(1)] that in \<open>auto simp: length_dat\<close>)
  ultimately show ?thesis using d'(1,2) unfolding holds_vol_def by blast
qed

lemma next_cluster:
  assumes "holds_vol d t g" "unat c < 128 * table_size"
  shows "\<exists>d'. fat_next_cluster dk fs c d = (t c, d') \<and> holds_vol d' t g"
proof -
  let ?lba = "ucast (reserved_sectors fs) + c div 128 :: u32"
  obtain d' where d': "dk_read dk ?lba d = (True, img d ?lba, d')" "holds_vol d' t g"
    using read_any [OF assms(1), of ?lba] table_sector_lt [OF assms(2)] by auto
  have "tab d c = t c" using holds_volD(2) [OF assms] .
  then show ?thesis using d' table_lba(4,5) [of 0 c] geom(3) assms(2) by (simp add: fat_next_cluster_def fat_tab_def)
qed

lemma set_one_copy:
  assumes "holds_vol d t g" "k < unat (num_fats fs)" "unat c < 128 * table_size"
  shows "\<exists>d'. fat_set_copies dk fs c v (of_nat k # ks) d = fat_set_copies dk fs c v ks d' \<and>
    holds_vol d' (if k = 0 then t(c := v AND 0x0FFFFFFF) else t) g"
proof -
  let ?lba = "ucast (reserved_sectors fs) + of_nat k * fat_size fs + c div 128 :: u32" and ?off = "4 * (unat c mod 128)"
  note lba = table_lba [OF assms(2,3)]
  have lba_lt: "unat ?lba = reserved + k * table_size + unat c div 128" "unat ?lba < first" "unat ?lba < sectors"
    using lba by simp_all
  obtain d1 where d1: "dk_read dk ?lba d = (True, img d ?lba, d1)" "holds_vol d1 t g" "img d1 = img d"
    using read_any [OF assms(1) lba_lt(3)] by blast
  let ?new = "(load32 (img d ?lba) ?off AND 0xF0000000) OR (v AND 0x0FFFFFFF)"
  let ?buf = "store_at ?off (bytes32 ?new) (img d ?lba)"
  have off: "?off + 4 \<le> 512" using mod_less_divisor [of 128 "unat c"] by linarith
  have "length ?buf = 512" using off by (simp add: store_at_length img_length)
  from write_law [OF holds_volD(1) [OF d1(2)] lba_lt(3) this] obtain d2
    where d2: "dk_write dk ?lba ?buf d1 = (True, d2)" "ready d2" "img d2 = (img d)(?lba := ?buf)" using d1(3) by auto
  have new: "?new AND 0x0FFFFFFF = v AND 0x0FFFFFFF" by (simp add: bit.conj_disj_distrib2 and.assoc)
  have "tab d2 x = (if k = 0 then t(c := v AND 0x0FFFFFFF) else t) x" if x: "unat x < 128 * table_size" for x
  proof -
    have tx: "tab d x = t x" by (rule holds_volD(2) [OF assms(1) x])
    let ?xl = "ucast (reserved_sectors fs) + x div 128 :: u32"
    have xl: "unat ?xl = reserved + unat x div 128" "unat x div 128 < table_size" using table_sector_lt [OF x] by simp_all
    show ?thesis
    proof (cases "?xl = ?lba")
      case False
      then have "\<not> (k = 0 \<and> x = c)" by auto
      then show ?thesis using False tx by (auto simp: fat_tab_def d2(3))
    next
      case True
      then have "reserved + unat x div 128 = reserved + k * table_size + unat c div 128"
        using arg_cong [OF True, of unat] unfolding xl(1) lba_lt(1) by blast
      then have k: "k = 0" using xl(2) by (cases k) auto
      then have q: "unat x div 128 = unat c div 128"
        using \<open>reserved + unat x div 128 = reserved + k * table_size + unat c div 128\<close> by simp
      show ?thesis
      proof (cases "x = c")
        case True
        then show ?thesis using k off new by (simp add: fat_tab_def d2(3) load32_store_same img_length)
      next
        case xc: False
        then have "unat x mod 128 \<noteq> unat c mod 128" using q by (metis div_mult_mod_eq word_unat_eq_iff)
        then have "4 * (unat x mod 128) + 4 \<le> ?off \<or> ?off + 4 \<le> 4 * (unat x mod 128)" by linarith
        then show ?thesis using xc k True tx off by (simp add: fat_tab_def d2(3) load32_store_other img_length)
      qed
    qed
  qed
  moreover have "dat d2 x = g x" if "valid x" for x
  proof -
    have "cluster_to_lba fs x + of_nat s \<noteq> ?lba" if "s < spc" for s
      using data_lba [OF \<open>valid x\<close> that] lba_lt(2) by auto
    then have "dat d2 x = dat d x" unfolding fat_dat_def d2(3) by (auto simp: cluster_sectors_def)
    then show ?thesis using holds_volD(3) [OF assms(1) that] by simp
  qed
  ultimately have "holds_vol d2 (if k = 0 then t(c := v AND 0x0FFFFFFF) else t) g" using d2(2) unfolding holds_vol_def by blast
  moreover have "fat_set_copies dk fs c v (of_nat k # ks) d = fat_set_copies dk fs c v ks d2"
    using lba(4,5) d1(1) d2(1) by simp
  ultimately show ?thesis by blast
qed

lemma set_copies:
  assumes "holds_vol d t g" "\<forall>k \<in> set ks. k < unat (num_fats fs)" "unat c < 128 * table_size"
  shows "\<exists>d'. fat_set_copies dk fs c v (map of_nat ks) d = (True, d') \<and>
    holds_vol d' (if 0 \<in> set ks then t(c := v AND 0x0FFFFFFF) else t) g"
  using assms(1,2)
proof (induction ks arbitrary: d t)
  case (Cons k ks)
  obtain d1 where d1: "fat_set_copies dk fs c v (map of_nat (k # ks)) d = fat_set_copies dk fs c v (map of_nat ks) d1"
    "holds_vol d1 (if k = 0 then t(c := v AND 0x0FFFFFFF) else t) g"
    using set_one_copy [OF Cons.prems(1) _ assms(3), of k v "map of_nat ks"] Cons.prems(2) by auto
  from Cons.IH [OF d1(2)] Cons.prems(2) obtain d2 where "fat_set_copies dk fs c v (map of_nat ks) d1 = (True, d2)"
    "holds_vol d2 (if 0 \<in> set ks then (if k = 0 then t(c := v AND 0x0FFFFFFF) else t)(c := v AND 0x0FFFFFFF) else
       (if k = 0 then t(c := v AND 0x0FFFFFFF) else t)) g" by auto
  then show ?case using d1(1) by (cases "k = 0"; cases "0 \<in> set ks") (auto simp: fun_upd_def cong: if_cong)
qed simp

lemma set_entry:
  assumes "holds_vol d t g" "unat c < 128 * table_size"
  shows "\<exists>d'. fat_set_entry dk fs c v d = (True, d') \<and> holds_vol d' (t(c := v AND 0x0FFFFFFF)) g"
  using set_copies [OF assms(1) _ assms(2), of "[0..<unat (num_fats fs)]" v] geom(3) by (simp add: fat_set_entry_def)

end

context volume
begin

abbreviation "free_clusters \<equiv> fat_free fs"

lemma finite_free [simp]: "finite (free_clusters t)"
  by (rule finite_subset [of _ UNIV]) simp_all

lemma entry_index:
  assumes "k < table_size" "i < 128"
  defines "c \<equiv> of_nat k * 128 + of_nat i :: u32"
  shows "unat c = 128 * k + i" "c div 128 = of_nat k" "unat c mod 128 = i" "unat c < 128 * table_size"
proof -
  have lt: "128 * k + i < 128 * table_size" using assms(1,2) by linarith
  then have "unat (of_nat k :: u32) = k" "unat (of_nat i :: u32) = i" using geom(5) assms(2) by (simp_all add: unat_of_nat)
  moreover from this have "unat (of_nat k * 128 :: u32) = 128 * k" using lt geom(5) by (simp add: unat_word_ariths)
  ultimately show u: "unat c = 128 * k + i"
    unfolding c_def using lt geom(5) by (subst unat_add_no_wrap) simp_all
  then show "unat c mod 128 = i" "unat c < 128 * table_size" using assms(2) lt by simp_all
  have "unat (c div 128) = k" using u assms(2) by (simp add: unat_div)
  then show "c div 128 = of_nat k" by (simp add: word_unat_eq_iff \<open>unat (of_nat k :: u32) = k\<close>)
qed

lemma total_clusters: "unat (fat_size fs * 128) = 128 * table_size"
  using geom(5) by (simp add: unat_word_ariths)

lemma free_entry_sector:
  assumes "holds_vol d t g" "k < table_size"
  shows "case free_entry (of_nat k) 128 (fat_size fs * 128) (img d (ucast (reserved_sectors fs) + of_nat k)) of
      None \<Rightarrow> \<forall>i < 128. of_nat k * 128 + of_nat i \<notin> free_clusters t
    | Some i \<Rightarrow> of_nat k * 128 + of_nat i \<in> free_clusters t"
proof -
  let ?buf = "img d (ucast (reserved_sectors fs) + of_nat k)"
  have iff: "\<not> (of_nat k * 128 + of_nat i < (2 :: u32) \<or> of_nat k * 128 + of_nat i \<ge> fat_size fs * 128) \<and>
      load32 ?buf (i * 4) AND 0x0FFFFFFF = 0 \<longleftrightarrow> of_nat k * 128 + of_nat i \<in> free_clusters t" if "i < 128" for i
  proof -
    note c = entry_index [OF assms(2) that]
    have "t (of_nat k * 128 + of_nat i) = load32 ?buf (i * 4) AND 0x0FFFFFFF"
      using holds_volD(2) [OF assms(1) c(4)] c(2,3) by (simp add: fat_tab_def mult.commute)
    then show ?thesis
      using c(4) total_clusters by (simp add: fat_free_def word_less_nat_alt word_le_nat_alt not_le not_less)
  qed
  show ?thesis
  proof (cases "free_entry (of_nat k) 128 (fat_size fs * 128) ?buf")
    case None
    then have "\<not> (\<not> (of_nat k * 128 + of_nat i < (2 :: u32) \<or> of_nat k * 128 + of_nat i \<ge> fat_size fs * 128) \<and>
      load32 ?buf (i * 4) AND 0x0FFFFFFF = 0)" if "i < 128" for i
      using that unfolding free_entry_def Let_def find_None_iff by simp
    then show ?thesis using None iff by (simp only: option.case) blast
  next
    case (Some i)
    then have "i < 128" "\<not> (of_nat k * 128 + of_nat i < (2 :: u32) \<or> of_nat k * 128 + of_nat i \<ge> fat_size fs * 128) \<and>
      load32 ?buf (i * 4) AND 0x0FFFFFFF = 0"
      unfolding free_entry_def Let_def find_Some_iff by auto
    then show ?thesis using Some iff [of i] by simp
  qed
qed

lemma alloc_from:
  assumes "holds_vol d t g" "\<forall>k \<in> set ks. k < table_size"
  shows "\<exists>c d'. fat_alloc_from dk fs 128 (fat_size fs * 128) (map of_nat ks) d = (c, d') \<and>
    (c \<in> free_clusters t \<and> holds_vol d' (t(c := 0x0FFFFFFF)) g \<or>
     c = 0 \<and> holds_vol d' t g \<and> (\<forall>k \<in> set ks. \<forall>i < 128. of_nat k * 128 + of_nat i \<notin> free_clusters t))"
  using assms
proof (induction ks arbitrary: d)
  case (Cons k ks)
  have k: "k < table_size" using Cons.prems(2) by simp
  let ?lba = "ucast (reserved_sectors fs) + of_nat k :: u32"
  have "?lba = ucast (reserved_sectors fs) + (of_nat k * 128 + of_nat 0) div 128"
    using entry_index(2) [OF k, of 0] by simp
  then have "unat ?lba < sectors" using table_sector_lt [OF entry_index(4) [OF k, of 0]] by simp
  from read_any [OF Cons.prems(1) this] obtain d1
    where d1: "dk_read dk ?lba d = (True, img d ?lba, d1)" "holds_vol d1 t g" by blast
  show ?case
  proof (cases "free_entry (of_nat k) 128 (fat_size fs * 128) (img d ?lba)")
    case None
    then have none: "\<forall>i < 128. of_nat k * 128 + of_nat i \<notin> free_clusters t"
      using free_entry_sector [OF Cons.prems(1) k] by simp
    from Cons.IH [OF d1(2)] Cons.prems(2) obtain c d' where
      "fat_alloc_from dk fs 128 (fat_size fs * 128) (map of_nat ks) d1 = (c, d')"
      "c \<in> free_clusters t \<and> holds_vol d' (t(c := 0x0FFFFFFF)) g \<or>
       c = 0 \<and> holds_vol d' t g \<and> (\<forall>k \<in> set ks. \<forall>i < 128. of_nat k * 128 + of_nat i \<notin> free_clusters t)" by (auto simp del: fun_upd_apply)
    then show ?thesis using None none d1(1) by (auto simp del: fun_upd_apply)
  next
    case (Some i)
    let ?c = "of_nat k * 128 + of_nat i :: u32"
    have c: "?c \<in> free_clusters t" using free_entry_sector [OF Cons.prems(1) k] Some by simp
    then have "unat ?c < 128 * table_size" by (simp add: fat_free_def)
    from set_entry [OF d1(2) this, of "0x0FFFFFFF"] obtain d2
      where "fat_set_entry dk fs ?c 0x0FFFFFFF d1 = (True, d2)" "holds_vol d2 (t(?c := 0x0FFFFFFF)) g" by auto
    then show ?thesis using c Some d1(1) by (auto simp del: fun_upd_apply)
  qed
qed simp

lemma alloc_cluster:
  assumes "holds_vol d t g"
  obtains c d' where "fat_alloc_cluster dk fs d = (c, d')" "c \<in> free_clusters t" "holds_vol d' (t(c := 0x0FFFFFFF)) g"
  | d' where "fat_alloc_cluster dk fs d = (0, d')" "free_clusters t = {}" "holds_vol d' t g"
proof -
  have per: "ucast (bytes_per_sector fs div 4) = (128 :: u32)" using geom(1) by simp
  have none: "free_clusters t = {}" if "\<forall>k \<in> set [0..<table_size]. \<forall>i < 128. of_nat k * 128 + of_nat i \<notin> free_clusters t"
  proof (rule equals0I)
    fix c assume c: "c \<in> free_clusters t"
    let ?k = "unat c div 128" and ?i = "unat c mod 128"
    have "?k < table_size" using c by (simp add: fat_free_def less_mult_imp_div_less mult.commute)
    moreover from entry_index(1) [OF this, of ?i] have "unat (of_nat ?k * 128 + of_nat ?i :: u32) = unat c" by simp
    ultimately have "of_nat ?k * 128 + of_nat ?i = c" "?k \<in> set [0..<table_size]" by (simp_all add: word_unat_eq_iff)
    then show False using that [rule_format, of ?k ?i] c by simp
  qed
  show ?thesis
    using alloc_from [OF assms, of "[0..<table_size]"] none that by (auto simp: fat_alloc_cluster_def per simp del: fun_upd_apply)
qed

section \<open>Chains\<close>

lemma chain_valid: "chain t cs c \<Longrightarrow> x \<in> set cs \<Longrightarrow> valid x \<and> t x \<noteq> 0"
  by (induction cs arbitrary: c) auto

lemma chain_unique: "chain t cs c \<Longrightarrow> chain t cs' c \<Longrightarrow> cs = cs'"
proof (induction cs arbitrary: c cs')
  case Nil
  then show ?case using validD by (cases cs') auto
next
  case (Cons x xs)
  then show ?case using validD [of x] by (cases cs') auto
qed

lemma chain_distinct: "chain t cs c \<Longrightarrow> distinct cs"
proof (induction "length cs" arbitrary: cs c rule: less_induct)
  case less
  show ?case
  proof (cases cs)
    case (Cons x xs)
    have "x \<notin> set xs"
    proof
      assume "x \<in> set xs"
      then obtain ys zs where xs: "xs = ys @ x # zs" using split_list by fast
      have suffix: "chain t bs x" if "chain t (as @ bs) c'" "bs = x # zs" for as bs c'
        using that by (induction as arbitrary: c') auto
      have "chain t (x # xs) x" "chain t (x # zs) x" using less.prems suffix [of "x # ys" "x # zs" c] by (simp_all add: Cons xs)
      then have "xs = zs" using chain_unique by blast
      then show False by (simp add: xs)
    qed
    then show ?thesis using less.hyps [of xs "t x"] less.prems by (simp add: Cons)
  qed simp
qed

lemma chain_cong: "chain t cs c \<Longrightarrow> (\<And>x. x \<in> set cs \<Longrightarrow> t' x = t x) \<Longrightarrow> chain t' cs c"
  by (induction cs arbitrary: c) auto

lemma free_chain:
  assumes "holds_vol d t g" "chain t cs c"
  shows "\<exists>d'. fat_free_chain dk fs c d = Some (True, d') \<and> holds_vol d' (\<lambda>x. if x \<in> set cs then 0 else t x) g"
  using assms
proof (induction cs arbitrary: c d t)
  case Nil
  then show ?case by (subst fat_free_chain.simps) auto
next
  case (Cons x xs)
  then have x: "c = x" "valid x" "chain t xs (t x)" "x \<notin> set xs" using chain_distinct [OF Cons.prems(2)] by auto
  have tx: "unat x < 128 * table_size" "x \<ge> 2 \<and> x < FAT_EOC" using validD [OF x(2)] by simp_all
  obtain d1 where d1: "fat_next_cluster dk fs x d = (t x, d1)" "holds_vol d1 t g" using next_cluster [OF Cons.prems(1) tx(1)] by blast
  obtain d2 where d2: "fat_set_entry dk fs x 0 d1 = (True, d2)" "holds_vol d2 (t(x := 0)) g"
    using set_entry [OF d1(2) tx(1), of 0] by auto
  have "chain (t(x := 0)) xs (t x)" by (rule chain_cong [OF x(3)]) (use x(4) in auto)
  from Cons.IH [OF d2(2) this] obtain d3 where "fat_free_chain dk fs (t x) d2 = Some (True, d3)"
    "holds_vol d3 (\<lambda>y. if y \<in> set xs then 0 else (t(x := 0)) y) g" by blast
  moreover have "(\<lambda>y. if y \<in> set xs then 0 else (t(x := 0)) y) = (\<lambda>y. if y \<in> set (x # xs) then 0 else t y)" by auto
  ultimately show ?case using x(1) tx(2) d1(1) d2(1) by (subst fat_free_chain.simps) auto
qed

end

section \<open>Directories and contents\<close>

text \<open>
  The place of a directory entry is a cluster, a sector in it and an index. The entries before the
  first that begins with zero are in use; of these the live ones name the files.
\<close>

type_synonym slot = "u32 \<times> nat \<times> nat"

definition fat_slots :: "fat \<Rightarrow> u32 list \<Rightarrow> slot list" where
  "fat_slots fs cs = concat (map (\<lambda>c. concat (map (\<lambda>s. map (\<lambda>k. (c, s, k)) [0..<16]) [0..<unat (sectors_per_cluster fs)])) cs)"

definition slot_lba :: "fat \<Rightarrow> slot \<Rightarrow> u32" where
  "slot_lba fs x = (case x of (c, s, k) \<Rightarrow> cluster_to_lba fs c + of_nat s)"

definition slot_off :: "slot \<Rightarrow> nat" where
  "slot_off x = (case x of (c, s, k) \<Rightarrow> k * 32)"

definition fat_ent :: "(u32 \<Rightarrow> u8 list list) \<Rightarrow> slot \<Rightarrow> u8 list" where
  "fat_ent g x = (case x of (c, s, k) \<Rightarrow> take 32 (drop (k * 32) (g c ! s)))"

definition fat_lives :: "(u32 \<Rightarrow> u8 list list) \<Rightarrow> slot list \<Rightarrow> slot list" where
  "fat_lives g S = filter (\<lambda>x. live_entry (fat_ent g x)) (takeWhile (\<lambda>x. fat_ent g x ! 0 \<noteq> 0) S)"

definition fat_lookup :: "(u32 \<Rightarrow> u8 list list) \<Rightarrow> slot list \<Rightarrow> u8 list \<Rightarrow> slot option" where
  "fat_lookup g S n = find (\<lambda>x. take 11 (fat_ent g x) = n) (fat_lives g S)"

definition fat_content :: "(u32 \<Rightarrow> u8 list list) \<Rightarrow> u32 list \<Rightarrow> u8 list" where
  "fat_content g cs = concat (map (\<lambda>c. concat (g c)) cs)"

primrec scan_slots :: "fat \<Rightarrow> ('a, 'r) visit \<Rightarrow> (u32 \<Rightarrow> u8 list list) \<Rightarrow> slot list \<Rightarrow> 'a \<Rightarrow> ('a, 'r) scan" where
  "scan_slots fs f g [] acc = Go acc"
| "scan_slots fs f g (x # xs) acc =
     (case f (slot_lba fs x) (slot_off x) (fat_ent g x) acc of Stop r \<Rightarrow> Stop r | Go acc \<Rightarrow> scan_slots fs f g xs acc)"

lemma scan_slots_append:
  "scan_slots fs f g (xs @ ys) acc = (case scan_slots fs f g xs acc of Stop r \<Rightarrow> Stop r | Go acc \<Rightarrow> scan_slots fs f g ys acc)"
  by (induction xs arbitrary: acc) (auto split: scan.split)

lemma scan_find:
  "(case scan_slots fs (find_visit n) g S () of Stop x \<Rightarrow> x | Go _ \<Rightarrow> None) =
     map_option (\<lambda>x. (slot_lba fs x, slot_off x, fat_ent g x)) (fat_lookup g S n)"
  by (induction S) (auto simp: find_visit_def fat_lookup_def fat_lives_def)

lemma scan_slot:
  "scan_slots fs slot_visit g S () =
     (case find (\<lambda>x. fat_ent g x ! 0 = 0 \<or> fat_ent g x ! 0 = 0xE5) S of
        Some x \<Rightarrow> Stop (Some (slot_lba fs x, slot_off x)) | None \<Rightarrow> Go ())"
  by (induction S) (auto simp: slot_visit_def)

lemma scan_entries_slots:
  "scan_entries f (cluster_to_lba fs c + of_nat s) (g c ! s) (map (\<lambda>k. k * 32) ks) acc = scan_slots fs f g (map (\<lambda>k. (c, s, k)) ks) acc"
  by (induction ks arbitrary: acc) (auto simp: fat_ent_def slot_lba_def slot_off_def split: scan.split)

context volume
begin

abbreviation "slots \<equiv> fat_slots fs"

lemma scan_sectors_slots:
  assumes "holds_vol d t g" "valid c" "\<forall>s \<in> set ss. s < spc"
  shows "\<exists>d'. scan_sectors dk f fail (map (\<lambda>s. cluster_to_lba fs c + of_nat s) ss) acc d =
    (scan_slots fs f g (concat (map (\<lambda>s. map (\<lambda>k. (c, s, k)) [0..<16]) ss)) acc, d') \<and> holds_vol d' t g"
  using assms(1,3)
proof (induction ss arbitrary: acc d)
  case (Cons s ss)
  let ?xs = "map (\<lambda>k. (c, s, k)) [0..<16]"
  have "s < spc" using Cons.prems(2) by simp
  from read_sector [OF Cons.prems(1) assms(2) this] obtain d1
    where d1: "dk_read dk (cluster_to_lba fs c + of_nat s) d = (True, g c ! s, d1)" "holds_vol d1 t g" by blast
  have e: "scan_entries f (cluster_to_lba fs c + of_nat s) (g c ! s) (map (\<lambda>k. k * 32) [0..<512 div 32]) acc = scan_slots fs f g ?xs acc"
    using scan_entries_slots [of f fs c s g "[0..<16]" acc] by simp
  show ?case
  proof (cases "scan_slots fs f g ?xs acc")
    case (Go a)
    obtain d2 where "scan_sectors dk f fail (map (\<lambda>s. cluster_to_lba fs c + of_nat s) ss) a d1 =
      (scan_slots fs f g (concat (map (\<lambda>s. map (\<lambda>k. (c, s, k)) [0..<16]) ss)) a, d2)" "holds_vol d2 t g"
      using Cons.IH [OF d1(2), of a] Cons.prems(2) by auto
    then show ?thesis using d1(1) e Go by (simp add: scan_slots_append del: upt_Suc upt_rec_numeral)
  next
    case (Stop r)
    then show ?thesis using d1 e by (simp add: scan_slots_append del: upt_Suc upt_rec_numeral)
  qed
qed auto

lemma walk:
  assumes "holds_vol d t g" "chain t cs c"
  shows "\<exists>l d'. dir_walk dk fs f fail c l0 acc d = Some (scan_slots fs f g (slots cs) acc, l, d') \<and> holds_vol d' t g \<and>
    (\<forall>a. scan_slots fs f g (slots cs) acc = Go a \<longrightarrow> l = last (l0 # cs))"
  using assms
proof (induction cs arbitrary: c l0 acc d)
  case Nil
  then show ?case by (subst dir_walk.simps) (auto simp: fat_slots_def)
next
  case (Cons x xs)
  then have x: "c = x" "valid x" "chain t xs (t x)" by auto
  have tx: "unat x < 128 * table_size" "x \<ge> 2 \<and> x < FAT_EOC" using validD [OF x(2)] by simp_all
  have sl: "slots (x # xs) = slots [x] @ slots xs" by (simp add: fat_slots_def)
  obtain d1 where d1: "scan_sectors dk f fail (cluster_sectors fs x) acc d = (scan_slots fs f g (slots [x]) acc, d1)" "holds_vol d1 t g"
    using scan_sectors_slots [OF Cons.prems(1) x(2), of "[0..<spc]" f fail acc]
    by (auto simp: cluster_sectors_def fat_slots_def simp del: upt_Suc upt_rec_numeral)
  show ?case
  proof (cases "scan_slots fs f g (slots [x]) acc")
    case (Stop r)
    then show ?thesis using d1 x(1) tx(2) by (subst dir_walk.simps) (simp add: sl scan_slots_append)
  next
    case (Go a)
    obtain d2 where d2: "fat_next_cluster dk fs x d1 = (t x, d2)" "holds_vol d2 t g" using next_cluster [OF d1(2) tx(1)] by blast
    from Cons.IH [OF d2(2) x(3), of x a] obtain l d3 where
      "dir_walk dk fs f fail (t x) x a d2 = Some (scan_slots fs f g (slots xs) a, l, d3)" "holds_vol d3 t g"
      "\<forall>b. scan_slots fs f g (slots xs) a = Go b \<longrightarrow> l = last (x # xs)" by blast
    then show ?thesis using Go d1 d2 x(1) tx(2) by (subst dir_walk.simps) (simp add: sl scan_slots_append)
  qed
qed

lemma find_named_lookup:
  assumes "holds_vol d t g" "chain t R (root_cluster fs)"
  shows "\<exists>d'. find_named dk fs name d = Some (map_option (\<lambda>x. (slot_lba fs x, slot_off x, fat_ent g x))
      (fat_lookup g (slots R) (to_short_name name)), d') \<and> holds_vol d' t g"
  using walk [OF assms, of "find_visit (to_short_name name)" "\<lambda>_. None" "root_cluster fs" "()"]
    scan_find [of fs "to_short_name name" g "slots R"]
  by (auto simp: find_named_def)

lemma read_cluster_sectors:
  assumes "holds_vol d t g" "valid c" "i \<le> spc"
  shows "\<exists>d'. read_cluster dk (map (\<lambda>s. cluster_to_lba fs c + of_nat s) [i..<spc]) rest out d =
    ((True, rest - 512 * (spc - i), out @ take rest (concat (drop i (g c)))), d') \<and> holds_vol d' t g"
  using assms(1,3)
proof (induction "spc - i" arbitrary: i rest out d)
  case 0
  then have "drop i (g c) = []" "[i..<spc] = []" using g_shape [OF 0(2) assms(2)] by simp_all
  then show ?case using 0 by auto
next
  case (Suc n)
  then have i: "i < spc" by simp
  have len: "length (g c) = spc" "length (g c ! i) = 512" using g_shape [OF Suc.prems(1) assms(2)] i by simp_all
  have ds: "drop i (g c) = g c ! i # drop (Suc i) (g c)" using len(1) i by (simp add: Cons_nth_drop_Suc)
  show ?case
  proof (cases "rest > 0")
    case False
    then show ?thesis using Suc.prems(1) i by (simp add: upt_conv_Cons)
  next
    case True
    obtain d1 where d1: "dk_read dk (cluster_to_lba fs c + of_nat i) d = (True, g c ! i, d1)" "holds_vol d1 t g"
      using read_sector [OF Suc.prems(1) assms(2) i] by blast
    let ?k = "if rest < 512 then rest else 512"
    have "n = spc - Suc i" "Suc i \<le> spc" using Suc.hyps(2) i by simp_all
    from Suc.hyps(1) [OF this(1) d1(2) this(2), of "rest - ?k" "out @ take ?k (g c ! i)"] obtain d2 where
      "read_cluster dk (map (\<lambda>s. cluster_to_lba fs c + of_nat s) [Suc i..<spc]) (rest - ?k) (out @ take ?k (g c ! i)) d1 =
        ((True, rest - ?k - 512 * (spc - Suc i), (out @ take ?k (g c ! i)) @ take (rest - ?k) (concat (drop (Suc i) (g c)))), d2)"
      "holds_vol d2 t g" by blast
    moreover have "rest - ?k - 512 * (spc - Suc i) = rest - 512 * (spc - i)" using i by auto
    moreover have "take ?k (g c ! i) @ take (rest - ?k) (concat (drop (Suc i) (g c))) = take rest (concat (drop i (g c)))"
      by (simp add: ds len(2))
    ultimately show ?thesis using d1(1) True i by (simp add: upt_conv_Cons)
  qed
qed

lemma length_cluster: "holds_vol d t g \<Longrightarrow> valid c \<Longrightarrow> length (concat (g c)) = 512 * spc"
proof -
  assume a: "holds_vol d t g" "valid c"
  then have "length (g c) = spc" "\<forall>s < spc. length (g c ! s) = 512" using g_shape by blast+
  then have "map length (g c) = replicate spc 512" by (intro nth_equalityI) simp_all
  then show ?thesis by (simp add: length_concat sum_list_replicate)
qed

lemma length_content: "holds_vol d t g \<Longrightarrow> (\<And>c. c \<in> set cs \<Longrightarrow> valid c) \<Longrightarrow> length (fat_content g cs) = 512 * spc * length cs"
  unfolding fat_content_def by (induction cs) (simp_all add: length_cluster)

lemma read_chain_content:
  assumes "holds_vol d t g" "chain t cs c"
  shows "\<exists>d'. read_chain dk fs c rest out d =
    Some ((True, rest - 512 * spc * length cs, out @ take rest (fat_content g cs)), d') \<and> holds_vol d' t g"
  using assms
proof (induction cs arbitrary: c rest out d)
  case Nil
  then show ?case by (subst read_chain.simps) (auto simp: fat_content_def)
next
  case (Cons x xs)
  then have x: "c = x" "valid x" "chain t xs (t x)" by auto
  have tx: "unat x < 128 * table_size" "x \<ge> 2 \<and> x < FAT_EOC" using validD [OF x(2)] by simp_all
  have len: "length (concat (g x)) = 512 * spc" using length_cluster [OF Cons.prems(1) x(2)] .
  show ?case
  proof (cases "rest > 0")
    case False
    then show ?thesis using Cons.prems(1) by (subst read_chain.simps) auto
  next
    case True
    obtain d1 where d1: "read_cluster dk (cluster_sectors fs x) rest out d =
      ((True, rest - 512 * spc, out @ take rest (concat (g x))), d1)" "holds_vol d1 t g"
      using read_cluster_sectors [OF Cons.prems(1) x(2), of 0 rest out] by (auto simp: cluster_sectors_def)
    obtain d2 where d2: "fat_next_cluster dk fs x d1 = (t x, d2)" "holds_vol d2 t g" using next_cluster [OF d1(2) tx(1)] by blast
    from Cons.IH [OF d2(2) x(3), of "rest - 512 * spc" "out @ take rest (concat (g x))"] obtain d3 where
      "read_chain dk fs (t x) (rest - 512 * spc) (out @ take rest (concat (g x))) d2 =
        Some ((True, rest - 512 * spc - 512 * spc * length xs, (out @ take rest (concat (g x))) @ take (rest - 512 * spc) (fat_content g xs)), d3)"
      "holds_vol d3 t g" by blast
    then show ?thesis using True d1(1) d2(1) x(1) tx(2) len
      by (subst read_chain.simps) (simp add: fat_content_def diff_diff_left)
  qed
qed

end

context volume
begin

section \<open>Writing\<close>

text \<open>A cluster of the right shape: its sectors, of 512 bytes.\<close>

definition shaped :: "u8 list list \<Rightarrow> bool" where
  "shaped gc = (length gc = spc \<and> (\<forall>s < spc. length (gc ! s) = 512))"

lemma g_shaped: "holds_vol d t g \<Longrightarrow> valid c \<Longrightarrow> shaped (g c)"
  using g_shape by (simp add: shaped_def)

lemma write_cluster_sectors:
  assumes "holds_vol d t g" "valid c" "i \<le> spc" "w \<le> length bs"
  shows "\<exists>d' gc. write_cluster dk bs (map (\<lambda>s. cluster_to_lba fs c + of_nat s) [i..<spc]) w d =
      ((True, min (length bs) (w + 512 * (spc - i))), d') \<and> holds_vol d' t (g(c := gc)) \<and> shaped gc \<and> take i gc = take i (g c) \<and>
      take (length bs - w) (concat (drop i gc)) = take (512 * (spc - i)) (drop w bs)"
  using assms(1,3,4)
proof (induction "spc - i" arbitrary: i w d g)
  case 0
  then have "[i..<spc] = []" "drop i (g c) = []" using g_shape [OF 0(2) assms(2)] by simp_all
  then show ?case using 0 g_shaped [OF 0(2) assms(2)] by (auto simp del: fun_upd_apply intro!: exI [where x = "g c"])
next
  case (Suc n)
  then have i: "i < spc" by simp
  have gc: "shaped (g c)" using g_shaped [OF Suc.prems(1) assms(2)] .
  show ?case
  proof (cases "w < length bs")
    case False
    then show ?thesis using Suc.prems i gc by (auto simp: upt_conv_Cons simp del: fun_upd_apply intro!: exI [where x = "g c"])
  next
    case True
    let ?k = "min (length bs - w) 512"
    let ?buf = "take ?k (drop w bs) @ replicate (512 - ?k) 0"
    have buf: "length ?buf = 512" by simp
    obtain d1 where d1: "dk_write dk (cluster_to_lba fs c + of_nat i) ?buf d = (True, d1)" "holds_vol d1 t (g(c := (g c)[i := ?buf]))"
      using write_sector [OF Suc.prems(1) assms(2) i buf] by blast
    have "n = spc - Suc i" "Suc i \<le> spc" "w + ?k \<le> length bs" using Suc.hyps(2) i Suc.prems(3) by simp_all
    from Suc.hyps(1) [OF this(1) d1(2) this(2,3)] obtain d2 gc' where d2:
      "write_cluster dk bs (map (\<lambda>s. cluster_to_lba fs c + of_nat s) [Suc i..<spc]) (w + ?k) d1 =
        ((True, min (length bs) (w + ?k + 512 * (spc - Suc i))), d2)"
      "holds_vol d2 t (g(c := gc'))" "shaped gc'" "take (Suc i) gc' = take (Suc i) ((g c)[i := ?buf])"
      "take (length bs - (w + ?k)) (concat (drop (Suc i) gc')) = take (512 * (spc - Suc i)) (drop (w + ?k) bs)"
      by auto
    have len: "length gc' = spc" "length (g c) = spc" using d2(3) gc by (simp_all add: shaped_def)
    have nth: "gc' ! i = ?buf" using arg_cong [OF d2(4), of "\<lambda>xs. xs ! i"] len i by simp
    have ds: "drop i gc' = ?buf # drop (Suc i) gc'" using len i nth by (simp add: Cons_nth_drop_Suc [symmetric])
    have "take i gc' = take i (g c)" using arg_cong [OF d2(4), of "take i"] i by (simp add: min_def)
    moreover have "take (length bs - w) (concat (drop i gc')) = take (512 * (spc - i)) (drop w bs)"
    proof (cases "length bs - w \<le> 512")
      case True
      then show ?thesis using i by (simp add: ds min_def)
    next
      case False
      have k: "?k = 512" using False by simp
      have "take (length bs - w) (concat (drop i gc')) = take 512 (drop w bs) @ take (length bs - (w + 512)) (concat (drop (Suc i) gc'))"
        using False by (simp add: ds min_def diff_diff_left)
      also have "\<dots> = take 512 (drop w bs) @ take (512 * (spc - Suc i)) (drop (w + 512) bs)"
        using d2(5) unfolding k by simp
      also have "\<dots> = take (512 + 512 * (spc - Suc i)) (drop w bs)"
        by (simp add: take_add add.commute)
      also have "512 + 512 * (spc - Suc i) = 512 * (spc - i)" using i by simp
      finally show ?thesis .
    qed
    moreover have "min (length bs) (w + ?k + 512 * (spc - Suc i)) = min (length bs) (w + 512 * (spc - i))" using i by auto
    ultimately show ?thesis using d1(1) d2(1-3) True i by (auto simp: upt_conv_Cons)
  qed
qed

lemma write_cluster_whole:
  assumes "holds_vol d t g" "valid c" "w \<le> length bs"
  shows "\<exists>d' gc. write_cluster dk bs (cluster_sectors fs c) w d = ((True, min (length bs) (w + 512 * spc)), d') \<and>
      holds_vol d' t (g(c := gc)) \<and> shaped gc \<and> take (length bs - w) (concat gc) = take (512 * spc) (drop w bs)"
  using write_cluster_sectors [OF assms(1,2) _ assms(3), of 0] by (auto simp: cluster_sectors_def)

lemma chain_append_one:
  assumes "chain t G f" "G \<noteq> []" "c \<notin> set G" "valid c" "t c = e" "e \<ge> FAT_EOC" "\<not> (2 \<le> t (last G) \<and> t (last G) < FAT_EOC)"
  shows "chain (t(last G := c)) (G @ [c]) f"
  using assms
proof (induction G arbitrary: f)
  case (Cons x xs)
  have c: "2 \<le> c" "c \<noteq> 0" using validD [OF Cons.prems(4)] by auto
  show ?case
  proof (cases "xs = []")
    case True
    then show ?thesis using Cons.prems c by auto
  next
    case False
    then have "last xs \<in> set xs" by simp
    moreover have "x \<notin> set xs" using chain_distinct [OF Cons.prems(1)] by simp
    ultimately have "last xs \<noteq> x" by auto
    then show ?thesis using Cons.IH [of "t x"] Cons.prems False by auto
  qed
qed simp

lemma alloc_valid:
  assumes "holds_vol d t g" "free_clusters t \<subseteq> Collect valid" "free_clusters t \<noteq> {}"
  obtains c d' where "fat_alloc_cluster dk fs d = (c, d')" "c \<in> free_clusters t" "c \<noteq> 0" "valid c" "unat c < 128 * table_size"
    "holds_vol d' (t(c := 0x0FFFFFFF)) g"
proof (rule alloc_cluster [OF assms(1)])
  fix c d' assume c: "fat_alloc_cluster dk fs d = (c, d')" "c \<in> free_clusters t" "holds_vol d' (t(c := 0x0FFFFFFF)) g"
  then have "c \<noteq> 0" "valid c" "unat c < 128 * table_size" using assms(2) by (auto simp: fat_free_def)
  with c show ?thesis using that by blast
qed (use assms(3) in simp)

text \<open>
  The clusters \<open>G\<close> of a file so far, linked from the first to the last, which ends the chain, and
  its data so far.
\<close>

definition written_so_far :: "u8 list \<Rightarrow> u32 list \<Rightarrow> (u32 \<Rightarrow> u32) \<Rightarrow> (u32 \<Rightarrow> u8 list list) \<Rightarrow> bool" where
  "written_so_far bs G t g =
     (chain t G (case G of [] \<Rightarrow> 0 | c # _ \<Rightarrow> c) \<and> (G \<noteq> [] \<longrightarrow> t (last G) = 0x0FFFFFFF) \<and>
      take (length bs) (fat_content g G) = take (512 * spc * length G) bs)"

lemma write_clusters_data:
  assumes "holds_vol d t g" "written_so_far bs G t g" "free_clusters t \<subseteq> Collect valid" "n \<le> card (free_clusters t)"
    "0 \<notin> set G"
  shows "\<exists>d' H t' g'. write_clusters n dk fs bs (case G of [] \<Rightarrow> 0 | c # _ \<Rightarrow> c) (case G of [] \<Rightarrow> 0 | _ \<Rightarrow> last G)
        (min (length bs) (512 * spc * length G)) d =
      Some (Inr (case G @ H of [] \<Rightarrow> 0 | c # _ \<Rightarrow> c, min (length bs) (512 * spc * (length G + n))), d') \<and>
    length H = n \<and> set H \<subseteq> free_clusters t \<and> holds_vol d' t' g' \<and> written_so_far bs (G @ H) t' g' \<and>
    (\<forall>x. x \<notin> set (G @ H) \<longrightarrow> t' x = t x) \<and> (\<forall>x. x \<notin> set H \<longrightarrow> g' x = g x)"
  using assms
proof (induction n arbitrary: d t g G)
  case 0
  then show ?case by (auto intro!: exI [where x = t] exI [where x = g])
next
  case (Suc n)
  let ?first = "case G of [] \<Rightarrow> 0 | c # _ \<Rightarrow> c" and ?w = "min (length bs) (512 * spc * length G)"
  have "free_clusters t \<noteq> {}" using Suc.prems(4) by auto
  from alloc_valid [OF Suc.prems(1,3) this] obtain c d1 where c: "fat_alloc_cluster dk fs d = (c, d1)" "c \<in> free_clusters t" "c \<noteq> 0"
    "valid c" "unat c < 128 * table_size" "holds_vol d1 (t(c := 0x0FFFFFFF)) g" .
  have G: "chain t G ?first" "G \<noteq> [] \<Longrightarrow> t (last G) = 0x0FFFFFFF" using Suc.prems(2) by (simp_all add: written_so_far_def)
  have cG: "c \<notin> set G" using chain_valid [OF G(1)] c(2) by (auto simp: fat_free_def)
  define t2 where "t2 = (if G = [] then t(c := 0x0FFFFFFF) else (t(c := 0x0FFFFFFF))(last G := c))"
  have "\<exists>d2. (if ?first = 0 then (True, d1) else fat_set_entry dk fs (last G) c d1) = (True, d2) \<and> holds_vol d2 t2 g"
  proof (cases G)
    case Nil
    then show ?thesis using c(6) by (simp add: t2_def)
  next
    case (Cons x xs)
    then have "x \<noteq> 0" using Suc.prems(5) by auto
    moreover have l: "valid (last G)" using chain_valid [OF G(1), of "last G"] Cons by auto
    moreover have "c AND 0x0FFFFFFF = c"
    proof -
      have "unat c < 2 ^ 28" using c(5) geom(5) by simp
      then have "take_bit 28 c = c" by (simp add: word_unat_eq_iff unsigned_take_bit_eq take_bit_nat_eq_self)
      then show ?thesis by (simp add: take_bit_eq_mask mask_eq_exp_minus_1)
    qed
    ultimately show ?thesis using set_entry [OF c(6), of "last G" c] validD [OF l] Cons by (auto simp: t2_def)
  qed
  then obtain d2 where d2: "(if ?first = 0 then (True, d1) else fat_set_entry dk fs (last G) c d1) = (True, d2)" "holds_vol d2 t2 g" by blast
  have "?w \<le> length bs" by simp
  from write_cluster_whole [OF d2(2) c(4) this] obtain d3 gc where d3:
    "write_cluster dk bs (cluster_sectors fs c) ?w d2 = ((True, min (length bs) (?w + 512 * spc)), d3)"
    "holds_vol d3 t2 (g(c := gc))" "shaped gc" "take (length bs - ?w) (concat gc) = take (512 * spc) (drop ?w bs)" by blast
  have w: "min (length bs) (?w + 512 * spc) = min (length bs) (512 * spc * length (G @ [c]))" by auto
  have ch: "chain t2 (G @ [c]) (case G @ [c] of [] \<Rightarrow> 0 | x # _ \<Rightarrow> x) \<and> t2 c = 0x0FFFFFFF"
  proof (cases "G = []")
    case True
    then show ?thesis using c(4) by (simp add: t2_def)
  next
    case False
    have last: "last G \<noteq> c" using False cG last_in_set by blast
    have "chain (t(c := 0x0FFFFFFF)) G ?first" by (rule chain_cong [OF G(1)]) (use cG in auto)
    then have "chain ((t(c := 0x0FFFFFFF))(last G := c)) (G @ [c]) ?first"
      by (rule chain_append_one [where e = "0x0FFFFFFF"]) (use False cG c(4) G(2) last in auto)
    moreover have "(case G @ [c] of [] \<Rightarrow> 0 | x # _ \<Rightarrow> x) = ?first" using False by (cases G) auto
    ultimately show ?thesis using False last by (auto simp: t2_def)
  qed
  have lenG: "length (fat_content (g(c := gc)) G) = 512 * spc * length G"
    and contG: "fat_content (g(c := gc)) G = fat_content g G"
  proof -
    have "length (fat_content g G) = 512 * spc * length G"
      using length_content [OF Suc.prems(1)] chain_valid [OF G(1)] by blast
    moreover show "fat_content (g(c := gc)) G = fat_content g G" using cG by (auto simp: fat_content_def intro!: arg_cong [where f = concat])
    ultimately show "length (fat_content (g(c := gc)) G) = 512 * spc * length G" by simp
  qed
  have sofar: "written_so_far bs (G @ [c]) t2 (g(c := gc))"
  proof -
    have old: "take (length bs) (fat_content g G) = take (512 * spc * length G) bs" using Suc.prems(2) by (simp add: written_so_far_def)
    have "fat_content (g(c := gc)) (G @ [c]) = fat_content g G @ concat gc" using contG by (simp add: fat_content_def)
    moreover have "take (length bs) (fat_content g G @ concat gc) = take (512 * spc * length (G @ [c])) bs"
    proof (cases "512 * spc * length G \<le> length bs")
      case True
      then have "?w = 512 * spc * length G" by simp
      moreover have e: "512 * spc * length (G @ [c]) = 512 * spc * length G + 512 * spc" by simp
      ultimately show ?thesis using d3(4) old lenG contG unfolding e take_add by simp
    next
      case False
      then show ?thesis using old lenG contG by simp
    qed
    ultimately show ?thesis using ch by (simp add: written_so_far_def)
  qed
  have free: "free_clusters t2 = free_clusters t - {c}"
  proof -
    have "t2 x = 0 \<longleftrightarrow> t x = 0 \<and> x \<noteq> c" for x
      using c(3) G(2) chain_valid [OF G(1), of "last G"] by (auto simp: t2_def)
    then show ?thesis by (auto simp: fat_free_def)
  qed
  then have "free_clusters t2 \<subseteq> Collect valid" "n \<le> card (free_clusters t2)" using Suc.prems(3,4) c(2) by auto
  from Suc.IH [OF d3(2) sofar this] Suc.prems(5) c(3) obtain d4 H t' g' where IH:
    "write_clusters n dk fs bs (case G @ [c] of [] \<Rightarrow> 0 | c # _ \<Rightarrow> c) (case G @ [c] of [] \<Rightarrow> 0 | _ \<Rightarrow> last (G @ [c]))
        (min (length bs) (512 * spc * length (G @ [c]))) d3 =
      Some (Inr (case (G @ [c]) @ H of [] \<Rightarrow> 0 | c # _ \<Rightarrow> c, min (length bs) (512 * spc * (length (G @ [c]) + n))), d4)"
    "length H = n" "set H \<subseteq> free_clusters t2" "holds_vol d4 t' g'" "written_so_far bs ((G @ [c]) @ H) t' g'"
    "\<forall>x. x \<notin> set ((G @ [c]) @ H) \<longrightarrow> t' x = t2 x" "\<forall>x. x \<notin> set H \<longrightarrow> g' x = (g(c := gc)) x" by auto
  have first: "(if ?first = 0 then c else ?first) = (case G @ [c] of [] \<Rightarrow> 0 | c # _ \<Rightarrow> c)"
    using Suc.prems(5) by (cases G) auto
  have prev: "(case G of [] \<Rightarrow> 0 | _ \<Rightarrow> last G) = (if ?first = 0 then 0 else last G)" using Suc.prems(5) by (cases G) auto
  have "write_clusters (Suc n) dk fs bs ?first (case G of [] \<Rightarrow> 0 | _ \<Rightarrow> last G) ?w d =
      Some (Inr (case G @ (c # H) of [] \<Rightarrow> 0 | c # _ \<Rightarrow> c, min (length bs) (512 * spc * (length G + Suc n))), d4)"
    using IH(1) c(1,3) d2(1) d3(1) first prev w by (auto simp: Let_def split: list.splits)
  moreover have "\<forall>x. x \<notin> set (G @ (c # H)) \<longrightarrow> t' x = t x" using IH(6) by (auto simp: t2_def)
  moreover have "\<forall>x. x \<notin> set (c # H) \<longrightarrow> g' x = g x" using IH(7) by auto
  ultimately show ?case using IH(2-5) free c(2)
    by (intro exI [where x = d4] exI [where x = "c # H"] exI [where x = t'] exI [where x = g']) auto
qed

end

section \<open>The file system of a volume\<close>

text \<open>
  A sound volume: the root directory is a chain \<open>R\<close>, every live entry \<open>x\<close> of it has a chain \<open>F x\<close>
  that is long enough for its size,
  no cluster is in two of these and no two entries have one name, the directory ends at its first zero, and the free entries of the
  table are those of clusters with data. It is a map from short names to contents.
\<close>

definition fat_size_of :: "(u32 \<Rightarrow> u8 list list) \<Rightarrow> slot \<Rightarrow> nat" where
  "fat_size_of g x = unat (load32 (fat_ent g x) 28)"

definition fat_volume :: "fat \<Rightarrow> nat \<Rightarrow> (u32 \<Rightarrow> u32) \<Rightarrow> (u32 \<Rightarrow> u8 list list) \<Rightarrow> u32 list \<Rightarrow> (slot \<Rightarrow> u32 list) \<Rightarrow> bool" where
  "fat_volume fs N t g R F =
     (fat_chain N t R (root_cluster fs) \<and> R \<noteq> [] \<and>
      (\<forall>x \<in> set (fat_lives g (fat_slots fs R)). fat_chain N t (F x) (entry_cluster (fat_ent g x)) \<and> set (F x) \<inter> set R = {} \<and>
        fat_size_of g x \<le> 512 * unat (sectors_per_cluster fs) * length (F x)) \<and>
      (\<forall>x \<in> set (fat_lives g (fat_slots fs R)). \<forall>y \<in> set (fat_lives g (fat_slots fs R)). x \<noteq> y \<longrightarrow>
        set (F x) \<inter> set (F y) = {} \<and> take 11 (fat_ent g x) \<noteq> take 11 (fat_ent g y)) \<and>
      (\<forall>x \<in> set (dropWhile (\<lambda>x. fat_ent g x ! 0 \<noteq> 0) (fat_slots fs R)). fat_ent g x ! 0 = 0) \<and>
      fat_free fs t \<subseteq> {c. fat_valid N c})"

definition fat_files :: "fat \<Rightarrow> (u32 \<Rightarrow> u8 list list) \<Rightarrow> u32 list \<Rightarrow> (slot \<Rightarrow> u32 list) \<Rightarrow> u8 list \<rightharpoonup> u8 list" where
  "fat_files fs g R F n =
     map_option (\<lambda>x. take (fat_size_of g x) (fat_content g (F x))) (fat_lookup g (fat_slots fs R) n)"

text \<open>The clusters of the file of a name.\<close>

definition fat_clusters :: "fat \<Rightarrow> (u32 \<Rightarrow> u8 list list) \<Rightarrow> u32 list \<Rightarrow> (slot \<Rightarrow> u32 list) \<Rightarrow> u8 list \<Rightarrow> u32 set" where
  "fat_clusters fs g R F n = (case fat_lookup g (fat_slots fs R) n of None \<Rightarrow> {} | Some x \<Rightarrow> set (F x))"

lemma find_filter: "(\<And>x. x \<in> set xs \<Longrightarrow> P x \<Longrightarrow> Q x) \<Longrightarrow> find P (filter Q xs) = find P xs"
  by (induction xs) auto

lemma find_cong_set: "(\<And>x. x \<in> set xs \<Longrightarrow> P x = Q x) \<Longrightarrow> find P xs = find Q xs"
  by (induction xs) auto

text \<open>
  One entry of the directory is rewritten, in use before or the first that was not: the other live
  entries stay, in their order.
\<close>

lemma lives_update:
  assumes same: "\<forall>y \<in> set S. y \<noteq> x \<longrightarrow> fat_ent g' y = fat_ent g y"
    and e: "fat_ent g' x ! 0 \<noteq> 0" "live_entry (fat_ent g' x)"
    and zeros: "\<forall>y \<in> set (dropWhile (\<lambda>y. fat_ent g y ! 0 \<noteq> 0) S). fat_ent g y ! 0 = 0"
    and pos: "x \<in> set (takeWhile (\<lambda>y. fat_ent g y ! 0 \<noteq> 0) S) \<or>
      (\<exists>us vs. S = us @ x # vs \<and> distinct S \<and> (\<forall>u \<in> set us. fat_ent g u ! 0 \<noteq> 0) \<and> fat_ent g x ! 0 = 0)"
  shows "filter (\<lambda>y. y \<noteq> x) (fat_lives g' S) = filter (\<lambda>y. y \<noteq> x) (fat_lives g S)" (is ?others)
    and "x \<in> set (fat_lives g' S)" (is ?there)
    and "\<forall>y \<in> set (dropWhile (\<lambda>y. fat_ent g' y ! 0 \<noteq> 0) S). fat_ent g' y ! 0 = 0" (is ?zeros)
proof -
  have other: "\<And>y. y \<in> set S \<Longrightarrow> y \<noteq> x \<Longrightarrow> fat_ent g' y = fat_ent g y" using same by blast
  have "?others \<and> ?there \<and> ?zeros"
    using pos
  proof
    assume x: "x \<in> set (takeWhile (\<lambda>y. fat_ent g y ! 0 \<noteq> 0) S)"
    have nz: "fat_ent g' y ! 0 \<noteq> 0 \<longleftrightarrow> fat_ent g y ! 0 \<noteq> 0" if "y \<in> set S" for y
      using other [OF that] e(1) set_takeWhileD [OF x] by (cases "y = x") auto
    then have tw: "takeWhile (\<lambda>y. fat_ent g' y ! 0 \<noteq> 0) S = takeWhile (\<lambda>y. fat_ent g y ! 0 \<noteq> 0) S"
      and dw: "dropWhile (\<lambda>y. fat_ent g' y ! 0 \<noteq> 0) S = dropWhile (\<lambda>y. fat_ent g y ! 0 \<noteq> 0) S"
      by (intro takeWhile_cong dropWhile_cong refl; simp)+
    have ?others unfolding fat_lives_def tw filter_filter
      by (rule filter_cong [OF refl]) (auto dest!: set_takeWhileD simp: other)
    moreover have ?there using x e(2) by (simp add: fat_lives_def tw)
    moreover have ?zeros unfolding dw using zeros nz set_dropWhileD by fastforce
    ultimately show ?thesis by blast
  next
    assume "\<exists>us vs. S = us @ x # vs \<and> distinct S \<and> (\<forall>u \<in> set us. fat_ent g u ! 0 \<noteq> 0) \<and> fat_ent g x ! 0 = 0"
    then obtain us vs where S: "S = us @ x # vs" "distinct S" "\<forall>u \<in> set us. fat_ent g u ! 0 \<noteq> 0" "fat_ent g x ! 0 = 0" by blast
    have us: "\<And>u. u \<in> set us \<Longrightarrow> fat_ent g' u = fat_ent g u" and vs: "\<And>v. v \<in> set vs \<Longrightarrow> fat_ent g' v = fat_ent g v"
      using other S(1,2) by auto
    have vz: "\<forall>v \<in> set vs. fat_ent g' v ! 0 = 0" using zeros S(1,3,4) vs by (simp add: dropWhile_append2)
    have "takeWhile (\<lambda>y. fat_ent g y ! 0 \<noteq> 0) S = us" using S by (simp add: takeWhile_append2)
    moreover have tv: "takeWhile (\<lambda>y. fat_ent g' y ! 0 \<noteq> 0) vs = []" "dropWhile (\<lambda>y. fat_ent g' y ! 0 \<noteq> 0) vs = vs"
      using vz by (cases vs; simp)+
    have "takeWhile (\<lambda>y. fat_ent g' y ! 0 \<noteq> 0) S = us @ [x]" "dropWhile (\<lambda>y. fat_ent g' y ! 0 \<noteq> 0) S = vs"
      using S(1,3) us e(1) tv by (simp_all add: takeWhile_append2 dropWhile_append2)
    ultimately show ?thesis using e(2) us vz S(2)
      by (auto simp: fat_lives_def S(1) intro!: filter_cong)
  qed
  then show ?others ?there ?zeros by blast+
qed

lemma lookup_update:
  assumes "filter (\<lambda>y. y \<noteq> x) (fat_lives g' S) = filter (\<lambda>y. y \<noteq> x) (fat_lives g S)" "x \<in> set (fat_lives g' S)"
    and same: "\<forall>y \<in> set S. y \<noteq> x \<longrightarrow> fat_ent g' y = fat_ent g y"
    and name: "take 11 (fat_ent g' x) = n"
    and old: "x \<in> set (fat_lives g S) \<Longrightarrow> take 11 (fat_ent g x) = n"
  shows "n' \<noteq> n \<Longrightarrow> fat_lookup g' S n' = fat_lookup g S n'"
proof -
  assume n': "n' \<noteq> n"
  have other: "\<And>y. y \<in> set S \<Longrightarrow> y \<noteq> x \<Longrightarrow> fat_ent g' y = fat_ent g y" using same by blast
  have S: "set (fat_lives h S) \<subseteq> set S" for h by (auto simp: fat_lives_def dest: set_takeWhileD)
  have "fat_lookup g' S n' = find (\<lambda>y. take 11 (fat_ent g' y) = n') (filter (\<lambda>y. y \<noteq> x) (fat_lives g' S))"
    unfolding fat_lookup_def by (rule find_filter [symmetric]) (use name n' in auto)
  also have "\<dots> = find (\<lambda>y. take 11 (fat_ent g y) = n') (filter (\<lambda>y. y \<noteq> x) (fat_lives g S))"
    unfolding assms(1)
  proof (rule find_cong_set)
    fix y assume "y \<in> set (filter (\<lambda>y. y \<noteq> x) (fat_lives g S))"
    then have "y \<in> set S" "y \<noteq> x" using S [of g] by auto
    then show "(take 11 (fat_ent g' y) = n') = (take 11 (fat_ent g y) = n')" by (simp add: other)
  qed
  also have "\<dots> = fat_lookup g S n'"
    unfolding fat_lookup_def by (rule find_filter) (use old n' in auto)
  finally show ?thesis .
qed

lemma lives_in: "x \<in> set (fat_lives g S) \<Longrightarrow> x \<in> set S \<and> x \<in> set (takeWhile (\<lambda>y. fat_ent g y ! 0 \<noteq> 0) S) \<and> live_entry (fat_ent g x)"
  by (auto simp: fat_lives_def dest: set_takeWhileD)

lemma lookup_in: "fat_lookup g S n = Some x \<Longrightarrow> x \<in> set (fat_lives g S) \<and> take 11 (fat_ent g x) = n"
  unfolding fat_lookup_def find_Some_iff by auto

lemma lives_set_update:
  assumes "filter (\<lambda>y. y \<noteq> x) (fat_lives g' S) = filter (\<lambda>y. y \<noteq> x) (fat_lives g S)" "x \<in> set (fat_lives g' S)"
  shows "set (fat_lives g' S) = insert x (set (fat_lives g S))"
  using arg_cong [OF assms(1), of set] assms(2) by auto

lemma slots_in: "(c, s, k) \<in> set (fat_slots fs cs) \<longleftrightarrow> c \<in> set cs \<and> s < unat (sectors_per_cluster fs) \<and> k < 16"
  by (force simp: fat_slots_def)

lemma slots_distinct: "distinct cs \<Longrightarrow> distinct (fat_slots fs cs)"
proof (induction cs)
  case (Cons c cs)
  have split: "fat_slots fs (c # cs) = fat_slots fs [c] @ fat_slots fs cs" by (simp add: fat_slots_def)
  have row: "distinct (concat (map (\<lambda>s. map (\<lambda>k. (c, s, k)) [0..<16]) ss))" if "distinct ss" for ss
    using that by (induction ss) (auto simp: distinct_map inj_on_def simp del: upt_rec_numeral)
  have "distinct (fat_slots fs [c])" using row [of "[0..<unat (sectors_per_cluster fs)]"] by (simp add: fat_slots_def)
  moreover have "set (fat_slots fs [c]) \<inter> set (fat_slots fs cs) = {}" using Cons.prems by (auto simp: slots_in)
  ultimately show ?case using Cons by (simp add: split)
qed (simp add: fat_slots_def)

section \<open>Directory entries\<close>

lemma length_short_name [simp]: "length (to_short_name name) = 11"
  by (simp add: to_short_name_def Let_def)

lemma upper_zero: "upper c = 0 \<longleftrightarrow> c = 0" "upper c = 0xE5 \<longleftrightarrow> c = 0xE5"
proof -
  have "c - 32 \<noteq> 0" "c - 32 \<noteq> 0xE5" if "0x61 \<le> c" "c \<le> 0x7A"
  proof -
    have "unat (c - 32) = unat c - 32" using that by (subst unat_sub_no_wrap) (auto simp: word_le_nat_alt)
    then have "unat (c - 32) \<ge> 0x41" "unat (c - 32) \<le> 0x5A" using that by (auto simp: word_le_nat_alt)
    then show "c - 32 \<noteq> 0" "c - 32 \<noteq> 0xE5" by auto
  qed
  then show "upper c = 0 \<longleftrightarrow> c = 0" "upper c = 0xE5 \<longleftrightarrow> c = 0xE5" by (auto simp: upper_def)
qed

definition proper_name :: "u8 list \<Rightarrow> bool" where
  "proper_name name = (0 \<notin> set name \<and> (name = [] \<or> hd name \<noteq> 0xE5))"

lemma short_name_first: "proper_name name \<Longrightarrow> to_short_name name ! 0 \<noteq> 0 \<and> to_short_name name ! 0 \<noteq> 0xE5"
  by (cases name) (auto simp: proper_name_def to_short_name_def Let_def upper_zero nth_append)

lemma dir_entry_fields:
  assumes "length n = 11"
  shows "length (dir_entry n c sz) = 32" "take 11 (dir_entry n c sz) = n" "dir_entry n c sz ! 0 = n ! 0"
    "entry_cluster (dir_entry n c sz) = c" "load32 (dir_entry n c sz) 28 = sz" "dir_entry n c sz ! 11 = 0x20"
proof -
  let ?e = "dir_entry n c sz"
  let ?a = "n @ [0x20] @ replicate 8 0" and ?hi = "bytes16 (ucast (drop_bit 16 c))" and ?z = "replicate 4 0 :: u8 list"
    and ?lo = "bytes16 (ucast (c AND 0xFFFF))"
  show "length ?e = 32" "take 11 ?e = n" "?e ! 0 = n ! 0" "?e ! 11 = 0x20"
    using assms by (simp_all add: dir_entry_def nth_append)
  have "load16 (?a @ ?hi @ (?z @ ?lo @ bytes32 sz)) (length ?a + 0) = ucast (drop_bit 16 c)"
    unfolding load_skip(1) by (rule load16_bytes16)
  then have hi: "load16 ?e 20 = ucast (drop_bit 16 c)" using assms by (simp add: dir_entry_def)
  have "load16 ((?a @ ?hi @ ?z) @ ?lo @ bytes32 sz) (length (?a @ ?hi @ ?z) + 0) = ucast (c AND 0xFFFF)"
    unfolding load_skip(1) by (rule load16_bytes16)
  then have lo: "load16 ?e 26 = ucast (c AND 0xFFFF)" using assms by (simp add: dir_entry_def)
  have "load32 ((?a @ ?hi @ ?z @ ?lo) @ bytes32 sz @ []) (length (?a @ ?hi @ ?z @ ?lo) + 0) = sz"
    unfolding load_skip(2) by (rule load32_bytes32)
  then show "load32 ?e 28 = sz" using assms by (simp add: dir_entry_def)
  have m: "(0xFFFF :: u32) = mask 16" by (simp add: mask_eq_exp_minus_1)
  show "entry_cluster ?e = c"
    unfolding entry_cluster_def hi lo m by (rule bit_eqI) (auto simp: bit_simps)
qed

lemma dir_entry_live: "length n = 11 \<Longrightarrow> n ! 0 \<noteq> 0xE5 \<Longrightarrow> live_entry (dir_entry n c sz)"
  by (simp add: live_entry_def dir_entry_fields)

lemma find_unique: "\<lbrakk>x \<in> set xs; P x; \<And>y. y \<in> set xs \<Longrightarrow> P y \<Longrightarrow> y = x\<rbrakk> \<Longrightarrow> find P xs = Some x"
proof (induction xs)
  case (Cons a xs)
  show ?case
  proof (cases "P a")
    case True
    then show ?thesis using Cons.prems(3) [of a] by simp
  next
    case False
    then have "x \<in> set xs" using Cons.prems(1,2) by auto
    then have "find P xs = Some x" by (rule Cons.IH [OF _ Cons.prems(2)]) (rule Cons.prems(3), simp_all)
    then show ?thesis using False by simp
  qed
qed simp

lemma ent_store:
  assumes "length e = 32" "k < 16" "k' < 16" "length buf = 512"
  shows "take 32 (drop (k' * 32) (store_at (k * 32) e buf)) = (if k' = k then e else take 32 (drop (k' * 32) buf))"
proof (cases "k' = k")
  case True
  then show ?thesis using assms by (simp add: store_at_def)
next
  case False
  show ?thesis
  proof (rule nth_equalityI)
    fix i assume "i < length (take 32 (drop (k' * 32) (store_at (k * 32) e buf)))"
    then have "i < 32" by simp
    have "k' * 32 + i < k * 32 \<or> k * 32 + 32 \<le> k' * 32 + i" using False \<open>i < 32\<close> by (cases "k' < k") auto
    then have "\<not> (k * 32 \<le> k' * 32 + i \<and> k' * 32 + i < k * 32 + 32)" by linarith
    then have "store_at (k * 32) e buf ! (k' * 32 + i) = buf ! (k' * 32 + i)"
      using assms by (subst store_at_nth) auto
    then show "take 32 (drop (k' * 32) (store_at (k * 32) e buf)) ! i = (if k' = k then e else take 32 (drop (k' * 32) buf)) ! i"
      using assms False \<open>i < 32\<close> by (simp add: store_at_length)
  qed (use assms False in \<open>simp add: store_at_length\<close>)
qed

context volume
begin

lemma write_entry:
  assumes "holds_vol d t g" "valid c" "s < spc" "k < 16" "length n = 11"
  shows "\<exists>d' g'. write_dir_entry dk (slot_lba fs (c, s, k)) (slot_off (c, s, k)) n cl sz d = (True, d') \<and> holds_vol d' t g' \<and>
    fat_ent g' (c, s, k) = dir_entry n cl sz \<and> (\<forall>c'. c' \<noteq> c \<longrightarrow> g' c' = g c') \<and>
    (\<forall>y R. y \<in> set (slots R) \<longrightarrow> y \<noteq> (c, s, k) \<longrightarrow> fat_ent g' y = fat_ent g y)"
proof -
  let ?e = "dir_entry n cl sz" and ?lba = "cluster_to_lba fs c + of_nat s"
  let ?buf = "store_at (k * 32) ?e (g c ! s)"
  have e: "length ?e = 32" using dir_entry_fields(1) [OF assms(5)] .
  have gs: "length (g c) = spc" "length (g c ! s) = 512" using g_shape [OF assms(1,2)] assms(3) by simp_all
  obtain d1 where d1: "dk_read dk ?lba d = (True, g c ! s, d1)" "holds_vol d1 t g" using read_sector [OF assms(1-3)] by blast
  have "length ?buf = 512" using e assms(4) gs(2) by (simp add: store_at_length)
  from write_sector [OF d1(2) assms(2,3) this] obtain d2 where d2: "dk_write dk ?lba ?buf d1 = (True, d2)"
    "holds_vol d2 t (g(c := (g c)[s := ?buf]))" by blast
  let ?g = "g(c := (g c)[s := ?buf])"
  have "fat_ent ?g (c, s, k) = ?e" using ent_store [OF e assms(4,4) gs(2)] gs(1) assms(3) by (simp add: fat_ent_def)
  moreover have "fat_ent ?g y = fat_ent g y" if y: "y \<in> set (slots R)" "y \<noteq> (c, s, k)" for y R
  proof -
    obtain c' s' k' where y': "y = (c', s', k')" by (cases y) auto
    then have "s' < spc" "k' < 16" using y(1) by (simp_all add: slots_in)
    then show ?thesis using ent_store [OF e assms(4) _ gs(2), of k'] gs(1) y(2) y' by (cases "c' = c \<and> s' = s") (auto simp: fat_ent_def nth_list_update)
  qed
  moreover have "\<forall>c'. c' \<noteq> c \<longrightarrow> ?g c' = g c'" by simp
  moreover have "write_dir_entry dk (slot_lba fs (c, s, k)) (slot_off (c, s, k)) n cl sz d = (True, d2)"
    using d1(1) d2(1) by (simp add: write_dir_entry_def slot_lba_def slot_off_def)
  ultimately show ?thesis using d2(2) by blast
qed

text \<open>The volume when the entry \<open>x\<close> is about to be given to the file \<open>n\<close>.\<close>

definition prepared :: "(u32 \<Rightarrow> u32) \<Rightarrow> (u32 \<Rightarrow> u8 list list) \<Rightarrow> u32 list \<Rightarrow> (slot \<Rightarrow> u32 list) \<Rightarrow> slot \<Rightarrow> u8 list \<Rightarrow> bool" where
  "prepared t g R F x n =
     (chain t R (root_cluster fs) \<and> R \<noteq> [] \<and> x \<in> set (slots R) \<and>
      (\<forall>y \<in> set (fat_lives g (slots R)) - {x}. chain t (F y) (entry_cluster (fat_ent g y)) \<and> set (F y) \<inter> set R = {} \<and>
         fat_size_of g y \<le> 512 * spc * length (F y) \<and> take 11 (fat_ent g y) \<noteq> n) \<and>
      (\<forall>y \<in> set (fat_lives g (slots R)) - {x}. \<forall>z \<in> set (fat_lives g (slots R)) - {x}. y \<noteq> z \<longrightarrow>
         set (F y) \<inter> set (F z) = {} \<and> take 11 (fat_ent g y) \<noteq> take 11 (fat_ent g z)) \<and>
      (\<forall>y \<in> set (dropWhile (\<lambda>y. fat_ent g y ! 0 \<noteq> 0) (slots R)). fat_ent g y ! 0 = 0) \<and>
      fat_free fs t \<subseteq> Collect valid \<and>
      (x \<in> set (takeWhile (\<lambda>y. fat_ent g y ! 0 \<noteq> 0) (slots R)) \<or>
       (\<exists>us vs. slots R = us @ x # vs \<and> distinct (slots R) \<and> (\<forall>u \<in> set us. fat_ent g u ! 0 \<noteq> 0) \<and> fat_ent g x ! 0 = 0)) \<and>
      (x \<in> set (fat_lives g (slots R)) \<longrightarrow> take 11 (fat_ent g x) = n))"

lemma content_cong: "(\<And>c. c \<in> set cs \<Longrightarrow> g' c = g c) \<Longrightarrow> fat_content g' cs = fat_content g cs"
  by (auto simp: fat_content_def intro!: arg_cong [where f = concat])

text \<open>
  The chain \<open>H\<close> of free clusters has been linked and the entry written: the volume is sound again
  and holds the file.
\<close>

lemma entry_written:
  assumes pre: "prepared t g R F x n"
    and n: "length n = 11" "n ! 0 \<noteq> 0" "n ! 0 \<noteq> 0xE5"
    and H: "chain t' H cl" "set H \<inter> set R = {}" "\<And>y. y \<in> set (fat_lives g (slots R)) - {x} \<Longrightarrow> set (F y) \<inter> set H = {}"
    and fits: "unat sz \<le> 512 * spc * length H"
    and t': "\<And>c. c \<notin> set H \<Longrightarrow> t' c = t c"
    and g': "\<And>c. c \<notin> set H \<Longrightarrow> c \<notin> set R \<Longrightarrow> g' c = g c"
    and ex: "fat_ent g' x = dir_entry n cl sz" and ey: "\<forall>y \<in> set (slots R). y \<noteq> x \<longrightarrow> fat_ent g' y = fat_ent g y"
  shows "fat_volume fs N t' g' R (F(x := H))"
    and "fat_files fs g' R (F(x := H)) = (fat_files fs g R F)(n \<mapsto> take (unat sz) (fat_content g' H))"
proof -
  let ?S = "slots R" and ?L = "set (fat_lives g (slots R))" and ?L' = "set (fat_lives g' (slots R))"
  have e: "fat_ent g' x ! 0 \<noteq> 0" "live_entry (fat_ent g' x)" "take 11 (fat_ent g' x) = n" "entry_cluster (fat_ent g' x) = cl"
    "fat_size_of g' x = unat sz"
    unfolding ex fat_size_of_def using dir_entry_fields [OF n(1)] n dir_entry_live by simp_all
  have zeros: "\<forall>y \<in> set (dropWhile (\<lambda>y. fat_ent g y ! 0 \<noteq> 0) ?S). fat_ent g y ! 0 = 0"
    and pos: "x \<in> set (takeWhile (\<lambda>y. fat_ent g y ! 0 \<noteq> 0) ?S) \<or>
      (\<exists>us vs. ?S = us @ x # vs \<and> distinct ?S \<and> (\<forall>u \<in> set us. fat_ent g u ! 0 \<noteq> 0) \<and> fat_ent g x ! 0 = 0)"
    and old: "x \<in> ?L \<Longrightarrow> take 11 (fat_ent g x) = n"
    and others: "\<And>y. y \<in> ?L \<Longrightarrow> y \<noteq> x \<Longrightarrow> chain t (F y) (entry_cluster (fat_ent g y)) \<and> set (F y) \<inter> set R = {} \<and>
      fat_size_of g y \<le> 512 * spc * length (F y) \<and> take 11 (fat_ent g y) \<noteq> n"
    and pairs: "\<And>y z. y \<in> ?L \<Longrightarrow> z \<in> ?L \<Longrightarrow> y \<noteq> x \<Longrightarrow> z \<noteq> x \<Longrightarrow> y \<noteq> z \<Longrightarrow>
      set (F y) \<inter> set (F z) = {} \<and> take 11 (fat_ent g y) \<noteq> take 11 (fat_ent g z)"
    and root: "chain t R (root_cluster fs)" "R \<noteq> []" and free: "fat_free fs t \<subseteq> Collect valid"
  proof -
    note p = pre [unfolded prepared_def]
    note q = p [THEN conjunct2, THEN conjunct2, THEN conjunct2]
    note r = q [THEN conjunct2, THEN conjunct2]
    show "chain t R (root_cluster fs)" by (rule p [THEN conjunct1])
    show "R \<noteq> []" by (rule p [THEN conjunct2, THEN conjunct1])
    show "chain t (F y) (entry_cluster (fat_ent g y)) \<and> set (F y) \<inter> set R = {} \<and>
      fat_size_of g y \<le> 512 * spc * length (F y) \<and> take 11 (fat_ent g y) \<noteq> n" if "y \<in> ?L" "y \<noteq> x" for y
      by (rule bspec [OF q [THEN conjunct1]]) (use that in simp)
    show "set (F y) \<inter> set (F z) = {} \<and> take 11 (fat_ent g y) \<noteq> take 11 (fat_ent g z)"
      if "y \<in> ?L" "z \<in> ?L" "y \<noteq> x" "z \<noteq> x" "y \<noteq> z" for y z
      by (rule mp [OF bspec [OF bspec [OF q [THEN conjunct2, THEN conjunct1]]]]) (use that in simp_all)
    show "\<forall>y \<in> set (dropWhile (\<lambda>y. fat_ent g y ! 0 \<noteq> 0) ?S). fat_ent g y ! 0 = 0" by (rule r [THEN conjunct1])
    show "fat_free fs t \<subseteq> Collect valid" by (rule r [THEN conjunct2, THEN conjunct1])
    show "x \<in> set (takeWhile (\<lambda>y. fat_ent g y ! 0 \<noteq> 0) ?S) \<or>
      (\<exists>us vs. ?S = us @ x # vs \<and> distinct ?S \<and> (\<forall>u \<in> set us. fat_ent g u ! 0 \<noteq> 0) \<and> fat_ent g x ! 0 = 0)"
      by (rule r [THEN conjunct2, THEN conjunct2, THEN conjunct1])
    show "x \<in> ?L \<Longrightarrow> take 11 (fat_ent g x) = n" by (rule mp [OF r [THEN conjunct2, THEN conjunct2, THEN conjunct2]])
  qed
  note upd = lives_update [OF ey e(1,2) zeros pos]
  have L': "?L' = insert x ?L" using lives_set_update [OF upd(1,2)] .
  have entL: "fat_ent g' y = fat_ent g y" if "y \<in> ?L" "y \<noteq> x" for y using ey lives_in that by blast
  have ch: "chain t' cs c" if "chain t cs c" "set cs \<inter> set H = {}" for cs c
    by (rule chain_cong [OF that(1)]) (use that(2) t' in auto)
  have own: "chain t' ((F(x := H)) y) (entry_cluster (fat_ent g' y)) \<and> set ((F(x := H)) y) \<inter> set R = {} \<and>
      fat_size_of g' y \<le> 512 * spc * length ((F(x := H)) y)" if "y \<in> ?L'" for y
  proof (cases "y = x")
    case True
    then show ?thesis using H(1,2) e(4,5) fits by simp
  next
    case False
    then have "y \<in> ?L" using that L' by simp
    then show ?thesis using others [OF _ False] ch H(3) [of y] False entL [OF _ False] by (auto simp: fat_size_of_def)
  qed
  have two: "set ((F(x := H)) y) \<inter> set ((F(x := H)) z) = {} \<and> take 11 (fat_ent g' y) \<noteq> take 11 (fat_ent g' z)"
    if "y \<in> ?L'" "z \<in> ?L'" "y \<noteq> z" for y z
  proof -
    have at_x: "set (F w) \<inter> set H = {} \<and> take 11 (fat_ent g' w) \<noteq> n" if "w \<in> ?L" "w \<noteq> x" for w
      using H(3) [of w] others [OF that] entL [OF that] that by auto
    show ?thesis
      using that L' at_x [of y] at_x [of z] pairs [of y z] e(3) entL [of y] entL [of z] by (cases "y = x"; cases "z = x") auto
  qed
  have "fat_free fs t' \<subseteq> Collect valid"
  proof
    fix c assume c: "c \<in> fat_free fs t'"
    then have "c \<notin> set H" using chain_valid [OF H(1)] by (auto simp: fat_free_def)
    then show "c \<in> Collect valid" using c t' free by (auto simp: fat_free_def)
  qed
  moreover have "chain t' R (root_cluster fs)" using ch [OF root(1)] H(2) by auto
  ultimately show "fat_volume fs N t' g' R (F(x := H))"
    unfolding fat_volume_def using own two upd(3) root(2) by blast
  have at_n: "fat_lookup g' ?S n = Some x"
    unfolding fat_lookup_def
  proof (rule find_unique)
    fix y assume y: "y \<in> ?L'" "take 11 (fat_ent g' y) = n"
    have False if "y \<noteq> x"
    proof -
      have "y \<in> ?L" using L' y(1) that by simp
      then show False using others [OF _ that] entL [OF _ that] y(2) by simp
    qed
    then show "y = x" by blast
  qed (fact upd(2), fact e(3))
  show "fat_files fs g' R (F(x := H)) = (fat_files fs g R F)(n \<mapsto> take (unat sz) (fat_content g' H))"
  proof
    fix n'
    show "fat_files fs g' R (F(x := H)) n' = ((fat_files fs g R F)(n \<mapsto> take (unat sz) (fat_content g' H))) n'"
    proof (cases "n' = n")
      case True
      then show ?thesis using at_n e(5) by (simp add: fat_files_def)
    next
      case False
      have look: "fat_lookup g' ?S n' = fat_lookup g ?S n'"
        by (rule lookup_update [OF upd(1,2) ey e(3) _ False]) (rule old)
      show ?thesis
      proof (cases "fat_lookup g ?S n'")
        case (Some y)
        then have y: "y \<in> ?L" "take 11 (fat_ent g y) = n'" using lookup_in by blast+
        then have yx: "y \<noteq> x" using old False by auto
        have "fat_content g' (F y) = fat_content g (F y)"
          using g' others [OF y(1) yx] H(3) [of y] y(1) yx by (intro content_cong) auto
        then show ?thesis using False look Some yx entL [OF y(1) yx] by (simp add: fat_files_def fat_size_of_def)
      qed (use False look in \<open>simp add: fat_files_def\<close>)
    qed
  qed
qed

end

context volume
begin

lemma ent_cong: "\<lbrakk>y \<in> set (slots R); \<And>c. c \<in> set R \<Longrightarrow> g' c = g c\<rbrakk> \<Longrightarrow> fat_ent g' y = fat_ent g y"
  by (cases y) (auto simp: slots_in fat_ent_def)

lemma clusters_needed:
  assumes "0 < length bs" "length bs < 2 ^ 31"
  defines "cb \<equiv> ucast (sectors_per_cluster fs) * ucast (bytes_per_sector fs) :: u32"
  shows "unat ((of_nat (length bs) + cb - 1) div cb) = (length bs + 512 * spc - 1) div (512 * spc)"
proof -
  have spc: "spc < 256" using unsigned_less [of "sectors_per_cluster fs", where 'a = nat] by simp
  have "unat (ucast (sectors_per_cluster fs) :: u32) = spc" using spc by (simp add: unsigned_ucast_eq take_bit_nat_eq_self)
  then have cb: "unat cb = 512 * spc" unfolding cb_def geom(1) using spc by (simp add: unat_word_ariths)
  have len: "unat (of_nat (length bs) :: u32) = length bs" using assms(2) by (simp add: unat_of_nat)
  have "unat (of_nat (length bs) + cb :: u32) = length bs + 512 * spc"
    using len cb assms(2) spc by (subst unat_add_no_wrap) simp_all
  then have "unat (of_nat (length bs) + cb - 1 :: u32) = length bs + 512 * spc - 1"
    using assms(1) geom(2) by (subst unat_sub_no_wrap) (simp_all add: word_le_nat_alt Suc_le_eq)
  then show ?thesis by (simp add: unat_div cb)
qed

lemma write_data:
  assumes hd: "holds_vol d t g" and pre: "prepared t g R F x (to_short_name name)"
    and name: "proper_name name" and len: "length bs < 2 ^ 31" "length bs \<le> 512 * spc * card (fat_free fs t)"
  shows "\<exists>d' t' g' H. fat32_write_data dk fs name bs (slot_lba fs x, slot_off x) d = Some (int (length bs), d') \<and> holds_vol d' t' g' \<and>
    fat_volume fs N t' g' R (F(x := H)) \<and> fat_files fs g' R (F(x := H)) = (fat_files fs g R F)(to_short_name name \<mapsto> bs)"
proof -
  let ?n = "to_short_name name" and ?L = "set (fat_lives g (slots R))" and ?sz = "of_nat (length bs) :: u32"
  obtain c s k where x: "x = (c, s, k)" by (cases x) auto
  have xin: "x \<in> set (slots R)" and root: "chain t R (root_cluster fs)" and free: "fat_free fs t \<subseteq> Collect valid"
    and Fy: "\<And>y. y \<in> ?L - {x} \<Longrightarrow> chain t (F y) (entry_cluster (fat_ent g y))"
    using pre unfolding prepared_def by (blast+)
  then have cR: "c \<in> set R" "s < spc" "k < 16" by (simp_all add: x slots_in)
  have vc: "valid c" using chain_valid [OF root cR(1)] by simp
  note n = length_short_name [of name] short_name_first [OF name, THEN conjunct1] short_name_first [OF name, THEN conjunct2]
  have sz: "unat ?sz = length bs" using len(1) by (simp add: unat_of_nat)
  have "\<exists>d1 H t' g1. (if ?sz = 0 then Some (Inr (0, 0), d) else write_clusters (unat ((?sz + ucast (sectors_per_cluster fs) * ucast (bytes_per_sector fs) - 1) div
          (ucast (sectors_per_cluster fs) * ucast (bytes_per_sector fs)))) dk fs bs 0 0 0 d) =
        Some (Inr (case H of [] \<Rightarrow> 0 | c # _ \<Rightarrow> c, length bs), d1) \<and> set H \<subseteq> fat_free fs t \<and> holds_vol d1 t' g1 \<and>
      chain t' H (case H of [] \<Rightarrow> 0 | c # _ \<Rightarrow> c) \<and> take (length bs) (fat_content g1 H) = bs \<and>
      (\<forall>x. x \<notin> set H \<longrightarrow> t' x = t x) \<and> (\<forall>x. x \<notin> set H \<longrightarrow> g1 x = g x) \<and> (?sz = 0 \<longrightarrow> H = [])"
  proof (cases "bs = []")
    case True
    then show ?thesis using hd by (auto intro!: exI [where x = "[]"] exI [where x = t] exI [where x = g])
  next
    case False
    then have nz: "0 < length bs" "?sz \<noteq> 0" using sz by (auto simp: unat_eq_zero [symmetric])
    let ?m = "(length bs + 512 * spc - 1) div (512 * spc)"
    have cb: "0 < 512 * spc" using geom(2) by simp
    have m: "length bs \<le> 512 * spc * ?m"
    proof -
      have "length bs + 512 * spc - 1 < 512 * spc * ?m + 512 * spc" using cb mod_less_divisor [OF cb, of "length bs + 512 * spc - 1"]
        mult_div_mod_eq [of "512 * spc" "length bs + 512 * spc - 1"] by linarith
      then show ?thesis by simp
    qed
    have "?m \<le> card (fat_free fs t)"
    proof -
      have "length bs + 512 * spc - 1 < 512 * spc * (card (fat_free fs t) + 1)" using len(2) cb by simp
      then have "?m < card (fat_free fs t) + 1" using less_mult_imp_div_less by (metis mult.commute)
      then show ?thesis by simp
    qed
    moreover have "written_so_far bs [] t g" by (simp add: written_so_far_def fat_content_def)
    ultimately obtain d1 H t' g1 where w: "write_clusters ?m dk fs bs 0 0 0 d =
        Some (Inr (case H of [] \<Rightarrow> 0 | c # _ \<Rightarrow> c, min (length bs) (512 * spc * ?m)), d1)" "length H = ?m" "set H \<subseteq> fat_free fs t"
      "holds_vol d1 t' g1" "written_so_far bs H t' g1" "\<forall>x. x \<notin> set H \<longrightarrow> t' x = t x" "\<forall>x. x \<notin> set H \<longrightarrow> g1 x = g x"
      using write_clusters_data [OF hd _ free, of bs "[]" ?m] by auto
    have "take (length bs) (fat_content g1 H) = bs" using w(2,5) m by (simp add: written_so_far_def)
    moreover have "chain t' H (case H of [] \<Rightarrow> 0 | c # _ \<Rightarrow> c)" using w(5) by (simp add: written_so_far_def)
    ultimately show ?thesis using w m nz clusters_needed [OF nz(1) len(1)] by auto
  qed
  then obtain d1 H t' g1 where w: "(if ?sz = 0 then Some (Inr (0, 0), d) else write_clusters (unat ((?sz + ucast (sectors_per_cluster fs) * ucast (bytes_per_sector fs) - 1) div
          (ucast (sectors_per_cluster fs) * ucast (bytes_per_sector fs)))) dk fs bs 0 0 0 d) =
        Some (Inr (case H of [] \<Rightarrow> 0 | c # _ \<Rightarrow> c, length bs), d1)" "set H \<subseteq> fat_free fs t" "holds_vol d1 t' g1"
      "chain t' H (case H of [] \<Rightarrow> 0 | c # _ \<Rightarrow> c)" "take (length bs) (fat_content g1 H) = bs"
      "\<forall>x. x \<notin> set H \<longrightarrow> t' x = t x" "\<forall>x. x \<notin> set H \<longrightarrow> g1 x = g x" "?sz = 0 \<longrightarrow> H = []" by blast
  let ?cl = "case H of [] \<Rightarrow> 0 | c # _ \<Rightarrow> c"
  have disj: "set cs \<inter> set H = {}" if "chain t cs c'" for cs c' using chain_valid [OF that] w(2) by (auto simp: fat_free_def)
  have HR: "set H \<inter> set R = {}" using disj [OF root] by blast
  obtain d2 g2 where e: "write_dir_entry dk (slot_lba fs x) (slot_off x) ?n ?cl ?sz d1 = (True, d2)" "holds_vol d2 t' g2"
    "fat_ent g2 x = dir_entry ?n ?cl ?sz" "\<forall>c'. c' \<noteq> c \<longrightarrow> g2 c' = g1 c'" "\<forall>y R. y \<in> set (slots R) \<longrightarrow> y \<noteq> x \<longrightarrow> fat_ent g2 y = fat_ent g1 y"
    using write_entry [OF w(3) vc cR(2,3) n(1), of ?cl ?sz] unfolding x by blast
  have g1R: "g1 b = g b" if "b \<in> set R" for b using w(7) HR that by auto
  have ey: "\<forall>y \<in> set (slots R). y \<noteq> x \<longrightarrow> fat_ent g2 y = fat_ent g y" using e(5) ent_cong [of _ R g1 g] g1R by metis
  have gH: "fat_content g2 H = fat_content g1 H" using e(4) HR cR(1) by (intro content_cong) auto
  have FH: "set (F y) \<inter> set H = {}" if "y \<in> ?L - {x}" for y by (rule disj [OF Fy [OF that]])
  have t'': "t' b = t b" if "b \<notin> set H" for b using w(6) that by blast
  have g'': "g2 b = g b" if "b \<notin> set H" "b \<notin> set R" for b
  proof -
    have "b \<noteq> c" using that(2) cR(1) by auto
    then show ?thesis using e(4) w(7) that(1) by simp
  qed
  have fits: "unat ?sz \<le> 512 * spc * length H"
  proof -
    have "length (fat_content g1 H) = 512 * spc * length H" by (rule length_content [OF w(3)]) (use chain_valid [OF w(4)] in blast)
    moreover have "length bs \<le> length (fat_content g1 H)" using arg_cong [OF w(5), of length] by simp
    ultimately show ?thesis using sz by simp
  qed
  have vol: "fat_volume fs N t' g2 R (F(x := H))"
    by (rule entry_written(1) [OF pre n w(4) HR FH fits t'' g'' e(3) ey])
  have files: "fat_files fs g2 R (F(x := H)) = (fat_files fs g R F)(?n \<mapsto> take (unat ?sz) (fat_content g2 H))"
    by (rule entry_written(2) [OF pre n w(4) HR FH fits t'' g'' e(3) ey])
  have "sint (of_nat (length bs) :: u32) = int (length bs)" by (rule sint_of_nat_small [OF len(1)])
  then have "fat32_write_data dk fs name bs (slot_lba fs x, slot_off x) d = Some (int (length bs), d2)"
    using w(1,8) e(1) sz by (cases "?sz = 0") (auto simp: fat32_write_data_def)
  then show ?thesis using e(2) vol files sz gH w(5) by auto
qed

end

lemma entry_cluster_take: "entry_cluster (take 32 e) = entry_cluster e"
  by (simp add: entry_cluster_def load16_def)

lemma find_split: "find P xs = Some x \<Longrightarrow> \<exists>us vs. xs = us @ x # vs \<and> (\<forall>u \<in> set us. \<not> P u) \<and> P x"
proof (induction xs)
  case (Cons a xs)
  show ?case
  proof (cases "P a")
    case False
    then obtain us vs where "xs = us @ x # vs \<and> (\<forall>u \<in> set us. \<not> P u) \<and> P x" using Cons by auto
    then show ?thesis using False by (intro exI [where x = "a # us"] exI [where x = vs]) simp
  next
    case True
    then show ?thesis using Cons.prems by (intro exI [of _ "[]"] exI [of _ xs]) simp
  qed
qed simp

context volume
begin

lemma volumeD:
  assumes "fat_volume fs N t g R F"
  shows "chain t R (root_cluster fs)" "R \<noteq> []" "fat_free fs t \<subseteq> Collect valid"
    "\<And>x. x \<in> set (fat_lives g (slots R)) \<Longrightarrow> chain t (F x) (entry_cluster (fat_ent g x)) \<and> set (F x) \<inter> set R = {} \<and>
      fat_size_of g x \<le> 512 * spc * length (F x)"
    "\<And>x y. x \<in> set (fat_lives g (slots R)) \<Longrightarrow> y \<in> set (fat_lives g (slots R)) \<Longrightarrow> x \<noteq> y \<Longrightarrow>
      set (F x) \<inter> set (F y) = {} \<and> take 11 (fat_ent g x) \<noteq> take 11 (fat_ent g y)"
    "\<forall>x \<in> set (dropWhile (\<lambda>x. fat_ent g x ! 0 \<noteq> 0) (slots R)). fat_ent g x ! 0 = 0"
  using assms unfolding fat_volume_def by (blast+)

lemma prepared_existing:
  assumes vol: "fat_volume fs N t g R F" and x: "fat_lookup g (slots R) n = Some x"
  shows "prepared (\<lambda>c. if c \<in> set (F x) then 0 else t c) g R F x n"
    and "card (fat_free fs t) \<le> card (fat_free fs (\<lambda>c. if c \<in> set (F x) then 0 else t c))"
proof -
  let ?t = "\<lambda>c. if c \<in> set (F x) then 0 else t c" and ?L = "set (fat_lives g (slots R))"
  note v = volumeD [OF vol]
  have xL: "x \<in> ?L" "take 11 (fat_ent g x) = n" using lookup_in [OF x] by simp_all
  have ch: "chain ?t cs c" if "chain t cs c" "set (F x) \<inter> set cs = {}" for cs c
    by (rule chain_cong [OF that(1)]) (use that(2) in auto)
  have "fat_free fs t \<subseteq> fat_free fs ?t" by (auto simp: fat_free_def)
  then show "card (fat_free fs t) \<le> card (fat_free fs ?t)" by (intro card_mono) simp_all
  have "fat_free fs ?t \<subseteq> Collect valid"
    using v(3) chain_valid [OF conjunct1 [OF v(4) [OF xL(1)]]] by (auto simp: fat_free_def)
  moreover have "chain ?t R (root_cluster fs)" using ch [OF v(1)] v(4) [OF xL(1)] by blast
  moreover have "chain ?t (F y) (entry_cluster (fat_ent g y)) \<and> set (F y) \<inter> set R = {} \<and>
      fat_size_of g y \<le> 512 * spc * length (F y) \<and> take 11 (fat_ent g y) \<noteq> n" if "y \<in> ?L - {x}" for y
  proof -
    have y: "y \<in> ?L" "x \<noteq> y" using that by auto
    show ?thesis using ch v(4) [OF y(1)] v(5) [OF xL(1) y] xL(2) by auto
  qed
  moreover have "set (F y) \<inter> set (F z) = {} \<and> take 11 (fat_ent g y) \<noteq> take 11 (fat_ent g z)"
    if "y \<in> ?L - {x}" "z \<in> ?L - {x}" "y \<noteq> z" for y z using v(5) that by blast
  moreover have "x \<in> set (slots R)" "x \<in> set (takeWhile (\<lambda>y. fat_ent g y ! 0 \<noteq> 0) (slots R))" using lives_in [OF xL(1)] by simp_all
  ultimately show "prepared ?t g R F x n" unfolding prepared_def using v(2,6) xL(2) by blast
qed

lemma prepared_slot:
  assumes vol: "fat_volume fs N t g R F" and none: "fat_lookup g (slots R) n = None"
    and x: "find (\<lambda>x. fat_ent g x ! 0 = 0 \<or> fat_ent g x ! 0 = 0xE5) (slots R) = Some x"
  shows "prepared t g R F x n"
proof -
  let ?L = "set (fat_lives g (slots R))"
  note v = volumeD [OF vol]
  obtain us vs where S: "slots R = us @ x # vs" "\<forall>u \<in> set us. fat_ent g u ! 0 \<noteq> 0" and x0: "fat_ent g x ! 0 = 0 \<or> fat_ent g x ! 0 = 0xE5"
    using find_split [OF x] by blast
  have "x \<notin> ?L" using x0 lives_in [of x g "slots R"] set_takeWhileD [of x _ "slots R"] by (auto simp: live_entry_def)
  moreover have "take 11 (fat_ent g y) \<noteq> n" if "y \<in> ?L" for y using none that unfolding fat_lookup_def find_None_iff by blast
  moreover have "x \<in> set (takeWhile (\<lambda>y. fat_ent g y ! 0 \<noteq> 0) (slots R)) \<or>
       (\<exists>us vs. slots R = us @ x # vs \<and> distinct (slots R) \<and> (\<forall>u \<in> set us. fat_ent g u ! 0 \<noteq> 0) \<and> fat_ent g x ! 0 = 0)"
  proof (cases "fat_ent g x ! 0 = 0")
    case True
    then show ?thesis using S slots_distinct [OF chain_distinct [OF v(1)], of fs] by blast
  next
    case False
    then show ?thesis using S by (simp add: takeWhile_append2)
  qed
  moreover have "x \<in> set (slots R)" using S(1) by simp
  ultimately show ?thesis unfolding prepared_def using v by blast
qed

lemma chain_last_end: "chain t G f \<Longrightarrow> G \<noteq> [] \<Longrightarrow> \<not> (2 \<le> t (last G) \<and> t (last G) < FAT_EOC)"
  by (induction G arbitrary: f) (auto split: if_splits)

lemma slots_append: "slots (A @ B) = slots A @ slots B"
  by (simp add: fat_slots_def)

lemma ent_zero: "s < spc \<Longrightarrow> k < 16 \<Longrightarrow> fat_ent (g(c := replicate spc (replicate 512 0))) (c, s, k) = replicate 32 0"
  by (simp add: fat_ent_def)

lemma prepared_grown:
  assumes vol: "fat_volume fs N t g R F" and none: "fat_lookup g (slots R) n = None"
    and full: "find (\<lambda>x. fat_ent g x ! 0 = 0 \<or> fat_ent g x ! 0 = 0xE5) (slots R) = None"
    and c: "c \<in> fat_free fs t"
  defines "t2 \<equiv> (t(c := 0x0FFFFFFF))(last R := c)" and "g2 \<equiv> g(c := replicate spc (replicate 512 0))"
  shows "prepared t2 g2 (R @ [c]) F (c, 0, 0) n" and "fat_free fs t2 = fat_free fs t - {c}"
    and "fat_files fs g2 (R @ [c]) F = fat_files fs g R F"
proof -
  let ?L = "set (fat_lives g (slots R))"
  note v = volumeD [OF vol]
  have cv: "valid c" "c \<noteq> 0" "t c = 0" using c v(3) by (auto simp: fat_free_def)
  have cR: "c \<notin> set R" using chain_valid [OF v(1)] cv(3) by auto
  have l: "last R \<in> set R" "last R \<noteq> c" using v(2) cR by auto
  have tl: "t (last R) \<noteq> 0" using chain_valid [OF v(1) l(1)] by simp
  have same: "t2 b = t b" if "b \<notin> set R" "b \<noteq> c" for b using that l(1) by (auto simp: t2_def)
  show free: "fat_free fs t2 = fat_free fs t - {c}" using tl cv(2) l(2) by (auto simp: fat_free_def t2_def)
  have "chain (t(c := 0x0FFFFFFF)) R (root_cluster fs)" by (rule chain_cong [OF v(1)]) (use cR in auto)
  then have root: "chain t2 (R @ [c]) (root_cluster fs)"
    unfolding t2_def by (rule chain_append_one [where e = "0x0FFFFFFF"]) (use v(2) cR cv(1) l(2) chain_last_end [OF v(1,2)] in auto)
  have entR: "fat_ent g2 y = fat_ent g y" if "y \<in> set (slots R)" for y
    by (rule ent_cong [OF that]) (use cR in \<open>auto simp: g2_def\<close>)
  have nz: "\<forall>y \<in> set (slots R). fat_ent g2 y ! 0 \<noteq> 0"
    using full entR unfolding find_None_iff by auto
  have zs: "\<forall>y \<in> set (slots [c]). fat_ent g2 y ! 0 = 0"
    using ent_zero by (auto simp: slots_in g2_def)
  obtain vs where vs: "slots [c] = (c, 0, 0) # vs"
  proof -
    have "slots [c] = concat (map (\<lambda>s. map (\<lambda>k. (c, s, k)) [0..<16]) [0..<spc])" by (simp add: fat_slots_def)
    moreover have "[0..<spc] = 0 # [1..<spc]" "[0..<16] = 0 # [1..<16 :: nat]" using geom(2) by (simp_all add: upt_conv_Cons)
    ultimately show ?thesis using that by simp
  qed
  have tw: "takeWhile (\<lambda>y. fat_ent g2 y ! 0 \<noteq> 0) (slots (R @ [c])) = slots R"
    "dropWhile (\<lambda>y. fat_ent g2 y ! 0 \<noteq> 0) (slots (R @ [c])) = slots [c]"
    using nz zs vs by (simp_all add: slots_append takeWhile_append2 dropWhile_append2)
  have "takeWhile (\<lambda>y. fat_ent g y ! 0 \<noteq> 0) (slots R) = slots R" using nz entR by (simp add: takeWhile_eq_all_conv)
  moreover have "filter (\<lambda>x. live_entry (fat_ent g2 x)) (slots R) = filter (\<lambda>x. live_entry (fat_ent g x)) (slots R)"
    by (rule filter_cong) (simp_all add: entR)
  ultimately have lives: "fat_lives g2 (slots (R @ [c])) = fat_lives g (slots R)"
    unfolding fat_lives_def tw(1) by (simp only:)
  have entL: "fat_ent g2 y = fat_ent g y" if "y \<in> ?L" for y using entR lives_in [OF that] by blast
  have own: "chain t2 (F y) (entry_cluster (fat_ent g2 y)) \<and> set (F y) \<inter> set (R @ [c]) = {} \<and>
      fat_size_of g2 y \<le> 512 * spc * length (F y)" if "y \<in> ?L" for y
  proof -
    have y: "chain t (F y) (entry_cluster (fat_ent g y))" "set (F y) \<inter> set R = {}"
      "fat_size_of g y \<le> 512 * spc * length (F y)" using v(4) [OF that] by simp_all
    have "c \<notin> set (F y)" using chain_valid [OF y(1)] cv(3) by auto
    moreover have "chain t2 (F y) (entry_cluster (fat_ent g y))"
      by (rule chain_cong [OF y(1)]) (use same y(2) calculation in auto)
    ultimately show ?thesis using y(2,3) entL [OF that] by (auto simp: fat_size_of_def)
  qed
  have names: "take 11 (fat_ent g y) \<noteq> n" if "y \<in> ?L" for y using none that unfolding fat_lookup_def find_None_iff by blast
  have x: "(c, 0, 0) \<notin> ?L" using lives_in [of "(c, 0, 0)" g "slots R"] cR by (auto simp: slots_in)
  have "fat_free fs t2 \<subseteq> Collect valid" using free v(3) by auto
  moreover have "\<exists>us vs. slots (R @ [c]) = us @ (c, 0, 0) # vs \<and> distinct (slots (R @ [c])) \<and>
      (\<forall>u \<in> set us. fat_ent g2 u ! 0 \<noteq> 0) \<and> fat_ent g2 (c, 0, 0) ! 0 = 0"
    using nz zs vs slots_distinct [OF chain_distinct [OF root], of fs]
    by (intro exI [of _ "slots R"] exI [of _ vs]) (simp add: slots_append)
  moreover have "(c, 0, 0) \<in> set (slots (R @ [c]))" using vs by (simp add: slots_append)
  moreover have "\<forall>y \<in> set (dropWhile (\<lambda>y. fat_ent g2 y ! 0 \<noteq> 0) (slots (R @ [c]))). fat_ent g2 y ! 0 = 0" unfolding tw(2) by (rule zs)
  moreover have "\<forall>y \<in> ?L - {(c, 0, 0)}. chain t2 (F y) (entry_cluster (fat_ent g2 y)) \<and> set (F y) \<inter> set (R @ [c]) = {} \<and>
      fat_size_of g2 y \<le> 512 * spc * length (F y) \<and> take 11 (fat_ent g2 y) \<noteq> n"
    using own names entL by auto
  moreover have "\<forall>y \<in> ?L - {(c, 0, 0)}. \<forall>z \<in> ?L - {(c, 0, 0)}. y \<noteq> z \<longrightarrow> set (F y) \<inter> set (F z) = {} \<and> take 11 (fat_ent g2 y) \<noteq> take 11 (fat_ent g2 z)"
    using v(5) entL by (metis Diff_iff)
  ultimately show "prepared t2 g2 (R @ [c]) F (c, 0, 0) n" unfolding prepared_def lives using root x by blast
  show "fat_files fs g2 (R @ [c]) F = fat_files fs g R F"
  proof
    fix m
    have look: "fat_lookup g2 (slots (R @ [c])) m = fat_lookup g (slots R) m"
      unfolding fat_lookup_def lives by (rule find_cong_set) (simp add: entL)
    show "fat_files fs g2 (R @ [c]) F m = fat_files fs g R F m"
    proof (cases "fat_lookup g (slots R) m")
      case (Some y)
      then have y: "y \<in> ?L" using lookup_in by blast
      have "c \<notin> set (F y)" using own [OF y] by auto
      then have "fat_content g2 (F y) = fat_content g (F y)" by (intro content_cong) (auto simp: g2_def)
      then show ?thesis using look Some entL [OF y] by (simp add: fat_files_def fat_size_of_def)
    qed (simp add: fat_files_def look)
  qed
qed

end

context volume
begin

lemma write_all_sectors:
  assumes "holds_vol d t g" "valid c" "i \<le> spc" "length buf = 512"
  shows "\<exists>d'. write_all dk buf (map (\<lambda>s. cluster_to_lba fs c + of_nat s) [i..<spc]) d = (True, d') \<and>
    holds_vol d' t (g(c := take i (g c) @ replicate (spc - i) buf))"
  using assms(1,3)
proof (induction "spc - i" arbitrary: i d g)
  case 0
  then have "length (g c) = spc" "[i..<spc] = []" "i = spc" using g_shape [OF 0(2) assms(2)] by simp_all
  then show ?case using 0 by simp
next
  case (Suc n)
  then have i: "i < spc" by simp
  have len: "length (g c) = spc" using g_shape [OF Suc.prems(1) assms(2)] by simp
  obtain d1 where d1: "dk_write dk (cluster_to_lba fs c + of_nat i) buf d = (True, d1)" "holds_vol d1 t (g(c := (g c)[i := buf]))"
    using write_sector [OF Suc.prems(1) assms(2) i assms(4)] by blast
  have "n = spc - Suc i" "Suc i \<le> spc" using Suc.hyps(2) i by simp_all
  from Suc.hyps(1) [OF this(1) d1(2) this(2)] obtain d2 where d2:
    "write_all dk buf (map (\<lambda>s. cluster_to_lba fs c + of_nat s) [Suc i..<spc]) d1 = (True, d2)"
    "holds_vol d2 t (g(c := take (Suc i) ((g c)[i := buf]) @ replicate (spc - Suc i) buf))" by auto
  have "take (Suc i) ((g c)[i := buf]) @ replicate (spc - Suc i) buf = take i (g c) @ replicate (spc - i) buf"
    using i len by (simp add: take_Suc_conv_app_nth Suc_diff_Suc [symmetric])
  then show ?case using d1(1) d2 i by (simp add: upt_conv_Cons)
qed

lemma zero_cluster:
  assumes "holds_vol d t g" "valid c"
  shows "\<exists>d'. write_all dk (replicate 512 0) (cluster_sectors fs c) d = (True, d') \<and>
    holds_vol d' t (g(c := replicate spc (replicate 512 0)))"
  using write_all_sectors [OF assms, of 0 "replicate 512 0"] by (simp add: cluster_sectors_def)

lemma and_28: "unat c < 128 * table_size \<Longrightarrow> c AND 0x0FFFFFFF = c"
proof -
  assume "unat c < 128 * table_size"
  then have "unat c < 2 ^ 28" using geom(5) by simp
  then have "take_bit 28 c = c" by (simp add: word_unat_eq_iff unsigned_take_bit_eq take_bit_nat_eq_self)
  then show ?thesis by (simp add: take_bit_eq_mask mask_eq_exp_minus_1)
qed

text \<open>The search for a place in the directory, which may have to grow by a cluster.\<close>

lemma free_slot:
  assumes hd: "holds_vol d t g" and vol: "fat_volume fs N t g R F" and none: "fat_lookup g (slots R) n = None"
    and free: "fat_free fs t \<noteq> {}"
  shows "\<exists>d' t' g' R' x. find_free_dir_slot dk fs d = Some (Some (slot_lba fs x, slot_off x), d') \<and> holds_vol d' t' g' \<and>
    prepared t' g' R' F x n \<and> card (fat_free fs t) - 1 \<le> card (fat_free fs t') \<and> fat_files fs g' R' F = fat_files fs g R F"
proof -
  note v = volumeD [OF vol]
  obtain l d1 where walk: "dir_walk dk fs slot_visit (\<lambda>_. None) (root_cluster fs) (root_cluster fs) () d =
      Some (scan_slots fs slot_visit g (slots R) (), l, d1)" "holds_vol d1 t g"
    "\<forall>a. scan_slots fs slot_visit g (slots R) () = Go a \<longrightarrow> l = last (root_cluster fs # R)"
    using walk [OF hd v(1), of slot_visit "\<lambda>_. None" "root_cluster fs" "()"] by blast
  show ?thesis
  proof (cases "find (\<lambda>x. fat_ent g x ! 0 = 0 \<or> fat_ent g x ! 0 = 0xE5) (slots R)")
    case (Some x)
    then have "find_free_dir_slot dk fs d = Some (Some (slot_lba fs x, slot_off x), d1)"
      using walk(1) by (simp add: find_free_dir_slot_def scan_slot)
    then show ?thesis using walk(2) prepared_slot [OF vol none Some]
      by (intro exI [of _ d1] exI [of _ t] exI [of _ g] exI [of _ R] exI [of _ x]) simp
  next
    case None
    obtain c d2 where c: "fat_alloc_cluster dk fs d1 = (c, d2)" "c \<in> fat_free fs t" "c \<noteq> 0" "valid c" "unat c < 128 * table_size"
      "holds_vol d2 (t(c := 0x0FFFFFFF)) g" using alloc_valid [OF walk(2) v(3) free] .
    have l: "l = last R" using walk(3) None v(2) by (simp add: scan_slot)
    have "unat (last R) < 128 * table_size" using chain_valid [OF v(1), of "last R"] v(2) validD by simp
    from set_entry [OF c(6) this, of c] obtain d3 where d3: "fat_set_entry dk fs l c d2 = (True, d3)"
      "holds_vol d3 ((t(c := 0x0FFFFFFF))(last R := c)) g" using and_28 [OF c(5)] l by auto
    obtain d4 where d4: "write_all dk (replicate 512 0) (cluster_sectors fs c) d3 = (True, d4)"
      "holds_vol d4 ((t(c := 0x0FFFFFFF))(last R := c)) (g(c := replicate spc (replicate 512 0)))"
      using zero_cluster [OF d3(2) c(4)] by blast
    note grown = prepared_grown [OF vol none None c(2)]
    have "find_free_dir_slot dk fs d = Some (Some (slot_lba fs (c, 0, 0), slot_off (c, 0, 0)), d4)"
      using walk(1) None c(1,3) d3(1) d4(1) by (simp add: find_free_dir_slot_def scan_slot slot_lba_def slot_off_def)
    moreover have "card (fat_free fs t) - 1 \<le> card (fat_free fs ((t(c := 0x0FFFFFFF))(last R := c)))"
      unfolding grown(2) using c(2) by simp
    ultimately show ?thesis using d4(2) grown(1,3) by blast
  qed
qed

lemma write_file:
  assumes hd: "holds_vol d t g" and vol: "fat_volume fs N t g R F" and name: "proper_name name"
    and len: "length bs < 2 ^ 31" "length bs + 512 * spc \<le> 512 * spc * card (fat_free fs t)"
  shows "\<exists>d' t' g' R' F'. fat32_write_file dk fs name bs d = Some (int (length bs), d') \<and> holds_vol d' t' g' \<and>
    fat_volume fs N t' g' R' F' \<and> fat_files fs g' R' F' = (fat_files fs g R F)(to_short_name name \<mapsto> bs)"
proof -
  let ?n = "to_short_name name"
  note v = volumeD [OF vol]
  have fits: "length bs \<le> 512 * spc * card (fat_free fs t')" if "card (fat_free fs t) - 1 \<le> card (fat_free fs t')" for t'
  proof -
    have "length bs \<le> 512 * spc * (card (fat_free fs t) - 1)" using len(2) by (simp add: diff_mult_distrib2)
    also have "\<dots> \<le> 512 * spc * card (fat_free fs t')" using that by (rule mult_le_mono2)
    finally show ?thesis .
  qed
  obtain d1 where d1: "find_named dk fs name d = Some (map_option (\<lambda>x. (slot_lba fs x, slot_off x, fat_ent g x)) (fat_lookup g (slots R) ?n), d1)"
    "holds_vol d1 t g" using find_named_lookup [OF hd v(1)] by blast
  show ?thesis
  proof (cases "fat_lookup g (slots R) ?n")
    case (Some x)
    obtain c s k where x: "x = (c, s, k)" by (cases x) auto
    have xL: "x \<in> set (fat_lives g (slots R))" using lookup_in [OF Some] by simp
    then have xin: "c \<in> set R" "s < spc" "k < 16" using lives_in [OF xL] by (simp_all add: x slots_in)
    then have vc: "valid c" using chain_valid [OF v(1)] by simp
    obtain d2 where d2: "dk_read dk (slot_lba fs x) d1 = (True, g c ! s, d2)" "holds_vol d2 t g"
      using read_sector [OF d1(2) vc xin(2)] by (auto simp: x slot_lba_def)
    have old: "entry_cluster (drop (slot_off x) (g c ! s)) = entry_cluster (fat_ent g x)"
      by (simp add: x slot_off_def fat_ent_def entry_cluster_take)
    let ?t = "\<lambda>b. if b \<in> set (F x) then 0 else t b" and ?old = "entry_cluster (fat_ent g x)"
    have ch: "chain t (F x) ?old" using v(4) [OF xL] by simp
    have "\<exists>d3. (if ?old \<ge> 2 then fat_free_chain dk fs ?old d2 else Some (True, d2)) = Some (True, d3) \<and> holds_vol d3 ?t g"
    proof (cases "?old \<ge> 2")
      case True
      then show ?thesis using free_chain [OF d2(2) ch] by simp
    next
      case False
      then have "F x = []" using ch validD by (cases "F x") auto
      then show ?thesis using False d2(2) by simp
    qed
    then obtain d3 where d3: "(if ?old \<ge> 2 then fat_free_chain dk fs ?old d2 else Some (True, d2)) = Some (True, d3)" "holds_vol d3 ?t g" by blast
    note pre = prepared_existing [OF vol Some]
    have "card (fat_free fs t) - 1 \<le> card (fat_free fs ?t)" using pre(2) by simp
    from write_data [OF d3(2) pre(1) name len(1) fits [OF this]] obtain d4 t' g' H where w:
      "fat32_write_data dk fs name bs (slot_lba fs x, slot_off x) d3 = Some (int (length bs), d4)" "holds_vol d4 t' g'"
      "fat_volume fs N t' g' R (F(x := H))" "fat_files fs g' R (F(x := H)) = (fat_files fs g R F)(?n \<mapsto> bs)" by blast
    have "fat32_write_file dk fs name bs d = Some (int (length bs), d4)"
      using Some d1(1) d2(1) d3(1) old geom(11) w(1) by (simp add: fat32_write_file_def find_entry_location_def)
    then show ?thesis using w(2-4) by blast
  next
    case None
    have "fat_free fs t \<noteq> {}" using len(2) geom(2) by auto
    from free_slot [OF d1(2) vol None this] obtain d2 t' g' R' x where s:
      "find_free_dir_slot dk fs d1 = Some (Some (slot_lba fs x, slot_off x), d2)" "holds_vol d2 t' g'" "prepared t' g' R' F x ?n"
      "card (fat_free fs t) - 1 \<le> card (fat_free fs t')" "fat_files fs g' R' F = fat_files fs g R F" by blast
    from write_data [OF s(2,3) name len(1) fits [OF s(4)]] obtain d3 t'' g'' H where w:
      "fat32_write_data dk fs name bs (slot_lba fs x, slot_off x) d2 = Some (int (length bs), d3)" "holds_vol d3 t'' g''"
      "fat_volume fs N t'' g'' R' (F(x := H))" "fat_files fs g'' R' (F(x := H)) = (fat_files fs g' R' F)(?n \<mapsto> bs)" by blast
    have "fat32_write_file dk fs name bs d = Some (int (length bs), d3)"
      using None d1(1) s(1) geom(11) w(1) by (simp add: fat32_write_file_def find_entry_location_def)
    then show ?thesis using w(2-4) s(5) by auto
  qed
qed

lemma content_size:
  assumes "holds_vol d t g" "fat_volume fs N t g R F" "x \<in> set (fat_lives g (slots R))"
  shows "length (take (fat_size_of g x) (fat_content g (F x))) = fat_size_of g x"
proof -
  have x: "chain t (F x) (entry_cluster (fat_ent g x))" "fat_size_of g x \<le> 512 * spc * length (F x)" using volumeD(4) [OF assms(2,3)] by simp_all
  have "length (fat_content g (F x)) = 512 * spc * length (F x)"
    by (rule length_content [OF assms(1)]) (use chain_valid [OF x(1)] in blast)
  then show ?thesis using x(2) by simp
qed

lemma read_file:
  assumes hd: "holds_vol d t g" and vol: "fat_volume fs N t g R F"
  shows "\<exists>d'. holds_vol d' t g \<and> fat32_read_file dk fs name cap d = Some ((case fat_files fs g R F (to_short_name name) of
      None \<Rightarrow> (-1, []) | Some bs \<Rightarrow> if length bs \<le> unat cap then (sint (of_nat (length bs) :: u32), bs) else (-2, [])), d')"
proof -
  let ?n = "to_short_name name"
  note v = volumeD [OF vol]
  obtain d1 where d1: "find_named dk fs name d = Some (map_option (\<lambda>x. (slot_lba fs x, slot_off x, fat_ent g x)) (fat_lookup g (slots R) ?n), d1)"
    "holds_vol d1 t g" using find_named_lookup [OF hd v(1)] by blast
  show ?thesis
  proof (cases "fat_lookup g (slots R) ?n")
    case None
    then show ?thesis using d1 geom(11) by (auto simp: fat32_read_file_def find_entry_def fat_files_def)
  next
    case (Some x)
    then have xL: "x \<in> set (fat_lives g (slots R))" using lookup_in by blast
    let ?sz = "load32 (fat_ent g x) 28" and ?bs = "take (fat_size_of g x) (fat_content g (F x))"
    have len: "length ?bs = unat ?sz" using content_size [OF hd vol xL] by (simp add: fat_size_of_def)
    obtain d2 where d2: "read_chain dk fs (entry_cluster (fat_ent g x)) (unat ?sz) [] d1 =
        Some ((True, unat ?sz - 512 * spc * length (F x), ?bs), d2)" "holds_vol d2 t g"
      using read_chain_content [OF d1(2) conjunct1 [OF v(4) [OF xL]], of "unat ?sz" "[]"] by (auto simp: fat_size_of_def)
    have "unat ?sz - 512 * spc * length (F x) = 0" using v(4) [OF xL] by (simp add: fat_size_of_def)
    then show ?thesis using d1 d2 Some geom(11) len
      by (cases "unat ?sz \<le> unat cap") (simp_all add: fat32_read_file_def find_entry_def fat_files_def word_less_nat_alt not_less)
  qed
qed

lemma lives_delete:
  assumes "x \<in> set (fat_lives g S)" "fat_ent g' x ! 0 = 0xE5" "\<forall>y \<in> set S. y \<noteq> x \<longrightarrow> fat_ent g' y = fat_ent g y"
  shows "fat_lives g' S = filter (\<lambda>y. y \<noteq> x) (fat_lives g S)"
    "dropWhile (\<lambda>y. fat_ent g' y ! 0 \<noteq> 0) S = dropWhile (\<lambda>y. fat_ent g y ! 0 \<noteq> 0) S"
proof -
  have "fat_ent g x ! 0 \<noteq> 0" using lives_in [OF assms(1)] set_takeWhileD by fast
  then have nz: "fat_ent g' y ! 0 \<noteq> 0 \<longleftrightarrow> fat_ent g y ! 0 \<noteq> 0" if "y \<in> set S" for y
    using assms(2,3) that by (cases "y = x") simp_all
  then have tw: "takeWhile (\<lambda>y. fat_ent g' y ! 0 \<noteq> 0) S = takeWhile (\<lambda>y. fat_ent g y ! 0 \<noteq> 0) S"
    by (intro takeWhile_cong refl) simp
  show "dropWhile (\<lambda>y. fat_ent g' y ! 0 \<noteq> 0) S = dropWhile (\<lambda>y. fat_ent g y ! 0 \<noteq> 0) S"
    using nz by (intro dropWhile_cong refl) simp
  show "fat_lives g' S = filter (\<lambda>y. y \<noteq> x) (fat_lives g S)"
    unfolding fat_lives_def tw filter_filter
  proof (rule filter_cong [OF refl])
    fix y assume "y \<in> set (takeWhile (\<lambda>y. fat_ent g y ! 0 \<noteq> 0) S)"
    then have "y \<in> set S" using set_takeWhileD by fast
    then show "live_entry (fat_ent g' y) = (live_entry (fat_ent g y) \<and> y \<noteq> x)"
      using assms(2,3) by (cases "y = x") (auto simp: live_entry_def)
  qed
qed

end

lemma ent_mark:
  assumes "k < 16" "k' < 16" "length buf = 512"
  shows "take 32 (drop (k' * 32) (buf[k * 32 := v])) = (if k' = k then (take 32 (drop (k * 32) buf))[0 := v] else take 32 (drop (k' * 32) buf))"
proof (rule nth_equalityI)
  fix i assume "i < length (take 32 (drop (k' * 32) (buf[k * 32 := v])))"
  then have i: "i < 32" "k' * 32 + i < 512" using assms by simp_all
  then have "k' * 32 + i = k * 32 \<longleftrightarrow> k' = k \<and> i = 0" by (cases "k' < k"; cases "k < k'") auto
  then show "take 32 (drop (k' * 32) (buf[k * 32 := v])) ! i =
      (if k' = k then (take 32 (drop (k * 32) buf))[0 := v] else take 32 (drop (k' * 32) buf)) ! i"
    using i assms by (auto simp: nth_list_update)
qed (use assms in auto)

context volume
begin

lemma delete_file:
  assumes hd: "holds_vol d t g" and vol: "fat_volume fs N t g R F"
  shows "\<exists>d' t' g'. fat32_delete_file dk fs name d =
      Some (if fat_files fs g R F (to_short_name name) = None then -1 else 0, d') \<and> holds_vol d' t' g' \<and>
    fat_volume fs N t' g' R F \<and> fat_files fs g' R F = (fat_files fs g R F)(to_short_name name := None) \<and>
    fat_free fs t' = fat_free fs t \<union> fat_clusters fs g R F (to_short_name name)"
proof -
  let ?n = "to_short_name name" and ?L = "set (fat_lives g (slots R))"
  note v = volumeD [OF vol]
  obtain d1 where d1: "find_named dk fs name d = Some (map_option (\<lambda>x. (slot_lba fs x, slot_off x, fat_ent g x)) (fat_lookup g (slots R) ?n), d1)"
    "holds_vol d1 t g" using find_named_lookup [OF hd v(1)] by blast
  show ?thesis
  proof (cases "fat_lookup g (slots R) ?n")
    case None
    then have "fat32_delete_file dk fs name d = Some (-1, d1)" "fat_files fs g R F ?n = None"
      using d1(1) geom(11) by (simp_all add: fat32_delete_file_def find_entry_location_def fat_files_def)
    then show ?thesis using d1(2) vol None by (intro exI [of _ d1] exI [of _ t] exI [of _ g]) (simp add: fun_upd_idem fat_clusters_def)
  next
    case (Some x)
    obtain c s k where x: "x = (c, s, k)" by (cases x) auto
    have xL: "x \<in> ?L" "take 11 (fat_ent g x) = ?n" using lookup_in [OF Some] by simp_all
    then have xin: "c \<in> set R" "s < spc" "k < 16" using lives_in [OF xL(1)] by (simp_all add: x slots_in)
    then have vc: "valid c" using chain_valid [OF v(1)] by simp
    have gs: "length (g c) = spc" "length (g c ! s) = 512" using g_shape [OF hd vc] xin(2) by simp_all
    obtain d2 where d2: "dk_read dk (slot_lba fs x) d1 = (True, g c ! s, d2)" "holds_vol d2 t g"
      using read_sector [OF d1(2) vc xin(2)] by (auto simp: x slot_lba_def)
    let ?buf = "(g c ! s)[k * 32 := 0xE5]" and ?old = "entry_cluster (fat_ent g x)"
    let ?g = "g(c := (g c)[s := ?buf])" and ?t = "\<lambda>b. if b \<in> set (F x) then 0 else t b"
    have "length ?buf = 512" using gs(2) by simp
    from write_sector [OF d2(2) vc xin(2) this] obtain d3 where d3: "dk_write dk (slot_lba fs x) ?buf d2 = (True, d3)" "holds_vol d3 t ?g"
      by (auto simp: x slot_lba_def)
    have ch: "chain t (F x) ?old" using v(4) [OF xL(1)] by simp
    have "\<exists>ok d4. (if ?old \<ge> 2 then fat_free_chain dk fs ?old d3 else Some (True, d3)) = Some (ok, d4) \<and> holds_vol d4 ?t ?g"
    proof (cases "?old \<ge> 2")
      case True
      then show ?thesis using free_chain [OF d3(2) ch] by auto
    next
      case False
      then have "F x = []" using ch validD by (cases "F x") auto
      then show ?thesis using False d3(2) by auto
    qed
    then obtain ok d4 where d4: "(if ?old \<ge> 2 then fat_free_chain dk fs ?old d3 else Some (True, d3)) = Some (ok, d4)" "holds_vol d4 ?t ?g" by blast
    have old: "entry_cluster (drop (slot_off x) (g c ! s)) = ?old"
      by (simp add: x slot_off_def fat_ent_def entry_cluster_take)
    have res: "fat32_delete_file dk fs name d = Some (0, d4)"
      using Some d1(1) d2(1) d3(1) d4(1) old geom(11)
      by (cases "?old \<ge> 2") (simp_all add: fat32_delete_file_def find_entry_location_def x slot_off_def)
    have ex: "fat_ent ?g x ! 0 = 0xE5" using ent_mark [OF xin(3,3) gs(2), of "0xE5"] gs xin by (simp add: x fat_ent_def)
    have ey: "fat_ent ?g y = fat_ent g y" if "y \<in> set (slots R)" "y \<noteq> x" for y
    proof -
      obtain c' s' k' where y: "y = (c', s', k')" by (cases y) auto
      then have "k' < 16" using that(1) by (simp add: slots_in)
      then show ?thesis using ent_mark [OF xin(3) _ gs(2), of k' "0xE5"] gs xin that(2) y
        by (cases "c' = c \<and> s' = s") (auto simp: fat_ent_def x nth_list_update)
    qed
    have "\<forall>y \<in> set (slots R). y \<noteq> x \<longrightarrow> fat_ent ?g y = fat_ent g y" using ey by blast
    note del = lives_delete [OF xL(1) ex this]
    have L': "set (fat_lives ?g (slots R)) = ?L - {x}" unfolding del(1) by auto
    have entL: "fat_ent ?g y = fat_ent g y" if "y \<in> ?L - {x}" for y using ey lives_in that by blast
    note pre = prepared_existing(1) [OF vol Some, unfolded prepared_def]
    have p1: "chain ?t R (root_cluster fs)" and p4: "\<And>y. y \<in> ?L - {x} \<Longrightarrow> chain ?t (F y) (entry_cluster (fat_ent g y)) \<and> set (F y) \<inter> set R = {} \<and>
        fat_size_of g y \<le> 512 * spc * length (F y)" and p7: "fat_free fs ?t \<subseteq> Collect valid"
      using pre by blast+
    have zeros: "\<forall>y \<in> set (dropWhile (\<lambda>y. fat_ent ?g y ! 0 \<noteq> 0) (slots R)). fat_ent ?g y ! 0 = 0"
    proof
      fix y assume y: "y \<in> set (dropWhile (\<lambda>y. fat_ent ?g y ! 0 \<noteq> 0) (slots R))"
      then have z: "fat_ent g y ! 0 = 0" "y \<in> set (slots R)" unfolding del(2) using v(6) set_dropWhileD by fast+
      have "fat_ent g x ! 0 \<noteq> 0" using lives_in [OF xL(1)] set_takeWhileD by fast
      then have "y \<noteq> x" using z(1) by metis
      then show "fat_ent ?g y ! 0 = 0" using ey [OF z(2)] z(1) by simp
    qed
    have "fat_volume fs N ?t ?g R F"
      unfolding fat_volume_def L'
    proof (intro conjI ballI impI)
      fix y assume y: "y \<in> ?L - {x}"
      show "chain ?t (F y) (entry_cluster (fat_ent ?g y))" "set (F y) \<inter> set R = {}"
        "fat_size_of ?g y \<le> 512 * spc * length (F y)" using p4 [OF y] entL [OF y] by (simp_all add: fat_size_of_def)
      fix z assume z: "z \<in> ?L - {x}" "y \<noteq> z"
      then show "set (F y) \<inter> set (F z) = {}" "take 11 (fat_ent ?g y) \<noteq> take 11 (fat_ent ?g z)"
        using v(5) [of y z] y entL [OF y] entL [OF z(1)] by auto
    next
      fix y assume "y \<in> set (dropWhile (\<lambda>y. fat_ent ?g y ! 0 \<noteq> 0) (slots R))"
      then show "fat_ent ?g y ! 0 = 0" by (rule bspec [OF zeros])
    qed (rule p1, rule v(2), rule p7)
    moreover have "fat_files fs ?g R F = (fat_files fs g R F)(?n := None)"
    proof
      fix m
      have look: "fat_lookup ?g (slots R) m = find (\<lambda>y. take 11 (fat_ent g y) = m) (filter (\<lambda>y. y \<noteq> x) (fat_lives g (slots R)))"
        unfolding fat_lookup_def del(1) by (rule find_cong_set) (simp add: entL)
      show "fat_files fs ?g R F m = ((fat_files fs g R F)(?n := None)) m"
      proof (cases "m = ?n")
        case True
        have "fat_lookup ?g (slots R) m = None"
          unfolding look find_None_iff
        proof
          assume "\<exists>y. y \<in> set (filter (\<lambda>y. y \<noteq> x) (fat_lives g (slots R))) \<and> take 11 (fat_ent g y) = m"
          then obtain y where "y \<in> ?L" "x \<noteq> y" "take 11 (fat_ent g y) = m" by fastforce
          then show False using v(5) [OF xL(1), of y] xL(2) True by simp
        qed
        then show ?thesis using True by (simp add: fat_files_def)
      next
        case False
        have same: "fat_lookup ?g (slots R) m = fat_lookup g (slots R) m"
          unfolding look by (simp add: fat_lookup_def, rule find_filter) (use False xL(2) in auto)
        show ?thesis
        proof (cases "fat_lookup g (slots R) m")
          case (Some y)
          then have y: "y \<in> ?L - {x}" using lookup_in [OF Some] False xL(2) by auto
          have "fat_content ?g (F y) = fat_content g (F y)" using p4 [OF y] xin(1) by (intro content_cong) auto
          then show ?thesis using same Some False entL [OF y] by (simp add: fat_files_def fat_size_of_def)
        qed (use False same in \<open>simp add: fat_files_def\<close>)
      qed
    qed
    moreover have "fat_files fs g R F ?n \<noteq> None" using Some by (simp add: fat_files_def)
    moreover have "fat_free fs ?t = fat_free fs t \<union> fat_clusters fs g R F ?n"
      using validD chain_valid [OF ch] by (auto simp: fat_free_def fat_clusters_def Some split: if_splits)
    ultimately show ?thesis using res d4(2) by (intro exI [of _ d4] exI [of _ ?t] exI [of _ ?g]) simp
  qed
qed

lemma volume_of_disk:
  assumes "holds_vol d t g" "fat_volume fs N t g R F"
  shows "fat_volume fs N (tab d) (dat d) R F" "fat_files fs (dat d) R F = fat_files fs g R F" "fat_free fs (tab d) = fat_free fs t"
proof -
  note v = volumeD [OF assms(2)]
  have t: "tab d c = t c" if "valid c" for c using holds_volD(2) [OF assms(1)] validD [OF that] by blast
  have g: "dat d c = g c" if "valid c" for c using holds_volD(3) [OF assms(1) that] .
  show free: "fat_free fs (tab d) = fat_free fs t" using holds_volD(2) [OF assms(1)] by (auto simp: fat_free_def)
  have ch: "chain (tab d) cs c" if "chain t cs c" for cs c
    by (rule chain_cong [OF that]) (use chain_valid [OF that] t in blast)
  have ent: "fat_ent (dat d) y = fat_ent g y" if "y \<in> set (slots R)" for y
    by (rule ent_cong [OF that]) (use chain_valid [OF v(1)] g in blast)
  have tw: "takeWhile (\<lambda>y. fat_ent (dat d) y ! 0 \<noteq> 0) (slots R) = takeWhile (\<lambda>y. fat_ent g y ! 0 \<noteq> 0) (slots R)"
    "dropWhile (\<lambda>y. fat_ent (dat d) y ! 0 \<noteq> 0) (slots R) = dropWhile (\<lambda>y. fat_ent g y ! 0 \<noteq> 0) (slots R)"
    by (intro takeWhile_cong dropWhile_cong refl; simp add: ent)+
  have lives: "fat_lives (dat d) (slots R) = fat_lives g (slots R)"
    unfolding fat_lives_def tw by (rule filter_cong) (auto dest!: set_takeWhileD simp: ent)
  have entL: "fat_ent (dat d) y = fat_ent g y" if "y \<in> set (fat_lives g (slots R))" for y using ent lives_in [OF that] by blast
  show "fat_volume fs N (tab d) (dat d) R F"
    unfolding fat_volume_def lives free tw
  proof (intro conjI ballI impI)
    fix y assume y: "y \<in> set (fat_lives g (slots R))"
    show "chain (tab d) (F y) (entry_cluster (fat_ent (dat d) y))" "set (F y) \<inter> set R = {}"
      "fat_size_of (dat d) y \<le> 512 * spc * length (F y)" using v(4) [OF y] ch entL [OF y] by (simp_all add: fat_size_of_def)
    fix z assume z: "z \<in> set (fat_lives g (slots R))" "y \<noteq> z"
    then show "set (F y) \<inter> set (F z) = {}" "take 11 (fat_ent (dat d) y) \<noteq> take 11 (fat_ent (dat d) z)"
      using v(5) [OF y z] entL [OF y] entL [OF z(1)] by auto
  next
    fix y assume y: "y \<in> set (dropWhile (\<lambda>y. fat_ent g y ! 0 \<noteq> 0) (slots R))"
    then have "fat_ent g y ! 0 = 0" "y \<in> set (slots R)" using v(6) set_dropWhileD by fast+
    then show "fat_ent (dat d) y ! 0 = 0" using ent by simp
  qed (use v(1,2,3) ch in auto)
  show "fat_files fs (dat d) R F = fat_files fs g R F"
  proof
    fix m
    have look: "fat_lookup (dat d) (slots R) m = fat_lookup g (slots R) m"
      unfolding fat_lookup_def lives by (rule find_cong_set) (simp add: entL)
    show "fat_files fs (dat d) R F m = fat_files fs g R F m"
    proof (cases "fat_lookup g (slots R) m")
      case (Some y)
      then have y: "y \<in> set (fat_lives g (slots R))" using lookup_in by blast
      have "fat_content (dat d) (F y) = fat_content g (F y)"
        by (rule content_cong) (use chain_valid [OF conjunct1 [OF v(4) [OF y]]] g in blast)
      then show ?thesis using look Some entL [OF y] by (simp add: fat_files_def fat_size_of_def)
    qed (simp add: fat_files_def look)
  qed
qed

end

section \<open>The volume on the ATA disk\<close>

lemma ata_block_device:
  assumes "ata_drive io drive busy capacity" "disk_present s"
  shows "block_device (ata_disk io s) (\<lambda>d. platter (drive d)) (\<lambda>d. phase (drive d) = Ready) capacity"
proof -
  show ?thesis
  proof
    fix d and lba :: u32
    assume d: "phase (drive d) = Ready" "unat lba < capacity"
    show "\<exists>d'. dk_read (ata_disk io s) lba d = (True, platter (drive d) lba, d') \<and> phase (drive d') = Ready \<and> platter (drive d') = platter (drive d)"
      using ata_drive.read_sectors [OF assms(1,2), of d 1 lba] d by (simp add: ata_disk_def ata_drive.idle_def [OF assms(1)])
    show "\<exists>d'. dk_write (ata_disk io s) lba bs d = (True, d') \<and> phase (drive d') = Ready \<and> platter (drive d') = (platter (drive d))(lba := bs)"
      if "length bs = 512" for bs
      using ata_drive.write_sectors [OF assms(1,2), of d 1 lba bs] d that
      by (simp add: ata_disk_def ata_drive.idle_def [OF assms(1)] ata_drive.written_def [OF assms(1)])
  qed (use ata_drive.sector_length [OF assms(1)] in simp)
qed

interpretation sim_disk: block_device "ata_disk sim_io sim_ata" "\<lambda>d. platter (padded (fst d))" "\<lambda>d. phase (padded (fst d)) = Ready" "2 ^ 28"
  by (rule ata_block_device [OF sim.ata_drive_axioms]) (simp add: sim_ata_def)

lemma ata_volume:
  assumes "ata_drive io drive busy capacity" "disk_present s" "fat_geometry capacity N fs"
  shows "volume (ata_disk io s) (\<lambda>d. platter (drive d)) (\<lambda>d. phase (drive d) = Ready) capacity fs N"
  using ata_block_device [OF assms(1,2)] assms(3) by (simp add: volume_def volume_axioms_def)

text \<open>
  C24. A file written is a file of the volume. On a sound volume with room for the data and one more
  cluster, \<open>fat32_write_file\<close> returns the number of bytes, the volume is sound afterwards, under the
  short name it holds exactly the data, whether the file existed before or not and whether or not
  the directory had to grow, and every other file has the contents it had.
\<close>

theorem fat32_write_correct:
  assumes drive: "ata_drive io drive busy capacity" "disk_present s" "phase (drive d) = Ready"
    and vol: "fat_geometry capacity N fs" "fat_volume fs N (fat_tab fs (platter (drive d))) (fat_dat fs (platter (drive d))) R F"
    and name: "proper_name name" and len: "length bs < 2 ^ 31"
      "length bs + 512 * unat (sectors_per_cluster fs) \<le> 512 * unat (sectors_per_cluster fs) * card (fat_free fs (fat_tab fs (platter (drive d))))"
  shows "\<exists>d' R' F'. fat32_write_file (ata_disk io s) fs name bs d = Some (int (length bs), d') \<and> phase (drive d') = Ready \<and>
    fat_volume fs N (fat_tab fs (platter (drive d'))) (fat_dat fs (platter (drive d'))) R' F' \<and>
    fat_files fs (fat_dat fs (platter (drive d'))) R' F' = (fat_files fs (fat_dat fs (platter (drive d))) R F)(to_short_name name \<mapsto> bs)"
proof -
  note v = ata_volume [OF drive(1,2) vol(1)]
  note self = volume.holds_vol_self [OF v, of d, OF drive(3)]
  from volume.write_file [OF v self vol(2) name len] obtain d' t' g' R' F' where w:
    "fat32_write_file (ata_disk io s) fs name bs d = Some (int (length bs), d')"
    "volume.holds_vol (\<lambda>d. platter (drive d)) (\<lambda>d. phase (drive d) = Ready) fs N d' t' g'"
    "fat_volume fs N t' g' R' F'" "fat_files fs g' R' F' = (fat_files fs (fat_dat fs (platter (drive d))) R F)(to_short_name name \<mapsto> bs)" by blast
  note same = volume.volume_of_disk [OF v w(2,3)]
  show ?thesis using w(1) volume.holds_volD(1) [OF v w(2)] same(1) same(2) [unfolded w(4)] by blast
qed

text \<open>
  C25. Reading a file returns what the volume holds under its short name: its length and its bytes,
  \<open>-1\<close> when there is none and \<open>-2\<close> when it does not fit into the buffer; and reading changes nothing.
\<close>

theorem fat32_read_correct:
  assumes drive: "ata_drive io drive busy capacity" "disk_present s" "phase (drive d) = Ready"
    and vol: "fat_geometry capacity N fs" "fat_volume fs N (fat_tab fs (platter (drive d))) (fat_dat fs (platter (drive d))) R F"
  shows "\<exists>d'. fat32_read_file (ata_disk io s) fs name cap d =
      Some (case fat_files fs (fat_dat fs (platter (drive d))) R F (to_short_name name) of
        None \<Rightarrow> (-1, []) | Some bs \<Rightarrow> if length bs \<le> unat cap then (sint (of_nat (length bs) :: u32), bs) else (-2, []), d') \<and>
    phase (drive d') = Ready \<and> fat_volume fs N (fat_tab fs (platter (drive d'))) (fat_dat fs (platter (drive d'))) R F \<and>
    fat_files fs (fat_dat fs (platter (drive d'))) R F = fat_files fs (fat_dat fs (platter (drive d))) R F"
proof -
  note v = ata_volume [OF drive(1,2) vol(1)]
  note self = volume.holds_vol_self [OF v, of d, OF drive(3)]
  from volume.read_file [OF v self vol(2), of name cap] obtain d' where r:
    "volume.holds_vol (\<lambda>d. platter (drive d)) (\<lambda>d. phase (drive d) = Ready) fs N d' (fat_tab fs (platter (drive d))) (fat_dat fs (platter (drive d)))"
    "fat32_read_file (ata_disk io s) fs name cap d =
      Some (case fat_files fs (fat_dat fs (platter (drive d))) R F (to_short_name name) of
        None \<Rightarrow> (-1, []) | Some bs \<Rightarrow> if length bs \<le> unat cap then (sint (of_nat (length bs) :: u32), bs) else (-2, []), d')" by blast
  note same = volume.volume_of_disk [OF v r(1) vol(2)]
  show ?thesis using r(2) volume.holds_volD(1) [OF v r(1)] same(1,2) by blast
qed

text \<open>
  C26. Deleting a file removes exactly it: \<open>fat32_delete_file\<close> returns \<open>0\<close> for a file of the volume and
  \<open>-1\<close> for no file, the volume is sound afterwards and without the name, every other file is as it
  was, and the free clusters are those that were free before and all clusters of the file.
\<close>

theorem fat32_delete_correct:
  assumes drive: "ata_drive io drive busy capacity" "disk_present s" "phase (drive d) = Ready"
    and vol: "fat_geometry capacity N fs" "fat_volume fs N (fat_tab fs (platter (drive d))) (fat_dat fs (platter (drive d))) R F"
  shows "\<exists>d'. fat32_delete_file (ata_disk io s) fs name d =
      Some (if fat_files fs (fat_dat fs (platter (drive d))) R F (to_short_name name) = None then -1 else 0, d') \<and>
    phase (drive d') = Ready \<and> fat_volume fs N (fat_tab fs (platter (drive d'))) (fat_dat fs (platter (drive d'))) R F \<and>
    fat_files fs (fat_dat fs (platter (drive d'))) R F = (fat_files fs (fat_dat fs (platter (drive d))) R F)(to_short_name name := None) \<and>
    fat_free fs (fat_tab fs (platter (drive d'))) =
      fat_free fs (fat_tab fs (platter (drive d))) \<union> fat_clusters fs (fat_dat fs (platter (drive d))) R F (to_short_name name)"
proof -
  note v = ata_volume [OF drive(1,2) vol(1)]
  note self = volume.holds_vol_self [OF v, of d, OF drive(3)]
  from volume.delete_file [OF v self vol(2), of name] obtain d' t' g' where r:
    "fat32_delete_file (ata_disk io s) fs name d =
      Some (if fat_files fs (fat_dat fs (platter (drive d))) R F (to_short_name name) = None then -1 else 0, d')"
    "volume.holds_vol (\<lambda>d. platter (drive d)) (\<lambda>d. phase (drive d) = Ready) fs N d' t' g'" "fat_volume fs N t' g' R F"
    "fat_files fs g' R F = (fat_files fs (fat_dat fs (platter (drive d))) R F)(to_short_name name := None)"
    "fat_free fs t' = fat_free fs (fat_tab fs (platter (drive d))) \<union> fat_clusters fs (fat_dat fs (platter (drive d))) R F (to_short_name name)" by blast
  note same = volume.volume_of_disk [OF v r(2,3)]
  show ?thesis
    using r(1) volume.holds_volD(1) [OF v r(2)] same(1) same(2) [unfolded r(4)] r(5) [folded same(3)] by blast
qed

text \<open>An empty volume: one sector of table, and the root directory in the first cluster.\<close>

definition small_fs :: fat where
  "small_fs = \<lparr>mounted = True, bytes_per_sector = 512, sectors_per_cluster = 1, reserved_sectors = 1, num_fats = 1,
     fat_size = 1, root_cluster = 2, first_data_sector = 2\<rparr>"

definition small_disk :: drive where
  "small_disk = blank_drive\<lparr>platter := (\<lambda>lba. if lba = 1 then replicate 8 0xFF @ [0xFF, 0xFF, 0xFF, 0x0F] @ replicate 500 0 else replicate 512 0)\<rparr>"

lemma small_volume:
  "fat_geometry (2 ^ 28) 128 small_fs" "platter (padded small_disk) = platter small_disk" "phase (padded small_disk) = Ready"
  "fat_volume small_fs 128 (fat_tab small_fs (platter small_disk)) (fat_dat small_fs (platter small_disk)) [2] (\<lambda>x. [])"
  "2 \<le> card (fat_free small_fs (fat_tab small_fs (platter small_disk)))"
  "fat_files small_fs (fat_dat small_fs (platter small_disk)) [2] (\<lambda>x. []) n = None"
proof -
  show "fat_geometry (2 ^ 28) 128 small_fs" by (simp add: fat_geometry_def small_fs_def)
  show "platter (padded small_disk) = platter small_disk" "phase (padded small_disk) = Ready"
    by (auto simp: padded_def small_disk_def blank_drive_def)
  let ?g = "fat_dat small_fs (platter small_disk)" and ?t = "fat_tab small_fs (platter small_disk)"
  have ent: "fat_ent ?g x ! 0 = 0" if "x \<in> set (fat_slots small_fs [2])" for x
    using that by (auto simp: fat_slots_def small_fs_def fat_ent_def fat_dat_def cluster_sectors_def cluster_to_lba_def small_disk_def)
  then have nil: "takeWhile (\<lambda>x. fat_ent ?g x ! 0 \<noteq> 0) (fat_slots small_fs [2]) = []"
    by (cases "fat_slots small_fs [2]") auto
  then have lives: "fat_lives ?g (fat_slots small_fs [2]) = []" by (simp add: fat_lives_def)
  have "?t 2 = 0x0FFFFFFF" by (simp add: fat_tab_def small_fs_def small_disk_def load32_def nth_append)
  then have "fat_chain 128 ?t [2] 2" by (simp add: fat_valid_def)
  then show "fat_volume small_fs 128 ?t ?g [2] (\<lambda>x. [])"
    unfolding fat_volume_def lives using ent
    by (auto simp: small_fs_def fat_free_def fat_valid_def word_le_nat_alt dest: set_dropWhileD)
  show "fat_files small_fs ?g [2] (\<lambda>x. []) n = None" by (simp add: fat_files_def fat_lookup_def lives)
  have "{3, 4} \<subseteq> fat_free small_fs ?t" by (simp add: fat_free_def fat_tab_def small_fs_def small_disk_def load32_def nth_append)
  then have "card {3 :: u32, 4} \<le> card (fat_free small_fs ?t)" by (intro card_mono) (auto intro: finite_subset [of _ UNIV])
  then show "2 \<le> card (fat_free small_fs ?t)" by simp
qed

interpretation sim_volume: volume "ata_disk sim_io sim_ata" "\<lambda>d. platter (padded (fst d))" "\<lambda>d. phase (padded (fst d)) = Ready" "2 ^ 28" small_fs 128
  by (rule ata_volume [OF sim.ata_drive_axioms _ small_volume(1)]) (simp add: sim_ata_def)

theorem fat32_write_correct_witness:
  "\<exists>d' R' F'. fat32_write_file (ata_disk sim_io sim_ata) small_fs [0x61] [1, 2, 3] (small_disk, 0) = Some (3, d') \<and>
    fat_volume small_fs 128 (fat_tab small_fs (platter (padded (fst d')))) (fat_dat small_fs (platter (padded (fst d')))) R' F' \<and>
    fat_files small_fs (fat_dat small_fs (platter (padded (fst d')))) R' F' (0x41 # replicate 10 0x20) = Some [1, 2, 3]"
proof -
  have n: "to_short_name [0x61] = 0x41 # replicate 10 0x20" by (simp add: to_short_name_def upper_def replicate_add [symmetric])
  have pre: "disk_present sim_ata" "proper_name [0x61]" "unat (sectors_per_cluster small_fs) = 1"
    by (simp_all add: small_fs_def sim_ata_def proper_name_def)
  have "\<exists>d' R' F'. fat32_write_file (ata_disk sim_io sim_ata) small_fs [0x61] [1, 2, 3] (small_disk, 0) = Some (int (length [1, 2, 3 :: u8]), d') \<and>
      phase (padded (fst d')) = Ready \<and>
      fat_volume small_fs 128 (fat_tab small_fs (platter (padded (fst d')))) (fat_dat small_fs (platter (padded (fst d')))) R' F' \<and>
      fat_files small_fs (fat_dat small_fs (platter (padded (fst d')))) R' F' =
        (fat_files small_fs (fat_dat small_fs (platter (padded (fst (small_disk, 0 :: nat))))) [2] (\<lambda>x. []))(to_short_name [0x61] \<mapsto> [1, 2, 3])"
    by (rule fat32_write_correct [OF sim.ata_drive_axioms pre(1) _ small_volume(1)]) (use small_volume pre in simp_all)
  then show ?thesis unfolding n by (metis (no_types, lifting) fun_upd_same length_Cons list.size(3) of_nat_numeral numeral_3_eq_3)
qed

theorem fat32_read_correct_witness:
  "\<exists>d'. fat32_read_file (ata_disk sim_io sim_ata) small_fs [0x61] 10 (small_disk, 0) = Some ((-1, []), d')"
  using fat32_read_correct [OF sim.ata_drive_axioms, where s = sim_ata and d = "(small_disk, 0)" and N = 128 and fs = small_fs and
        R = "[2]" and F = "\<lambda>x. []" and name = "[0x61]" and cap = 10] small_volume
  by (auto simp: sim_ata_def)

text \<open>A file that was written before is deleted.\<close>

theorem fat32_delete_correct_witness:
  "\<exists>d1 d2 R F. fat32_write_file (ata_disk sim_io sim_ata) small_fs [0x61] [1, 2, 3] (small_disk, 0) = Some (3, d1) \<and>
     fat32_delete_file (ata_disk sim_io sim_ata) small_fs [0x61] d1 = Some (0, d2) \<and>
     fat_files small_fs (fat_dat small_fs (platter (padded (fst d2)))) R F (0x41 # replicate 10 0x20) = None"
proof -
  let ?p = "\<lambda>d. platter (padded (fst d))" and ?d = "(small_disk, 0) :: drive \<times> nat"
  have n: "to_short_name [0x61] = 0x41 # replicate 10 0x20" by (simp add: to_short_name_def upper_def replicate_add [symmetric])
  have hv: "sim_volume.holds_vol ?d (fat_tab small_fs (?p ?d)) (fat_dat small_fs (?p ?d))"
    by (rule sim_volume.holds_vol_self) (use small_volume(3) in \<open>simp only: fst_conv\<close>)
  have vol: "fat_volume small_fs 128 (fat_tab small_fs (?p ?d)) (fat_dat small_fs (?p ?d)) [2] (\<lambda>x. [])" using small_volume(2,4) by simp
  have room: "proper_name [0x61]" "length [1, 2, 3 :: u8] < 2 ^ 31"
    "length [1, 2, 3 :: u8] + 512 * unat (sectors_per_cluster small_fs) \<le> 512 * unat (sectors_per_cluster small_fs) * card (fat_free small_fs (fat_tab small_fs (?p ?d)))"
    using small_volume(2,5) by (simp_all add: proper_name_def small_fs_def)
  from sim_volume.write_file [OF hv vol room] obtain d1 t g R F where w:
    "fat32_write_file (ata_disk sim_io sim_ata) small_fs [0x61] [1, 2, 3] ?d = Some (3, d1)" "sim_volume.holds_vol d1 t g"
    "fat_volume small_fs 128 t g R F" "fat_files small_fs g R F (0x41 # replicate 10 0x20) = Some [1, 2, 3]"
    unfolding n by auto
  note same = sim_volume.volume_of_disk [OF w(2,3)] and ready = sim_volume.holds_volD(1) [OF w(2)]
  have "disk_present sim_ata" by (simp add: sim_ata_def)
  from fat32_delete_correct [OF sim.ata_drive_axioms this ready small_volume(1) same(1), of "[0x61]", unfolded n] obtain d2 where d2:
    "fat32_delete_file (ata_disk sim_io sim_ata) small_fs [0x61] d1 =
       Some (if fat_files small_fs (fat_dat small_fs (?p d1)) R F (0x41 # replicate 10 0x20) = None then -1 else 0, d2)"
    "fat_files small_fs (fat_dat small_fs (?p d2)) R F = (fat_files small_fs (fat_dat small_fs (?p d1)) R F)(0x41 # replicate 10 0x20 := None)"
    by blast
  have "fat_files small_fs (fat_dat small_fs (?p d1)) R F (0x41 # replicate 10 0x20) \<noteq> None" unfolding same(2) w(4) by simp
  then have "fat32_delete_file (ata_disk sim_io sim_ata) small_fs [0x61] d1 = Some (0, d2)" using d2(1) by simp
  moreover have "fat_files small_fs (fat_dat small_fs (?p d2)) R F (0x41 # replicate 10 0x20) = None" unfolding d2(2) by simp
  ultimately show ?thesis using w(1) by blast
qed

end
