(* ===== verification/Console.thy ===== *)
theory Console
  imports Stdio Fbcon Ports
begin

text \<open>
  The kernel's output, the end of \<^verbatim>\<open>lib/stdio.c\<close>: every character goes to the framebuffer console and
  to the serial line. The state is the pair of the console and the devices behind the ports; an
  operation is undefined where the console is or where the serial line never drains.
\<close>

section \<open>Operations\<close>

type_synonym ('a, 'd) out = "'a fbcon_scheme \<times> 'd"

definition kputchar :: "'d io \<Rightarrow> u8 \<Rightarrow> ('a, 'd) out \<Rightarrow> ('a, 'd) out option" where
  "kputchar io c w =
     (let (s, d) = w in Option.bind (fbcon_putchar c s) (\<lambda>s. map_option (Pair s) (serial_putchar io c d)))"

partial_function (option) kputs :: "'d io \<Rightarrow> u64 \<Rightarrow> mem \<Rightarrow> ('a, 'd) out \<Rightarrow> ('a, 'd) out option" where
  "kputs io s m w = (if m s = 0 then Some w else Option.bind (kputchar io (m s) w) (kputs io (s + 1) m))"

text \<open>The buffer of \<open>kprintf\<close> is on its stack, at \<open>buf\<close>.\<close>

definition kprintf :: "'d io \<Rightarrow> u64 \<Rightarrow> u64 \<Rightarrow> u64 list \<Rightarrow> mem \<Rightarrow> ('a, 'd) out \<Rightarrow> (u32 \<times> mem \<times> ('a, 'd) out) option" where
  "kprintf io buf fmt args m w =
     Option.bind (vsnprintf buf 1024 fmt args m) (\<lambda>(ret, m).
     map_option (\<lambda>w. (ret, m, w)) (kputs io buf m w))"

section \<open>What is printed\<close>

text \<open>
  The console and the line after some characters: the console shows what a terminal shows, and the
  line has carried the characters.
\<close>

definition printed :: "('d \<Rightarrow> u8 list) \<Rightarrow> u8 list \<Rightarrow> ('a, 'd) out \<Rightarrow> ('a, 'd) out \<Rightarrow> bool" where
  "printed sent cs w w' \<longleftrightarrow> con_inv (fst w') \<and> con_frame (fst w) (fst w') \<and>
     con_text (fst w') = fold (\<lambda>c. term_putchar c (con_fg (fst w))) cs (con_text (fst w)) \<and>
     sent (snd w') = sent (snd w) @ cs"

lemma printed_Nil: "con_inv (fst w) \<Longrightarrow> printed sent [] w w"
  by (simp add: printed_def)

lemma printed_append:
  assumes "printed sent cs u v" "printed sent ds v w"
  shows "printed sent (cs @ ds) u w"
proof -
  have "con_fg (fst v) = con_fg (fst u)" using assms(1) by (simp add: printed_def con_frame_def)
  then show ?thesis using assms con_frame_trans by (auto simp: printed_def)
qed

lemma kputchar_prints:
  assumes "uart io k sent" "con_inv (fst w)"
  shows "\<exists>w'. kputchar io c w = Some w' \<and> printed sent [c] w w'"
proof -
  obtain s d where w: "w = (s, d)" by (cases w)
  obtain s' where "fbcon_putchar c s = Some s'" "con_inv s'" "con_frame s s'"
    "con_text s' = term_putchar c (con_fg s) (con_text s)"
    using fbcon_putchar_ok [of s c] assms(2) w by auto
  moreover obtain d' where "serial_putchar io c d = Some d'" "sent d' = sent d @ [c]"
    using serial_putchar_sends [OF assms(1)] by blast
  ultimately show ?thesis by (intro exI [of _ "(s', d')"]) (simp add: w kputchar_def printed_def)
qed

lemma kputs_prints:
  assumes "uart io k sent" "con_inv (fst w)" "cstr m s cs"
  shows "\<exists>w'. kputs io s m w = Some w' \<and> printed sent cs w w'"
  using assms(2,3)
proof (induction cs arbitrary: s w)
  case Nil
  then show ?case by (subst kputs.simps) (simp add: printed_Nil)
next
  case (Cons c cs)
  obtain v where v: "kputchar io c w = Some v" "printed sent [c] w v"
    using kputchar_prints [OF assms(1) Cons.prems(1)] by blast
  then have "con_inv (fst v)" by (simp add: printed_def)
  from Cons.IH [OF this, of "s + 1"] Cons.prems(2) obtain w' where "kputs io (s + 1) m v = Some w'" "printed sent cs v w'" by auto
  with v show ?case using Cons.prems(2) printed_append [OF v(2), of cs w'] by (subst kputs.simps) auto
qed

text \<open>A buffer that holds some bytes and a zero after them holds the string up to the first zero.\<close>

lemma cstr_of_buffer:
  assumes "\<forall>i<length cs. m (p + of_nat i) = cs ! i" "m (p + of_nat (length cs)) = 0"
  shows "cstr m p (takeWhile (\<lambda>c. c \<noteq> 0) cs)"
  using assms
proof (induction cs arbitrary: p)
  case (Cons c cs)
  have "m p = c" using Cons.prems(1) [rule_format, of 0] by simp
  moreover have "cstr m (p + 1) (takeWhile (\<lambda>c. c \<noteq> 0) cs)"
  proof (rule Cons.IH)
    show "\<forall>i<length cs. m (p + 1 + of_nat i) = cs ! i"
      using Cons.prems(1) [rule_format, of "Suc _"] by (simp add: add.assoc)
    show "m (p + 1 + of_nat (length cs)) = 0" using Cons.prems(2) by (simp add: add.assoc)
  qed
  ultimately show ?case by simp
qed simp

text \<open>
  C30. \<open>kprintf\<close> returns, with the length of the whole text, whenever the serial line drains and every string
  argument lies within the first 1023 characters of the text: these characters, up to a zero character in them, are
  sent on the line and appear on the console as on a terminal, and nothing but the buffer changes in memory. A string
  argument that would be cut off makes \<open>vsnprintf\<close> go round its buffer instead, as its own theory shows.
\<close>

theorem kprintf_correct:
  assumes "uart io k sent" "con_inv (fst w)"
    and "render f args = Some cs" "length cs < 2 ^ 64" "kept buf 1024 m fmt f" "\<forall>a\<in>set args. arg_ok buf 1024 m a"
    and "strs_fit 1023 0 f args"
  shows "\<exists>m' w'. kprintf io buf fmt (map arg_slot args) m w = Some (of_nat (length cs), m', w') \<and>
    printed sent (takeWhile (\<lambda>c. c \<noteq> 0) (take 1023 cs)) w w' \<and> (\<forall>a. 1024 \<le> a - buf \<longrightarrow> m' a = m a)"
proof -
  let ?m = "\<lambda>a. let i = unat (a - buf); n = min (length cs) (unat (1024 :: u64) - 1) in
    if i < n then cs ! i else if i = n then 0 else m a"
  have v: "vsnprintf buf 1024 fmt (map arg_slot args) m = Some (of_nat (length cs), ?m)"
    by (rule vsnprintf_renders) (use assms in simp_all)
  have u: "unat (of_nat i :: u64) = i" if "i \<le> 1023" for i using that by (simp add: unat_of_nat)
  have "\<forall>i<length (take 1023 cs). ?m (buf + of_nat i) = take 1023 cs ! i" by (simp add: u)
  moreover have "?m (buf + of_nat (length (take 1023 cs))) = 0" by (auto simp: u min.commute Let_def)
  ultimately have "cstr ?m buf (takeWhile (\<lambda>c. c \<noteq> 0) (take 1023 cs))" by (rule cstr_of_buffer)
  from kputs_prints [OF assms(1,2) this] obtain w' where
    "kputs io buf ?m w = Some w'" "printed sent (takeWhile (\<lambda>c. c \<noteq> 0) (take 1023 cs)) w w'" by blast
  moreover have "?m a = m a" if "1024 \<le> a - buf" for a using that by (auto simp: word_le_nat_alt)
  ultimately show ?thesis using v by (auto simp: kprintf_def)
qed

theorem kprintf_correct_witness:
  "\<exists>s m' w'. fbcon_init 8 4 16 20 0 small_con = Some s \<and>
     kprintf log_io 0x1000 0x100 [] ((\<lambda>_. 0)(0x100 := 0x48, 0x101 := 0x69)) (s, []) = Some (2, m', w') \<and> snd w' = [0x48, 0x69]"
proof -
  let ?m = "(\<lambda>_. 0)(0x100 := 0x48, 0x101 := 0x69) :: mem"
  obtain s where s: "fbcon_init 8 4 16 20 0 small_con = Some s" "con_inv s"
    using small_con_ready by (auto simp: idle_def)
  have u: "uart log_io (\<lambda>_. 0) (\<lambda>d. d)" by (simp add: uart_def log_io_def)
  have r: "render [0x48, 0x69] [] = Some [0x48, 0x69]" by simp
  have "\<exists>m' w'. kprintf log_io 0x1000 0x100 (map arg_slot []) ?m (s, []) = Some (of_nat (length [0x48, 0x69 :: u8]), m', w') \<and>
      printed (\<lambda>d. d) (takeWhile (\<lambda>c. c \<noteq> 0) (take 1023 [0x48, 0x69])) (s, []) w' \<and> (\<forall>a. 1024 \<le> a - 0x1000 \<longrightarrow> m' a = ?m a)"
    by (rule kprintf_correct [OF u _ r]) (use s(2) in \<open>simp_all add: kept_def\<close>)
  then show ?thesis using s(1) by (auto simp: printed_def)
qed

end
