(* ===== verification/Usermode.thy ===== *)
theory Usermode
  imports Interrupts
begin

text \<open>
  User programs: the address space of a program and the step to ring 3, \<^verbatim>\<open>kernel/usermode.c\<close>, and the
  ELF loader, \<^verbatim>\<open>kernel/elf_loader.c\<close>. The loader writes through the page tables into physical memory,
  which is a function from physical addresses to bytes; a write that the tables do not translate is
  a page fault, and the operation is then undefined (\<open>None\<close>). The pages of the tables themselves are
  the memory of the virtual memory manager: they are never free, so no page the loader maps is one.
\<close>

section \<open>State and memory accesses\<close>

abbreviation (input) USER_REGION_START :: u64 where "USER_REGION_START \<equiv> 0x400000"
abbreviation (input) USER_REGION_END :: u64 where "USER_REGION_END \<equiv> 0x600000"
abbreviation (input) USER_STACK_VIRT :: u64 where "USER_STACK_VIRT \<equiv> 0x500000"
abbreviation (input) USER_STACK_SIZE :: u64 where "USER_STACK_SIZE \<equiv> 0x4000"
abbreviation (input) TEST_CODE_VIRT :: u64 where "TEST_CODE_VIRT \<equiv> 0x400000"
abbreviation (input) GDT_USER_DATA_RPL3 :: u64 where "GDT_USER_DATA_RPL3 \<equiv> 0x1B"
abbreviation (input) GDT_USER_CODE_RPL3 :: u64 where "GDT_USER_CODE_RPL3 \<equiv> 0x23"

record user = procs +
  pmem :: "u64 \<Rightarrow> u8"
  syscall_kernel_stack :: u64

text \<open>
  The walk of the processor: the address must be canonical, and a huge entry ends the walk early.
  The physical address is in bits 12 to 51 of the last entry.
\<close>

definition canonical :: "u64 \<Rightarrow> bool" where
  "canonical va \<longleftrightarrow> va < 0x800000000000 \<or> 0xFFFF800000000000 \<le> va"

definition xlate :: "'a vmm_scheme \<Rightarrow> u64 \<Rightarrow> u64 option" where
  "xlate s va =
     (let e4 = entry s (current_pml4 s) (pml4_idx va) in
      if \<not> canonical va \<or> \<not> present e4 then None else
      let e3 = entry s (table_of s e4) (pdpt_idx va) in
      if \<not> present e3 then None
      else if huge e3 then Some ((e3 AND 0x000FFFFFC0000000) OR take_bit 30 va) else
      let e2 = entry s (table_of s e3) (pd_idx va) in
      if \<not> present e2 then None
      else if huge e2 then Some ((e2 AND 0x000FFFFFFFE00000) OR take_bit 21 va) else
      let e1 = entry s (table_of s e2) (pt_idx va) in
      if \<not> present e1 then None else Some ((e1 AND 0x000FFFFFFFFFF000) OR take_bit 12 va))"

definition user_read :: "u64 \<Rightarrow> 'a user_scheme \<Rightarrow> u8 option" where
  "user_read va s = map_option (pmem s) (xlate s va)"

primrec user_write :: "u64 \<Rightarrow> u8 list \<Rightarrow> 'a user_scheme \<Rightarrow> 'a user_scheme option" where
  "user_write va [] s = Some s"
| "user_write va (b # bs) s =
     Option.bind (xlate s va) (\<lambda>p. user_write (va + 1) bs (s\<lparr>pmem := (pmem s)(p := b)\<rparr>))"

section \<open>The address space of a program\<close>

text \<open>The pages of a loop from \<open>start\<close> up to \<open>stop\<close>, both multiples of the page size.\<close>

definition page_range :: "u64 \<Rightarrow> u64 \<Rightarrow> u64 list" where
  "page_range start stop =
     (if start < stop then map (\<lambda>i. start + of_nat i * PMM_PAGE_SIZE) [0..<unat (stop - start) div 4096] else [])"

definition usermode_reset_address_space :: "'a vmm_scheme \<Rightarrow> 'a vmm_scheme" where
  "usermode_reset_address_space s =
     fold (\<lambda>v s. if vmm_is_mapped v s then vmm_unmap_page v s else s) (page_range USER_REGION_START USER_REGION_END) s"

primrec map_user_pages :: "u64 list \<Rightarrow> 'a user_scheme \<Rightarrow> (bool \<times> 'a user_scheme) option" where
  "map_user_pages [] s = Some (True, s)"
| "map_user_pages (v # vs) s =
     (if vmm_is_mapped v s then map_user_pages vs s else
      Option.bind (pmm_alloc_page s) (\<lambda>(phys, s).
      if phys = 0 then Some (False, s) else
      let s = process_track_allocation (process_get_current_pid s) phys s in
      Option.bind (vmm_map_page phys v (PAGE_PRESENT OR PAGE_WRITABLE OR PAGE_USER) s) (\<lambda>s.
      Option.bind (user_write v (replicate 4096 0) s) (map_user_pages vs))))"

definition usermode_map_range :: "u64 \<Rightarrow> u64 \<Rightarrow> 'a user_scheme \<Rightarrow> (bool \<times> 'a user_scheme) option" where
  "usermode_map_range virt_start sz s =
     (let start = virt_start AND NOT (PMM_PAGE_SIZE - 1);
          stop = (virt_start + sz + PMM_PAGE_SIZE - 1) AND NOT (PMM_PAGE_SIZE - 1)
      in map_user_pages (page_range start stop) s)"

text \<open>The step to ring 3 does not return: its outcome is the frame that \<^verbatim>\<open>iretq\<close> loads.\<close>

record iret_frame =
  if_rip :: u64
  if_cs :: u64
  if_rflags :: u64
  if_rsp :: u64
  if_ss :: u64

definition usermode_enter :: "'g gdt_scheme \<Rightarrow> u64 \<Rightarrow> u64 \<Rightarrow> 'a user_scheme \<Rightarrow> iret_frame \<times> 'a user_scheme" where
  "usermode_enter g entry_point user_stack_top s =
     (\<lparr>if_rip = entry_point, if_cs = GDT_USER_CODE_RPL3, if_rflags = 0x202, if_rsp = user_stack_top, if_ss = GDT_USER_DATA_RPL3\<rparr>,
      s\<lparr>syscall_kernel_stack := tss_get_rsp0 g\<rparr>)"

text \<open>The program built into the kernel image is \<open>prog\<close>; no frame means that the caller goes on.\<close>

definition usermode_run_test :: "'g gdt_scheme \<Rightarrow> u8 list \<Rightarrow> 'a user_scheme \<Rightarrow> (iret_frame option \<times> 'a user_scheme) option" where
  "usermode_run_test g prog s =
     Option.bind (usermode_map_range TEST_CODE_VIRT (of_nat (length prog)) (usermode_reset_address_space s)) (\<lambda>(ok, s).
     if \<not> ok then Some (None, s) else
     Option.bind (usermode_map_range USER_STACK_VIRT USER_STACK_SIZE s) (\<lambda>(ok, s).
     if \<not> ok then Some (None, s) else
     map_option (\<lambda>s. map_prod Some id (usermode_enter g TEST_CODE_VIRT (USER_STACK_VIRT + USER_STACK_SIZE - 16) s))
       (user_write TEST_CODE_VIRT prog s)))"

section \<open>The ELF loader\<close>

abbreviation (input) ELF_MAGIC :: u32 where "ELF_MAGIC \<equiv> 0x464C457F"
abbreviation (input) PT_LOAD :: u32 where "PT_LOAD \<equiv> 1"

text \<open>The fields of the packed structures that the loader reads; the file is in the kernel's memory at \<open>file_buffer\<close>.\<close>

record elf64_header =
  eh_magic :: u32
  eh_bitness :: u8
  eh_machine :: u16
  eh_entry :: u64
  eh_phoff :: u64
  eh_phnum :: u16

record elf64_phdr =
  p_type :: u32
  p_offset :: u64
  p_vaddr :: u64
  p_filesz :: u64
  p_memsz :: u64

definition mem_bytes :: "mem \<Rightarrow> u64 \<Rightarrow> nat \<Rightarrow> u8 list" where
  "mem_bytes m a n = map (\<lambda>i. m (a + of_nat i)) [0..<n]"

definition elf_header :: "mem \<Rightarrow> u64 \<Rightarrow> elf64_header" where
  "elf_header m a =
     (let bs = mem_bytes m a 64 in
      \<lparr>eh_magic = load32 bs 0, eh_bitness = bs ! 4, eh_machine = load16 bs 18, eh_entry = load64 bs 24,
       eh_phoff = load64 bs 32, eh_phnum = load16 bs 56\<rparr>)"

definition elf_phdr :: "mem \<Rightarrow> u64 \<Rightarrow> elf64_phdr" where
  "elf_phdr m a =
     (let bs = mem_bytes m a 56 in
      \<lparr>p_type = load32 bs 0, p_offset = load64 bs 8, p_vaddr = load64 bs 16, p_filesz = load64 bs 32, p_memsz = load64 bs 40\<rparr>)"

text \<open>The loop over the program headers; \<open>False\<close> is the error return.\<close>

primrec load_segments :: "mem \<Rightarrow> u64 \<Rightarrow> elf64_phdr list \<Rightarrow> 'a user_scheme \<Rightarrow> (bool \<times> 'a user_scheme) option" where
  "load_segments m file_buffer [] s = Some (True, s)"
| "load_segments m file_buffer (ph # phs) s =
     (if p_type ph \<noteq> PT_LOAD then load_segments m file_buffer phs s
      else if 0xFFFF800000000000 \<le> p_vaddr ph then Some (False, s) else
      Option.bind (usermode_map_range (p_vaddr ph) (p_memsz ph) s) (\<lambda>(ok, s).
      if \<not> ok then Some (False, s) else
      Option.bind (user_write (p_vaddr ph) (mem_bytes m (file_buffer + p_offset ph) (unat (p_filesz ph))) s)
        (load_segments m file_buffer phs)))"

definition elf_load :: "mem \<Rightarrow> u64 \<Rightarrow> 'a user_scheme \<Rightarrow> (u64 option \<times> 'a user_scheme) option" where
  "elf_load m file_buffer s =
     (let header = elf_header m file_buffer in
      if eh_magic header \<noteq> ELF_MAGIC then Some (None, s)
      else if eh_bitness header \<noteq> 2 \<or> eh_machine header \<noteq> 0x3E then Some (None, s)
      else if eh_phnum header = 0 then Some (None, s) else
      let phs = map (\<lambda>i. elf_phdr m (file_buffer + eh_phoff header + of_nat i * 56)) [0..<unat (eh_phnum header)] in
      Option.bind (load_segments m file_buffer phs (usermode_reset_address_space s)) (\<lambda>(ok, s).
      if \<not> ok then Some (None, s) else
      map_option (\<lambda>(ok, s). (if ok then Some (eh_entry header) else None, s))
        (usermode_map_range USER_STACK_VIRT USER_STACK_SIZE s)))"

definition elf_load_and_run :: "'g gdt_scheme \<Rightarrow> mem \<Rightarrow> u64 \<Rightarrow> 'a user_scheme \<Rightarrow> (iret_frame option \<times> 'a user_scheme) option" where
  "elf_load_and_run g m file_buffer s =
     map_option (\<lambda>(r, s). case r of None \<Rightarrow> (None, s)
       | Some entry_point \<Rightarrow> map_prod Some id (usermode_enter g entry_point (USER_STACK_VIRT + USER_STACK_SIZE - 16) s))
       (elf_load m file_buffer s)"

section \<open>Frames used by the virtual memory manager\<close>

text \<open>A mapping uses at most three frames for tables.\<close>

lemma vmm_next_table_cost:
  assumes "pmm_inv s" "vmm_next_table t i fl s = Some (r, s')"
  shows "pmm_inv s'" "card (free_pages s) \<le> card (free_pages s') + 1"
proof -
  have "pmm_inv s' \<and> card (free_pages s) \<le> card (free_pages s') + 1"
  proof (cases "present (entry s t i)")
    case True
    then show ?thesis using assms by (simp add: vmm_next_table_def)
  next
    case False
    obtain a s1 where r: "pmm_alloc_page s = Some (a, s1)" using pmm.alloc_defined [OF assms(1)] by blast
    from assms(1) r show ?thesis
    proof (cases rule: pmm_alloc_page_cases)
      case full
      then show ?thesis using False r assms by (simp add: vmm_next_table_def)
    next
      case (found k)
      have "k * 4096 \<noteq> 0" using pmm.page_address(1) [OF assms(1) found(1)] .
      then have "pmm_inv s' = pmm_inv (take_page k s)" "free_pages s' = free_pages (take_page k s)"
        using False r found assms(2) by (auto simp: vmm_next_table_def Let_def frame_simps)
      then show ?thesis using found(1) assms(1) card_Diff_singleton [of k "free_pages s"]
        by (simp add: free_pages_take pmm_inv_take)
    qed
  qed
  then show "pmm_inv s'" "card (free_pages s) \<le> card (free_pages s') + 1" by blast+
qed

lemma vmm_map_page_cost:
  assumes "pmm_inv s" "vmm_map_page phys va flags s = Some s'"
  shows "card (free_pages s) \<le> card (free_pages s') + 3"
proof -
  obtain r s1 where d: "vmm_descend va (table_flags flags) s = Some (r, s1)" and fp: "free_pages s' = free_pages s1"
    using assms(2) unfolding vmm_map_page_descend by (auto simp: frame_simps split: Option.bind_splits option.splits)
  note C = vmm_next_table_cost
  obtain r1 t1 where 1: "vmm_next_table (current_pml4 s) (pml4_idx va) (table_flags flags) s = Some (r1, t1)"
    using d by (auto simp: vmm_descend_def split: Option.bind_splits)
  note c1 = C [OF assms(1) 1]
  show ?thesis
  proof (cases r1)
    case None
    then show ?thesis using d 1 c1 fp by (simp add: vmm_descend_def)
  next
    case p1: (Some p1)
    obtain r2 t2 where 2: "vmm_next_table p1 (pdpt_idx va) (table_flags flags) t1 = Some (r2, t2)"
      using d 1 p1 by (auto simp: vmm_descend_def split: Option.bind_splits)
    note c2 = C [OF c1(1) 2]
    show ?thesis
    proof (cases r2)
      case None
      then show ?thesis using d 1 2 p1 c1 c2 fp by (simp add: vmm_descend_def)
    next
      case p2: (Some p2)
      then have "vmm_next_table p2 (pd_idx va) (table_flags flags) t2 = Some (r, s1)"
        using d 1 2 p1 by (simp add: vmm_descend_def)
      from C(2) [OF c2(1) this] show ?thesis using c1(2) c2(2) fp by simp
    qed
  qed
qed

text \<open>What an unmapping keeps.\<close>

lemma vmm_unmap_page_grows:
  assumes "pt_inv s" "no_huge s va"
  shows "tree_grows s (vmm_unmap_page va s)" "free_pages (vmm_unmap_page va s) = free_pages s"
proof -
  have "tree_grows s (vmm_unmap_page va s) \<and> free_pages (vmm_unmap_page va s) = free_pages s"
  proof (cases "tab s [pd_idx va, pdpt_idx va, pml4_idx va]")
    case None
    then show ?thesis using no_huge_walk(2) [OF assms(2)] by simp
  next
    case (Some t)
    then show ?thesis
      using no_huge_walk(3) [OF assms(2) Some] tree_grows_set_leaf [OF assms(1) _ _ Some idx_less(4) [of va]]
      by (simp add: path_def idx_less frame_simps del: tab.simps)
  qed
  then show "tree_grows s (vmm_unmap_page va s)" "free_pages (vmm_unmap_page va s) = free_pages s" by blast+
qed

section \<open>Addresses of the user region\<close>

definition in_region :: "u64 \<Rightarrow> bool" where
  "in_region v \<longleftrightarrow> USER_REGION_START \<le> v \<and> v < USER_REGION_END"

lemma in_region_unat: "in_region v \<longleftrightarrow> 0x400000 \<le> unat v \<and> unat v < 0x600000"
  by (simp add: in_region_def word_le_nat_alt word_less_nat_alt)

lemma in_region_canonical: "in_region v \<Longrightarrow> canonical v"
  by (simp add: in_region_unat canonical_def word_less_nat_alt)

lemma region_page:
  assumes "in_region v"
  shows "unat (take_bit 36 (drop_bit 12 v)) = unat v div 4096"
proof -
  have "unat (drop_bit 12 v) = unat v div 4096" by (simp add: drop_bit_eq_div unat_div)
  moreover have "unat v div 4096 < 2 ^ 36" using assms by (intro le_less_trans [OF div_le_dividend]) (simp add: in_region_unat)
  ultimately show ?thesis by (simp add: unsigned_take_bit_eq take_bit_nat_eq_self)
qed

lemma same_page_region:
  assumes "in_region v" "in_region w"
  shows "same_page v w \<longleftrightarrow> unat v div 4096 = unat w div 4096"
  unfolding same_page_iff word_unat_eq_iff using region_page assms by simp

lemma same_page_refl [simp]: "same_page v v"
  by (simp add: same_page_def)

text \<open>The physical address of a leaf entry for frame \<open>k\<close>.\<close>

lemma frame_entry_address:
  fixes k v :: u64
  assumes "k < 131072"
  shows "((k * 4096 OR 7) AND 0x000FFFFFFFFFF000) OR take_bit 12 v = k * 4096 + take_bit 12 v"
proof -
  have k: "k = take_bit 17 k" using assms by (simp add: word_unat_eq_iff unsigned_take_bit_eq take_bit_nat_eq_self word_less_nat_alt)
  have m: "(0x000FFFFFFFFFF000 :: u64) = push_bit 12 (mask 40)" by (simp add: mask_eq_exp_minus_1 push_bit_eq_mult)
  have s: "(7 :: u64) = mask 3" by (simp add: mask_eq_exp_minus_1)
  have "k * 4096 AND take_bit 12 v = 0"
    unfolding mult_4096 by (rule bit_eqI) (auto simp: bit_simps)
  then have "k * 4096 + take_bit 12 v = k * 4096 OR take_bit 12 v" by (rule disjunctive_add_eq_or)
  moreover have "(k * 4096 OR 7) AND 0x000FFFFFFFFFF000 = k * 4096"
    unfolding mult_4096 m s by (subst (1 2) k, rule bit_eqI) (auto simp: bit_simps)
  ultimately show ?thesis by simp
qed

lemma xlate_region:
  assumes "no_huge s v" "in_region v"
  shows "xlate s v = map_option (\<lambda>e. (e AND 0x000FFFFFFFFFF000) OR take_bit 12 v) (leaf s v)"
  using assms in_region_canonical [OF assms(2)]
  by (auto simp: xlate_def leaf_def no_huge_def huge_at_def Let_def split: Option.bind_splits if_splits)

section \<open>The address space of a program\<close>

text \<open>
  The invariant: the pages of the region are mapped to frames of their own that are not free, with
  the flags of a user page.
\<close>

definition user_frame :: "u64 \<Rightarrow> u64" where
  "user_frame k = k * PMM_PAGE_SIZE OR 7"

definition user_space :: "'a user_scheme \<Rightarrow> bool" where
  "user_space s \<longleftrightarrow> pt_inv s \<and> (\<forall>v. in_region v \<longrightarrow> no_huge s v) \<and>
     (\<forall>v e. in_region v \<longrightarrow> leaf s v = Some e \<longrightarrow> (\<exists>k. e = user_frame k \<and> k < 131072 \<and> k \<notin> free_pages s)) \<and>
     (\<forall>v w. in_region v \<longrightarrow> in_region w \<longrightarrow> leaf s v \<noteq> None \<longrightarrow> leaf s v = leaf s w \<longrightarrow> same_page v w)"

lemma user_spaceD:
  assumes "user_space s" "in_region v"
  shows "pt_inv s" "no_huge s v" "leaf s v = Some e \<Longrightarrow> \<exists>k. e = user_frame k \<and> k < 131072 \<and> k \<notin> free_pages s"
    "in_region w \<Longrightarrow> leaf s v \<noteq> None \<Longrightarrow> leaf s v = leaf s w \<Longrightarrow> same_page v w"
  using assms unfolding user_space_def by blast+

lemma xlate_user_frame:
  assumes "user_space s" "in_region v" "leaf s v = Some (user_frame k)" "k < 131072"
  shows "xlate s v = Some (k * 4096 + take_bit 12 v)"
  using xlate_region [OF user_spaceD(2) [OF assms(1,2)] assms(2)] assms(3) frame_entry_address [OF assms(4)]
  by (simp add: user_frame_def)

lemma xlate_None: "user_space s \<Longrightarrow> in_region v \<Longrightarrow> xlate s v = None \<longleftrightarrow> leaf s v = None"
  using xlate_region [of s v] user_spaceD(2) [of s v] by simp

lemma take_bit_12_less: "take_bit 12 v < 4096" for v :: u64
  by (simp add: word_less_nat_alt unsigned_take_bit_eq take_bit_nat_def)

lemma frame_address_eq:
  fixes k j v w :: u64
  assumes "k < 131072" "j < 131072" "k * 4096 + take_bit 12 v = j * 4096 + take_bit 12 w"
  shows "k = j" "take_bit 12 v = take_bit 12 w"
proof -
  have e: "k * 4096 = j * 4096" "take_bit 12 v = take_bit 12 w"
    using aligned_offset_eq [OF page_aligned_mult_4096 page_aligned_mult_4096 take_bit_12_less take_bit_12_less, of k v j w] assms(3)
    by blast+
  then show "take_bit 12 v = take_bit 12 w" by blast
  show "k = j" using e(1) assms(1,2) by (simp add: word_less_nat_alt word_unat_eq_iff unat_word_ariths)
qed

lemma user_frame_inj: "k < 131072 \<Longrightarrow> j < 131072 \<Longrightarrow> user_frame k = user_frame j \<Longrightarrow> k = j"
  using frame_entry_address [of k 0] frame_entry_address [of j 0] frame_address_eq(1) [of k j 0 0]
  by (simp add: user_frame_def)

lemma same_page_offset_eq:
  assumes "in_region v" "in_region w" "same_page v w" "take_bit 12 v = take_bit 12 w"
  shows "v = w"
proof -
  have "unat v mod 4096 = unat w mod 4096"
    using arg_cong [OF assms(4), of unat] by (simp add: take_bit_eq_mod unat_mod)
  moreover have "unat v div 4096 = unat w div 4096" using same_page_region assms by blast
  ultimately show ?thesis by (metis div_mult_mod_eq word_unat_eq_iff)
qed

text \<open>Different addresses of the region are at different places in memory.\<close>

lemma xlate_inj:
  assumes u: "user_space s" and v: "in_region v" "in_region w" and x: "xlate s v = Some p" "xlate s w = Some p"
  shows "v = w"
proof -
  obtain e where e: "leaf s v = Some e" using x(1) xlate_None [OF u v(1)] by fastforce
  obtain f where f: "leaf s w = Some f" using x(2) xlate_None [OF u v(2)] by fastforce
  obtain k where k: "e = user_frame k" "k < 131072" using user_spaceD(3) [OF u v(1) e] by blast
  obtain j where j: "f = user_frame j" "j < 131072" using user_spaceD(3) [OF u v(2) f] by blast
  have "k * 4096 + take_bit 12 v = j * 4096 + take_bit 12 w"
    using xlate_user_frame [OF u v(1) _ k(2)] xlate_user_frame [OF u v(2) _ j(2)] x e f k j by simp
  note eq = frame_address_eq [OF k(2) j(2) this]
  have "same_page v w" using user_spaceD(4) [OF u v(1,2)] e f k(1) j(1) eq(1) by simp
  then show ?thesis using same_page_offset_eq [OF v] eq(2) by blast
qed

text \<open>A change of the state that keeps tables and free frames keeps the address space.\<close>

lemma user_space_cong:
  assumes "vmm.truncate s' = vmm.truncate s"
  shows "user_space s' = user_space s"
  by (simp add: user_space_def vmm_cong [OF assms])

lemma xlate_cong:
  assumes "vmm.truncate s' = vmm.truncate s"
  shows "xlate s' v = xlate s v"
proof -
  have "entry s' = entry s" "table_of s' = table_of s" "current_pml4 s' = current_pml4 s"
    using assms by (simp_all add: entry_def table_of_def fun_eq_iff vmm.truncate_def)
  then show ?thesis by (simp add: xlate_def cong: if_cong)
qed

lemma user_write_spec:
  assumes "user_space s" "\<forall>i<length bs. in_region (va + of_nat i) \<and> leaf s (va + of_nat i) \<noteq> None"
    "unat va + length bs \<le> 0x600000"
  shows "\<exists>s'. user_write va bs s = Some s' \<and> s' = s\<lparr>pmem := pmem s'\<rparr> \<and>
    (\<forall>v. in_region v \<longrightarrow> user_read v s' =
      (if unat va \<le> unat v \<and> unat v < unat va + length bs then Some (bs ! (unat v - unat va)) else user_read v s)) \<and>
    (\<forall>p. (\<forall>v. in_region v \<longrightarrow> xlate s v \<noteq> Some p) \<longrightarrow> pmem s' p = pmem s p)"
  using assms
proof (induction bs arbitrary: va s)
  case Nil
  then show ?case by auto
next
  case (Cons b bs)
  have va: "in_region va" "leaf s va \<noteq> None" using Cons.prems(2) by force+
  then obtain p where p: "xlate s va = Some p" using xlate_None [OF Cons.prems(1)] by fastforce
  let ?s = "s\<lparr>pmem := (pmem s)(p := b)\<rparr>"
  have tr: "vmm.truncate ?s = vmm.truncate s" by (simp add: vmm.truncate_def)
  have us: "user_space ?s" using Cons.prems(1) user_space_cong [OF tr] by simp
  have u1: "unat (va + 1) = unat va + 1" using Cons.prems(3) unat_add_no_wrap [of va 1] by simp
  have "\<exists>s'. user_write (va + 1) bs ?s = Some s' \<and> s' = ?s\<lparr>pmem := pmem s'\<rparr> \<and>
    (\<forall>v. in_region v \<longrightarrow> user_read v s' =
      (if unat (va + 1) \<le> unat v \<and> unat v < unat (va + 1) + length bs then Some (bs ! (unat v - unat (va + 1))) else user_read v ?s)) \<and>
    (\<forall>p. (\<forall>v. in_region v \<longrightarrow> xlate ?s v \<noteq> Some p) \<longrightarrow> pmem s' p = pmem ?s p)"
  proof (rule Cons.IH [OF us])
    show "\<forall>i<length bs. in_region (va + 1 + of_nat i) \<and> leaf ?s (va + 1 + of_nat i) \<noteq> None"
      using Cons.prems(2) [rule_format, of "Suc _"] by (simp add: add.assoc vmm_cong [OF tr])
    show "unat (va + 1) + length bs \<le> 0x600000" using u1 Cons.prems(3) by simp
  qed
  then obtain s' where s': "user_write (va + 1) bs ?s = Some s'" "s' = ?s\<lparr>pmem := pmem s'\<rparr>"
    "\<forall>v. in_region v \<longrightarrow> user_read v s' =
      (if unat (va + 1) \<le> unat v \<and> unat v < unat (va + 1) + length bs then Some (bs ! (unat v - unat (va + 1))) else user_read v ?s)"
    "\<forall>q. (\<forall>v. in_region v \<longrightarrow> xlate ?s v \<noteq> Some q) \<longrightarrow> pmem s' q = pmem ?s q" by blast
  have rd: "user_read v ?s = (if v = va then Some b else user_read v s)" if "in_region v" for v
  proof (cases "v = va")
    case False
    then have "xlate s v \<noteq> Some p" using xlate_inj [OF Cons.prems(1) that va(1) _ p] by blast
    then show ?thesis using False by (cases "xlate s v") (simp_all add: user_read_def xlate_cong [OF tr])
  qed (use p in \<open>simp add: user_read_def xlate_cong [OF tr]\<close>)
  have "user_read v s' = (if unat va \<le> unat v \<and> unat v < unat va + length (b # bs)
      then Some ((b # bs) ! (unat v - unat va)) else user_read v s)" if "in_region v" for v
  proof -
    have "user_read v s' = (if unat va + 1 \<le> unat v \<and> unat v < unat va + 1 + length bs
        then Some (bs ! (unat v - (unat va + 1))) else if v = va then Some b else user_read v s)"
      using s'(3) [rule_format, OF that] unfolding u1 rd [OF that] .
    moreover have "v = va \<longleftrightarrow> unat v = unat va" by (simp add: word_unat_eq_iff)
    ultimately show ?thesis by (cases "unat v = unat va") (simp_all add: nth_Cons')
  qed
  moreover have "pmem s' q = pmem s q" if "\<forall>v. in_region v \<longrightarrow> xlate s v \<noteq> Some q" for q
  proof -
    have "q \<noteq> p" using that p va(1) by blast
    then show ?thesis using s'(4) [rule_format, of q] that by (simp add: xlate_cong [OF tr])
  qed
  moreover have "s' = s\<lparr>pmem := pmem s'\<rparr>" using s'(2) by simp
  moreover have "user_write va (b # bs) s = Some s'" using s'(1) p by simp
  ultimately show ?case by blast
qed

text \<open>The pages of the region that are not mapped, and room for all of them: four frames for each.\<close>

definition unmapped :: "'a vmm_scheme \<Rightarrow> u64 set" where
  "unmapped s = {v. in_region v \<and> page_aligned v \<and> leaf s v = None}"

definition roomy :: "'a vmm_scheme \<Rightarrow> bool" where
  "roomy s \<longleftrightarrow> 4 * card (unmapped s) < card (free_pages s)"

lemma process_track_allocation_frame:
  "vmm.truncate (process_track_allocation pid a s) = vmm.truncate s"
  "pmem (process_track_allocation pid a s) = pmem s"
  by (simp_all add: process_track_allocation_def upd_proc_def vmm.truncate_def split: option.splits)

text \<open>A frame is shared by the addresses of one page only.\<close>

lemma page_read_zero:
  assumes "user_space s" "in_region v" "page_aligned v" "leaf s v \<noteq> None"
  shows "\<exists>s'. user_write v (replicate 4096 0) s = Some s' \<and> s' = s\<lparr>pmem := pmem s'\<rparr> \<and>
    (\<forall>w. in_region w \<longrightarrow> user_read w s' = (if same_page w v then Some 0 else user_read w s))"
proof -
  obtain a where a: "unat v = 4096 * a" using aligned_unat [OF assms(3)] by blast
  then have b: "a < 1536" "1024 \<le> a" using assms(2) by (auto simp: in_region_unat)
  have off: "in_region (v + of_nat i) \<and> same_page (v + of_nat i) v" if "i < 4096" for i
  proof -
    have x: "(of_nat i :: u64) < 4096" "unat (of_nat i :: u64) = i" using that by (simp_all add: word_less_nat_alt unat_of_nat)
    have "unat (v + of_nat i) = 4096 * a + i" using aligned_offset(1) [OF assms(3) x(1)] a x(2) by simp
    then show ?thesis using same_page_offset [OF assms(3) x(1)] that b by (simp add: in_region_unat)
  qed
  have sp: "same_page w v \<longleftrightarrow> unat v \<le> unat w \<and> unat w < unat v + 4096" if "in_region w" for w
  proof -
    have "unat v div 4096 = a" using a by simp
    then show ?thesis using same_page_region [OF that assms(2)] a by (auto simp: div_nat_eqI)
  qed
  have "\<exists>s'. user_write v (replicate 4096 0) s = Some s' \<and> s' = s\<lparr>pmem := pmem s'\<rparr> \<and>
    (\<forall>w. in_region w \<longrightarrow> user_read w s' = (if unat v \<le> unat w \<and> unat w < unat v + length (replicate 4096 (0 :: u8))
      then Some (replicate 4096 0 ! (unat w - unat v)) else user_read w s)) \<and>
    (\<forall>p. (\<forall>v. in_region v \<longrightarrow> xlate s v \<noteq> Some p) \<longrightarrow> pmem s' p = pmem s p)"
  proof (rule user_write_spec [OF assms(1)])
    show "\<forall>i<length (replicate 4096 (0 :: u8)). in_region (v + of_nat i) \<and> leaf s (v + of_nat i) \<noteq> None"
      using off same_page_leaf [of _ v s] assms(4) by (metis length_replicate)
    show "unat v + length (replicate 4096 (0 :: u8)) \<le> 0x600000" using a b by simp
  qed
  then obtain s' where s': "user_write v (replicate 4096 0) s = Some s'" "s' = s\<lparr>pmem := pmem s'\<rparr>"
    "\<forall>w. in_region w \<longrightarrow> user_read w s' = (if unat v \<le> unat w \<and> unat w < unat v + length (replicate 4096 (0 :: u8))
      then Some (replicate 4096 0 ! (unat w - unat v)) else user_read w s)" by blast
  have "user_read w s' = (if same_page w v then Some 0 else user_read w s)" if "in_region w" for w
    using s'(3) [rule_format, OF that] unfolding sp [OF that] length_replicate
    by (cases "unat v \<le> unat w \<and> unat w < unat v + 4096") auto
  with s'(1,2) show ?thesis by blast
qed

text \<open>A new page of the region.\<close>

lemma map_new_page:
  assumes us: "user_space s" and v: "in_region v" "page_aligned v" "leaf s v = None"
    and k: "k \<in> free_pages s" and r: "roomy s"
  shows "\<exists>s'. vmm_map_page (k * 4096) v 7 (process_track_allocation pid (k * 4096) (take_page k s)) = Some s' \<and>
    user_space s' \<and> roomy s' \<and> leaf s' v \<noteq> None \<and>
    (\<forall>w. in_region w \<longrightarrow> \<not> same_page w v \<longrightarrow> user_read w s' = user_read w s)"
proof -
  let ?t = "process_track_allocation pid (k * 4096) (take_page k s)"
  have inv: "pt_inv s" "pmm_inv s" using user_spaceD(1) [OF us v(1)] pt_invD(1) by blast+
  have kb: "k < 131072" using free_pages_bound [OF inv(2) k] by blast
  have tr: "vmm.truncate ?t = vmm.truncate (take_page k s)" by (rule process_track_allocation_frame)
  have pm: "pmem ?t = pmem s" by (simp add: process_track_allocation_frame take_page_def)
  have lt: "leaf ?t w = leaf s w" "no_huge ?t w = no_huge s w" for w
    unfolding vmm_cong [OF tr] by (rule tables_cong; simp add: frame_simps)+
  have ft: "free_pages ?t = free_pages s - {k}" unfolding vmm_cong [OF tr] by (simp add: free_pages_take)
  have it: "pt_inv ?t" unfolding vmm_cong [OF tr] by (rule pt_inv_take [OF inv(1) k])
  from vmm_map_page_spec [OF it, of v "k * 4096" 7] lt(2) user_spaceD(2) [OF us v(1)] obtain s' where
    s': "vmm_map_page (k * 4096) v 7 ?t = Some s'" "pt_inv s'"
      "\<forall>w. \<not> same_page w v \<longrightarrow> leaf s' w = leaf s w"
      "leaf s' v = Some (k * 4096 OR 7 OR 1) \<or> leaf s' v = leaf s v \<and> free_pages s' = {}" "tree_grows ?t s'"
    unfolding lt by blast
  have more: "vmm.more s' = vmm.more ?t" and fs: "free_pages s' \<subseteq> free_pages s - {k}"
    using s'(5) ft by (auto simp: tree_grows_def)
  have pm': "pmem s' = pmem s" using more pm by (cases s'; cases ?t) simp
  have ct: "card (free_pages ?t) + 1 = card (free_pages s)" using ft k card_Suc_Diff1 [of "free_pages s" k] by simp
  have cs: "card (free_pages ?t) \<le> card (free_pages s') + 3" by (rule vmm_map_page_cost [OF pt_invD(1) [OF it] s'(1)])
  have vu: "v \<in> unmapped s" using v by (simp add: unmapped_def)
  then have "1 \<le> card (unmapped s)" by (metis One_nat_def Suc_leI card_gt_0_iff empty_iff finite_code)
  then have "0 < card (free_pages s')" using r ct cs by (simp add: roomy_def)
  then have lv: "leaf s' v = Some (user_frame k)" using s'(4) by (auto simp: user_frame_def)
  have lw: "leaf s' w = (if same_page w v then Some (user_frame k) else leaf s w)" for w
    using s'(3) lv same_page_leaf [of w v s'] by simp
  have nh: "no_huge s' w" if "in_region w" for w
    using tree_grows_no_huge [OF s'(5)] lt(2) user_spaceD(2) [OF us that] by simp
  have fr: "j \<notin> free_pages s" "j < 131072" if "in_region w" "leaf s w = Some (user_frame j)" "j < 131072" for w j
    using user_spaceD(3) [OF us that(1,2)] user_frame_inj that(3) by auto
  have own: "\<exists>j. e = user_frame j \<and> j < 131072 \<and> j \<notin> free_pages s'" if "in_region w" "leaf s' w = Some e" for w e
  proof (cases "same_page w v")
    case True
    then show ?thesis using that(2) lw kb fs by auto
  next
    case False
    then show ?thesis using user_spaceD(3) [OF us that(1)] that(2) lw fs by (metis DiffD1 subsetD)
  qed
  have other: "leaf s w \<noteq> Some (user_frame k)" if "in_region w" for w using fr(1) [OF that _ kb] k by blast
  have inj: "same_page w x" if "in_region w" "in_region x" "leaf s' w \<noteq> None" "leaf s' w = leaf s' x" for w x
  proof -
    note h = that
    consider "same_page w v" "same_page x v" | "same_page w v" "leaf s x = Some (user_frame k)"
      | "leaf s w = Some (user_frame k)" | "leaf s w \<noteq> None" "leaf s w = leaf s x"
      using h(3,4) unfolding lw by (cases "same_page w v"; cases "same_page x v") auto
    then show ?thesis
    proof cases
      case 1
      then show ?thesis by (simp add: same_page_def)
    qed (use other [OF h(1)] other [OF h(2)] user_spaceD(4) [OF us h(1,2)] in simp_all)
  qed
  have "unmapped s' \<subseteq> unmapped s - {v}" by (auto simp: unmapped_def lw split: if_splits)
  then have "card (unmapped s') \<le> card (unmapped s - {v})" by (intro card_mono) simp_all
  then have "card (unmapped s') + 1 \<le> card (unmapped s)" using vu card_Suc_Diff1 [of "unmapped s" v] by simp
  then have "roomy s'" using r ct cs by (simp add: roomy_def)
  moreover have "user_space s'" unfolding user_space_def using s'(2) nh own inj by blast
  moreover have "user_read w s' = user_read w s" if "in_region w" "\<not> same_page w v" for w
    using xlate_region [OF nh [OF that(1)] that(1)] xlate_region [OF user_spaceD(2) [OF us that(1)] that(1)] that(2) pm'
    by (simp add: user_read_def lw)
  ultimately show ?thesis using s'(1) lv by blast
qed

lemma user_read_None: "user_space s \<Longrightarrow> in_region v \<Longrightarrow> user_read v s = None \<longleftrightarrow> leaf s v = None"
  using xlate_None by (simp add: user_read_def)

text \<open>The contents of the region after a set of pages has been mapped where it was not.\<close>

definition with_pages :: "(u64 \<Rightarrow> bool) \<Rightarrow> (u64 \<Rightarrow> u8 option) \<Rightarrow> u64 \<Rightarrow> u8 option" where
  "with_pages P img v = (if img v = None \<and> P v then Some 0 else img v)"

definition holds_image :: "(u64 \<Rightarrow> u8 option) \<Rightarrow> 'a user_scheme \<Rightarrow> bool" where
  "holds_image img s \<longleftrightarrow> user_space s \<and> roomy s \<and> (\<forall>v. in_region v \<longrightarrow> user_read v s = img v)"

lemma map_user_pages_spec:
  assumes "holds_image img s" "\<forall>v\<in>set vs. in_region v \<and> page_aligned v"
  shows "\<exists>s'. map_user_pages vs s = Some (True, s') \<and> holds_image (with_pages (\<lambda>w. \<exists>v\<in>set vs. same_page w v) img) s'"
  using assms
proof (induction vs arbitrary: s img)
  case Nil
  then show ?case by (simp add: holds_image_def with_pages_def)
next
  case (Cons v vs)
  have us: "user_space s" "roomy s" and rd: "\<And>w. in_region w \<Longrightarrow> user_read w s = img w"
    using Cons.prems(1) by (auto simp: holds_image_def)
  have v: "in_region v" "page_aligned v" using Cons.prems(2) by simp_all
  let ?img = "with_pages (\<lambda>w. same_page w v) img"
  have "\<exists>s1. map_user_pages (v # vs) s = map_user_pages vs s1 \<and> holds_image ?img s1"
  proof (cases "leaf s v")
    case (Some e)
    have "img w \<noteq> None" if "in_region w" "same_page w v" for w
      using Some same_page_leaf [OF that(2), of s] user_read_None [OF us(1) that(1)] rd [OF that(1)] by simp
    then have "?img w = img w" if "in_region w" for w using that by (auto simp: with_pages_def)
    then have "holds_image ?img s" using us rd by (simp add: holds_image_def)
    moreover have "vmm_is_mapped v s" using Some no_huge_walk(1) [OF user_spaceD(2) [OF us(1) v(1)]] by simp
    ultimately show ?thesis by (intro exI [of _ s]) simp
  next
    case None
    have nm: "\<not> vmm_is_mapped v s" using None no_huge_walk(1) [OF user_spaceD(2) [OF us(1) v(1)]] by simp
    have inv: "pmm_inv s" using user_spaceD(1) [OF us(1) v(1)] by (rule pt_invD)
    then obtain a t where r: "pmm_alloc_page s = Some (a, t)" using pmm.alloc_defined by blast
    obtain k where k: "k \<in> free_pages s" "a = k * 4096" "t = take_page k s"
      using inv r by (rule pmm_alloc_page_cases) (use us(2) in \<open>auto simp: roomy_def\<close>)
    have a0: "a \<noteq> 0" using pmm.page_address(1) [OF inv k(1)] k(2) by simp
    obtain s1 where s1: "vmm_map_page a v 7 (process_track_allocation (process_get_current_pid t) a t) = Some s1"
      "user_space s1" "roomy s1" "leaf s1 v \<noteq> None" "\<forall>w. in_region w \<longrightarrow> \<not> same_page w v \<longrightarrow> user_read w s1 = user_read w s"
      using map_new_page [OF us(1) v None k(1) us(2)] k by metis
    obtain s2 where s2: "user_write v (replicate 4096 0) s1 = Some s2" "s2 = s1\<lparr>pmem := pmem s2\<rparr>"
      "\<forall>w. in_region w \<longrightarrow> user_read w s2 = (if same_page w v then Some 0 else user_read w s1)"
      using page_read_zero [OF s1(2) v s1(4)] by blast
    have tr: "vmm.truncate s2 = vmm.truncate s1" by (subst s2(2)) (simp add: vmm.truncate_def)
    have "user_space s2" "roomy s2"
      using s1(2,3) by (simp_all add: user_space_cong [OF tr] roomy_def unmapped_def vmm_cong [OF tr])
    moreover have "user_read w s2 = ?img w" if "in_region w" for w
    proof (cases "same_page w v")
      case True
      then have "img w = None" using None same_page_leaf [OF True, of s] user_read_None [OF us(1) that] rd [OF that] by simp
      then show ?thesis using True s2(3) that by (simp add: with_pages_def)
    qed (use s2(3) s1(5) rd that in \<open>simp add: with_pages_def\<close>)
    ultimately have "holds_image ?img s2" by (simp add: holds_image_def)
    moreover have "map_user_pages (v # vs) s = map_user_pages vs s2"
      using nm r a0 s1(1) s2(1) by (simp add: Let_def)
    ultimately show ?thesis by blast
  qed
  then obtain s1 where s1: "map_user_pages (v # vs) s = map_user_pages vs s1" "holds_image ?img s1" by blast
  from Cons.IH [OF s1(2)] Cons.prems(2) obtain s' where s':
    "map_user_pages vs s1 = Some (True, s')" "holds_image (with_pages (\<lambda>w. \<exists>v\<in>set vs. same_page w v) ?img) s'" by auto
  moreover have "with_pages (\<lambda>w. \<exists>v\<in>set vs. same_page w v) ?img = with_pages (\<lambda>w. \<exists>v\<in>set (v # vs). same_page w v) img"
    by (auto simp: with_pages_def fun_eq_iff)
  ultimately show ?case using s1(1) by simp
qed

section \<open>Ranges of pages\<close>

text \<open>The pages that a range of bytes touches, as numbers.\<close>

definition touches :: "u64 \<Rightarrow> u64 \<Rightarrow> u64 \<Rightarrow> bool" where
  "touches a n v \<longleftrightarrow> unat a div 4096 \<le> unat v div 4096 \<and> unat v div 4096 < (unat a + unat n + 4095) div 4096"

definition within_region :: "u64 \<Rightarrow> u64 \<Rightarrow> bool" where
  "within_region a n \<longleftrightarrow> 0x400000 \<le> unat a \<and> unat a + unat n \<le> 0x600000"

definition page_floor :: "u64 \<Rightarrow> u64" where
  "page_floor a = a AND NOT 0xFFF"

lemma unat_page_floor: "unat (page_floor a) = 4096 * (unat a div 4096)"
proof -
  have "unat (push_bit 12 (drop_bit 12 a)) = unat (drop_bit 12 a * 4096)" by (simp add: push_bit_eq_mult)
  moreover have "unat (drop_bit 12 a) = unat a div 4096" by (simp add: drop_bit_eq_div unat_div)
  moreover have "unat a div 4096 * 4096 < 2 ^ 64"
    using unsigned_less [of a, where 'a = nat] by (intro le_less_trans [OF div_times_less_eq_dividend]) simp
  ultimately show ?thesis unfolding page_floor_def and_not_0xFFF by (simp add: unat_word_ariths)
qed

lemma page_range_set:
  assumes "unat start = 4096 * p" "unat stop = 4096 * q" "1024 \<le> p" "q \<le> 1536" "p \<le> 1536"
  shows "v \<in> set (page_range start stop) \<longleftrightarrow> page_aligned v \<and> p \<le> unat v div 4096 \<and> unat v div 4096 < q"
proof (cases "p < q")
  case True
  have lt: "start < stop" using assms True by (simp add: word_less_nat_alt)
  have n: "unat (stop - start) div 4096 = q - p"
    using lt assms by (simp add: unat_sub_no_wrap diff_mult_distrib2 [symmetric])
  have el: "unat (start + of_nat i * 4096) = 4096 * (p + i)" if "i < q - p" for i
    using that assms by (simp add: unat_word_ariths unat_of_nat)
  show ?thesis
  proof
    assume "v \<in> set (page_range start stop)"
    then obtain i where "i < q - p" "v = start + of_nat i * 4096" using lt n by (auto simp: page_range_def)
    then show "page_aligned v \<and> p \<le> unat v div 4096 \<and> unat v div 4096 < q" using el [of i] by (auto simp: page_aligned_iff)
  next
    assume v: "page_aligned v \<and> p \<le> unat v div 4096 \<and> unat v div 4096 < q"
    then obtain a where a: "unat v = 4096 * a" using aligned_unat by blast
    have "v = start + of_nat (a - p) * 4096" using el [of "a - p"] v a by (auto simp: word_unat_eq_iff)
    moreover have "a - p < q - p" using v a True by auto
    ultimately show "v \<in> set (page_range start stop)" using lt n by (auto simp: page_range_def)
  qed
next
  case False
  then have "\<not> start < stop" using assms by (simp add: word_less_nat_alt)
  then show ?thesis using False by (auto simp: page_range_def)
qed

lemma region_page_bounds: "in_region v \<longleftrightarrow> 1024 \<le> unat v div 4096 \<and> unat v div 4096 < 1536"
  unfolding in_region_unat by (auto simp: div_less_iff_less_mult less_eq_div_iff_mult_less_eq)

lemma page_base:
  assumes "in_region w"
  shows "page_aligned (page_floor w)" "in_region (page_floor w)" "same_page w (page_floor w)"
    "unat (page_floor w) div 4096 = unat w div 4096"
proof -
  note u = unat_page_floor [of w]
  show d: "unat (page_floor w) div 4096 = unat w div 4096" by (simp add: u)
  show r: "in_region (page_floor w)" using assms d by (simp add: region_page_bounds)
  show "page_aligned (page_floor w)" by (simp add: page_aligned_iff u)
  show "same_page w (page_floor w)" using same_page_region [OF assms r] d by simp
qed

lemma usermode_map_range_spec:
  assumes "holds_image img s" "within_region a n"
  shows "\<exists>s'. usermode_map_range a n s = Some (True, s') \<and> holds_image (with_pages (touches a n) img) s'"
proof -
  let ?start = "page_floor a" and ?stop = "page_floor (a + n + 4095)"
  have b: "0x400000 \<le> unat a" "unat a + unat n \<le> 0x600000" using assms(2) by (simp_all add: within_region_def)
  have u: "unat (a + n + 4095) = unat a + unat n + 4095" using b by (simp add: unat_word_ariths)
  have pq: "1024 \<le> unat a div 4096" "unat a div 4096 \<le> 1536" "(unat a + unat n + 4095) div 4096 \<le> 1536"
    using b by (simp_all add: less_eq_div_iff_mult_less_eq div_le_mono) 
  note S = page_range_set [OF unat_page_floor unat_page_floor, of a "a + n + 4095", unfolded u, OF pq(1,3,2)]
  have vs: "\<forall>v\<in>set (page_range ?start ?stop). in_region v \<and> page_aligned v"
    using pq by (auto simp: S region_page_bounds)
  have t: "(\<exists>v\<in>set (page_range ?start ?stop). same_page w v) \<longleftrightarrow> touches a n w" if w: "in_region w" for w
  proof
    assume "\<exists>v\<in>set (page_range ?start ?stop). same_page w v"
    then obtain v where v: "v \<in> set (page_range ?start ?stop)" "same_page w v" by blast
    then have "unat w div 4096 = unat v div 4096" using same_page_region [OF w] vs by blast
    then show "touches a n w" using v(1) unfolding S touches_def by simp
  next
    assume "touches a n w"
    then have "(page_floor w) \<in> set (page_range ?start ?stop)"
      unfolding S touches_def using page_base [OF w] by simp
    then show "\<exists>v\<in>set (page_range ?start ?stop). same_page w v" using page_base(3) [OF w] by blast
  qed
  from map_user_pages_spec [OF assms(1) vs] obtain s' where s': "map_user_pages (page_range ?start ?stop) s = Some (True, s')"
    "holds_image (with_pages (\<lambda>w. \<exists>v\<in>set (page_range ?start ?stop). same_page w v) img) s'" by blast
  moreover have "holds_image (with_pages (touches a n) img) s'"
    using s'(2) t by (simp add: holds_image_def with_pages_def)
  moreover have "usermode_map_range a n s = map_user_pages (page_range ?start ?stop) s"
    by (simp add: usermode_map_range_def page_floor_def add.commute)
  ultimately show ?thesis by auto
qed

section \<open>Loading a program\<close>

lemma unmap_pages_spec:
  fixes s :: "'a user_scheme"
  assumes "pt_inv s" "\<forall>v. in_region v \<longrightarrow> no_huge s v" "\<forall>v\<in>set vs. in_region v"
  shows "let s' = fold (\<lambda>v s. if vmm_is_mapped v s then vmm_unmap_page v s else s) vs s in
    pt_inv s' \<and> (\<forall>v. in_region v \<longrightarrow> no_huge s' v) \<and> free_pages s' = free_pages s \<and>
    (\<forall>w. leaf s' w = (if \<exists>v\<in>set vs. same_page w v then None else leaf s w))"
  using assms
proof (induction vs arbitrary: s)
  case (Cons v vs)
  define t where "t = (if vmm_is_mapped v s then vmm_unmap_page v s else s)"
  have nh: "no_huge s v" using Cons.prems by simp
  have one: "pt_inv t \<and> (\<forall>w. leaf t w = (if same_page w v then None else leaf s w))"
  proof (cases "vmm_is_mapped v s")
    case True
    note U = vmm_unmap_page_spec [OF Cons.prems(1) nh]
    have "leaf (vmm_unmap_page v s) w = None" if "same_page w v" for w using U same_page_leaf [OF that, of "vmm_unmap_page v s"] by simp
    then show ?thesis using True U by (simp add: t_def)
  next
    case False
    then have "leaf s w = None" if "same_page w v" for w using no_huge_walk(1) [OF nh] same_page_leaf [OF that, of s] by simp
    then show ?thesis using False Cons.prems(1) by (simp add: t_def)
  qed
  have g: "free_pages t = free_pages s" "\<forall>w. in_region w \<longrightarrow> no_huge t w"
    using vmm_unmap_page_grows [OF Cons.prems(1) nh] tree_grows_no_huge [of s "vmm_unmap_page v s"] Cons.prems(2) by (auto simp: t_def)
  have "\<forall>v\<in>set vs. in_region v" using Cons.prems(3) by simp
  note IH = Cons.IH [OF conjunct1 [OF one] g(2) this]
  moreover have "fold (\<lambda>v s. if vmm_is_mapped v s then vmm_unmap_page v s else s) (v # vs) s =
      fold (\<lambda>v s. if vmm_is_mapped v s then vmm_unmap_page v s else s) vs t" by (simp add: t_def)
  ultimately show ?case using one g(1) by (simp add: Let_def)
qed simp

lemma region_pages: "v \<in> set (page_range USER_REGION_START USER_REGION_END) \<longleftrightarrow> in_region v \<and> page_aligned v"
  using page_range_set [of USER_REGION_START 1024 USER_REGION_END 1536 v] by (auto simp: region_page_bounds)

lemma reset_holds:
  fixes s :: "'a user_scheme"
  assumes "pt_inv s" "\<forall>v. in_region v \<longrightarrow> no_huge s v" "2048 < card (free_pages s)"
  shows "holds_image (\<lambda>_. None) (usermode_reset_address_space s)"
proof -
  let ?vs = "page_range USER_REGION_START USER_REGION_END" and ?s = "usermode_reset_address_space s"
  have S: "pt_inv ?s" "\<forall>v. in_region v \<longrightarrow> no_huge ?s v" "free_pages ?s = free_pages s"
    "\<forall>w. leaf ?s w = (if \<exists>v\<in>set ?vs. same_page w v then None else leaf s w)"
    using unmap_pages_spec [OF assms(1,2), of ?vs] region_pages by (auto simp: usermode_reset_address_space_def Let_def)
  have none: "leaf ?s w = None" if "in_region w" for w
  proof -
    have "page_floor w \<in> set ?vs" using page_base [OF that] region_pages by blast
    then show ?thesis using S(4) page_base(3) [OF that] by auto
  qed
  then have us: "user_space ?s" using S(1,2) unfolding user_space_def by simp
  have "unmapped ?s \<subseteq> set ?vs" using region_pages by (auto simp: unmapped_def)
  then have "card (unmapped ?s) \<le> length ?vs" using card_mono [of "set ?vs"] card_length [of ?vs] by (meson finite_set order_trans)
  moreover have "length ?vs = 512" by (simp add: page_range_def)
  ultimately have "roomy ?s" using assms(3) S(3) by (simp add: roomy_def)
  then show ?thesis using us none user_read_None [OF us] by (simp add: holds_image_def)
qed

text \<open>What a segment puts into memory: its bytes, and zeros in the pages it touches first.\<close>

definition segment_ok :: "elf64_phdr \<Rightarrow> bool" where
  "segment_ok ph \<longleftrightarrow> p_type ph = PT_LOAD \<longrightarrow> within_region (p_vaddr ph) (p_memsz ph) \<and> p_filesz ph \<le> p_memsz ph"

definition segment_image :: "mem \<Rightarrow> u64 \<Rightarrow> elf64_phdr \<Rightarrow> (u64 \<Rightarrow> u8 option) \<Rightarrow> u64 \<Rightarrow> u8 option" where
  "segment_image m file_buffer ph img v =
     (if p_type ph \<noteq> PT_LOAD then img v
      else if p_vaddr ph \<le> v \<and> v - p_vaddr ph < p_filesz ph then Some (m (file_buffer + p_offset ph + (v - p_vaddr ph)))
      else with_pages (touches (p_vaddr ph) (p_memsz ph)) img v)"

lemma mem_bytes_nth: "length (mem_bytes m a n) = n" "i < n \<Longrightarrow> mem_bytes m a n ! i = m (a + of_nat i)"
  by (simp_all add: mem_bytes_def)

lemma touches_bytes:
  assumes "within_region a n" "i < unat n"
  shows "in_region (a + of_nat i)" "touches a n (a + of_nat i)" "unat (a + of_nat i) = unat a + i"
proof -
  have b: "0x400000 \<le> unat a" "unat a + unat n \<le> 0x600000" using assms(1) by (simp_all add: within_region_def)
  show u: "unat (a + of_nat i) = unat a + i" using b assms(2) by (simp add: unat_word_ariths unat_of_nat)
  show "in_region (a + of_nat i)" using b assms(2) by (simp add: in_region_unat u)
  have "unat a + i + 4096 \<le> unat a + unat n + 4095" using assms(2) by simp
  then have "(unat a + i + 4096) div 4096 \<le> (unat a + unat n + 4095) div 4096" by (rule div_le_mono)
  then show "touches a n (a + of_nat i)" unfolding touches_def u by (simp add: div_le_mono)
qed

lemma load_segment:
  assumes h: "holds_image img s" and ok: "segment_ok ph" and ld: "p_type ph = PT_LOAD"
  shows "\<exists>s' s''. usermode_map_range (p_vaddr ph) (p_memsz ph) s = Some (True, s') \<and>
    user_write (p_vaddr ph) (mem_bytes m (fb + p_offset ph) (unat (p_filesz ph))) s' = Some s'' \<and>
    holds_image (segment_image m fb ph img) s''"
proof -
  let ?a = "p_vaddr ph" and ?n = "p_memsz ph" and ?bs = "mem_bytes m (fb + p_offset ph) (unat (p_filesz ph))"
  have r: "within_region ?a ?n" "unat (p_filesz ph) \<le> unat ?n" using ok ld by (simp_all add: segment_ok_def word_le_nat_alt)
  obtain s1 where s1: "usermode_map_range ?a ?n s = Some (True, s1)" "holds_image (with_pages (touches ?a ?n) img) s1"
    using usermode_map_range_spec [OF h r(1)] by blast
  have us: "user_space s1" and rd: "\<And>v. in_region v \<Longrightarrow> user_read v s1 = with_pages (touches ?a ?n) img v"
    using s1(2) by (auto simp: holds_image_def)
  have A: "\<forall>i<length ?bs. in_region (?a + of_nat i) \<and> leaf s1 (?a + of_nat i) \<noteq> None"
  proof (intro allI impI)
    fix i assume "i < length ?bs"
    then have i: "i < unat ?n" using r(2) by (simp add: mem_bytes_nth)
    note t = touches_bytes [OF r(1) i]
    then have "user_read (?a + of_nat i) s1 \<noteq> None" using rd by (simp add: with_pages_def)
    then show "in_region (?a + of_nat i) \<and> leaf s1 (?a + of_nat i) \<noteq> None" using t(1) user_read_None [OF us t(1)] by simp
  qed
  have B: "unat ?a + length ?bs \<le> 0x600000" using r by (simp add: mem_bytes_nth within_region_def)
  obtain s2 where s2: "user_write ?a ?bs s1 = Some s2" "s2 = s1\<lparr>pmem := pmem s2\<rparr>"
    "\<forall>v. in_region v \<longrightarrow> user_read v s2 =
      (if unat ?a \<le> unat v \<and> unat v < unat ?a + length ?bs then Some (?bs ! (unat v - unat ?a)) else user_read v s1)"
    using user_write_spec [OF us A B] by blast
  have tr: "vmm.truncate s2 = vmm.truncate s1" by (subst s2(2)) (simp add: vmm.truncate_def)
  have "user_read v s2 = segment_image m fb ph img v" if v: "in_region v" for v
  proof -
    have c: "unat ?a \<le> unat v \<and> unat v < unat ?a + length ?bs \<longleftrightarrow> ?a \<le> v \<and> v - ?a < p_filesz ph"
      by (auto simp: mem_bytes_nth word_le_nat_alt word_less_nat_alt unat_sub_no_wrap)
    show ?thesis
    proof (cases "?a \<le> v \<and> v - ?a < p_filesz ph")
      case True
      then have i: "unat v - unat ?a < unat (p_filesz ph)" "of_nat (unat v - unat ?a) = v - ?a"
        using unat_sub_no_wrap [of ?a v] by (auto simp: word_less_nat_alt) (metis of_nat_unat ucast_id)
      then show ?thesis using True s2(3) v c ld by (simp add: mem_bytes_nth(2) segment_image_def)
    next
      case False
      then have "user_read v s2 = user_read v s1" using s2(3) [rule_format, OF v] unfolding c by (simp only: if_False)
      then show ?thesis using False ld rd [OF v] by (simp only: segment_image_def if_False) simp
    qed
  qed
  moreover have "user_space s2" "roomy s2"
    using s1(2) by (simp_all add: holds_image_def user_space_cong [OF tr] roomy_def unmapped_def vmm_cong [OF tr])
  ultimately show ?thesis using s1(1) s2(1) by (auto simp: holds_image_def)
qed

lemma load_segments_spec:
  assumes "holds_image img s" "\<forall>ph\<in>set phs. segment_ok ph"
  shows "\<exists>s'. load_segments m fb phs s = Some (True, s') \<and> holds_image (fold (segment_image m fb) phs img) s'"
  using assms
proof (induction phs arbitrary: s img)
  case (Cons ph phs)
  show ?case
  proof (cases "p_type ph = PT_LOAD")
    case True
    obtain s1 s2 where s: "usermode_map_range (p_vaddr ph) (p_memsz ph) s = Some (True, s1)"
      "user_write (p_vaddr ph) (mem_bytes m (fb + p_offset ph) (unat (p_filesz ph))) s1 = Some s2"
      "holds_image (segment_image m fb ph img) s2"
      using load_segment [OF Cons.prems(1) _ True] Cons.prems(2) by (metis list.set_intros(1))
    have "\<not> 0xFFFF800000000000 \<le> p_vaddr ph"
      using Cons.prems(2) True by (auto simp: segment_ok_def within_region_def word_le_nat_alt)
    then show ?thesis using Cons.IH [OF s(3)] Cons.prems(2) s(1,2) True by simp
  next
    case False
    then have "segment_image m fb ph img = img" by (simp add: segment_image_def fun_eq_iff)
    then show ?thesis using Cons.IH [OF Cons.prems(1)] Cons.prems(2) False by simp
  qed
qed simp

definition elf_phdrs :: "mem \<Rightarrow> u64 \<Rightarrow> elf64_phdr list" where
  "elf_phdrs m fb = map (\<lambda>i. elf_phdr m (fb + eh_phoff (elf_header m fb) + of_nat i * 56)) [0..<unat (eh_phnum (elf_header m fb))]"

text \<open>A static 64-bit executable whose segments lie in the user region.\<close>

definition elf_program :: "mem \<Rightarrow> u64 \<Rightarrow> bool" where
  "elf_program m fb \<longleftrightarrow> eh_magic (elf_header m fb) = ELF_MAGIC \<and> eh_bitness (elf_header m fb) = 2 \<and>
     eh_machine (elf_header m fb) = 0x3E \<and> eh_phnum (elf_header m fb) \<noteq> 0 \<and> (\<forall>ph\<in>set (elf_phdrs m fb). segment_ok ph)"

text \<open>The contents of the region that the file describes: its segments in order, then the stack.\<close>

definition elf_image :: "mem \<Rightarrow> u64 \<Rightarrow> u64 \<Rightarrow> u8 option" where
  "elf_image m fb = with_pages (touches USER_STACK_VIRT USER_STACK_SIZE) (fold (segment_image m fb) (elf_phdrs m fb) (\<lambda>_. None))"

lemma elf_load_holds:
  fixes s :: "'a user_scheme"
  assumes "elf_program m fb" "pt_inv s" "\<forall>v. in_region v \<longrightarrow> no_huge s v" "2048 < card (free_pages s)"
  shows "\<exists>s'. elf_load m fb s = Some (Some (eh_entry (elf_header m fb)), s') \<and> holds_image (elf_image m fb) s'"
proof -
  have e: "eh_magic (elf_header m fb) = ELF_MAGIC" "eh_bitness (elf_header m fb) = 2" "eh_machine (elf_header m fb) = 0x3E"
    "eh_phnum (elf_header m fb) \<noteq> 0" "\<forall>ph\<in>set (elf_phdrs m fb). segment_ok ph"
    using assms(1) by (simp_all add: elf_program_def)
  obtain s1 where s1: "load_segments m fb (elf_phdrs m fb) (usermode_reset_address_space s) = Some (True, s1)"
    "holds_image (fold (segment_image m fb) (elf_phdrs m fb) (\<lambda>_. None)) s1"
    using load_segments_spec [OF reset_holds [OF assms(2-4)] e(5)] by blast
  have "within_region USER_STACK_VIRT USER_STACK_SIZE" by (simp add: within_region_def)
  from usermode_map_range_spec [OF s1(2) this] obtain s2 where
    "usermode_map_range USER_STACK_VIRT USER_STACK_SIZE s1 = Some (True, s2)" "holds_image (elf_image m fb) s2"
    unfolding elf_image_def by blast
  then show ?thesis using s1(1) e by (simp add: elf_load_def Let_def elf_phdrs_def)
qed


text \<open>A machine with 3840 free frames and an empty table, and a program of one instruction.\<close>

definition user_machine :: user where
  "user_machine = procs.extend (heap.extend (vmm.extend
     \<lparr>pmm_bitmap = (\<lambda>i. if i < 32 then 0xFF else 0), total_memory = 0x1000000, free_memory = 0xF00000, total_pages = 4096,
      current_pml4 = 0xFFFF800000008000, hhdm_offset = 0xFFFF800000000000, ptmem = (\<lambda>_. 0), tlb = Map.empty\<rparr>
     (heap.fields 0 0 0 (\<lambda>_. \<lparr>hb_magic = 0, hb_is_free = 0, hb_size = 0, hb_next = 0, hb_prev = 0\<rparr>))) (procs.fields (replicate 64 zero_process) 0 1 0x8 0x10)) (user.fields (\<lambda>_. 0) 0)"

definition small_elf_bytes :: "u8 list" where
  "small_elf_bytes = [0x7F, 0x45, 0x4C, 0x46, 2, 1, 1] @ replicate 9 0 @ [2, 0, 0x3E, 0, 1, 0, 0, 0] @
     [0, 0, 0x40, 0, 0, 0, 0, 0] @ [64, 0, 0, 0, 0, 0, 0, 0] @ replicate 16 0 @ [1, 0] @ replicate 6 0 @
     [1, 0, 0, 0, 5, 0, 0, 0] @ [120, 0, 0, 0, 0, 0, 0, 0] @ [0, 0, 0x40, 0, 0, 0, 0, 0] @ replicate 8 0 @
     [1, 0, 0, 0, 0, 0, 0, 0] @ [1, 0, 0, 0, 0, 0, 0, 0] @ replicate 8 0 @ [0xC3]"

definition small_elf :: mem where
  "small_elf = store (\<lambda>_. 0) 0x1000 small_elf_bytes"

lemma low_bitmap:
  assumes "pmm_bitmap s = (\<lambda>i. if i < 32 then 0xFF else 0)" "total_pages s = of_nat n" "256 \<le> n" "n \<le> 131072"
    "unat (free_memory s) = 4096 * (n - 256)"
  shows "free_pages s = of_nat ` {256..<n}" "card (free_pages s) = n - 256" "pmm_inv s"
proof -
  have un: "unat (of_nat j :: u64) = j" if "j \<le> n" for j using that assms(4) by (simp add: unat_of_nat)
  show f: "free_pages s = of_nat ` {256..<n}"
  proof (rule set_eqI)
    fix i :: u64
    have "i div 8 < 32 \<longleftrightarrow> i < 256" by (simp add: word_less_nat_alt unat_div less_mult_imp_div_less) linarith
    then have "i \<in> free_pages s \<longleftrightarrow> 256 \<le> i \<and> i < of_nat n"
      using bit_0xFF [OF unat_mod_8_lt [of i]] by (auto simp: free_pages_def page_used_def assms(1,2) linorder_not_less)
    also have "\<dots> \<longleftrightarrow> unat i \<in> {256..<n}" using un [of n] by (simp add: word_le_nat_alt word_less_nat_alt)
    also have "\<dots> \<longleftrightarrow> i \<in> of_nat ` {256..<n}" using un by (auto intro: image_eqI [of _ _ "unat i"])
    finally show "i \<in> free_pages s \<longleftrightarrow> i \<in> of_nat ` {256..<n}" .
  qed
  have "inj_on (of_nat :: nat \<Rightarrow> u64) {256..<n}" by (rule inj_on_inverseI [of _ unat]) (simp add: un)
  then show c: "card (free_pages s) = n - 256" unfolding f by (simp add: card_image)
  have "(256 :: u64) \<le> of_nat j" if "256 \<le> j" "j < n" for j using un [of j] that by (simp add: word_le_nat_alt)
  moreover have "(of_nat n :: u64) \<le> 131072" using un [of n] assms(4) by (simp add: word_le_nat_alt)
  ultimately show "pmm_inv s" using c assms(5) unfolding pmm_inv_def pmm_count_def by (auto simp: f assms(2))
qed

lemma user_machine_ready:
  "pt_inv user_machine" "no_huge user_machine v" "card (free_pages user_machine) = 3840"
proof -
  note D = user_machine_def vmm.defs heap.defs procs.defs user.defs
  have b: "free_pages user_machine = of_nat ` {256..<4096}" "card (free_pages user_machine) = 4096 - 256" "pmm_inv user_machine"
    by (rule low_bitmap [where n = 4096]; simp add: D)+
  have "frame_no user_machine (current_pml4 user_machine) = of_nat 8" by (simp add: frame_no_def D)
  then have "frame_no user_machine (current_pml4 user_machine) \<notin> free_pages user_machine"
    unfolding b(1) by (auto simp: word_unat_eq_iff unat_of_nat)
  moreover have "page_aligned (current_pml4 user_machine)" "page_aligned (hhdm_offset user_machine)" "ptmem user_machine = (\<lambda>_. 0)"
    by (simp_all add: D page_aligned_iff)
  ultimately show "pt_inv user_machine" "no_huge user_machine v" using b(3) by (auto intro!: empty_tables)
  show "card (free_pages user_machine) = 3840" using b(2) by simp
qed

lemma small_elf_at: "i \<le> 120 \<Longrightarrow> small_elf (0x1000 + of_nat i) = small_elf_bytes ! i"
proof -
  assume i: "i \<le> 120"
  have l: "length small_elf_bytes = 121" by (simp add: small_elf_bytes_def)
  have "unat (0x1000 + of_nat i :: u64) = 0x1000 + i" using i by (simp add: unat_word_ariths unat_of_nat)
  then show ?thesis unfolding small_elf_def using i l by (subst store_nth) simp_all
qed

lemma small_elf_program:
  "eh_entry (elf_header small_elf 0x1000) = 0x400000"
  "elf_phdrs small_elf 0x1000 = [\<lparr>p_type = 1, p_offset = 120, p_vaddr = 0x400000, p_filesz = 1, p_memsz = 1\<rparr>]"
  "elf_program small_elf 0x1000" "small_elf (0x1000 + 120) = 0xC3"
proof -
  have H: "mem_bytes small_elf 0x1000 64 ! i = small_elf_bytes ! i" if "i < 64" for i
    using that small_elf_at [of i] by (simp add: mem_bytes_nth)
  have P: "mem_bytes small_elf 0x1040 56 ! i = small_elf_bytes ! (64 + i)" if "i < 56" for i
    using that small_elf_at [of "64 + i"] by (simp add: mem_bytes_nth add.assoc [symmetric])
  note L = load64_def load32_def load16_def small_elf_bytes_def nth_append
  have h: "elf_header small_elf 0x1000 = \<lparr>eh_magic = ELF_MAGIC, eh_bitness = 2, eh_machine = 0x3E, eh_entry = 0x400000, eh_phoff = 64, eh_phnum = 1\<rparr>"
    by (simp add: elf_header_def H L)
  have p: "elf_phdr small_elf 0x1040 = \<lparr>p_type = 1, p_offset = 120, p_vaddr = 0x400000, p_filesz = 1, p_memsz = 1\<rparr>"
    by (simp add: elf_phdr_def P L)
  show "eh_entry (elf_header small_elf 0x1000) = 0x400000" by (simp add: h)
  show ps: "elf_phdrs small_elf 0x1000 = [\<lparr>p_type = 1, p_offset = 120, p_vaddr = 0x400000, p_filesz = 1, p_memsz = 1\<rparr>]"
    by (simp add: elf_phdrs_def h p)
  show "elf_program small_elf 0x1000" by (simp add: elf_program_def h ps segment_ok_def within_region_def)
  show "small_elf (0x1000 + 120) = 0xC3" using small_elf_at [of 120] by (simp add: L)
qed


text \<open>
  \<open>usermode_run_test\<close> enters ring 3 at the first byte of the built-in program, on a machine with
  room and with a program that fits below the end of the region: the frame has the user selectors,
  interrupts enabled and a stack pointer in the mapped, zeroed stack, the region holds the program
  and zeros in the rest of its pages, and a system call will switch to the stack of the TSS.
\<close>

theorem usermode_run_test_correct:
  fixes s :: "'a user_scheme"
  assumes "pt_inv s" "\<forall>v. in_region v \<longrightarrow> no_huge s v" "2048 < card (free_pages s)" "length prog \<le> 0x100000"
  shows "\<exists>s'. usermode_run_test g prog s = Some (Some \<lparr>if_rip = 0x400000, if_cs = 0x23, if_rflags = 0x202, if_rsp = 0x503FF0, if_ss = 0x1B\<rparr>, s') \<and>
    syscall_kernel_stack s' = tss_get_rsp0 g \<and> user_space s' \<and>
    (\<forall>v. in_region v \<longrightarrow> user_read v s' =
      (if unat v < 0x400000 + length prog then Some (prog ! (unat v - 0x400000))
       else if touches 0x400000 (of_nat (length prog)) v \<or> touches 0x500000 0x4000 v then Some 0 else None))"
proof -
  let ?n = "of_nat (length prog) :: u64"
  have n: "unat ?n = length prog" using assms(4) by (simp add: unat_of_nat)
  have w: "within_region 0x400000 ?n" "within_region 0x500000 0x4000" using n assms(4) by (simp_all add: within_region_def)
  obtain s1 where s1: "usermode_map_range 0x400000 ?n (usermode_reset_address_space s) = Some (True, s1)"
    "holds_image (with_pages (touches 0x400000 ?n) (\<lambda>_. None)) s1"
    using usermode_map_range_spec [OF reset_holds [OF assms(1-3)] w(1)] by blast
  let ?img = "with_pages (touches 0x500000 0x4000) (with_pages (touches 0x400000 ?n) (\<lambda>_. None))"
  obtain s2 where s2: "usermode_map_range 0x500000 0x4000 s1 = Some (True, s2)" "holds_image ?img s2"
    using usermode_map_range_spec [OF s1(2) w(2)] by blast
  have us: "user_space s2" and rd: "\<And>v. in_region v \<Longrightarrow> user_read v s2 = ?img v" using s2(2) by (auto simp: holds_image_def)
  have A: "\<forall>i<length prog. in_region (0x400000 + of_nat i) \<and> leaf s2 (0x400000 + of_nat i) \<noteq> None"
  proof (intro allI impI)
    fix i assume "i < length prog"
    then have i: "i < unat ?n" using n by simp
    note t = touches_bytes [OF w(1) i]
    then have "user_read (0x400000 + of_nat i) s2 \<noteq> None" using rd by (simp add: with_pages_def)
    then show "in_region (0x400000 + of_nat i) \<and> leaf s2 (0x400000 + of_nat i) \<noteq> None" using t(1) user_read_None [OF us t(1)] by simp
  qed
  obtain s3 where s3: "user_write 0x400000 prog s2 = Some s3" "s3 = s2\<lparr>pmem := pmem s3\<rparr>"
    "\<forall>v. in_region v \<longrightarrow> user_read v s3 = (if unat (0x400000 :: u64) \<le> unat v \<and> unat v < unat (0x400000 :: u64) + length prog
      then Some (prog ! (unat v - unat (0x400000 :: u64))) else user_read v s2)"
    using user_write_spec [OF us A] assms(4) by auto
  let ?s = "s3\<lparr>syscall_kernel_stack := tss_get_rsp0 g\<rparr>"
  have tr: "vmm.truncate s3 = vmm.truncate s2" by (subst s3(2)) (simp add: vmm.truncate_def)
  have tr': "vmm.truncate ?s = vmm.truncate s3" by (simp add: vmm.truncate_def)
  have "user_space ?s" using us by (simp add: user_space_cong [OF tr] user_space_cong [OF tr'])
  moreover have "user_read v ?s = user_read v s3" for v by (simp add: user_read_def xlate_cong [OF tr'])
  moreover have "0x400000 \<le> unat v" if "in_region v" for v using that by (simp add: in_region_unat)
  moreover have "usermode_run_test g prog s = Some (Some \<lparr>if_rip = 0x400000, if_cs = 0x23, if_rflags = 0x202, if_rsp = 0x503FF0, if_ss = 0x1B\<rparr>, ?s)"
    using s1(1) s2(1) s3(1) by (simp add: usermode_run_test_def usermode_enter_def)
  ultimately show ?thesis using s3(3) rd by (intro exI [of _ ?s]) (simp add: with_pages_def)
qed

theorem usermode_run_test_correct_witness:
  "\<exists>f s'. usermode_run_test \<lparr>gdt_table = [], gdtr_limit = 0, gdtr_base = 0, gdt_tss = \<lparr>tss_rsp0 = 0x8000, tss_rsp1 = 0, tss_rsp2 = 0,
      tss_ist = [], iomap_base = 0\<rparr>, reg_cs_sel = 0, reg_data_sel = 0, task_register = 0\<rparr> [0xEB, 0xFE] user_machine = Some (Some f, s') \<and>
     if_rip f = 0x400000 \<and> user_read 0x400001 s' = Some 0xFE \<and> user_read 0x502000 s' = Some 0"
proof -
  let ?g = "\<lparr>gdt_table = [], gdtr_limit = 0, gdtr_base = 0, gdt_tss = \<lparr>tss_rsp0 = 0x8000, tss_rsp1 = 0, tss_rsp2 = 0,
      tss_ist = [], iomap_base = 0\<rparr>, reg_cs_sel = 0, reg_data_sel = 0, task_register = 0\<rparr> :: gdt"
  have r: "in_region 0x400001" "in_region 0x502000" by (simp_all add: in_region_def)
  have f: "2048 < card (free_pages user_machine)" by (simp add: user_machine_ready(3))
  from usermode_run_test_correct [OF user_machine_ready(1) _ f, of "[0xEB, 0xFE]" ?g] user_machine_ready(2)
  obtain s' where s': "usermode_run_test ?g [0xEB, 0xFE] user_machine =
      Some (Some \<lparr>if_rip = 0x400000, if_cs = 0x23, if_rflags = 0x202, if_rsp = 0x503FF0, if_ss = 0x1B\<rparr>, s')"
    "\<forall>v. in_region v \<longrightarrow> user_read v s' = (if unat v < 0x400000 + length [0xEB, 0xFE :: u8] then Some ([0xEB, 0xFE] ! (unat v - 0x400000))
       else if touches 0x400000 (of_nat (length [0xEB, 0xFE :: u8])) v \<or> touches 0x500000 0x4000 v then Some 0 else None)" by auto
  have "user_read 0x400001 s' = Some 0xFE" "user_read 0x502000 s' = Some 0"
    using s'(2) r by (simp_all add: touches_def)
  then show ?thesis using s'(1) by auto
qed

end
