(* ===== verification/Syscall.thy ===== *)
theory Syscall
  imports Usermode Console
begin

text \<open>
  System calls, \<^verbatim>\<open>kernel/syscall.c\<close>, and the routing of file names, \<^verbatim>\<open>kernel/vfs.c\<close>. The state of a system
  call is the kernel's state and the console; the lines that the kernel logs are left out. A byte
  that a program passes is read through the page tables: an address without a translation is a page
  fault of the kernel, and the call is then undefined.
\<close>

section \<open>Model-specific registers\<close>

abbreviation (input) MSR_EFER :: u32 where "MSR_EFER \<equiv> 0xC0000080"
abbreviation (input) MSR_STAR :: u32 where "MSR_STAR \<equiv> 0xC0000081"
abbreviation (input) MSR_LSTAR :: u32 where "MSR_LSTAR \<equiv> 0xC0000082"
abbreviation (input) MSR_SFMASK :: u32 where "MSR_SFMASK \<equiv> 0xC0000084"

type_synonym msrs = "u32 \<Rightarrow> u32 \<times> u32"

text \<open>A register is a pair of halves, the high one first, as the instructions take them.\<close>

definition rdmsr :: "u32 \<Rightarrow> msrs \<Rightarrow> u64" where
  "rdmsr msr regs = (let (high, low) = regs msr in push_bit 32 (ucast high) OR ucast low)"

definition wrmsr :: "u32 \<Rightarrow> u64 \<Rightarrow> msrs \<Rightarrow> msrs" where
  "wrmsr msr val regs = regs(msr := (ucast (drop_bit 32 val), ucast val))"

definition syscall_init :: "u64 \<Rightarrow> msrs \<Rightarrow> msrs" where
  "syscall_init syscall_entry regs =
     (let regs = wrmsr MSR_EFER (rdmsr MSR_EFER regs OR 1) regs;
          star = push_bit 32 (ucast GDT_KERNEL_CODE) OR push_bit 48 (ucast GDT_KERNEL_DATA);
          regs = wrmsr MSR_STAR star regs;
          regs = wrmsr MSR_LSTAR syscall_entry regs
      in wrmsr MSR_SFMASK 0x700 regs)"

section \<open>The handler\<close>

abbreviation (input) SYS_WRITE :: u64 where "SYS_WRITE \<equiv> 1"
abbreviation (input) SYS_BRK :: u64 where "SYS_BRK \<equiv> 12"
abbreviation (input) SYS_EXIT :: u64 where "SYS_EXIT \<equiv> 60"

primrec sys_write_loop :: "nat \<Rightarrow> 'd io \<Rightarrow> u64 \<Rightarrow> 'a user_scheme \<Rightarrow> ('c, 'd) out \<Rightarrow> ('c, 'd) out option" where
  "sys_write_loop 0 io buf s w = Some w"
| "sys_write_loop (Suc n) io buf s w =
     Option.bind (user_read buf s) (\<lambda>c. Option.bind (kputchar io c w) (sys_write_loop n io (buf + 1) s))"

text \<open>A call returns a value, or its process ends itself and never continues.\<close>

datatype sys_outcome = Sys_returns u64 | Sys_ends

definition syscall_handler ::
  "'d io \<Rightarrow> u64 \<Rightarrow> u64 \<Rightarrow> u64 \<Rightarrow> u64 \<Rightarrow> u64 \<Rightarrow> u64 \<Rightarrow> 'a user_scheme \<times> ('c, 'd) out \<Rightarrow>
   (sys_outcome \<times> 'a user_scheme \<times> ('c, 'd) out) option" where
  "syscall_handler io sys_num arg1 arg2 arg3 arg4 arg5 sw =
     (let (s, w) = sw in
      if sys_num = SYS_WRITE then
        let fd = ucast arg1 :: u32 in
        if fd \<noteq> 1 \<and> fd \<noteq> 2 then Some (Sys_returns (- 1), s, w)
        else map_option (\<lambda>w. (Sys_returns arg3, s, w)) (sys_write_loop (unat arg3) io arg2 s w)
      else if sys_num = SYS_EXIT then
        map_option (\<lambda>(r, s). (case r of Exit_returns \<Rightarrow> Sys_returns 0 | Exit_waits \<Rightarrow> Sys_ends, s, w))
          (process_exit (process_get_current_pid s) s)
      else if sys_num = SYS_BRK then Some (Sys_returns arg1, s, w)
      else Some (Sys_returns (- 1), s, w))"

section \<open>File names\<close>

abbreviation (input) MAX_PATH_LEN :: nat where "MAX_PATH_LEN \<equiv> 256"

text \<open>The loop of \<open>vfs_normalize_path\<close>, with \<open>n\<close> characters of room left before the terminator.\<close>

primrec vfs_normalize_loop :: "nat \<Rightarrow> u64 \<Rightarrow> u64 \<Rightarrow> mem \<Rightarrow> mem" where
  "vfs_normalize_loop 0 inp outp m = m(outp := 0)"
| "vfs_normalize_loop (Suc n) inp outp m =
     (if m inp \<noteq> 0 then vfs_normalize_loop n (inp + 1) (outp + 1) (m(outp := if m inp = 0x5C then 0x2F else m inp))
      else m(outp := 0))"

definition vfs_normalize_path :: "u64 \<Rightarrow> u64 \<Rightarrow> mem \<Rightarrow> mem" where
  "vfs_normalize_path input_path output_path m = vfs_normalize_loop (MAX_PATH_LEN - 1) input_path output_path m"

text \<open>The string constants are at \<open>kernel32\<close>, \<open>user32\<close> and \<open>libc\<close>, the buffer on the stack at \<open>norm_path\<close>.\<close>

definition vfs_open :: "u64 \<Rightarrow> u64 \<Rightarrow> u64 \<Rightarrow> u64 \<Rightarrow> u64 \<Rightarrow> mem \<Rightarrow> (int \<times> mem) option" where
  "vfs_open kernel32 user32 libc norm_path filename m =
     (let m = vfs_normalize_path filename norm_path m in
      Option.bind (strstr norm_path kernel32 m) (\<lambda>p.
      if p \<noteq> 0 then Some (999, m) else
      Option.bind (strstr norm_path user32 m) (\<lambda>p.
      if p \<noteq> 0 then Some (999, m) else
      Option.bind (strstr norm_path libc m) (\<lambda>p.
      if p \<noteq> 0 then Some (998, m) else Some (-1, m)))))"

section \<open>Properties of system calls\<close>

lemma rdmsr_wrmsr: "rdmsr msr (wrmsr msr' val regs) = (if msr = msr' then val else rdmsr msr regs)"
proof -
  have "push_bit 32 (ucast (ucast (drop_bit 32 val) :: u32)) OR ucast (ucast val :: u32) = val" for val :: u64
    by (rule bit_eqI) (auto simp: bit_simps not_less le_iff_add)
  then show ?thesis by (simp add: rdmsr_def wrmsr_def)
qed

text \<open>
  After \<open>syscall_init\<close> the instructions \<^verbatim>\<open>syscall\<close> and \<^verbatim>\<open>sysret\<close> are enabled and lead to the entry point with
  interrupts, the trap flag and the direction flag off; the selectors that the processor derives are the
  kernel's own on entry, and on return, 16 and 8 above the base and with privilege 3, the ones
  \<open>usermode_enter\<close> loads. No other register changes.
\<close>

theorem syscall_init_correct:
  "let regs' = syscall_init e regs; star = rdmsr MSR_STAR regs'; base = drop_bit 48 star in
   bit (rdmsr MSR_EFER regs') 0 \<and> rdmsr MSR_LSTAR regs' = e \<and>
   rdmsr MSR_SFMASK regs' = 2 ^ 9 OR 2 ^ 8 OR 2 ^ 10 \<and>
   take_bit 16 (drop_bit 32 star) = ucast GDT_KERNEL_CODE \<and> take_bit 16 (drop_bit 32 star) + 8 = ucast GDT_KERNEL_DATA \<and>
   (base + 16) OR 3 = GDT_USER_CODE_RPL3 \<and> (base + 8) OR 3 = GDT_USER_DATA_RPL3 \<and>
   (\<forall>r. r \<notin> {MSR_EFER, MSR_STAR, MSR_LSTAR, MSR_SFMASK} \<longrightarrow> rdmsr r regs' = rdmsr r regs) \<and>
   (\<forall>n\<noteq>0. bit (rdmsr MSR_EFER regs') n = bit (rdmsr MSR_EFER regs) n)"
  by (auto simp: syscall_init_def rdmsr_wrmsr Let_def bit_simps)

lemma sys_write_loop_prints:
  assumes "uart io k sent" "con_inv (fst w)" "\<forall>i<length bs. user_read (buf + of_nat i) s = Some (bs ! i)"
  shows "\<exists>w'. sys_write_loop (length bs) io buf s w = Some w' \<and> printed sent bs w w'"
  using assms(2,3)
proof (induction bs arbitrary: buf w)
  case Nil
  then show ?case by (simp add: printed_Nil)
next
  case (Cons c bs)
  obtain v where v: "kputchar io c w = Some v" "printed sent [c] w v"
    using kputchar_prints [OF assms(1) Cons.prems(1)] by blast
  have rest: "\<forall>i<length bs. user_read (buf + 1 + of_nat i) s = Some (bs ! i)"
    using Cons.prems(2) [rule_format, of "Suc _"] by (simp add: add.assoc)
  have "con_inv (fst v)" using v(2) by (simp add: printed_def)
  from Cons.IH [OF this rest] obtain w' where "sys_write_loop (length bs) io (buf + 1) s v = Some w'" "printed sent bs v w'" by blast
  moreover have "user_read buf s = Some c" using Cons.prems(2) [rule_format, of 0] by simp
  ultimately show ?case using v printed_append [OF v(2), of bs w'] by auto
qed

text \<open>
  C29. A write to descriptor 1 or 2 returns the count and prints exactly the bytes at the address, in
  order, on the console and the serial line; the kernel's state does not change. The address may be
  any that the page tables translate, in the kernel's half too: the call does not check it. Other
  descriptors return \<open>-1\<close> and print nothing.
\<close>

theorem syscall_write_correct:
  assumes "uart io k sent" "con_inv (fst w)" "\<forall>i<length bs. user_read (buf + of_nat i) s = Some (bs ! i)" "length bs < 2 ^ 64"
  shows "\<exists>r w'. syscall_handler io SYS_WRITE fd buf (of_nat (length bs)) a4 a5 (s, w) = Some (Sys_returns r, s, w') \<and>
    (if ucast fd \<in> {1, 2 :: u32} then r = of_nat (length bs) \<and> printed sent bs w w' else r = - 1 \<and> w' = w)"
proof -
  have n: "unat (of_nat (length bs) :: u64) = length bs" using assms(4) by (simp add: unat_of_nat)
  obtain c' d' where "sys_write_loop (length bs) io buf s w = Some (c', d')" "printed sent bs w (c', d')"
    using sys_write_loop_prints [OF assms(1-3)] by (metis surj_pair)
  then show ?thesis using n by (cases "ucast fd \<in> {1, 2 :: u32}") (auto simp: syscall_handler_def Let_def)
qed

text \<open>A byte of the kernel's half, on a page that a program may not touch.\<close>

definition kernel_page_machine :: user where
  "kernel_page_machine = user_machine\<lparr>ptmem := (\<lambda>_. 0)(0xFFFF800000008FF8 := 0x9003, 0xFFFF800000009FF0 := 0xA003,
     0xFFFF80000000A000 := 0xB003, 0xFFFF80000000B000 := 0x100003), pmem := (\<lambda>_. 0)(0x100000 := 0x53)\<rparr>"

lemma kernel_page_read: "user_read 0xFFFFFFFF80000000 kernel_page_machine = Some 0x53"
proof -
  have r: "current_pml4 user_machine = 0xFFFF800000008000" "hhdm_offset user_machine = 0xFFFF800000000000"
    by (simp_all add: kernel_page_machine_def user_machine_def vmm.defs heap.defs procs.defs user.defs)
  have "xlate kernel_page_machine 0xFFFFFFFF80000000 = Some 0x100000"
    by (simp add: xlate_def canonical_def Let_def entry_def table_of_def r pml4_idx_def pdpt_idx_def pd_idx_def pt_idx_def
      kernel_page_machine_def present_def huge_def take_bit_eq_mod)
  then show ?thesis by (simp add: user_read_def kernel_page_machine_def)
qed

theorem syscall_write_correct_witness:
  "\<exists>c w'. fbcon_init 8 4 16 20 0 small_con = Some c \<and>
     syscall_handler log_io SYS_WRITE 1 0xFFFFFFFF80000000 1 0 0 (kernel_page_machine, c, []) =
       Some (Sys_returns 1, kernel_page_machine, w') \<and> snd w' = [0x53]"
proof -
  obtain c where c: "fbcon_init 8 4 16 20 0 small_con = Some c" "con_inv c"
    using small_con_ready by (auto simp: Fbcon.idle_def)
  have u: "uart log_io (\<lambda>_. 0) (\<lambda>d. d)" by (simp add: uart_def log_io_def)
  have "\<exists>r w'. syscall_handler log_io SYS_WRITE 1 0xFFFFFFFF80000000 (of_nat (length [0x53 :: u8])) 0 0 (kernel_page_machine, c, []) =
      Some (Sys_returns r, kernel_page_machine, w') \<and>
    (if ucast (1 :: u64) \<in> {1, 2 :: u32} then r = of_nat (length [0x53 :: u8]) \<and> printed (\<lambda>d. d) [0x53] (c, []) w' else r = - 1 \<and> w' = (c, []))"
    by (rule syscall_write_correct [OF u]) (use c(2) kernel_page_read in simp_all)
  then show ?thesis using c(1) by (auto simp: printed_def)
qed

section \<open>Properties of the routing\<close>

definition slash :: "u8 \<Rightarrow> u8" where
  "slash c = (if c = 0x5C then 0x2F else c)"

lemma vfs_normalize_loop_spec:
  assumes "cstr m inp cs" "\<forall>i\<le>length cs. 256 \<le> inp + of_nat i - buf" "outp = buf + of_nat j" "j + n = 255"
  shows "(\<forall>i<length (take n cs). vfs_normalize_loop n inp outp m (outp + of_nat i) = slash (cs ! i)) \<and>
    vfs_normalize_loop n inp outp m (outp + of_nat (length (take n cs))) = 0 \<and>
    (\<forall>a. 256 \<le> a - buf \<or> a - buf < of_nat j \<longrightarrow> vfs_normalize_loop n inp outp m a = m a)"
  using assms
proof (induction n arbitrary: m inp outp cs j)
  case 0
  have "(of_nat j :: u64) < 256" using 0 by (simp add: word_less_nat_alt unat_of_nat)
  then show ?case using 0 by auto
next
  case (Suc n)
  have j: "(of_nat j :: u64) < 256" "unat (of_nat j :: u64) = j" using Suc.prems(4) by (simp_all add: word_less_nat_alt unat_of_nat)
  show ?case
  proof (cases cs)
    case Nil
    then show ?thesis using Suc.prems j(1) by auto
  next
    case (Cons c cs')
    define m1 where "m1 = m(outp := slash c)"
    have m1: "m1 outp = slash c" "\<And>a. a \<noteq> outp \<Longrightarrow> m1 a = m a" by (simp_all add: m1_def)
    have far: "inp + of_nat i \<noteq> outp" if "i \<le> length cs" for i
    proof
      assume "inp + of_nat i = outp"
      then have "256 \<le> (of_nat j :: u64)" using Suc.prems(2) [rule_format, OF that] Suc.prems(3) by simp
      then show False using j(1) by simp
    qed
    have keep: "cstr m1 p ds" if "cstr m p ds" "\<forall>i\<le>length ds. p + of_nat i \<noteq> outp" for p ds
      using that
    proof (induction ds arbitrary: p)
      case (Cons d ds)
      have "\<forall>i\<le>length ds. p + 1 + of_nat i \<noteq> outp" using Cons.prems(2) [rule_format, of "Suc _"] by (simp add: add.assoc)
      then show ?case using Cons.IH [of "p + 1"] Cons.prems(1) Cons.prems(2) [rule_format, of 0] by (simp add: m1_def)
    qed (simp add: m1_def)
    have "\<forall>i\<le>length cs'. inp + 1 + of_nat i \<noteq> outp" using far [of "Suc _"] Cons by (simp add: add.assoc)
    then have c1: "cstr m1 (inp + 1) cs'" using keep [of "inp + 1" cs'] Suc.prems(1) Cons by simp
    have f1: "\<forall>i\<le>length cs'. 256 \<le> inp + 1 + of_nat i - buf" using Suc.prems(2) [rule_format, of "Suc _"] Cons by (simp add: add.assoc)
    have o1: "outp + 1 = buf + of_nat (Suc j)" using Suc.prems(3) by simp
    have j1: "Suc j + n = 255" using Suc.prems(4) by simp
    note IH = Suc.IH [OF c1 f1 o1 j1]
    have e: "vfs_normalize_loop (Suc n) inp outp m = vfs_normalize_loop n (inp + 1) (outp + 1) m1"
      using Suc.prems(1) Cons by (simp add: slash_def m1_def)
    have ob: "outp - buf = of_nat j" using Suc.prems(3) by simp
    have "(of_nat j :: u64) < of_nat (Suc j)" using j(2) Suc.prems(4) by (simp add: word_less_nat_alt unat_of_nat del: of_nat_Suc)
    then have here: "vfs_normalize_loop (Suc n) inp outp m outp = slash c" using IH ob m1(1) unfolding e by simp
    show ?thesis
    proof (intro conjI allI impI)
      fix i assume i: "i < length (take (Suc n) cs)"
      show "vfs_normalize_loop (Suc n) inp outp m (outp + of_nat i) = slash (cs ! i)"
      proof (cases i)
        case (Suc i')
        then show ?thesis using IH i Cons unfolding e by (simp add: add.assoc)
      qed (use here Cons in simp)
    next
      show "vfs_normalize_loop (Suc n) inp outp m (outp + of_nat (length (take (Suc n) cs))) = 0"
        using IH Cons unfolding e by (simp add: add.assoc)
    next
      fix a assume a: "256 \<le> a - buf \<or> a - buf < of_nat j"
      then have "256 \<le> a - buf \<or> a - buf < of_nat (Suc j)" using \<open>of_nat j < of_nat (Suc j)\<close> by auto
      moreover have "a \<noteq> outp" using a ob j(1) by auto
      ultimately show "vfs_normalize_loop (Suc n) inp outp m a = m a" using IH m1(2) unfolding e by metis
    qed
  qed
qed

text \<open>
  The normalised path: at most 255 characters, with the backslashes turned.
\<close>

lemma vfs_normalize_path_cstr:
  assumes "cstr m inp cs" "\<forall>i\<le>length cs. 256 \<le> inp + of_nat i - buf"
  shows "cstr (vfs_normalize_path inp buf m) buf (map slash (take 255 cs))"
    "256 \<le> a - buf \<Longrightarrow> vfs_normalize_path inp buf m a = m a"
proof -
  let ?m = "vfs_normalize_path inp buf m" and ?ns = "map slash (take 255 cs)"
  note S = vfs_normalize_loop_spec [OF assms, of buf 0 255]
  show "256 \<le> a - buf \<Longrightarrow> ?m a = m a" using S by (simp add: vfs_normalize_path_def)
  have z: "c \<noteq> 0" if "c \<in> set cs" for c using assms(1) that by (induction cs arbitrary: inp) auto
  have "\<forall>i<length ?ns. ?m (buf + of_nat i) = ?ns ! i" "?m (buf + of_nat (length ?ns)) = 0"
    using S by (simp_all add: vfs_normalize_path_def)
  then have "cstr ?m buf (takeWhile (\<lambda>c. c \<noteq> 0) ?ns)" by (rule cstr_of_buffer)
  moreover have "takeWhile (\<lambda>c. c \<noteq> 0) ?ns = ?ns"
    using z by (auto simp: takeWhile_eq_all_conv slash_def dest: in_set_takeD)
  ultimately show "cstr ?m buf ?ns" by simp
qed

lemma cstr_same:
  assumes "cstr m p cs" "\<forall>i\<le>length cs. m' (p + of_nat i) = m (p + of_nat i)"
  shows "cstr m' p cs"
  using assms
proof (induction cs arbitrary: p)
  case (Cons c cs)
  have "\<forall>i\<le>length cs. m' (p + 1 + of_nat i) = m (p + 1 + of_nat i)"
    using Cons.prems(2) [rule_format, of "Suc _"] by (simp add: add.assoc)
  then show ?case using Cons.IH [of "p + 1"] Cons.prems(1) Cons.prems(2) [rule_format, of 0] by simp
qed simp

text \<open>A string constant that the buffer does not overlap.\<close>

definition rodata :: "mem \<Rightarrow> u64 \<Rightarrow> u64 \<Rightarrow> u8 list \<Rightarrow> bool" where
  "rodata m buf p cs \<longleftrightarrow> cstr m p cs \<and> cs \<noteq> [] \<and> (\<forall>i\<le>length cs. 256 \<le> p + of_nat i - buf)"

definition contains :: "u8 list \<Rightarrow> u8 list \<Rightarrow> bool" where
  "contains xs ys \<longleftrightarrow> (\<exists>k. occurs_at ys xs k)"

text \<open>
  \<open>vfs_open\<close> returns for every name: 999 for a name that contains one of the Windows libraries, 998
  for one that contains the Linux library, and \<open>-1\<close> for every other; what counts is the first 255
  characters of the name with backslashes read as slashes, which is the string left in the buffer, and
  no byte outside the buffer changes. The buffer must not reach the end of the address space.
\<close>

theorem vfs_open_correct:
  assumes "cstr m filename cs" "\<forall>i\<le>length cs. 256 \<le> filename + of_nat i - buf"
    and "rodata m buf kernel32 K" "rodata m buf user32 U" "rodata m buf libc L" "0 < buf" "unat buf + 256 \<le> 2 ^ 64"
    and "ns = map slash (take 255 cs)"
  shows "\<exists>m'. vfs_open kernel32 user32 libc buf filename m =
      Some (if contains ns K \<or> contains ns U then 999 else if contains ns L then 998 else -1, m') \<and>
    cstr m' buf ns \<and> (\<forall>a. 256 \<le> a - buf \<longrightarrow> m' a = m a)"
proof -
  let ?m = "vfs_normalize_path filename buf m"
  note N = vfs_normalize_path_cstr [OF assms(1,2)]
  have lp: "length ns \<le> 255" using assms(8) by simp
  have find: "\<exists>p. strstr buf q ?m = Some p \<and> (p \<noteq> 0 \<longleftrightarrow> contains ns ys)" if c: "rodata m buf q ys" for q ys
  proof -
    have "\<forall>i\<le>length ys. ?m (q + of_nat i) = m (q + of_nat i)" using c N(2) unfolding rodata_def by blast
    then have "cstr ?m q ys" using c cstr_same [of m q ys ?m] by (simp only: rodata_def)
    then have st: "strstr buf q ?m = Some (if \<exists>k. occurs_at ys ns k then buf + of_nat (LEAST k. occurs_at ys ns k) else 0)"
      using strstr_correct [of ?m buf ns q ys] N(1) assms(8) c by (simp add: rodata_def)
    have "buf + of_nat k \<noteq> 0" if "occurs_at ys ns k" for k
    proof -
      have "k < 255" using that lp by (simp add: occurs_at_def)
      then have "unat (buf + of_nat k) = unat buf + k" using assms(7) by (simp add: unat_word_ariths unat_of_nat)
      then show ?thesis using assms(6) by (metis add_is_0 unat_0 unat_gt_0 less_irrefl)
    qed
    then show ?thesis using st LeastI_ex [of "occurs_at ys ns"] by (auto simp: contains_def)
  qed
  obtain p1 p2 p3 where "strstr buf kernel32 ?m = Some p1" "p1 \<noteq> 0 \<longleftrightarrow> contains ns K"
    "strstr buf user32 ?m = Some p2" "p2 \<noteq> 0 \<longleftrightarrow> contains ns U"
    "strstr buf libc ?m = Some p3" "p3 \<noteq> 0 \<longleftrightarrow> contains ns L"
    using find [OF assms(3)] find [OF assms(4)] find [OF assms(5)] by blast
  then show ?thesis using N assms(8) by (intro exI [of _ ?m]) (auto simp: vfs_open_def Let_def)
qed

theorem vfs_open_correct_witness:
  "\<exists>m'. vfs_open 0x10 0x20 0x30 0x1000 0x40 ((\<lambda>_. 0)(0x10 := 0x6B, 0x20 := 0x55, 0x30 := 0x6C, 0x40 := 0x5C, 0x41 := 0x6C)) = Some (998, m') \<and>
     cstr m' 0x1000 [0x2F, 0x6C]"
proof -
  let ?m = "(\<lambda>_. 0)(0x10 := 0x6B, 0x20 := 0x55, 0x30 := 0x6C, 0x40 := 0x5C, 0x41 := 0x6C) :: mem"
  have p: "[0x2F, 0x6C] = map slash (take 255 [0x5C, 0x6C])" by (simp add: slash_def)
  have c: "\<not> contains [0x2F, 0x6C] [0x6B :: u8]" "\<not> contains [0x2F, 0x6C] [0x55 :: u8]" "contains [0x2F, 0x6C] [0x6C :: u8]"
    by (auto simp: contains_def occurs_at_def less_Suc_eq intro!: Nat.gr0I intro: exI [of _ 1])
  have "\<exists>m'. vfs_open 0x10 0x20 0x30 0x1000 0x40 ?m =
      Some (if contains [0x2F, 0x6C] [0x6B] \<or> contains [0x2F, 0x6C] [0x55] then 999 else if contains [0x2F, 0x6C] [0x6C] then 998 else -1, m') \<and>
    cstr m' 0x1000 [0x2F, 0x6C] \<and> (\<forall>a. 256 \<le> a - 0x1000 \<longrightarrow> m' a = ?m a)"
    by (rule vfs_open_correct [OF _ _ _ _ _ _ _ p]) (auto simp: rodata_def le_Suc_eq)
  then show ?thesis using c by auto
qed

end
