(* ===== verification/Pci.thy ===== *)
theory Pci
  imports Ports
begin

text \<open>
  The PCI bus, \<^verbatim>\<open>drivers/pci.c\<close>: configuration space through an address port and a data port. The devices
  behind the ports are a parameter; what the driver relies on, the configuration mechanism, is the
  interface \<open>pci_bus\<close> below. The lines that the scan prints are its result.
\<close>

section \<open>The driver\<close>

abbreviation (input) PCI_CONFIG_ADDRESS :: u16 where "PCI_CONFIG_ADDRESS \<equiv> 0xCF8"
abbreviation (input) PCI_CONFIG_DATA :: u16 where "PCI_CONFIG_DATA \<equiv> 0xCFC"

record pci_device =
  pd_bus :: u8
  pd_slot :: u8
  pd_func :: u8
  pd_vendor_id :: u16
  pd_device_id :: u16

definition pci_get_device_name :: "u16 \<Rightarrow> u16 \<Rightarrow> string" where
  "pci_get_device_name vendor_id device_id =
     (if vendor_id = 0x8086 then ''Intel Corporation Device''
      else if vendor_id = 0x10EC then ''Realtek Semiconductor''
      else if vendor_id = 0x10DE then ''NVIDIA Corporation''
      else if vendor_id = 0x1022 then ''Advanced Micro Devices [AMD]''
      else if vendor_id = 0x15AD then ''VMware Inc.''
      else if vendor_id = 0x1234 then ''QEMU Virtual Video Controller''
      else if vendor_id = 0x106B then ''Apple Inc.''
      else ''Unknown Device'')"

text \<open>The address of a register, which both accesses write to the address port.\<close>

definition pci_address :: "u8 \<Rightarrow> u8 \<Rightarrow> u8 \<Rightarrow> u8 \<Rightarrow> u32" where
  "pci_address bus slot func offset =
     push_bit 16 (ucast bus) OR push_bit 11 (ucast slot) OR push_bit 8 (ucast func) OR ucast (offset AND 0xFC) OR 0x80000000"

definition pci_config_read_dword :: "'d io \<Rightarrow> u8 \<Rightarrow> u8 \<Rightarrow> u8 \<Rightarrow> u8 \<Rightarrow> 'd \<Rightarrow> u32 \<times> 'd" where
  "pci_config_read_dword io bus slot func offset d =
     inl io PCI_CONFIG_DATA (outl io PCI_CONFIG_ADDRESS (pci_address bus slot func offset) d)"

definition pci_config_write_dword :: "'d io \<Rightarrow> u8 \<Rightarrow> u8 \<Rightarrow> u8 \<Rightarrow> u8 \<Rightarrow> u32 \<Rightarrow> 'd \<Rightarrow> 'd" where
  "pci_config_write_dword io bus slot func offset val d =
     outl io PCI_CONFIG_DATA val (outl io PCI_CONFIG_ADDRESS (pci_address bus slot func offset) d)"

text \<open>The two nested loops over buses and slots, in order.\<close>

definition pci_places :: "(u8 \<times> u8) list" where
  "pci_places = [(of_nat bus, of_nat slot). bus \<leftarrow> [0..<256], slot \<leftarrow> [0..<32]]"

primrec pci_find_from :: "'d io \<Rightarrow> u16 \<Rightarrow> u16 \<Rightarrow> (u8 \<times> u8) list \<Rightarrow> 'd \<Rightarrow> pci_device option \<times> 'd" where
  "pci_find_from io vendor_id device_id [] d = (None, d)"
| "pci_find_from io vendor_id device_id (place # places) d =
     (let (bus, slot) = place; (id_reg, d) = pci_config_read_dword io bus slot 0 0 d in
      if ucast (id_reg AND 0xFFFF) \<noteq> vendor_id then pci_find_from io vendor_id device_id places d
      else if ucast (drop_bit 16 id_reg) \<noteq> device_id then pci_find_from io vendor_id device_id places d
      else (Some \<lparr>pd_bus = bus, pd_slot = slot, pd_func = 0, pd_vendor_id = vendor_id, pd_device_id = device_id\<rparr>, d))"

definition pci_find_device :: "'d io \<Rightarrow> u16 \<Rightarrow> u16 \<Rightarrow> 'd \<Rightarrow> pci_device option \<times> 'd" where
  "pci_find_device io vendor_id device_id d = pci_find_from io vendor_id device_id pci_places d"

definition pci_get_bar :: "'d io \<Rightarrow> pci_device \<Rightarrow> u32 \<Rightarrow> 'd \<Rightarrow> u64 \<times> 'd" where
  "pci_get_bar io dev bar_index d =
     (let offset = ucast (0x10 + bar_index * 4) :: u8;
          (bar, d) = pci_config_read_dword io (pd_bus dev) (pd_slot dev) (pd_func dev) offset d
      in if bar AND 1 \<noteq> 0 then (ucast bar AND NOT 0x3, d)
         else if drop_bit 1 bar AND 3 = 2 then
           let (high, d) = pci_config_read_dword io (pd_bus dev) (pd_slot dev) (pd_func dev) (offset + 4) d
           in (push_bit 32 (ucast high) OR (ucast bar AND NOT 0xF), d)
         else (ucast bar AND NOT 0xF, d))"

definition pci_enable_bus_master :: "'d io \<Rightarrow> pci_device \<Rightarrow> 'd \<Rightarrow> 'd" where
  "pci_enable_bus_master io dev d =
     (let (cmd, d) = pci_config_read_dword io (pd_bus dev) (pd_slot dev) (pd_func dev) 0x04 d;
          cmd = cmd OR (1 OR 2 OR 4)
      in pci_config_write_dword io (pd_bus dev) (pd_slot dev) (pd_func dev) 0x04 cmd d)"

text \<open>A line of the scan: bus, slot, vendor, device, class, subclass and name.\<close>

record pci_line =
  pl_bus :: u8
  pl_slot :: u8
  pl_vendor :: u16
  pl_device :: u16
  pl_class :: u8
  pl_subclass :: u8
  pl_name :: string

primrec pci_scan_from :: "'d io \<Rightarrow> (u8 \<times> u8) list \<Rightarrow> 'd \<Rightarrow> pci_line list \<times> 'd" where
  "pci_scan_from io [] d = ([], d)"
| "pci_scan_from io (place # places) d =
     (let (bus, slot) = place; (id_reg, d) = pci_config_read_dword io bus slot 0 0 d;
          vendor_id = ucast (id_reg AND 0xFFFF); device_id = ucast (drop_bit 16 id_reg)
      in if vendor_id = 0xFFFF then pci_scan_from io places d else
      let (class_reg, d) = pci_config_read_dword io bus slot 0 8 d;
          line = \<lparr>pl_bus = bus, pl_slot = slot, pl_vendor = vendor_id, pl_device = device_id,
            pl_class = ucast (drop_bit 24 class_reg), pl_subclass = ucast (drop_bit 16 class_reg),
            pl_name = pci_get_device_name vendor_id device_id\<rparr>;
          (lines, d) = pci_scan_from io places d
      in (line # lines, d))"

definition pci_scan_bus :: "'d io \<Rightarrow> 'd \<Rightarrow> (pci_line list \<times> nat) \<times> 'd" where
  "pci_scan_bus io d = (let (lines, d) = pci_scan_from io pci_places d in ((lines, length lines), d))"

definition pci_init :: "'d io \<Rightarrow> 'd \<Rightarrow> (pci_line list \<times> nat) \<times> 'd" where
  "pci_init io d = pci_scan_bus io d"

section \<open>Configuration space\<close>

text \<open>
  The configuration mechanism of the PCI standard: with an enabled address in the address port, the
  data port reads and writes the register at that address. \<open>wr\<close> is what a register makes of a value
  written to it, since some of its bits are fixed.
\<close>

locale pci_bus =
  fixes io :: "'d io" and cfg :: "'d \<Rightarrow> u32 \<Rightarrow> u32" and wr :: "u32 \<Rightarrow> u32 \<Rightarrow> u32 \<Rightarrow> u32"
  assumes read_law: "bit a 31 \<Longrightarrow> \<exists>d'. inl io PCI_CONFIG_DATA (outl io PCI_CONFIG_ADDRESS a d) = (cfg d a, d') \<and> cfg d' = cfg d"
    and write_law: "bit a 31 \<Longrightarrow> cfg (outl io PCI_CONFIG_DATA v (outl io PCI_CONFIG_ADDRESS a d)) = (cfg d)(a := wr a (cfg d a) v)"
begin

lemma config_read:
  "\<exists>d'. pci_config_read_dword io bus slot func offset d = (cfg d (pci_address bus slot func offset), d') \<and> cfg d' = cfg d"
  unfolding pci_config_read_dword_def by (rule read_law) (simp add: pci_address_def bit_simps)

lemma config_write:
  "cfg (pci_config_write_dword io bus slot func offset v d) =
     (cfg d)(pci_address bus slot func offset := wr (pci_address bus slot func offset) (cfg d (pci_address bus slot func offset)) v)"
  unfolding pci_config_write_dword_def by (rule write_law) (simp add: pci_address_def bit_simps)

end

text \<open>The registers of different places are different, and an address decodes to its fields.\<close>

lemma pci_address_fields:
  assumes "slot < 32" "func < 8"
  shows "ucast (drop_bit 16 (pci_address bus slot func offset)) = bus"
    "ucast (take_bit 5 (drop_bit 11 (pci_address bus slot func offset))) = slot"
    "ucast (take_bit 3 (drop_bit 8 (pci_address bus slot func offset))) = func"
    "ucast (take_bit 8 (pci_address bus slot func offset)) = offset AND 0xFC"
proof -
  have "slot = take_bit 5 slot" "func = take_bit 3 func"
    using assms by (simp_all add: word_unat_eq_iff unsigned_take_bit_eq take_bit_nat_eq_self word_less_nat_alt)
  then have s: "bit slot n \<Longrightarrow> n < 5" "bit func n \<Longrightarrow> n < 3" for n by (metis bit_take_bit_iff)+
  have fc: "(0xFC :: u8) = push_bit 2 (mask 6)" by (simp add: mask_eq_exp_minus_1)
  have hi: "bit (0x80000000 :: int) n \<longleftrightarrow> n = 31" for n using bit_exp_iff [of 31 n, where 'a = int] by auto
  have b: "bit (pci_address bus slot func offset) n \<longleftrightarrow> n < 32 \<and> (16 \<le> n \<and> bit bus (n - 16) \<or> 11 \<le> n \<and> bit slot (n - 11) \<or>
      8 \<le> n \<and> bit func (n - 8) \<or> bit offset n \<and> 2 \<le> n \<and> n < 8 \<or> n = 31)" for n
    unfolding pci_address_def fc by (cases "n < 32") (auto simp: bit_simps hi)
  have l: "bit bus n \<Longrightarrow> n < 8" for n using bit_imp_le_length [of bus n] by simp
  show "ucast (drop_bit 16 (pci_address bus slot func offset)) = bus"
    by (rule bit_eqI) (auto simp: bit_simps b dest: s)
  show "ucast (take_bit 5 (drop_bit 11 (pci_address bus slot func offset))) = slot"
    by (rule bit_eqI) (auto simp: bit_simps b dest: s)
  show "ucast (take_bit 3 (drop_bit 8 (pci_address bus slot func offset))) = func"
    by (rule bit_eqI) (auto simp: bit_simps b dest: s)
  show "ucast (take_bit 8 (pci_address bus slot func offset)) = offset AND 0xFC"
    unfolding fc by (rule bit_eqI) (auto simp: bit_simps b dest: s)
qed

section \<open>Finding devices\<close>

text \<open>The identification of a place: device in the upper half, vendor in the lower.\<close>

definition pci_id :: "u16 \<Rightarrow> u16 \<Rightarrow> u32" where
  "pci_id vendor_id device_id = push_bit 16 (ucast device_id) OR ucast vendor_id"

lemma pci_id_iff: "ucast (r AND 0xFFFF) = vendor_id \<and> ucast (drop_bit 16 r) = device_id \<longleftrightarrow> r = pci_id vendor_id device_id"
  for r :: u32
proof -
  have m: "(0xFFFF :: u32) = mask 16" by (simp add: mask_eq_exp_minus_1)
  have "ucast (pci_id vendor_id device_id AND 0xFFFF) = vendor_id" "ucast (drop_bit 16 (pci_id vendor_id device_id)) = device_id"
    unfolding pci_id_def m by (rule bit_eqI; auto simp: bit_simps dest: bit_imp_le_length)+
  moreover have "r = pci_id (ucast (r AND 0xFFFF)) (ucast (drop_bit 16 r))"
    unfolding pci_id_def m by (rule bit_eqI) (auto simp: bit_simps)
  ultimately show ?thesis by auto
qed

context pci_bus
begin

lemma find_from:
  "\<exists>d'. pci_find_from io v p places d =
     (map_option (\<lambda>(bus, slot). \<lparr>pd_bus = bus, pd_slot = slot, pd_func = 0, pd_vendor_id = v, pd_device_id = p\<rparr>)
        (find (\<lambda>(bus, slot). cfg d (pci_address bus slot 0 0) = pci_id v p) places), d') \<and> cfg d' = cfg d"
proof (induction places arbitrary: d)
  case (Cons place places)
  obtain bus slot where pl: "place = (bus, slot)" by (cases place)
  obtain d1 where d1: "pci_config_read_dword io bus slot 0 0 d = (cfg d (pci_address bus slot 0 0), d1)" "cfg d1 = cfg d"
    using config_read by blast
  show ?case
  proof (cases "cfg d (pci_address bus slot 0 0) = pci_id v p")
    case True
    then have "ucast (cfg d (pci_address bus slot 0 0) AND 0xFFFF) = v" "ucast (drop_bit 16 (cfg d (pci_address bus slot 0 0))) = p"
      using pci_id_iff by blast+
    then show ?thesis using True d1 pl by simp
  next
    case False
    then have "\<not> (ucast (cfg d (pci_address bus slot 0 0) AND 0xFFFF) = v \<and> ucast (drop_bit 16 (cfg d (pci_address bus slot 0 0))) = p)"
      using pci_id_iff by blast
    then have "pci_find_from io v p (place # places) d = pci_find_from io v p places d1" using d1(1) pl by (auto simp: Let_def)
    then show ?thesis using Cons.IH [of d1] False d1(2) pl by simp
  qed
qed simp

lemma get_bar:
  fixes dev i
  defines "reg \<equiv> (\<lambda>k. pci_address (pd_bus dev) (pd_slot dev) (pd_func dev) (ucast (0x10 + i * 4 :: u32) + k))"
  shows "\<exists>d'. pci_get_bar io dev i d = (let bar = cfg d (reg 0) in
      if bit bar 0 then ucast bar AND NOT 0x3
      else if drop_bit 1 bar AND 3 = 2 then push_bit 32 (ucast (cfg d (reg 4))) OR (ucast bar AND NOT 0xF)
      else ucast bar AND NOT 0xF, d') \<and> cfg d' = cfg d"
proof -
  obtain d1 where d1: "pci_config_read_dword io (pd_bus dev) (pd_slot dev) (pd_func dev) (ucast (0x10 + i * 4 :: u32)) d = (cfg d (reg 0), d1)"
    "cfg d1 = cfg d" using config_read [of "pd_bus dev" "pd_slot dev" "pd_func dev" "ucast (0x10 + i * 4 :: u32)" d] by (auto simp: reg_def)
  obtain d2 where d2: "pci_config_read_dword io (pd_bus dev) (pd_slot dev) (pd_func dev) (ucast (0x10 + i * 4 :: u32) + 4) d1 = (cfg d1 (reg 4), d2)"
    "cfg d2 = cfg d1" using config_read [of "pd_bus dev" "pd_slot dev" "pd_func dev" "ucast (0x10 + i * 4 :: u32) + 4" d1] by (auto simp: reg_def)
  have one: "x AND 1 \<noteq> 0 \<longleftrightarrow> bit x 0" for x :: u32 using and_exp [of x 0] by simp
  show ?thesis using d1 d2 by (simp add: pci_get_bar_def Let_def one)
qed

end

text \<open>
  \<open>pci_find_device\<close> returns the first place, in the order of bus and slot, whose first function has the
  vendor and the device asked for, and nothing when no place has; it changes no register.
\<close>

theorem pci_find_device_correct:
  assumes "pci_bus io cfg wr"
  shows "\<exists>d'. pci_find_device io v p d =
     (map_option (\<lambda>(bus, slot). \<lparr>pd_bus = bus, pd_slot = slot, pd_func = 0, pd_vendor_id = v, pd_device_id = p\<rparr>)
        (find (\<lambda>(bus, slot). cfg d (pci_address bus slot 0 0) = pci_id v p) pci_places), d') \<and> cfg d' = cfg d"
  unfolding pci_find_device_def by (rule pci_bus.find_from [OF assms])

text \<open>A bus as a table of registers and the selected address.\<close>

definition table_io :: "(u32 \<times> (u32 \<Rightarrow> u32)) io" where
  "table_io = \<lparr>io_in8 = (\<lambda>p d. (0xFF, d)), io_out8 = (\<lambda>p x d. d), io_in16 = (\<lambda>p d. (0xFFFF, d)), io_out16 = (\<lambda>p x d. d),
     io_in32 = (\<lambda>p d. (if p = PCI_CONFIG_DATA then snd d (fst d) else 0xFFFFFFFF, d)),
     io_out32 = (\<lambda>p x d. if p = PCI_CONFIG_ADDRESS then (x, snd d) else if p = PCI_CONFIG_DATA then (fst d, (snd d)(fst d := x)) else d)\<rparr>"

interpretation table: pci_bus table_io snd "\<lambda>a old new. new"
  by unfold_locales (simp_all add: table_io_def inl_def outl_def)

theorem pci_find_device_correct_witness:
  "\<exists>d'. pci_find_device table_io 0x8086 0x100E (0, (\<lambda>_. 0xFFFFFFFF)(pci_address 0 3 0 0 := 0x100E8086)) =
     (Some \<lparr>pd_bus = 0, pd_slot = 3, pd_func = 0, pd_vendor_id = 0x8086, pd_device_id = 0x100E\<rparr>, d')"
proof -
  let ?cfg = "(\<lambda>_. 0xFFFFFFFF)(pci_address 0 3 0 0 := 0x100E8086) :: u32 \<Rightarrow> u32"
  have places: "pci_places = (0, 0) # (0, 1) # (0, 2) # (0, 3) # drop 4 pci_places"
  proof -
    have "[0..<256] = 0 # [1..<256]" "[0..<32] = 0 # 1 # 2 # 3 # [4..<32]" by (simp_all add: upt_conv_Cons)
    then show ?thesis by (simp add: pci_places_def)
  qed
  have "find (\<lambda>(bus, slot). ?cfg (pci_address bus slot 0 0) = pci_id 0x8086 0x100E) pci_places = Some (0, 3)"
    by (subst places) (simp add: pci_id_def pci_address_def)
  then show ?thesis using pci_find_device_correct [OF table.pci_bus_axioms, of "0x8086" "0x100E" "(0, ?cfg)"] by auto
qed

end
