(* ===== verification/E1000.thy ===== *)
theory E1000
  imports Pci Vmm Net
begin

text \<open>
  The network card driver, \<^verbatim>\<open>drivers/e1000.c\<close>: two rings of descriptors in memory that the driver and the
  card share. The memory bus is a parameter, since the card reads and writes memory on its own: a
  load or a store is an operation on the state of the devices, and a volatile access is one of them.
  What the card does with its registers and rings is the specification \<open>card\<close> further below.
\<close>

section \<open>The driver\<close>

record 'd bus =
  bus_load :: "u64 \<Rightarrow> nat \<Rightarrow> 'd \<Rightarrow> u8 list \<times> 'd"
  bus_store :: "u64 \<Rightarrow> u8 list \<Rightarrow> 'd \<Rightarrow> 'd"

abbreviation (input) E1000_VENDOR :: u16 where "E1000_VENDOR \<equiv> 0x8086"
abbreviation (input) E1000_DEVICE :: u16 where "E1000_DEVICE \<equiv> 0x100E"
abbreviation (input) REG_CTRL :: u32 where "REG_CTRL \<equiv> 0x0000"
abbreviation (input) REG_STATUS :: u32 where "REG_STATUS \<equiv> 0x0008"
abbreviation (input) REG_EERD :: u32 where "REG_EERD \<equiv> 0x0014"
abbreviation (input) REG_ICR :: u32 where "REG_ICR \<equiv> 0x00C0"
abbreviation (input) REG_IMC :: u32 where "REG_IMC \<equiv> 0x00D8"
abbreviation (input) REG_RCTL :: u32 where "REG_RCTL \<equiv> 0x0100"
abbreviation (input) REG_TCTL :: u32 where "REG_TCTL \<equiv> 0x0400"
abbreviation (input) REG_TIPG :: u32 where "REG_TIPG \<equiv> 0x0410"
abbreviation (input) REG_RDBAL :: u32 where "REG_RDBAL \<equiv> 0x2800"
abbreviation (input) REG_RDBAH :: u32 where "REG_RDBAH \<equiv> 0x2804"
abbreviation (input) REG_RDLEN :: u32 where "REG_RDLEN \<equiv> 0x2808"
abbreviation (input) REG_RDH :: u32 where "REG_RDH \<equiv> 0x2810"
abbreviation (input) REG_RDT :: u32 where "REG_RDT \<equiv> 0x2818"
abbreviation (input) REG_TDBAL :: u32 where "REG_TDBAL \<equiv> 0x3800"
abbreviation (input) REG_TDBAH :: u32 where "REG_TDBAH \<equiv> 0x3804"
abbreviation (input) REG_TDLEN :: u32 where "REG_TDLEN \<equiv> 0x3808"
abbreviation (input) REG_TDH :: u32 where "REG_TDH \<equiv> 0x3810"
abbreviation (input) REG_TDT :: u32 where "REG_TDT \<equiv> 0x3818"
abbreviation (input) REG_MTA :: u32 where "REG_MTA \<equiv> 0x5200"
abbreviation (input) REG_RAL :: u32 where "REG_RAL \<equiv> 0x5400"
abbreviation (input) REG_RAH :: u32 where "REG_RAH \<equiv> 0x5404"
abbreviation (input) CTRL_SLU :: u32 where "CTRL_SLU \<equiv> 0x40"
abbreviation (input) RCTL_EN :: u32 where "RCTL_EN \<equiv> 0x2"
abbreviation (input) RCTL_BAM :: u32 where "RCTL_BAM \<equiv> 0x8000"
abbreviation (input) RCTL_SECRC :: u32 where "RCTL_SECRC \<equiv> 0x4000000"
abbreviation (input) TCTL_EN :: u32 where "TCTL_EN \<equiv> 0x2"
abbreviation (input) TCTL_PSP :: u32 where "TCTL_PSP \<equiv> 0x8"
abbreviation (input) TXD_CMD_EOP :: u8 where "TXD_CMD_EOP \<equiv> 1"
abbreviation (input) TXD_CMD_IFCS :: u8 where "TXD_CMD_IFCS \<equiv> 2"
abbreviation (input) TXD_CMD_RS :: u8 where "TXD_CMD_RS \<equiv> 8"
abbreviation (input) TXD_STAT_DD :: u8 where "TXD_STAT_DD \<equiv> 1"
abbreviation (input) RXD_STAT_DD :: u8 where "RXD_STAT_DD \<equiv> 1"
abbreviation (input) RXD_STAT_EOP :: u8 where "RXD_STAT_EOP \<equiv> 2"
abbreviation (input) NUM_RX_DESC :: nat where "NUM_RX_DESC \<equiv> 16"
abbreviation (input) NUM_TX_DESC :: nat where "NUM_TX_DESC \<equiv> 8"
abbreviation (input) E1000_MMIO_VIRT :: u64 where "E1000_MMIO_VIRT \<equiv> 0xFFFFFFFFC0000000"
abbreviation (input) E1000_MMIO_SIZE :: nat where "E1000_MMIO_SIZE \<equiv> 0x20000"
abbreviation (input) E1000_SPINS :: nat where "E1000_SPINS \<equiv> 1000000"

record e1000 =
  card_present :: bool
  mmio :: u64
  mac_addr :: "u8 list"
  rx_ring :: u64
  tx_ring :: u64
  rx_ring_phys :: u64
  tx_ring_phys :: u64
  rx_buffers :: "u64 list"
  tx_buffers :: "u64 list"
  tx_buffers_phys :: "u64 list"
  rx_cur :: nat
  tx_cur :: nat

definition e1000_present :: "e1000 \<Rightarrow> bool" where "e1000_present e = card_present e"
definition e1000_mac :: "e1000 \<Rightarrow> u8 list" where "e1000_mac e = mac_addr e"

definition mmio_write :: "'d bus \<Rightarrow> e1000 \<Rightarrow> u32 \<Rightarrow> u32 \<Rightarrow> 'd \<Rightarrow> 'd" where
  "mmio_write b e reg val d = bus_store b (mmio e + ucast reg) (bytes32 val) d"

definition mmio_writes :: "'d bus \<Rightarrow> e1000 \<Rightarrow> (u32 \<times> u32) list \<Rightarrow> 'd \<Rightarrow> 'd" where
  "mmio_writes b e ws d = fold (\<lambda>(reg, val). mmio_write b e reg val) ws d"

definition mmio_read :: "'d bus \<Rightarrow> e1000 \<Rightarrow> u32 \<Rightarrow> 'd \<Rightarrow> u32 \<times> 'd" where
  "mmio_read b e reg d = (let (bs, d) = bus_load b (mmio e + ucast reg) 4 d in (load32 bs 0, d))"

definition phys_to_virt :: "u64 \<Rightarrow> 'a vmm_scheme \<Rightarrow> u64" where
  "phys_to_virt phys s = phys + hhdm_offset s"

text \<open>The address from the receive registers or, word by word, from the EEPROM; a read that never completes yields its last value.\<close>

fun eeprom_wait :: "nat \<Rightarrow> 'd bus \<Rightarrow> e1000 \<Rightarrow> u32 \<Rightarrow> 'd \<Rightarrow> u32 \<times> 'd" where
  "eeprom_wait n b e val d =
     (if n = 0 then (val, d) else
      let (val, d) = mmio_read b e REG_EERD d in
      if val AND 0x10 \<noteq> 0 then (val, d) else eeprom_wait (n - 1) b e val d)"

declare eeprom_wait.simps [simp del]

primrec eeprom_words :: "nat list \<Rightarrow> 'd bus \<Rightarrow> e1000 \<Rightarrow> 'd \<Rightarrow> u8 list \<times> 'd" where
  "eeprom_words [] b e d = ([], d)"
| "eeprom_words (i # is) b e d =
     (let d = mmio_write b e REG_EERD (push_bit 8 (of_nat i) OR 1) d;
          (val, d) = eeprom_wait E1000_SPINS b e 0 d;
          (bs, d) = eeprom_words is b e d
      in (ucast (drop_bit 16 val) # ucast (drop_bit 24 val) # bs, d))"

definition read_mac :: "'d bus \<Rightarrow> e1000 \<times> 'd \<Rightarrow> e1000 \<times> 'd" where
  "read_mac b w =
     (let (e, d) = w; (ral, d) = mmio_read b e REG_RAL d; (rah, d) = mmio_read b e REG_RAH d in
      if ral \<noteq> 0 then
        (e\<lparr>mac_addr := [ucast ral, ucast (drop_bit 8 ral), ucast (drop_bit 16 ral), ucast (drop_bit 24 ral), ucast rah, ucast (drop_bit 8 rah)]\<rparr>, d)
      else let (bs, d) = eeprom_words [0, 1, 2] b e d in (e\<lparr>mac_addr := bs\<rparr>, d))"

text \<open>
  The fields of a descriptor: address at 0, length at 8, command of a transmit descriptor at 11,
  status at 12. The rings are set up in pages of the physical memory manager.
\<close>

primrec rx_fill :: "nat list \<Rightarrow> 'd bus \<Rightarrow> 'a vmm_scheme \<times> e1000 \<times> 'd \<Rightarrow> (bool \<times> 'a vmm_scheme \<times> e1000 \<times> 'd) option" where
  "rx_fill [] b w = Some (True, w)"
| "rx_fill (i # is) b w =
     (let (s, e, d) = w in
      Option.bind (pmm_alloc_page s) (\<lambda>(buf_phys, s).
      if buf_phys = 0 then Some (False, s, e, d) else
      let e = e\<lparr>rx_buffers := (rx_buffers e)[i := phys_to_virt buf_phys s]\<rparr>;
          d = bus_store b (rx_ring e + 16 * of_nat i) (bytes64 buf_phys) d;
          d = bus_store b (rx_ring e + 16 * of_nat i + 12) [0] d
      in rx_fill is b (s, e, d)))"

definition setup_rx :: "'d bus \<Rightarrow> 'a vmm_scheme \<times> e1000 \<times> 'd \<Rightarrow> (bool \<times> 'a vmm_scheme \<times> e1000 \<times> 'd) option" where
  "setup_rx b w =
     (let (s, e, d) = w in
      Option.bind (pmm_alloc_page s) (\<lambda>(ring_phys, s).
      if ring_phys = 0 then Some (False, s, e, d) else
      let e = e\<lparr>rx_ring_phys := ring_phys, rx_ring := phys_to_virt ring_phys s\<rparr>;
          d = bus_store b (rx_ring e) (replicate 4096 0) d
      in Option.bind (rx_fill [0..<NUM_RX_DESC] b (s, e, d)) (\<lambda>(ok, s, e, d).
      if \<not> ok then Some (False, s, e, d) else
      let d = mmio_writes b e [(REG_RDBAL, ucast (rx_ring_phys e AND 0xFFFFFFFF)), (REG_RDBAH, ucast (drop_bit 32 (rx_ring_phys e))),
                (REG_RDLEN, 256), (REG_RDH, 0), (REG_RDT, 15)] d;
          e = e\<lparr>rx_cur := 0\<rparr>;
          d = mmio_write b e REG_RCTL (RCTL_EN OR RCTL_BAM OR RCTL_SECRC) d
      in Some (True, s, e, d))))"

primrec tx_fill :: "nat list \<Rightarrow> 'd bus \<Rightarrow> 'a vmm_scheme \<times> e1000 \<times> 'd \<Rightarrow> (bool \<times> 'a vmm_scheme \<times> e1000 \<times> 'd) option" where
  "tx_fill [] b w = Some (True, w)"
| "tx_fill (i # is) b w =
     (let (s, e, d) = w in
      Option.bind (pmm_alloc_page s) (\<lambda>(buf_phys, s).
      if buf_phys = 0 then Some (False, s, e, d) else
      let e = e\<lparr>tx_buffers_phys := (tx_buffers_phys e)[i := buf_phys], tx_buffers := (tx_buffers e)[i := phys_to_virt buf_phys s]\<rparr>;
          d = bus_store b (tx_ring e + 16 * of_nat i) (bytes64 0) d;
          d = bus_store b (tx_ring e + 16 * of_nat i + 12) [TXD_STAT_DD] d
      in tx_fill is b (s, e, d)))"

definition setup_tx :: "'d bus \<Rightarrow> 'a vmm_scheme \<times> e1000 \<times> 'd \<Rightarrow> (bool \<times> 'a vmm_scheme \<times> e1000 \<times> 'd) option" where
  "setup_tx b w =
     (let (s, e, d) = w in
      Option.bind (pmm_alloc_page s) (\<lambda>(ring_phys, s).
      if ring_phys = 0 then Some (False, s, e, d) else
      let e = e\<lparr>tx_ring_phys := ring_phys, tx_ring := phys_to_virt ring_phys s\<rparr>;
          d = bus_store b (tx_ring e) (replicate 4096 0) d
      in Option.bind (tx_fill [0..<NUM_TX_DESC] b (s, e, d)) (\<lambda>(ok, s, e, d).
      if \<not> ok then Some (False, s, e, d) else
      let d = mmio_writes b e [(REG_TDBAL, ucast (tx_ring_phys e AND 0xFFFFFFFF)), (REG_TDBAH, ucast (drop_bit 32 (tx_ring_phys e))),
                (REG_TDLEN, 128), (REG_TDH, 0), (REG_TDT, 0)] d;
          e = e\<lparr>tx_cur := 0\<rparr>;
          d = mmio_writes b e [(REG_TCTL, TCTL_EN OR TCTL_PSP OR push_bit 4 0x10 OR push_bit 12 0x40), (REG_TIPG, 10 OR push_bit 10 8 OR push_bit 20 6)] d
      in Some (True, s, e, d))))"

text \<open>The ports of the PCI bus and the memory bus are operations on the same devices.\<close>

definition e1000_init :: "'d io \<Rightarrow> 'd bus \<Rightarrow> 'a vmm_scheme \<times> e1000 \<times> 'd \<Rightarrow> (bool \<times> 'a vmm_scheme \<times> e1000 \<times> 'd) option" where
  "e1000_init io b w =
     (let (s, e, d) = w; e = e\<lparr>card_present := False\<rparr>; (dev, d) = pci_find_device io E1000_VENDOR E1000_DEVICE d in
      case dev of None \<Rightarrow> Some (False, s, e, d) | Some dev \<Rightarrow>
      let (bar0, d) = pci_get_bar io dev 0 d in
      if bar0 = 0 then Some (False, s, e, d) else
      let d = pci_enable_bus_master io dev d in
      Option.bind (foldM (\<lambda>i s. vmm_map_page (bar0 + of_nat i * PMM_PAGE_SIZE) (E1000_MMIO_VIRT + of_nat i * PMM_PAGE_SIZE)
          (PAGE_PRESENT OR PAGE_WRITABLE OR PAGE_NOCACHE) s) [0..<E1000_MMIO_SIZE div 4096] s) (\<lambda>s.
      let e = e\<lparr>mmio := E1000_MMIO_VIRT\<rparr>;
          d = mmio_write b e REG_IMC 0xFFFFFFFF d;
          d = snd (mmio_read b e REG_ICR d);
          (ctrl, d) = mmio_read b e REG_CTRL d;
          d = mmio_write b e REG_CTRL (ctrl OR CTRL_SLU) d;
          d = mmio_writes b e (map (\<lambda>i. (REG_MTA + of_nat i * 4, 0)) [0..<128]) d;
          (e, d) = read_mac b (e, d)
      in Option.bind (setup_rx b (s, e, d)) (\<lambda>(ok, s, e, d).
      if \<not> ok then Some (False, s, e, d) else
      Option.bind (setup_tx b (s, e, d)) (\<lambda>(ok, s, e, d).
      if \<not> ok then Some (False, s, e, d) else
      let d = snd (mmio_read b e REG_STATUS d)
      in Some (True, s, e\<lparr>card_present := True\<rparr>, d)))))"

text \<open>The wait for the descriptor ends early when it is done; the status is read once more afterwards.\<close>

fun tx_wait :: "nat \<Rightarrow> 'd bus \<Rightarrow> e1000 \<Rightarrow> 'd \<Rightarrow> 'd" where
  "tx_wait n b e d =
     (if n = 0 then d else
      let (st, d) = bus_load b (tx_ring e + 16 * of_nat (tx_cur e) + 12) 1 d in
      if st ! 0 AND TXD_STAT_DD \<noteq> 0 then d else tx_wait (n - 1) b e d)"

declare tx_wait.simps [simp del]

definition e1000_send :: "'d bus \<Rightarrow> u8 list \<Rightarrow> e1000 \<times> 'd \<Rightarrow> bool \<times> e1000 \<times> 'd" where
  "e1000_send b frame w =
     (let (e, d) = w in
      if \<not> card_present e then (False, e, d)
      else if length frame = 0 \<or> length frame > ETH_FRAME_MAX then (False, e, d) else
      let desc = tx_ring e + 16 * of_nat (tx_cur e);
          d = tx_wait E1000_SPINS b e d;
          (st, d) = bus_load b (desc + 12) 1 d
      in if st ! 0 AND TXD_STAT_DD = 0 then (False, e, d) else
      let d = bus_store b (tx_buffers e ! tx_cur e) frame d;
          d = bus_store b desc (bytes64 (tx_buffers_phys e ! tx_cur e)) d;
          d = bus_store b (desc + 8) (bytes16 (of_nat (length frame))) d;
          d = bus_store b (desc + 10) [0] d;
          d = bus_store b (desc + 13) [0] d;
          d = bus_store b (desc + 12) [0] d;
          d = bus_store b (desc + 11) [TXD_CMD_EOP OR TXD_CMD_IFCS OR TXD_CMD_RS] d;
          e = e\<lparr>tx_cur := (tx_cur e + 1) mod NUM_TX_DESC\<rparr>
      in (True, e, mmio_write b e REG_TDT (of_nat (tx_cur e)) d))"

text \<open>The bytes that a receive copies to the caller's buffer; none when no frame is waiting.\<close>

definition e1000_receive :: "'d bus \<Rightarrow> nat \<Rightarrow> e1000 \<times> 'd \<Rightarrow> u8 list \<times> e1000 \<times> 'd" where
  "e1000_receive b buffer_size w =
     (let (e, d) = w in
      if \<not> card_present e then ([], e, d) else
      let desc = rx_ring e + 16 * of_nat (rx_cur e); (st, d) = bus_load b (desc + 12) 1 d in
      if st ! 0 AND RXD_STAT_DD = 0 then ([], e, d) else
      let (len, d) = bus_load b (desc + 8) 2 d;
          len = min (unat (load16 len 0)) buffer_size;
          (bs, d) = bus_load b (rx_buffers e ! rx_cur e) len d;
          d = bus_store b (desc + 12) [0] d;
          d = mmio_write b e REG_RDT (of_nat (rx_cur e)) d
      in (bs, e\<lparr>rx_cur := (rx_cur e + 1) mod NUM_RX_DESC\<rparr>, d))"

text \<open>The card as the network stack sees it; the clock is the timer's.\<close>

definition e1000_nic :: "'d bus \<Rightarrow> ('d \<Rightarrow> u64 \<times> 'd) \<Rightarrow> (e1000 \<times> 'd) nic" where
  "e1000_nic b ticks =
     \<lparr>nic_present = (\<lambda>(e, d). e1000_present e), nic_mac = (\<lambda>(e, d). e1000_mac e), nic_send = e1000_send b,
      nic_receive = (\<lambda>n (e, d). e1000_receive b n (e, d)),
      nic_ticks = (\<lambda>(e, d). let (t, d) = ticks d in (t, e, d))\<rparr>"

end
