(* ===== verification/Card.thy ===== *)
theory Card
  imports E1000
begin

text \<open>
  What the driver of the network card promises: a specification of the card (it works on the two rings
  by itself, at any time), the interface between the driver and the card, and the correctness of
  sending and receiving against it. Frames are queues: a frame handed to the driver is sent by the
  card once, in order; a frame the card accepts is returned once, in order.
\<close>

section \<open>Memory by physical address\<close>

definition mem_get :: "(u64 \<Rightarrow> u8) \<Rightarrow> u64 \<Rightarrow> nat \<Rightarrow> u8 list" where
  "mem_get m a n = map (\<lambda>k. m (a + of_nat k)) [0..<n]"

definition mem_put :: "(u64 \<Rightarrow> u8) \<Rightarrow> u64 \<Rightarrow> u8 list \<Rightarrow> u64 \<Rightarrow> u8" where
  "mem_put m a bs x = (if unat (x - a) < length bs then bs ! unat (x - a) else m x)"

definition page :: "u64 \<Rightarrow> bool" where
  "page p = (unat p mod 4096 = 0)"

lemma length_mem_get [simp]: "length (mem_get m a n) = n"
  by (simp add: mem_get_def)

lemma unat_page_off: "unat (p + of_nat i) = unat p + i" if "page p" "i < 4096"
proof -
  obtain k where k: "unat p = 4096 * k" using \<open>page p\<close> by (auto simp: page_def mod_eq_0_iff_dvd)
  have "unat p < 2 ^ 64" using unsigned_less [of p] by simp
  then have "unat p + i < 2 ^ 64" using k \<open>i < 4096\<close> by simp
  then show ?thesis using \<open>i < 4096\<close> by (simp add: unat_word_ariths unsigned_of_nat take_bit_nat_eq_self)
qed

lemma page_off_inj: "(p + of_nat i = q + of_nat j) \<longleftrightarrow> p = q \<and> i = j"
  if "page p" "page q" "i < 4096" "j < 4096"
proof
  assume "p + of_nat i = q + of_nat j"
  then have e: "unat p + i = unat q + j" using that by (metis unat_page_off)
  have "unat p = 4096 * (unat p div 4096)" "unat q = 4096 * (unat q div 4096)"
    using that by (auto simp: page_def)
  then obtain k l where "unat p = 4096 * k" "unat q = 4096 * l" by blast
  moreover from this e have "4096 * k + i = 4096 * l + j" by simp
  then have "(4096 * k + i) div 4096 = (4096 * l + j) div 4096" "(4096 * k + i) mod 4096 = (4096 * l + j) mod 4096" by simp_all
  then have "k = l" "i = j" using that by simp_all
  ultimately show "p = q \<and> i = j" by (simp add: word_unat_eq_iff)
qed simp

lemma mem_put_page:
  assumes "page p" "page q" "i + length bs \<le> 4096" "j < 4096"
  shows "mem_put m (p + of_nat i) bs (q + of_nat j) = (if p = q \<and> i \<le> j \<and> j < i + length bs then bs ! (j - i) else m (q + of_nat j))"
proof (cases "unat (q + of_nat j - (p + of_nat i)) < length bs")
  case True
  obtain k where k_def: "k = unat (q + of_nat j - (p + of_nat i))" by blast
  have "q + of_nat j = p + of_nat (i + k)" by (simp add: k_def)
  then have "q = p \<and> j = i + k" using True assms k_def page_off_inj [of q p j "i + k"] by linarith
  moreover have "mem_put m (p + of_nat i) bs (q + of_nat j) = bs ! k" using True by (simp add: mem_put_def k_def)
  moreover have "k < length bs" using True by (simp add: k_def)
  ultimately show ?thesis by auto
next
  case False
  have "\<not> (p = q \<and> i \<le> j \<and> j < i + length bs)"
  proof
    assume a: "p = q \<and> i \<le> j \<and> j < i + length bs"
    then have "q + of_nat j - (p + of_nat i) = of_nat (j - i)" by (simp add: of_nat_diff)
    moreover have "j - i < 4096" using a assms by linarith
    then have "unat (of_nat (j - i) :: u64) = j - i" by (simp add: unsigned_of_nat take_bit_nat_eq_self del: of_nat_diff)
    ultimately have "unat (q + of_nat j - (p + of_nat i)) = j - i" by presburger
    moreover have "j - i < length bs" using a by auto
    ultimately show False using False by simp
  qed
  with False show ?thesis by (auto simp: mem_put_def)
qed

lemma mem_get_put_same: "mem_get (mem_put m (p + of_nat i) bs) (p + of_nat i) (length bs) = bs"
  if "page p" "i + length bs \<le> 4096"
proof (rule nth_equalityI)
  fix k assume k: "k < length (mem_get (mem_put m (p + of_nat i) bs) (p + of_nat i) (length bs))"
  then have "mem_put m (p + of_nat i) bs (p + of_nat (i + k)) = bs ! k"
    using that by (subst mem_put_page) auto
  with k show "mem_get (mem_put m (p + of_nat i) bs) (p + of_nat i) (length bs) ! k = bs ! k"
    by (simp add: mem_get_def add.assoc)
qed simp

lemma mem_get_put_other: "mem_get (mem_put m (p + of_nat i) bs) (q + of_nat j) n = mem_get m (q + of_nat j) n"
  if "page p" "page q" "i + length bs \<le> 4096" "j + n \<le> 4096" "p \<noteq> q \<or> i + length bs \<le> j \<or> j + n \<le> i"
proof (rule nth_equalityI)
  fix k assume k: "k < length (mem_get (mem_put m (p + of_nat i) bs) (q + of_nat j) n)"
  then have "mem_put m (p + of_nat i) bs (q + of_nat (j + k)) = m (q + of_nat (j + k))"
    using that by (subst mem_put_page) auto
  with k show "mem_get (mem_put m (p + of_nat i) bs) (q + of_nat j) n ! k = mem_get m (q + of_nat j) n ! k"
    by (simp add: mem_get_def add.assoc)
qed simp

text \<open>The bytes of descriptor \<open>i\<close> of the ring in page \<open>p\<close>.\<close>

definition slot :: "(u64 \<Rightarrow> u8) \<Rightarrow> u64 \<Rightarrow> nat \<Rightarrow> nat \<Rightarrow> nat \<Rightarrow> u8 list" where
  "slot m p i k n = mem_get m (p + of_nat (16 * i + k)) n"

lemma length_slot [simp]: "length (slot m p i k n) = n"
  by (simp add: slot_def)

lemma slot_part: "slot m p i (k + j) n = take n (drop j (slot m p i k l))" if "j + n \<le> l"
  using that by (intro nth_equalityI) (auto simp: slot_def mem_get_def add.assoc)

lemma slot_put_same: "slot (mem_put m (p + of_nat (16 * i + k)) bs) p i k (length bs) = bs"
  if "page p" "i < 16" "k + length bs \<le> 16"
  unfolding slot_def using that by (intro mem_get_put_same) auto

lemma slot_put_other: "slot (mem_put m (p + of_nat (16 * h + k)) bs) q i l n = slot m q i l n"
  if "page p" "page q" "h < 16" "i < 16" "k + length bs \<le> 16" "l + n \<le> 16" "p \<noteq> q \<or> h \<noteq> i \<or> k + length bs \<le> l \<or> l + n \<le> k"
proof -
  consider "h < i" | "h = i" | "i < h" by linarith
  then have "p \<noteq> q \<or> 16 * h + k + length bs \<le> 16 * i + l \<or> 16 * i + l + n \<le> 16 * h + k"
    using that by cases linarith+
  then show ?thesis unfolding slot_def using that by (intro mem_get_put_other) auto
qed

lemma slot_put_page: "slot (mem_put m q bs) p i l n = slot m p i l n"
  if "page p" "page q" "p \<noteq> q" "i < 16" "l + n \<le> 16" "length bs \<le> 4096"
  unfolding slot_def using that mem_get_put_other [of q p 0 bs "16 * i + l" n m] by simp

lemma page_put_slot: "mem_get (mem_put m (p + of_nat (16 * h + k)) bs) q n = mem_get m q n"
  if "page p" "page q" "p \<noteq> q" "h < 16" "k + length bs \<le> 16" "n \<le> 4096"
  using that mem_get_put_other [of p q "16 * h + k" bs 0] by simp

lemma page_put_page: "mem_get (mem_put m p bs) q n = (if p = q then bs else mem_get m q n)"
  if "page p" "page q" "length bs \<le> 4096" "n \<le> 4096" "p = q \<longrightarrow> n = length bs"
  using that mem_get_put_other [of p q 0 bs 0] mem_get_put_same [of p 0] by auto

lemma slot_put_in: "slot (mem_put m (p + of_nat (16 * i + k)) bs) p i 0 16 =
    take k (slot m p i 0 16) @ bs @ drop (k + length bs) (slot m p i 0 16)"
  if "page p" "i < 16" "k + length bs \<le> 16"
proof -
  let ?m = "mem_put m (p + of_nat (16 * i + k)) bs"
  let ?s = "slot ?m p i 0 16"
  have "take k ?s = take k (slot m p i 0 16)"
    using that slot_part [of 0 k 16 ?m p i 0] slot_part [of 0 k 16 m p i 0] slot_put_other [of p p i i k bs 0 k m] by simp
  moreover have "take (length bs) (drop k ?s) = bs"
    using that slot_part [of k "length bs" 16 ?m p i 0] slot_put_same [of p i k bs m] by simp
  moreover have "drop (k + length bs) ?s = drop (k + length bs) (slot m p i 0 16)"
    using that slot_part [of "k + length bs" "16 - (k + length bs)" 16 ?m p i 0] slot_part [of "k + length bs" "16 - (k + length bs)" 16 m p i 0]
      slot_put_other [of p p i i k bs "k + length bs" "16 - (k + length bs)" m] by simp
  ultimately show ?thesis by (metis append_take_drop_id drop_drop add.commute)
qed

lemma ring_inj: "((h + k) mod N = (h + j) mod N) = (k = j)" if "k < N" "j < N" for h :: nat
proof -
  have "k = j" if "(h + k) mod N = (h + j) mod N" "k \<le> j" "j < N" for k j
  proof -
    have "N dvd (h + j) - (h + k)" using that by (metis add_le_cancel_left mod_eq_dvd_iff_nat)
    then have "N dvd j - k" by simp
    then show "k = j" using that by (meson diff_is_0_eq dvd_imp_le le_antisym less_imp_diff_less linorder_not_less not_gr_zero)
  qed
  then show ?thesis using that by (metis nle_le)
qed

section \<open>The card\<close>

record card =
  cmem :: "u64 \<Rightarrow> u8"
  tx_base :: u64
  tx_head :: nat
  tx_tail :: nat
  rx_base :: u64
  rx_head :: nat
  rx_tail :: nat
  sent :: "u8 list list"
  got :: "u8 list list"

text \<open>
  The card owns the descriptors from the head up to, not including, the tail. It sends the frame of its
  head descriptor and reports it done, when asked to; it stores a frame that arrives in the buffer of its head
  descriptor, with its length and status.
\<close>

definition card_transmit :: "card \<Rightarrow> card" where
  "card_transmit c =
     (let m = cmem c; h = tx_head c; n = unat (load16 (slot m (tx_base c) h 8 2) 0);
          st = hd (slot m (tx_base c) h 12 1)
      in c\<lparr>sent := sent c @ [mem_get m (load64 (slot m (tx_base c) h 0 8) 0) n],
           cmem := if hd (slot m (tx_base c) h 11 1) AND TXD_CMD_RS = 0 then m
                   else mem_put m (tx_base c + of_nat (16 * h + 12)) [st OR TXD_STAT_DD],
           tx_head := (h + 1) mod NUM_TX_DESC\<rparr>)"

definition card_accept :: "u8 list \<Rightarrow> card \<Rightarrow> card" where
  "card_accept f c =
     (let m = cmem c; h = rx_head c;
          m = mem_put m (load64 (slot m (rx_base c) h 0 8) 0) f;
          m = mem_put m (rx_base c + of_nat (16 * h + 8)) (bytes16 (of_nat (length f)));
          m = mem_put m (rx_base c + of_nat (16 * h + 12)) [RXD_STAT_DD OR RXD_STAT_EOP]
      in c\<lparr>got := got c @ [f], cmem := m, rx_head := (h + 1) mod NUM_RX_DESC\<rparr>)"

inductive card_step :: "card \<Rightarrow> card \<Rightarrow> bool" where
  transmit: "tx_head c \<noteq> tx_tail c \<Longrightarrow> card_step c (card_transmit c)"
| accept: "rx_head c \<noteq> rx_tail c \<Longrightarrow> 0 < length f \<Longrightarrow> length f \<le> 2048 \<Longrightarrow> card_step c (card_accept f c)"

abbreviation card_steps :: "card \<Rightarrow> card \<Rightarrow> bool" where
  "card_steps \<equiv> card_step\<^sup>*\<^sup>*"

section \<open>The invariant of the rings\<close>

text \<open>
  \<open>hh\<close> is the offset of the direct map. The driver's pages are disjoint pages of memory below \<open>ram\<close>; it reads and
  writes them through the direct map.
\<close>

definition rx_page :: "u64 \<Rightarrow> e1000 \<Rightarrow> nat \<Rightarrow> u64" where
  "rx_page hh e i = rx_buffers e ! i - hh"

definition e1000_pages :: "u64 \<Rightarrow> e1000 \<Rightarrow> u64 list" where
  "e1000_pages hh e = tx_ring_phys e # rx_ring_phys e # tx_buffers_phys e @ map (rx_page hh e) [0..<NUM_RX_DESC]"

definition layout :: "nat \<Rightarrow> u64 \<Rightarrow> e1000 \<Rightarrow> bool" where
  "layout ram hh e \<longleftrightarrow> card_present e \<and> mmio e = E1000_MMIO_VIRT \<and>
     tx_ring e = tx_ring_phys e + hh \<and> rx_ring e = rx_ring_phys e + hh \<and>
     length (tx_buffers_phys e) = NUM_TX_DESC \<and> tx_buffers e = map (\<lambda>p. p + hh) (tx_buffers_phys e) \<and>
     length (rx_buffers e) = NUM_RX_DESC \<and> distinct (e1000_pages hh e) \<and>
     (\<forall>p\<in>set (e1000_pages hh e). page p \<and> unat p + 4096 \<le> ram)"

definition tx_holds :: "e1000 \<Rightarrow> (u64 \<Rightarrow> u8) \<Rightarrow> nat \<Rightarrow> u8 list \<Rightarrow> bool" where
  "tx_holds e m i f \<longleftrightarrow> length f \<le> ETH_FRAME_MAX \<and>
     slot m (tx_ring_phys e) i 0 8 = bytes64 (tx_buffers_phys e ! i) \<and>
     slot m (tx_ring_phys e) i 8 2 = bytes16 (of_nat (length f)) \<and>
     slot m (tx_ring_phys e) i 11 1 = [TXD_CMD_EOP OR TXD_CMD_IFCS OR TXD_CMD_RS] \<and>
     slot m (tx_ring_phys e) i 12 1 = [0] \<and>
     mem_get m (tx_buffers_phys e ! i) (length f) = f"

text \<open>The frames \<open>P\<close> wait in the slots from the card's head on; the slots after the driver's are done.\<close>

definition tx_rings :: "e1000 \<Rightarrow> card \<Rightarrow> u8 list list \<Rightarrow> bool" where
  "tx_rings e c P \<longleftrightarrow> tx_base c = tx_ring_phys e \<and> length P < NUM_TX_DESC \<and> tx_head c < NUM_TX_DESC \<and>
     tx_tail c = tx_cur e \<and> tx_cur e = (tx_head c + length P) mod NUM_TX_DESC \<and>
     (\<forall>k<length P. tx_holds e (cmem c) ((tx_head c + k) mod NUM_TX_DESC) (P ! k)) \<and>
     (\<forall>k<NUM_TX_DESC. length P < k \<longrightarrow> slot (cmem c) (tx_ring_phys e) ((tx_head c + k) mod NUM_TX_DESC) 12 1 = [TXD_STAT_DD])"

definition rx_holds :: "u64 \<Rightarrow> e1000 \<Rightarrow> (u64 \<Rightarrow> u8) \<Rightarrow> nat \<Rightarrow> u8 list \<Rightarrow> bool" where
  "rx_holds hh e m i f \<longleftrightarrow> 0 < length f \<and> length f \<le> 2048 \<and>
     slot m (rx_ring_phys e) i 8 2 = bytes16 (of_nat (length f)) \<and>
     slot m (rx_ring_phys e) i 12 1 = [RXD_STAT_DD OR RXD_STAT_EOP] \<and>
     mem_get m (rx_page hh e i) (length f) = f"

text \<open>
  The frames \<open>U\<close> wait in the slots from \<open>cur\<close> on and the tail is \<open>t\<close> slots after it: 15, or 14 between the two
  stores with which the driver gives a slot back.
\<close>

definition rx_rings :: "u64 \<Rightarrow> e1000 \<Rightarrow> nat \<Rightarrow> nat \<Rightarrow> card \<Rightarrow> u8 list list \<Rightarrow> bool" where
  "rx_rings hh e cur t c U \<longleftrightarrow> rx_base c = rx_ring_phys e \<and> cur < NUM_RX_DESC \<and> length U \<le> t \<and> t < NUM_RX_DESC \<and>
     rx_head c = (cur + length U) mod NUM_RX_DESC \<and> rx_tail c = (cur + t) mod NUM_RX_DESC \<and>
     (\<forall>i<NUM_RX_DESC. slot (cmem c) (rx_ring_phys e) i 0 8 = bytes64 (rx_page hh e i)) \<and>
     (\<forall>k<length U. rx_holds hh e (cmem c) ((cur + k) mod NUM_RX_DESC) (U ! k)) \<and>
     (\<forall>k<NUM_RX_DESC. length U \<le> k \<longrightarrow> slot (cmem c) (rx_ring_phys e) ((cur + k) mod NUM_RX_DESC) 12 1 = [0])"

text \<open>The driver's own slot of the send ring and its buffer, which the card leaves alone.\<close>

definition own_slot :: "e1000 \<Rightarrow> card \<Rightarrow> u8 list" where
  "own_slot e c = slot (cmem c) (tx_ring_phys e) (tx_cur e) 0 16"

definition own_buffer :: "e1000 \<Rightarrow> nat \<Rightarrow> card \<Rightarrow> u8 list" where
  "own_buffer e n c = mem_get (cmem c) (tx_buffers_phys e ! tx_cur e) n"

text \<open>Facts about the pages.\<close>

lemma layout_page:
  assumes "layout ram hh e"
  shows "page (tx_ring_phys e)" "page (rx_ring_phys e)" "tx_ring_phys e \<noteq> rx_ring_phys e"
    and "i < NUM_TX_DESC \<Longrightarrow> page (tx_buffers_phys e ! i) \<and> tx_buffers_phys e ! i \<noteq> tx_ring_phys e \<and> tx_buffers_phys e ! i \<noteq> rx_ring_phys e"
    and "j < NUM_RX_DESC \<Longrightarrow> page (rx_page hh e j) \<and> rx_page hh e j \<noteq> tx_ring_phys e \<and> rx_page hh e j \<noteq> rx_ring_phys e"
    and "i < NUM_TX_DESC \<Longrightarrow> j < NUM_RX_DESC \<Longrightarrow> rx_page hh e j \<noteq> tx_buffers_phys e ! i"
    and "i < NUM_TX_DESC \<Longrightarrow> k < NUM_TX_DESC \<Longrightarrow> tx_buffers_phys e ! i = tx_buffers_phys e ! k \<longleftrightarrow> i = k"
    and "j < NUM_RX_DESC \<Longrightarrow> l < NUM_RX_DESC \<Longrightarrow> rx_page hh e j = rx_page hh e l \<longleftrightarrow> j = l"
proof -
  have d: "distinct (e1000_pages hh e)" and p: "\<forall>p\<in>set (e1000_pages hh e). page p" and n: "length (tx_buffers_phys e) = NUM_TX_DESC"
    using assms by (auto simp: layout_def)
  have r: "rx_page hh e j \<in> rx_page hh e ` {0..<16}" if "j < 16" for j using that by auto
  have x: "tx_buffers_phys e ! i \<in> set (tx_buffers_phys e)" if "i < 8" for i using that n by auto
  show "page (tx_ring_phys e)" "page (rx_ring_phys e)" "tx_ring_phys e \<noteq> rx_ring_phys e"
    using d p by (auto simp: e1000_pages_def)
  show "i < NUM_TX_DESC \<Longrightarrow> page (tx_buffers_phys e ! i) \<and> tx_buffers_phys e ! i \<noteq> tx_ring_phys e \<and> tx_buffers_phys e ! i \<noteq> rx_ring_phys e"
    using d p x [of i] by (simp add: e1000_pages_def) metis
  show "j < NUM_RX_DESC \<Longrightarrow> page (rx_page hh e j) \<and> rx_page hh e j \<noteq> tx_ring_phys e \<and> rx_page hh e j \<noteq> rx_ring_phys e"
    using d p by (simp add: e1000_pages_def) (metis r UnI2)
  show "i < NUM_TX_DESC \<Longrightarrow> j < NUM_RX_DESC \<Longrightarrow> rx_page hh e j \<noteq> tx_buffers_phys e ! i"
    using d by (simp add: e1000_pages_def) (metis r x disjoint_iff)
  show "i < NUM_TX_DESC \<Longrightarrow> k < NUM_TX_DESC \<Longrightarrow> tx_buffers_phys e ! i = tx_buffers_phys e ! k \<longleftrightarrow> i = k"
    using d n by (auto simp: e1000_pages_def nth_eq_iff_index_eq)
  show "j < NUM_RX_DESC \<Longrightarrow> l < NUM_RX_DESC \<Longrightarrow> rx_page hh e j = rx_page hh e l \<longleftrightarrow> j = l"
    using d by (auto simp: e1000_pages_def distinct_map inj_on_def)
qed

lemma layout_page_sym:
  assumes "layout ram hh e"
  shows "i < NUM_TX_DESC \<Longrightarrow> tx_ring_phys e \<noteq> tx_buffers_phys e ! i \<and> rx_ring_phys e \<noteq> tx_buffers_phys e ! i"
    and "j < NUM_RX_DESC \<Longrightarrow> tx_ring_phys e \<noteq> rx_page hh e j \<and> rx_ring_phys e \<noteq> rx_page hh e j"
    and "i < NUM_TX_DESC \<Longrightarrow> j < NUM_RX_DESC \<Longrightarrow> tx_buffers_phys e ! i \<noteq> rx_page hh e j"
  using layout_page(4-6) [OF assms] by metis+

lemma load64_same [simp]: "load64 (bytes64 x) 0 = x"
  using load64_bytes64 [of x "[]"] by simp

lemma load16_length [simp]: "length f \<le> 4096 \<Longrightarrow> unat (load16 (bytes16 (of_nat (length f))) 0) = length f"
  using load16_bytes16 [of "of_nat (length f)" "[]"] by (simp add: unsigned_of_nat take_bit_nat_eq_self)

lemma tx_own: "tx_rings e c P \<Longrightarrow> k < NUM_TX_DESC \<Longrightarrow> (tx_head c + k) mod NUM_TX_DESC = tx_cur e \<longleftrightarrow> k = length P"
  by (auto simp: tx_rings_def ring_inj)

lemma tx_cur_less: "tx_rings e c P \<Longrightarrow> tx_cur e < NUM_TX_DESC"
  by (simp add: tx_rings_def)

text \<open>The invariants read only the ring and the pages of their own side; the driver's own slot is free.\<close>

lemma tx_keep:
  assumes "tx_rings e c P" "tx_base c' = tx_base c" "tx_head c' = tx_head c" "tx_tail c' = tx_tail c"
    and "\<And>i k n. i < NUM_TX_DESC \<Longrightarrow> i \<noteq> tx_cur e \<Longrightarrow> k + n \<le> 16 \<Longrightarrow> slot (cmem c') (tx_ring_phys e) i k n = slot (cmem c) (tx_ring_phys e) i k n"
    and "\<And>i n. i < NUM_TX_DESC \<Longrightarrow> i \<noteq> tx_cur e \<Longrightarrow> n \<le> 4096 \<Longrightarrow> mem_get (cmem c') (tx_buffers_phys e ! i) n = mem_get (cmem c) (tx_buffers_phys e ! i) n"
  shows "tx_rings e c' P"
proof -
  have "tx_holds e (cmem c') ((tx_head c + k) mod NUM_TX_DESC) (P ! k)" if "k < length P" for k
  proof -
    have l: "length P < NUM_TX_DESC" using assms(1) by (simp add: tx_rings_def)
    then have "(tx_head c + k) mod NUM_TX_DESC \<noteq> tx_cur e" using tx_own [OF assms(1), of k] that by simp
    moreover have "tx_holds e (cmem c) ((tx_head c + k) mod NUM_TX_DESC) (P ! k)" using assms(1) that by (simp add: tx_rings_def)
    ultimately show ?thesis by (simp add: tx_holds_def assms(5,6))
  qed
  moreover have "slot (cmem c') (tx_ring_phys e) ((tx_head c + k) mod NUM_TX_DESC) 12 1 = [TXD_STAT_DD]" if "k < NUM_TX_DESC" "length P < k" for k
  proof -
    have "(tx_head c + k) mod NUM_TX_DESC \<noteq> tx_cur e" using tx_own [OF assms(1), of k] that by simp
    moreover have "slot (cmem c) (tx_ring_phys e) ((tx_head c + k) mod NUM_TX_DESC) 12 1 = [TXD_STAT_DD]" using assms(1) that by (simp add: tx_rings_def)
    ultimately show ?thesis by (simp add: assms(5))
  qed
  ultimately show ?thesis using assms(1-4) by (simp add: tx_rings_def)
qed

lemma rx_keep:
  assumes "rx_rings hh e cur t c U" "rx_base c' = rx_base c" "rx_head c' = rx_head c" "rx_tail c' = rx_tail c"
    and "\<And>i k n. i < NUM_RX_DESC \<Longrightarrow> k + n \<le> 16 \<Longrightarrow> slot (cmem c') (rx_ring_phys e) i k n = slot (cmem c) (rx_ring_phys e) i k n"
    and "\<And>i n. i < NUM_RX_DESC \<Longrightarrow> n \<le> 4096 \<Longrightarrow> mem_get (cmem c') (rx_page hh e i) n = mem_get (cmem c) (rx_page hh e i) n"
  shows "rx_rings hh e cur t c' U"
  using assms(1-4) by (auto simp: rx_rings_def rx_holds_def assms(5,6))

lemma transmit_eq:
  assumes "tx_rings e c (f # P)"
  shows "card_transmit c = c\<lparr>sent := sent c @ [f], cmem := mem_put (cmem c) (tx_ring_phys e + of_nat (16 * tx_head c + 12)) [1],
    tx_head := (tx_head c + 1) mod NUM_TX_DESC\<rparr>"
proof -
  have "tx_holds e (cmem c) (tx_head c) f" and b: "tx_base c = tx_ring_phys e" and "tx_head c < NUM_TX_DESC"
    using assms by (auto simp: tx_rings_def)
  then show ?thesis by (simp add: card_transmit_def tx_holds_def Let_def)
qed

lemma transmit_rings:
  assumes "layout ram hh e" "tx_rings e c (f # P)"
  shows "tx_rings e (card_transmit c) P"
proof -
  let ?h = "tx_head c" and ?r = "tx_ring_phys e"
  define m where "m = mem_put (cmem c) (?r + of_nat (16 * ?h + 12)) [1]"
  have h: "?h < 8" and l: "length P < 7" and r: "page ?r" using assms layout_page(1) by (auto simp: tx_rings_def)
  have s: "slot m ?r i k n = slot (cmem c) ?r i k n" if "i < 8" "i \<noteq> ?h" "k + n \<le> 16" for i k n
    unfolding m_def using that h r by (intro slot_put_other) auto
  have g: "mem_get m (tx_buffers_phys e ! i) n = mem_get (cmem c) (tx_buffers_phys e ! i) n" if "i < 8" "n \<le> 4096" for i n
    unfolding m_def using that h r layout_page(4) [OF assms(1), of i] by (intro page_put_slot) auto
  have d: "slot m ?r ?h 12 1 = [1]" unfolding m_def using slot_put_same [of ?r ?h 12 "[1]"] h r by simp
  have n: "(?h + Suc k) mod 8 \<noteq> ?h" if "k < 7" for k using ring_inj [of "Suc k" 8 0 ?h] h that by simp
  have "tx_holds e m ((?h + Suc k) mod 8) (P ! k)" if "k < length P" for k
    using assms(2) n [of k] l that by (auto simp: tx_rings_def tx_holds_def s g dest!: spec [of _ "Suc k"])
  moreover have "slot m ?r ((?h + Suc k) mod 8) 12 1 = [1]" if "k < 8" "length P < k" for k
  proof (cases "k = 7")
    case True
    then show ?thesis using h d by simp
  next
    case False
    then show ?thesis using assms(2) n [of k] that by (auto simp: tx_rings_def s dest!: spec [of _ "Suc k"])
  qed
  moreover have "((?h + 1) mod 8 + k) mod 8 = (?h + Suc k) mod 8" for k by (simp add: mod_add_left_eq)
  moreover have "card_transmit c = c\<lparr>sent := sent c @ [f], cmem := m, tx_head := (?h + 1) mod 8\<rparr>"
    unfolding m_def by (rule transmit_eq [OF assms(2)])
  ultimately show ?thesis using assms(2) l by (simp add: tx_rings_def)
qed

lemma accept_eq:
  assumes "rx_rings hh e cur t c U" "m1 = mem_put (cmem c) (rx_page hh e (rx_head c)) f"
    and "layout ram hh e" "length f \<le> 2048"
  shows "card_accept f c = c\<lparr>got := got c @ [f],
    cmem := mem_put (mem_put m1 (rx_ring_phys e + of_nat (16 * rx_head c + 8)) (bytes16 (of_nat (length f))))
        (rx_ring_phys e + of_nat (16 * rx_head c + 12)) [3], rx_head := (rx_head c + 1) mod NUM_RX_DESC\<rparr>"
proof -
  have "slot (cmem c) (rx_ring_phys e) (rx_head c) 0 8 = bytes64 (rx_page hh e (rx_head c))" and "rx_base c = rx_ring_phys e"
    using assms by (auto simp: rx_rings_def)
  then show ?thesis by (simp add: card_accept_def Let_def assms(2))
qed

lemma accept_rings:
  assumes "layout ram hh e" "rx_rings hh e cur t c U" "rx_head c \<noteq> rx_tail c" "0 < length f" "length f \<le> 2048"
  shows "rx_rings hh e cur t (card_accept f c) (U @ [f])"
proof -
  let ?h = "rx_head c" and ?r = "rx_ring_phys e" and ?g = "rx_page hh e"
  define m1 where "m1 = mem_put (cmem c) (?g ?h) f"
  define m2 where "m2 = mem_put m1 (?r + of_nat (16 * ?h + 8)) (bytes16 (of_nat (length f)))"
  define m where "m = mem_put m2 (?r + of_nat (16 * ?h + 12)) [3]"
  have h: "?h < 16" and l: "length U < t" and t: "t < 16" and r: "page ?r"
    using assms layout_page(2) by (auto simp: rx_rings_def le_less)
  have g: "page (?g i) \<and> ?g i \<noteq> ?r" if "i < 16" for i using that layout_page(5) [OF assms(1)] by auto
  have s1: "slot m1 ?r i k n = slot (cmem c) ?r i k n" if "i < 16" "k + n \<le> 16" for i k n
    unfolding m1_def using that g [OF h] r assms(5) by (intro slot_put_page) auto
  have s: "slot m ?r i k n = slot (cmem c) ?r i k n" if "i < 16" "k + n \<le> 16" "i \<noteq> ?h \<or> k + n \<le> 8" for i k n
  proof -
    have "slot m ?r i k n = slot m2 ?r i k n" unfolding m_def using that h r by (intro slot_put_other) auto
    also have "\<dots> = slot m1 ?r i k n" unfolding m2_def using that h r by (intro slot_put_other) auto
    finally show ?thesis using s1 that by simp
  qed
  have b2: "mem_get m (?g i) n = mem_get m1 (?g i) n" if "i < 16" "n \<le> 4096" for i n
  proof -
    have "mem_get m (?g i) n = mem_get m2 (?g i) n" unfolding m_def using that h r g [of i] by (intro page_put_slot) auto
    also have "\<dots> = mem_get m1 (?g i) n" unfolding m2_def using that h r g [of i] by (intro page_put_slot) auto
    finally show ?thesis .
  qed
  have b: "mem_get m (?g i) n = mem_get (cmem c) (?g i) n" if "i < 16" "i \<noteq> ?h" "n \<le> 4096" for i n
  proof -
    have "mem_get m1 (?g i) n = mem_get (cmem c) (?g i) n" unfolding m1_def
      using that h assms(5) g [of i] g [of ?h] layout_page(8) [OF assms(1), of ?h i] by (subst page_put_page) auto
    then show ?thesis using b2 that by simp
  qed
  have new: "rx_holds hh e m ?h f"
  proof -
    have "mem_get m1 (?g ?h) (length f) = f" unfolding m1_def using g [OF h] assms(5) by (subst page_put_page) auto
    moreover have "slot m2 ?r ?h 8 2 = bytes16 (of_nat (length f))"
      unfolding m2_def using slot_put_same [of ?r ?h 8 "bytes16 (of_nat (length f))" m1] h r by simp
    moreover have "slot m ?r ?h 8 2 = slot m2 ?r ?h 8 2" unfolding m_def using h r by (intro slot_put_other) auto
    moreover have "slot m ?r ?h 12 1 = [3]" unfolding m_def using slot_put_same [of ?r ?h 12 "[3]"] h r by simp
    ultimately show ?thesis using assms(4,5) b2 [OF h, of "length f"] by (simp add: rx_holds_def)
  qed
  have hu: "?h = (cur + length U) mod 16" using assms(2) by (simp add: rx_rings_def)
  have n: "(cur + k) mod 16 \<noteq> ?h" if "k < 16" "k \<noteq> length U" for k
    using that l t ring_inj [of k 16 "length U" cur] by (simp add: hu)
  have eq: "card_accept f c = c\<lparr>got := got c @ [f], cmem := m, rx_head := (?h + 1) mod 16\<rparr>"
    unfolding m_def m2_def using accept_eq [OF assms(2) m1_def assms(1,5)] .
  have f: "rx_holds hh e m ((cur + k) mod 16) ((U @ [f]) ! k)" if "k < length (U @ [f])" for k
  proof (cases "k = length U")
    case True
    then show ?thesis using new by (simp add: hu)
  next
    case False
    then have k: "k < length U" "k < 16" using that l t by auto
    then have "rx_holds hh e (cmem c) ((cur + k) mod 16) (U ! k)" using assms(2) by (simp add: rx_rings_def)
    then show ?thesis using k n [of k] by (simp add: nth_append rx_holds_def s b)
  qed
  have z: "slot m ?r ((cur + k) mod 16) 12 1 = [0]" if "k < 16" "length (U @ [f]) \<le> k" for k
    using assms(2) that n [of k] by (simp add: rx_rings_def s)
  have a: "slot m ?r i 0 8 = bytes64 (?g i)" if "i < 16" for i using assms(2) that by (simp add: rx_rings_def s)
  show ?thesis using assms(2) l t f z a unfolding eq rx_rings_def by (simp add: hu mod_Suc_eq)
qed

section \<open>What the card does in between\<close>

text \<open>
  From \<open>c\<close>, with the frames \<open>P\<close> to send and \<open>U\<close> to read, the card has got to \<open>c'\<close>: it has sent some of \<open>P\<close>, in order,
  and accepted \<open>V\<close>, and the driver's slot is as it was.
\<close>

definition card_did :: "u64 \<Rightarrow> e1000 \<Rightarrow> nat \<Rightarrow> nat \<Rightarrow> card \<Rightarrow> u8 list list \<Rightarrow> u8 list list \<Rightarrow> card \<Rightarrow> u8 list list \<Rightarrow> u8 list list \<Rightarrow> bool" where
  "card_did hh e cur t c P U c' P' V \<longleftrightarrow> tx_rings e c' P' \<and> rx_rings hh e cur t c' (U @ V) \<and>
     sent c' @ P' = sent c @ P \<and> got c' = got c @ V \<and> length P' \<le> length P \<and>
     own_slot e c' = own_slot e c \<and> (\<forall>n\<le>4096. own_buffer e n c' = own_buffer e n c)"

lemma card_did_refl: "tx_rings e c P \<Longrightarrow> rx_rings hh e cur t c U \<Longrightarrow> card_did hh e cur t c P U c P []"
  by (simp add: card_did_def)

lemma card_did_trans:
  "card_did hh e cur t c P U c' P' V \<Longrightarrow> card_did hh e cur t c' P' (U @ V) c'' P'' V' \<Longrightarrow> card_did hh e cur t c P U c'' P'' (V @ V')"
  by (auto simp: card_did_def)

lemma transmit_did:
  assumes "layout ram hh e" "tx_rings e c P" "rx_rings hh e cur t c U" "tx_head c \<noteq> tx_tail c"
  shows "\<exists>P'. card_did hh e cur t c P U (card_transmit c) P' []"
proof -
  have P: "tx_tail c = (tx_head c + length P) mod 8" "tx_head c < 8" "length P < 8" "tx_tail c = tx_cur e" using assms(2) by (auto simp: tx_rings_def)
  then obtain f P' where f: "P = f # P'" using assms(4) by (cases P) auto
  let ?m = "mem_put (cmem c) (tx_ring_phys e + of_nat (16 * tx_head c + 12)) [1]"
  have eq: "card_transmit c = c\<lparr>sent := sent c @ [f], cmem := ?m, tx_head := (tx_head c + 1) mod NUM_TX_DESC\<rparr>"
    using transmit_eq assms(2) f by blast
  have r: "page (tx_ring_phys e)" "tx_head c < 16" using layout_page(1) assms(1) P by auto
  have "rx_rings hh e cur t (card_transmit c) U"
  proof (rule rx_keep [OF assms(3)])
    fix i k n :: nat assume i: "i < NUM_RX_DESC"
    show "slot (cmem (card_transmit c)) (rx_ring_phys e) i k n = slot (cmem c) (rx_ring_phys e) i k n" if "k + n \<le> 16"
      unfolding eq using that i r layout_page(2,3) [OF assms(1)] by (simp add: slot_put_other del: of_nat_add of_nat_mult)
    show "mem_get (cmem (card_transmit c)) (rx_page hh e i) n = mem_get (cmem c) (rx_page hh e i) n" if "n \<le> 4096"
      unfolding eq using that i r layout_page(5) [OF assms(1), of i] by (auto simp: page_put_slot simp del: of_nat_add of_nat_mult)
  qed (auto simp: eq)
  moreover have "own_slot e (card_transmit c) = own_slot e c"
    unfolding eq own_slot_def using r P assms(4) by (simp add: slot_put_other del: of_nat_add of_nat_mult)
  moreover have "own_buffer e n (card_transmit c) = own_buffer e n c" if "n \<le> 4096" for n
    unfolding eq own_buffer_def using r that layout_page(4) [OF assms(1), of "tx_cur e"] tx_cur_less [OF assms(2)]
    by (auto simp: page_put_slot simp del: of_nat_add of_nat_mult)
  moreover have "tx_rings e (card_transmit c) P'" using transmit_rings [OF assms(1)] assms(2) f by blast
  moreover have "sent (card_transmit c) = sent c @ [f]" "got (card_transmit c) = got c" by (simp_all add: eq)
  ultimately have "card_did hh e cur t c P U (card_transmit c) P' []" by (simp add: card_did_def f)
  then show ?thesis by blast
qed

lemma accept_did:
  assumes "layout ram hh e" "tx_rings e c P" "rx_rings hh e cur t c U" "rx_head c \<noteq> rx_tail c" "0 < length f" "length f \<le> 2048"
  shows "card_did hh e cur t c P U (card_accept f c) P [f]"
proof -
  let ?h = "rx_head c" and ?r = "rx_ring_phys e"
  define m1 where "m1 = mem_put (cmem c) (rx_page hh e ?h) f"
  define m2 where "m2 = mem_put m1 (?r + of_nat (16 * ?h + 8)) (bytes16 (of_nat (length f)))"
  define m where "m = mem_put m2 (?r + of_nat (16 * ?h + 12)) [3]"
  have eq: "card_accept f c = c\<lparr>got := got c @ [f], cmem := m, rx_head := (?h + 1) mod NUM_RX_DESC\<rparr>"
    unfolding m_def m2_def using accept_eq [OF assms(3) m1_def assms(1,6)] .
  have h: "?h < 16" and r: "page ?r" using assms layout_page(2) by (auto simp: rx_rings_def)
  have g: "page (rx_page hh e ?h)" "rx_page hh e ?h \<noteq> tx_ring_phys e" using layout_page(5) [OF assms(1), of ?h] h by auto
  have s: "slot m (tx_ring_phys e) i k n = slot (cmem c) (tx_ring_phys e) i k n" if "i < 8" "k + n \<le> 16" for i k n
  proof -
    have "slot m (tx_ring_phys e) i k n = slot m2 (tx_ring_phys e) i k n"
      unfolding m_def using that h r layout_page(1,3) [OF assms(1)] by (intro slot_put_other) auto
    also have "\<dots> = slot m1 (tx_ring_phys e) i k n"
      unfolding m2_def using that h r layout_page(1,3) [OF assms(1)] by (intro slot_put_other) auto
    also have "\<dots> = slot (cmem c) (tx_ring_phys e) i k n"
      unfolding m1_def using that g layout_page(1) [OF assms(1)] assms(6) by (intro slot_put_page) auto
    finally show ?thesis .
  qed
  have b: "mem_get m (tx_buffers_phys e ! i) n = mem_get (cmem c) (tx_buffers_phys e ! i) n" if "i < 8" "n \<le> 4096" for i n
  proof -
    note t = layout_page(4) [OF assms(1) that(1)]
    have "mem_get m (tx_buffers_phys e ! i) n = mem_get m2 (tx_buffers_phys e ! i) n"
      unfolding m_def using that h r t by (intro page_put_slot) auto
    also have "\<dots> = mem_get m1 (tx_buffers_phys e ! i) n"
      unfolding m2_def using that h r t by (intro page_put_slot) auto
    also have "\<dots> = mem_get (cmem c) (tx_buffers_phys e ! i) n"
      unfolding m1_def using that g t layout_page(6) [OF assms(1) that(1) h] assms(6) by (subst page_put_page) auto
    finally show ?thesis .
  qed
  have "tx_rings e (card_accept f c) P" using s b by (intro tx_keep [OF assms(2)]) (auto simp: eq)
  moreover have "own_slot e (card_accept f c) = own_slot e c" "\<forall>n\<le>4096. own_buffer e n (card_accept f c) = own_buffer e n c"
    using s b tx_cur_less [OF assms(2)] by (auto simp: eq own_slot_def own_buffer_def)
  ultimately show ?thesis using accept_rings [OF assms(1,3,4,5,6)] by (simp add: card_did_def eq)
qed

lemma step_did:
  assumes "layout ram hh e" "tx_rings e c P" "rx_rings hh e cur t c U" "card_step c c'"
  shows "\<exists>P' V. card_did hh e cur t c P U c' P' V"
  using assms(4) by cases (use transmit_did [OF assms(1-3)] accept_did [OF assms(1-3)] in blast)+

lemma steps_did:
  assumes "card_steps c c'" "layout ram hh e" "tx_rings e c P" "rx_rings hh e cur t c U"
  shows "\<exists>P' V. card_did hh e cur t c P U c' P' V"
  using assms(1)
proof (induction rule: rtranclp_induct)
  case base
  show ?case using card_did_refl assms(3,4) by blast
next
  case (step y z)
  then obtain P' V where y: "card_did hh e cur t c P U y P' V" by blast
  then obtain P'' V' where "card_did hh e cur t y P' (U @ V) z P'' V'"
    using step_did [OF assms(2) _ _ step.hyps(2)] by (metis card_did_def)
  then show ?case using card_did_trans [OF y] by blast
qed

text \<open>What the driver knows while it prepares a descriptor: \<open>W\<close> are the frames handed over, \<open>R\<close> the frames returned.\<close>

definition preparing :: "u64 \<Rightarrow> e1000 \<Rightarrow> u8 list list \<Rightarrow> u8 list list \<Rightarrow> nat \<Rightarrow> nat \<Rightarrow> u8 list \<Rightarrow> u8 list \<Rightarrow> card \<Rightarrow> bool" where
  "preparing hh e W R L n s v c \<longleftrightarrow> (\<exists>P U. tx_rings e c P \<and> rx_rings hh e (rx_cur e) 15 c U \<and>
     sent c @ P = W \<and> got c = R @ U \<and> length P \<le> L \<and> own_slot e c = s \<and> own_buffer e n c = v)"

lemma preparing_steps:
  assumes "preparing hh e W R L n s v c" "card_steps c c'" "layout ram hh e" "n \<le> 4096"
  shows "preparing hh e W R L n s v c'"
proof -
  obtain P U where c: "tx_rings e c P" "rx_rings hh e (rx_cur e) 15 c U" "sent c @ P = W" "got c = R @ U" "length P \<le> L"
    "own_slot e c = s" "own_buffer e n c = v" using assms(1) by (auto simp: preparing_def)
  obtain P' V where "card_did hh e (rx_cur e) 15 c P U c' P' V" using steps_did [OF assms(2,3) c(1,2)] by blast
  then have "tx_rings e c' P' \<and> rx_rings hh e (rx_cur e) 15 c' (U @ V) \<and>
     sent c' @ P' = W \<and> got c' = R @ U @ V \<and> length P' \<le> L \<and> own_slot e c' = s \<and> own_buffer e n c' = v"
    using c assms(4) by (auto simp: card_did_def)
  then show ?thesis unfolding preparing_def by blast
qed

lemma preparing_slot:
  assumes "preparing hh e W R L n s v c" "layout ram hh e" "n \<le> 4096" "k + length bs \<le> 16"
  shows "preparing hh e W R L n (take k s @ bs @ drop (k + length bs) s) v
    (c\<lparr>cmem := mem_put (cmem c) (tx_ring_phys e + of_nat (16 * tx_cur e + k)) bs\<rparr>)" (is "preparing _ _ _ _ _ _ _ _ ?c")
proof -
  obtain P U where c: "tx_rings e c P" "rx_rings hh e (rx_cur e) 15 c U" "sent c @ P = W" "got c = R @ U" "length P \<le> L"
    "own_slot e c = s" "own_buffer e n c = v" using assms(1) by (auto simp: preparing_def)
  note p = layout_page(1,2,3) [OF assms(2)] tx_cur_less [OF c(1)]
  note o = layout_page(4) [OF assms(2)] and g = layout_page(5) [OF assms(2)]
  note sym = layout_page_sym [OF assms(2)]
  have "tx_rings e ?c P" using p o sym assms(4)
    by (intro tx_keep [OF c(1)]) (auto simp: slot_put_other page_put_slot simp del: of_nat_add of_nat_mult)
  moreover have "rx_rings hh e (rx_cur e) 15 ?c U" using p g sym assms(4)
    by (intro rx_keep [OF c(2)]) (auto simp: slot_put_other page_put_slot simp del: of_nat_add of_nat_mult)
  moreover have "own_slot e ?c = take k s @ bs @ drop (k + length bs) s"
    using slot_put_in [OF p(1), of "tx_cur e" k bs "cmem c"] p(4) assms(4) c(6) by (simp add: own_slot_def)
  moreover have "own_buffer e n ?c = v" using c(7) p o [OF p(4)] sym(1) [OF p(4)] assms(3,4)
    by (auto simp: own_buffer_def page_put_slot simp del: of_nat_add of_nat_mult)
  ultimately have "tx_rings e ?c P \<and> rx_rings hh e (rx_cur e) 15 ?c U \<and> sent ?c @ P = W \<and> got ?c = R @ U \<and> length P \<le> L \<and>
      own_slot e ?c = take k s @ bs @ drop (k + length bs) s \<and> own_buffer e n ?c = v" using c by simp
  then show ?thesis unfolding preparing_def by blast
qed

lemma preparing_buffer:
  assumes "preparing hh e W R L (length f) s v c" "layout ram hh e" "length f \<le> 4096"
  shows "preparing hh e W R L (length f) s f (c\<lparr>cmem := mem_put (cmem c) (tx_buffers_phys e ! tx_cur e) f\<rparr>)"
    (is "preparing _ _ _ _ _ _ _ _ ?c")
proof -
  obtain P U where c: "tx_rings e c P" "rx_rings hh e (rx_cur e) 15 c U" "sent c @ P = W" "got c = R @ U" "length P \<le> L"
    "own_slot e c = s" using assms(1) by (auto simp: preparing_def)
  note p = layout_page(1,2,3) [OF assms(2)] tx_cur_less [OF c(1)]
  note o = layout_page(4) [OF assms(2)] and o' = layout_page(7) [OF assms(2)] and g = layout_page(5,6) [OF assms(2)]
  note sym = layout_page_sym [OF assms(2)]
  have "tx_rings e ?c P"
    using p o [OF p(4)] o sym o' [OF p(4)] assms(3)
    by (intro tx_keep [OF c(1)]) (auto simp: slot_put_page page_put_page)
  moreover have "rx_rings hh e (rx_cur e) 15 ?c U" using p o [OF p(4)] g(1) g(2) [OF p(4)] sym(1) [OF p(4)] sym(3) [OF p(4)] assms(3)
    by (intro rx_keep [OF c(2)]) (auto simp: slot_put_page page_put_page)
  moreover have "own_slot e ?c = s" using p o [OF p(4)] sym(1) [OF p(4)] assms(3) c(6) by (simp add: own_slot_def slot_put_page)
  moreover have "own_buffer e (length f) ?c = f" using p o [OF p(4)] assms(3)
    by (simp add: own_buffer_def page_put_page)
  ultimately have "tx_rings e ?c P \<and> rx_rings hh e (rx_cur e) 15 ?c U \<and> sent ?c @ P = W \<and> got ?c = R @ U \<and> length P \<le> L \<and>
      own_slot e ?c = s \<and> own_buffer e (length f) ?c = f" using c by simp
  then show ?thesis unfolding preparing_def by blast
qed

text \<open>A frame handed over is described by the driver's slot; the tail makes it the card's.\<close>

lemma preparing_done:
  assumes p: "preparing hh e W R L (length f) s f c" and s: "s = bytes64 (tx_buffers_phys e ! tx_cur e) @
      bytes16 (of_nat (length f)) @ [0, TXD_CMD_EOP OR TXD_CMD_IFCS OR TXD_CMD_RS, 0, 0] @ r"
    and l: "length f \<le> ETH_FRAME_MAX" and L: "L \<le> 6" and e': "e' = e\<lparr>tx_cur := (tx_cur e + 1) mod NUM_TX_DESC\<rparr>"
    and c': "c' = c\<lparr>tx_tail := (tx_cur e + 1) mod NUM_TX_DESC\<rparr>"
  shows "\<exists>P U. tx_rings e' c' P \<and> rx_rings hh e' (rx_cur e') 15 c' U \<and> sent c' @ P = W @ [f] \<and> got c' = R @ U \<and>
    length P \<le> L + 1 \<and> slot (cmem c') (tx_ring_phys e') (tx_cur e') 12 1 = [TXD_STAT_DD]"
proof -
  obtain P U where c: "tx_rings e c P" "rx_rings hh e (rx_cur e) 15 c U" "sent c @ P = W" "got c = R @ U" "length P \<le> L"
    "own_slot e c = s" "own_buffer e (length f) c = f" using p by (auto simp: preparing_def)
  have cur: "tx_cur e = (tx_head c + length P) mod 8" and h: "tx_head c < 8" using c(1) by (auto simp: tx_rings_def)
  have part: "slot (cmem c) (tx_ring_phys e) (tx_cur e) k n = take n (drop k s)" if "k + n \<le> 16" for k n
    using slot_part [of k n 16 "cmem c" "tx_ring_phys e" "tx_cur e" 0] that c(6) by (simp add: own_slot_def)
  have f: "tx_holds e (cmem c) (tx_cur e) f"
    using l c(7) by (simp add: tx_holds_def part s own_buffer_def bytes16_def)
  have P: "tx_holds e (cmem c) ((tx_head c + k) mod 8) ((P @ [f]) ! k)" if "k < length (P @ [f])" for k
  proof (cases "k = length P")
    case False
    then have "k < length P" using that by simp
    then show ?thesis using c(1) by (simp add: tx_rings_def nth_append)
  qed (use f cur in simp)
  have z: "slot (cmem c) (tx_ring_phys e) ((tx_head c + k) mod 8) 12 1 = [1]" if "k < 8" "length P < k" for k
    using c(1) that by (simp add: tx_rings_def)
  have n: "(tx_cur e + 1) mod 8 = (tx_head c + Suc (length P)) mod 8" using cur by (simp add: mod_Suc_eq)
  have "tx_rings e' c' (P @ [f])"
    using c(1,5) L P z n by (auto simp: tx_rings_def tx_holds_def e' c')
  moreover have "rx_rings hh e' (rx_cur e') 15 c' U" using c(2) by (simp add: e' c' rx_rings_def rx_holds_def rx_page_def)
  moreover have "slot (cmem c') (tx_ring_phys e') (tx_cur e') 12 1 = [1]" using n z [of "Suc (length P)"] c(5) L by (simp add: e' c')
  ultimately have "tx_rings e' c' (P @ [f]) \<and> rx_rings hh e' (rx_cur e') 15 c' U \<and> sent c' @ P @ [f] = W @ [f] \<and> got c' = R @ U \<and>
    length (P @ [f]) \<le> L + 1 \<and> slot (cmem c') (tx_ring_phys e') (tx_cur e') 12 1 = [TXD_STAT_DD]"
    using c by (simp add: c')
  then show ?thesis by blast
qed

text \<open>
  The driver and the card: \<open>W\<close> are the frames handed over, \<open>R\<close> the frames returned and \<open>L\<close> bounds how many are still to be sent.
\<close>

definition e1000_queues :: "nat \<Rightarrow> u64 \<Rightarrow> e1000 \<Rightarrow> card \<Rightarrow> u8 list list \<Rightarrow> u8 list list \<Rightarrow> nat \<Rightarrow> bool" where
  "e1000_queues ram hh e c W R L \<longleftrightarrow> layout ram hh e \<and> (\<exists>P U. tx_rings e c P \<and> rx_rings hh e (rx_cur e) 15 c U \<and>
     sent c @ P = W \<and> got c = R @ U \<and> length P \<le> L) \<and> slot (cmem c) (tx_ring_phys e) (tx_cur e) 12 1 = [TXD_STAT_DD]"

lemma layout_cur [simp]:
  "layout ram hh (e\<lparr>tx_cur := x\<rparr>) = layout ram hh e" "layout ram hh (e\<lparr>rx_cur := x\<rparr>) = layout ram hh e"
  by (simp_all add: layout_def e1000_pages_def rx_page_def cong: map_cong)

lemma queues_preparing:
  assumes "e1000_queues ram hh e c W R L"
  shows "layout ram hh e" "preparing hh e W R L n (own_slot e c) (own_buffer e n c) c" "own_slot e c ! 12 = TXD_STAT_DD"
proof -
  show "layout ram hh e" "preparing hh e W R L n (own_slot e c) (own_buffer e n c) c"
    using assms by (auto simp: e1000_queues_def preparing_def)
  have "take 1 (drop 12 (own_slot e c)) = [1]"
    using assms slot_part [of 12 1 16 "cmem c" "tx_ring_phys e" "tx_cur e" 0] by (simp add: e1000_queues_def own_slot_def)
  then have "take 1 (drop 12 (own_slot e c)) ! 0 = 1" by simp
  then show "own_slot e c ! 12 = TXD_STAT_DD" by (simp add: own_slot_def)
qed

text \<open>The driver gives the first full slot back in two stores: its status, then the tail.\<close>

lemma rx_release:
  assumes "layout ram hh e" "rx_rings hh e cur 15 c (f # U)"
  shows "rx_rings hh e ((cur + 1) mod NUM_RX_DESC) 14 (c\<lparr>cmem := mem_put (cmem c) (rx_ring_phys e + of_nat (16 * cur + 12)) [0]\<rparr>) U"
proof -
  let ?r = "rx_ring_phys e"
  define m where "m = mem_put (cmem c) (?r + of_nat (16 * cur + 12)) [0]"
  have h: "cur < 16" and l: "length U < 15" and r: "page ?r" using assms layout_page(2) by (auto simp: rx_rings_def)
  have s: "slot m ?r i k n = slot (cmem c) ?r i k n" if "i < 16" "k + n \<le> 16" "i \<noteq> cur \<or> k + n \<le> 12" for i k n
    unfolding m_def using that h r by (intro slot_put_other) auto
  have g: "mem_get m (rx_page hh e i) n = mem_get (cmem c) (rx_page hh e i) n" if "i < 16" "n \<le> 4096" for i n
    unfolding m_def using that h r layout_page(5) [OF assms(1), of i] layout_page_sym(2) [OF assms(1), of i]
    by (intro page_put_slot) auto
  have n: "(cur + Suc k) mod 16 \<noteq> cur" if "k < 15" for k using ring_inj [of "Suc k" 16 0 cur] h that by simp
  have "rx_holds hh e m ((cur + Suc k) mod 16) (U ! k)" if "k < length U" for k
  proof -
    have "rx_holds hh e (cmem c) ((cur + Suc k) mod 16) ((f # U) ! Suc k)"
      using assms(2) that unfolding rx_rings_def by (metis Suc_less_eq length_Cons)
    then show ?thesis using n [of k] l that by (simp add: rx_holds_def s g)
  qed
  moreover have "slot m ?r ((cur + Suc k) mod 16) 12 1 = [0]" if "k < 16" "length U \<le> k" for k
  proof (cases "k = 15")
    case True
    then show ?thesis using h slot_put_same [of ?r cur 12 "[0]" "cmem c"] r by (simp add: m_def)
  next
    case False
    have "\<forall>j<16. length (f # U) \<le> j \<longrightarrow> slot (cmem c) ?r ((cur + j) mod 16) 12 1 = [0]"
      using assms(2) by (simp add: rx_rings_def)
    then have "slot (cmem c) ?r ((cur + Suc k) mod 16) 12 1 = [0]" using that False by (auto dest!: spec [of _ "Suc k"])
    then show ?thesis using n [of k] that False by (simp add: s)
  qed
  moreover have "slot m ?r i 0 8 = bytes64 (rx_page hh e i)" if "i < 16" for i using assms(2) that by (simp add: rx_rings_def s)
  moreover have "((cur + 1) mod 16 + k) mod 16 = (cur + Suc k) mod 16" for k by (simp add: mod_add_left_eq)
  ultimately have "rx_rings hh e ((cur + 1) mod NUM_RX_DESC) 14 (c\<lparr>cmem := m\<rparr>) U"
    using assms(2) l by (simp add: rx_rings_def mod_Suc_eq add.commute [of cur 15])
  then show ?thesis by (simp add: m_def)
qed

lemma rx_return:
  assumes "rx_rings hh e ((cur + 1) mod NUM_RX_DESC) 14 c U" "cur < NUM_RX_DESC"
  shows "rx_rings hh e ((cur + 1) mod NUM_RX_DESC) 15 (c\<lparr>rx_tail := cur\<rparr>) U"
proof -
  have "((cur + 1) mod 16 + 15) mod 16 = cur" using assms(2) by presburger
  then show ?thesis using assms(1) unfolding rx_rings_def rx_holds_def by auto
qed

text \<open>What the driver knows while it reads: the frames \<open>F\<close>, none or one, are in its next slots.\<close>

definition reading :: "u64 \<Rightarrow> e1000 \<Rightarrow> nat \<Rightarrow> nat \<Rightarrow> u8 list list \<Rightarrow> u8 list list \<Rightarrow> nat \<Rightarrow> u8 list \<Rightarrow> u8 list list \<Rightarrow> card \<Rightarrow> bool" where
  "reading hh e cur t W R L s F c \<longleftrightarrow> (\<exists>P U. tx_rings e c P \<and> rx_rings hh e cur t c (F @ U) \<and>
     sent c @ P = W \<and> got c = R @ F @ U \<and> length P \<le> L \<and> own_slot e c = s)"

lemma reading_steps:
  assumes "reading hh e cur t W R L s F c" "card_steps c c'" "layout ram hh e"
  shows "reading hh e cur t W R L s F c'"
proof -
  obtain P U where c: "tx_rings e c P" "rx_rings hh e cur t c (F @ U)" "sent c @ P = W" "got c = R @ F @ U" "length P \<le> L"
    "own_slot e c = s" using assms(1) by (auto simp: reading_def)
  obtain P' V where "card_did hh e cur t c P (F @ U) c' P' V" using steps_did [OF assms(2,3) c(1,2)] by blast
  then have "tx_rings e c' P' \<and> rx_rings hh e cur t c' (F @ U @ V) \<and> sent c' @ P' = W \<and> got c' = R @ F @ U @ V \<and>
      length P' \<le> L \<and> own_slot e c' = s"
    using c by (auto simp: card_did_def)
  then show ?thesis unfolding reading_def by blast
qed

lemma reading_first:
  assumes "reading hh e cur t W R L s [f] c"
  shows "rx_holds hh e (cmem c) cur f"
  using assms by (auto simp: reading_def rx_rings_def)

lemma reading_status:
  assumes "reading hh e cur t W R L s [] c"
  shows "slot (cmem c) (rx_ring_phys e) cur 12 1 = [0] \<and> got c = R \<or> (\<exists>f. reading hh e cur t W R L s [f] c)"
proof -
  obtain P U where c: "tx_rings e c P" "rx_rings hh e cur t c U" "sent c @ P = W" "got c = R @ U" "length P \<le> L"
    "own_slot e c = s" using assms by (auto simp: reading_def)
  show ?thesis
  proof (cases U)
    case Nil
    have "cur < 16" "\<forall>k<16. length U \<le> k \<longrightarrow> slot (cmem c) (rx_ring_phys e) ((cur + k) mod 16) 12 1 = [0]"
      using c(2) by (simp_all add: rx_rings_def)
    then have "slot (cmem c) (rx_ring_phys e) cur 12 1 = [0]" using Nil by (auto dest: spec [of _ 0])
    then show ?thesis using c(4) Nil by simp
  next
    case (Cons f U')
    then show ?thesis using c by (auto simp: reading_def)
  qed
qed

lemma reading_release:
  assumes "reading hh e cur 15 W R L s [f] c" "layout ram hh e"
  shows "reading hh e ((cur + 1) mod NUM_RX_DESC) 14 W (R @ [f]) L s []
    (c\<lparr>cmem := mem_put (cmem c) (rx_ring_phys e + of_nat (16 * cur + 12)) [0]\<rparr>)" (is "reading _ _ _ _ _ _ _ _ _ ?c")
proof -
  obtain P U where c: "tx_rings e c P" "rx_rings hh e cur 15 c (f # U)" "sent c @ P = W" "got c = R @ f # U" "length P \<le> L"
    "own_slot e c = s" using assms(1) by (auto simp: reading_def)
  note p = layout_page(1,2,3) [OF assms(2)] tx_cur_less [OF c(1)] layout_page(4) [OF assms(2)] layout_page_sym(1) [OF assms(2)]
  have "cur < 16" using c(2) by (simp add: rx_rings_def)
  with p have "tx_rings e ?c P"
    by (intro tx_keep [OF c(1)]) (auto simp: slot_put_other page_put_slot simp del: of_nat_add of_nat_mult)
  moreover have "own_slot e ?c = s"
    using p(1-4) c(6) \<open>cur < 16\<close> by (simp add: own_slot_def slot_put_other del: of_nat_add of_nat_mult)
  ultimately have "tx_rings e ?c P \<and> rx_rings hh e ((cur + 1) mod NUM_RX_DESC) 14 ?c ([] @ U) \<and>
      sent ?c @ P = W \<and> got ?c = (R @ [f]) @ [] @ U \<and> length P \<le> L \<and> own_slot e ?c = s"
    using rx_release [OF assms(2) c(2)] c by simp
  then show ?thesis unfolding reading_def by blast
qed

lemma reading_return:
  assumes "reading hh e ((cur + 1) mod NUM_RX_DESC) 14 W R L s [] c" "cur < NUM_RX_DESC"
  shows "reading hh e ((cur + 1) mod NUM_RX_DESC) 15 W R L s [] (c\<lparr>rx_tail := cur\<rparr>)"
proof -
  obtain P U where c: "tx_rings e c P" "rx_rings hh e ((cur + 1) mod NUM_RX_DESC) 14 c U" "sent c @ P = W" "got c = R @ U" "length P \<le> L"
    "own_slot e c = s" using assms by (auto simp: reading_def)
  then have "tx_rings e (c\<lparr>rx_tail := cur\<rparr>) P \<and> rx_rings hh e ((cur + 1) mod NUM_RX_DESC) 15 (c\<lparr>rx_tail := cur\<rparr>) ([] @ U) \<and>
      sent (c\<lparr>rx_tail := cur\<rparr>) @ P = W \<and> got (c\<lparr>rx_tail := cur\<rparr>) = R @ [] @ U \<and> length P \<le> L \<and> own_slot e (c\<lparr>rx_tail := cur\<rparr>) = s"
    using rx_return [OF c(2) assms(2)] by (simp add: tx_rings_def own_slot_def)
  then show ?thesis unfolding reading_def by blast
qed

lemma queues_reading:
  "e1000_queues ram hh e c W R L \<longleftrightarrow> layout ram hh e \<and>
    (\<exists>s. take 1 (drop 12 s) = [TXD_STAT_DD] \<and> reading hh e (rx_cur e) 15 W R L s [] c)"
  using slot_part [of 12 1 16 "cmem c" "tx_ring_phys e" "tx_cur e" 0] by (auto simp: e1000_queues_def reading_def own_slot_def)

lemma reading_update [simp]: "reading hh (e\<lparr>rx_cur := x\<rparr>) cur t W R L s F c = reading hh e cur t W R L s F c"
  by (simp add: reading_def tx_rings_def tx_holds_def rx_rings_def rx_holds_def rx_page_def own_slot_def)

text \<open>A full ring looks empty to the card.\<close>

lemma steps_empty: "card_steps c c' \<Longrightarrow> tx_head c = tx_tail c \<Longrightarrow> sent c' = sent c \<and> tx_head c' = tx_tail c'"
proof (induction rule: rtranclp_induct)
  case (step y z)
  from step.hyps(2) show ?case by cases (use step in \<open>auto simp: card_accept_def Let_def\<close>)
qed simp

lemma steps_sent: "card_steps c c' \<Longrightarrow> length (sent c) \<le> length (sent c')"
proof (induction rule: rtranclp_induct)
  case (step y z)
  from step.hyps(2) show ?case by cases (use step in \<open>auto simp: card_accept_def card_transmit_def Let_def\<close>)
qed simp

lemma steps_got: "card_steps c c' \<Longrightarrow> length (got c) \<le> length (got c')"
proof (induction rule: rtranclp_induct)
  case (step y z)
  from step.hyps(2) show ?case by cases (use step in \<open>auto simp: card_accept_def card_transmit_def Let_def\<close>)
qed simp

section \<open>The interface\<close>

text \<open>
  An access to memory through the direct map, or to a tail register, happens at one moment; the card may
  work before and after it.
\<close>

locale e1000_card =
  fixes b :: "'d bus" and view :: "'d \<Rightarrow> card" and hh :: u64 and ram :: nat
  assumes load_law: "bus_load b (a + hh) n d = (bs, d') \<Longrightarrow> unat a + n \<le> ram \<Longrightarrow>
      \<exists>c. card_steps (view d) c \<and> bs = mem_get (cmem c) a n \<and> card_steps c (view d')"
    and store_law: "unat a + length bs \<le> ram \<Longrightarrow>
      \<exists>c. card_steps (view d) c \<and> card_steps (c\<lparr>cmem := mem_put (cmem c) a bs\<rparr>) (view (bus_store b (a + hh) bs d))"
    and tx_tail_law: "\<exists>c. card_steps (view d) c \<and>
      card_steps (c\<lparr>tx_tail := unat v\<rparr>) (view (bus_store b (E1000_MMIO_VIRT + ucast REG_TDT) (bytes32 v) d))"
    and rx_tail_law: "\<exists>c. card_steps (view d) c \<and>
      card_steps (c\<lparr>rx_tail := unat v\<rparr>) (view (bus_store b (E1000_MMIO_VIRT + ucast REG_RDT) (bytes32 v) d))"
begin

definition own :: "e1000 \<Rightarrow> u8 list list \<Rightarrow> u8 list list \<Rightarrow> nat \<Rightarrow> nat \<Rightarrow> u8 list \<Rightarrow> u8 list \<Rightarrow> 'd \<Rightarrow> bool" where
  "own e W R L n s v d \<longleftrightarrow> layout ram hh e \<and> n \<le> 4096 \<and> preparing hh e W R L n s v (view d)"

lemma slot_address:
  assumes "layout ram hh e" "i < 16" "k + n \<le> 16"
  shows "tx_ring e + 16 * of_nat i + of_nat k = tx_ring_phys e + of_nat (16 * i + k) + hh"
    "rx_ring e + 16 * of_nat i + of_nat k = rx_ring_phys e + of_nat (16 * i + k) + hh"
    "unat (tx_ring_phys e + of_nat (16 * i + k)) + n \<le> ram" "unat (rx_ring_phys e + of_nat (16 * i + k)) + n \<le> ram"
proof -
  show "tx_ring e + 16 * of_nat i + of_nat k = tx_ring_phys e + of_nat (16 * i + k) + hh"
    "rx_ring e + 16 * of_nat i + of_nat k = rx_ring_phys e + of_nat (16 * i + k) + hh"
    using assms by (simp_all add: layout_def)
  have "unat (tx_ring_phys e) + 4096 \<le> ram" "unat (rx_ring_phys e) + 4096 \<le> ram"
    using assms by (auto simp: layout_def e1000_pages_def)
  moreover have "unat (rx_ring_phys e + of_nat (16 * i + k)) = unat (rx_ring_phys e) + (16 * i + k)"
      "unat (tx_ring_phys e + of_nat (16 * i + k)) = unat (tx_ring_phys e) + (16 * i + k)" if "16 * i + k < 4096"
    using that layout_page(1,2) [OF assms(1)] unat_page_off by blast+
  moreover have "16 * i + k + n \<le> 4096" "16 * i + k < 4096" using assms(2,3) by linarith+
  ultimately show "unat (tx_ring_phys e + of_nat (16 * i + k)) + n \<le> ram" "unat (rx_ring_phys e + of_nat (16 * i + k)) + n \<le> ram"
    by linarith+
qed

lemma own_steps: "own e W R L n s v d \<Longrightarrow> card_steps (view d) c \<Longrightarrow> preparing hh e W R L n s v c"
  using preparing_steps by (auto simp: own_def)

lemma own_len: "own e W R L n s v d \<Longrightarrow> length s = 16 \<and> tx_cur e < 8"
  using tx_cur_less by (auto simp: own_def preparing_def own_slot_def)

lemma own_load:
  assumes "own e W R L n s v d" "bus_load b (tx_ring e + 16 * of_nat (tx_cur e) + of_nat k) m d = (bs, d')" "k + m \<le> 16"
  shows "own e W R L n s v d' \<and> bs = take m (drop k s)"
proof -
  have l: "layout ram hh e" "tx_cur e < 16" using assms(1) own_len [OF assms(1)] by (auto simp: own_def)
  note a = slot_address [OF l(1,2) assms(3)]
  obtain c where c: "card_steps (view d) c" "bs = slot (cmem c) (tx_ring_phys e) (tx_cur e) k m" "card_steps c (view d')"
    using load_law [of "tx_ring_phys e + of_nat (16 * tx_cur e + k)" m d bs d'] assms(2) a unfolding slot_def by metis
  then have "preparing hh e W R L n s v c" using own_steps assms(1) by blast
  then have "preparing hh e W R L n s v (view d')" using preparing_steps [OF _ c(3)] assms(1) unfolding own_def by blast
  moreover have "own_slot e c = s" using \<open>preparing hh e W R L n s v c\<close> by (auto simp: preparing_def)
  ultimately have "preparing hh e W R L n s v (view d')" "own_slot e c = s" .
  then show ?thesis using c(2) slot_part [of k m 16 "cmem c" "tx_ring_phys e" "tx_cur e" 0] assms(1,3)
    by (auto simp: own_def own_slot_def)
qed

lemma own_store:
  assumes "own e W R L n s v d" "k + length bs \<le> 16"
  shows "own e W R L n (take k s @ bs @ drop (k + length bs) s) v (bus_store b (tx_ring e + 16 * of_nat (tx_cur e) + of_nat k) bs d)"
proof -
  have l: "layout ram hh e" "tx_cur e < 16" "n \<le> 4096" using assms(1) own_len [OF assms(1)] by (auto simp: own_def)
  note a = slot_address [OF l(1,2) assms(2)]
  obtain c where c: "card_steps (view d) c" "card_steps (c\<lparr>cmem := mem_put (cmem c) (tx_ring_phys e + of_nat (16 * tx_cur e + k)) bs\<rparr>)
      (view (bus_store b (tx_ring e + 16 * of_nat (tx_cur e) + of_nat k) bs d))"
    using store_law [of "tx_ring_phys e + of_nat (16 * tx_cur e + k)" bs d] a by metis
  then have "preparing hh e W R L n s v c" using own_steps assms(1) by blast
  from preparing_steps [OF preparing_slot [OF this l(1,3) assms(2)] c(2) l(1,3)]
  show ?thesis using l by (simp add: own_def)
qed

lemma own_fill:
  assumes "own e W R L (length f) s v d"
  shows "own e W R L (length f) s f (bus_store b (tx_buffers e ! tx_cur e) f d)"
proof -
  have l: "layout ram hh e" "tx_cur e < 8" "length f \<le> 4096" using assms own_len [OF assms] by (auto simp: own_def)
  then have m: "tx_buffers_phys e ! tx_cur e \<in> set (e1000_pages hh e)" by (simp add: layout_def e1000_pages_def)
  have "tx_buffers e ! tx_cur e = tx_buffers_phys e ! tx_cur e + hh" using l by (simp add: layout_def)
  moreover have "unat (tx_buffers_phys e ! tx_cur e) + 4096 \<le> ram" using l(1) m by (simp add: layout_def)
  ultimately obtain c where c: "card_steps (view d) c" "card_steps (c\<lparr>cmem := mem_put (cmem c) (tx_buffers_phys e ! tx_cur e) f\<rparr>)
      (view (bus_store b (tx_buffers e ! tx_cur e) f d))"
    using store_law [of "tx_buffers_phys e ! tx_cur e" f d] l(3) by auto
  then have "preparing hh e W R L (length f) s v c" using own_steps assms by blast
  from preparing_steps [OF preparing_buffer [OF this l(1,3)] c(2) l(1,3)]
  show ?thesis using l by (simp add: own_def)
qed

lemma tx_wait_done:
  assumes "own e W R L n s v d" "s ! 12 = TXD_STAT_DD" "0 < m"
  shows "own e W R L n s v (tx_wait m b e d)"
proof -
  obtain bs d' where l: "bus_load b (tx_ring e + 16 * of_nat (tx_cur e) + 12) 1 d = (bs, d')" by (cases "bus_load b (tx_ring e + 16 * of_nat (tx_cur e) + 12) 1 d")
  then have "own e W R L n s v d' \<and> bs = take 1 (drop 12 s)" using own_load [OF assms(1), of 12 1 bs d'] by simp
  moreover have "take 1 (drop 12 s) ! 0 = s ! 12" using own_len [OF assms(1)] by simp
  ultimately show ?thesis using assms(2,3) l by (simp add: tx_wait.simps [of m])
qed

text \<open>A send with room in the ring fills the driver's slot and makes it the card's.\<close>

lemma send_prepares:
  assumes "e1000_queues ram hh e (view d) W R L" "0 < length f" "length f \<le> ETH_FRAME_MAX"
  shows "\<exists>d1 r. own e W R L (length f) (bytes64 (tx_buffers_phys e ! tx_cur e) @
      bytes16 (of_nat (length f)) @ [0, TXD_CMD_EOP OR TXD_CMD_IFCS OR TXD_CMD_RS, 0, 0] @ r) f d1 \<and>
    e1000_send b f (e, d) = (True, e\<lparr>tx_cur := (tx_cur e + 1) mod NUM_TX_DESC\<rparr>,
      bus_store b (E1000_MMIO_VIRT + ucast REG_TDT) (bytes32 (of_nat ((tx_cur e + 1) mod NUM_TX_DESC))) d1)"
proof -
  define s where "s = own_slot e (view d)"
  define D where "D = tx_ring e + 16 * of_nat (tx_cur e)"
  note q = queues_preparing [OF assms(1)]
  have o0: "own e W R L (length f) s (own_buffer e (length f) (view d)) d"
    using q assms(3) by (simp add: own_def s_def)
  have s: "s ! 12 = 1" "length s = 16" using q by (simp_all add: s_def own_slot_def)
  obtain st d1 where l: "bus_load b (D + 12) 1 (tx_wait E1000_SPINS b e d) = (st, d1)" by fastforce
  have o1: "own e W R L (length f) s (own_buffer e (length f) (view d)) d1" and st: "st ! 0 = 1"
    using own_load [OF tx_wait_done [OF o0 s(1), of E1000_SPINS], of 12 1 st d1] l s by (auto simp: D_def)
  obtain A B where AB: "A = bytes64 (tx_buffers_phys e ! tx_cur e)" "B = bytes16 (of_nat (length f) :: u16)" by blast
  then have len: "length A = 8" "length B = 2" by simp_all
  note store = own_store [unfolded D_def [symmetric]]
  note o2 = own_fill [OF o1]
  define d2 where "d2 = bus_store b (D + 8) B (bus_store b D A (bus_store b (tx_buffers e ! tx_cur e) f d1))"
  have "own e W R L (length f) (A @ drop 8 s) f (bus_store b D A (bus_store b (tx_buffers e ! tx_cur e) f d1))"
    using own_store [OF o2, of 0 A] len by (simp add: D_def)
  from own_store [OF this, of 8 B] have "own e W R L (length f) (A @ B @ drop 10 s) f d2"
    using len by (simp add: D_def d2_def)
  note o4 = this
  define d3 where "d3 = bus_store b (D + 12) [0] (bus_store b (D + 13) [0] (bus_store b (D + 10) [0] d2))"
  have "own e W R L (length f) (A @ B @ [0] @ drop 11 s) f (bus_store b (D + 10) [0] d2)"
    using own_store [OF o4, of 10 "[0]"] len s by (simp add: D_def)
  from own_store [OF this, of 13 "[0]"] have "own e W R L (length f) (A @ B @ [0] @ take 2 (drop 11 s) @ [0] @ drop 14 s) f
      (bus_store b (D + 13) [0] (bus_store b (D + 10) [0] d2))" using len s by (simp add: D_def)
  from own_store [OF this, of 12 "[0]"] have "own e W R L (length f) (A @ B @ [0] @ take 1 (drop 11 s) @ [0, 0] @ drop 14 s) f d3"
    using len s by (simp add: D_def d3_def)
  from own_store [OF this, of 11 "[TXD_CMD_EOP OR TXD_CMD_IFCS OR TXD_CMD_RS]"]
  have o8: "own e W R L (length f) (A @ B @ [0, TXD_CMD_EOP OR TXD_CMD_IFCS OR TXD_CMD_RS, 0, 0] @ drop 14 s) f
      (bus_store b (D + 11) [TXD_CMD_EOP OR TXD_CMD_IFCS OR TXD_CMD_RS] d3)"
    using len s by (simp add: D_def)
  have "card_present e" "mmio e = E1000_MMIO_VIRT" using q(1) by (auto simp: layout_def)
  then have "e1000_send b f (e, d) = (True, e\<lparr>tx_cur := (tx_cur e + 1) mod NUM_TX_DESC\<rparr>,
      bus_store b (E1000_MMIO_VIRT + ucast REG_TDT) (bytes32 (of_nat ((tx_cur e + 1) mod NUM_TX_DESC)))
       (bus_store b (D + 11) [TXD_CMD_EOP OR TXD_CMD_IFCS OR TXD_CMD_RS] d3))"
    using l st assms(2,3) by (simp add: e1000_send_def D_def [symmetric] mmio_write_def Let_def d3_def d2_def AB)
  then show ?thesis using o8 unfolding AB by blast
qed

lemma unat_tail: "unat (of_nat ((i + 1) mod NUM_TX_DESC) :: u32) = (i + 1) mod NUM_TX_DESC"
proof -
  obtain x where "x = (i + 1) mod 8" by blast
  moreover from this have "x < 8" by simp
  then have "unat (of_nat x :: u32) = x" by (simp add: unsigned_of_nat take_bit_nat_eq_self)
  ultimately show ?thesis by simp
qed

lemma send_correct:
  assumes q: "e1000_queues ram hh e (view d) W R L" and L: "L \<le> 6" and f: "0 < length f" "length f \<le> ETH_FRAME_MAX"
  shows "\<exists>e' d'. e1000_send b f (e, d) = (True, e', d') \<and> e1000_queues ram hh e' (view d') (W @ [f]) R (L + 1)"
proof -
  define e' where "e' = e\<lparr>tx_cur := (tx_cur e + 1) mod NUM_TX_DESC\<rparr>"
  obtain d1 r d' where o1: "own e W R L (length f) (bytes64 (tx_buffers_phys e ! tx_cur e) @
      bytes16 (of_nat (length f)) @ [0, TXD_CMD_EOP OR TXD_CMD_IFCS OR TXD_CMD_RS, 0, 0] @ r) f d1"
    and s: "e1000_send b f (e, d) = (True, e', d')"
    and d': "d' = bus_store b (E1000_MMIO_VIRT + ucast REG_TDT) (bytes32 (of_nat ((tx_cur e + 1) mod NUM_TX_DESC))) d1"
    using send_prepares [OF q f] unfolding e'_def by blast
  have lay: "layout ram hh e" "layout ram hh e'" using queues_preparing(1) [OF q] by (simp_all add: e'_def)
  obtain c where c: "card_steps (view d1) c" "card_steps (c\<lparr>tx_tail := (tx_cur e + 1) mod NUM_TX_DESC\<rparr>) (view d')"
    using tx_tail_law [of d1 "of_nat ((tx_cur e + 1) mod NUM_TX_DESC)"] unfolding d' unat_tail by blast
  obtain P U where c': "tx_rings e' (c\<lparr>tx_tail := (tx_cur e + 1) mod NUM_TX_DESC\<rparr>) P"
      "rx_rings hh e' (rx_cur e') 15 (c\<lparr>tx_tail := (tx_cur e + 1) mod NUM_TX_DESC\<rparr>) U"
      "sent c @ P = W @ [f]" "got c = R @ U" "length P \<le> L + 1" "slot (cmem c) (tx_ring_phys e') (tx_cur e') 12 1 = [TXD_STAT_DD]"
    using preparing_done [OF own_steps [OF o1 c(1)] refl f(2) L e'_def refl] by auto
  obtain P' V where x: "card_did hh e' (rx_cur e') 15 (c\<lparr>tx_tail := (tx_cur e + 1) mod NUM_TX_DESC\<rparr>) P U (view d') P' V"
    using steps_did [OF c(2) lay(2) c'(1,2)] by blast
  have "slot (cmem (view d')) (tx_ring_phys e') (tx_cur e') 12 1 = [TXD_STAT_DD]"
  proof -
    have "own_slot e' (view d') = own_slot e' c" using x by (simp add: card_did_def own_slot_def)
    then show ?thesis using c'(6) slot_part [of 12 1 16 "cmem (view d')" "tx_ring_phys e'" "tx_cur e'" 0]
        slot_part [of 12 1 16 "cmem c" "tx_ring_phys e'" "tx_cur e'" 0] by (simp add: own_slot_def)
  qed
  moreover have "tx_rings e' (view d') P' \<and> rx_rings hh e' (rx_cur e') 15 (view d') (U @ V) \<and> sent (view d') @ P' = W @ [f] \<and>
      got (view d') = R @ U @ V \<and> length P' \<le> L + 1"
    using x c'(3-5) by (simp add: card_did_def)
  ultimately have "e1000_queues ram hh e' (view d') (W @ [f]) R (L + 1)" using lay(2) unfolding e1000_queues_def by blast
  with s show ?thesis by blast
qed

lemma send_overrun:
  assumes q: "e1000_queues ram hh e (view d) W R 7" and f: "0 < length f" "length f \<le> ETH_FRAME_MAX"
    and s: "e1000_send b f (e, d) = (ok, e', d')" and n: "length (sent (view d')) + 7 \<le> length W"
  shows "ok \<and> (\<forall>c. card_steps (view d') c \<longrightarrow> sent c = sent (view d'))"
proof -
  obtain d1 r where o1: "own e W R 7 (length f) (bytes64 (tx_buffers_phys e ! tx_cur e) @
      bytes16 (of_nat (length f)) @ [0, TXD_CMD_EOP OR TXD_CMD_IFCS OR TXD_CMD_RS, 0, 0] @ r) f d1"
    and ok: ok and d': "d' = bus_store b (E1000_MMIO_VIRT + ucast REG_TDT) (bytes32 (of_nat ((tx_cur e + 1) mod NUM_TX_DESC))) d1"
    using send_prepares [OF q f] s by auto
  obtain c where c: "card_steps (view d1) c" "card_steps (c\<lparr>tx_tail := (tx_cur e + 1) mod NUM_TX_DESC\<rparr>) (view d')"
    using tx_tail_law [of d1 "of_nat ((tx_cur e + 1) mod NUM_TX_DESC)"] unfolding d' unat_tail by blast
  obtain P where P: "tx_rings e c P" "sent c @ P = W" "length P \<le> 7"
    using own_steps [OF o1 c(1)] by (auto simp: preparing_def)
  have "length (sent c) \<le> length (sent (view d'))" using steps_sent [OF c(2)] by simp
  moreover have "length (sent c) + length P = length W" using P(2) by auto
  ultimately have "length P = 7" using n P(3) by linarith
  then have "tx_head c = (tx_cur e + 1) mod 8" using tx_own [OF P(1), of 7] P(1) by (auto simp: tx_rings_def) presburger
  then have "tx_head (view d') = tx_tail (view d')" using steps_empty [OF c(2)] by simp
  then show ?thesis using ok steps_empty by blast
qed

definition at_read :: "e1000 \<Rightarrow> nat \<Rightarrow> nat \<Rightarrow> u8 list list \<Rightarrow> u8 list list \<Rightarrow> nat \<Rightarrow> u8 list \<Rightarrow> u8 list list \<Rightarrow> 'd \<Rightarrow> bool" where
  "at_read e cur t W R L s F d \<longleftrightarrow> layout ram hh e \<and> cur < NUM_RX_DESC \<and> reading hh e cur t W R L s F (view d)"

lemma read_slot:
  assumes "at_read e cur t W R L s F d" "bus_load b (rx_ring e + 16 * of_nat cur + of_nat k) m d = (bs, d')" "k + m \<le> 16"
  shows "\<exists>c. card_steps (view d) c \<and> reading hh e cur t W R L s F c \<and> bs = slot (cmem c) (rx_ring_phys e) cur k m \<and> card_steps c (view d')"
proof -
  have l: "layout ram hh e" "cur < 16" using assms(1) by (auto simp: at_read_def)
  note a = slot_address [OF l assms(3)]
  obtain c where "card_steps (view d) c" "bs = slot (cmem c) (rx_ring_phys e) cur k m" "card_steps c (view d')"
    using load_law [of "rx_ring_phys e + of_nat (16 * cur + k)" m d bs d'] assms(2) a unfolding slot_def by metis
  then show ?thesis using reading_steps [OF _ _ l(1)] assms(1) unfolding at_read_def by blast
qed

lemma read_length:
  assumes "at_read e cur t W R L s [f] d" "bus_load b (rx_ring e + 16 * of_nat cur + 8) 2 d = (bs, d')"
  shows "at_read e cur t W R L s [f] d' \<and> unat (load16 bs 0) = length f"
proof -
  obtain c where c: "reading hh e cur t W R L s [f] c" "bs = slot (cmem c) (rx_ring_phys e) cur 8 2" "card_steps c (view d')"
    using read_slot [OF assms(1), of 8 2] assms(2) by auto
  then show ?thesis using reading_first [OF c(1)] reading_steps [OF c(1,3)] assms(1) by (auto simp: at_read_def rx_holds_def)
qed

lemma read_buffer:
  assumes "at_read e cur t W R L s [f] d" "bus_load b (rx_buffers e ! cur) n d = (bs, d')" "n \<le> length f"
  shows "at_read e cur t W R L s [f] d' \<and> bs = take n f"
proof -
  have l: "layout ram hh e" "cur < 16" using assms(1) by (auto simp: at_read_def)
  have f: "length f \<le> 2048" using assms(1) reading_first by (auto simp: at_read_def rx_holds_def)
  have "rx_page hh e cur \<in> set (e1000_pages hh e)" using l(2) by (simp add: e1000_pages_def)
  then have r: "unat (rx_page hh e cur) + n \<le> ram" using l(1) f assms(3) by (auto simp: layout_def)
  have p: "rx_buffers e ! cur = rx_page hh e cur + hh" by (simp add: rx_page_def)
  obtain c where c: "card_steps (view d) c" "bs = mem_get (cmem c) (rx_page hh e cur) n" "card_steps c (view d')"
    using load_law [OF assms(2) [unfolded p] r] by blast
  then have rd: "reading hh e cur t W R L s [f] c" using reading_steps [OF _ _ l(1)] assms(1) unfolding at_read_def by blast
  then have "mem_get (cmem c) (rx_page hh e cur) (length f) = f" using reading_first by (auto simp: rx_holds_def)
  moreover have "mem_get m a n = take n (mem_get m a (length f))" for m a
    using assms(3) by (simp add: mem_get_def take_map)
  ultimately have "bs = take n f" using c(2) by metis
  then show ?thesis using reading_steps [OF rd c(3) l(1)] assms(1) by (simp add: at_read_def)
qed

lemma read_done:
  assumes "at_read e cur 15 W R L s [f] d"
  shows "at_read e ((cur + 1) mod NUM_RX_DESC) 15 W (R @ [f]) L s []
    (mmio_write b e REG_RDT (of_nat cur) (bus_store b (rx_ring e + 16 * of_nat cur + 12) [0] d))"
proof -
  have l: "layout ram hh e" "cur < 16" using assms(1) by (auto simp: at_read_def)
  let ?d = "bus_store b (rx_ring e + 16 * of_nat cur + 12) [0] d"
  have a: "rx_ring e + 16 * of_nat cur + 12 = rx_ring_phys e + of_nat (16 * cur + 12) + hh"
    "unat (rx_ring_phys e + of_nat (16 * cur + 12)) + 1 \<le> ram"
    using slot_address(2,4) [OF l, of 12 1] by (simp_all only: of_nat_numeral)
  obtain c where c: "card_steps (view d) c" "card_steps (c\<lparr>cmem := mem_put (cmem c) (rx_ring_phys e + of_nat (16 * cur + 12)) [0]\<rparr>) (view ?d)"
    using store_law [of "rx_ring_phys e + of_nat (16 * cur + 12)" "[0]" d] a(2) unfolding a(1) by (metis One_nat_def length_Cons list.size(3))
  have "reading hh e cur 15 W R L s [f] c" using reading_steps [OF _ c(1) l(1)] assms(1) by (simp add: at_read_def)
  from reading_steps [OF reading_release [OF this l(1)] c(2) l(1)]
  have r: "reading hh e ((cur + 1) mod NUM_RX_DESC) 14 W (R @ [f]) L s [] (view ?d)" .
  have u: "unat (of_nat cur :: u32) = cur" using l(2) by (simp add: unsigned_of_nat take_bit_nat_eq_self)
  have m: "mmio_write b e REG_RDT (of_nat cur) ?d = bus_store b (E1000_MMIO_VIRT + ucast REG_RDT) (bytes32 (of_nat cur)) ?d"
    using l(1) by (simp add: mmio_write_def layout_def)
  obtain c' where c': "card_steps (view ?d) c'" "card_steps (c'\<lparr>rx_tail := cur\<rparr>) (view (mmio_write b e REG_RDT (of_nat cur) ?d))"
    using rx_tail_law [of ?d "of_nat cur"] unfolding m u by blast
  from reading_steps [OF reading_return [OF reading_steps [OF r c'(1) l(1)] l(2)] c'(2) l(1)]
  show ?thesis using l by (simp add: at_read_def)
qed

lemma receive_correct:
  assumes q: "e1000_queues ram hh e (view d) W R L"
  shows "\<exists>bs e' d'. e1000_receive b n (e, d) = (bs, e', d') \<and>
    (bs = [] \<and> got (view d) = R \<and> e1000_queues ram hh e' (view d') W R L \<or>
     (\<exists>f. bs = take n f \<and> e1000_queues ram hh e' (view d') W (R @ [f]) L))"
proof -
  obtain s where s: "take 1 (drop 12 s) = [TXD_STAT_DD]" and r: "reading hh e (rx_cur e) 15 W R L s [] (view d)" and l: "layout ram hh e"
    using q unfolding queues_reading by blast
  have cur: "rx_cur e < 16" using r by (auto simp: reading_def rx_rings_def)
  have o: "at_read e (rx_cur e) 15 W R L s [] d" using r l cur by (simp add: at_read_def)
  let ?D = "rx_ring e + 16 * of_nat (rx_cur e)"
  obtain st d1 where st: "bus_load b (?D + 12) 1 d = (st, d1)" by fastforce
  obtain c where c: "card_steps (view d) c" "st = slot (cmem c) (rx_ring_phys e) (rx_cur e) 12 1" "card_steps c (view d1)"
      and rc: "reading hh e (rx_cur e) 15 W R L s [] c"
    using read_slot [OF o, of 12 1 st d1] st by auto
  have pres: "card_present e" using l by (simp add: layout_def)
  from reading_status [OF rc] show ?thesis
  proof
    assume a: "slot (cmem c) (rx_ring_phys e) (rx_cur e) 12 1 = [0] \<and> got c = R"
    then have "e1000_receive b n (e, d) = ([], e, d1)" using pres st c(2) by (simp add: e1000_receive_def)
    moreover have "e1000_queues ram hh e (view d1) W R L" using reading_steps [OF rc c(3) l] s l unfolding queues_reading by blast
    moreover have "got (view d) = R"
    proof -
      have "length (got (view d)) \<le> length R" using steps_got [OF c(1)] a by simp
      moreover obtain U where "got (view d) = R @ U" using r by (auto simp: reading_def)
      ultimately show ?thesis by simp
    qed
    ultimately show ?thesis by blast
  next
    assume "\<exists>f. reading hh e (rx_cur e) 15 W R L s [f] c"
    then obtain f where f: "reading hh e (rx_cur e) 15 W R L s [f] c" by blast
    then have "st = [RXD_STAT_DD OR RXD_STAT_EOP]" using reading_first c(2) by (simp add: rx_holds_def)
    then have dd: "st ! 0 AND RXD_STAT_DD \<noteq> 0" by simp
    have o1: "at_read e (rx_cur e) 15 W R L s [f] d1" using reading_steps [OF f c(3) l] l cur by (simp add: at_read_def)
    obtain len d2 where len: "bus_load b (?D + 8) 2 d1 = (len, d2)" by fastforce
    note o2 = read_length [OF o1 len]
    obtain bs d3 where bs: "bus_load b (rx_buffers e ! rx_cur e) (min (length f) n) d2 = (bs, d3)" by fastforce
    have o3: "at_read e (rx_cur e) 15 W R L s [f] d3 \<and> bs = take n f"
      using read_buffer [OF conjunct1 [OF o2] bs] by (auto simp: min_def)
    define d4 where "d4 = mmio_write b e REG_RDT (of_nat (rx_cur e)) (bus_store b (?D + 12) [0] d3)"
    define e' where "e' = e\<lparr>rx_cur := (rx_cur e + 1) mod NUM_RX_DESC\<rparr>"
    have "at_read e (rx_cur e') 15 W (R @ [f]) L s [] d4" unfolding d4_def e'_def using read_done [OF conjunct1 [OF o3]] by simp
    then have "e1000_queues ram hh e' (view d4) W (R @ [f]) L" using s unfolding queues_reading at_read_def
      by (auto simp: e'_def)
    moreover have "e1000_receive b n (e, d) = (bs, e', d4)"
      using pres st dd len bs o2 by (simp add: e1000_receive_def d4_def e'_def Let_def)
    ultimately show ?thesis using o3 by blast
  qed
qed

end

section \<open>A card that meets it\<close>

text \<open>Before every access this card sends up to \<open>k\<close> frames. Its memory is the first terabyte.\<close>

primrec card_run :: "nat \<Rightarrow> card \<Rightarrow> card" where
  "card_run 0 c = c"
| "card_run (Suc k) c = (if tx_head c = tx_tail c then c else card_run k (card_transmit c))"

abbreviation (input) sim_hhdm :: u64 where "sim_hhdm \<equiv> 0xFFFF800000000000"

definition sim_bus :: "nat \<Rightarrow> card bus" where
  "sim_bus k =
     \<lparr>bus_load = (\<lambda>a n c. let c = card_run k c in (mem_get (cmem c) (a - sim_hhdm) n, c)),
      bus_store = (\<lambda>a bs c. let c = card_run k c in
        if a = E1000_MMIO_VIRT + ucast REG_TDT then c\<lparr>tx_tail := unat (load32 bs 0)\<rparr>
        else if a = E1000_MMIO_VIRT + ucast REG_RDT then c\<lparr>rx_tail := unat (load32 bs 0)\<rparr>
        else c\<lparr>cmem := mem_put (cmem c) (a - sim_hhdm) bs\<rparr>)\<rparr>"

lemma card_run_steps: "card_steps c (card_run k c)"
proof (induction k arbitrary: c)
  case (Suc k)
  show ?case using Suc [of "card_transmit c"] card_step.transmit [of c] by (auto intro: converse_rtranclp_into_rtranclp)
qed simp

lemma load32_same [simp]: "load32 (bytes32 x) 0 = x"
  using load32_bytes32 [of x "[]"] by simp

interpretation sim: e1000_card "sim_bus k" "\<lambda>c. c" sim_hhdm "2 ^ 40"
proof unfold_locales
  fix a :: u64 and n :: nat and d d' :: card and bs
  assume "bus_load (sim_bus k) (a + sim_hhdm) n d = (bs, d')"
  then have "d' = card_run k d" "bs = mem_get (cmem d') a n" by (auto simp: sim_bus_def Let_def)
  then show "\<exists>c. card_steps d c \<and> bs = mem_get (cmem c) a n \<and> card_steps c d'" using card_run_steps by blast
next
  fix a :: u64 and bs :: "u8 list" and d :: card
  assume r: "unat a + length bs \<le> 2 ^ 40"
  have "a + sim_hhdm \<noteq> 0xFFFFFFFFC0003818" "a + sim_hhdm \<noteq> 0xFFFFFFFFC0002818"
  proof -
    have "a \<noteq> x" if "unat x > 2 ^ 40" for x using that r by auto
    from this [of "0x7FFFC0003818"] this [of "0x7FFFC0002818"]
    show "a + sim_hhdm \<noteq> 0xFFFFFFFFC0003818" "a + sim_hhdm \<noteq> 0xFFFFFFFFC0002818" by (auto simp: eq_diff_eq [symmetric])
  qed
  then have "bus_store (sim_bus k) (a + sim_hhdm) bs d = (card_run k d)\<lparr>cmem := mem_put (cmem (card_run k d)) a bs\<rparr>"
    by (simp add: sim_bus_def Let_def)
  then show "\<exists>c. card_steps d c \<and> card_steps (c\<lparr>cmem := mem_put (cmem c) a bs\<rparr>) (bus_store (sim_bus k) (a + sim_hhdm) bs d)"
    using card_run_steps by (metis rtranclp.rtrancl_refl)
next
  fix v :: u32 and d :: card
  show "\<exists>c. card_steps d c \<and> card_steps (c\<lparr>tx_tail := unat v\<rparr>) (bus_store (sim_bus k) (E1000_MMIO_VIRT + ucast REG_TDT) (bytes32 v) d)"
    using card_run_steps [of d k] by (auto simp: sim_bus_def Let_def intro!: exI [of _ "card_run k d"])
  show "\<exists>c. card_steps d c \<and> card_steps (c\<lparr>rx_tail := unat v\<rparr>) (bus_store (sim_bus k) (E1000_MMIO_VIRT + ucast REG_RDT) (bytes32 v) d)"
    using card_run_steps [of d k] by (auto simp: sim_bus_def Let_def intro!: exI [of _ "card_run k d"])
qed

text \<open>The driver and the card after the rings are set up, with the rings at 64 KB.\<close>

definition sim_driver :: e1000 where
  "sim_driver = \<lparr>card_present = True, mmio = E1000_MMIO_VIRT, mac_addr = [2, 0, 0, 0, 0, 1],
     rx_ring = 0x11000 + sim_hhdm, tx_ring = 0x10000 + sim_hhdm, rx_ring_phys = 0x11000, tx_ring_phys = 0x10000,
     rx_buffers = map (\<lambda>i. 0x30000 + 0x1000 * of_nat i + sim_hhdm) [0..<16],
     tx_buffers = map (\<lambda>i. 0x20000 + 0x1000 * of_nat i + sim_hhdm) [0..<8],
     tx_buffers_phys = map (\<lambda>i. 0x20000 + 0x1000 * of_nat i) [0..<8], rx_cur = 0, tx_cur = 0\<rparr>"

definition sim_card :: card where
  "sim_card = \<lparr>cmem = fold (\<lambda>i m. mem_put m (0x10000 + of_nat (16 * i + 12)) [1]) [0..<8]
        (fold (\<lambda>i m. mem_put m (0x11000 + of_nat (16 * i + 0)) (bytes64 (0x30000 + 0x1000 * of_nat i))) [0..<16] (\<lambda>_. 0)),
     tx_base = 0x10000, tx_head = 0, tx_tail = 0, rx_base = 0x11000, rx_head = 0, rx_tail = 15, sent = [], got = []\<rparr>"

lemma sim_layout: "layout (2 ^ 40) sim_hhdm sim_driver"
  by (simp add: layout_def sim_driver_def e1000_pages_def rx_page_def upt_rec page_def del: upt_Suc)

lemma fold_slots:
  assumes "page p" "N \<le> 16" "\<And>i. i < N \<Longrightarrow> k + length (v i) \<le> 16" "i < N"
  shows "slot (fold (\<lambda>i m. mem_put m (p + of_nat (16 * i + k)) (v i)) [0..<N] m) p i k (length (v i)) = v i"
  using assms(2-)
proof (induction N)
  case (Suc N)
  show ?case
  proof (cases "i = N")
    case True
    then show ?thesis using Suc.prems assms(1) by (simp add: slot_put_same del: of_nat_add of_nat_mult)
  next
    case False
    then show ?thesis using Suc assms(1) by (simp add: slot_put_other del: of_nat_add of_nat_mult)
  qed
qed simp

lemma fold_slots_other:
  assumes "page p" "page q" "N \<le> 16" "\<And>i. i < N \<Longrightarrow> k + length (v i) \<le> 16" "i < 16" "l + n \<le> 16"
    "p \<noteq> q \<or> l + n \<le> k \<or> (\<forall>i<N. k + length (v i) \<le> l)"
  shows "slot (fold (\<lambda>i m. mem_put m (p + of_nat (16 * i + k)) (v i)) [0..<N] m) q i l n = slot m q i l n"
  using assms(3-)
proof (induction N)
  case (Suc N)
  then show ?case using assms(1,2) by (auto simp: slot_put_other simp del: of_nat_add of_nat_mult)
qed simp

lemma sim_queues: "e1000_queues (2 ^ 40) sim_hhdm sim_driver sim_card [] [] 0"
proof -
  define m0 where "m0 = fold (\<lambda>i m. mem_put m (0x11000 + of_nat (16 * i + 0)) (bytes64 (0x30000 + 0x1000 * of_nat i :: u64))) [0..<16] (\<lambda>_. 0 :: u8)"
  have p: "page 0x10000" "page 0x11000" by (simp_all add: page_def)
  have c: "cmem sim_card = fold (\<lambda>i m. mem_put m (0x10000 + of_nat (16 * i + 12)) [1]) [0..<8] m0"
    by (simp add: sim_card_def m0_def)
  have d: "slot (cmem sim_card) 0x10000 i 12 1 = [1]" if "i < 8" for i
    using fold_slots [OF p(1), of 8 12 "\<lambda>_. [1]" i m0] that unfolding c by simp
  have r: "slot (cmem sim_card) 0x11000 i l n = slot m0 0x11000 i l n" if "i < 16" "l + n \<le> 16" for i l n
    unfolding c using that p by (intro fold_slots_other) auto
  have a: "slot (cmem sim_card) 0x11000 i 0 8 = bytes64 (0x30000 + 0x1000 * of_nat i)" if "i < 16" for i
    using r [of i 0 8] that fold_slots [OF p(2), of 16 0 "\<lambda>i. bytes64 (0x30000 + 0x1000 * of_nat i)" i "\<lambda>_. 0"] unfolding m0_def by simp
  have z: "slot (cmem sim_card) 0x11000 i 12 1 = [0]" if "i < 16" for i
  proof -
    have "slot m0 0x11000 i 12 1 = slot (\<lambda>_. 0) 0x11000 i 12 1" unfolding m0_def using that p by (intro fold_slots_other) auto
    then show ?thesis using r [of i 12 1] that by (simp add: slot_def mem_get_def)
  qed
  have "tx_rings sim_driver sim_card []" using d by (auto simp: tx_rings_def sim_driver_def) (simp_all add: sim_card_def)
  moreover have "rx_rings sim_hhdm sim_driver (rx_cur sim_driver) 15 sim_card []"
    using a z by (auto simp: rx_rings_def sim_driver_def rx_page_def) (simp_all add: sim_card_def)
  moreover have "sent sim_card @ [] = []" "got sim_card = [] @ []" by (simp_all add: sim_card_def)
  moreover have "slot (cmem sim_card) (tx_ring_phys sim_driver) (tx_cur sim_driver) 12 1 = [TXD_STAT_DD]"
    using d by (simp add: sim_driver_def)
  ultimately show ?thesis using sim_layout unfolding e1000_queues_def by fastforce
qed

lemma queues_steps: "e1000_queues ram hh e c W R L \<Longrightarrow> card_steps c c' \<Longrightarrow> e1000_queues ram hh e c' W R L"
  unfolding queues_reading using reading_steps by blast

section \<open>Properties\<close>

text \<open>
  C31. Sending a frame appends it to the queue of frames that the card sends, whatever the card does in
  the meantime: with at most six frames still to be sent, \<open>e1000_send\<close> succeeds, and the frames the card has sent
  followed by those in the ring are the frames handed over so far followed by the new one. The frames received are unaffected.
\<close>

theorem e1000_send_correct:
  assumes "e1000_card b view hh ram" and "e1000_queues ram hh e (view d) W R L" and "L \<le> 6"
    and "0 < length f" and "length f \<le> ETH_FRAME_MAX"
  shows "\<exists>e' d'. e1000_send b f (e, d) = (True, e', d') \<and> e1000_queues ram hh e' (view d') (W @ [f]) R (L + 1)"
  using e1000_card.send_correct [OF assms] .

theorem e1000_send_correct_witness:
  "\<exists>e' d'. e1000_send (sim_bus 1) [1, 2, 3] (sim_driver, sim_card) = (True, e', d') \<and>
     e1000_queues (2 ^ 40) sim_hhdm e' d' [[1, 2, 3]] [] 1"
  using e1000_send_correct [OF sim.e1000_card_axioms sim_queues, of "[1, 2, 3]" 1] by simp

text \<open>
  C32. Receiving returns the frames that the card accepted, each once and in order: a call returns the next
  frame, cut to the size of the buffer, and gives its slot back, or nothing if no frame is waiting, whatever the card
  sends and accepts in the meantime.
\<close>

theorem e1000_receive_correct:
  assumes "e1000_card b view hh ram" and "e1000_queues ram hh e (view d) W R L"
  shows "\<exists>bs e' d'. e1000_receive b n (e, d) = (bs, e', d') \<and>
    (bs = [] \<and> got (view d) = R \<and> e1000_queues ram hh e' (view d') W R L \<or>
     (\<exists>f. bs = take n f \<and> e1000_queues ram hh e' (view d') W (R @ [f]) L))"
  using e1000_card.receive_correct [OF assms] .

theorem e1000_receive_correct_witness:
  "\<exists>f e' d'. e1000_receive (sim_bus 1) 2 (sim_driver, card_accept [1, 2, 3] sim_card) = (take 2 f, e', d') \<and>
     e1000_queues (2 ^ 40) sim_hhdm e' d' [] [f] 0"
proof -
  have "card_steps sim_card (card_accept [1, 2, 3] sim_card)"
    by (intro r_into_rtranclp card_step.accept) (simp_all add: sim_card_def)
  then have q: "e1000_queues (2 ^ 40) sim_hhdm sim_driver (card_accept [1, 2, 3] sim_card) [] [] 0"
    using queues_steps sim_queues by blast
  have g: "got (card_accept [1, 2, 3] sim_card) \<noteq> []" by (simp add: card_accept_def Let_def)
  show ?thesis using e1000_receive_correct [OF sim.e1000_card_axioms q, of 1 2] g by auto
qed

text \<open>
  C33. The eighth frame in the ring is one too many: if seven frames are still to be sent when \<open>e1000_send\<close> is called and
  none is sent during the call, the new tail equals the head, which to the card means an empty
  ring. The call reports success, and neither the new frame nor the seven before it are ever sent.
\<close>

theorem e1000_send_overrun:
  assumes "e1000_card b view hh ram" and "e1000_queues ram hh e (view d) W R 7" and "0 < length f" and "length f \<le> ETH_FRAME_MAX"
    and "e1000_send b f (e, d) = (ok, e', d')" and "length (sent (view d')) + 7 \<le> length W"
  shows "ok \<and> (\<forall>c. card_steps (view d') c \<longrightarrow> sent c = sent (view d'))"
  using e1000_card.send_overrun [OF assms] .

lemma lazy_bus [simp]:
  "sent (snd (bus_load (sim_bus 0) a n d)) = sent d" "sent (bus_store (sim_bus 0) a bs d) = sent d"
  by (simp_all add: sim_bus_def Let_def)

lemma lazy_wait [simp]: "sent (tx_wait n (sim_bus 0) e d) = sent d"
proof (induction n arbitrary: d)
  case (Suc n)
  obtain st d' where l: "bus_load (sim_bus 0) (tx_ring e + 16 * of_nat (tx_cur e) + 12) 1 d = (st, d')" by fastforce
  then have "sent d' = sent d" using lazy_bus(1) [of "tx_ring e + 16 * of_nat (tx_cur e) + 12" 1 d] by simp
  then show ?case using Suc l by (simp add: tx_wait.simps [of "Suc n"])
qed (simp add: tx_wait.simps)

lemma lazy_send: "e1000_send (sim_bus 0) f (e, d) = (ok, e', d') \<Longrightarrow> sent d' = sent d"
  by (auto simp: e1000_send_def mmio_write_def Let_def split: if_splits prod.splits) (metis lazy_bus(1) lazy_wait snd_conv)+

lemma lazy_frames: "n \<le> 7 \<Longrightarrow> \<exists>e d. e1000_queues (2 ^ 40) sim_hhdm e d (replicate n [1]) [] n \<and> sent d = []"
proof (induction n)
  case 0
  have "sent sim_card = []" by (simp add: sim_card_def)
  then show ?case using sim_queues unfolding replicate_0 by blast
next
  case (Suc n)
  then obtain e d where q: "e1000_queues (2 ^ 40) sim_hhdm e d (replicate n [1]) [] n" "sent d = []" by auto
  then obtain e' d' where "e1000_send (sim_bus 0) [1] (e, d) = (True, e', d')"
      "e1000_queues (2 ^ 40) sim_hhdm e' d' (replicate n [1] @ [[1]]) [] (n + 1)"
    using sim.send_correct [OF q(1), of "[1]" 0] Suc.prems by auto
  then show ?case using lazy_send q(2) by (fastforce simp: replicate_append_same)
qed

theorem e1000_send_overrun_witness:
  "\<exists>e d e' d'. e1000_queues (2 ^ 40) sim_hhdm e d (replicate 7 [1]) [] 7 \<and> e1000_send (sim_bus 0) [2] (e, d) = (True, e', d') \<and>
     (\<forall>c. card_steps d' c \<longrightarrow> sent c = [])"
proof -
  obtain e d where q: "e1000_queues (2 ^ 40) sim_hhdm e d (replicate 7 [1]) [] 7" "sent d = []" using lazy_frames [of 7] by blast
  obtain ok e' d' where s: "e1000_send (sim_bus 0) [2] (e, d) = (ok, e', d')" by (cases "e1000_send (sim_bus 0) [2] (e, d)") auto
  have "sent d' = []" using lazy_send [OF s] q(2) by simp
  then show ?thesis using e1000_send_overrun [OF sim.e1000_card_axioms q(1) _ _ s] q s by auto
qed

section \<open>The network stack on the card\<close>

text \<open>
  What is needed beyond the interface for the stack to return: only finitely many frames are still to come (\<open>coming\<close> counts them), the card keeps up
  with the driver, so that a slot of the send ring is always free to spare, and time passes. Every access of the driver leaves the number of frames
  accepted and still to come at most as it was, and so does reading the clock \<open>ticks\<close>, which can happen only finitely often (\<open>left t\<close>) before a time \<open>t\<close>.
\<close>

locale e1000_link = e1000_card b view hh ram for b :: "'d bus" and view hh ram +
  fixes ticks :: "'d \<Rightarrow> u64 \<times> 'd" and coming :: "'d \<Rightarrow> nat" and left :: "u64 \<Rightarrow> 'd \<Rightarrow> nat"
  assumes keeps_up: "e1000_queues ram hh e (view d) W R L \<Longrightarrow> e1000_queues ram hh e (view d) W R 6"
    and load_traffic: "bus_load b a n d = (bs, d') \<Longrightarrow>
      length (got (view d')) + coming d' \<le> length (got (view d)) + coming d \<and> left t d' \<le> left t d"
    and store_traffic: "bus_store b a bs d = d' \<Longrightarrow>
      length (got (view d')) + coming d' \<le> length (got (view d)) + coming d \<and> left t d' \<le> left t d"
    and ticks_law: "ticks d = (now, d') \<Longrightarrow> card_steps (view d) (view d') \<and>
      length (got (view d')) + coming d' \<le> length (got (view d)) + coming d \<and> left t d' \<le> left t d \<and> (now < t \<longrightarrow> left t d' < left t d)"
begin

definition onward :: "'d \<Rightarrow> 'd \<Rightarrow> bool" where
  "onward d' d \<longleftrightarrow> length (got (view d')) + coming d' \<le> length (got (view d)) + coming d \<and> (\<forall>t. left t d' \<le> left t d)"

lemma onward_refl [simp]: "onward d d"
  by (simp add: onward_def)

lemma onward_trans: "onward c d \<Longrightarrow> onward d e \<Longrightarrow> onward c e"
  unfolding onward_def by (meson le_trans)

lemma onward_load: "bus_load b a n d = (bs, d') \<Longrightarrow> onward d e \<Longrightarrow> onward d' e"
  using load_traffic onward_trans unfolding onward_def by blast

lemma onward_store [simp]: "onward d e \<Longrightarrow> onward (bus_store b a bs d) e"
  using store_traffic onward_trans unfolding onward_def by blast

lemma onward_wait: "onward d c \<Longrightarrow> onward (tx_wait n b e d) c"
proof (induction n arbitrary: d)
  case (Suc n)
  obtain st d' where l: "bus_load b (tx_ring e + 16 * of_nat (tx_cur e) + 12) 1 d = (st, d')" by fastforce
  from onward_load [OF l Suc.prems] show ?case using Suc.IH [of d'] l by (simp add: tx_wait.simps [of "Suc n"])
qed (simp add: tx_wait.simps)

lemma onward_send: "e1000_send b f (e, d) = (ok, e', d') \<Longrightarrow> onward d' d"
  using onward_load [OF _ onward_wait [OF onward_refl]]
  by (auto simp: e1000_send_def mmio_write_def Let_def split: if_splits prod.splits)

lemma onward_receive: "e1000_receive b n (e, d) = (bs, e', d') \<Longrightarrow> onward d' d"
  by (auto simp: e1000_receive_def mmio_write_def Let_def split: if_splits prod.splits intro!: onward_store)
    (meson onward_load onward_refl)+

text \<open>The frames still to be handed to the stack: those to come and those waiting in the ring.\<close>

definition to_read :: "e1000 \<times> 'd \<Rightarrow> nat" where
  "to_read x = coming (snd x) + (rx_head (view (snd x)) + 16 - rx_cur (fst x)) mod 16"

definition linked :: "e1000 \<times> 'd \<Rightarrow> bool" where
  "linked x \<longleftrightarrow> (\<exists>W R L. e1000_queues ram hh (fst x) (view (snd x)) W R L)"

lemma ring_count:
  fixes c h n :: nat
  assumes "c < 16" "n < 16" "h = (c + n) mod 16"
  shows "(h + 16 - c) mod 16 = n"
proof (cases "c + n < 16")
  case False
  then have "h = c + n - 16" using assms by (simp add: le_mod_geq)
  then show ?thesis using assms False by simp
qed (use assms in \<open>simp add: le_mod_geq\<close>)

lemma queues_to_read:
  assumes "e1000_queues ram hh e (view d) W R L"
  shows "to_read (e, d) + length R = coming d + length (got (view d))"
proof -
  obtain U where "rx_rings hh e (rx_cur e) 15 (view d) U" "got (view d) = R @ U"
    using assms by (auto simp: e1000_queues_def)
  then show ?thesis using ring_count [of "rx_cur e" "length U" "rx_head (view d)"] by (auto simp: rx_rings_def to_read_def)
qed

lemma send_linked:
  assumes "linked (e, d)" "e1000_send b f (e, d) = (ok, e', d')"
  shows "linked (e', d') \<and> to_read (e', d') \<le> to_read (e, d) \<and> left t d' \<le> left t d"
proof (cases "0 < length f \<and> length f \<le> ETH_FRAME_MAX")
  case True
  obtain W R L where "e1000_queues ram hh e (view d) W R L" using assms(1) by (auto simp: linked_def)
  note q = keeps_up [OF this]
  have q': "e1000_queues ram hh e' (view d') (W @ [f]) R (6 + 1)" using send_correct [OF q le_refl, of f] True assms(2) by auto
  have "onward d' d" by (rule onward_send [OF assms(2)])
  then show ?thesis using queues_to_read [OF q] queues_to_read [OF q'] q' by (auto simp: linked_def onward_def)
next
  case False
  then have "ok = False \<and> e' = e \<and> d' = d" using assms(2) by (auto simp: e1000_send_def Let_def split: if_splits)
  then show ?thesis using assms(1) by simp
qed

lemma receive_linked:
  assumes "linked (e, d)" "e1000_receive b n (e, d) = (f, e', d')"
  shows "linked (e', d') \<and> to_read (e', d') \<le> to_read (e, d) \<and> (f \<noteq> [] \<longrightarrow> to_read (e', d') < to_read (e, d)) \<and> left t d' \<le> left t d"
proof -
  obtain W R L where q: "e1000_queues ram hh e (view d) W R L" using assms(1) by (auto simp: linked_def)
  have o: "onward d' d" by (rule onward_receive [OF assms(2)])
  from receive_correct [OF q, of n] assms(2)
  consider "f = []" "e1000_queues ram hh e' (view d') W R L" | g where "e1000_queues ram hh e' (view d') W (R @ [g]) L" by auto
  then show ?thesis
  proof cases
    case 1
    then show ?thesis using queues_to_read [OF q] queues_to_read [OF 1(2)] o by (auto simp: linked_def onward_def)
  next
    case 2
    then show ?thesis using queues_to_read [OF q] queues_to_read [OF 2] o by (auto simp: linked_def onward_def)
  qed
qed

lemma ticks_linked:
  assumes "linked (e, d)" "ticks d = (now, d')"
  shows "linked (e, d') \<and> to_read (e, d') \<le> to_read (e, d) \<and> left t d' \<le> left t d \<and> (now < t \<longrightarrow> left t d' < left t d)"
proof -
  note l = ticks_law [OF assms(2)]
  obtain W R L where q: "e1000_queues ram hh e (view d) W R L" using assms(1) by (auto simp: linked_def)
  have q': "e1000_queues ram hh e (view d') W R L" using queues_steps [OF q] l by blast
  then show ?thesis using queues_to_read [OF q] queues_to_read [OF q'] l [of t] by (auto simp: linked_def)
qed

end

text \<open>So the driver gives the network stack what its waiting loops rely on.\<close>

sublocale e1000_link \<subseteq> stack: nic_progress "e1000_nic b ticks" linked to_read "\<lambda>t x. left t (snd x)"
proof unfold_locales
  fix t :: u64 and x x' :: "e1000 \<times> 'd"
  assume i: "linked x"
  obtain e d e' d' where x: "x = (e, d)" "x' = (e', d')" by (metis surj_pair)
  show "linked x' \<and> to_read x' \<le> to_read x \<and> left t (snd x') \<le> left t (snd x)"
    if "nic_send (e1000_nic b ticks) f x = (ok, x')" for f ok
    using send_linked [of e d f ok e' d' t] i that by (simp add: x e1000_nic_def)
  show "linked x' \<and> to_read x' \<le> to_read x \<and> (f \<noteq> [] \<longrightarrow> to_read x' < to_read x) \<and> left t (snd x') \<le> left t (snd x)"
    if "nic_receive (e1000_nic b ticks) n x = (f, x')" for f n
    using receive_linked [of e d n f e' d' t] i that by (simp add: x e1000_nic_def)
  show "linked x' \<and> to_read x' \<le> to_read x \<and> left t (snd x') \<le> left t (snd x) \<and> (now < t \<longrightarrow> left t (snd x') < left t (snd x))"
    if "nic_ticks (e1000_nic b ticks) x = (now, x')" for now
    using ticks_linked [of e d now d' t] i that by (auto simp: x e1000_nic_def split: prod.splits)
qed

text \<open>
  A card with frames on the wire and a clock: before every access it sends what waits in its ring and takes the next frame off the wire
  if it has room for it; the clock advances with every reading.
\<close>

type_synonym link = "card \<times> u8 list list \<times> nat"

definition link_run :: "link \<Rightarrow> link" where
  "link_run x = (case x of (c, fs, t) \<Rightarrow> let c = card_run 8 c in
     case fs of [] \<Rightarrow> (c, [], t)
     | f # fs' \<Rightarrow> if rx_head c \<noteq> rx_tail c \<and> 0 < length f \<and> length f \<le> 2048 then (card_accept f c, fs', t) else (c, fs, t))"

definition link_bus :: "link bus" where
  "link_bus =
     \<lparr>bus_load = (\<lambda>a n x. let (c, r) = link_run x in (mem_get (cmem c) (a - sim_hhdm) n, c, r)),
      bus_store = (\<lambda>a bs x. let (c, r) = link_run x in (bus_store (sim_bus 0) a bs c, r))\<rparr>"

definition link_clock :: "link \<Rightarrow> u64 \<times> link" where
  "link_clock x = (case x of (c, fs, t) \<Rightarrow> (if t < 2 ^ 64 then of_nat t else - 1, c, fs, t + 1))"

definition link_view :: "link \<Rightarrow> card" where
  "link_view x = card_run 8 (fst x)"

lemma got_run [simp]: "got (card_run k c) = got c"
  by (induction k arbitrary: c) (simp_all add: card_transmit_def Let_def)

lemma link_run_steps:
  assumes "link_run x = (c, r)"
  shows "card_steps (link_view x) c" "length (got c) + length (fst r) = length (got (link_view x)) + length (fst (snd x))" "snd r = snd (snd x)"
proof -
  obtain c0 fs t where x: "x = (c0, fs, t)" by (metis surj_pair)
  have "card_steps (card_run 8 c0) (card_accept f (card_run 8 c0))" if "rx_head (card_run 8 c0) \<noteq> rx_tail (card_run 8 c0)" "0 < length f" "length f \<le> 2048" for f
    using card_step.accept [OF that] by blast
  moreover have "got (card_accept f c) = got c @ [f]" for f c by (simp add: card_accept_def Let_def)
  ultimately show "card_steps (link_view x) c" "length (got c) + length (fst r) = length (got (link_view x)) + length (fst (snd x))" "snd r = snd (snd x)"
    using assms by (auto simp: x link_run_def link_view_def Let_def split: list.splits if_splits)
qed

text \<open>Eight steps are enough to empty the ring.\<close>

lemma run_empties: "tx_tail c < 8 \<Longrightarrow> (tx_head c + n) mod 8 = tx_tail c \<Longrightarrow> tx_head c < 8 \<Longrightarrow> n \<le> k \<Longrightarrow> tx_head (card_run k c) = tx_tail c \<and> tx_tail (card_run k c) = tx_tail c"
proof (induction k arbitrary: c n)
  case (Suc k)
  show ?case
  proof (cases "tx_head c = tx_tail c")
    case False
    then obtain n' where n: "n = Suc n'" using Suc.prems by (cases n) auto
    have "tx_head (card_transmit c) = (tx_head c + 1) mod 8" "tx_tail (card_transmit c) = tx_tail c"
      by (simp_all add: card_transmit_def Let_def)
    then show ?thesis using Suc.IH [of "card_transmit c" n'] Suc.prems False n by (simp add: mod_add_left_eq)
  qed simp
qed simp

lemma run_done:
  assumes "tx_tail c < 8"
  shows "tx_head (card_run 8 c) = tx_tail (card_run 8 c)"
proof -
  have go: "tx_head (card_run k c) = tx_tail (card_run k c)" if "tx_tail c < 8" "tx_head c < 8" "7 \<le> k" for c k
  proof -
    define n where "n = (tx_tail c + 8 - tx_head c) mod 8"
    have "(tx_head c + n) mod 8 = (tx_head c + (tx_tail c + 8 - tx_head c)) mod 8" unfolding n_def by (rule mod_add_right_eq)
    then have "n < 8" "(tx_head c + n) mod 8 = tx_tail c" using that by (simp_all add: n_def)
    then show ?thesis using run_empties [of c n k] that by simp
  qed
  have e: "card_run 8 c = (if tx_head c = tx_tail c then c else card_run 7 (card_transmit c))"
    using card_run.simps(2) [of 7 c] by (simp only: Suc_numeral num.simps add_num_simps)
  have "tx_head (card_transmit c) < 8" "tx_tail (card_transmit c) = tx_tail c" by (simp_all add: card_transmit_def Let_def)
  then show ?thesis using go [of "card_transmit c" 7] assms unfolding e by simp
qed

lemma got_store [simp]: "got (bus_store (sim_bus 0) a bs c) = got c"
  by (simp add: sim_bus_def Let_def)

interpretation wire: e1000_link link_bus link_view sim_hhdm "2 ^ 40" link_clock "\<lambda>x. length (fst (snd x))" "\<lambda>t x. 2 ^ 64 - snd (snd x)"
proof unfold_locales
  have view: "card_steps c (link_view (c, r))" for c r using card_run_steps by (simp add: link_view_def)
  fix a v32 :: u64 and n :: nat and v :: u32 and bs :: "u8 list" and d d' :: link
  obtain c r where run: "link_run d = (c, r)" by (cases "link_run d")
  note st = link_run_steps [OF run]
  show "\<exists>c. card_steps (link_view d) c \<and> bs = mem_get (cmem c) a n \<and> card_steps c (link_view d')"
    if "bus_load link_bus (a + sim_hhdm) n d = (bs, d')"
  proof -
    have "bs = mem_get (cmem c) a n" "d' = (c, r)" using that by (simp_all add: link_bus_def run)
    then show ?thesis using st(1) view by blast
  qed
  have store: "bus_store link_bus a bs d = (bus_store (sim_bus 0) a bs c, r)" for a bs by (simp add: link_bus_def run)
  have join: "\<exists>e. card_steps (link_view d) e \<and> card_steps (f e) (link_view (bus_store link_bus a bs d))"
    if "\<exists>e. card_steps c e \<and> card_steps (f e) (bus_store (sim_bus 0) a bs c)" for f a bs
    using that st(1) view unfolding store by (meson rtranclp_trans)
  show "\<exists>c. card_steps (link_view d) c \<and> card_steps (c\<lparr>cmem := mem_put (cmem c) a bs\<rparr>) (link_view (bus_store link_bus (a + sim_hhdm) bs d))"
    if "unat a + length bs \<le> 2 ^ 40" by (rule join [where f = "\<lambda>c. c\<lparr>cmem := mem_put (cmem c) a bs\<rparr>", OF sim.store_law [OF that]])
  show "\<exists>c. card_steps (link_view d) c \<and> card_steps (c\<lparr>tx_tail := unat v\<rparr>) (link_view (bus_store link_bus (E1000_MMIO_VIRT + ucast REG_TDT) (bytes32 v) d))"
    by (rule join [where f = "\<lambda>c. c\<lparr>tx_tail := unat v\<rparr>", OF sim.tx_tail_law])
  show "\<exists>c. card_steps (link_view d) c \<and> card_steps (c\<lparr>rx_tail := unat v\<rparr>) (link_view (bus_store link_bus (E1000_MMIO_VIRT + ucast REG_RDT) (bytes32 v) d))"
    by (rule join [where f = "\<lambda>c. c\<lparr>rx_tail := unat v\<rparr>", OF sim.rx_tail_law])
  show "e1000_queues (2 ^ 40) sim_hhdm e (link_view d) W R 6" if q: "e1000_queues (2 ^ 40) sim_hhdm e (link_view d) W R L" for e W R L
  proof -
    obtain P where P: "tx_rings e (link_view d) P" using q by (auto simp: e1000_queues_def)
    have "tx_tail (card_run k c) = tx_tail c" for k c by (induction k arbitrary: c) (simp_all add: card_transmit_def Let_def)
    moreover have t: "tx_tail (link_view d) = tx_cur e" "tx_cur e < 8" using P tx_cur_less [OF P] unfolding tx_rings_def by blast+
    ultimately have "tx_head (link_view d) = tx_tail (link_view d)" using run_done [of "fst d"] by (simp only: link_view_def)
    then have h: "tx_head (link_view d) mod 8 = tx_cur e" using t by simp
    have "P = []" if "tx_rings e (link_view d) P" for P using tx_own [OF that, of 0] h by simp
    then have "length P \<le> 6" if "tx_rings e (link_view d) P" for P using that by fastforce
    then show ?thesis using q unfolding e1000_queues_def by blast
  qed
  fix t :: u64
  show "length (got (link_view d')) + length (fst (snd d')) \<le> length (got (link_view d)) + length (fst (snd d)) \<and> 2 ^ 64 - snd (snd d') \<le> 2 ^ 64 - snd (snd d)"
    if "bus_load link_bus a n d = (bs, d')"
  proof -
    have "d' = (c, r)" using that by (simp add: link_bus_def run)
    then show ?thesis using st(2,3) by (simp add: link_view_def)
  qed
  show "length (got (link_view d')) + length (fst (snd d')) \<le> length (got (link_view d)) + length (fst (snd d)) \<and> 2 ^ 64 - snd (snd d') \<le> 2 ^ 64 - snd (snd d)"
    if "bus_store link_bus a bs d = d'"
    using that st(2,3) by (auto simp: store link_view_def)
  show "card_steps (link_view d) (link_view d') \<and>
      length (got (link_view d')) + length (fst (snd d')) \<le> length (got (link_view d)) + length (fst (snd d)) \<and>
      2 ^ 64 - snd (snd d') \<le> 2 ^ 64 - snd (snd d) \<and> (now < t \<longrightarrow> 2 ^ 64 - snd (snd d') < 2 ^ 64 - snd (snd d))"
    if "link_clock d = (now, d')" for now
  proof -
    obtain c0 fs k where d: "d = (c0, fs, k)" by (metis surj_pair)
    have "k < 2 ^ 64" if "now < t"
    proof (rule ccontr)
      assume "\<not> k < 2 ^ 64"
      then have "now = - 1" using \<open>link_clock d = (now, d')\<close> by (simp add: link_clock_def d)
      then show False using that word_order.extremum_strict by blast
    qed
    then show ?thesis using that by (auto simp: link_clock_def d link_view_def)
  qed
qed

context e1000_link
begin

lemma ping_returns:
  assumes "e1000_queues ram hh e (view d) W R L" "coming d + length (got (view d)) < depth + length R" "stack_ready s"
  shows "\<exists>x s' e' d'. net_ping depth (e1000_nic b ticks) ip q (s, e, d) = Some (x, s', e', d') \<and> \<not> ping_wait_active s' \<and>
    (x \<noteq> - 1 \<longrightarrow> ping_got_reply s')"
proof -
  have "linked (e, d)" "to_read (e, d) < depth" using assms(1,2) queues_to_read [OF assms(1)] by (auto simp: linked_def)
  from stack.net_ping_returns [OF this assms(3)] show ?thesis by fastforce
qed

end

text \<open>
  C23. Sending an echo request always comes back. Polling for the reply, and for the answers to ARP
  requests before it, handles whatever frames arrive, and an echo request among these makes the
  stack resolve an address in turn. But on the driver of the card, with a card that keeps up with what it is given to send, finitely many frames to come
  and a clock that passes every deadline, \<open>net_ping\<close> returns, with the wait flag cleared, and it reports a round-trip time
  only when the flag for the reply, which it cleared, has been set by a reply. A nesting depth above the number of
  frames to come and waiting in the receive ring suffices.
\<close>

theorem net_ping_terminates:
  assumes "e1000_link b view hh ram ticks coming left" "e1000_queues ram hh e (view d) W R L"
    and "coming d + length (got (view d)) < depth + length R" "stack_ready s"
  shows "\<exists>x s' e' d'. net_ping depth (e1000_nic b ticks) ip q (s, e, d) = Some (x, s', e', d') \<and> \<not> ping_wait_active s' \<and>
    (x \<noteq> - 1 \<longrightarrow> ping_got_reply s')"
  by (rule e1000_link.ping_returns [OF assms])

text \<open>An ARP request is on its way when the machine starts to send an echo request to another one.\<close>

theorem net_ping_terminates_witness:
  "\<exists>x s' e' d'. net_ping 2 (e1000_nic link_bus link_clock) 0x0A000202 1 (example_net [], sim_driver, sim_card, [example_arp], 0) =
      Some (x, s', e', d') \<and> \<not> ping_wait_active s'"
proof -
  have v: "link_view (sim_card, [example_arp], 0) = card_run 8 sim_card" by (simp add: link_view_def)
  have "e1000_queues (2 ^ 40) sim_hhdm sim_driver (link_view (sim_card, [example_arp], 0)) [] [] 0"
    unfolding v using queues_steps [OF sim_queues card_run_steps] .
  moreover have "got (link_view (sim_card, [example_arp], 0)) = []" unfolding v got_run by (simp add: sim_card_def)
  ultimately show ?thesis using net_ping_terminates [OF wire.e1000_link_axioms, of sim_driver "(sim_card, [example_arp], 0)" "[]" "[]" 0 2 "example_net []" "0x0A000202" 1]
    by (auto simp: example_net_def)
qed

end
