(* ===== verification/Machine.thy ===== *)
theory Machine
  imports Console Ps2 Syscall Fat32 E1000
begin

text \<open>
  The whole machine: the state of every component side by side, and the calls with which the code above the
  components (the shell, the boot sequence, the exception handler) reaches them. Console and mouse cursor
  share the framebuffer.
\<close>

section \<open>State\<close>

record ('u, 'd) machine = ps2 +
  m_con :: fbcon
  m_line :: 'u
  m_dev :: 'd
  m_sys :: user
  m_mem :: mem
  m_ticks :: u64
  m_hz :: u32
  m_fs :: fat
  m_ata :: ata
  m_net :: net
  m_card :: e1000
  m_gdt :: gdt
  m_run_file :: "u8 list"

text \<open>
  What is fixed: the serial line, which has ports of its own, the other ports, the bus of the network card, what interrupts
  do while the processor halts, the clock as the network stack polls it, the processor's identification,
  the depth of nesting allowed in the network stack, the addresses of the entry points of processes and
  the program built into the image.
\<close>

record ('u, 'd) env =
  e_line :: "'u io"
  e_ports :: "'d io"
  e_bus :: "'d bus"
  e_halt :: "('u, 'd) machine \<Rightarrow> ('u, 'd) machine"
  e_clock :: "'d \<Rightarrow> u64 \<times> 'd"
  e_cpuid :: "u32 \<Rightarrow> u32 \<times> u32 \<times> u32 \<times> u32"
  e_depth :: nat
  e_run_entry :: u64
  e_test_entry :: u64
  e_program :: "u8 list"

section \<open>Calls\<close>

text \<open>The console writes into the machine's framebuffer.\<close>

definition get_con :: "('u, 'd) machine \<Rightarrow> fbcon" where
  "get_con m = (m_con m)\<lparr>fb_buffer := fb_buffer m, fb_width := fb_width m, fb_height := fb_height m, fb_pitch := fb_pitch m,
     fb_bpp := fb_bpp m, fb_mem := fb_mem m\<rparr>"

definition put_con :: "fbcon \<Rightarrow> ('u, 'd) machine \<Rightarrow> ('u, 'd) machine" where
  "put_con c m = m\<lparr>fb_buffer := fb_buffer c, fb_width := fb_width c, fb_height := fb_height c, fb_pitch := fb_pitch c,
     fb_bpp := fb_bpp c, fb_mem := fb_mem c, m_con := c\<rparr>"

definition put_out :: "(unit, 'u) out \<Rightarrow> ('u, 'd) machine \<Rightarrow> ('u, 'd) machine" where
  "put_out w m = (put_con (fst w) m)\<lparr>m_line := snd w\<rparr>"

definition putc :: "('u, 'd) env \<Rightarrow> u8 \<Rightarrow> ('u, 'd) machine \<Rightarrow> ('u, 'd) machine option" where
  "putc E c m = map_option (\<lambda>w. put_out w m) (kputchar (e_line E) c (get_con m, m_line m))"

text \<open>
  \<open>kprintf\<close> of a literal format: what the console component shows it to print. The address of a string plays no part. A string
  argument that does not fit into the 1024 bytes of \<open>kprintf\<close> sends \<open>vsnprintf\<close> round its buffer for \<open>2 ^ 64\<close> steps, which is left undefined here.
\<close>

definition say :: "('u, 'd) env \<Rightarrow> u8 list \<Rightarrow> arg list \<Rightarrow> ('u, 'd) machine \<Rightarrow> ('u, 'd) machine option" where
  "say E fmt args m = Option.bind (formatted 1024 fmt args) (\<lambda>cs. foldM (putc E) cs m)"

definition text_arg :: "u8 list \<Rightarrow> arg" where
  "text_arg cs = Str 1 cs"

definition say_lines :: "('u, 'd) env \<Rightarrow> u8 list list \<Rightarrow> ('u, 'd) machine \<Rightarrow> ('u, 'd) machine option" where
  "say_lines E ls m = foldM (\<lambda>l. say E l []) ls m"

text \<open>Formats are written with the line break at their end, and with a tilde for a backslash.\<close>

definition nl :: "string \<Rightarrow> u8 list" where
  "nl s = ascii s @ [10]"

definition art :: "string \<Rightarrow> u8 list" where
  "art s = map (\<lambda>c. if c = 0x7E then 0x5C else c) (ascii s)"

definition set_color :: "u32 \<Rightarrow> ('u, 'd) machine \<Rightarrow> ('u, 'd) machine" where
  "set_color c m = put_con (fbcon_set_color c (get_con m)) m"

definition sleep :: "('u, 'd) env \<Rightarrow> u32 \<Rightarrow> ('u, 'd) machine \<Rightarrow> ('u, 'd) machine option" where
  "sleep E ms m = sleep_until (e_halt E) m_ticks (m_ticks m + ucast (ms * m_hz m div 1000)) m"

definition disk_of :: "('u, 'd) env \<Rightarrow> ('u, 'd) machine \<Rightarrow> 'd disk" where
  "disk_of E m = ata_disk (e_ports E) (m_ata m)"

text \<open>A call into the file system, the processes or the network stack, on the machine's state.\<close>

definition on_disk :: "('d disk \<Rightarrow> fat \<Rightarrow> 'd \<Rightarrow> ('r \<times> 'd) option) \<Rightarrow> ('u, 'd) env \<Rightarrow> ('u, 'd) machine \<Rightarrow> ('r \<times> ('u, 'd) machine) option" where
  "on_disk f E m = map_option (\<lambda>(r, d). (r, m\<lparr>m_dev := d\<rparr>)) (f (disk_of E m) (m_fs m) (m_dev m))"

definition on_sys :: "(user \<Rightarrow> ('r \<times> user) option) \<Rightarrow> ('u, 'd) machine \<Rightarrow> ('r \<times> ('u, 'd) machine) option" where
  "on_sys f m = map_option (\<lambda>(r, s). (r, m\<lparr>m_sys := s\<rparr>)) (f (m_sys m))"

definition on_net :: "((e1000 \<times> 'd) nic \<Rightarrow> net \<times> e1000 \<times> 'd \<Rightarrow> ('r \<times> net \<times> e1000 \<times> 'd) option) \<Rightarrow> ('u, 'd) env \<Rightarrow> ('u, 'd) machine \<Rightarrow>
    ('r \<times> ('u, 'd) machine) option" where
  "on_net f E m = map_option (\<lambda>(r, s, e, d). (r, m\<lparr>m_net := s, m_card := e, m_dev := d\<rparr>))
     (f (e1000_nic (e_bus E) (e_clock E)) (m_net m, m_card m, m_dev m))"

section \<open>What is printed\<close>

lemma get_put_con [simp]: "get_con (put_con c m) = c"
  by (cases c, cases m) (simp add: get_con_def put_con_def)

lemma get_put_out [simp]: "get_con (put_out w m) = fst w" "m_line (put_out w m) = snd w"
proof -
  have "get_con (put_out w m) = get_con (put_con (fst w) m)" by (simp add: get_con_def put_out_def)
  then show "get_con (put_out w m) = fst w" by simp
qed (simp add: put_out_def)

lemma put_put_out [simp]: "put_out v (put_out w m) = put_out v m"
  by (simp add: put_out_def put_con_def)

lemma put_out_fields [simp]:
  "m_dev (put_out w m) = m_dev m" "m_sys (put_out w m) = m_sys m" "m_mem (put_out w m) = m_mem m" "m_ticks (put_out w m) = m_ticks m"
  "m_fs (put_out w m) = m_fs m" "m_ata (put_out w m) = m_ata m" "m_net (put_out w m) = m_net m" "m_card (put_out w m) = m_card m"
  "kb_buffer (put_out w m) = kb_buffer m" "kb_buffer_head (put_out w m) = kb_buffer_head m" "kb_buffer_tail (put_out w m) = kb_buffer_tail m"
  "m_hz (put_out w m) = m_hz m" "m_gdt (put_out w m) = m_gdt m"
  by (simp_all add: put_out_def put_con_def)

lemma get_con_update [simp]:
  "get_con (m\<lparr>m_dev := d\<rparr>) = get_con m" "get_con (m\<lparr>m_sys := s\<rparr>) = get_con m" "get_con (m\<lparr>m_mem := e\<rparr>) = get_con m"
  "get_con (m\<lparr>m_net := n\<rparr>) = get_con m" "get_con (m\<lparr>m_card := x\<rparr>) = get_con m" "get_con (m\<lparr>kb_buffer_tail := t\<rparr>) = get_con m"
  by (simp_all add: get_con_def)

text \<open>Printing changes nothing else.\<close>

definition off_screen :: "('u, 'd) machine \<Rightarrow> ('u, 'd) machine \<Rightarrow> bool" where
  "off_screen m m' \<longleftrightarrow> (\<forall>w. put_out w m' = put_out w m)"

lemma off_screen_refl [simp]: "off_screen m m"
  by (simp add: off_screen_def)

lemma off_screen_trans: "off_screen m m' \<Longrightarrow> off_screen m' m'' \<Longrightarrow> off_screen m m''"
  by (simp add: off_screen_def)

lemma off_screenD:
  assumes "off_screen m m'"
  shows "m_dev m' = m_dev m" "m_sys m' = m_sys m" "m_mem m' = m_mem m" "m_ticks m' = m_ticks m" "m_fs m' = m_fs m" "m_ata m' = m_ata m"
    "m_net m' = m_net m" "m_card m' = m_card m" "kb_buffer m' = kb_buffer m" "kb_buffer_head m' = kb_buffer_head m"
    "kb_buffer_tail m' = kb_buffer_tail m" "m_hz m' = m_hz m" "m_gdt m' = m_gdt m"
  using assms put_out_fields [of undefined m] put_out_fields [of undefined m'] unfolding off_screen_def by metis+

definition prints :: "('u \<Rightarrow> u8 list) \<Rightarrow> u8 list \<Rightarrow> ('u, 'd) machine \<Rightarrow> ('u, 'd) machine \<Rightarrow> bool" where
  "prints sent cs m m' \<longleftrightarrow> off_screen m m' \<and> printed sent cs (get_con m, m_line m) (get_con m', m_line m')"

lemma prints_inv: "prints sent cs m m' \<Longrightarrow> con_inv (get_con m')"
  by (simp add: prints_def printed_def)

lemma prints_Nil: "con_inv (get_con m) \<Longrightarrow> prints sent [] m m"
  using printed_Nil [of "(get_con m, m_line m)"] by (simp add: prints_def)

lemma prints_append: "prints sent cs m m' \<Longrightarrow> prints sent ds m' m'' \<Longrightarrow> prints sent (cs @ ds) m m''"
  using off_screen_trans printed_append by (auto simp: prints_def)

lemma putc_prints:
  assumes "uart (e_line E) k sent" "con_inv (get_con m)"
  shows "\<exists>m'. putc E c m = Some m' \<and> prints sent [c] m m'"
proof -
  obtain w where "kputchar (e_line E) c (get_con m, m_line m) = Some w" "printed sent [c] (get_con m, m_line m) w"
    using kputchar_prints [OF assms(1), of "(get_con m, m_line m)" c] assms(2) by auto
  then show ?thesis by (simp add: putc_def prints_def off_screen_def)
qed

lemma putcs_print:
  assumes "uart (e_line E) k sent" "con_inv (get_con m)"
  shows "\<exists>m'. foldM (putc E) cs m = Some m' \<and> prints sent cs m m'"
  using assms(2)
proof (induction cs arbitrary: m)
  case Nil
  then show ?case using prints_Nil by simp
next
  case (Cons c cs)
  obtain v where v: "putc E c m = Some v" "prints sent [c] m v"
    using putc_prints [OF assms(1) Cons.prems] by blast
  from Cons.IH [OF prints_inv [OF v(2)]] obtain m' where "foldM (putc E) cs v = Some m'" "prints sent cs v m'" by auto
  then show ?case using v(1) prints_append [OF v(2), of cs m'] by simp
qed

lemma say_prints:
  assumes "uart (e_line E) k sent" "con_inv (get_con m)" "formatted 1024 fmt args = Some cs"
  shows "\<exists>m'. say E fmt args m = Some m' \<and> prints sent cs m m'"
  using putcs_print [OF assms(1,2)] by (simp add: say_def assms(3))

lemma off_screen_keys: "off_screen m m' \<Longrightarrow> kb_ok m' = kb_ok m \<and> kb_queue m' = kb_queue m"
  using off_screenD(9-11) [of m m'] by (simp add: kb_ok_def kb_queue_def kb_count_def)

end
