(* ===== verification/Shell.thy ===== *)
theory Shell
  imports Machine
begin

text \<open>
  The shell, \<^verbatim>\<open>shell/shell.c\<close>: reading a line, taking it apart, and the commands, on the state of the whole machine.
  A C string is the list of its characters. An operation is undefined where a component's is, and
  where it waits for something that never comes.
\<close>

section \<open>Colours and line lengths\<close>

definition FBC_GREEN :: u32 where "FBC_GREEN = FB_COLOR 80 220 90"
definition FBC_CYAN :: u32 where "FBC_CYAN = FB_COLOR 80 200 220"
definition FBC_BLUE :: u32 where "FBC_BLUE = FB_COLOR 100 150 255"
definition FBC_YELLOW :: u32 where "FBC_YELLOW = FB_COLOR 230 200 90"
definition FBC_RED :: u32 where "FBC_RED = FB_COLOR 230 90 90"

abbreviation (input) MAX_CMD_LEN :: nat where "MAX_CMD_LEN \<equiv> 256"

section \<open>Commands that report\<close>

definition help_lines :: "u8 list list" where
  "help_lines = map nl
    ['''', ''  GravityOS Shell Commands:'', ''  ========================'',
     ''  help       - Show this help message'', ''  clear      - Clear the screen'', ''  echo <msg> - Print a message'',
     ''  fetch      - System summary with logo'', ''  usermode   - Run a test program in ring 3'',
     ''  ls         - List files on disk'', ''  cat <file> - Print a file from disk'',
     ''  write <file> <text> - Write text to a file'', ''  rm <file>  - Delete a file'',
     ''  df         - Show free disk space'', ''  run <file> - Load an ELF from disk and run it in ring 3'',
     ''  disk       - Show ATA disk info and dump sector 0'', ''  net        - Show network configuration'',
     ''  ping <ip>  - Send ICMP echo requests'', ''  mem        - Show physical memory usage'',
     ''  uptime     - Show system uptime'', ''  gravity    - Show GravityOS info'', ''  reboot     - Reboot the system'',
     ''  dumb       - Halt the CPU'', '''']"

definition cmd_help :: "('u, 'd) env \<Rightarrow> ('u, 'd) machine \<Rightarrow> ('u, 'd) machine option" where
  "cmd_help E m = say_lines E help_lines m"

definition cmd_clear :: "('u, 'd) machine \<Rightarrow> ('u, 'd) machine option" where
  "cmd_clear m = map_option (\<lambda>c. put_con c m) (fbcon_clear (get_con m))"

definition cmd_mem :: "('u, 'd) env \<Rightarrow> ('u, 'd) machine \<Rightarrow> ('u, 'd) machine option" where
  "cmd_mem E m =
     (let all = total_memory (m_sys m); freem = free_memory (m_sys m)
      in say E (nl ''Physical memory: %lu MB total, %lu MB free, %lu KB used'')
           [Num (all div (1024 * 1024)), Num (freem div (1024 * 1024)), Num ((all - freem) div 1024)] m)"

definition cmd_echo :: "('u, 'd) env \<Rightarrow> u8 list option \<Rightarrow> ('u, 'd) machine \<Rightarrow> ('u, 'd) machine option" where
  "cmd_echo E args m = (case args of Some a \<Rightarrow> say E (nl ''%s'') [text_arg a] m | None \<Rightarrow> say E (nl '''') [] m)"

definition cmd_uptime :: "('u, 'd) env \<Rightarrow> ('u, 'd) machine \<Rightarrow> ('u, 'd) machine option" where
  "cmd_uptime E m =
     (let ticks = m_ticks m; seconds = ticks div 100; minutes = seconds div 60; hours = minutes div 60
      in say E (nl ''Uptime: %lu hours, %lu minutes, %lu seconds'') [Num hours, Num (minutes mod 60), Num (seconds mod 60)] m)"

section \<open>Programs\<close>

text \<open>
  The body of the process that \<open>run\<close> creates; the result is the frame with which it enters the program, if
  it gets that far. The file is read into memory from the heap.
\<close>

definition exit_process :: "('u, 'd) machine \<Rightarrow> (iret_frame option \<times> ('u, 'd) machine) option" where
  "exit_process m = map_option (\<lambda>(_, m). (None, m)) (on_sys (\<lambda>s. process_exit (process_get_current_pid s) s) m)"

definition run_elf_process :: "('u, 'd) env \<Rightarrow> ('u, 'd) machine \<Rightarrow> (iret_frame option \<times> ('u, 'd) machine) option" where
  "run_elf_process E m =
     Option.bind (on_disk (\<lambda>dk fs. fat32_file_size dk fs (m_run_file m)) E m) (\<lambda>(n, m).
     if n \<le> 0 then Option.bind (say E (nl ''run: %s: no such file'') [text_arg (m_run_file m)] m) exit_process else
     Option.bind (on_sys (kmalloc (of_int n)) m) (\<lambda>(buf, m).
     if buf = 0 then Option.bind (say E (nl ''run: out of memory'') [] m) exit_process else
     Option.bind (on_disk (\<lambda>dk fs. fat32_read_file dk fs (m_run_file m) (of_int n)) E m) (\<lambda>((rc, bs), m).
     let m = m\<lparr>m_mem := store (m_mem m) buf bs\<rparr> in
     if rc < 0 then Option.bind (say E (nl ''run: read error'') [] m) (\<lambda>m. exit_process (m\<lparr>m_sys := kfree buf (m_sys m)\<rparr>)) else
     Option.bind (on_sys (elf_load (m_mem m) buf) m) (\<lambda>(ep, m).
     let m = m\<lparr>m_sys := kfree buf (m_sys m)\<rparr> in
     case ep of None \<Rightarrow> exit_process m
     | Some ep \<Rightarrow> let (frame, s) = usermode_enter (m_gdt m) ep (USER_STACK_VIRT + USER_STACK_SIZE - 16) (m_sys m)
                     in Some (Some frame, m\<lparr>m_sys := s\<rparr>)))))"

definition cmd_run :: "('u, 'd) env \<Rightarrow> u8 list option \<Rightarrow> ('u, 'd) machine \<Rightarrow> ('u, 'd) machine option" where
  "cmd_run E filename m =
     (case filename of None \<Rightarrow> say E (nl ''usage: run <file.elf>'') [] m
      | Some f \<Rightarrow>
          if \<not> fat32_mounted (m_fs m) then say E (nl ''run: no filesystem mounted'') [] m else
          Option.bind (on_sys (process_create (e_run_entry E)) (m\<lparr>m_run_file := take 31 f\<rparr>)) (\<lambda>(pid, m).
          if pid = 0 then say E (nl ''run: could not create process'') [] m else sleep E 300 m))"

definition cmd_usermode :: "('u, 'd) env \<Rightarrow> ('u, 'd) machine \<Rightarrow> ('u, 'd) machine option" where
  "cmd_usermode E m =
     Option.bind (say E (nl ''Starting ring 3 test program...'') [] m) (\<lambda>m.
     Option.bind (on_sys (process_create (e_test_entry E)) m) (\<lambda>(pid, m).
     if pid = 0 then say E (nl ''gsh: could not create user mode process'') [] m else sleep E 200 m))"

section \<open>The network\<close>

text \<open>The scan of an address: its parts so far, the index of the current one and the digits it has; it ends at a blank or at the end.\<close>

fun ipv4_scan :: "u8 list \<Rightarrow> u32 list \<Rightarrow> nat \<Rightarrow> nat \<Rightarrow> (u32 list \<times> nat \<times> nat) option" where
  "ipv4_scan [] parts part digits = Some (parts, part, digits)"
| "ipv4_scan (c # cs) parts part digits =
     (if 0x30 \<le> c \<and> c \<le> 0x39 then
        let v = parts ! part * 10 + ucast (c - 0x30) in if v > 255 then None else ipv4_scan cs (parts[part := v]) part (digits + 1)
      else if c = 0x2E then if digits = 0 \<or> part = 3 then None else ipv4_scan cs parts (part + 1) 0
      else if c = 0x20 then Some (parts, part, digits)
      else None)"

definition parse_ipv4 :: "u8 list \<Rightarrow> u32 option" where
  "parse_ipv4 txt =
     (case ipv4_scan txt [0, 0, 0, 0] 0 0 of None \<Rightarrow> None
      | Some (parts, part, digits) \<Rightarrow>
          if part \<noteq> 3 \<or> digits = 0 then None
          else Some (push_bit 24 (parts ! 0) OR push_bit 16 (parts ! 1) OR push_bit 8 (parts ! 2) OR parts ! 3))"

definition ip_args :: "u32 \<Rightarrow> arg list" where
  "ip_args ip = [Num (ucast (drop_bit 24 ip AND 0xFF)), Num (ucast (drop_bit 16 ip AND 0xFF)), Num (ucast (drop_bit 8 ip AND 0xFF)), Num (ucast (ip AND 0xFF))]"

definition print_ip :: "('u, 'd) env \<Rightarrow> u32 \<Rightarrow> ('u, 'd) machine \<Rightarrow> ('u, 'd) machine option" where
  "print_ip E ip m = say E (ascii ''%u.%u.%u.%u'') (ip_args ip) m"

definition cmd_net :: "('u, 'd) env \<Rightarrow> ('u, 'd) machine \<Rightarrow> ('u, 'd) machine option" where
  "cmd_net E m =
     (if \<not> e1000_present (m_card m) then say E (nl ''net: no network card'') [] m else
      Option.bind (say E (nl ''MAC:      %02x:%02x:%02x:%02x:%02x:%02x'') (map (\<lambda>i. Num (ucast (e1000_mac (m_card m) ! i))) [0..<6]) m) (\<lambda>m.
      Option.bind (say E (ascii ''IPv4:     '') [] m) (\<lambda>m.
      Option.bind (print_ip E (net_local_ip (m_net m)) m) (\<lambda>m.
      Option.bind (say E (10 # ascii ''Gateway:  '') [] m) (\<lambda>m.
      Option.bind (print_ip E (net_gateway_ip (m_net m)) m) (\<lambda>m.
      say E (10 # nl ''Packets:  %u received, %u sent'') [Num (ucast (net_rx_count (m_net m))), Num (ucast (net_tx_count (m_net m)))] m))))))"

text \<open>The four echo requests; the counter of the replies is threaded through them.\<close>

primrec ping_loop :: "u16 list \<Rightarrow> ('u, 'd) env \<Rightarrow> u32 \<Rightarrow> u32 \<times> ('u, 'd) machine \<Rightarrow> (u32 \<times> ('u, 'd) machine) option" where
  "ping_loop [] E ip w = Some w"
| "ping_loop (seq # seqs) E ip w =
     (let (received, m) = w in
      Option.bind (on_net (\<lambda>nic w. net_ping (e_depth E) nic ip seq w) E m) (\<lambda>(rtt, m).
      Option.bind (if rtt <s 0 then say E (nl ''  seq=%u  timeout'') [Num (ucast seq)] m
                   else say E (nl ''  seq=%u  reply in %d ms'') [Num (ucast seq), Num (ucast (rtt * 10))] m) (\<lambda>m.
      Option.bind (sleep E 200 m) (\<lambda>m. ping_loop seqs E ip (if rtt <s 0 then received else received + 1, m)))))"

definition cmd_ping :: "('u, 'd) env \<Rightarrow> u8 list option \<Rightarrow> ('u, 'd) machine \<Rightarrow> ('u, 'd) machine option" where
  "cmd_ping E target m =
     (case target of None \<Rightarrow> say E (nl ''usage: ping <ip>'') [] m
      | Some t \<Rightarrow>
          if \<not> net_ready (m_net m) then say E (nl ''ping: network not ready'') [] m else
          (case parse_ipv4 t of None \<Rightarrow> say E (ascii ''ping: invalid address '' @ [0x27, 0x25, 0x73, 0x27, 10]) [text_arg t] m
           | Some ip \<Rightarrow>
               Option.bind (say E (ascii ''PING '') [] m) (\<lambda>m.
               Option.bind (print_ip E ip m) (\<lambda>m.
               Option.bind (say E (nl '''') [] m) (\<lambda>m.
               Option.bind (ping_loop [1, 2, 3, 4] E ip (0, m)) (\<lambda>(received, m).
               say E (nl ''  %d/4 replies'') [Num (ucast received)] m))))))"

section \<open>Files\<close>

primrec print_rows :: "('u, 'd) env \<Rightarrow> (u8 list \<times> u32 option) list \<Rightarrow> ('u, 'd) machine \<Rightarrow> ('u, 'd) machine option" where
  "print_rows E [] m = Some m"
| "print_rows E (row # rows) m =
     (let (name, n) = row in
      Option.bind (case n of None \<Rightarrow> say E (nl ''  %s <DIR>'') [text_arg name] m
                   | Some n \<Rightarrow> say E (nl ''  %s %lu bytes'') [text_arg name, Num (ucast n)] m) (print_rows E rows))"

definition cmd_ls :: "('u, 'd) env \<Rightarrow> ('u, 'd) machine \<Rightarrow> ('u, 'd) machine option" where
  "cmd_ls E m =
     (if \<not> fat32_mounted (m_fs m) then say E (nl ''gsh: no filesystem mounted'') [] m else
      Option.bind (on_disk fat32_list_root E m) (\<lambda>((count, rows), m).
      Option.bind (print_rows E rows m) (\<lambda>m.
      if count \<ge> 0 then say E (nl ''  (%d entries)'') [Num (of_int count)] m else Some m)))"

definition cmd_cat :: "('u, 'd) env \<Rightarrow> u8 list option \<Rightarrow> ('u, 'd) machine \<Rightarrow> ('u, 'd) machine option" where
  "cmd_cat E filename m =
     (case filename of None \<Rightarrow> say E (nl ''usage: cat <file>'') [] m
      | Some f \<Rightarrow>
     if \<not> fat32_mounted (m_fs m) then say E (nl ''gsh: no filesystem mounted'') [] m else
     Option.bind (on_disk (\<lambda>dk fs. fat32_file_size dk fs f) E m) (\<lambda>(n, m).
     if n < 0 then say E (nl ''cat: %s: no such file'') [text_arg f] m
     else if n = 0 then say E (nl ''cat: %s is empty'') [text_arg f] m else
     Option.bind (on_sys (kmalloc (of_int n + 1)) m) (\<lambda>(buf, m).
     if buf = 0 then say E (nl ''cat: out of memory'') [] m else
     Option.bind (on_disk (\<lambda>dk fs. fat32_read_file dk fs f (of_int n)) E m) (\<lambda>((count, bs), m).
     let m = m\<lparr>m_mem := store (m_mem m) buf bs\<rparr> in
     if count < 0 then
       map_option (\<lambda>m. m\<lparr>m_sys := kfree buf (m_sys m)\<rparr>) (say E (nl ''cat: read error (%d)'') [Num (of_int count)] m)
     else
       let m = m\<lparr>m_mem := (m_mem m)(buf + of_int count := 0)\<rparr> in
       Option.bind (foldM (\<lambda>i m. putc E (m_mem m (buf + of_nat i)) m) [0..<nat count] m) (\<lambda>m.
       Option.bind (if count > 0 \<and> m_mem m (buf + of_int (count - 1)) \<noteq> 10 then putc E 10 m else Some m) (\<lambda>m.
       Some (m\<lparr>m_sys := kfree buf (m_sys m)\<rparr>)))))))"

text \<open>The buffer of the text to write holds 512 bytes, one of them for the line break.\<close>

definition cmd_write :: "('u, 'd) env \<Rightarrow> u8 list option \<Rightarrow> ('u, 'd) machine \<Rightarrow> ('u, 'd) machine option" where
  "cmd_write E args m =
     (case args of None \<Rightarrow> say E (nl ''usage: write <file> <text>'') [] m
      | Some a \<Rightarrow>
     if \<not> fat32_mounted (m_fs m) then say E (nl ''write: no filesystem mounted'') [] m
     else if 0x20 \<notin> set a then say E (nl ''usage: write <file> <text>'') [] m else
     let f = takeWhile (\<lambda>c. c \<noteq> 0x20) a;
         txt = dropWhile (\<lambda>c. c = 0x20) (drop (length f + 1) a);
         buffer = take 510 txt @ [10]
     in Option.bind (on_disk (\<lambda>dk fs. fat32_write_file dk fs f buffer) E m) (\<lambda>(written, m).
     if written < 0 then say E (nl ''write: failed (%d)'') [Num (of_int written)] m
     else say E (nl ''%s: %d bytes written'') [text_arg f, Num (of_int written)] m))"

definition cmd_rm :: "('u, 'd) env \<Rightarrow> u8 list option \<Rightarrow> ('u, 'd) machine \<Rightarrow> ('u, 'd) machine option" where
  "cmd_rm E filename m =
     (case filename of None \<Rightarrow> say E (nl ''usage: rm <file>'') [] m
      | Some f \<Rightarrow>
     Option.bind (on_disk (\<lambda>dk fs. fat32_delete_file dk fs f) E m) (\<lambda>(rc, m).
     if rc \<noteq> 0 then say E (nl ''rm: %s: no such file'') [text_arg f] m else say E (nl ''%s deleted'') [text_arg f] m))"

definition cmd_df :: "('u, 'd) env \<Rightarrow> ('u, 'd) machine \<Rightarrow> ('u, 'd) machine option" where
  "cmd_df E m =
     (if \<not> fat32_mounted (m_fs m) then say E (nl ''df: no filesystem mounted'') [] m else
      Option.bind (on_disk (\<lambda>dk fs d. Some (fat32_free_space dk fs d)) E m) (\<lambda>(free_bytes, m).
      say E (nl ''Free space: %lu KB (%lu MB)'') [Num (free_bytes div 1024), Num (free_bytes div (1024 * 1024))] m))"

text \<open>A row of the dump: sixteen bytes in hexadecimal, then as characters.\<close>

definition dump_row :: "('u, 'd) env \<Rightarrow> u8 list \<Rightarrow> nat \<Rightarrow> ('u, 'd) machine \<Rightarrow> ('u, 'd) machine option" where
  "dump_row E sector row m =
     Option.bind (say E (ascii ''  %04x  '') [Num (of_nat (row * 16))] m) (\<lambda>m.
     Option.bind (foldM (\<lambda>i. say E (ascii ''%02x '') [Num (ucast (sector ! (row * 16 + i)))]) [0..<16] m) (\<lambda>m.
     Option.bind (say E (ascii '' |'') [] m) (\<lambda>m.
     Option.bind (foldM (\<lambda>i. let c = sector ! (row * 16 + i) in
         say E (ascii ''%c'') [Num (ucast (if 32 \<le> c \<and> c < 127 then c else 0x2E))]) [0..<16] m) (say E (nl ''|'') []))))"

definition cmd_disk :: "('u, 'd) env \<Rightarrow> ('u, 'd) machine \<Rightarrow> ('u, 'd) machine option" where
  "cmd_disk E m =
     (if \<not> ata_present (m_ata m) then say E (nl ''gsh: no ATA disk detected'') [] m else
      Option.bind (say E (nl ''Model:   %s'') [text_arg (takeWhile (\<lambda>c. c \<noteq> 0) (ata_model (m_ata m)))] m) (\<lambda>m.
      let n = ata_sector_count (m_ata m) in
      Option.bind (say E (nl ''Sectors: %u (%u MB)'') [Num (ucast n), Num (ucast (n div 2048))] m) (\<lambda>m.
      let (ok, sector, d) = ata_read_sectors (e_ports E) (m_ata m) 0 1 (m_dev m); m = m\<lparr>m_dev := d\<rparr> in
      if \<not> ok then say E (nl ''gsh: read failed'') [] m else
      Option.bind (say E (nl ''LBA 0, first 64 bytes:'') [] m) (foldM (dump_row E sector) [0..<4]))))"

section \<open>The summary\<close>

text \<open>The name that the processor gives, without leading blanks.\<close>

definition cpu_brand :: "('u, 'd) env \<Rightarrow> nat \<Rightarrow> u8 list" where
  "cpu_brand E n =
     (if fst (e_cpuid E 0x80000000) < 0x80000004 \<or> n < 49 then ascii ''Unknown x86_64 CPU'' else
      let out = concat (map (\<lambda>leaf. let (a, b, c, d) = e_cpuid E leaf in bytes32 a @ bytes32 b @ bytes32 c @ bytes32 d)
                  [0x80000002, 0x80000003, 0x80000004])
      in dropWhile (\<lambda>c. c = 0x20) (takeWhile (\<lambda>c. c \<noteq> 0) out))"

definition logo :: "u8 list list" where
  "logo = map art
    [''   ______                 '', ''  / ____/_______ __   __  '', '' / / __/ ___/ _ ~~ ~ / /  '',
     ''/ /_/ / /  /  __/ ~ V /   '', ''~____/_/   ~___/  ~_/     ''] @ replicate 5 (replicate 26 0x20)"

text \<open>The lines are formatted into buffers of 80 bytes, which have room for every string argument.\<close>

definition info_line :: "u8 list \<Rightarrow> arg list \<Rightarrow> u8 list option" where
  "info_line fmt args = formatted 80 fmt args"

definition fetch_info :: "('u, 'd) env \<Rightarrow> ('u, 'd) machine \<Rightarrow> u8 list option list" where
  "fetch_info E m =
     (let seconds = m_ticks m div 100;
          all = total_memory (m_sys m) div (1024 * 1024);
          used_kb = (total_memory (m_sys m) - free_memory (m_sys m)) div 1024
      in [info_line (ascii ''root@gravityos'') [], info_line (ascii ''--------------'') [],
          info_line (ascii ''OS:         GravityOS v0.1.0 x86_64'') [],
          info_line (ascii ''Kernel:     gravity-monolithic (higher-half)'') [],
          info_line (ascii ''Bootloader: Limine'') [],
          info_line (ascii ''Uptime:     %lu min %lu sec'') [Num (seconds div 60), Num (seconds mod 60)],
          info_line (ascii ''Shell:      gsh'') [],
          info_line (ascii ''Resolution: %ux%u'') [Num (ucast (fb_get_width m)), Num (ucast (fb_get_height m))],
          info_line (ascii ''CPU:        %s'') [text_arg (cpu_brand E 64)],
          info_line (ascii ''Memory:     %lu KB / %lu MB   (%d process)'')
            [Num used_kb, Num all, Num (of_nat (process_count_alive (m_sys m)))]])"

definition fetch_row :: "('u, 'd) env \<Rightarrow> u8 list list \<Rightarrow> nat \<Rightarrow> ('u, 'd) machine \<Rightarrow> ('u, 'd) machine option" where
  "fetch_row E info i m =
     Option.bind (say E (ascii ''%s'') [text_arg (logo ! i)] (set_color FBC_CYAN m)) (\<lambda>m.
     say E (nl ''  %s'') [text_arg (info ! i)] (set_color (if i < 2 then FBC_GREEN else FBC_GREY) m))"

definition cmd_fetch :: "('u, 'd) env \<Rightarrow> ('u, 'd) machine \<Rightarrow> ('u, 'd) machine option" where
  "cmd_fetch E m =
     Option.bind (those (fetch_info E m)) (\<lambda>info.
     Option.bind (say E (nl '''') [] m) (\<lambda>m.
     Option.bind (foldM (fetch_row E info) [0..<10] m) (\<lambda>m. say E (nl '''') [] (set_color FBC_GREY m))))"

definition gravity_logo :: "u8 list list" where
  "gravity_logo = nl '''' # map (\<lambda>l. art l @ [10])
    [''   ______                 _ __        ____  _____'', ''  / ____/_______ __   __ (_) /___  __/ __ ~/ ___/'',
     '' / / __/ ___/ _ ~~ ~ / // / __/ / / / / / /~__ ~ '', ''/ /_/ / /  /  __/ ~ V // / /_/ /_/ / /_/ /___/ / '',
     ''~____/_/   ~___/  ~_//_/~__/~__, /~____//____/  '', ''                           /____/                '']"

definition gravity_text :: "u8 list list" where
  "gravity_text =
     [10 # ascii ''  GravityOS v0.1.0 '' @ [0xE2, 0x80, 0x94] @ nl '' A 64-bit Operating System'',
      nl ''  Architecture: x86_64 (Long Mode)'', nl ''  Built with love, Assembly & C'' @ [10]]"

definition cmd_gravity :: "('u, 'd) env \<Rightarrow> ('u, 'd) machine \<Rightarrow> ('u, 'd) machine option" where
  "cmd_gravity E m =
     Option.bind (say_lines E gravity_logo (set_color FBC_CYAN m)) (\<lambda>m.
     map_option (set_color FBC_GREY) (say_lines E gravity_text (set_color FBC_YELLOW m)))"

section \<open>Stopping the machine\<close>

datatype outcome = Continues | Resets | Halts

text \<open>The wait for the keyboard controller to be ready for a command.\<close>

partial_function (option) reboot_wait :: "'d io \<Rightarrow> 'd \<Rightarrow> 'd option" where
  "reboot_wait io d =
     (let (status, d) = inb io 0x64 d; d = (if status AND 1 \<noteq> 0 then snd (inb io 0x60 d) else d) in
      if status AND 2 \<noteq> 0 then reboot_wait io d else Some d)"

definition cmd_reboot :: "('u, 'd) env \<Rightarrow> ('u, 'd) machine \<Rightarrow> (outcome \<times> ('u, 'd) machine) option" where
  "cmd_reboot E m =
     Option.bind (say E (nl ''Rebooting...'') [] m) (\<lambda>m.
     map_option (\<lambda>d. (Resets, m\<lparr>m_dev := outb (e_ports E) 0x64 0xFE d\<rparr>)) (reboot_wait (e_ports E) (m_dev m)))"

definition cmd_halt :: "('u, 'd) env \<Rightarrow> ('u, 'd) machine \<Rightarrow> (outcome \<times> ('u, 'd) machine) option" where
  "cmd_halt E m = map_option (Pair Halts) (say E (nl ''System halted.'') [] m)"

section \<open>Reading and running a line\<close>

partial_function (option) readline :: "('u, 'd) env \<Rightarrow> nat \<Rightarrow> u8 list \<Rightarrow> ('u, 'd) machine \<Rightarrow> (u8 list \<times> ('u, 'd) machine) option" where
  "readline E max_len buf m =
     (if length buf + 1 < max_len then
        Option.bind (keyboard_getchar (e_halt E) m) (\<lambda>(c, m).
        if c = 10 then map_option (Pair buf) (putc E 10 m)
        else if c = 8 then
          if buf \<noteq> [] then Option.bind (putc E 8 m) (readline E max_len (butlast buf)) else readline E max_len buf m
        else if c = 9 then readline E max_len buf m
        else if 32 \<le> c \<and> c < 127 then Option.bind (putc E c m) (readline E max_len (buf @ [c]))
        else readline E max_len buf m)
      else Some (buf, m))"

text \<open>A line is the command up to the first blank and the arguments after the blanks, if there is anything.\<close>

definition split_line :: "u8 list \<Rightarrow> (u8 list \<times> u8 list option) option" where
  "split_line line =
     (let l = dropWhile (\<lambda>c. c = 0x20) line in
      if l = [] then None
      else if 0x20 \<in> set l then
        let cmd = takeWhile (\<lambda>c. c \<noteq> 0x20) l; a = dropWhile (\<lambda>c. c = 0x20) (drop (length cmd + 1) l)
        in Some (cmd, if a = [] then None else Some a)
      else Some (l, None))"

definition process_command :: "('u, 'd) env \<Rightarrow> u8 list \<Rightarrow> ('u, 'd) machine \<Rightarrow> (outcome \<times> ('u, 'd) machine) option" where
  "process_command E line m =
     (case split_line line of None \<Rightarrow> Some (Continues, m)
      | Some (cmd, args) \<Rightarrow>
     let continue = map_option (Pair Continues); is = (\<lambda>s. cmd = ascii s) in
     if is ''help'' then continue (cmd_help E m)
     else if is ''clear'' \<or> is ''cls'' then continue (cmd_clear m)
     else if is ''echo'' then continue (cmd_echo E args m)
     else if is ''net'' then continue (cmd_net E m)
     else if is ''ping'' then continue (cmd_ping E args m)
     else if is ''run'' then continue (cmd_run E args m)
     else if is ''ls'' \<or> is ''dir'' then continue (cmd_ls E m)
     else if is ''cat'' then continue (cmd_cat E args m)
     else if is ''write'' then continue (cmd_write E args m)
     else if is ''rm'' \<or> is ''del'' then continue (cmd_rm E args m)
     else if is ''df'' then continue (cmd_df E m)
     else if is ''disk'' then continue (cmd_disk E m)
     else if is ''usermode'' \<or> is ''ring3'' then continue (cmd_usermode E m)
     else if is ''fetch'' \<or> is ''neofetch'' then continue (cmd_fetch E m)
     else if is ''mem'' then continue (cmd_mem E m)
     else if is ''uptime'' then continue (cmd_uptime E m)
     else if is ''gravity'' then continue (cmd_gravity E m)
     else if is ''reboot'' then cmd_reboot E m
     else if is ''dumb'' then cmd_halt E m
     else continue (map_option (set_color FBC_GREY)
       (say E (nl ''gsh: command not found: %s'') [text_arg cmd] (set_color FBC_RED m))))"

definition prompt :: "('u, 'd) env \<Rightarrow> ('u, 'd) machine \<Rightarrow> ('u, 'd) machine option" where
  "prompt E m =
     Option.bind (say E (ascii ''gravity'') [] (set_color FBC_GREEN m)) (\<lambda>m.
     Option.bind (say E (ascii ''@'') [] (set_color FBC_CYAN m)) (\<lambda>m.
     Option.bind (say E (ascii ''os'') [] (set_color FBC_BLUE m)) (\<lambda>m.
     say E (ascii ''$ '') [] (set_color FBC_GREY m))))"

text \<open>The loop ends only when the machine does.\<close>

partial_function (option) shell_loop :: "('u, 'd) env \<Rightarrow> ('u, 'd) machine \<Rightarrow> (outcome \<times> ('u, 'd) machine) option" where
  "shell_loop E m =
     Option.bind (prompt E m) (\<lambda>m.
     Option.bind (readline E MAX_CMD_LEN [] m) (\<lambda>(line, m).
     Option.bind (process_command E line m) (\<lambda>(oc, m).
     if oc = Continues then shell_loop E m else Some (oc, m))))"

definition shell_run :: "('u, 'd) env \<Rightarrow> ('u, 'd) machine \<Rightarrow> (outcome \<times> ('u, 'd) machine) option" where
  "shell_run E m =
     Option.bind (say E (nl '''') [] m) (\<lambda>m.
     Option.bind (say E (nl ''Welcome to GravityOS!'') [] (set_color FBC_GREEN m)) (\<lambda>m.
     Option.bind (say E (ascii ''Type '' @ [0x27] @ ascii ''help'' @ [0x27] @ nl '' for available commands.'' @ [10]) [] (set_color FBC_GREY m))
       (shell_loop E)))"

section \<open>What reading a line does\<close>

text \<open>The effect of a key on the line and what appears for it.\<close>

definition edit_key :: "u8 list \<Rightarrow> u8 \<Rightarrow> u8 list" where
  "edit_key buf c = (if c = 8 then butlast buf else if 32 \<le> c \<and> c < 127 then buf @ [c] else buf)"

fun echo :: "u8 list \<Rightarrow> u8 list \<Rightarrow> u8 list" where
  "echo buf [] = []"
| "echo buf (c # ks) = (if c = 8 then (if buf = [] then [] else [8]) else if 32 \<le> c \<and> c < 127 then [c] else []) @ echo (edit_key buf c) ks"

lemma getchar_queue:
  assumes "kb_ok m" "kb_queue m = c # q"
  shows "\<exists>m'. keyboard_getchar wait m = Some (c, m') \<and> kb_ok m' \<and> kb_queue m' = q \<and> m' = m\<lparr>kb_buffer_tail := kb_buffer_tail m'\<rparr>"
proof -
  have r: "keyboard_has_input m" using kb.ready_iff [OF assms(1)] assms(2) by simp
  then have "keyboard_getchar wait m = Some (kb_get m)" by (subst keyboard_getchar.simps) (simp add: kb_get_def)
  moreover have "kb_ok (snd (kb_get m)) \<and> fst (kb_get m) = c \<and> kb_queue (snd (kb_get m)) = q"
    using kb.get_queue [OF assms(1) r] kb.get_inv [OF assms(1) r] assms(2) by auto
  moreover have "snd (kb_get m) = m\<lparr>kb_buffer_tail := kb_buffer_tail (snd (kb_get m))\<rparr>" by (simp add: kb_get_def)
  ultimately show ?thesis by (metis prod.collapse)
qed

lemma readline_reads:
  assumes line: "uart (e_line E) k sent"
  shows "con_inv (get_con m) \<Longrightarrow> kb_ok m \<Longrightarrow> kb_queue m = ks @ 10 # rest \<Longrightarrow> 10 \<notin> set ks \<Longrightarrow>
    (\<forall>j\<le>length ks. length (foldl edit_key buf (take j ks)) + 1 < max_len) \<Longrightarrow>
    \<exists>m'. readline E max_len buf m = Some (foldl edit_key buf ks, m') \<and> kb_ok m' \<and> kb_queue m' = rest \<and>
      printed sent (echo buf ks @ [10]) (get_con m, m_line m) (get_con m', m_line m')"
proof (induction ks arbitrary: m buf)
  case Nil
  then have l: "length buf + 1 < max_len" by simp
  obtain m1 where g: "keyboard_getchar (e_halt E) m = Some (10, m1)" "kb_ok m1" "kb_queue m1 = rest" "m1 = m\<lparr>kb_buffer_tail := kb_buffer_tail m1\<rparr>"
    using getchar_queue [OF Nil.prems(2), of 10 rest] Nil.prems(3) by auto
  have con: "get_con m1 = get_con m" "m_line m1 = m_line m" by (subst g(4), simp)+
  obtain m' where p: "putc E 10 m1 = Some m'" "prints sent [10] m1 m'" using putc_prints [OF line, of m1 10] Nil.prems(1) con by auto
  have q: "kb_ok m'" "kb_queue m' = rest" using g(2,3) off_screen_keys [of m1 m'] p(2) by (auto simp: prints_def)
  show ?case using l g(1) p q con by (subst readline.simps) (simp add: prints_def)
next
  case (Cons c ks)
  have c: "c \<noteq> 10" "10 \<notin> set ks" and l: "length buf + 1 < max_len" using Cons.prems(4,5) by auto
  obtain m1 where g: "keyboard_getchar (e_halt E) m = Some (c, m1)" "kb_ok m1" "kb_queue m1 = ks @ 10 # rest" "m1 = m\<lparr>kb_buffer_tail := kb_buffer_tail m1\<rparr>"
    using getchar_queue [OF Cons.prems(2), of c "ks @ 10 # rest"] Cons.prems(3) by auto
  have con: "get_con m1 = get_con m" "m_line m1 = m_line m" by (subst g(4), simp)+
  have next_len: "\<forall>j\<le>length ks. length (foldl edit_key (edit_key buf c) (take j ks)) + 1 < max_len"
  proof (intro allI impI)
    fix j assume "j \<le> length ks"
    then show "length (foldl edit_key (edit_key buf c) (take j ks)) + 1 < max_len" using Cons.prems(5) [rule_format, of "Suc j"] by simp
  qed
  let ?out = "if c = 8 then (if buf = [] then [] else [8]) else if 32 \<le> c \<and> c < 127 then [c] else []"
  obtain m2 where s: "readline E max_len buf m = readline E max_len (edit_key buf c) m2" "prints sent ?out m1 m2"
  proof (cases "?out = []")
    case True
    then have "readline E max_len buf m = readline E max_len (edit_key buf c) m1"
      using l g(1) c(1) by (subst readline.simps) (auto simp: edit_key_def split: if_splits)
    then show thesis using that [of m1] True prints_Nil [of m1] Cons.prems(1) con by simp
  next
    case False
    then obtain d where d: "?out = [d]" "d = c \<or> d = 8" by (auto split: if_splits)
    obtain m2 where p: "putc E d m1 = Some m2" "prints sent [d] m1 m2" using putc_prints [OF line, of m1 d] Cons.prems(1) con by auto
    have "readline E max_len buf m = readline E max_len (edit_key buf c) m2"
      using l g(1) c(1) p(1) d by (subst readline.simps) (auto simp: edit_key_def split: if_splits)
    then show thesis using that [of m2] d(1) p(2) by simp
  qed
  have q: "kb_ok m2" "kb_queue m2 = ks @ 10 # rest" using g(2,3) off_screen_keys [of m1 m2] s(2) by (auto simp: prints_def)
  from Cons.IH [OF prints_inv [OF s(2)] q c(2) next_len] obtain m' where
    "readline E max_len (edit_key buf c) m2 = Some (foldl edit_key (edit_key buf c) ks, m')" "kb_ok m'" "kb_queue m' = rest"
    "printed sent (echo (edit_key buf c) ks @ [10]) (get_con m2, m_line m2) (get_con m', m_line m')" by blast
  moreover have "printed sent ?out (get_con m, m_line m) (get_con m2, m_line m2)" using s(2) con by (simp add: prints_def)
  ultimately have "printed sent (?out @ echo (edit_key buf c) ks @ [10]) (get_con m, m_line m) (get_con m', m_line m')"
    using printed_append by blast
  moreover have "echo buf (c # ks) @ [10] = ?out @ echo (edit_key buf c) ks @ [10]" by simp
  ultimately show ?case using s(1) \<open>kb_ok m'\<close> \<open>kb_queue m' = rest\<close> \<open>readline E max_len (edit_key buf c) m2 = _\<close> by (metis foldl_Cons)
qed

text \<open>
  C36. Whatever is typed and whatever happens in between, the line that \<open>readline\<close> returns fits into its buffer with the
  terminating zero and contains only printable characters.
\<close>

theorem readline_bounds:
  assumes "readline E max_len [] m = Some (line, m')" and "0 < max_len"
  shows "length line < max_len \<and> (\<forall>c\<in>set line. 32 \<le> c \<and> c < 127)"
proof -
  have "0 < max_len \<longrightarrow> length buf < max_len \<longrightarrow> (\<forall>c\<in>set buf. 32 \<le> c \<and> c < 127) \<longrightarrow>
      length (fst r) < max_len \<and> (\<forall>c\<in>set (fst r). 32 \<le> c \<and> c < 127)"
    if "readline E max_len buf m = Some r" for E :: "('a, 'b) env" and max_len buf m r
    using that
  proof (induction rule: readline.raw_induct [rotated 1, consumes 1])
    case (1 rl E max_len buf m r)
    show ?case
    proof (cases "length buf + 1 < max_len")
      case True
      then obtain c m1 where g: "keyboard_getchar (e_halt E) m = Some (c, m1)" using 1(2)
        by (cases "keyboard_getchar (e_halt E) m") auto
      have "c = 10 \<and> fst r = buf \<or> (\<exists>buf' m2. rl E max_len buf' m2 = Some r \<and>
          (buf' = buf \<or> buf' = butlast buf \<or> buf' = buf @ [c] \<and> 32 \<le> c \<and> c < 127))"
        using 1(2) by (simp only: True g simp_thms if_True bind.bind_lunit prod.case) (auto split: if_splits dest!: bind_eq_SomeD)
      then show ?thesis
      proof
        assume "\<exists>buf' m2. rl E max_len buf' m2 = Some r \<and> (buf' = buf \<or> buf' = butlast buf \<or> buf' = buf @ [c] \<and> 32 \<le> c \<and> c < 127)"
        then obtain buf' m2 where b: "rl E max_len buf' m2 = Some r" "buf' = buf \<or> buf' = butlast buf \<or> buf' = buf @ [c] \<and> 32 \<le> c \<and> c < 127" by blast
        have "length buf' < max_len" using b(2) True by (elim disjE) simp_all
        moreover have "(\<forall>c\<in>set buf. 32 \<le> c \<and> c < 127) \<longrightarrow> (\<forall>c\<in>set buf'. 32 \<le> c \<and> c < 127)"
        proof (cases "buf' = butlast buf")
          case True
          then show ?thesis by (simp add: in_set_butlastD)
        qed (use b(2) in auto)
        ultimately show ?thesis using 1(1) [OF b(1)] by blast
      qed simp
    qed (use 1(2) in auto)
  qed
  from this [OF assms(1)] show ?thesis using assms(2) by simp
qed

section \<open>Addresses\<close>

lemma digit_char_less: "d < 10 \<Longrightarrow> 0x30 \<le> digit_char (of_nat d) \<and> digit_char (of_nat d) \<le> 0x39 \<and> ucast (digit_char (of_nat d) - 0x30) = (of_nat d :: u32)"
proof -
  assume d: "d < 10"
  then have u: "unat (digit_char (of_nat d)) = 0x30 + d" using unat_digit_char [of d] by simp
  then have l: "0x30 \<le> digit_char (of_nat d)" "digit_char (of_nat d) \<le> 0x39" using d by (simp_all add: word_le_nat_alt)
  have "unat (digit_char (of_nat d) - 0x30) = d" using u l(1) by (simp add: unat_sub)
  then have "unat (ucast (digit_char (of_nat d) - 0x30) :: u32) = d" using d by (simp add: unsigned_ucast_eq take_bit_nat_eq_self)
  moreover have "unat (of_nat d :: u32) = d" using d by (simp add: unat_of_nat)
  ultimately show ?thesis using l by (simp add: word_unat_eq_iff)
qed

lemma scan_digits:
  assumes "\<forall>d\<in>set ds. d < 10" "foldl (\<lambda>a d. a * 10 + d) v ds \<le> 255" "part < length parts" "parts ! part = of_nat v"
  shows "ipv4_scan (map (\<lambda>d. digit_char (of_nat d)) ds @ rest) parts part k =
    ipv4_scan rest (parts[part := of_nat (foldl (\<lambda>a d. a * 10 + d) v ds)]) part (k + length ds)"
  using assms
proof (induction ds arbitrary: v parts k)
  case Nil
  then show ?case by (metis add_0_right append_Nil foldl_Nil list.map(1) list.size(3) list_update_id)
next
  case (Cons d ds)
  have mono: "x \<le> foldl (\<lambda>a d. a * 10 + d) x ds" for x
  proof (induction ds arbitrary: x)
    case (Cons e ds)
    show ?case using Cons [of "x * 10 + e"] by simp
  qed simp
  have le: "v * 10 + d \<le> 255" using mono [of "v * 10 + d"] Cons.prems(2) by simp
  let ?w = "of_nat (v * 10 + d) :: u32"
  have w: "parts ! part * 10 + of_nat d = ?w" by (simp add: Cons.prems(4))
  have "unat ?w = v * 10 + d" using le by (simp add: unsigned_of_nat take_bit_nat_eq_self del: of_nat_add of_nat_mult)
  then have nle: "\<not> ?w > 255" using le by (simp add: word_less_nat_alt del: of_nat_add of_nat_mult)
  have dc: "0x30 \<le> digit_char (of_nat d)" "digit_char (of_nat d) \<le> 0x39" "ucast (digit_char (of_nat d) - 0x30) = (of_nat d :: u32)"
    using digit_char_less [of d] Cons.prems(1) by auto
  have "ipv4_scan (map (\<lambda>d. digit_char (of_nat d)) (d # ds) @ rest) parts part k =
      ipv4_scan (map (\<lambda>d. digit_char (of_nat d)) ds @ rest) (parts[part := ?w]) part (k + 1)"
    using dc nle w by (simp add: Let_def del: of_nat_add of_nat_mult)
  also have "\<dots> = ipv4_scan rest ((parts[part := ?w])[part := of_nat (foldl (\<lambda>a d. a * 10 + d) (v * 10 + d) ds)]) part (k + 1 + length ds)"
    using Cons.prems by (intro Cons.IH) auto
  finally show ?case by simp
qed

lemma scan_number:
  assumes "n \<le> 255" "part < length parts" "parts ! part = 0"
  shows "\<exists>k. 0 < k \<and> ipv4_scan (number_string 10 n @ rest) parts part 0 = ipv4_scan rest (parts[part := of_nat n]) part k"
proof -
  let ?ds = "rev (udigits 10 n)"
  have "foldl (\<lambda>a d. a * 10 + d) 0 ?ds = n" using udigits_value [of 10 n] by (simp add: foldl_conv_foldr)
  moreover have "\<forall>d\<in>set ?ds. d < 10" using udigits_less [of 10] by simp
  moreover have "number_string 10 n = map (\<lambda>d. digit_char (of_nat d)) ?ds" by (simp add: number_string_def rev_map)
  moreover have "0 < length ?ds" by (subst udigits.simps) simp
  ultimately show ?thesis using scan_digits [of ?ds 0 part parts rest 0] assms by auto
qed

definition dotted :: "u32 \<Rightarrow> u8 list" where
  "dotted ip = number_string 10 (unat (drop_bit 24 ip AND 0xFF)) @ 0x2E # number_string 10 (unat (drop_bit 16 ip AND 0xFF)) @ 0x2E #
     number_string 10 (unat (drop_bit 8 ip AND 0xFF)) @ 0x2E # number_string 10 (unat (ip AND 0xFF))"

lemma octet: "unat (x AND 0xFF :: u32) \<le> 255" "unat (va_unsigned False (ucast (x AND 0xFF))) = unat (x AND 0xFF)" "of_nat (unat x) = x"
proof -
  have "x AND 0xFF \<le> 0xFF" by (rule word_and_le1)
  then show "unat (x AND 0xFF) \<le> 255" by (simp add: word_le_nat_alt)
  have "(ucast (ucast y :: u64) :: u32) = y" for y :: u32 by (rule bit_eqI) (auto simp: bit_simps)
  moreover have "unat (ucast y :: u64) = unat y" for y :: u32
    using unsigned_less [of y, where 'a = nat] by (simp add: unsigned_ucast_eq take_bit_nat_eq_self)
  ultimately show "unat (va_unsigned False (ucast (x AND 0xFF))) = unat (x AND 0xFF)" by (simp add: va_unsigned_def)
qed simp

lemma render_ip: "render (ascii ''%u.%u.%u.%u'') (ip_args ip) = Some (dotted ip)"
  by (simp add: ascii_def split_directive_def skip_char_def render_directive_def is_digit_def Stdio.padded_def ip_args_def dotted_def octet)

lemma parse_dotted: "parse_ipv4 (dotted ip) = Some ip"
proof -
  let ?a = "unat (drop_bit 24 ip AND 0xFF)" and ?b = "unat (drop_bit 16 ip AND 0xFF)" and ?c = "unat (drop_bit 8 ip AND 0xFF)" and ?d = "unat (ip AND 0xFF)"
  let ?r3 = "0x2E # number_string 10 ?d"
  let ?r2 = "0x2E # number_string 10 ?c @ ?r3"
  let ?r1 = "0x2E # number_string 10 ?b @ ?r2"
  have dot: "0 < k \<Longrightarrow> part \<noteq> 3 \<Longrightarrow> ipv4_scan (0x2E # cs) parts part k = ipv4_scan cs parts (part + 1) 0" for cs parts part and k :: nat
    by simp
  obtain k1 where 1: "0 < k1" "ipv4_scan (number_string 10 ?a @ ?r1) [0, 0, 0, 0] 0 0 = ipv4_scan ?r1 ([0, 0, 0, 0][0 := of_nat ?a]) 0 k1"
    using scan_number [OF octet(1), of 0 "[0, 0, 0, 0]" "drop_bit 24 ip" ?r1] by auto
  obtain k2 where 2: "0 < k2" "ipv4_scan (number_string 10 ?b @ ?r2) [of_nat ?a, 0, 0, 0] 1 0 = ipv4_scan ?r2 ([of_nat ?a, 0, 0, 0][1 := of_nat ?b]) 1 k2"
    using scan_number [OF octet(1), of 1 "[of_nat ?a, 0, 0, 0]" "drop_bit 16 ip" ?r2] by auto
  obtain k3 where 3: "0 < k3" "ipv4_scan (number_string 10 ?c @ ?r3) [of_nat ?a, of_nat ?b, 0, 0] 2 0 = ipv4_scan ?r3 ([of_nat ?a, of_nat ?b, 0, 0][2 := of_nat ?c]) 2 k3"
    using scan_number [OF octet(1), of 2 "[of_nat ?a, of_nat ?b, 0, 0]" "drop_bit 8 ip" ?r3] by auto
  obtain k4 where 4: "0 < k4" "ipv4_scan (number_string 10 ?d @ []) [of_nat ?a, of_nat ?b, of_nat ?c, 0] 3 0 = ipv4_scan [] ([of_nat ?a, of_nat ?b, of_nat ?c, 0][3 := of_nat ?d]) 3 k4"
    using scan_number [OF octet(1), of 3 "[of_nat ?a, of_nat ?b, of_nat ?c, 0]" ip "[]"] by auto
  have "push_bit 24 (drop_bit 24 ip AND 0xFF) OR push_bit 16 (drop_bit 16 ip AND 0xFF) OR push_bit 8 (drop_bit 8 ip AND 0xFF) OR (ip AND 0xFF) = ip"
  proof -
    have m: "0xFF = (mask 8 :: u32)" by (simp add: mask_eq_exp_minus_1)
    show ?thesis unfolding m
    proof (rule bit_eqI)
      fix n assume "possible_bit TYPE(u32) n"
      then have "n < 32" by (simp add: possible_bit_word)
      consider "n < 8" | "8 \<le> n" "n < 16" | "16 \<le> n" "n < 24" | "24 \<le> n" by linarith
      then show "bit (push_bit 24 (drop_bit 24 ip AND mask 8) OR push_bit 16 (drop_bit 16 ip AND mask 8) OR
          push_bit 8 (drop_bit 8 ip AND mask 8) OR (ip AND mask 8)) n = bit ip n"
        using \<open>n < 32\<close> by cases (auto simp: bit_simps)
    qed
  qed
  moreover have "ipv4_scan (dotted ip) [0, 0, 0, 0] 0 0 = Some ([of_nat ?a, of_nat ?b, of_nat ?c, of_nat ?d], 3, k4)"
  proof -
    have u: "[0, 0, 0, 0][0 := x] = [x, 0, 0, 0]" "[x, 0, 0, 0][1 := y] = [x, y, 0, 0]" "[x, y, 0, 0][2 := z] = [x, y, z, 0]"
      "[x, y, z, 0][3 := t] = [x, y, z, t]" for x y z t :: u32 by (simp_all add: numeral_2_eq_2 numeral_3_eq_3)
    have "dotted ip = number_string 10 ?a @ ?r1" by (simp add: dotted_def)
    then have "ipv4_scan (dotted ip) [0, 0, 0, 0] 0 0 = ipv4_scan ?r1 [of_nat ?a, 0, 0, 0] 0 k1" using 1(2) unfolding u by simp
    also have "\<dots> = ipv4_scan (number_string 10 ?b @ ?r2) [of_nat ?a, 0, 0, 0] 1 0" using dot [OF 1(1), of 0] by (simp del: ipv4_scan.simps)
    also have "\<dots> = ipv4_scan ?r2 [of_nat ?a, of_nat ?b, 0, 0] 1 k2" using 2(2) unfolding u .
    also have "\<dots> = ipv4_scan (number_string 10 ?c @ ?r3) [of_nat ?a, of_nat ?b, 0, 0] 2 0" using dot [OF 2(1), of 1] by (simp del: ipv4_scan.simps add: numeral_2_eq_2)
    also have "\<dots> = ipv4_scan ?r3 [of_nat ?a, of_nat ?b, of_nat ?c, 0] 2 k3" using 3(2) unfolding u .
    also have "\<dots> = ipv4_scan (number_string 10 ?d @ []) [of_nat ?a, of_nat ?b, of_nat ?c, 0] 3 0" using dot [OF 3(1), of 2] by (simp del: ipv4_scan.simps)
    also have "\<dots> = ipv4_scan [] [of_nat ?a, of_nat ?b, of_nat ?c, of_nat ?d] 3 k4" using 4(2) unfolding u .
    finally show ?thesis by simp
  qed
  ultimately show ?thesis using 4(1) by (simp add: parse_ipv4_def octet)
qed

lemma formatted_ip: "formatted 1024 (ascii ''%u.%u.%u.%u'') (ip_args ip) = Some (dotted ip)"
proof (rule formatted_short [OF render_ip])
  have "length (number_string 10 (unat (x AND 0xFF))) \<le> 64" for x :: u32
    using octet(1) [of x] by (intro number_string_length) simp_all
  from this [of "drop_bit 24 ip"] this [of "drop_bit 16 ip"] this [of "drop_bit 8 ip"] this [of ip]
  show "length (dotted ip) < 1024" by (simp add: dotted_def)
  show "0 \<notin> set (dotted ip)" using number_string_nonzero [of 10] by (simp add: dotted_def)
qed

text \<open>
  C37. Every address is read back as it is shown: \<open>print_ip\<close> prints the four bytes of an address in decimal with dots between them, on the console
  and on the serial line, and nothing else, and \<open>parse_ipv4\<close> turns what it prints into this address.
\<close>

theorem print_ip_correct:
  assumes "uart (e_line E) k sent" "con_inv (get_con m)"
  shows "\<exists>m'. print_ip E ip m = Some m' \<and> prints sent (dotted ip) m m' \<and> parse_ipv4 (dotted ip) = Some ip"
  using say_prints [OF assms formatted_ip] parse_dotted by (simp add: print_ip_def)

section \<open>Writing a file and printing it\<close>

context volume
begin

lemma file_size:
  assumes hd: "holds_vol d t g" and vol: "fat_volume fs N t g R F"
  shows "\<exists>d'. holds_vol d' t g \<and> fat32_file_size dk fs name d = Some ((case fat_files fs g R F (to_short_name name) of
      None \<Rightarrow> -1 | Some bs \<Rightarrow> sint (of_nat (length bs) :: u32)), d')"
proof -
  let ?n = "to_short_name name"
  note v = volumeD [OF vol]
  obtain d1 where d1: "find_named dk fs name d = Some (map_option (\<lambda>x. (slot_lba fs x, slot_off x, fat_ent g x)) (fat_lookup g (slots R) ?n), d1)"
    "holds_vol d1 t g" using find_named_lookup [OF hd v(1)] by blast
  show ?thesis
  proof (cases "fat_lookup g (slots R) ?n")
    case None
    then show ?thesis using d1 geom(11) by (auto simp: fat32_file_size_def find_entry_def fat_files_def)
  next
    case (Some x)
    then have "length (take (fat_size_of g x) (fat_content g (F x))) = unat (load32 (fat_ent g x) 28)"
      using content_size [OF hd vol, of x] lookup_in by (fastforce simp: fat_size_of_def)
    then have "sint (of_nat (length (take (fat_size_of g x) (fat_content g (F x)))) :: u32) = sint (load32 (fat_ent g x) 28)" by simp
    then show ?thesis using d1 Some geom(11) by (simp add: fat32_file_size_def find_entry_def fat_files_def)
  qed
qed

end

lemma sint_below: "n < 2 ^ 31 \<Longrightarrow> sint (of_nat n :: u32) = int n"
proof -
  have "(ucast (of_nat n :: u64) :: u32) = of_nat n" by (simp add: word_unat_eq_iff unsigned_ucast_eq unsigned_of_nat)
  then show "n < 2 ^ 31 \<Longrightarrow> sint (of_nat n :: u32) = int n" using sint_length [of n] by simp
qed

lemma store_reads:
  assumes "unat p + length bs \<le> 2 ^ 64" "i < length bs"
  shows "store m p bs (p + of_nat i) = bs ! i"
proof -
  have "unat (p + of_nat i) = unat p + i"
    using assms by (simp add: unat_word_ariths unat_of_nat)
  then show ?thesis using assms by (simp add: store_nth)
qed

text \<open>What \<open>cat\<close> prints of a file: its bytes, and a line break if they do not end in one.\<close>

definition cat_text :: "u8 list \<Rightarrow> u8 list" where
  "cat_text bs = (if last bs = 10 then bs else bs @ [10])"

lemma put_bytes:
  assumes "uart (e_line E) k sent" "con_inv (get_con m)" "\<forall>i<length bs. m_mem m (p + of_nat i) = bs ! i"
  shows "\<exists>m'. foldM (\<lambda>i m. putc E (m_mem m (p + of_nat i)) m) [0..<length bs] m = Some m' \<and> prints sent bs m m'"
proof -
  have "\<exists>m'. foldM (\<lambda>i m. putc E (m_mem m (p + of_nat i)) m) [j..<length bs] m = Some m' \<and> prints sent (drop j bs) m m'"
    if "j \<le> length bs" "con_inv (get_con m)" "\<forall>i<length bs. m_mem m (p + of_nat i) = bs ! i" for j m
    using that
  proof (induction "length bs - j" arbitrary: j m)
    case 0
    then show ?case using prints_Nil by simp
  next
    case (Suc n)
    then have j: "j < length bs" "n = length bs - Suc j" by simp_all
    obtain v where v: "putc E (bs ! j) m = Some v" "prints sent [bs ! j] m v" using putc_prints [OF assms(1) Suc.prems(2)] by blast
    have "m_mem v = m_mem m" using v(2) off_screenD(3) by (auto simp: prints_def)
    then obtain m' where "foldM (\<lambda>i m. putc E (m_mem m (p + of_nat i)) m) [Suc j..<length bs] v = Some m'" "prints sent (drop (Suc j) bs) v m'"
      using Suc.hyps(1) [of "Suc j" v] Suc.prems(3) j prints_inv [OF v(2)] by auto
    then have "foldM (\<lambda>i m. putc E (m_mem m (p + of_nat i)) m) [j..<length bs] m = Some m'" "prints sent (bs ! j # drop (Suc j) bs) m m'"
      using v j Suc.prems(3) prints_append [OF v(2)] by (auto simp: upt_conv_Cons)
    then show ?case using j by (auto simp: Cons_nth_drop_Suc)
  qed
  from this [of 0 m] show ?thesis using assms(2,3) by simp
qed

text \<open>A call that leaves the console alone.\<close>

lemma printed_same: "con_inv (get_con m) \<Longrightarrow> get_con m' = get_con m \<Longrightarrow> m_line m' = m_line m \<Longrightarrow>
    printed sent [] (get_con m, m_line m) (get_con m', m_line m')"
  using printed_Nil [of "(get_con m, m_line m)"] by simp

lemma on_disk_Some: "f (disk_of E m) (m_fs m) (m_dev m) = Some (r, d) \<Longrightarrow> on_disk f E m = Some (r, m\<lparr>m_dev := d\<rparr>)"
  by (simp add: on_disk_def)

lemma on_sys_Some: "f (m_sys m) = Some (r, s) \<Longrightarrow> on_sys f m = Some (r, m\<lparr>m_sys := s\<rparr>)"
  by (simp add: on_sys_def)

lemma formatted_written: "length f < 256 \<Longrightarrow> \<exists>cs. formatted 1024 (nl ''%s: %d bytes written'') [text_arg f, Num n] = Some cs"
  by (simp add: formatted_def nl_def ascii_def text_arg_def split_directive_def skip_char_def render_directive_def is_digit_def Stdio.padded_def Let_def)

lemma cmd_write_ok:
  assumes line: "uart (e_line E) k sent" "con_inv (get_con m)" and mnt: "mounted (m_fs m)"
    and name: "0x20 \<notin> set f" "length f < 256" and lead: "txt = [] \<or> hd txt \<noteq> 0x20"
    and w: "fat32_write_file (disk_of E m) (m_fs m) f (take 510 txt @ [10]) (m_dev m) = Some (int n, d)"
  shows "\<exists>m1. cmd_write E (Some (f @ 0x20 # txt)) m = Some m1 \<and> off_screen (m\<lparr>m_dev := d\<rparr>) m1 \<and> con_inv (get_con m1)"
proof -
  have split: "takeWhile (\<lambda>c. c \<noteq> 0x20) (f @ 0x20 # txt) = f" using name(1) by (subst takeWhile_append2) auto
  have rest: "dropWhile (\<lambda>c. c = 0x20) txt = txt" using lead by (cases "txt") auto
  obtain cs where cs: "formatted 1024 (nl ''%s: %d bytes written'') [text_arg f, Num (of_int (int n))] = Some cs"
    using formatted_written [OF name(2)] by blast
  obtain m1 where m1: "say E (nl ''%s: %d bytes written'') [text_arg f, Num (of_int (int n))] (m\<lparr>m_dev := d\<rparr>) = Some m1"
    "prints sent cs (m\<lparr>m_dev := d\<rparr>) m1"
    using say_prints [OF line(1) _ cs, of "m\<lparr>m_dev := d\<rparr>"] line(2) by auto
  have "cmd_write E (Some (f @ 0x20 # txt)) m = Some m1"
    using m1(1) mnt by (simp add: cmd_write_def fat32_mounted_def split rest on_disk_def w Let_def)
  then show ?thesis using m1(2) prints_inv [OF m1(2)] by (simp add: prints_def)
qed

lemma cmd_cat_ok:
  assumes line: "uart (e_line E) k sent" "con_inv (get_con m)" and mnt: "mounted (m_fs m)"
    and bs: "bs \<noteq> []" "length bs < 2 ^ 31"
    and sz: "fat32_file_size (disk_of E m) (m_fs m) f (m_dev m) = Some (int (length bs), d1)"
    and rd: "fat32_read_file (disk_of E m) (m_fs m) f (of_nat (length bs)) d1 = Some ((int (length bs), bs), d2)"
    and heap: "heap_rel (m_sys m) L" "fst (the (kmalloc (of_nat (length bs) + 1) (m_sys m))) \<noteq> 0"
  shows "\<exists>m2 L'. cmd_cat E (Some f) m = Some m2 \<and> printed sent (cat_text bs) (get_con m, m_line m) (get_con m2, m_line m2) \<and>
    m_dev m2 = d2 \<and> heap_rel (m_sys m2) L' \<and> used_blocks L' = used_blocks L"
proof -
  define z where "z = (of_nat (length bs) + 1 :: u64)"
  have u: "unat z = length bs + 1" using bs(2) by (simp add: z_def unat_word_ariths unat_of_nat)
  then have z: "0 < z" "unat z + 64 \<le> 2 ^ 64" using bs(2) by (simp_all add: word_less_nat_alt)
  obtain p s' L1 where k: "kmalloc z (m_sys m) = Some (p, s')" "heap_rel s' L1"
    "if p = 0 then used_blocks L1 = used_blocks L \<and> free_pages s' = {}
     else \<exists>n. z \<le> n \<and> unat n < unat z + 64 \<and> 16 dvd unat p \<and> used_blocks L1 = insert (p, n) (used_blocks L) \<and>
       unat HEAP_START_VIRT < unat p \<and> unat p + unat n \<le> unat (heap_mapped_limit s') \<and>
       (\<forall>(q, m)\<in>used_blocks L. unat p + unat n \<le> unat q \<or> unat q + unat m \<le> unat p)"
    using kmalloc_ok [OF heap(1) z] by blast
  have p: "p \<noteq> 0" using heap(2) k(1) by (simp add: z_def)
  with k(3) obtain n where n: "z \<le> n" "used_blocks L1 = insert (p, n) (used_blocks L)" "unat p + unat n \<le> unat (heap_mapped_limit s')"
    "\<forall>(q, m)\<in>used_blocks L. unat p + unat n \<le> unat q \<or> unat q + unat m \<le> unat p" by auto
  have nz: "length bs + 1 \<le> unat n" using n(1) u by (simp add: word_le_nat_alt)
  have fresh: "(p, n) \<notin> used_blocks L" using n(4) nz by fastforce
  have room: "unat p + length bs + 1 \<le> 2 ^ 64" using n(3) nz unsigned_less [of "heap_mapped_limit s'", where 'a = nat] by simp
  define m3 where "m3 = m\<lparr>m_dev := d2, m_sys := s', m_mem := (store (m_mem m) p bs)(p + of_nat (length bs) := 0)\<rparr>"
  have mem: "\<forall>i<length bs. m_mem m3 (p + of_nat i) = bs ! i"
  proof (intro allI impI)
    fix i assume i: "i < length bs"
    have "(of_nat i :: u64) \<noteq> of_nat (length bs)" using i bs(2) by (simp add: word_unat_eq_iff unat_of_nat)
    then show "m_mem m3 (p + of_nat i) = bs ! i" using store_reads [of p bs i "m_mem m"] room i by (simp add: m3_def)
  qed
  have c3: "get_con m3 = get_con m" "m_line m3 = m_line m" by (simp_all add: m3_def)
  obtain m4 where m4: "foldM (\<lambda>i m. putc E (m_mem m (p + of_nat i)) m) [0..<length bs] m3 = Some m4" "prints sent bs m3 m4"
    using put_bytes [OF line(1) _ mem] line(2) c3 by auto
  have "of_nat (length bs - 1) = (of_nat (length bs) - 1 :: u64)" using bs(1) by (simp add: of_nat_diff Suc_leI)
  then have "m_mem m4 (p + of_int (int (length bs) - 1)) = last bs"
    using mem [rule_format, of "length bs - 1"] off_screenD(3) [of m3 m4] m4(2) bs(1) by (simp add: prints_def last_conv_nth)
  then have t: "(if int (length bs) > 0 \<and> m_mem m4 (p + of_int (int (length bs) - 1)) \<noteq> 10 then putc E 10 m4 else Some m4) =
      (if last bs = 10 then Some m4 else putc E 10 m4)" using bs(1) by simp
  obtain m5 where m5: "(if last bs = 10 then Some m4 else putc E 10 m4) = Some m5" "prints sent (if last bs = 10 then [] else [10]) m4 m5"
    using putc_prints [OF line(1) prints_inv [OF m4(2)], of 10] prints_Nil [OF prints_inv [OF m4(2)]] by (cases "last bs = 10") auto
  have off: "off_screen m3 m5" and pr: "printed sent (cat_text bs) (get_con m, m_line m) (get_con m5, m_line m5)"
    using prints_append [OF m4(2) m5(2)] c3 by (auto simp: prints_def cat_text_def split: if_splits)
  define m2 where "m2 = m5\<lparr>m_sys := kfree p (m_sys m5)\<rparr>"
  have sys: "m_sys m5 = s'" "m_dev m5 = d2" using off_screenD(1,2) [OF off] by (simp_all add: m3_def)
  obtain L' where L': "heap_rel (kfree p s') L'" "used_blocks L' = used_blocks L1 - {(p, n)}"
    using kfree_rel [OF k(2), of p n] n(2) by auto
  have "on_disk (\<lambda>dk fs. fat32_file_size dk fs f) E m = Some (int (length bs), m\<lparr>m_dev := d1\<rparr>)" by (simp add: on_disk_def sz)
  moreover have "on_sys (kmalloc z) (m\<lparr>m_dev := d1\<rparr>) = Some (p, m\<lparr>m_dev := d1, m_sys := s'\<rparr>)"
    using on_sys_Some [of "kmalloc z" "m\<lparr>m_dev := d1\<rparr>" p s'] k(1) by simp
  moreover have "on_disk (\<lambda>dk fs. fat32_read_file dk fs f (of_nat (length bs))) E (m\<lparr>m_dev := d1, m_sys := s'\<rparr>) =
      Some ((int (length bs), bs), m\<lparr>m_dev := d2, m_sys := s'\<rparr>)"
    using on_disk_Some [of "\<lambda>dk fs. fat32_read_file dk fs f (of_nat (length bs))" E "m\<lparr>m_dev := d1, m_sys := s'\<rparr>"] rd
    by (simp add: disk_of_def)
  ultimately have "cmd_cat E (Some f) m = Some m2"
    using mnt bs(1) p m4(1) t m5(1) by (simp add: cmd_cat_def fat32_mounted_def z_def m3_def m2_def Let_def)
  then show ?thesis using pr L' n(2) fresh sys by (auto simp: m2_def)
qed

text \<open>
  C34. What \<open>write\<close> stores, \<open>cat\<close> prints: after \<open>write f text\<close> on a sound volume with room, \<open>cat f\<close> prints the first 510
  characters of the text and a line break, on the console and on the serial line, and gives its
  memory back, whatever the disk and the heap held before. The name is shorter than a command line can be, and the heap can give \<open>cat\<close> a buffer for the file.
\<close>

theorem shell_write_then_cat:
  assumes line: "uart (e_line E) k sent" "con_inv (get_con m)"
    and drive: "ata_drive (e_ports E) drive busy capacity" "disk_present (m_ata m)" "phase (drive (m_dev m)) = Ready"
    and vol: "fat_geometry capacity N (m_fs m)"
      "fat_volume (m_fs m) N (fat_tab (m_fs m) (platter (drive (m_dev m)))) (fat_dat (m_fs m) (platter (drive (m_dev m)))) R F"
    and name: "proper_name f" "0x20 \<notin> set f" "length f < 256" and lead: "txt = [] \<or> hd txt \<noteq> 0x20" and bs: "bs = take 510 txt @ [10]"
    and room: "length bs + 512 * unat (sectors_per_cluster (m_fs m)) \<le>
      512 * unat (sectors_per_cluster (m_fs m)) * card (fat_free (m_fs m) (fat_tab (m_fs m) (platter (drive (m_dev m)))))"
    and heap: "heap_rel (m_sys m) L" "fst (the (kmalloc (of_nat (length bs) + 1) (m_sys m))) \<noteq> 0"
  shows "\<exists>m1 m2 L'. cmd_write E (Some (f @ 0x20 # txt)) m = Some m1 \<and> cmd_cat E (Some f) m1 = Some m2 \<and>
    printed sent bs (get_con m1, m_line m1) (get_con m2, m_line m2) \<and> heap_rel (m_sys m2) L' \<and> used_blocks L' = used_blocks L"
proof -
  note v = ata_volume [OF drive(1,2) vol(1), folded disk_of_def]
  note self = volume.holds_vol_self [OF v, of "m_dev m", OF drive(3)]
  have len: "length bs < 2 ^ 31" "bs \<noteq> []" "last bs = 10" unfolding bs by simp_all
  have mnt: "mounted (m_fs m)" using vol(1) by (simp add: fat_geometry_def)
  obtain d t g R' F' where w: "fat32_write_file (disk_of E m) (m_fs m) f bs (m_dev m) = Some (int (length bs), d)"
    "volume.holds_vol (\<lambda>d. platter (drive d)) (\<lambda>d. phase (drive d) = Ready) (m_fs m) N d t g" "fat_volume (m_fs m) N t g R' F'"
    "fat_files (m_fs m) g R' F' (to_short_name f) = Some bs"
    using volume.write_file [OF v self vol(2) name(1) len(1) room] by auto
  obtain m1 where m1: "cmd_write E (Some (f @ 0x20 # txt)) m = Some m1" "off_screen (m\<lparr>m_dev := d\<rparr>) m1" "con_inv (get_con m1)"
    using cmd_write_ok [OF line mnt name(2,3) lead, of "length bs" d] w(1) bs by auto
  have same: "m_dev m1 = d" "m_fs m1 = m_fs m" "m_sys m1 = m_sys m" "disk_of E m1 = disk_of E m"
    using off_screenD [OF m1(2)] by (simp_all add: disk_of_def)
  obtain d1 where d1: "volume.holds_vol (\<lambda>d. platter (drive d)) (\<lambda>d. phase (drive d) = Ready) (m_fs m) N d1 t g"
    "fat32_file_size (disk_of E m) (m_fs m) f d = Some (int (length bs), d1)"
    using volume.file_size [OF v w(2,3), of f] w(4) sint_below [OF len(1)] by auto
  have cap: "length bs \<le> unat (of_nat (length bs) :: u32)" using len(1) by (simp add: unat_of_nat)
  obtain d2 where d2: "fat32_read_file (disk_of E m) (m_fs m) f (of_nat (length bs)) d1 = Some ((int (length bs), bs), d2)"
    using volume.read_file [OF v d1(1) w(3), of f "of_nat (length bs)"] w(4) cap sint_below [OF len(1)] by auto
  obtain m2 L' where "cmd_cat E (Some f) m1 = Some m2" "printed sent (cat_text bs) (get_con m1, m_line m1) (get_con m2, m_line m2)"
    "heap_rel (m_sys m2) L'" "used_blocks L' = used_blocks L"
    using cmd_cat_ok [OF line(1) m1(3) _ len(2,1), of f d1 d2 L] d1(2) d2 heap mnt unfolding same by blast
  then show ?thesis using m1(1) len(3) by (auto simp: cat_text_def)
qed

section \<open>A small machine\<close>

definition demo_gdt :: gdt where
  "demo_gdt = \<lparr>gdt_table = replicate 7 zero_gdt_entry, gdtr_limit = 0, gdtr_base = 0,
     gdt_tss = \<lparr>tss_rsp0 = 0, tss_rsp1 = 0, tss_rsp2 = 0, tss_ist = replicate 7 0, iomap_base = 0\<rparr>, reg_cs_sel = 0, reg_data_sel = 0, task_register = 0\<rparr>"

definition demo_card :: e1000 where
  "demo_card = \<lparr>card_present = False, mmio = 0, mac_addr = replicate 6 0, rx_ring = 0, tx_ring = 0, rx_ring_phys = 0, tx_ring_phys = 0,
     rx_buffers = replicate 16 0, tx_buffers = replicate 8 0, tx_buffers_phys = replicate 8 0, rx_cur = 0, tx_cur = 0\<rparr>"

definition demo_sys :: user where
  "demo_sys = procs.extend (heap.extend small_heap (procs.fields (replicate 64 zero_process) 0 1 0x8 0x10)) (user.fields (\<lambda>_. 0) 0)"

definition demo_env :: "(u8 list, drive \<times> nat) env" where
  "demo_env = \<lparr>e_line = log_io, e_ports = sim_io, e_bus = \<lparr>bus_load = (\<lambda>a n d. (replicate n 0, d)), bus_store = (\<lambda>a bs d. d)\<rparr>,
     e_halt = (\<lambda>m. m), e_clock = (\<lambda>d. (0, d)), e_cpuid = (\<lambda>_. (0, 0, 0, 0)), e_depth = 2, e_run_entry = 0, e_test_entry = 0, e_program = []\<rparr>"

text \<open>The keys that were typed ahead are \<open>keys\<close>.\<close>

definition demo_machine :: "u8 list \<Rightarrow> fbcon \<Rightarrow> (u8 list, drive \<times> nat) machine" where
  "demo_machine keys s = put_con s (ps2.extend (small_ps2\<lparr>kb_buffer := keys @ replicate (256 - length keys) 0, kb_buffer_head := length keys\<rparr>)
     (machine.fields small_con [] (small_disk, 0) demo_sys (\<lambda>_. 0) 0 100 small_fs sim_ata (example_net []) demo_card demo_gdt []))"

lemma demo_console: "\<exists>s. con_inv (get_con (demo_machine keys s)) \<and> m_line (demo_machine keys s) = []"
proof -
  obtain s :: fbcon where "con_inv s" using small_con_ready by (auto simp: idle_def)
  moreover have "m_line (demo_machine keys s) = []" by (simp add: demo_machine_def put_con_def ps2.defs machine.defs)
  ultimately show ?thesis by (auto simp: demo_machine_def intro!: exI [of _ s])
qed

lemma demo_line: "uart (e_line demo_env) (\<lambda>_. 0) (\<lambda>d. d)"
  by (simp add: uart_def log_io_def demo_env_def)

lemma demo_parts [simp]: "m_dev (demo_machine keys s) = (small_disk, 0)" "m_sys (demo_machine keys s) = demo_sys" "m_fs (demo_machine keys s) = small_fs"
  "m_ata (demo_machine keys s) = sim_ata"
  "kb_buffer (demo_machine keys s) = keys @ replicate (256 - length keys) 0" "kb_buffer_head (demo_machine keys s) = length keys"
  "kb_buffer_tail (demo_machine keys s) = 0"
  by (simp_all add: demo_machine_def put_con_def ps2.defs machine.defs)

lemma demo_heap: "heap_rel demo_sys [(HEAP_START_VIRT, 4064, True)]"
proof -
  have v: "vmm.truncate demo_sys = vmm.truncate small_machine"
    by (simp add: demo_sys_def small_heap_def vmm.defs heap.defs procs.defs)
  have c: "card (free_pages small_machine) \<le> 131072"
    using small_machine_inv by (auto simp: pmm_inv_def pmm_count_def intro: card_free_pages)
  have "heap_mapped_limit demo_sys = 0xFFFFFFFF81001000" by (simp add: demo_sys_def small_heap_def vmm.defs heap.defs procs.defs)
  then have "heap_vm demo_sys" using c small_machine_tables(1,2) by (simp add: heap_vm_def vmm_cong [OF v])
  moreover have "heap_list demo_sys [(HEAP_START_VIRT, 4064, True)]"
    by (simp add: heap_list_def demo_sys_def small_heap_def vmm.defs heap.defs procs.defs blk_end_def)
  ultimately show ?thesis by (simp add: heap_rel_def)
qed

lemma demo_malloc: "fst (the (kmalloc 3 demo_sys)) \<noteq> 0"
proof -
  have a: "align_up 3 = 16" by (simp add: align_up_def)
  obtain blk p s' L' where t: "heap_search (hmem demo_sys) 16 (heap_head demo_sys) = Some blk" "blk \<noteq> 0"
    "heap_take blk 16 demo_sys = (p, s')" "taken_one 16 p [(HEAP_START_VIRT, 4064, True)] L'"
    using heap_search_take [OF demo_heap, of 16] by (auto simp: fits_def)
  then show ?thesis by (simp add: kmalloc_def a taken_one_def)
qed

text \<open>
  C35. \<open>readline\<close> is a line editor: for keys typed before Enter, it returns the line that appending the printable characters and
  removing one for each backspace give, takes these keys and Enter from the keyboard and no more, and the console
  and the serial line show each character added, a backspace for each one removed, and the line
  break, as long as the line never fills the buffer.
\<close>

theorem readline_correct:
  assumes "uart (e_line E) k sent" and "con_inv (get_con m)" and "kb_ok m" and "kb_queue m = ks @ 10 # rest" and "10 \<notin> set ks"
    and "\<forall>j\<le>length ks. length (foldl edit_key [] (take j ks)) + 1 < max_len"
  shows "\<exists>m'. readline E max_len [] m = Some (foldl edit_key [] ks, m') \<and> kb_ok m' \<and> kb_queue m' = rest \<and>
    printed sent (echo [] ks @ [10]) (get_con m, m_line m) (get_con m', m_line m')"
  by (rule readline_reads [OF assms])

lemma demo_keys:
  assumes "length keys < 256"
  shows "kb_ok (demo_machine keys s)" "kb_queue (demo_machine keys s) = keys"
proof -
  show "kb_ok (demo_machine keys s)" using assms by (simp add: kb_ok_def)
  have "kb_count (demo_machine keys s) = length keys" using assms by (simp add: kb_count_def)
  then show "kb_queue (demo_machine keys s) = keys" using assms
    by (auto simp: kb_queue_def nth_append intro!: nth_equalityI)
qed

theorem readline_correct_witness:
  "\<exists>s m'. readline demo_env 256 [] (demo_machine [0x68, 0x6A, 8, 0x69, 10] s) = Some ([0x68, 0x69], m') \<and>
     m_line m' = [0x68, 0x6A, 8, 0x69, 10]"
proof -
  let ?keys = "[0x68, 0x6A, 8, 0x69, 10] :: u8 list" and ?ks = "[0x68, 0x6A, 8, 0x69] :: u8 list"
  obtain s where s: "con_inv (get_con (demo_machine ?keys s))" "m_line (demo_machine ?keys s) = []" using demo_console by blast
  have "\<forall>j\<le>length ?ks. length (foldl edit_key [] (take j ?ks)) + 1 < 256"
    by (simp add: le_Suc_eq edit_key_def all_conj_distrib del: take_Suc_Cons) (auto simp: edit_key_def le_Suc_eq)
  from readline_correct [OF demo_line s(1) demo_keys(1) _ _ this, of "[]"] obtain m' where
    "readline demo_env 256 [] (demo_machine ?keys s) = Some (foldl edit_key [] ?ks, m')"
    "printed (\<lambda>d. d) (echo [] ?ks @ [10]) (get_con (demo_machine ?keys s), m_line (demo_machine ?keys s)) (get_con m', m_line m')"
    using demo_keys(2) [of ?keys s] by auto
  moreover have "foldl edit_key [] ?ks = [0x68, 0x69]" "echo [] ?ks @ [10] = ?keys" by (simp_all add: edit_key_def)
  ultimately show ?thesis using s(2) by (auto simp: printed_def)
qed

text \<open>The address 10.0.2.15.\<close>

theorem print_ip_correct_witness:
  "\<exists>s m'. print_ip demo_env 0x0A00020F (demo_machine [] s) = Some m' \<and>
     m_line m' = [0x31, 0x30, 0x2E, 0x30, 0x2E, 0x32, 0x2E, 0x31, 0x35] \<and>
     parse_ipv4 [0x31, 0x30, 0x2E, 0x30, 0x2E, 0x32, 0x2E, 0x31, 0x35] = Some 0x0A00020F"
proof -
  obtain s where s: "con_inv (get_con (demo_machine [] s))" "m_line (demo_machine [] s) = []" using demo_console by blast
  have "dotted 0x0A00020F = [0x31, 0x30, 0x2E, 0x30, 0x2E, 0x32, 0x2E, 0x31, 0x35]"
    by (simp add: dotted_def number_string_def udigits.simps digit_char_def)
  then show ?thesis using print_ip_correct [OF demo_line s(1), of "0x0A00020F"] s(2) by (auto simp: prints_def printed_def)
qed

theorem readline_bounds_witness:
  "\<exists>s m' line. readline demo_env 3 [] (demo_machine [0x68, 0x69, 0x6A, 10] s) = Some (line, m') \<and> length line < 3"
proof -
  let ?keys = "[0x68, 0x69, 0x6A, 10] :: u8 list" and ?m = "\<lambda>s. demo_machine [0x68, 0x69, 0x6A, 10 :: u8] s"
  obtain s where s: "con_inv (get_con (?m s))" using demo_console by blast
  have q: "kb_ok (?m s)" "kb_queue (?m s) = 0x68 # [0x69, 0x6A, 10]" using demo_keys [of ?keys s] by simp_all
  obtain m1 where g1: "keyboard_getchar (e_halt demo_env) (?m s) = Some (0x68, m1)" "kb_ok m1" "kb_queue m1 = 0x69 # [0x6A, 10]"
      "m1 = (?m s)\<lparr>kb_buffer_tail := kb_buffer_tail m1\<rparr>" using getchar_queue [OF q] by metis
  have "get_con m1 = get_con (?m s)" by (subst g1(4)) simp
  then obtain m2 where p2: "putc demo_env 0x68 m1 = Some m2" "prints (\<lambda>d. d) [0x68] m1 m2" using putc_prints [OF demo_line, of m1] s by auto
  then have q2: "kb_ok m2" "kb_queue m2 = 0x69 # [0x6A, 10]" using g1(2,3) off_screen_keys [of m1 m2] by (auto simp: prints_def)
  obtain m3 where g3: "keyboard_getchar (e_halt demo_env) m2 = Some (0x69, m3)" "m3 = m2\<lparr>kb_buffer_tail := kb_buffer_tail m3\<rparr>"
    using getchar_queue [OF q2] by metis
  have "get_con m3 = get_con m2" by (subst g3(2)) simp
  then obtain m4 where p4: "putc demo_env 0x69 m3 = Some m4" using putc_prints [OF demo_line, of m3] prints_inv [OF p2(2)] by auto
  have "readline demo_env 3 [] (?m s) = readline demo_env 3 [0x68] m2" using g1(1) p2(1) by (subst readline.simps) simp
  also have "\<dots> = readline demo_env 3 [0x68, 0x69] m4" using g3(1) p4 by (subst readline.simps) simp
  also have "\<dots> = Some ([0x68, 0x69], m4)" by (subst readline.simps) simp
  finally have r: "readline demo_env 3 [] (?m s) = Some ([0x68, 0x69], m4)" .
  show ?thesis using r readline_bounds [OF r] by (intro exI [of _ s] exI [of _ m4] exI [of _ "[0x68, 0x69]"]) simp
qed

theorem shell_write_then_cat_witness:
  "\<exists>s m1 m2. cmd_write demo_env (Some [0x61, 0x20, 0x62]) (demo_machine [] s) = Some m1 \<and> cmd_cat demo_env (Some [0x61]) m1 = Some m2 \<and>
     m_line m2 = m_line m1 @ [0x62, 10]"
proof -
  obtain s where s: "con_inv (get_con (demo_machine [] s))" using demo_console by blast
  have "\<exists>m1 m2 L'. cmd_write demo_env (Some ([0x61] @ 0x20 # [0x62])) (demo_machine [] s) = Some m1 \<and> cmd_cat demo_env (Some [0x61]) m1 = Some m2 \<and>
    printed (\<lambda>d. d) [0x62, 10] (get_con m1, m_line m1) (get_con m2, m_line m2) \<and> heap_rel (m_sys m2) L' \<and>
    used_blocks L' = used_blocks [(HEAP_START_VIRT, 4064, True)]"
  proof (rule shell_write_then_cat [OF demo_line s, where drive = "\<lambda>d. padded (fst d)" and busy = "\<lambda>d. snd d mod 8" and capacity = "2 ^ 28"
        and N = 128 and R = "[2]" and F = "\<lambda>x. []"])
    show "ata_drive (e_ports demo_env) (\<lambda>d. padded (fst d)) (\<lambda>d. snd d mod 8) (2 ^ 28)" using sim.ata_drive_axioms by (simp add: demo_env_def)
    show "disk_present (m_ata (demo_machine [] s))" by (simp add: sim_ata_def)
    show "fst (the (kmalloc (of_nat (length [0x62 :: u8, 10]) + 1) (m_sys (demo_machine [] s)))) \<noteq> 0" using demo_malloc by simp
    show "length [0x62 :: u8, 10] + 512 * unat (sectors_per_cluster (m_fs (demo_machine [] s))) \<le> 512 * unat (sectors_per_cluster (m_fs (demo_machine [] s))) *
        card (fat_free (m_fs (demo_machine [] s)) (fat_tab (m_fs (demo_machine [] s)) (platter (padded (fst (m_dev (demo_machine [] s)))))))"
      using small_volume(5) by (simp add: small_volume(2)) (simp add: small_fs_def)
  qed (use small_volume demo_heap in \<open>simp_all add: proper_name_def\<close>)
  then show ?thesis by (auto simp: printed_def)
qed

end
