(* ===== verification/Kernel.thy ===== *)
theory Kernel
  imports Shell
begin

text \<open>
  The top of the kernel: the boot sequence and the clock process, \<^verbatim>\<open>kernel/kernel.c\<close>, and the exception handler of
  \<^verbatim>\<open>cpu/isr.c\<close>, on the state of the whole machine. What the boot loader hands over and the addresses that the linker
  fixes are arguments.
\<close>

section \<open>Exceptions\<close>

definition exception_names :: "u8 list list" where
  "exception_names = map ascii
    [''Division By Zero'', ''Debug'', ''Non Maskable Interrupt'', ''Breakpoint'', ''Overflow'', ''Bound Range Exceeded'', ''Invalid Opcode'',
     ''Device Not Available'', ''Double Fault'', ''Coprocessor Segment Overrun'', ''Invalid TSS'', ''Segment Not Present'',
     ''Stack-Segment Fault'', ''General Protection Fault'', ''Page Fault'', ''Reserved'', ''x87 Floating-Point'', ''Alignment Check'',
     ''Machine Check'', ''SIMD Floating-Point'', ''Virtualization'', ''Control Protection'', ''Reserved'', ''Reserved'', ''Reserved'',
     ''Reserved'', ''Reserved'', ''Reserved'', ''Hypervisor Injection'', ''VMM Communication'', ''Security Exception'', ''Reserved'']"

text \<open>The lines of the report: a format and its arguments. \<open>cr2\<close> is the register with the faulting address.\<close>

definition exception_report :: "u64 \<Rightarrow> cpu_state \<Rightarrow> (u8 list \<times> arg list) list" where
  "exception_report cr2 r =
     [(nl '''' @ [10], []), (nl ''=== KERNEL PANIC ==='', []),
      (nl ''Exception: %s (#%d)'', [text_arg (exception_names ! unat (reg_int_no r)), Num (reg_int_no r)]),
      (nl ''Error Code: 0x%lx'', [Num (reg_err_code r)]),
      (10 # nl ''--- Register Dump ---'', []),
      (nl ''RAX=%016lx  RBX=%016lx'', [Num (reg_rax r), Num (reg_rbx r)]),
      (nl ''RCX=%016lx  RDX=%016lx'', [Num (reg_rcx r), Num (reg_rdx r)]),
      (nl ''RSI=%016lx  RDI=%016lx'', [Num (reg_rsi r), Num (reg_rdi r)]),
      (nl ''RBP=%016lx  RSP=%016lx'', [Num (reg_rbp r), Num (reg_rsp r)]),
      (nl ''R8 =%016lx  R9 =%016lx'', [Num (reg_r8 r), Num (reg_r9 r)]),
      (nl ''R10=%016lx  R11=%016lx'', [Num (reg_r10 r), Num (reg_r11 r)]),
      (nl ''R12=%016lx  R13=%016lx'', [Num (reg_r12 r), Num (reg_r13 r)]),
      (nl ''R14=%016lx  R15=%016lx'', [Num (reg_r14 r), Num (reg_r15 r)]),
      (nl ''RIP=%016lx  CS =%016lx'', [Num (reg_rip r), Num (reg_cs r)]),
      (nl ''RFLAGS=%016lx'', [Num (reg_rflags r)])] @
     (if reg_int_no r = 14 then
        [(nl ''CR2 (Faulting Address): %016lx'', [Num cr2]),
         (nl ''Cause: %s %s %s'',
          [text_arg (ascii (if reg_err_code r AND 1 \<noteq> 0 then ''Protection violation'' else ''Page not present'')),
           text_arg (ascii (if reg_err_code r AND 2 \<noteq> 0 then ''Write'' else ''Read'')),
           text_arg (ascii (if reg_err_code r AND 4 \<noteq> 0 then ''User mode'' else ''Kernel mode''))])]
      else []) @ [(10 # nl ''System halted.'', [])]"

definition isr_handler :: "('u, 'd) env \<Rightarrow> u64 \<Rightarrow> cpu_state \<Rightarrow> ('u, 'd) machine \<Rightarrow> (outcome \<times> ('u, 'd) machine) option" where
  "isr_handler E cr2 r m =
     (if reg_int_no r < 32 then map_option (Pair Halts) (foldM (\<lambda>(f, args). say E f args) (exception_report cr2 r) m)
      else Some (Continues, m))"

section \<open>The clock process\<close>

text \<open>One turn of its loop; \<open>st\<close> are the second last shown and the tick of the last blink.\<close>

definition clock_turn :: "u64 \<times> u64 \<Rightarrow> ('u, 'd) machine \<Rightarrow> ((u64 \<times> u64) \<times> ('u, 'd) machine) option" where
  "clock_turn st m =
     (let (last_shown, last_blink) = st; ticks = m_ticks m; blink = (ticks - last_blink \<ge> 50) in
      Option.bind (if blink then map_option (\<lambda>c. put_con c m) (fbcon_cursor_blink (get_con m)) else Some m) (\<lambda>m.
      let last_blink = (if blink then ticks else last_blink); seconds = ticks div 100 in
      if seconds = last_shown then Some ((last_shown, last_blink), m) else
      map_option (\<lambda>cs.
        let x = fb_get_width m - 140; y = fb_get_height m - 25;
            m = fb_draw_rect x y 130 10 (FB_COLOR 33 37 43) m;
            m = font_draw_string x y (takeWhile (\<lambda>c. c \<noteq> 0) (take 31 cs)) (FB_COLOR 200 200 200) (FB_COLOR 33 37 43) m
        in ((seconds, last_blink), m))
        (render (ascii ''up %lu:%02lu:%02lu'') [Num (seconds div 3600), Num (seconds div 60 mod 60), Num (seconds mod 60)])))"

text \<open>The process goes on for ever; this is its state after some turns, with the interrupts in between.\<close>

primrec clock_process :: "nat \<Rightarrow> ('u, 'd) env \<Rightarrow> u64 \<times> u64 \<Rightarrow> ('u, 'd) machine \<Rightarrow> ((u64 \<times> u64) \<times> ('u, 'd) machine) option" where
  "clock_process 0 E st m = Some (st, m)"
| "clock_process (Suc n) E st m = Option.bind (clock_turn st m) (\<lambda>(st, m). clock_process n E st (e_halt E m))"

section \<open>Booting\<close>

record limine_framebuffer =
  lf_address :: u64
  lf_width :: u64
  lf_height :: u64
  lf_pitch :: u64
  lf_bpp :: u16

text \<open>The answers of the boot loader, then the addresses and registers that the code takes from its surroundings.\<close>

record boot =
  bt_supported :: bool
  bt_framebuffers :: "limine_framebuffer list option"
  bt_memmap :: "limine_memmap_entry list option"
  bt_hhdm :: "u64 option"
  bt_stack :: u64
  bt_tss :: u64
  bt_gdt :: u64
  bt_cr3 :: u64
  bt_cs :: u16
  bt_ss :: u16
  bt_stubs :: "nat \<Rightarrow> u64"
  bt_syscall_entry :: u64
  bt_clock_entry :: u64

abbreviation (input) BOOT_MAGIC :: u32 where "BOOT_MAGIC \<equiv> 0x47524156"

definition limine_boot_info :: "limine_framebuffer \<Rightarrow> limine_memmap_entry list option \<Rightarrow> boot_info" where
  "limine_boot_info f mmap =
     \<lparr>bi_magic = BOOT_MAGIC, bi_fb_addr = lf_address f, bi_fb_width = ucast (lf_width f), bi_fb_height = ucast (lf_height f),
      bi_fb_pitch = ucast (lf_pitch f), bi_fb_bpp = ucast (lf_bpp f),
      bi_memory_size = (case mmap of Some es \<Rightarrow> fold (\<lambda>e t. t + mm_length e) es 0 | None \<Rightarrow> 128 * 1024 * 1024)\<rparr>"

text \<open>The timer's handler works on the processes and the ticks of the machine.\<close>

definition get_timer :: "('u, 'd) machine \<Rightarrow> timer" where
  "get_timer m = procs.extend (procs.truncate (m_sys m)) (timer.fields (m_ticks m) (m_hz m))"

definition put_timer :: "timer \<Rightarrow> ('u, 'd) machine \<Rightarrow> ('u, 'd) machine" where
  "put_timer t m =
     m\<lparr>m_sys := procs.extend (procs.truncate t) (user.fields (pmem (m_sys m)) (syscall_kernel_stack (m_sys m))),
       m_ticks := timer_ticks t, m_hz := timer_frequency t\<rparr>"

definition on_timer :: "(timer, 'd) handler \<Rightarrow> (('u, 'd) machine, 'd) handler" where
  "on_timer h r w = (let (m, d) = w; (r, t, d) = h r (get_timer m, d) in (r, put_timer t m, d))"

text \<open>The desktop, the window of the terminal and the console inside it.\<close>

definition terminal_window :: "u32 \<Rightarrow> u32 \<Rightarrow> gui_window" where
  "terminal_window scr_w scr_h =
     \<lparr>win_x = 40, win_y = 40, win_width = scr_w - 80, win_height = scr_h - GUI_TASKBAR_H - 80, win_title = ascii ''gsh - GravityOS Shell'',
      win_bg_color = FB_COLOR 24 26 30, win_fg_color = FB_COLOR 200 200 200\<rparr>"

definition boot_screen :: "boot_info \<Rightarrow> ('u, 'd) machine \<Rightarrow> ('u, 'd) machine option" where
  "boot_screen info m =
     (let m = gui_init (fb_init (Some info) m);
          t = terminal_window (fb_get_width m) (fb_get_height m);
          m = gui_draw_window t m
      in map_option (\<lambda>c. put_con c m)
           (fbcon_init (win_x t + 8) (win_y t + GUI_TITLEBAR_H + 6) (win_width t - 16) (win_height t - GUI_TITLEBAR_H - 14) (win_bg_color t) (get_con m)))"

text \<open>The drivers, once the console is there.\<close>

definition boot_drivers :: "('u, 'd) env \<Rightarrow> ('u, 'd) machine \<Rightarrow> ((('u, 'd) machine, 'd) irq_table \<times> ('u, 'd) machine) option" where
  "boot_drivers E m =
     (let io = e_ports E in
      Option.bind (timer_init io 100 (replicate 16 None, get_timer m, m_dev m)) (\<lambda>(tt, t, d).
      let m = put_timer t m; irqs = map (map_option on_timer) tt;
          (irqs, d) = keyboard_init io (irqs, d);
          (irqs, m, d) = mouse_init io (irqs, m, d);
          (_, d) = pci_init io d;
          (_, a, d) = ata_init io (m_ata m, d);
          (_, fs, d) = fat32_init (ata_present a) (ata_disk io a) (m_fs m, d)
      in Option.bind (e1000_init io (e_bus E) (m_sys m, m_card m, d)) (\<lambda>(_, s, c, d).
      let (n, c, d) = net_init (e1000_nic (e_bus E) (e_clock E)) (m_net m, c, d)
      in Some (irqs, m\<lparr>m_ata := a, m_fs := fs, m_sys := s, m_card := c, m_net := n, m_dev := d\<rparr>))))"

text \<open>\<open>kpanic\<close> stops the machine without a word; the result is then the machine as it was left.\<close>

definition kpanic :: "('u, 'd) machine \<Rightarrow> (('u, 'd) machine + 'r) option" where
  "kpanic m = Some (Inl m)"

definition kboot :: "('u, 'd) env \<Rightarrow> boot \<Rightarrow> msrs \<Rightarrow> ('u, 'd) machine \<Rightarrow>
    (('u, 'd) machine + idt \<times> (('u, 'd) machine, 'd) irq_table \<times> msrs \<times> ('u, 'd) machine) option" where
  "kboot E B regs m =
     (let m = m\<lparr>m_line := serial_init (e_line E) (m_line m), m_gdt := gdt_init (bt_stack B) (bt_tss B) (bt_gdt B) (m_gdt m)\<rparr> in
      if \<not> bt_supported B then kpanic m else
      case bt_framebuffers B of None \<Rightarrow> kpanic m | Some [] \<Rightarrow> kpanic m | Some (f # _) \<Rightarrow>
      let info = limine_boot_info f (bt_memmap B);
          m = (case bt_hhdm B of None \<Rightarrow> m | Some h \<Rightarrow> m\<lparr>m_sys := (m_sys m)\<lparr>hhdm_offset := h\<rparr>\<rparr>)
      in case bt_memmap B of None \<Rightarrow> kpanic m | Some mmap \<Rightarrow>
      Option.bind (pmm_init mmap (m_sys m)) (\<lambda>s.
      Option.bind (heap_init (vmm_init (bt_cr3 B) s)) (\<lambda>(_, s).
      let (idt, d) = isr_init (e_ports E) (bt_stubs B) (m_dev m);
          s = process_init (bt_cs B) (bt_ss B) s;
          regs = syscall_init (bt_syscall_entry B) regs
      in Option.bind (boot_screen info (m\<lparr>m_sys := s, m_dev := d\<rparr>)) (\<lambda>m.
      Option.bind (boot_drivers E m) (\<lambda>(irqs, m).
      Option.bind (process_create (bt_clock_entry B) (m_sys m)) (\<lambda>(_, s).
      Some (Inr (idt, irqs, regs, m\<lparr>m_sys := s\<rparr>))))))))"

definition kmain :: "('u, 'd) env \<Rightarrow> boot \<Rightarrow> msrs \<Rightarrow> ('u, 'd) machine \<Rightarrow> (outcome \<times> ('u, 'd) machine) option" where
  "kmain E B regs m =
     Option.bind (kboot E B regs m) (\<lambda>r. case r of Inl m \<Rightarrow> Some (Halts, m) | Inr (idt, irqs, regs, m) \<Rightarrow> shell_run E m)"

section \<open>Exceptions are reported\<close>

text \<open>
  What the report of an exception has to say, independently of the formats of the handler: the name of the vector in the processor's manual,
  every register under its own name with all of its sixteen hexadecimal digits, and what the bits of the error code of a page fault mean.
\<close>

definition vector_names :: "(nat \<times> string) list" where
  "vector_names =
     [(0, ''Division By Zero''), (1, ''Debug''), (2, ''Non Maskable Interrupt''), (3, ''Breakpoint''), (4, ''Overflow''), (5, ''Bound Range Exceeded''),
      (6, ''Invalid Opcode''), (7, ''Device Not Available''), (8, ''Double Fault''), (9, ''Coprocessor Segment Overrun''), (10, ''Invalid TSS''),
      (11, ''Segment Not Present''), (12, ''Stack-Segment Fault''), (13, ''General Protection Fault''), (14, ''Page Fault''),
      (16, ''x87 Floating-Point''), (17, ''Alignment Check''), (18, ''Machine Check''), (19, ''SIMD Floating-Point''), (20, ''Virtualization''),
      (21, ''Control Protection''), (28, ''Hypervisor Injection''), (29, ''VMM Communication''), (30, ''Security Exception'')]"

definition vector_name :: "nat \<Rightarrow> u8 list" where
  "vector_name n = ascii (case map_of vector_names n of Some s \<Rightarrow> s | None \<Rightarrow> ''Reserved'')"

definition hex16 :: "u64 \<Rightarrow> u8 list" where
  "hex16 x = Stdio.padded 16 0x30 (number_string 16 (unat x))"

definition register_rows :: "((string \<times> (cpu_state \<Rightarrow> u64)) \<times> (string \<times> (cpu_state \<Rightarrow> u64))) list" where
  "register_rows =
     [((''RAX'', reg_rax), (''RBX'', reg_rbx)), ((''RCX'', reg_rcx), (''RDX'', reg_rdx)), ((''RSI'', reg_rsi), (''RDI'', reg_rdi)),
      ((''RBP'', reg_rbp), (''RSP'', reg_rsp)), ((''R8 '', reg_r8), (''R9 '', reg_r9)), ((''R10'', reg_r10), (''R11'', reg_r11)),
      ((''R12'', reg_r12), (''R13'', reg_r13)), ((''R14'', reg_r14), (''R15'', reg_r15)), ((''RIP'', reg_rip), (''CS '', reg_cs))]"

definition register_text :: "cpu_state \<Rightarrow> string \<times> (cpu_state \<Rightarrow> u64) \<Rightarrow> u8 list" where
  "register_text r p = ascii (fst p) @ [0x3D] @ hex16 (snd p r)"

definition row_text :: "cpu_state \<Rightarrow> (string \<times> (cpu_state \<Rightarrow> u64)) \<times> (string \<times> (cpu_state \<Rightarrow> u64)) \<Rightarrow> u8 list" where
  "row_text r p = register_text r (fst p) @ [0x20, 0x20] @ register_text r (snd p) @ [10]"

definition fault_text :: "u64 \<Rightarrow> u64 \<Rightarrow> u8 list" where
  "fault_text cr2 err =
     ascii ''CR2 (Faulting Address): '' @ hex16 cr2 @ [10] @
     ascii ''Cause: '' @ ascii (if bit err 0 then ''Protection violation'' else ''Page not present'') @ [0x20] @
     ascii (if bit err 1 then ''Write'' else ''Read'') @ [0x20] @ ascii (if bit err 2 then ''User mode'' else ''Kernel mode'') @ [10]"

definition panic_text :: "u64 \<Rightarrow> cpu_state \<Rightarrow> u8 list" where
  "panic_text cr2 r =
     [10, 10] @ ascii ''=== KERNEL PANIC ==='' @ [10] @
     ascii ''Exception: '' @ vector_name (unat (reg_int_no r)) @ ascii '' (#'' @ number_string 10 (unat (reg_int_no r)) @ ascii '')'' @ [10] @
     ascii ''Error Code: 0x'' @ number_string 16 (unat (reg_err_code r)) @ [10] @
     [10] @ ascii ''--- Register Dump ---'' @ [10] @
     concat (map (row_text r) register_rows) @
     register_text r (''RFLAGS'', reg_rflags) @ [10] @
     (if reg_int_no r = 14 then fault_text cr2 (reg_err_code r) else []) @
     [10] @ ascii ''System halted.'' @ [10]"

lemma say_all:
  assumes "uart (e_line E) k sent" "con_inv (get_con m)" "map (\<lambda>(f, args). formatted 1024 f args) ls = map Some ts"
  shows "\<exists>m'. foldM (\<lambda>(f, args). say E f args) ls m = Some m' \<and> prints sent (concat ts) m m'"
  using assms(2,3)
proof (induction ls arbitrary: ts m)
  case Nil
  then show ?case using prints_Nil by simp
next
  case (Cons l ls)
  obtain f args t ts' where l: "l = (f, args)" "ts = t # ts'" "formatted 1024 f args = Some t" "map (\<lambda>(f, args). formatted 1024 f args) ls = map Some ts'"
    using Cons.prems(2) by (cases l; cases ts) auto
  obtain v where v: "say E f args m = Some v" "prints sent t m v"
    using say_prints [OF assms(1) Cons.prems(1) l(3)] by blast
  from Cons.IH [OF prints_inv [OF v(2)] l(4)] obtain m' where "foldM (\<lambda>(f, args). say E f args) ls v = Some m'"
    "prints sent (concat ts') v m'" by blast
  then show ?case using l v(1) prints_append [OF v(2)] by auto
qed

text \<open>The lines of the report, formatted.\<close>

lemma hex16_length: "length (hex16 x) \<le> 64" "0 \<notin> set (hex16 x)"
  using number_string_length [of 16 "unat x"] number_string_nonzero [of 16 "unat x"] unsigned_less [of x, where 'a = nat]
  by (simp_all add: hex16_def Stdio.padded_def)

lemma exception_name: "n < 32 \<Longrightarrow> exception_names ! n = vector_name n \<and> length (vector_name n) \<le> 64 \<and> 0 \<notin> set (vector_name n)"
proof -
  have t: "exception_names = map vector_name [0..<32]" by code_simp
  have l: "\<forall>cs\<in>set exception_names. length cs \<le> 64 \<and> 0 \<notin> set cs" by code_simp
  assume n: "n < 32"
  then have "exception_names ! n = vector_name n" by (simp add: t)
  moreover have "vector_name n \<in> set exception_names" using n by (simp add: t)
  ultimately show ?thesis using l by blast
qed

lemmas render_eval = nl_def ascii_def text_arg_def split_directive_def skip_char_def render_directive_def is_digit_def Let_def va_unsigned_def
  Stdio.padded_def hex16_def

lemma report_plain:
  "formatted 1024 (nl '''' @ [10]) [] = Some [10, 10]" "formatted 1024 (nl ''=== KERNEL PANIC ==='') [] = Some (ascii ''=== KERNEL PANIC ==='' @ [10])"
  "formatted 1024 (10 # nl ''--- Register Dump ---'') [] = Some (10 # ascii ''--- Register Dump ---'' @ [10])"
  "formatted 1024 (10 # nl ''System halted.'') [] = Some (10 # ascii ''System halted.'' @ [10])"
  by (rule formatted_short; simp add: nl_def ascii_def)+

lemma report_exception:
  assumes "n < 32"
  shows "formatted 1024 (nl ''Exception: %s (#%d)'') [text_arg (vector_name (unat n)), Num n] =
    Some (ascii ''Exception: '' @ vector_name (unat n) @ ascii '' (#'' @ number_string 10 (unat n) @ ascii '')'' @ [10])"
proof (rule formatted_short)
  have u: "unat n < 32" using assms by (simp add: word_less_nat_alt)
  have s: "va_signed False n = n \<and> \<not> n <s 0"
  proof -
    have "n = of_nat (unat n)" by simp
    moreover have "unat n \<in> set [0..<32]" using u by simp
    moreover have "\<forall>k\<in>set [0..<32]. va_signed False (of_nat k) = of_nat k \<and> \<not> (of_nat k :: u64) <s 0" by code_simp
    ultimately show ?thesis by metis
  qed
  then show "render (nl ''Exception: %s (#%d)'') [text_arg (vector_name (unat n)), Num n] =
      Some (ascii ''Exception: '' @ vector_name (unat n) @ ascii '' (#'' @ number_string 10 (unat n) @ ascii '')'' @ [10])"
    using s by (simp add: render_eval)
  note v = exception_name [OF u] and n = number_string_length [of 10 "unat n"] number_string_nonzero [of 10 "unat n"] unsigned_less [of n, where 'a = nat]
  show "length (ascii ''Exception: '' @ vector_name (unat n) @ ascii '' (#'' @ number_string 10 (unat n) @ ascii '')'' @ [10]) < 1024"
    "0 \<notin> set (ascii ''Exception: '' @ vector_name (unat n) @ ascii '' (#'' @ number_string 10 (unat n) @ ascii '')'' @ [10])"
    using v n by (simp_all add: ascii_def)
qed

lemma report_one:
  "formatted 1024 (nl ''Error Code: 0x%lx'') [Num a] = Some (ascii ''Error Code: 0x'' @ number_string 16 (unat a) @ [10])"
  "formatted 1024 (nl ''RFLAGS=%016lx'') [Num a] = Some (ascii ''RFLAGS='' @ hex16 a @ [10])"
  "formatted 1024 (nl ''CR2 (Faulting Address): %016lx'') [Num a] = Some (ascii ''CR2 (Faulting Address): '' @ hex16 a @ [10])"
proof -
  note n = number_string_length [of 16 "unat a"] number_string_nonzero [of 16 "unat a"] unsigned_less [of a, where 'a = nat] hex16_length [of a]
  show "formatted 1024 (nl ''Error Code: 0x%lx'') [Num a] = Some (ascii ''Error Code: 0x'' @ number_string 16 (unat a) @ [10])"
    by (rule formatted_short) (simp add: render_eval, use n in \<open>simp_all add: ascii_def\<close>)
  show "formatted 1024 (nl ''RFLAGS=%016lx'') [Num a] = Some (ascii ''RFLAGS='' @ hex16 a @ [10])"
    by (rule formatted_short) (simp add: render_eval, use n in \<open>simp_all add: ascii_def\<close>)
  show "formatted 1024 (nl ''CR2 (Faulting Address): %016lx'') [Num a] = Some (ascii ''CR2 (Faulting Address): '' @ hex16 a @ [10])"
    by (rule formatted_short) (simp add: render_eval, use n in \<open>simp_all add: ascii_def\<close>)
qed

text \<open>The nine lines with two registers have one form.\<close>

lemma report_pair:
  assumes "length p \<le> 8" "0 \<notin> set p" "length q \<le> 8" "0 \<notin> set q"
    and "render f [Num a, Num b] = Some (p @ hex16 a @ q @ hex16 b @ [10])"
  shows "formatted 1024 f [Num a, Num b] = Some (p @ hex16 a @ q @ hex16 b @ [10])"
  by (rule formatted_short [OF assms(5)]) (use assms hex16_length [of a] hex16_length [of b] in simp_all)

lemma report_pairs:
  "formatted 1024 (nl ''RAX=%016lx  RBX=%016lx'') [Num a, Num b] = Some (ascii ''RAX='' @ hex16 a @ ascii ''  RBX='' @ hex16 b @ [10])"
  "formatted 1024 (nl ''RCX=%016lx  RDX=%016lx'') [Num a, Num b] = Some (ascii ''RCX='' @ hex16 a @ ascii ''  RDX='' @ hex16 b @ [10])"
  "formatted 1024 (nl ''RSI=%016lx  RDI=%016lx'') [Num a, Num b] = Some (ascii ''RSI='' @ hex16 a @ ascii ''  RDI='' @ hex16 b @ [10])"
  "formatted 1024 (nl ''RBP=%016lx  RSP=%016lx'') [Num a, Num b] = Some (ascii ''RBP='' @ hex16 a @ ascii ''  RSP='' @ hex16 b @ [10])"
  "formatted 1024 (nl ''R8 =%016lx  R9 =%016lx'') [Num a, Num b] = Some (ascii ''R8 ='' @ hex16 a @ ascii ''  R9 ='' @ hex16 b @ [10])"
  "formatted 1024 (nl ''R10=%016lx  R11=%016lx'') [Num a, Num b] = Some (ascii ''R10='' @ hex16 a @ ascii ''  R11='' @ hex16 b @ [10])"
  "formatted 1024 (nl ''R12=%016lx  R13=%016lx'') [Num a, Num b] = Some (ascii ''R12='' @ hex16 a @ ascii ''  R13='' @ hex16 b @ [10])"
  "formatted 1024 (nl ''R14=%016lx  R15=%016lx'') [Num a, Num b] = Some (ascii ''R14='' @ hex16 a @ ascii ''  R15='' @ hex16 b @ [10])"
  "formatted 1024 (nl ''RIP=%016lx  CS =%016lx'') [Num a, Num b] = Some (ascii ''RIP='' @ hex16 a @ ascii ''  CS ='' @ hex16 b @ [10])"
  by (rule report_pair; simp add: render_eval)+

lemma report_cause:
  assumes "\<forall>t\<in>{x, y, z}. length t \<le> 64 \<and> 0 \<notin> set t"
  shows "formatted 1024 (nl ''Cause: %s %s %s'') [text_arg x, text_arg y, text_arg z] = Some (ascii ''Cause: '' @ x @ [0x20] @ y @ [0x20] @ z @ [10])"
  by (rule formatted_short) (simp add: render_eval, use assms in \<open>simp_all add: ascii_def\<close>)

lemma error_bits: "x AND 1 \<noteq> 0 \<longleftrightarrow> bit x 0" "x AND 2 \<noteq> 0 \<longleftrightarrow> bit x 1" "x AND 4 \<noteq> 0 \<longleftrightarrow> bit x 2" for x :: u64
  using and_exp_eq_0_iff_not_bit [of x 0] and_exp_eq_0_iff_not_bit [of x 1] and_exp_eq_0_iff_not_bit [of x 2] by simp_all

text \<open>
  C40. An exception whose vector is below 32 prints its report on the console and the serial line: the name and the number of the vector,
  the error code, every register under its own name, and for a page fault the address and what the error code says of the access,
  whatever the registers hold. Nothing else of the machine changes and the machine stops.
\<close>

theorem isr_handler_halts:
  assumes "reg_int_no r < 32" "uart (e_line E) k sent" "con_inv (get_con m)"
  shows "\<exists>m'. isr_handler E cr2 r m = Some (Halts, m') \<and> prints sent (panic_text cr2 r) m m'"
proof -
  have u: "unat (reg_int_no r) < 32" using assms(1) by (simp add: word_less_nat_alt)
  let ?causes = "if reg_int_no r = 14 then [ascii ''CR2 (Faulting Address): '' @ hex16 cr2 @ [10],
      ascii ''Cause: '' @ ascii (if bit (reg_err_code r) 0 then ''Protection violation'' else ''Page not present'') @ [0x20] @
      ascii (if bit (reg_err_code r) 1 then ''Write'' else ''Read'') @ [0x20] @
      ascii (if bit (reg_err_code r) 2 then ''User mode'' else ''Kernel mode'') @ [10]] else []"
  let ?ts = "[[10, 10], ascii ''=== KERNEL PANIC ==='' @ [10],
      ascii ''Exception: '' @ vector_name (unat (reg_int_no r)) @ ascii '' (#'' @ number_string 10 (unat (reg_int_no r)) @ ascii '')'' @ [10],
      ascii ''Error Code: 0x'' @ number_string 16 (unat (reg_err_code r)) @ [10], 10 # ascii ''--- Register Dump ---'' @ [10]] @
    map (row_text r) register_rows @ [register_text r (''RFLAGS'', reg_rflags) @ [10]] @ ?causes @ [10 # ascii ''System halted.'' @ [10]]"
  have cause: "\<forall>t\<in>{ascii (if b then ''Protection violation'' else ''Page not present''), ascii (if c then ''Write'' else ''Read''),
      ascii (if d then ''User mode'' else ''Kernel mode'')}. length t \<le> 64 \<and> 0 \<notin> set t" for b c d
    by (auto simp: ascii_def)
  have "map (\<lambda>(f, args). formatted 1024 f args) (exception_report cr2 r) = map Some ?ts"
    unfolding exception_report_def error_bits
    by (simp add: report_plain report_exception [OF assms(1)] exception_name [OF u] report_one report_pairs report_cause [OF cause]
        register_rows_def row_text_def register_text_def)
       (simp add: ascii_def)
  from say_all [OF assms(2,3) this] obtain m' where "foldM (\<lambda>(f, args). say E f args) (exception_report cr2 r) m = Some m'"
    "prints sent (concat ?ts) m m'" by blast
  moreover have "concat ?ts = panic_text cr2 r" by (simp add: panic_text_def fault_text_def)
  ultimately show ?thesis using assms(1) by (auto simp: isr_handler_def)
qed

section \<open>The console after booting\<close>

definition on_pixels :: "('a fb_scheme \<Rightarrow> 'a fb_scheme) \<Rightarrow> bool" where
  "on_pixels f \<longleftrightarrow> (\<forall>s. (f s)\<lparr>fb_mem := fb_mem s\<rparr> = s)"

lemma on_pixels_comp: "on_pixels f \<Longrightarrow> on_pixels g \<Longrightarrow> on_pixels (\<lambda>s. g (f s))"
  unfolding on_pixels_def
proof (intro allI)
  fix s assume f: "\<forall>s. (f s)\<lparr>fb_mem := fb_mem s\<rparr> = s" and g: "\<forall>s. (g s)\<lparr>fb_mem := fb_mem s\<rparr> = s"
  have "(g (f s))\<lparr>fb_mem := fb_mem s\<rparr> = ((g (f s))\<lparr>fb_mem := fb_mem (f s)\<rparr>)\<lparr>fb_mem := fb_mem s\<rparr>" by simp
  then show "(g (f s))\<lparr>fb_mem := fb_mem s\<rparr> = s" using f g by simp
qed

lemma on_pixels_fold: "(\<And>x. on_pixels (f x)) \<Longrightarrow> on_pixels (fold f xs)"
proof (induction xs)
  case Nil
  show ?case by (simp add: on_pixels_def)
next
  case (Cons x xs)
  then show ?case using on_pixels_comp [of "f x" "fold f xs"] by (simp add: comp_def)
qed

lemma on_pixels_rect: "on_pixels (fb_draw_rect x y w h c)"
  unfolding on_pixels_def by (intro allI paintsD(1) [OF paints_rect])

lemma on_pixels_char: "on_pixels (font_draw_char x y c fg bg)"
  unfolding on_pixels_def by (intro allI paintsD(1) [OF paints_char])

lemma on_pixels_string: "on_pixels (font_draw_string x y str fg bg)"
proof -
  have "on_pixels (font_draw_from x cx cy str fg bg)" for cx cy
  proof (induction str arbitrary: cx cy)
    case (Cons c str)
    show ?case
    proof (cases "c = 0x0A")
      case False
      then show ?thesis using on_pixels_comp [OF on_pixels_char Cons [of "cx + 8" cy]] by simp
    qed (use Cons in simp)
  qed (simp add: on_pixels_def)
  then show ?thesis by (simp add: font_draw_string_def [abs_def])
qed

lemma on_pixels_window: "on_pixels (gui_draw_window win)"
proof -
  have two: "on_pixels (\<lambda>s. fb_draw_rect a b c d e (fb_draw_rect a' b' c' d' e' s))" for a b c d e a' b' c' d' e'
    by (rule on_pixels_comp [OF on_pixels_rect on_pixels_rect])
  let ?d = "FB_COLOR 0 0 0" and ?w = "FB_COLOR 255 255 255" and ?b = "FB_COLOR 0 120 215"
  let ?f = "fold (\<lambda>x s. fb_draw_rect x (win_y win + win_height win) 1 1 ?d (fb_draw_rect x (win_y win) 1 1 ?w s))
                (int_range (win_x win) (win_x win + win_width win))"
  let ?g = "fold (\<lambda>y s. fb_draw_rect (win_x win + win_width win) y 1 1 ?d (fb_draw_rect (win_x win) y 1 1 ?w s))
                (int_range (win_y win) (win_y win + win_height win))"
  have "on_pixels ?f" "on_pixels ?g" by (rule on_pixels_fold, rule two)+
  note fg = on_pixels_comp [OF on_pixels_comp [OF on_pixels_rect this(1)] this(2)]
  show ?thesis unfolding gui_draw_window_def [abs_def] Let_def
    by (rule on_pixels_comp [OF on_pixels_comp [OF fg on_pixels_rect] on_pixels_string])
qed

lemma gui_init_fields: "(gui_init s)\<lparr>fb_mem := fb_mem s\<rparr> = s"
proof -
  note on_pixels_comp [OF on_pixels_comp [OF on_pixels_rect on_pixels_rect] on_pixels_string]
  then show ?thesis unfolding gui_init_def gui_draw_desktop_def Let_def on_pixels_def by blast
qed

lemma get_con_fields:
  "fb_width (get_con m) = fb_width m" "fb_height (get_con m) = fb_height m" "fb_ok (get_con m) = fb_ok m"
  by (simp_all add: get_con_def fb_ok_def)

text \<open>The console ends above the strip of the clock.\<close>

definition above_clock :: "'a fbcon_scheme \<Rightarrow> bool" where
  "above_clock s \<longleftrightarrow> unat (con_y s) + 10 * unat (con_rows s) + 25 \<le> unat (fb_height s)"

lemma console_above:
  assumes "above_clock s" "in_console s x y"
  shows "\<not> y - (fb_height s - 25) < 10"
proof -
  have b: "unat (y - con_y s) < 10 * unat (con_rows s)" "unat (con_y s) + 10 * unat (con_rows s) + 25 \<le> unat (fb_height s)"
    "unat (fb_height s) < 2 ^ 32"
    using assms unsigned_less [of "fb_height s", where 'a = nat] by (simp_all add: above_clock_def in_console_def)
  have y: "unat y < unat (con_y s) + 10 * unat (con_rows s)" using b by (auto simp: unat_sub_if' split: if_splits)
  have h: "unat (fb_height s - 25) = unat (fb_height s) - 25" using b by (simp add: unat_sub_if')
  have "unat y < unat (fb_height s) - 25" using b(2) y by linarith
  then have "10 \<le> unat (y - (fb_height s - 25))" using b(3) h by (auto simp: unat_sub_if')
  then show ?thesis by (simp add: word_less_nat_alt)
qed

lemma con_of_pixels: "m_con (m\<lparr>fb_mem := v\<rparr>) = m_con m"
  by (cases m) simp

lemma con_of_fb: "m_con (m\<lparr>fb_buffer := b, fb_width := w, fb_height := h, fb_pitch := p, fb_bpp := i\<rparr>) = m_con m"
  by (cases m) simp

text \<open>What the boot loader's framebuffer has to be: lines of whole pixels, within 32 bits, and room for the window.\<close>

definition usable_screen :: "limine_framebuffer \<Rightarrow> bool" where
  "usable_screen f \<longleftrightarrow> lf_address f \<noteq> 0 \<and> 104 \<le> lf_width f \<and> 166 \<le> lf_height f \<and> 4 dvd unat (lf_pitch f) \<and>
     4 * unat (lf_width f) \<le> unat (lf_pitch f) \<and> unat (lf_height f) * unat (lf_pitch f) < 2 ^ 32"

lemma usable_fb:
  assumes "usable_screen f"
  shows "fb_ok (fb_init (Some (limine_boot_info f es)) m)" "unat (fb_width (fb_init (Some (limine_boot_info f es)) m)) = unat (lf_width f)"
    "unat (fb_height (fb_init (Some (limine_boot_info f es)) m)) = unat (lf_height f)"
proof -
  have w: "104 \<le> unat (lf_width f)" "166 \<le> unat (lf_height f)" using assms by (simp_all add: usable_screen_def word_le_nat_alt)
  have p: "4 * unat (lf_width f) \<le> unat (lf_pitch f)" "unat (lf_height f) * unat (lf_pitch f) < 2 ^ 32" "0 < unat (lf_pitch f)"
    using assms w by (auto simp: usable_screen_def)
  have "unat (lf_pitch f) \<le> unat (lf_height f) * unat (lf_pitch f)" "unat (lf_height f) \<le> unat (lf_height f) * unat (lf_pitch f)"
    using w p by simp_all
  then have b: "unat (lf_pitch f) < 2 ^ 32" "unat (lf_height f) < 2 ^ 32" "unat (lf_width f) < 2 ^ 32" using p(1,2) by linarith+
  have c: "unat (ucast x :: u32) = unat x" if "unat x < 2 ^ 32" for x :: u64
    using that by (simp add: unsigned_ucast_eq take_bit_nat_eq_self)
  show "fb_ok (fb_init (Some (limine_boot_info f es)) m)" "unat (fb_width (fb_init (Some (limine_boot_info f es)) m)) = unat (lf_width f)"
    "unat (fb_height (fb_init (Some (limine_boot_info f es)) m)) = unat (lf_height f)"
    using assms b by (simp_all add: fb_init_def limine_boot_info_def fb_ok_def usable_screen_def c)
qed

lemma boot_screen_ok:
  assumes "usable_screen f"
  shows "\<exists>m'. boot_screen (limine_boot_info f es) m = Some m' \<and> con_inv (get_con m') \<and> above_clock (get_con m') \<and>
    con_text (get_con m') = (replicate (min 96 ((unat (lf_height f) - 156) div 10)) (replicate (min 160 ((unat (lf_width f) - 96) div 8)) (0x20, con_fg (m_con m))), 0, 0)"
proof -
  define a where "a = fb_init (Some (limine_boot_info f es)) m"
  define g where "g = gui_init a"
  define t where "t = terminal_window (fb_get_width g) (fb_get_height g)"
  define s where "s = gui_draw_window t g"
  note u = usable_fb [OF assms, of es m, folded a_def]
  note fg = only_mem [OF gui_init_fields [of a], folded g_def]
  have "s\<lparr>fb_mem := fb_mem g\<rparr> = g" using on_pixels_window [unfolded on_pixels_def] unfolding s_def by blast
  note fs = only_mem [OF this]
  have w: "104 \<le> unat (fb_width g)" "166 \<le> unat (fb_height g)" using assms u fg by (simp_all add: usable_screen_def word_le_nat_alt)
  let ?w = "fb_width g - 80 - 16" and ?h = "fb_height g - 40 - 80 - 22 - 14"
  have uw: "unat ?w = unat (fb_width g) - 96"
  proof -
    have "?w = fb_width g - 96" by simp
    then show ?thesis using w by (simp add: unat_sub word_le_nat_alt)
  qed
  have uh: "unat ?h = unat (fb_height g) - 156"
  proof -
    have "?h = fb_height g - 156" by simp
    then show ?thesis using w by (simp add: unat_sub word_le_nat_alt)
  qed
  have ok: "fb_ok (get_con s)" using u(1) fg(2) fs(2) by (simp add: get_con_fields)
  have size: "8 \<le> ?w" "10 \<le> ?h" using w uw uh by (simp_all add: word_le_nat_alt)
  have pos: "unat (40 + 8 :: u32) + unat ?w \<le> unat (fb_width (get_con s))" "unat (40 + 22 + 6 :: u32) + unat ?h \<le> unat (fb_height (get_con s))"
    using w uw uh fs(1) by (simp_all add: get_con_fields)
  obtain c where c: "fbcon_init (40 + 8) (40 + 22 + 6) ?w ?h (FB_COLOR 24 26 30) (get_con s) = Some c" "con_inv c"
    "con_text c = (replicate (min 96 (unat ?h div 10)) (replicate (min 160 (unat ?w div 8)) (0x20, con_fg (get_con s))), 0, 0)"
    "con_y c = 40 + 22 + 6" "fb_height c = fb_height (get_con s)"
    using fbcon_init_ok [OF ok size pos] by (auto simp: idle_def)
  have "unat (con_rows c) = length (con_lines c)" by simp
  also have "\<dots> = min 96 (unat ?h div 10)" using c(3) by (simp add: con_text_def)
  finally have "10 * unat (con_rows c) \<le> unat ?h" by simp
  then have above: "above_clock c" using c(4,5) w uh fs(1) by (simp add: above_clock_def get_con_fields)
  have mc: "con_fg (get_con s) = con_fg (m_con m)"
  proof -
    have "m_con s = m_con m"
      using arg_cong [OF \<open>s\<lparr>fb_mem := fb_mem g\<rparr> = g\<close>, of m_con] arg_cong [OF gui_init_fields [of a], of m_con]
      by (simp only: con_of_pixels) (simp add: g_def a_def fb_init_def con_of_fb)
    then show ?thesis by (simp add: get_con_def)
  qed
  have "boot_screen (limine_boot_info f es) m = Some (put_con c s)"
    using c(1) by (simp add: boot_screen_def a_def [symmetric] g_def [symmetric] t_def [symmetric] s_def [symmetric] Let_def)
      (simp add: t_def terminal_window_def fb_get_width_def fb_get_height_def)
  then show ?thesis using c(2,3) above uw uh u(2,3) fg(1) mc by simp
qed


definition demo_regs :: "u64 \<Rightarrow> cpu_state" where
  "demo_regs n = \<lparr>reg_r15 = 16, reg_r14 = 15, reg_r13 = 14, reg_r12 = 13, reg_r11 = 12, reg_r10 = 11, reg_r9 = 10, reg_r8 = 9, reg_rbp = 7, reg_rdi = 6,
    reg_rsi = 5, reg_rdx = 4, reg_rcx = 3, reg_rbx = 2, reg_rax = 1, reg_int_no = n, reg_err_code = 6, reg_rip = 0x1000, reg_cs = 8, reg_rflags = 0x202,
    reg_rsp = 8, reg_ss = 0x10\<rparr>"

text \<open>A user program writes to the address 0xDEAD, which is not mapped.\<close>

theorem isr_handler_halts_witness:
  "\<exists>s m'. isr_handler demo_env 0xDEAD (demo_regs 14) (demo_machine [] s) = Some (Halts, m') \<and>
     m_line m' =
      [10, 10] @
      nl ''=== KERNEL PANIC ==='' @
      nl ''Exception: Page Fault (#14)'' @
      nl ''Error Code: 0x6'' @
      [10] @
      nl ''--- Register Dump ---'' @
      nl ''RAX=0000000000000001  RBX=0000000000000002'' @
      nl ''RCX=0000000000000003  RDX=0000000000000004'' @
      nl ''RSI=0000000000000005  RDI=0000000000000006'' @
      nl ''RBP=0000000000000007  RSP=0000000000000008'' @
      nl ''R8 =0000000000000009  R9 =000000000000000a'' @
      nl ''R10=000000000000000b  R11=000000000000000c'' @
      nl ''R12=000000000000000d  R13=000000000000000e'' @
      nl ''R14=000000000000000f  R15=0000000000000010'' @
      nl ''RIP=0000000000001000  CS =0000000000000008'' @
      nl ''RFLAGS=0000000000000202'' @
      nl ''CR2 (Faulting Address): 000000000000dead'' @
      nl ''Cause: Page not present Write User mode'' @
      [10] @
      nl ''System halted.''"
proof -
  obtain s where s: "con_inv (get_con (demo_machine [] s))" "m_line (demo_machine [] s) = []" using demo_console by blast
  have "reg_int_no (demo_regs 14) < 32" by (simp add: demo_regs_def)
  from isr_handler_halts [where ?cr2.0 = "0xDEAD", OF this demo_line s(1)] obtain m' where
    h: "isr_handler demo_env 0xDEAD (demo_regs 14) (demo_machine [] s) = Some (Halts, m')"
      "prints (\<lambda>d. d) (panic_text 0xDEAD (demo_regs 14)) (demo_machine [] s) m'" by blast
  have rep: "replicate (numeral k) c = c # replicate (pred_numeral k) c" for k and c :: u8 by (simp add: numeral_eq_Suc)
  have hex: "hex16 0x1 = ascii ''0000000000000001''"
    "hex16 0x2 = ascii ''0000000000000002''"
    "hex16 0x3 = ascii ''0000000000000003''"
    "hex16 0x4 = ascii ''0000000000000004''"
    "hex16 0x5 = ascii ''0000000000000005''"
    "hex16 0x6 = ascii ''0000000000000006''"
    "hex16 0x7 = ascii ''0000000000000007''"
    "hex16 0x8 = ascii ''0000000000000008''"
    "hex16 0x9 = ascii ''0000000000000009''"
    "hex16 0xA = ascii ''000000000000000a''"
    "hex16 0xB = ascii ''000000000000000b''"
    "hex16 0xC = ascii ''000000000000000c''"
    "hex16 0xD = ascii ''000000000000000d''"
    "hex16 0xE = ascii ''000000000000000e''"
    "hex16 0xF = ascii ''000000000000000f''"
    "hex16 0x10 = ascii ''0000000000000010''"
    "hex16 0x202 = ascii ''0000000000000202''"
    "hex16 0x1000 = ascii ''0000000000001000''"
    "hex16 0xDEAD = ascii ''000000000000dead''"
    by (simp_all add: hex16_def Stdio.padded_def number_string_def udigits.simps digit_char_def rep ascii_def)
  have n: "vector_name 14 = ascii ''Page Fault''" by (simp add: vector_name_def vector_names_def)
  have x: "number_string 16 6 = [0x36]" by (simp add: number_string_def udigits.simps digit_char_def)
  have d: "number_string 10 14 = [0x31, 0x34]" by (simp add: number_string_def udigits.simps digit_char_def)
  have "panic_text 0xDEAD (demo_regs 14) = m_line m'" using h(2) s(2) by (auto simp: prints_def printed_def)
  moreover have "panic_text 0xDEAD (demo_regs 14) = [10, 10] @
      nl ''=== KERNEL PANIC ==='' @
      nl ''Exception: Page Fault (#14)'' @
      nl ''Error Code: 0x6'' @
      [10] @
      nl ''--- Register Dump ---'' @
      nl ''RAX=0000000000000001  RBX=0000000000000002'' @
      nl ''RCX=0000000000000003  RDX=0000000000000004'' @
      nl ''RSI=0000000000000005  RDI=0000000000000006'' @
      nl ''RBP=0000000000000007  RSP=0000000000000008'' @
      nl ''R8 =0000000000000009  R9 =000000000000000a'' @
      nl ''R10=000000000000000b  R11=000000000000000c'' @
      nl ''R12=000000000000000d  R13=000000000000000e'' @
      nl ''R14=000000000000000f  R15=0000000000000010'' @
      nl ''RIP=0000000000001000  CS =0000000000000008'' @
      nl ''RFLAGS=0000000000000202'' @
      nl ''CR2 (Faulting Address): 000000000000dead'' @
      nl ''Cause: Page not present Write User mode'' @
      [10] @
      nl ''System halted.''"
    by (simp add: panic_text_def fault_text_def n x d hex register_rows_def row_text_def register_text_def demo_regs_def nl_def ascii_def)
  ultimately show ?thesis using h(1) by auto
qed

text \<open>
  C39. On a framebuffer with lines of whole pixels and room for the window, the boot sequence gets its console: the desktop, the
  window and \<open>fbcon_init\<close> leave a console in its invariant, which lies inside the screen and above the counter of the clock, is empty, and has as many rows and
  columns as fit into the window, at most 96 and 160.
\<close>

theorem boot_screen_correct:
  assumes "usable_screen f"
  shows "\<exists>m'. boot_screen (limine_boot_info f es) m = Some m' \<and> con_inv (get_con m') \<and> above_clock (get_con m') \<and>
    con_text (get_con m') = (replicate (min 96 ((unat (lf_height f) - 156) div 10)) (replicate (min 160 ((unat (lf_width f) - 96) div 8)) (0x20, con_fg (m_con m))), 0, 0)"
  using assms by (rule boot_screen_ok)

theorem boot_screen_correct_witness:
  "\<exists>m'. boot_screen (limine_boot_info \<lparr>lf_address = 0xFD000000, lf_width = 640, lf_height = 480, lf_pitch = 2560, lf_bpp = 32\<rparr> None) (demo_machine [] small_con) = Some m' \<and>
     con_inv (get_con m') \<and> length (fst (con_text (get_con m'))) = 32"
proof -
  have "usable_screen \<lparr>lf_address = 0xFD000000, lf_width = 640, lf_height = 480, lf_pitch = 2560, lf_bpp = 32\<rparr>" by (simp add: usable_screen_def)
  from boot_screen_correct [OF this, of None "demo_machine [] small_con"] show ?thesis by auto
qed

section \<open>Booting without the loader's answers\<close>

text \<open>
  When the boot loader does not support the kernel's revision, or gives no framebuffer or no memory map, the kernel stops
  before it touches memory: only the serial line, the descriptor tables and the offset of the direct map have been set.
\<close>

theorem kmain_refuses:
  assumes "\<not> bt_supported B \<or> bt_framebuffers B = None \<or> bt_framebuffers B = Some [] \<or> bt_memmap B = None"
  shows "\<exists>m'. kmain E B regs m = Some (Halts, m') \<and> m_line m' = serial_init (e_line E) (m_line m) \<and>
    m_gdt m' = gdt_init (bt_stack B) (bt_tss B) (bt_gdt B) (m_gdt m) \<and> m_dev m' = m_dev m \<and> m_mem m' = m_mem m \<and>
    (\<exists>h. m_sys m' = (m_sys m)\<lparr>hhdm_offset := h\<rparr>) \<and> get_con m' = get_con m"
proof -
  let ?m = "m\<lparr>m_line := serial_init (e_line E) (m_line m), m_gdt := gdt_init (bt_stack B) (bt_tss B) (bt_gdt B) (m_gdt m)\<rparr>"
  have same: "get_con ?m = get_con m" "get_con (?m\<lparr>m_sys := z\<rparr>) = get_con m" for z by (simp_all add: get_con_def)
  have hh: "m_sys m = (m_sys m)\<lparr>hhdm_offset := hhdm_offset (m_sys m)\<rparr>" by simp
  have "kboot E B regs m = Some (Inl ?m) \<or> (\<exists>h. kboot E B regs m = Some (Inl (?m\<lparr>m_sys := (m_sys m)\<lparr>hhdm_offset := h\<rparr>\<rparr>)))"
    using assms by (auto simp: kboot_def kpanic_def Let_def split: option.split list.split)
  then show ?thesis
  proof
    assume "kboot E B regs m = Some (Inl ?m)"
    then show ?thesis using same(1) hh by (auto simp: kmain_def intro: exI [of _ "hhdm_offset (m_sys m)"])
  next
    assume "\<exists>h. kboot E B regs m = Some (Inl (?m\<lparr>m_sys := (m_sys m)\<lparr>hhdm_offset := h\<rparr>\<rparr>))"
    then show ?thesis using same(2) by (auto simp: kmain_def)
  qed
qed


theorem kmain_refuses_witness:
  "\<exists>m'. kmain demo_env \<lparr>bt_supported = True, bt_framebuffers = Some [], bt_memmap = None, bt_hhdm = None, bt_stack = 0, bt_tss = 0, bt_gdt = 0, bt_cr3 = 0,
       bt_cs = 8, bt_ss = 16, bt_stubs = (\<lambda>_. 0), bt_syscall_entry = 0, bt_clock_entry = 0\<rparr> (\<lambda>_. (0, 0)) (demo_machine [] small_con) = Some (Halts, m') \<and>
     m_mem m' = m_mem (demo_machine [] small_con)"
  using kmain_refuses [of "\<lparr>bt_supported = True, bt_framebuffers = Some [], bt_memmap = None, bt_hhdm = None, bt_stack = 0, bt_tss = 0, bt_gdt = 0, bt_cr3 = 0,
       bt_cs = 8, bt_ss = 16, bt_stubs = (\<lambda>_. 0), bt_syscall_entry = 0, bt_clock_entry = 0\<rparr>" demo_env "\<lambda>_. (0, 0)" "demo_machine [] small_con"]
  by auto


section \<open>The clock beside the shell\<close>

text \<open>A drawing operation that stays in the ten rows of pixels below \<open>y0\<close>.\<close>

definition strip :: "u32 \<Rightarrow> ('a fb_scheme \<Rightarrow> 'a fb_scheme) \<Rightarrow> bool" where
  "strip y0 f \<longleftrightarrow> on_pixels f \<and>
     (\<forall>s x y. fb_ok s \<longrightarrow> fb_visible x y s \<longrightarrow> \<not> y - y0 < 10 \<longrightarrow> fb_getpixel x y (f s) = fb_getpixel x y s)"

lemma strip_paints:
  assumes "paints f p" "\<And>x y. p x y \<noteq> None \<Longrightarrow> y - y0 < 10"
  shows "strip y0 f"
  unfolding strip_def on_pixels_def
proof (intro conjI allI impI)
  fix s x y
  show "(f s)\<lparr>fb_mem := fb_mem s\<rparr> = s" by (rule paintsD(1) [OF assms(1)])
  assume "fb_ok s" "fb_visible x y s" "\<not> y - y0 < 10"
  then show "fb_getpixel x y (f s) = fb_getpixel x y s" using paintsD(2) [OF assms(1), of s x y] assms(2) [of x y] by (auto split: option.splits)
qed

lemma strip_comp:
  fixes f g :: "'a fb_scheme \<Rightarrow> 'a fb_scheme"
  assumes "strip y0 f" "strip y0 g"
  shows "strip y0 (\<lambda>s. g (f s))"
  unfolding strip_def
proof (intro conjI allI impI)
  show "on_pixels (\<lambda>s. g (f s))" using assms by (auto simp: strip_def intro: on_pixels_comp)
  fix s :: "'a fb_scheme" and x y assume v: "fb_ok s" "fb_visible x y s" "\<not> y - y0 < 10"
  have "(f s)\<lparr>fb_mem := fb_mem s\<rparr> = s" using assms(1) by (simp add: strip_def on_pixels_def)
  from only_mem(2,3) [OF this] v have "fb_ok (f s)" "fb_visible x y (f s)" by simp_all
  then show "fb_getpixel x y (g (f s)) = fb_getpixel x y s" using assms v by (simp add: strip_def)
qed

lemma strip_rect: "strip y (fb_draw_rect x y w 10 c)"
  by (rule strip_paints [OF paints_rect]) (auto split: if_splits)

lemma strip_char: "strip y (font_draw_char x y c fg bg)"
proof (rule strip_paints [OF paints_char])
  fix px py assume "(if px - x < 8 \<and> py - y < 8 then if bit (glyph_row c (unat (py - y))) (7 - unat (px - x)) then Some fg
          else if bg \<noteq> 0 then Some bg else None else None) \<noteq> None"
  then have "py - y < 8" by (auto split: if_splits)
  then show "py - y < 10" by (simp add: word_less_nat_alt)
qed

lemma strip_string:
  assumes "0x0A \<notin> set cs"
  shows "strip y (font_draw_string x y cs fg bg)"
proof -
  have "strip y (font_draw_from x cx y cs fg bg)" for cx
    using assms
  proof (induction cs arbitrary: cx)
    case Nil
    show ?case by (simp add: strip_def on_pixels_def)
  next
    case (Cons c cs)
    then show ?case using strip_comp [OF strip_char Cons.IH [of "cx + 8"]] by auto
  qed
  then show ?thesis by (simp add: font_draw_string_def [abs_def])
qed

lemma number_string_line: "0x0A \<notin> set (number_string 10 n)"
proof
  assume "0x0A \<in> set (number_string 10 n)"
  then obtain d where d: "d \<in> set (udigits 10 n)" "(0x0A :: u8) = digit_char (of_nat d)" by (auto simp: number_string_def)
  then have "d < 10" using udigits_less [of 10] by simp
  then have "d \<in> {0, 1, 2, 3, 4, 5, 6, 7, 8, 9}" by auto
  then show False using d(2) by (auto simp: digit_char_def)
qed

lemma clock_text: "\<exists>cs. render (ascii ''up %lu:%02lu:%02lu'') [Num a, Num b, Num c] = Some cs \<and> 0x0A \<notin> set cs"
  using number_string_line
  by (simp add: ascii_def split_directive_def skip_char_def render_directive_def is_digit_def Stdio.padded_def)


text \<open>What the clock may change of the machine: pixels outside the console, and whether the cursor is shown.\<close>

definition clock_rel :: "('u, 'd) machine \<Rightarrow> ('u, 'd) machine \<Rightarrow> bool" where
  "clock_rel m m' \<longleftrightarrow> off_screen m m' \<and> m_line m' = m_line m \<and> con_inv (get_con m') \<and> above_clock (get_con m') \<and>
     fb_height m' = fb_height m \<and> con_text (get_con m') = con_text (get_con m)"

lemma clock_rel_refl: "con_inv (get_con m) \<Longrightarrow> above_clock (get_con m) \<Longrightarrow> clock_rel m m"
  by (simp add: clock_rel_def)

lemma clock_rel_trans: "clock_rel m m' \<Longrightarrow> clock_rel m' m'' \<Longrightarrow> clock_rel m m''"
  using off_screen_trans [of m m' m''] by (simp add: clock_rel_def)

lemma pixels_only: "t\<lparr>fb_mem := w\<rparr> = m \<Longrightarrow> t = m\<lparr>fb_mem := fb_mem t\<rparr>"
  for m :: "('u, 'd) machine"
  by (cases t) auto

lemma set_pixels:
  "get_con (m\<lparr>fb_mem := v\<rparr>) = (get_con m)\<lparr>fb_mem := v\<rparr>" "off_screen m (m\<lparr>fb_mem := v\<rparr>)"
  "m_line (m\<lparr>fb_mem := v\<rparr>) = m_line m" "fb_mem (m\<lparr>fb_mem := v\<rparr>) = v" "fb_offset x y (m\<lparr>fb_mem := v\<rparr>) = fb_offset x y m"
  by (cases m; simp add: get_con_def off_screen_def put_out_def put_con_def fb_offset_def)+

lemma clock_strip:
  assumes "con_inv (get_con m)" "above_clock (get_con m)" "strip (fb_height m - 25) f"
  shows "clock_rel m (f m)"
proof -
  define v where "v = fb_mem (f m)"
  let ?s = "get_con m" and ?s' = "(get_con m)\<lparr>fb_mem := v\<rparr>"
  have "(f m)\<lparr>fb_mem := fb_mem m\<rparr> = m" using assms(3) by (simp add: strip_def on_pixels_def)
  then have fm: "f m = m\<lparr>fb_mem := v\<rparr>"
    unfolding v_def by (rule pixels_only)
  have con: "get_con (f m) = ?s'" by (simp add: fm set_pixels)
  have geom: "con_geom ?s" and cells: "shows_cells (\<lambda>r c. \<not> (cursor_shown ?s \<and> r = cursor_row ?s \<and> c = cursor_col ?s)) ?s"
    using assms(1) by (simp_all add: con_inv_def)
  have px: "fb_getpixel x y ?s' = fb_getpixel x y ?s" if "fb_visible x y ?s" "in_console ?s x y" for x y
  proof -
    have "\<not> y - (fb_height m - 25) < 10" using console_above [OF assms(2) that(2)] by (simp add: get_con_fields)
    moreover have "fb_ok m" using geom by (simp add: con_geom_def get_con_fields)
    moreover have vis: "fb_visible x y m" using that(1) by (simp add: fb_visible_def get_con_def)
    ultimately have "fb_getpixel x y (f m) = fb_getpixel x y m" using assms(3) by (simp add: strip_def)
    moreover have "fb_visible x y (f m)" using vis by (simp add: fm fb_visible_def)
    ultimately have "v (fb_offset x y m) = fb_mem m (fb_offset x y m)" using vis by (simp add: fb_getpixel_def fm set_pixels)
    then show ?thesis by (simp add: fb_getpixel_def fb_visible_def get_con_def fb_offset_def)
  qed
  have cp: "cell_pixel ?s' r c dx dy = cell_pixel ?s r c dx dy" for r c dx dy by (auto simp: cell_pixel_def Let_def)
  have "shows_cells (\<lambda>r c. \<not> (cursor_shown ?s \<and> r = cursor_row ?s \<and> c = cursor_col ?s)) ?s'"
    using cells px [OF inside_cell [OF geom]] cp by (simp add: shows_cells_def)
  then have "con_inv ?s'" using assms(1) by (simp add: con_inv_def con_geom_def fb_ok_def)
  moreover have "con_text ?s' = con_text ?s" using con_lines_cong [of ?s' ?s] by (simp add: con_text_def)
  moreover have "off_screen m (f m)" by (simp add: fm set_pixels)
  moreover have "m_line (f m) = m_line m" "fb_height (f m) = fb_height m" by (simp_all add: fm set_pixels)
  ultimately show ?thesis using assms(2) by (simp add: clock_rel_def con above_clock_def)
qed

lemma clock_blink:
  assumes "con_inv (get_con m)" "above_clock (get_con m)"
  shows "\<exists>c. fbcon_cursor_blink (get_con m) = Some c \<and> clock_rel m (put_con c m)"
proof -
  obtain c where c: "fbcon_cursor_blink (get_con m) = Some c" "con_inv c" "con_frame (get_con m) c" "con_text c = con_text (get_con m)"
    using fbcon_cursor_blink_correct [OF assms(1)] by blast
  have "fb_height c = fb_height m" "con_y c = con_y (get_con m)" "con_rows c = con_rows (get_con m)"
    using c(3) by (simp_all add: con_frame_def get_con_fields)
  moreover have "off_screen m (put_con c m)" by (simp add: off_screen_def put_out_def put_con_def)
  moreover have "m_line (put_con c m) = m_line m" by (simp add: put_con_def)
  moreover have "fb_height (put_con c m) = fb_height c" using get_con_fields(2) [of "put_con c m"] by simp
  ultimately have "clock_rel m (put_con c m)" using c assms(2) by (simp add: clock_rel_def above_clock_def get_con_fields)
  then show ?thesis using c(1) by blast
qed

lemma clock_turn_ok:
  assumes "con_inv (get_con m)" "above_clock (get_con m)"
  shows "\<exists>st' m'. clock_turn st m = Some (st', m') \<and> clock_rel m m'"
proof -
  obtain a b where st: "st = (a, b)" by (cases st)
  obtain m1 where m1: "(if m_ticks m - b \<ge> 50 then map_option (\<lambda>c. put_con c m) (fbcon_cursor_blink (get_con m)) else Some m) = Some m1" "clock_rel m m1"
    using clock_blink [OF assms] clock_rel_refl [OF assms] by (cases "m_ticks m - b \<ge> 50") auto
  then have i1: "con_inv (get_con m1)" "above_clock (get_con m1)" by (simp_all add: clock_rel_def)
  let ?n = "m_ticks m div 100" and ?y = "fb_get_height m1 - 25" and ?x = "fb_get_width m1 - 140"
  obtain cs where cs: "render (ascii ''up %lu:%02lu:%02lu'') [Num (?n div 3600), Num (?n div 60 mod 60), Num (?n mod 60)] = Some cs" "0x0A \<notin> set cs"
    using clock_text by blast
  let ?t = "takeWhile (\<lambda>c. c \<noteq> 0) (take 31 cs)"
  let ?f = "\<lambda>s. font_draw_string ?x ?y ?t (FB_COLOR 200 200 200) (FB_COLOR 33 37 43) (fb_draw_rect ?x ?y 130 10 (FB_COLOR 33 37 43) s)"
  have "0x0A \<notin> set ?t" using cs(2) by (auto dest!: set_takeWhileD in_set_takeD)
  then have "strip ?y ?f" by (rule strip_comp [OF strip_rect strip_string])
  then have "clock_rel m (?f m1)" using clock_rel_trans [OF m1(2) clock_strip [OF i1]] by (simp add: fb_get_height_def)
  then show ?thesis using m1 cs(1) by (auto simp: clock_turn_def st Let_def)
qed


text \<open>
  C38. The clock process goes on for ever and never disturbs the shell: whenever the interrupts between its turns keep the console
  and the serial line as they are, any number of turns returns, and the text, the position and the invariant of the console are the same
  as at the start. Its counter is drawn below the console, which has to end above it, and only the cursor blinks inside it.
\<close>

theorem clock_process_keeps:
  assumes "con_inv (get_con m)" "above_clock (get_con m)" "\<And>m. get_con (e_halt E m) = get_con m \<and> m_line (e_halt E m) = m_line m"
  shows "\<exists>st' m'. clock_process n E st m = Some (st', m') \<and> con_inv (get_con m') \<and> con_text (get_con m') = con_text (get_con m) \<and>
    m_line m' = m_line m"
  using assms(1,2)
proof (induction n arbitrary: st m)
  case (Suc n)
  obtain st1 m1 where t: "clock_turn st m = Some (st1, m1)" "clock_rel m m1" using clock_turn_ok [OF Suc.prems] by blast
  then have "con_inv (get_con (e_halt E m1))" "above_clock (get_con (e_halt E m1))" using assms(3) by (simp_all add: clock_rel_def)
  from Suc.IH [OF this, of st1] show ?case using t assms(3) [of m1] by (auto simp: clock_rel_def)
qed simp

theorem clock_process_keeps_witness:
  "\<exists>m st m'. boot_screen (limine_boot_info \<lparr>lf_address = 0xFD000000, lf_width = 640, lf_height = 480, lf_pitch = 2560, lf_bpp = 32\<rparr> None) (demo_machine [] small_con) = Some m \<and>
     clock_process 3 demo_env (2 ^ 64 - 1, 0) m = Some (st, m') \<and> con_inv (get_con m') \<and> length (fst (con_text (get_con m'))) = 32"
proof -
  have "usable_screen \<lparr>lf_address = 0xFD000000, lf_width = 640, lf_height = 480, lf_pitch = 2560, lf_bpp = 32\<rparr>" by (simp add: usable_screen_def)
  from boot_screen_ok [OF this, of None "demo_machine [] small_con"] obtain m where
    m: "boot_screen (limine_boot_info \<lparr>lf_address = 0xFD000000, lf_width = 640, lf_height = 480, lf_pitch = 2560, lf_bpp = 32\<rparr> None) (demo_machine [] small_con) = Some m"
      "con_inv (get_con m)" "above_clock (get_con m)" "length (fst (con_text (get_con m))) = 32" by auto
  from clock_process_keeps [OF m(2,3), of demo_env 3 "(2 ^ 64 - 1, 0)"] show ?thesis using m(1,4) by (auto simp: demo_env_def)
qed

end
