(* ===== verification/Spec2Isabelle.thy ===== *)
theory Spec2Isabelle
  imports Pmm Vmm Heap Process CString Stdio Ports Framebuffer Fbcon Interrupts Ps2 Net Ata Fat32 Console Usermode Syscall Pci E1000 Card Machine Shell Kernel
begin

text \<open>
  A verification of the kernel of GravityOS, a 64-bit kernel for x86_64 that boots through Limine. File names
  below are relative to \<^verbatim>\<open>src/\<close>.

  \<^bold>\<open>The program.\<close> \<^verbatim>\<open>kernel/kernel.c\<close> brings the components up in order: serial line and descriptor tables, page
  allocator, page tables, heap, interrupts, scheduler, system calls, framebuffer with desktop, window and console,
  then the drivers. It then starts a clock process and turns into the shell. Everything afterwards is driven by the
  timer, which saves the registers of the running process and loads those of the next ready one, by the keyboard and
  mouse interrupts, and by the shell, which reads lines and calls the file system, the network stack, the process
  table and the user mode loader.

  \<^bold>\<open>How it is modelled.\<close> C integers are words of their width, so they wrap as in C. The static variables of a file
  are a record; a file that works on another's state extends its record (\<open>pmm\<close>, \<open>vmm\<close>, \<open>heap\<close>, \<open>procs\<close>, \<open>timer\<close> and \<open>user\<close>
  form one such line; \<open>fb\<close> is extended by the console \<open>fbcon\<close> and by the input devices \<open>ps2\<close>), and a function of the code
  is a definition with the same name that returns the changed state. Memory that the code reaches through pointers is
  a function from addresses. The hardware is a world of an arbitrary type with the operations on it as arguments:
  \<open>'d io\<close> for ports, \<open>'d bus\<close> for memory-mapped registers and shared rings, \<open>'d disk\<close> for sectors, \<open>'d nic\<close> for the card that the
  network stack sees; reading may change the world. Where the code would fault, leave an array or loop for ever the
  result is \<open>None\<close>, and every theorem that a function works states that it returns \<open>Some\<close>.

  \<^bold>\<open>Theories, and the code they model.\<close>
  \<^item> \<open>Prelude\<close>: names of the integer types, bytes of words, the loop \<open>foldM\<close>, shared lemmas.
  \<^item> \<open>Pmm\<close>, \<^verbatim>\<open>kernel/pmm.c\<close>: the page bitmap. Initialisation makes exactly the usable pages above the first megabyte
    free; allocation returns the first free page, release makes a page free once. Interface \<open>page_allocator\<close>.
  \<^item> \<open>Vmm\<close>, \<^verbatim>\<open>kernel/vmm.c\<close>: four-level page tables and the TLB as a cache. Mapping and unmapping refine updates of a map
    from pages to translations; unmapping a huge page, which the code does wrongly, is stated as it is.
  \<^item> \<open>Heap\<close>, \<^verbatim>\<open>kernel/heap.c\<close>: first-fit allocation on a doubly linked list, related to an abstract list of blocks in the
    order of their addresses (there may be a gap where growing the heap failed half way). Allocation is \<open>first_fit\<close> on this list, growing the heap
    and splitting included, and release is \<open>mark_free\<close> followed by \<open>coalesce\<close>. Interface \<open>block_allocator\<close>.
  \<^item> \<open>Process\<close>, \<^verbatim>\<open>kernel/process.c\<close>: the process table, creation, round-robin scheduling with a fairness bound, exit.
  \<^item> \<open>CString\<close>, \<^verbatim>\<open>lib/string.c\<close>, and \<open>Stdio\<close>, \<open>Console\<close>, \<^verbatim>\<open>lib/stdio.c\<close>: strings, number conversion, and \<open>vsnprintf\<close> against
    a renderer \<open>render\<close> that does not know buffers, for outputs whose string arguments fit (\<open>strs_fit\<close>); a string that does not fit
    goes round the buffer, or for ever, and this is stated as it is. Output goes to the console and to the serial line.
  \<^item> \<open>Ports\<close>, \<^verbatim>\<open>cpu/ports.h\<close> and \<^verbatim>\<open>drivers/serial.c\<close>.
  \<^item> \<open>Framebuffer\<close>, \<^verbatim>\<open>drivers/fb.c\<close>, \<^verbatim>\<open>drivers/font.c\<close>, \<^verbatim>\<open>gui/window.c\<close>: pixels, glyphs, rectangles; drawing is a picture laid over
    the screen (\<open>paints\<close>). \<open>Fbcon\<close>, \<^verbatim>\<open>drivers/fbcon.c\<close>: the console refines a terminal of characters, and its pixels always
    show its cells.
  \<^item> \<open>Interrupts\<close>, \<^verbatim>\<open>cpu/gdt.c\<close>, \<^verbatim>\<open>cpu/idt.c\<close>, \<^verbatim>\<open>cpu/isr.c\<close>, \<^verbatim>\<open>drivers/timer.c\<close>: descriptor tables, interrupt controller, dispatch and
    the timer. \<open>Ps2\<close>, \<^verbatim>\<open>drivers/keyboard.c\<close>, \<^verbatim>\<open>drivers/mouse.c\<close>: the ring buffer of keys is a bounded queue (interface
    \<open>bounded_queue\<close>), and the keys mean what a US keyboard has printed on them; mouse packets; both handlers route every byte to its device.
  \<^item> \<open>Net\<close>, \<^verbatim>\<open>net/net.c\<close>: Ethernet, ARP, IPv4 and ICMP. Requests are answered, and a ping returns on any card with the
    interface \<open>nic_progress\<close>, which \<open>Card\<close> gives for the driver below.
  \<^item> \<open>Pci\<close>, \<^verbatim>\<open>drivers/pci.c\<close> (interface \<open>pci_bus\<close>), \<open>E1000\<close>, \<^verbatim>\<open>drivers/e1000.c\<close>, and \<open>Card\<close>: a specification of a card that works on its rings whenever it
    likes (interface \<open>e1000_card\<close>), and the proof that the driver's rings are two queues of frames under it; with a card that keeps up and finitely
    many frames to come (interface \<open>e1000_link\<close>) the network stack on the driver always returns.
  \<^item> \<open>Ata\<close>, \<^verbatim>\<open>drivers/ata.c\<close>, over drives that follow the protocol (interface \<open>ata_drive\<close>), and \<open>Fat32\<close>, \<^verbatim>\<open>drivers/fat32.c\<close>, over any
    \<open>block_device\<close>, which the driver gives; on a sound \<open>volume\<close> writing, reading and deleting are updates of a map from
    names to contents.
  \<^item> \<open>Usermode\<close>, \<^verbatim>\<open>kernel/usermode.c\<close> and \<^verbatim>\<open>kernel/elf_loader.c\<close>, and \<open>Syscall\<close>, \<^verbatim>\<open>kernel/syscall.c\<close> and \<^verbatim>\<open>kernel/vfs.c\<close>: loading a program
    makes the user region exactly the image of the file; system calls on the page tables of the program.
  \<^item> \<open>Machine\<close>: the states side by side, for what stands above the components. \<open>Shell\<close>, \<^verbatim>\<open>shell/shell.c\<close>: the line editor, the
    parser and every command. \<open>Kernel\<close>, \<^verbatim>\<open>kernel/kernel.c\<close> and the exceptions of \<^verbatim>\<open>cpu/isr.c\<close>: booting, the clock, and the report of an
    exception, whose text is specified apart from the handler.

  \<^bold>\<open>Across components.\<close> The heap is proved on the page tables and the page allocator, processes on the heap, the
  timer interrupt on the scheduler, the file system on the disk driver, the console on the font and the framebuffer, printing on
  formatting, console and serial line. On the whole machine: what \<open>write\<close> stores \<open>cat\<close> prints; the line editor reads from the keyboard's queue and
  echoes on the console; the booted screen carries a console in its invariant, and the clock process, running between the
  turns of the shell, never disturbs it.

  \<^bold>\<open>Bounds.\<close> Polling loops have the bounds of the code (\<open>ATA_POLLS\<close> is 4000000, \<open>E1000_SPINS\<close> 1000000). Loops without a bound in the
  code (waits, chains of clusters, strings, the shell itself) are partial functions, with \<open>None\<close> for a loop that never ends. In the network
  stack answering a frame may poll for frames and answer them in turn; the depth of this nesting is an argument, and a depth
  above the number of frames still to come is proved enough. The clock process and the scheduler run for ever; they are stated for any
  number of turns. Interrupts between two steps are a function of the environment (\<open>e_halt\<close>), constrained only in the hypotheses of a theorem.

  \<^bold>\<open>Interfaces.\<close> Each interface is interpreted in the theory that provides it: the allocators and the queue of keys on the code's own
  operations, the block device and the volume on the disk driver, and the hardware on a simulated device that follows its
  specification. The same simulations serve the examples that end each theory.

  \<^bold>\<open>Not modelled.\<close>
  \<^item> Assembly: the interrupt and system call stubs (\<^verbatim>\<open>cpu/isr_stub.asm\<close>, \<^verbatim>\<open>cpu/syscall_entry.asm\<close>), the built-in program
    (\<^verbatim>\<open>cpu/usermode_prog.asm\<close>, a byte string argument), and instructions such as \<open>lgdt\<close>, \<open>iretq\<close> and \<open>hlt\<close>, which appear as the state
    that they load or as an outcome.
  \<^item> \<^verbatim>\<open>kernel/limine.h\<close> apart from the structures that the kernel reads: it is the header of the boot protocol.
  \<^item> The diagnostics that drivers and loader print; the output of the shell, of system calls and of exceptions is modelled.
  \<^item> The bytes of the kernel's own memory that the heap hands out (\<open>m_mem\<close>) and the headers in it (\<open>hmem\<close>) are separate maps, since the
    blocks never overlap the headers; the same holds for the pages of the card's rings.
  \<^item> Preemption inside a function: a handler runs between two operations, never within one. The code does not lock the heap, and
    a timer interrupt in the middle of \<open>kmalloc\<close> may call \<open>kfree\<close> on the half-changed list; this is outside the model.
  \<^item> User programs, build scripts, linker scripts and configuration.
\<close>

end
